(* ===== verification/Lua_Prelude.thy ===== *)
theory Lua_Prelude
  imports Main "HOL-Library.Word"
begin

text \<open>
  Shared vocabulary of the development: the fixed-width C types the sources use, results
  that may be errors, C character classes in the "C" locale, and small lemmas on lists,
  results and words that every component reuses.

  A C \<open>char\<close> is an Isabelle \<open>char\<close> (256 values); a C string is the list of its
  characters without the terminating NUL.  \<open>int\<close> values whose overflow matters are
  words; the others are mathematical integers.
\<close>

unbundle bit_operations_syntax

section \<open>C types\<close>

type_synonym u8 = "8 word"
type_synonym u32 = "32 word"
type_synonym u64 = "64 word"

section \<open>Results\<close>

text \<open>
  A raise (\<open>luaG_runerror\<close>, \<open>luaL_error\<close>, \<open>luaD_throw\<close>) is \<open>Inl\<close>, a return is \<open>Inr\<close>.  The
  error codes are those of \<^verbatim>\<open>lua.h\<close> with the message; \<open>UB\<close> marks what C leaves undefined
  and a model must show never to happen: a read outside an object, a NULL dereference.
\<close>

datatype lua_err = LUA_ERRRUN string | LUA_ERRSYNTAX string | LUA_ERRMEM | UB string

definition bindE :: "('e + 'a) \<Rightarrow> ('a \<Rightarrow> 'e + 'b) \<Rightarrow> 'e + 'b" where
  "bindE m f = (case m of Inl e \<Rightarrow> Inl e | Inr x \<Rightarrow> f x)"

named_theorems res_simps "rewrite rules for results"

lemma bindE_simps [simp, res_simps]:
  "bindE (Inl e) f = Inl e"
  "bindE (Inr x) f = f x"
  by (simp_all add: bindE_def)

lemma bindE_eq_Inr [res_simps]:
  "(bindE m f = Inr y) = (\<exists>x. m = Inr x \<and> f x = Inr y)"
  by (cases m) auto

lemma bindE_eq_Inl [res_simps]:
  "(bindE m f = Inl e) = (m = Inl e \<or> (\<exists>x. m = Inr x \<and> f x = Inl e))"
  by (cases m) auto

lemma bindE_cong [fundef_cong]:
  "m = m' \<Longrightarrow> (\<And>x. m' = Inr x \<Longrightarrow> f x = g x) \<Longrightarrow> bindE m f = bindE m' g"
  by (cases m') auto

lemma bindE_assoc: "bindE (bindE m f) g = bindE m (\<lambda>x. bindE (f x) g)"
  by (cases m) auto

definition guardE :: "bool \<Rightarrow> 'e \<Rightarrow> 'e + unit" where
  "guardE b e = (if b then Inr () else Inl e)"

lemma guardE_simps [simp, res_simps]:
  "guardE True e = Inr ()"
  "guardE False e = Inl e"
  by (simp_all add: guardE_def)

lemma guardE_eq [res_simps]:
  "(guardE b e = Inr u) = b"
  "(guardE b e = Inl e') = (\<not> b \<and> e = e')"
  by (auto simp: guardE_def)

text \<open>\<open>returns Q m\<close>: the computation returns, and what it returns satisfies \<open>Q\<close>.\<close>

definition returns :: "('a \<Rightarrow> bool) \<Rightarrow> 'e + 'a \<Rightarrow> bool" where
  "returns Q m = (\<exists>x. m = Inr x \<and> Q x)"

lemma returns_simps [simp, res_simps]:
  "returns Q (Inr x) = Q x"
  "returns Q (Inl e) = False"
  by (auto simp: returns_def)

lemma returns_bind: "returns P m \<Longrightarrow> (\<And>x. P x \<Longrightarrow> returns Q (f x)) \<Longrightarrow> returns Q (bindE m f)"
  by (auto simp: returns_def)

lemma returns_mono: "returns P m \<Longrightarrow> (\<And>x. P x \<Longrightarrow> Q x) \<Longrightarrow> returns Q m"
  by (auto simp: returns_def)

lemma returns_if: "(b \<Longrightarrow> returns Q m) \<Longrightarrow> (\<not> b \<Longrightarrow> returns Q n) \<Longrightarrow> returns Q (if b then m else n)"
  by simp

section \<open>Characters and the C locale\<close>


text \<open>
  \<open>uchar\<close> reads a \<open>char\<close> as the \<open>unsigned char\<close> promoted to \<open>int\<close>; \<open>schar\<close> is the
  promotion of a plain (signed, x86-64) \<open>char\<close>.
\<close>

definition uchar :: "char \<Rightarrow> int" where
  "uchar c = of_char c"

definition schar :: "char \<Rightarrow> int" where
  "schar c = (if uchar c < 128 then uchar c else uchar c - 256)"

definition chr_of :: "int \<Rightarrow> char" where
  "chr_of i = char_of i"

lemma uchar_chr_of: "0 \<le> i \<Longrightarrow> i < 256 \<Longrightarrow> uchar (chr_of i) = i"
  by (simp add: uchar_def chr_of_def)

lemma chr_of_uchar [simp]: "chr_of (uchar c) = c"
  by (simp add: uchar_def chr_of_def)

lemma uchar_inj [simp]: "(uchar c = uchar d) = (c = d)"
  by (simp add: uchar_def)

lemma uchar_mod [simp]: "uchar c mod 256 = uchar c"
  by (simp add: uchar_def)

lemma uchar_ge_0 [simp]: "0 \<le> uchar c"
proof -
  have "0 \<le> uchar c mod 256" by (rule pos_mod_sign) simp
  then show ?thesis by simp
qed

lemma uchar_less_256 [simp]: "uchar c < 256"
proof -
  have "uchar c mod 256 < 256" by (rule pos_mod_bound) simp
  then show ?thesis by simp
qed

lemma uchar_eq_iff: "0 \<le> i \<Longrightarrow> i < 256 \<Longrightarrow> (uchar c = i) = (c = chr_of i)"
  by (metis chr_of_uchar uchar_chr_of)

text \<open>The classification functions of \<open>ctype.h\<close> on \<open>int\<close> codes, in the "C" locale.\<close>

definition isdigit :: "int \<Rightarrow> bool" where
  "isdigit c = (48 \<le> c \<and> c \<le> 57)"

definition isupper :: "int \<Rightarrow> bool" where
  "isupper c = (65 \<le> c \<and> c \<le> 90)"

definition islower :: "int \<Rightarrow> bool" where
  "islower c = (97 \<le> c \<and> c \<le> 122)"

definition isalpha :: "int \<Rightarrow> bool" where
  "isalpha c = (isupper c \<or> islower c)"

definition isalnum :: "int \<Rightarrow> bool" where
  "isalnum c = (isalpha c \<or> isdigit c)"

definition isspace :: "int \<Rightarrow> bool" where
  "isspace c = (c = 32 \<or> 9 \<le> c \<and> c \<le> 13)"

definition iscntrl :: "int \<Rightarrow> bool" where
  "iscntrl c = (0 \<le> c \<and> c \<le> 31 \<or> c = 127)"

definition ispunct :: "int \<Rightarrow> bool" where
  "ispunct c = (33 \<le> c \<and> c \<le> 126 \<and> \<not> isalnum c)"

definition isxdigit :: "int \<Rightarrow> bool" where
  "isxdigit c = (isdigit c \<or> 65 \<le> c \<and> c \<le> 70 \<or> 97 \<le> c \<and> c \<le> 102)"

definition tolower :: "int \<Rightarrow> int" where
  "tolower c = (if isupper c then c + 32 else c)"

definition toupper :: "int \<Rightarrow> int" where
  "toupper c = (if islower c then c - 32 else c)"

named_theorems ctype_defs "definitions of the character classes"

lemmas ctype_base [ctype_defs] =
  isdigit_def isupper_def islower_def isalpha_def isalnum_def isspace_def iscntrl_def
  ispunct_def isxdigit_def tolower_def toupper_def

section \<open>Lists\<close>

text \<open>Reading a NUL-terminated C string: position \<open>length s\<close> holds the terminator.\<close>

definition cstr_at :: "string \<Rightarrow> nat \<Rightarrow> char" where
  "cstr_at s i = (if i < length s then s ! i else CHR 0x00)"

lemma cstr_at_less [simp]: "i < length s \<Longrightarrow> cstr_at s i = s ! i"
  by (simp add: cstr_at_def)

lemma cstr_at_ge [simp]: "length s \<le> i \<Longrightarrow> cstr_at s i = CHR 0x00"
  by (simp add: cstr_at_def)

lemma cstr_at_nonzero: "cstr_at s i \<noteq> CHR 0x00 \<Longrightarrow> i < length s"
  by (rule ccontr) simp

lemma nth_list_update_if:
  "j < length xs \<Longrightarrow> xs[i := v] ! j = (if i = j then v else xs ! j)"
  by (cases "i = j") auto

lemma set_update_subset: "set (xs[i := v]) \<subseteq> insert v (set xs)"
  by (rule set_update_subset_insert)

lemma list_all_nth_iff: "list_all P xs = (\<forall>i<length xs. P (xs ! i))"
  by (simp add: list_all_length)

section \<open>Bits\<close>

lemma bit_small: "0 \<le> v \<Longrightarrow> v < 2 ^ n \<Longrightarrow> bit (v :: int) k = (k < n \<and> bit v k)"
  by (metis bit_take_bit_iff take_bit_int_eq_self)

lemma bit_small_ge: "0 \<le> v \<Longrightarrow> v < 2 ^ n \<Longrightarrow> n \<le> k \<Longrightarrow> \<not> bit (v :: int) k"
  by (metis bit_small not_less)

end
