(* ===== verification/Lua_Object.thy ===== *)
theory Lua_Object
  imports Lua_Prelude
begin

text \<open>
  \<^verbatim>\<open>lobject.h\<close>, \<^verbatim>\<open>lobject.c\<close>, \<^verbatim>\<open>llimits.h\<close> and the number macros of \<^verbatim>\<open>luaconf.h\<close>:
  tagged values, their raw equality, numbers, the "floating point byte", the integer
  logarithm and chunk identifiers.

  A \<open>lua_Number\<close> is the 64-bit pattern of an IEEE 754 double, so that \<open>memcpy\<close> of a
  number, equality with NaN and signed zeros, and the conversions between \<open>int\<close> and
  \<open>double\<close> are computed on the bits, as the machine does.  The out-of-range conversion to
  \<open>int\<close>, undefined in C, is the value x86-64 gives (\<open>INT_MIN\<close>).
\<close>

section \<open>Numbers\<close>

type_synonym lua_Number = u64

definition d_sign :: "lua_Number \<Rightarrow> bool" where
  "d_sign d = (2 ^ 63 \<le> unat d)"

definition d_exp :: "lua_Number \<Rightarrow> nat" where
  "d_exp d = unat d div 2 ^ 52 mod 2048"

definition d_frac :: "lua_Number \<Rightarrow> nat" where
  "d_frac d = unat d mod 2 ^ 52"

definition d_iszero :: "lua_Number \<Rightarrow> bool" where
  "d_iszero d = (d_exp d = 0 \<and> d_frac d = 0)"

definition d_isnan :: "lua_Number \<Rightarrow> bool" where
  "d_isnan d = (d_exp d = 2047 \<and> d_frac d \<noteq> 0)"

definition luai_numeq :: "lua_Number \<Rightarrow> lua_Number \<Rightarrow> bool" where
  "luai_numeq a b = (\<not> d_isnan a \<and> \<not> d_isnan b \<and> (a = b \<or> d_iszero a \<and> d_iszero b))"

definition luai_numisnan :: "lua_Number \<Rightarrow> bool" where
  "luai_numisnan a = (\<not> luai_numeq a a)"

text \<open>The magnitude bits of a finite double are ordered as its absolute value.\<close>

definition d_mag :: "lua_Number \<Rightarrow> nat" where
  "d_mag d = unat d mod 2 ^ 63"

definition luai_numlt :: "lua_Number \<Rightarrow> lua_Number \<Rightarrow> bool" where
  "luai_numlt a b =
     (\<not> d_isnan a \<and> \<not> d_isnan b \<and>
      (if d_sign a then (if d_sign b then d_mag b < d_mag a else \<not> (d_iszero a \<and> d_iszero b))
       else \<not> d_sign b \<and> d_mag a < d_mag b))"

definition luai_numle :: "lua_Number \<Rightarrow> lua_Number \<Rightarrow> bool" where
  "luai_numle a b = (luai_numlt a b \<or> luai_numeq a b)"

text \<open>\<open>cast_num\<close> of an \<open>int\<close>: exact, as every 32-bit integer is a double.\<close>

fun ilog2 :: "nat \<Rightarrow> nat" where
  "ilog2 n = (if n \<le> 1 then 0 else Suc (ilog2 (n div 2)))"

declare ilog2.simps [simp del]

definition cast_num :: "int \<Rightarrow> lua_Number" where
  "cast_num k =
     (if k = 0 then 0
      else let n = nat \<bar>k\<bar>; e = ilog2 n in
        of_nat ((if k < 0 then 2 ^ 63 else 0) + (1023 + e) * 2 ^ 52 + (n - 2 ^ e) * 2 ^ (52 - e)))"

definition INT_MIN :: int where "INT_MIN = - (2 ^ 31)"
definition INT_MAX :: int where "INT_MAX = 2 ^ 31 - 1"
definition MAX_INT :: int where "MAX_INT = INT_MAX - 2"

text \<open>The cast \<open>(int)(d)\<close>: truncation toward zero.\<close>

definition lua_number2int :: "lua_Number \<Rightarrow> int" where
  "lua_number2int d =
     (if d_exp d < 1023 then 0
      else if 1023 + 31 \<le> d_exp d then INT_MIN
      else let m = int ((2 ^ 52 + d_frac d) div 2 ^ (52 - (d_exp d - 1023)))
           in if d_sign d then - m else m)"

subsection \<open>Laws of the conversions\<close>

lemma ilog2_bounds: "0 < n \<Longrightarrow> 2 ^ ilog2 n \<le> n \<and> n < 2 ^ Suc (ilog2 n)"
proof (induction n rule: ilog2.induct)
  case (1 n)
  show ?case
  proof (cases "n \<le> 1")
    case True
    with 1 show ?thesis by (simp add: ilog2.simps)
  next
    case False
    with 1 have "2 ^ ilog2 (n div 2) \<le> n div 2 \<and> n div 2 < 2 ^ Suc (ilog2 (n div 2))" by simp
    with False show ?thesis by (simp add: ilog2.simps [of n]) linarith
  qed
qed

lemma ilog2_less: "0 < n \<Longrightarrow> n < 2 ^ k \<Longrightarrow> ilog2 n < k"
  by (metis ilog2_bounds le_less_trans one_less_numeral_iff power_less_imp_less_exp semiring_norm(76))

lemma ilog2_unique: "2 ^ e \<le> n \<Longrightarrow> n < 2 ^ Suc e \<Longrightarrow> ilog2 n = e"
proof -
  assume a: "2 ^ e \<le> n" "n < 2 ^ Suc e"
  then have n: "0 < n" by (metis gr_zeroI le_zero_eq power_not_zero zero_neq_numeral)
  have "(2::nat) ^ e < 2 ^ Suc (ilog2 n)" using ilog2_bounds [OF n] a(1) by linarith
  moreover have "(2::nat) ^ ilog2 n < 2 ^ Suc e" using ilog2_bounds [OF n] a(2) by linarith
  ultimately have "e < Suc (ilog2 n)" "ilog2 n < Suc e"
    by (simp_all del: power_Suc)
  then show ?thesis by simp
qed

lemma unat_of_nat_64: "n < 2 ^ 64 \<Longrightarrow> unat (of_nat n :: lua_Number) = n"
  by (simp add: unat_of_nat)

lemma d_fields_pattern:
  assumes "s < 2" "e < 2048" "f < 2 ^ 52" "unat d = s * 2 ^ 63 + e * 2 ^ 52 + f"
  shows "d_sign d = (s = 1)" "d_exp d = e" "d_frac d = f"
proof -
  show "d_sign d = (s = 1)"
    using assms by (cases s) (auto simp: d_sign_def)
  have "unat d = f + (s * 2048 + e) * 2 ^ 52" using assms(4) by simp
  then have "unat d div 2 ^ 52 = s * 2048 + e" "unat d mod 2 ^ 52 = f"
    using assms(3) by (simp_all only: div_mult_self1 mod_mult_self1 div_less mod_less power_eq_0_iff) simp_all
  then show "d_exp d = e" "d_frac d = f"
    using assms(2) by (simp_all add: d_exp_def d_frac_def)
qed

lemma cast_num_unat:
  assumes "k \<noteq> 0" "\<bar>k\<bar> < 2 ^ 53"
  defines "n \<equiv> nat \<bar>k\<bar>"
  shows "unat (cast_num k) =
    (if k < 0 then 1 else 0) * 2 ^ 63 + (1023 + ilog2 n) * 2 ^ 52 + (n - 2 ^ ilog2 n) * 2 ^ (52 - ilog2 n)"
    and "ilog2 n \<le> 52" "(n - 2 ^ ilog2 n) * 2 ^ (52 - ilog2 n) < 2 ^ 52"
proof -
  have n: "0 < n" "n < 2 ^ 53" using assms by (simp_all add: nat_less_iff)
  show e: "ilog2 n \<le> 52" using ilog2_less [OF n] by simp
  have "n - 2 ^ ilog2 n < 2 ^ ilog2 n" using ilog2_bounds [OF n(1)] by (simp only: power_Suc) linarith
  then have "(n - 2 ^ ilog2 n) * 2 ^ (52 - ilog2 n) < 2 ^ ilog2 n * 2 ^ (52 - ilog2 n)" by simp
  also have "\<dots> = 2 ^ 52" using e by (simp flip: power_add)
  finally show f: "(n - 2 ^ ilog2 n) * 2 ^ (52 - ilog2 n) < 2 ^ 52" .
  have "(if k < 0 then 2 ^ 63 else 0) + (1023 + ilog2 n) * 2 ^ 52 + (n - 2 ^ ilog2 n) * 2 ^ (52 - ilog2 n) < (2::nat) ^ 64"
    using e f by (auto split: if_splits)
  from unat_of_nat_64 [OF this] show "unat (cast_num k) =
    (if k < 0 then 1 else 0) * 2 ^ 63 + (1023 + ilog2 n) * 2 ^ 52 + (n - 2 ^ ilog2 n) * 2 ^ (52 - ilog2 n)"
    using assms by (simp add: cast_num_def Let_def del: of_nat_add of_nat_mult split: if_splits)
qed

lemma cast_num_fields:
  assumes "k \<noteq> 0" "\<bar>k\<bar> < 2 ^ 53"
  defines "n \<equiv> nat \<bar>k\<bar>"
  shows "d_sign (cast_num k) = (k < 0)" "d_exp (cast_num k) = 1023 + ilog2 n"
    "d_frac (cast_num k) = (n - 2 ^ ilog2 n) * 2 ^ (52 - ilog2 n)"
proof -
  note u = cast_num_unat [OF assms(1,2), folded n_def]
  note F = d_fields_pattern [OF _ _ u(3) u(1)]
  show "d_sign (cast_num k) = (k < 0)" "d_exp (cast_num k) = 1023 + ilog2 n"
    "d_frac (cast_num k) = (n - 2 ^ ilog2 n) * 2 ^ (52 - ilog2 n)"
    using F u(2) by auto
qed

lemma cast_num_0 [simp]: "cast_num 0 = 0"
  by (simp add: cast_num_def)

lemma cast_num_not_nan: "\<bar>k\<bar> < 2 ^ 53 \<Longrightarrow> \<not> d_isnan (cast_num k)"
  by (cases "k = 0") (use cast_num_fields cast_num_unat(2) in \<open>auto simp: d_isnan_def d_exp_def\<close>)

lemma cast_num_iszero: "\<bar>k\<bar> < 2 ^ 53 \<Longrightarrow> d_iszero (cast_num k) = (k = 0)"
  by (cases "k = 0") (use cast_num_fields in \<open>auto simp: d_iszero_def d_exp_def d_frac_def\<close>)

lemma number2int_cast_num:
  assumes "INT_MIN \<le> k" "k \<le> INT_MAX"
  shows "lua_number2int (cast_num k) = k"
proof (cases "k = 0")
  case True
  then show ?thesis by (simp add: lua_number2int_def d_exp_def)
next
  case False
  define n where "n = nat \<bar>k\<bar>"
  have k: "\<bar>k\<bar> < 2 ^ 53" using assms by (simp add: INT_MIN_def INT_MAX_def)
  note F = cast_num_fields [OF False k, folded n_def]
  note e = cast_num_unat(2) [OF False k, folded n_def]
  have n: "0 < n" "n \<le> 2 ^ 31" using False assms by (simp_all add: n_def INT_MIN_def INT_MAX_def nat_le_iff)
  show ?thesis
  proof (cases "ilog2 n \<ge> 31")
    case True
    then have "(2::nat) ^ 31 \<le> 2 ^ ilog2 n" by (intro power_increasing) auto
    then have "n = 2 ^ 31" using ilog2_bounds [OF n(1)] n(2) by linarith
    then have "k = INT_MIN" using assms by (simp add: n_def INT_MIN_def INT_MAX_def)
    with True F show ?thesis by (simp add: lua_number2int_def)
  next
    case False
    have "(2::nat) ^ 52 = 2 ^ ilog2 n * 2 ^ (52 - ilog2 n)" using e by (simp flip: power_add)
    then have "2 ^ 52 + d_frac (cast_num k) = (2 ^ ilog2 n + (n - 2 ^ ilog2 n)) * 2 ^ (52 - ilog2 n)"
      unfolding F(3) by (simp only: add_mult_distrib)
    also have "\<dots> = n * 2 ^ (52 - ilog2 n)" using ilog2_bounds [OF n(1)] by simp
    finally have "(2 ^ 52 + d_frac (cast_num k)) div 2 ^ (52 - (d_exp (cast_num k) - 1023)) = n"
      using F(2) by simp
    then show ?thesis using False F(1,2) by (simp add: lua_number2int_def n_def Let_def)
  qed
qed

lemma luai_numeq_cast_num:
  assumes "INT_MIN \<le> j" "j \<le> INT_MAX" "INT_MIN \<le> k" "k \<le> INT_MAX"
  shows "luai_numeq (cast_num j) (cast_num k) = (j = k)"
proof -
  have b: "\<bar>j\<bar> < 2 ^ 53" "\<bar>k\<bar> < 2 ^ 53" using assms by (simp_all add: INT_MIN_def INT_MAX_def)
  have "cast_num j = cast_num k \<Longrightarrow> j = k"
    using number2int_cast_num assms by metis
  then show ?thesis
    using b by (auto simp: luai_numeq_def cast_num_not_nan cast_num_iszero)
qed

lemma number2int_range: "INT_MIN \<le> lua_number2int d \<and> lua_number2int d \<le> INT_MAX"
proof (cases "1023 \<le> d_exp d \<and> d_exp d < 1054")
  case True
  have f: "2 ^ 52 + d_frac d < 2 ^ 53" by (simp add: d_frac_def)
  have "(2 ^ 52 + d_frac d) div 2 ^ (52 - (d_exp d - 1023)) < 2 ^ 31"
  proof -
    have "(2::nat) ^ 53 = 2 ^ (1 + (d_exp d - 1023)) * 2 ^ (52 - (d_exp d - 1023))"
      using True by (simp flip: power_add)
    then have "(2 ^ 52 + d_frac d) div 2 ^ (52 - (d_exp d - 1023)) < 2 ^ (1 + (d_exp d - 1023))"
      using f by (simp only: less_mult_imp_div_less)
    also have "(2::nat) ^ (1 + (d_exp d - 1023)) \<le> 2 ^ 31"
      using True by (intro power_increasing) auto
    finally show ?thesis .
  qed
  then have "int ((2 ^ 52 + d_frac d) div 2 ^ (52 - (d_exp d - 1023))) < 2 ^ 31"
    by (metis of_nat_less_iff of_nat_numeral of_nat_power)
  then show ?thesis using True by (auto simp: lua_number2int_def INT_MIN_def INT_MAX_def Let_def)
next
  case False
  then show ?thesis by (auto simp: lua_number2int_def INT_MIN_def INT_MAX_def)
qed

section \<open>Tagged values\<close>

text \<open>
  A collectable value carries the address of its object; the other values carry their
  payload.  \<open>VProto\<close>, \<open>VUpval\<close> and \<open>VDeadKey\<close> are the tags for non-values.
\<close>

type_synonym addr = u64

datatype TValue =
    VNil
  | VBoolean int
  | VLightUserdata u64
  | VNumber lua_Number
  | VString addr
  | VTable addr
  | VFunction addr
  | VUserdata addr
  | VThread addr
  | VProto addr
  | VUpval addr
  | VDeadKey addr

fun ttype :: "TValue \<Rightarrow> nat" where
  "ttype VNil = 0"
| "ttype (VBoolean b) = 1"
| "ttype (VLightUserdata p) = 2"
| "ttype (VNumber n) = 3"
| "ttype (VString a) = 4"
| "ttype (VTable a) = 5"
| "ttype (VFunction a) = 6"
| "ttype (VUserdata a) = 7"
| "ttype (VThread a) = 8"
| "ttype (VProto a) = 9"
| "ttype (VUpval a) = 10"
| "ttype (VDeadKey a) = 11"

definition iscollectable :: "TValue \<Rightarrow> bool" where
  "iscollectable v = (ttype v \<ge> 4)"

text \<open>\<open>gcvalue\<close>, read only where \<open>iscollectable\<close> holds.\<close>

fun gcvalue :: "TValue \<Rightarrow> addr option" where
  "gcvalue (VString a) = Some a"
| "gcvalue (VTable a) = Some a"
| "gcvalue (VFunction a) = Some a"
| "gcvalue (VUserdata a) = Some a"
| "gcvalue (VThread a) = Some a"
| "gcvalue (VProto a) = Some a"
| "gcvalue (VUpval a) = Some a"
| "gcvalue (VDeadKey a) = Some a"
| "gcvalue _ = None"

lemma iscollectable_gcvalue: "iscollectable v = (gcvalue v \<noteq> None)"
  by (cases v) (simp_all add: iscollectable_def)

definition ttisnil :: "TValue \<Rightarrow> bool" where
  "ttisnil v = (ttype v = 0)"

definition ttisnumber :: "TValue \<Rightarrow> bool" where
  "ttisnumber v = (ttype v = 3)"

definition ttisstring :: "TValue \<Rightarrow> bool" where
  "ttisstring v = (ttype v = 4)"

lemma ttisnil_iff [simp]: "ttisnil v = (v = VNil)"
  by (cases v) (simp_all add: ttisnil_def)

lemma ttisnumber_iff: "ttisnumber v = (\<exists>n. v = VNumber n)"
  by (cases v) (simp_all add: ttisnumber_def)

lemma ttisstring_iff: "ttisstring v = (\<exists>a. v = VString a)"
  by (cases v) (simp_all add: ttisstring_def)

fun l_isfalse :: "TValue \<Rightarrow> bool" where
  "l_isfalse VNil = True"
| "l_isfalse (VBoolean b) = (b = 0)"
| "l_isfalse _ = False"

fun luaO_rawequalObj :: "TValue \<Rightarrow> TValue \<Rightarrow> bool" where
  "luaO_rawequalObj t1 t2 =
     (if ttype t1 \<noteq> ttype t2 then False
      else case t1 of
        VNil \<Rightarrow> True
      | VNumber n \<Rightarrow> (case t2 of VNumber m \<Rightarrow> luai_numeq n m | _ \<Rightarrow> False)
      | VBoolean b \<Rightarrow> (case t2 of VBoolean c \<Rightarrow> b = c | _ \<Rightarrow> False)
      | VLightUserdata p \<Rightarrow> (case t2 of VLightUserdata q \<Rightarrow> p = q | _ \<Rightarrow> False)
      | _ \<Rightarrow> gcvalue t1 = gcvalue t2)"

definition rangeisnil :: "TValue list \<Rightarrow> nat \<Rightarrow> nat \<Rightarrow> bool" where
  "rangeisnil stk b e = (\<forall>p \<in> set [b..<e]. ttisnil (stk ! p))"

text \<open>Raw equality is partial equality: only NaN differs from itself, only the zeros are merged.\<close>

lemma rawequal_refl: "luaO_rawequalObj v v = (\<forall>n. v = VNumber n \<longrightarrow> \<not> d_isnan n)"
  by (cases v) (auto simp: luai_numeq_def)

lemma rawequal_sym: "luaO_rawequalObj v w = luaO_rawequalObj w v"
  by (cases v; cases w) (auto simp: luai_numeq_def)

lemma rawequal_trans: "luaO_rawequalObj u v \<Longrightarrow> luaO_rawequalObj v w \<Longrightarrow> luaO_rawequalObj u w"
  by (cases u; cases v; cases w) (auto simp: luai_numeq_def split: if_splits)

lemma rawequal_nonnumber:
  "\<not> ttisnumber v \<Longrightarrow> luaO_rawequalObj v w = (v = w)"
  by (cases v; cases w) (auto simp: ttisnumber_def)

lemma rawequal_nil [simp]: "luaO_rawequalObj v VNil = (v = VNil)" "luaO_rawequalObj VNil v = (v = VNil)"
  by (cases v; simp)+

section \<open>The floating point byte\<close>

function int2fb_loop :: "u32 \<Rightarrow> nat \<Rightarrow> u32 \<times> nat" where
  "int2fb_loop x e = (if x \<ge> 16 then int2fb_loop (drop_bit 1 (x + 1)) (e + 1) else (x, e))"
  by pat_completeness auto
termination
proof (relation "measure (\<lambda>(x, e). unat x)")
  fix x :: u32 and e :: nat
  assume x: "x \<ge> 16"
  have "unat (drop_bit 1 (x + 1)) = unat (x + 1) div 2"
    by (simp add: drop_bit_eq_div unat_div)
  moreover have "unat (x + 1) \<le> unat x + 1"
    by (simp add: unat_word_ariths(1))
  moreover have "16 \<le> unat x" using x by (simp add: word_le_nat_alt)
  ultimately show "((drop_bit 1 (x + 1), e + 1), x, e) \<in> measure (\<lambda>(x, e). unat x)" by simp
qed simp

declare int2fb_loop.simps [simp del]

definition luaO_int2fb :: "u32 \<Rightarrow> int" where
  "luaO_int2fb x =
     (let (y, e) = int2fb_loop x 0
      in if y < 8 then uint y else push_bit 3 (int e + 1) OR (uint y - 8))"

definition luaO_fb2int :: "int \<Rightarrow> int" where
  "luaO_fb2int x =
     (let e = drop_bit 3 x AND 31
      in if e = 0 then x else push_bit (nat (e - 1)) ((x AND 7) + 8))"

section \<open>Integer logarithm\<close>

definition log_2 :: "nat list" where
  "log_2 =
    [0,1,2,2,3,3,3,3,4,4,4,4,4,4,4,4,5,5,5,5,5,5,5,5,5,5,5,5,5,5,5,5,
     6,6,6,6,6,6,6,6,6,6,6,6,6,6,6,6,6,6,6,6,6,6,6,6,6,6,6,6,6,6,6,6,
     7,7,7,7,7,7,7,7,7,7,7,7,7,7,7,7,7,7,7,7,7,7,7,7,7,7,7,7,7,7,7,7,
     7,7,7,7,7,7,7,7,7,7,7,7,7,7,7,7,7,7,7,7,7,7,7,7,7,7,7,7,7,7,7,7,
     8,8,8,8,8,8,8,8,8,8,8,8,8,8,8,8,8,8,8,8,8,8,8,8,8,8,8,8,8,8,8,8,
     8,8,8,8,8,8,8,8,8,8,8,8,8,8,8,8,8,8,8,8,8,8,8,8,8,8,8,8,8,8,8,8,
     8,8,8,8,8,8,8,8,8,8,8,8,8,8,8,8,8,8,8,8,8,8,8,8,8,8,8,8,8,8,8,8,
     8,8,8,8,8,8,8,8,8,8,8,8,8,8,8,8,8,8,8,8,8,8,8,8,8,8,8,8,8,8,8,8]"

function luaO_log2_loop :: "int \<Rightarrow> u32 \<Rightarrow> int" where
  "luaO_log2_loop l x =
     (if x \<ge> 256 then luaO_log2_loop (l + 8) (drop_bit 8 x) else l + int (log_2 ! unat x))"
  by pat_completeness auto
termination
  by (relation "measure (\<lambda>(l, x). unat x)")
    (auto simp: drop_bit_eq_div unat_div word_le_nat_alt)

declare luaO_log2_loop.simps [simp del]

definition luaO_log2 :: "u32 \<Rightarrow> int" where
  "luaO_log2 x = luaO_log2_loop (- 1) x"

definition ceillog2 :: "u32 \<Rightarrow> int" where
  "ceillog2 x = luaO_log2 (x - 1) + 1"

subsection \<open>Laws of the logarithm\<close>

lemma log_2_ilog2: "0 < n \<Longrightarrow> n < 256 \<Longrightarrow> log_2 ! n = Suc (ilog2 n)"
proof -
  have "\<forall>n \<in> set [1..<256]. log_2 ! n = Suc (ilog2 n)"
    by code_simp
  then show "0 < n \<Longrightarrow> n < 256 \<Longrightarrow> log_2 ! n = Suc (ilog2 n)" by auto
qed

lemma ilog2_div256: "256 \<le> n \<Longrightarrow> ilog2 n = ilog2 (n div 256) + 8"
proof -
  assume n: "256 \<le> n"
  then have b: "2 ^ ilog2 (n div 256) \<le> n div 256 \<and> n div 256 < 2 ^ Suc (ilog2 (n div 256))"
    by (intro ilog2_bounds) simp
  show ?thesis
  proof (rule ilog2_unique)
    show "2 ^ (ilog2 (n div 256) + 8) \<le> n"
      using b div_times_less_eq_dividend [of n 256] by (simp add: power_add) linarith
    show "n < 2 ^ Suc (ilog2 (n div 256) + 8)"
      using b by (simp add: div_less_iff_less_mult power_add)
  qed
qed

lemma luaO_log2_loop_eq: "x \<noteq> 0 \<Longrightarrow> luaO_log2_loop l x = l + 1 + int (ilog2 (unat x))"
proof (induction l x rule: luaO_log2_loop.induct)
  case (1 l x)
  show ?case
  proof (cases "x \<ge> 256")
    case True
    have u: "unat (drop_bit 8 x) = unat x div 256" by (simp add: drop_bit_eq_div unat_div)
    have x: "256 \<le> unat x" using True by (simp add: word_le_nat_alt)
    then have "drop_bit 8 x \<noteq> 0" using u by (auto simp: unat_eq_0 [symmetric])
    with 1 True have "luaO_log2_loop (l + 8) (drop_bit 8 x) = l + 8 + 1 + int (ilog2 (unat (drop_bit 8 x)))"
      by blast
    then show ?thesis
      using True ilog2_div256 [OF x] u by (simp add: luaO_log2_loop.simps [of l x])
  next
    case False
    then have "unat x < 256" "0 < unat x"
      using 1(2) by (simp_all add: word_le_nat_alt unat_gt_0)
    with False log_2_ilog2 show ?thesis by (simp add: luaO_log2_loop.simps [of l x])
  qed
qed

text \<open>\<open>ceillog2\<close> is the least exponent whose power of two reaches its argument.\<close>

lemma ceillog2_spec:
  assumes "x \<noteq> 0"
  obtains m where "ceillog2 x = int m" "\<And>k. unat x \<le> 2 ^ k \<longleftrightarrow> m \<le> k"
proof (cases "x = 1")
  case True
  then have "ceillog2 x = int 0" by (simp add: ceillog2_def luaO_log2_def luaO_log2_loop.simps log_2_def)
  then show thesis using that [of 0] True by simp
next
  case ne: False
  define n where "n = unat x"
  have n: "1 < n" using assms ne unfolding n_def by (metis One_nat_def Suc_lessI unat_1 unat_gt_0 word_unat_eq_iff)
  have u: "unat (x - 1) = n - 1" using assms by (simp add: n_def unat_minus_one)
  then have cl: "ceillog2 x = int (Suc (ilog2 (n - 1)))"
    using luaO_log2_loop_eq [of "x - 1"] ne by (simp add: ceillog2_def luaO_log2_def)
  have b: "2 ^ ilog2 (n - 1) \<le> n - 1" "n - 1 < 2 ^ Suc (ilog2 (n - 1))"
    using ilog2_bounds [of "n - 1"] n by simp_all
  have "n \<le> 2 ^ k \<longleftrightarrow> Suc (ilog2 (n - 1)) \<le> k" for k
  proof
    assume "n \<le> 2 ^ k"
    then have "(2::nat) ^ ilog2 (n - 1) < 2 ^ k" using b n by linarith
    then show "Suc (ilog2 (n - 1)) \<le> k" by simp
  next
    assume "Suc (ilog2 (n - 1)) \<le> k"
    then have "(2::nat) ^ Suc (ilog2 (n - 1)) \<le> 2 ^ k" by (rule power_increasing) simp
    then show "n \<le> 2 ^ k" using b(2) by linarith
  qed
  then show thesis unfolding n_def by (rule that [OF cl [unfolded n_def]])
qed

text \<open>
  The table-driven \<open>luaO_log2\<close> is the integer logarithm on every nonzero 32-bit
  value, it is \<open>-1\<close> at zero, and \<open>ceillog2\<close> is the least exponent whose power of two
  reaches its argument.
\<close>

theorem luaO_log2_correct:
  "(x = 0 \<longrightarrow> luaO_log2 x = - 1) \<and>
   (x \<noteq> 0 \<longrightarrow> luaO_log2 x = int (ilog2 (unat x)) \<and>
      2 ^ nat (luaO_log2 x) \<le> unat x \<and> unat x < 2 ^ nat (luaO_log2 x + 1) \<and>
      unat x \<le> 2 ^ nat (ceillog2 x) \<and> (\<forall>k. unat x \<le> 2 ^ k \<longrightarrow> nat (ceillog2 x) \<le> k))"
proof (cases "x = 0")
  case True
  then show ?thesis
    by (simp add: luaO_log2_def luaO_log2_loop.simps log_2_def)
next
  case False
  define n where "n = unat x"
  have n: "0 < n" using False by (simp add: n_def unat_gt_0)
  have l: "luaO_log2 x = int (ilog2 n)" using False by (simp add: luaO_log2_def luaO_log2_loop_eq n_def)
  have c: "n \<le> 2 ^ nat (ceillog2 x) \<and> (\<forall>k. n \<le> 2 ^ k \<longrightarrow> nat (ceillog2 x) \<le> k)"
    using ceillog2_spec [OF False] unfolding n_def by (metis nat_int order_refl)
  have "nat (int (ilog2 n) + 1) = Suc (ilog2 n)" by simp
  then show ?thesis using c l ilog2_bounds [OF n] False by (simp add: n_def)
qed

theorem luaO_log2_correct_witness: "luaO_log2 1000 = 9 \<and> unat (1000 :: u32) \<le> 2 ^ nat (ceillog2 1000)"
proof -
  have "luaO_log2 1000 = int (ilog2 1000)" "unat (1000 :: u32) \<le> 2 ^ nat (ceillog2 1000)"
    using luaO_log2_correct [of 1000] by simp_all
  moreover have "ilog2 1000 = 9" by (simp add: ilog2.simps)
  ultimately show ?thesis by simp
qed

subsection \<open>Laws of the floating point byte\<close>

text \<open>The loop halves rounding up: it ends with a quotient below 16 and its exponent.\<close>

lemma unat_half_up: "unat x < 2 ^ 32 - 1 \<Longrightarrow> unat (drop_bit 1 (x + 1 :: u32)) = (unat x + 1) div 2"
proof -
  assume "unat x < 2 ^ 32 - 1"
  then have "unat (x + 1) = unat x + 1" by (simp add: unat_word_ariths(1))
  then show ?thesis by (simp add: drop_bit_eq_div unat_div)
qed

lemma int2fb_loop_bounds:
  "int2fb_loop x e = (y, e') \<Longrightarrow> unat x < 2 ^ 32 - 1 \<Longrightarrow>
     e \<le> e' \<and> unat y < 16 \<and> unat x \<le> unat y * 2 ^ (e' - e) \<and>
     unat y * 2 ^ (e' - e) < unat x + 2 ^ (e' - e) \<and> (e < e' \<longrightarrow> 8 \<le> unat y)"
proof (induction x e rule: int2fb_loop.induct)
  case (1 x e)
  show ?case
  proof (cases "x \<ge> 16")
    case True
    define x' where "x' = drop_bit 1 (x + 1)"
    have u: "unat x' = (unat x + 1) div 2" unfolding x'_def by (rule unat_half_up) (rule 1(3))
    have x16: "16 \<le> unat x" using True by (simp add: word_le_nat_alt)
    from 1(2) True have "int2fb_loop x' (e + 1) = (y, e')"
      by (simp add: int2fb_loop.simps [of x e] x'_def)
    moreover have "unat x' < 2 ^ 32 - 1" using u 1(3) by simp
    ultimately have IH: "e + 1 \<le> e' \<and> unat y < 16 \<and> unat x' \<le> unat y * 2 ^ (e' - (e + 1)) \<and>
        unat y * 2 ^ (e' - (e + 1)) < unat x' + 2 ^ (e' - (e + 1)) \<and> (e + 1 < e' \<longrightarrow> 8 \<le> unat y)"
      using 1(1) [OF True] by (simp add: x'_def)
    have p: "(2::nat) ^ (e' - e) = 2 * 2 ^ (e' - (e + 1))"
      using IH by (metis Suc_diff_Suc Suc_eq_plus1 Suc_le_lessD power_Suc)
    have g: "unat x \<le> 2 * unat x'" "2 * unat x' \<le> unat x + 1" using u by auto
    have "8 \<le> unat y"
    proof (cases "e + 1 = e'")
      case True
      with IH have "unat y \<ge> unat x'" by simp
      then show ?thesis using u x16 by linarith
    qed (use IH in auto)
    moreover have "unat x \<le> unat y * (2 * 2 ^ (e' - (e + 1)))"
      using IH g(1) by (simp add: mult.left_commute)
    moreover have "unat y * (2 * 2 ^ (e' - (e + 1))) < unat x + 2 * 2 ^ (e' - (e + 1))"
      using IH g(2) by (simp add: mult.left_commute)
    ultimately show ?thesis using IH by (simp only: p) simp
  next
    case False
    with 1(2) have "y = x" "e' = e" by (simp_all add: int2fb_loop.simps)
    with False show ?thesis by (simp add: word_le_nat_alt)
  qed
qed

lemma int2fb_decode:
  assumes "int2fb_loop x 0 = (y, e)" "unat y < 16" "8 \<le> unat y" "e \<le> 30"
  shows "luaO_fb2int (luaO_int2fb x) = int (unat y * 2 ^ e) \<and> 8 \<le> luaO_int2fb x \<and> luaO_int2fb x < 256"
proof -
  have y: "8 \<le> uint y" "uint y < 16"
  proof -
    have "uint y = int (unat y)" by simp
    then show "8 \<le> uint y" "uint y < 16" using assms(2,3) by linarith+
  qed
  have "push_bit 3 (int e + 1) OR (uint y - 8) = push_bit 3 (int e + 1) + (uint y - 8)"
  proof -
    have "push_bit 3 (int e + 1) AND (uint y - 8) = 0"
      by (rule bit_eqI)
        (use y bit_small_ge [of "uint y - 8" 3] in \<open>auto simp: bit_and_iff bit_push_bit_iff\<close>)
    then show ?thesis using plus_and_or [of "push_bit 3 (int e + 1)" "uint y - 8"] by simp
  qed
  then have v: "luaO_int2fb x = (int e + 1) * 8 + (uint y - 8)"
    using assms(1) y(1) by (simp add: luaO_int2fb_def word_less_def push_bit_eq_mult)
  have "drop_bit 3 (luaO_int2fb x) = int e + 1"
    using y by (simp add: v drop_bit_eq_div)
  moreover have "(int e + 1) AND 31 = int e + 1"
    using assms(4) take_bit_int_eq_self [of "int e + 1" 5] by (simp add: take_bit_eq_mask mask_eq_exp_minus_1)
  moreover have "luaO_int2fb x AND 7 = uint y - 8"
  proof -
    have "uint y mod 8 = uint y - 8" using y by presburger
    then have "luaO_int2fb x mod 8 = uint y - 8" by (simp add: v)
    then show ?thesis
      using take_bit_eq_mask [of 3 "luaO_int2fb x"] by (simp add: take_bit_eq_mod mask_eq_exp_minus_1)
  qed
  ultimately have "luaO_fb2int (luaO_int2fb x) = push_bit e (uint y)"
    by (simp add: luaO_fb2int_def)
  then show ?thesis using v y assms(4) by (simp add: push_bit_eq_mult)
qed

text \<open>
  The floating point byte rounds up: for every size below \<open>2 ^ 32 - 1\<close> the encoded
  byte fits an operand field, the decoded size is at least the given one, it exceeds it by
  at most an eighth of itself, and sizes below 16 are exact.
\<close>

theorem int2fb_rounds_up:
  assumes "unat x < 2 ^ 32 - 1"
  shows "0 \<le> luaO_int2fb x \<and> luaO_int2fb x < 256 \<and>
    uint x \<le> luaO_fb2int (luaO_int2fb x) \<and>
    8 * (luaO_fb2int (luaO_int2fb x) - uint x) \<le> luaO_fb2int (luaO_int2fb x) \<and>
    (uint x < 16 \<longrightarrow> luaO_fb2int (luaO_int2fb x) = uint x)"
proof -
  obtain y e where L: "int2fb_loop x 0 = (y, e)" by fastforce
  note B = int2fb_loop_bounds [OF L assms, simplified]
  have ux: "uint x = int (unat x)" by simp
  show ?thesis
  proof (cases "y < 8")
    case True
    then have "unat y < 8" by (simp add: word_less_nat_alt)
    then have e: "e = 0" using B by auto
    then have "unat y = unat x" using B by simp
    then have "y = x" by (simp add: word_unat_eq_iff)
    then have v: "luaO_int2fb x = uint x" "uint x < 8"
      using True L by (simp_all add: luaO_int2fb_def word_less_def)
    then have "drop_bit 3 (uint x) = 0" by (simp add: drop_bit_eq_div)
    with v show ?thesis by (simp add: luaO_fb2int_def)
  next
    case False
    then have y: "8 \<le> unat y" by (simp add: word_less_nat_alt)
    have e: "e \<le> 30"
    proof (rule ccontr)
      assume "\<not> e \<le> 30"
      then have "(2::nat) ^ 31 \<le> 2 ^ e" by (intro power_increasing) auto
      then have "(2147483648::nat) \<le> 2 ^ e" by simp
      moreover have "8 * 2 ^ e \<le> unat y * 2 ^ e" using y by simp
      moreover have "unat y * 2 ^ e < unat x + 2 ^ e" using B by blast
      moreover have "unat x < 4294967295" using assms by simp
      ultimately show False by linarith
    qed
    have D: "luaO_fb2int (luaO_int2fb x) = int (unat y * 2 ^ e)" "8 \<le> luaO_int2fb x" "luaO_int2fb x < 256"
      using int2fb_decode [OF L _ y e] B by auto
    have "8 * 2 ^ e \<le> unat y * 2 ^ e" using y by simp
    then have r: "unat x \<le> unat y * 2 ^ e" "8 * (unat y * 2 ^ e) \<le> unat y * 2 ^ e + 8 * unat x"
      using B by linarith+
    define m where "m = unat y * 2 ^ e"
    have s: "m = unat x" if "unat x < 16"
      using L that by (simp add: m_def int2fb_loop.simps word_le_nat_alt split: if_splits)
    have r': "unat x \<le> m" "8 * m \<le> m + 8 * unat x" using r by (simp_all add: m_def)
    show ?thesis
      unfolding ux D(1) m_def [symmetric]
    proof (intro conjI impI)
      show "0 \<le> luaO_int2fb x" "luaO_int2fb x < 256" using D(2,3) by linarith+
      show "int (unat x) \<le> int m" using r'(1) by linarith
      have "int (8 * m) \<le> int (m + 8 * unat x)" using r'(2) by (simp only: of_nat_le_iff)
      then show "8 * (int m - int (unat x)) \<le> int m" by simp
      show "int m = int (unat x)" if "int (unat x) < 16"
        using that s by (metis of_nat_less_iff of_nat_numeral)
    qed
  qed
qed

theorem int2fb_rounds_up_witness:
  "unat (1000 :: u32) < 2 ^ 32 - 1 \<and> luaO_int2fb 1000 < 256 \<and> 1000 \<le> luaO_fb2int (luaO_int2fb 1000)"
  using int2fb_rounds_up [of 1000] by simp

section \<open>Chunk identifiers\<close>

text \<open>
  \<open>luaO_chunkid\<close> writes a printable name of a source into a buffer of \<open>bufflen\<close> bytes;
  the model returns the C string written.  \<open>strncpy\<close> copies at most \<open>bufflen\<close>
  characters and the last one is then overwritten by the terminator.  \<open>bufflen\<close> is a
  \<open>size_t\<close>, so its two subtractions are on 64-bit words.
\<close>

definition strcspn_nl :: "string \<Rightarrow> nat" where
  "strcspn_nl s = length (takeWhile (\<lambda>c. c \<noteq> CHR 0x0A \<and> c \<noteq> CHR 0x0D) s)"

definition luaO_chunkid :: "string \<Rightarrow> u64 \<Rightarrow> string" where
  "luaO_chunkid source bufflen =
     (if cstr_at source 0 = CHR ''='' then take (unat bufflen - 1) (drop 1 source)
      else if cstr_at source 0 = CHR ''@'' then
        let source = drop 1 source;
            bufflen = bufflen - 8;
            l = length source
        in if of_nat l > bufflen then ''...'' @ drop (l - unat bufflen) source
           else source
      else
        let len = strcspn_nl source;
            bufflen = bufflen - 17;
            len = (if of_nat len > bufflen then unat bufflen else len)
        in ''[string '' @ [CHR 0x22] @
           (if len < length source then take len source @ ''...'' else source) @
           [CHR 0x22] @ '']'')"

text \<open>
  C6. A chunk identifier always fits its buffer, terminator included, for every source
  name of less than \<open>2 ^ 63\<close> characters and every buffer of at least 17 bytes (the callers
  use 60 and 80).
\<close>

theorem chunkid_fits:
  assumes "17 \<le> bufflen" "length source < 2 ^ 63"
  shows "length (luaO_chunkid source bufflen) + 1 \<le> unat bufflen"
proof -
  have b: "17 \<le> unat bufflen" using assms(1) by (simp add: word_le_nat_alt)
  then have s8: "unat (bufflen - 8) = unat bufflen - 8" and s17: "unat (bufflen - 17) = unat bufflen - 17"
    using assms(1) by (simp_all add: unat_sub word_le_nat_alt)
  have ofl: "unat (of_nat l :: u64) = l" if "l \<le> length source" for l
    using that assms(2) by (simp add: unat_of_nat)
  have cs: "strcspn_nl source \<le> length source"
    by (simp add: strcspn_nl_def length_takeWhile_le)
  show ?thesis
    using b cs
    by (auto simp: luaO_chunkid_def Let_def s8 s17 word_less_nat_alt ofl)
qed

theorem chunkid_fits_witness:
  "length (luaO_chunkid ''@some/long/path/name.lua'' 20) + 1 \<le> unat (20 :: u64)"
  by (rule chunkid_fits) simp_all

end
