(* ===== verification/Lua_Opcodes.thy ===== *)
theory Lua_Opcodes
  imports Lua_Prelude
begin

text \<open>
  \<^verbatim>\<open>lopcodes.h\<close> and \<^verbatim>\<open>lopcodes.c\<close>: the 32-bit instruction format.  The bit-field macros
  are kept as word operations (\<open>MASK1\<close>, \<open>MASK0\<close>, shifts), the opcode enumeration as a
  datatype with its numbering, and the property table \<open>luaP_opmodes\<close> as the table of
  bytes of the source.  The locale \<open>instr_field\<close> is what the code generator and the
  interpreter rely on: a field read back after a write, and fields that do not disturb
  each other.
\<close>

type_synonym Instruction = u32

section \<open>Layout\<close>

definition SIZE_C :: nat where "SIZE_C = 9"
definition SIZE_B :: nat where "SIZE_B = 9"
definition SIZE_Bx :: nat where "SIZE_Bx = SIZE_C + SIZE_B"
definition SIZE_A :: nat where "SIZE_A = 8"
definition SIZE_OP :: nat where "SIZE_OP = 6"
definition POS_OP :: nat where "POS_OP = 0"
definition POS_A :: nat where "POS_A = POS_OP + SIZE_OP"
definition POS_C :: nat where "POS_C = POS_A + SIZE_A"
definition POS_B :: nat where "POS_B = POS_C + SIZE_C"
definition POS_Bx :: nat where "POS_Bx = POS_C"

lemmas layout_defs =
  SIZE_C_def SIZE_B_def SIZE_Bx_def SIZE_A_def SIZE_OP_def
  POS_OP_def POS_A_def POS_C_def POS_B_def POS_Bx_def

definition MAXARG_Bx :: int where "MAXARG_Bx = 2 ^ SIZE_Bx - 1"
definition MAXARG_sBx :: int where "MAXARG_sBx = MAXARG_Bx div 2"
definition MAXARG_A :: int where "MAXARG_A = 2 ^ SIZE_A - 1"
definition MAXARG_B :: int where "MAXARG_B = 2 ^ SIZE_B - 1"
definition MAXARG_C :: int where "MAXARG_C = 2 ^ SIZE_C - 1"
definition NO_REG :: int where "NO_REG = MAXARG_A"

lemmas maxarg_defs = MAXARG_Bx_def MAXARG_sBx_def MAXARG_A_def MAXARG_B_def MAXARG_C_def NO_REG_def

section \<open>Bit fields\<close>

definition MASK1 :: "nat \<Rightarrow> nat \<Rightarrow> Instruction" where
  "MASK1 n p = push_bit p (NOT (push_bit n (NOT 0)))"

definition MASK0 :: "nat \<Rightarrow> nat \<Rightarrow> Instruction" where
  "MASK0 n p = NOT (MASK1 n p)"

text \<open>The common shape of the \<open>GETARG\<close>/\<open>SETARG\<close> macros, for a field of \<open>n\<close> bits at \<open>p\<close>.\<close>

definition get_field :: "nat \<Rightarrow> nat \<Rightarrow> Instruction \<Rightarrow> int" where
  "get_field n p i = uint (drop_bit p i AND MASK1 n 0)"

definition set_field :: "nat \<Rightarrow> nat \<Rightarrow> Instruction \<Rightarrow> int \<Rightarrow> Instruction" where
  "set_field n p i v = (i AND MASK0 n p) OR (push_bit p (word_of_int v) AND MASK1 n p)"

definition GET_OPCODE :: "Instruction \<Rightarrow> int" where
  "GET_OPCODE i = get_field SIZE_OP POS_OP i"

definition SET_OPCODE :: "Instruction \<Rightarrow> int \<Rightarrow> Instruction" where
  "SET_OPCODE i v = set_field SIZE_OP POS_OP i v"

definition GETARG_A :: "Instruction \<Rightarrow> int" where
  "GETARG_A i = get_field SIZE_A POS_A i"

definition SETARG_A :: "Instruction \<Rightarrow> int \<Rightarrow> Instruction" where
  "SETARG_A i u = set_field SIZE_A POS_A i u"

definition GETARG_B :: "Instruction \<Rightarrow> int" where
  "GETARG_B i = get_field SIZE_B POS_B i"

definition SETARG_B :: "Instruction \<Rightarrow> int \<Rightarrow> Instruction" where
  "SETARG_B i b = set_field SIZE_B POS_B i b"

definition GETARG_C :: "Instruction \<Rightarrow> int" where
  "GETARG_C i = get_field SIZE_C POS_C i"

definition SETARG_C :: "Instruction \<Rightarrow> int \<Rightarrow> Instruction" where
  "SETARG_C i b = set_field SIZE_C POS_C i b"

definition GETARG_Bx :: "Instruction \<Rightarrow> int" where
  "GETARG_Bx i = get_field SIZE_Bx POS_Bx i"

definition SETARG_Bx :: "Instruction \<Rightarrow> int \<Rightarrow> Instruction" where
  "SETARG_Bx i b = set_field SIZE_Bx POS_Bx i b"

definition GETARG_sBx :: "Instruction \<Rightarrow> int" where
  "GETARG_sBx i = GETARG_Bx i - MAXARG_sBx"

definition SETARG_sBx :: "Instruction \<Rightarrow> int \<Rightarrow> Instruction" where
  "SETARG_sBx i b = SETARG_Bx i (b + MAXARG_sBx)"

definition CREATE_ABC :: "int \<Rightarrow> int \<Rightarrow> int \<Rightarrow> int \<Rightarrow> Instruction" where
  "CREATE_ABC opc a b c =
     push_bit POS_OP (word_of_int opc) OR push_bit POS_A (word_of_int a)
     OR push_bit POS_B (word_of_int b) OR push_bit POS_C (word_of_int c)"

definition CREATE_ABx :: "int \<Rightarrow> int \<Rightarrow> int \<Rightarrow> Instruction" where
  "CREATE_ABx opc a bc =
     push_bit POS_OP (word_of_int opc) OR push_bit POS_A (word_of_int a)
     OR push_bit POS_Bx (word_of_int bc)"

subsection \<open>RK operands\<close>

definition BITRK :: int where "BITRK = 2 ^ (SIZE_B - 1)"
definition MAXINDEXRK :: int where "MAXINDEXRK = BITRK - 1"

definition ISK :: "int \<Rightarrow> bool" where
  "ISK x = (x AND BITRK \<noteq> 0)"

definition INDEXK :: "int \<Rightarrow> int" where
  "INDEXK r = r AND NOT BITRK"

definition RKASK :: "int \<Rightarrow> int" where
  "RKASK x = x OR BITRK"

section \<open>Opcodes\<close>

datatype OpCode =
    OP_MOVE | OP_LOADK | OP_LOADBOOL | OP_LOADNIL | OP_GETUPVAL
  | OP_GETGLOBAL | OP_GETTABLE | OP_SETGLOBAL | OP_SETUPVAL | OP_SETTABLE
  | OP_NEWTABLE | OP_SELF | OP_ADD | OP_SUB | OP_MUL
  | OP_DIV | OP_MOD | OP_POW | OP_UNM | OP_NOT
  | OP_LEN | OP_CONCAT | OP_JMP | OP_EQ | OP_LT
  | OP_LE | OP_TEST | OP_TESTSET | OP_CALL | OP_TAILCALL
  | OP_RETURN | OP_FORLOOP | OP_FORPREP | OP_TFORLOOP | OP_SETLIST
  | OP_CLOSE | OP_CLOSURE | OP_VARARG

fun opcode_num :: "OpCode \<Rightarrow> nat" where
  "opcode_num OP_MOVE = 0"
| "opcode_num OP_LOADK = 1"
| "opcode_num OP_LOADBOOL = 2"
| "opcode_num OP_LOADNIL = 3"
| "opcode_num OP_GETUPVAL = 4"
| "opcode_num OP_GETGLOBAL = 5"
| "opcode_num OP_GETTABLE = 6"
| "opcode_num OP_SETGLOBAL = 7"
| "opcode_num OP_SETUPVAL = 8"
| "opcode_num OP_SETTABLE = 9"
| "opcode_num OP_NEWTABLE = 10"
| "opcode_num OP_SELF = 11"
| "opcode_num OP_ADD = 12"
| "opcode_num OP_SUB = 13"
| "opcode_num OP_MUL = 14"
| "opcode_num OP_DIV = 15"
| "opcode_num OP_MOD = 16"
| "opcode_num OP_POW = 17"
| "opcode_num OP_UNM = 18"
| "opcode_num OP_NOT = 19"
| "opcode_num OP_LEN = 20"
| "opcode_num OP_CONCAT = 21"
| "opcode_num OP_JMP = 22"
| "opcode_num OP_EQ = 23"
| "opcode_num OP_LT = 24"
| "opcode_num OP_LE = 25"
| "opcode_num OP_TEST = 26"
| "opcode_num OP_TESTSET = 27"
| "opcode_num OP_CALL = 28"
| "opcode_num OP_TAILCALL = 29"
| "opcode_num OP_RETURN = 30"
| "opcode_num OP_FORLOOP = 31"
| "opcode_num OP_FORPREP = 32"
| "opcode_num OP_TFORLOOP = 33"
| "opcode_num OP_SETLIST = 34"
| "opcode_num OP_CLOSE = 35"
| "opcode_num OP_CLOSURE = 36"
| "opcode_num OP_VARARG = 37"

definition luaP_opnames :: "string list" where
  "luaP_opnames = [''MOVE'', ''LOADK'', ''LOADBOOL'', ''LOADNIL'', ''GETUPVAL'', ''GETGLOBAL'',
     ''GETTABLE'', ''SETGLOBAL'', ''SETUPVAL'', ''SETTABLE'', ''NEWTABLE'', ''SELF'',
     ''ADD'', ''SUB'', ''MUL'', ''DIV'', ''MOD'', ''POW'',
     ''UNM'', ''NOT'', ''LEN'', ''CONCAT'', ''JMP'', ''EQ'',
     ''LT'', ''LE'', ''TEST'', ''TESTSET'', ''CALL'', ''TAILCALL'',
     ''RETURN'', ''FORLOOP'', ''FORPREP'', ''TFORLOOP'', ''SETLIST'', ''CLOSE'',
     ''CLOSURE'', ''VARARG'']"

definition all_opcodes :: "OpCode list" where
  "all_opcodes =
    [OP_MOVE, OP_LOADK, OP_LOADBOOL, OP_LOADNIL, OP_GETUPVAL,
     OP_GETGLOBAL, OP_GETTABLE, OP_SETGLOBAL, OP_SETUPVAL, OP_SETTABLE,
     OP_NEWTABLE, OP_SELF, OP_ADD, OP_SUB, OP_MUL,
     OP_DIV, OP_MOD, OP_POW, OP_UNM, OP_NOT,
     OP_LEN, OP_CONCAT, OP_JMP, OP_EQ, OP_LT,
     OP_LE, OP_TEST, OP_TESTSET, OP_CALL, OP_TAILCALL,
     OP_RETURN, OP_FORLOOP, OP_FORPREP, OP_TFORLOOP, OP_SETLIST,
     OP_CLOSE, OP_CLOSURE, OP_VARARG]"

text \<open>An opcode number as the constant of the enumeration, when it is one.\<close>

definition opcode_of :: "int \<Rightarrow> OpCode option" where
  "opcode_of n = (if 0 \<le> n \<and> n < 38 then Some (all_opcodes ! nat n) else None)"

definition NUM_OPCODES :: int where
  "NUM_OPCODES = int (opcode_num OP_VARARG) + 1"

section \<open>Properties of opcodes\<close>

datatype OpMode = iABC | iABx | iAsBx
datatype OpArgMask = OpArgN | OpArgU | OpArgR | OpArgK

fun OpMode_num :: "OpMode \<Rightarrow> nat" where
  "OpMode_num iABC = 0"
| "OpMode_num iABx = 1"
| "OpMode_num iAsBx = 2"

fun OpArgMask_num :: "OpArgMask \<Rightarrow> nat" where
  "OpArgMask_num OpArgN = 0"
| "OpArgMask_num OpArgU = 1"
| "OpArgMask_num OpArgR = 2"
| "OpArgMask_num OpArgK = 3"

definition opmode :: "nat \<Rightarrow> nat \<Rightarrow> OpArgMask \<Rightarrow> OpArgMask \<Rightarrow> OpMode \<Rightarrow> u8" where
  "opmode t a b c m =
     push_bit 7 (of_nat t) OR push_bit 6 (of_nat a) OR push_bit 4 (of_nat (OpArgMask_num b))
     OR push_bit 2 (of_nat (OpArgMask_num c)) OR of_nat (OpMode_num m)"

definition luaP_opmodes :: "u8 list" where
  "luaP_opmodes =
    [opmode 0 1 OpArgR OpArgN iABC,
     opmode 0 1 OpArgK OpArgN iABx,
     opmode 0 1 OpArgU OpArgU iABC,
     opmode 0 1 OpArgR OpArgN iABC,
     opmode 0 1 OpArgU OpArgN iABC,
     opmode 0 1 OpArgK OpArgN iABx,
     opmode 0 1 OpArgR OpArgK iABC,
     opmode 0 0 OpArgK OpArgN iABx,
     opmode 0 0 OpArgU OpArgN iABC,
     opmode 0 0 OpArgK OpArgK iABC,
     opmode 0 1 OpArgU OpArgU iABC,
     opmode 0 1 OpArgR OpArgK iABC,
     opmode 0 1 OpArgK OpArgK iABC,
     opmode 0 1 OpArgK OpArgK iABC,
     opmode 0 1 OpArgK OpArgK iABC,
     opmode 0 1 OpArgK OpArgK iABC,
     opmode 0 1 OpArgK OpArgK iABC,
     opmode 0 1 OpArgK OpArgK iABC,
     opmode 0 1 OpArgR OpArgN iABC,
     opmode 0 1 OpArgR OpArgN iABC,
     opmode 0 1 OpArgR OpArgN iABC,
     opmode 0 1 OpArgR OpArgR iABC,
     opmode 0 0 OpArgR OpArgN iAsBx,
     opmode 1 0 OpArgK OpArgK iABC,
     opmode 1 0 OpArgK OpArgK iABC,
     opmode 1 0 OpArgK OpArgK iABC,
     opmode 1 1 OpArgR OpArgU iABC,
     opmode 1 1 OpArgR OpArgU iABC,
     opmode 0 1 OpArgU OpArgU iABC,
     opmode 0 1 OpArgU OpArgU iABC,
     opmode 0 0 OpArgU OpArgN iABC,
     opmode 0 1 OpArgR OpArgN iAsBx,
     opmode 0 1 OpArgR OpArgN iAsBx,
     opmode 1 0 OpArgN OpArgU iABC,
     opmode 0 0 OpArgU OpArgU iABC,
     opmode 0 0 OpArgN OpArgN iABC,
     opmode 0 1 OpArgU OpArgN iABx,
     opmode 0 1 OpArgU OpArgN iABC]"

text \<open>The casts of the accessor macros back to the enumerations (value 3 of a mode is unused).\<close>

definition OpMode_of :: "u8 \<Rightarrow> OpMode" where
  "OpMode_of w = (if w = 0 then iABC else if w = 1 then iABx else iAsBx)"

definition OpArgMask_of :: "u8 \<Rightarrow> OpArgMask" where
  "OpArgMask_of w = (if w = 0 then OpArgN else if w = 1 then OpArgU
                     else if w = 2 then OpArgR else OpArgK)"

definition getOpMode :: "int \<Rightarrow> OpMode" where
  "getOpMode m = OpMode_of (luaP_opmodes ! nat m AND 3)"

definition getBMode :: "int \<Rightarrow> OpArgMask" where
  "getBMode m = OpArgMask_of (drop_bit 4 (luaP_opmodes ! nat m) AND 3)"

definition getCMode :: "int \<Rightarrow> OpArgMask" where
  "getCMode m = OpArgMask_of (drop_bit 2 (luaP_opmodes ! nat m) AND 3)"

definition testAMode :: "int \<Rightarrow> bool" where
  "testAMode m = (luaP_opmodes ! nat m AND push_bit 6 1 \<noteq> 0)"

definition testTMode :: "int \<Rightarrow> bool" where
  "testTMode m = (luaP_opmodes ! nat m AND push_bit 7 1 \<noteq> 0)"

section \<open>Field laws\<close>

text \<open>The contract of one argument field of an instruction.\<close>

locale instr_field =
  fixes get :: "Instruction \<Rightarrow> int"
    and put :: "Instruction \<Rightarrow> int \<Rightarrow> Instruction"
    and bound :: int
  assumes get_put: "0 \<le> v \<Longrightarrow> v < bound \<Longrightarrow> get (put i v) = v"
    and put_get: "put i (get i) = i"
    and put_put: "put (put i u) v = put i v"
    and get_range: "0 \<le> get i \<and> get i < bound"
begin

lemma put_inj: "0 \<le> u \<Longrightarrow> u < bound \<Longrightarrow> 0 \<le> v \<Longrightarrow> v < bound \<Longrightarrow> (put i u = put i v) = (u = v)"
  by (metis get_put)

lemma put_idem: "put i v = i \<Longrightarrow> 0 \<le> v \<Longrightarrow> v < bound \<Longrightarrow> get i = v"
  by (metis get_put)

end

text \<open>Two fields that overlap nowhere: a write of one keeps the other, writes commute.\<close>

locale disjoint_fields =
  l: instr_field get1 put1 bound1 + r: instr_field get2 put2 bound2
  for get1 :: "Instruction \<Rightarrow> int" and put1 and bound1 and get2 :: "Instruction \<Rightarrow> int" and put2 and bound2 +
  assumes get1_put2: "get1 (put2 i v) = get1 i"
    and get2_put1: "get2 (put1 i v) = get2 i"
    and put_commute: "put1 (put2 i v) u = put2 (put1 i u) v"
begin

lemma get1_after_both:
  "0 \<le> u \<Longrightarrow> u < bound1 \<Longrightarrow> get1 (put2 (put1 i u) v) = u"
  by (simp add: get1_put2 l.get_put)

lemma get2_after_both:
  "0 \<le> v \<Longrightarrow> v < bound2 \<Longrightarrow> get2 (put1 (put2 i v) u) = v"
  by (simp add: get2_put1 r.get_put)

end

lemma bit_MASK1: "bit (MASK1 n p) k = (p \<le> k \<and> k < n + p \<and> k < 32)"
  by (auto simp: MASK1_def bit_simps)

lemma bit_set_field:
  "bit (set_field n p i v) k =
     (k < 32 \<and> (if p \<le> k \<and> k < n + p then bit v (k - p) else bit i k))"
  by (auto simp: set_field_def MASK0_def bit_MASK1 bit_simps dest: bit_imp_le_length)

lemma get_field_eq: "get_field n p i = take_bit n (uint (drop_bit p i))"
proof -
  have "drop_bit p i AND MASK1 n 0 = take_bit n (drop_bit p i)"
    by (rule bit_word_eqI) (auto simp: bit_MASK1 bit_simps dest: bit_imp_le_length)
  then show ?thesis
    by (simp add: get_field_def unsigned_take_bit_eq)
qed

lemma bit_get_field: "bit (get_field n p i) k = (k < n \<and> bit i (p + k))"
  by (auto simp: get_field_eq bit_take_bit_iff bit_uint_iff bit_drop_bit_eq dest: bit_imp_le_length)

lemma get_field_range: "0 \<le> get_field n p i \<and> get_field n p i < 2 ^ n"
  by (simp add: get_field_eq)

lemma get_set_field:
  assumes "n + p \<le> 32" "0 \<le> v" "v < 2 ^ n"
  shows "get_field n p (set_field n p i v) = v"
proof -
  have "take_bit n v = v" using assms by (simp add: take_bit_int_eq_self)
  then have v: "bit v k = (k < n \<and> bit v k)" for k by (metis bit_take_bit_iff)
  show ?thesis
    by (rule bit_eqI) (use v assms in \<open>auto simp: bit_get_field bit_set_field\<close>)
qed

lemma set_get_field: "set_field n p i (get_field n p i) = i"
  by (rule bit_word_eqI) (auto simp: bit_set_field bit_get_field)

lemma set_set_field: "set_field n p (set_field n p i u) v = set_field n p i v"
  by (rule bit_word_eqI) (auto simp: bit_set_field)

lemma get_set_field_other:
  "n + p \<le> q \<or> m + q \<le> p \<Longrightarrow> get_field n p (set_field m q i v) = get_field n p i"
  by (rule bit_eqI) (auto simp: bit_set_field bit_get_field dest: bit_imp_le_length)

lemma set_field_commute:
  "n + p \<le> q \<or> m + q \<le> p \<Longrightarrow>
     set_field n p (set_field m q i v) u = set_field m q (set_field n p i u) v"
  by (rule bit_word_eqI) (auto simp: bit_set_field)

lemma instr_field_field:
  "n + p \<le> 32 \<Longrightarrow> instr_field (get_field n p) (set_field n p) (2 ^ n)"
  by unfold_locales
    (simp_all add: get_set_field set_get_field set_set_field get_field_range)

lemma disjoint_fields_field:
  assumes "n + p \<le> q \<or> m + q \<le> p" "n + p \<le> 32" "m + q \<le> 32"
  shows "disjoint_fields (get_field n p) (set_field n p) (2 ^ n) (get_field m q) (set_field m q) (2 ^ m)"
  using assms
  by (intro disjoint_fields.intro disjoint_fields_axioms.intro instr_field_field)
    (auto simp: get_set_field_other set_field_commute)

lemma field_abs:
  "GET_OPCODE = get_field SIZE_OP POS_OP" "SET_OPCODE = set_field SIZE_OP POS_OP"
  "GETARG_A = get_field SIZE_A POS_A" "SETARG_A = set_field SIZE_A POS_A"
  "GETARG_B = get_field SIZE_B POS_B" "SETARG_B = set_field SIZE_B POS_B"
  "GETARG_C = get_field SIZE_C POS_C" "SETARG_C = set_field SIZE_C POS_C"
  "GETARG_Bx = get_field SIZE_Bx POS_Bx" "SETARG_Bx = set_field SIZE_Bx POS_Bx"
  by (simp_all add: fun_eq_iff GET_OPCODE_def SET_OPCODE_def GETARG_A_def SETARG_A_def
      GETARG_B_def SETARG_B_def GETARG_C_def SETARG_C_def GETARG_Bx_def SETARG_Bx_def)

text \<open>The fields of the two formats are pairwise disjoint; \<open>Bx\<close> covers \<open>B\<close> and \<open>C\<close>.\<close>

interpretation op_A: disjoint_fields GET_OPCODE SET_OPCODE "2 ^ SIZE_OP" GETARG_A SETARG_A "2 ^ SIZE_A"
  unfolding field_abs by (rule disjoint_fields_field) (simp_all add: layout_defs)

interpretation op_B: disjoint_fields GET_OPCODE SET_OPCODE "2 ^ SIZE_OP" GETARG_B SETARG_B "2 ^ SIZE_B"
  unfolding field_abs by (rule disjoint_fields_field) (simp_all add: layout_defs)

interpretation op_C: disjoint_fields GET_OPCODE SET_OPCODE "2 ^ SIZE_OP" GETARG_C SETARG_C "2 ^ SIZE_C"
  unfolding field_abs by (rule disjoint_fields_field) (simp_all add: layout_defs)

interpretation op_Bx: disjoint_fields GET_OPCODE SET_OPCODE "2 ^ SIZE_OP" GETARG_Bx SETARG_Bx "2 ^ SIZE_Bx"
  unfolding field_abs by (rule disjoint_fields_field) (simp_all add: layout_defs)

interpretation A_B: disjoint_fields GETARG_A SETARG_A "2 ^ SIZE_A" GETARG_B SETARG_B "2 ^ SIZE_B"
  unfolding field_abs by (rule disjoint_fields_field) (simp_all add: layout_defs)

interpretation A_C: disjoint_fields GETARG_A SETARG_A "2 ^ SIZE_A" GETARG_C SETARG_C "2 ^ SIZE_C"
  unfolding field_abs by (rule disjoint_fields_field) (simp_all add: layout_defs)

interpretation A_Bx: disjoint_fields GETARG_A SETARG_A "2 ^ SIZE_A" GETARG_Bx SETARG_Bx "2 ^ SIZE_Bx"
  unfolding field_abs by (rule disjoint_fields_field) (simp_all add: layout_defs)

interpretation B_C: disjoint_fields GETARG_B SETARG_B "2 ^ SIZE_B" GETARG_C SETARG_C "2 ^ SIZE_C"
  unfolding field_abs by (rule disjoint_fields_field) (simp_all add: layout_defs)

section \<open>Whole instructions\<close>

lemma bit_word_of_int_32: "bit (word_of_int v :: Instruction) k = (k < 32 \<and> bit v k)"
  by (simp add: bit_simps)

lemma bit_CREATE_ABC:
  assumes "0 \<le> opc" "opc < 2 ^ SIZE_OP" "0 \<le> a" "a < 2 ^ SIZE_A"
    and "0 \<le> b" "b < 2 ^ SIZE_B" "0 \<le> c" "c < 2 ^ SIZE_C"
  shows "bit (CREATE_ABC opc a b c) k =
    (if k < 6 then bit opc k else if k < 14 then bit a (k - 6)
     else if k < 23 then bit c (k - 14) else k < 32 \<and> bit b (k - 23))"
  using bit_small_ge [OF assms(1,2), of k] bit_small_ge [OF assms(3,4), of "k - 6"]
    bit_small_ge [OF assms(5,6), of "k - 23"] bit_small_ge [OF assms(7,8), of "k - 14"]
  by (auto simp: CREATE_ABC_def bit_or_iff bit_push_bit_iff bit_word_of_int_32 layout_defs
      dest: bit_imp_le_length)

lemma bit_CREATE_ABx:
  assumes "0 \<le> opc" "opc < 2 ^ SIZE_OP" "0 \<le> a" "a < 2 ^ SIZE_A" "0 \<le> bx" "bx < 2 ^ SIZE_Bx"
  shows "bit (CREATE_ABx opc a bx) k =
    (if k < 6 then bit opc k else if k < 14 then bit a (k - 6) else k < 32 \<and> bit bx (k - 14))"
  using bit_small_ge [OF assms(1,2), of k] bit_small_ge [OF assms(3,4), of "k - 6"]
    bit_small_ge [OF assms(5,6), of "k - 14"]
  by (auto simp: CREATE_ABx_def bit_or_iff bit_push_bit_iff bit_word_of_int_32 layout_defs
      dest: bit_imp_le_length)

lemmas field_ranges =
  op_A.l.get_range op_A.r.get_range op_B.r.get_range op_C.r.get_range op_Bx.r.get_range

lemma CREATE_ABC_fields:
  "CREATE_ABC (GET_OPCODE i) (GETARG_A i) (GETARG_B i) (GETARG_C i) = i"
proof (rule bit_word_eqI)
  fix k assume "k < LENGTH(32)"
  then show "bit (CREATE_ABC (GET_OPCODE i) (GETARG_A i) (GETARG_B i) (GETARG_C i)) k = bit i k"
    by (subst bit_CREATE_ABC) (use field_ranges in \<open>auto simp: field_abs bit_get_field layout_defs\<close>)
qed

lemma CREATE_ABx_fields: "CREATE_ABx (GET_OPCODE i) (GETARG_A i) (GETARG_Bx i) = i"
proof (rule bit_word_eqI)
  fix k assume "k < LENGTH(32)"
  then show "bit (CREATE_ABx (GET_OPCODE i) (GETARG_A i) (GETARG_Bx i)) k = bit i k"
    by (subst bit_CREATE_ABx) (use field_ranges in \<open>auto simp: field_abs bit_get_field layout_defs\<close>)
qed

text \<open>
  Decoding is lossless: every 32-bit instruction is rebuilt from its opcode and fields,
  in the \<open>iABC\<close> format and in the \<open>iABx\<close> format, and the signed operand of the \<open>iAsBx\<close>
  format lies within \<open>MAXARG_sBx\<close> below and one above it.
\<close>

theorem instruction_decode_encode:
  "CREATE_ABC (GET_OPCODE i) (GETARG_A i) (GETARG_B i) (GETARG_C i) = i \<and>
   CREATE_ABx (GET_OPCODE i) (GETARG_A i) (GETARG_Bx i) = i \<and>
   - MAXARG_sBx \<le> GETARG_sBx i \<and> GETARG_sBx i \<le> MAXARG_sBx + 1"
  using field_ranges(5) [of i]
  by (simp add: CREATE_ABC_fields CREATE_ABx_fields GETARG_sBx_def maxarg_defs layout_defs)

text \<open>
  C5. Encoding is lossless: an instruction built by \<open>CREATE_ABC\<close> from an opcode and operands
  that fit their fields decodes to exactly these, and so does a signed jump offset written by
  \<open>SETARG_sBx\<close>, which leaves the opcode and \<open>A\<close> alone.
\<close>

theorem instruction_encode_decode:
  assumes "0 \<le> opc" "opc < NUM_OPCODES" "0 \<le> a" "a \<le> MAXARG_A"
    and "0 \<le> b" "b \<le> MAXARG_B" "0 \<le> c" "c \<le> MAXARG_C"
    and "- MAXARG_sBx \<le> off" "off \<le> MAXARG_sBx"
  shows "GET_OPCODE (CREATE_ABC opc a b c) = opc \<and> GETARG_A (CREATE_ABC opc a b c) = a \<and>
    GETARG_B (CREATE_ABC opc a b c) = b \<and> GETARG_C (CREATE_ABC opc a b c) = c \<and>
    GETARG_sBx (SETARG_sBx i off) = off \<and>
    GET_OPCODE (SETARG_sBx i off) = GET_OPCODE i \<and> GETARG_A (SETARG_sBx i off) = GETARG_A i"
proof -
  have r: "0 \<le> opc" "opc < 2 ^ SIZE_OP" "0 \<le> a" "a < 2 ^ SIZE_A" "0 \<le> b" "b < 2 ^ SIZE_B"
      "0 \<le> c" "c < 2 ^ SIZE_C"
    using assms by (simp_all add: maxarg_defs layout_defs NUM_OPCODES_def)
  note B = bit_CREATE_ABC [OF r]
  have "GET_OPCODE (CREATE_ABC opc a b c) = opc"
    by (rule bit_eqI) (use bit_small [OF r(1,2)] in \<open>auto simp: field_abs bit_get_field B layout_defs\<close>)
  moreover have "GETARG_A (CREATE_ABC opc a b c) = a"
    by (rule bit_eqI) (use bit_small [OF r(3,4)] in \<open>auto simp: field_abs bit_get_field B layout_defs\<close>)
  moreover have "GETARG_B (CREATE_ABC opc a b c) = b"
    by (rule bit_eqI) (use bit_small [OF r(5,6)] in \<open>auto simp: field_abs bit_get_field B layout_defs\<close>)
  moreover have "GETARG_C (CREATE_ABC opc a b c) = c"
    by (rule bit_eqI) (use bit_small [OF r(7,8)] in \<open>auto simp: field_abs bit_get_field B layout_defs\<close>)
  moreover have "GETARG_sBx (SETARG_sBx i off) = off"
    using assms(9,10) op_Bx.r.get_put [of "off + MAXARG_sBx" i]
    by (simp add: GETARG_sBx_def SETARG_sBx_def maxarg_defs layout_defs)
  ultimately show ?thesis
    by (simp add: SETARG_sBx_def op_Bx.get1_put2 A_Bx.get1_put2)
qed

theorem instruction_encode_decode_witness:
  "GET_OPCODE (CREATE_ABC 28 3 2 1) = 28 \<and> GETARG_sBx (SETARG_sBx 22 (-7)) = -7"
  using instruction_encode_decode [of 28 3 2 1 "-7" 22]
  by (simp add: NUM_OPCODES_def maxarg_defs layout_defs)

text \<open>RK operands: a constant index is told apart from every register and read back.\<close>

lemma RK_laws:
  assumes "0 \<le> x" "x \<le> MAXINDEXRK"
  shows "ISK (RKASK x)" "INDEXK (RKASK x) = x" "\<not> ISK x" "RKASK x \<le> MAXARG_C"
proof -
  have x: "0 \<le> x" "x < 2 ^ 8" using assms by (simp_all add: MAXINDEXRK_def BITRK_def layout_defs)
  have b: "bit (256 :: int) n = (n = 8)" for n
    using bit_exp_iff [of 8 n, where ?'a = int] by simp
  note bx = bit_small [OF x]
  have nx: "\<not> bit x 8" using bx [of 8] by simp
  have "bit ((x OR 256) AND 256) 8" by (simp add: bit_and_iff bit_or_iff b)
  then have "(x OR 256) AND 256 \<noteq> 0" by (metis bit_0_eq bot_apply bot_bool_def)
  then show "ISK (RKASK x)"
    by (simp add: ISK_def RKASK_def BITRK_def layout_defs)
  have x0: "x AND 256 = 0"
    by (rule bit_eqI) (use nx in \<open>auto simp: bit_and_iff b\<close>)
  then show "\<not> ISK x"
    by (simp add: ISK_def BITRK_def layout_defs)
  have nb: "bit (- 257 :: int) n = (n \<noteq> 8)" for n
    using bit_not_iff [of "256 :: int" n] b by simp
  show "INDEXK (RKASK x) = x"
    by (rule bit_eqI)
      (use nx in \<open>auto simp: INDEXK_def RKASK_def BITRK_def layout_defs bit_and_iff bit_or_iff b nb\<close>)
  have "x OR 256 = x + 256" using plus_and_or [of x 256] x0 by simp
  then show "RKASK x \<le> MAXARG_C"
    using x by (simp add: RKASK_def BITRK_def layout_defs maxarg_defs)
qed

section \<open>The opcode table\<close>

lemma luaP_opmodes_length [simp]: "length luaP_opmodes = 38"
  by (simp add: luaP_opmodes_def)

lemma opcode_of_num [simp]: "opcode_of (int (opcode_num opc)) = Some opc"
  by (cases opc) (simp_all add: opcode_of_def all_opcodes_def)

lemma opcode_num_of: "opcode_of n = Some opc \<Longrightarrow> int (opcode_num opc) = n"
proof -
  assume a: "opcode_of n = Some opc"
  then have n: "nat n < 38" "0 \<le> n" and opc: "opc = all_opcodes ! nat n"
    by (auto simp: opcode_of_def split: if_splits)
  have "\<forall>k \<in> {..<38}. opcode_num (all_opcodes ! k) = k"
    by (simp add: all_opcodes_def lessThan_nat_numeral lessThan_Suc)
  then show ?thesis using n opc by simp
qed

lemma opcode_num_inj: "(opcode_num x = opcode_num y) = (x = y)"
  by (metis opcode_of_num option.inject)

text \<open>The table decoded: format, operand modes, "sets A" and "is a test", by opcode number.\<close>

lemma opmode_table:
  "getOpMode 0 = iABC \<and> getBMode 0 = OpArgR \<and> getCMode 0 = OpArgN \<and> testAMode 0 \<and> \<not> testTMode 0"
  "getOpMode 1 = iABx \<and> getBMode 1 = OpArgK \<and> getCMode 1 = OpArgN \<and> testAMode 1 \<and> \<not> testTMode 1"
  "getOpMode 2 = iABC \<and> getBMode 2 = OpArgU \<and> getCMode 2 = OpArgU \<and> testAMode 2 \<and> \<not> testTMode 2"
  "getOpMode 3 = iABC \<and> getBMode 3 = OpArgR \<and> getCMode 3 = OpArgN \<and> testAMode 3 \<and> \<not> testTMode 3"
  "getOpMode 4 = iABC \<and> getBMode 4 = OpArgU \<and> getCMode 4 = OpArgN \<and> testAMode 4 \<and> \<not> testTMode 4"
  "getOpMode 5 = iABx \<and> getBMode 5 = OpArgK \<and> getCMode 5 = OpArgN \<and> testAMode 5 \<and> \<not> testTMode 5"
  "getOpMode 6 = iABC \<and> getBMode 6 = OpArgR \<and> getCMode 6 = OpArgK \<and> testAMode 6 \<and> \<not> testTMode 6"
  "getOpMode 7 = iABx \<and> getBMode 7 = OpArgK \<and> getCMode 7 = OpArgN \<and> \<not> testAMode 7 \<and> \<not> testTMode 7"
  "getOpMode 8 = iABC \<and> getBMode 8 = OpArgU \<and> getCMode 8 = OpArgN \<and> \<not> testAMode 8 \<and> \<not> testTMode 8"
  "getOpMode 9 = iABC \<and> getBMode 9 = OpArgK \<and> getCMode 9 = OpArgK \<and> \<not> testAMode 9 \<and> \<not> testTMode 9"
  "getOpMode 10 = iABC \<and> getBMode 10 = OpArgU \<and> getCMode 10 = OpArgU \<and> testAMode 10 \<and> \<not> testTMode 10"
  "getOpMode 11 = iABC \<and> getBMode 11 = OpArgR \<and> getCMode 11 = OpArgK \<and> testAMode 11 \<and> \<not> testTMode 11"
  "getOpMode 12 = iABC \<and> getBMode 12 = OpArgK \<and> getCMode 12 = OpArgK \<and> testAMode 12 \<and> \<not> testTMode 12"
  "getOpMode 13 = iABC \<and> getBMode 13 = OpArgK \<and> getCMode 13 = OpArgK \<and> testAMode 13 \<and> \<not> testTMode 13"
  "getOpMode 14 = iABC \<and> getBMode 14 = OpArgK \<and> getCMode 14 = OpArgK \<and> testAMode 14 \<and> \<not> testTMode 14"
  "getOpMode 15 = iABC \<and> getBMode 15 = OpArgK \<and> getCMode 15 = OpArgK \<and> testAMode 15 \<and> \<not> testTMode 15"
  "getOpMode 16 = iABC \<and> getBMode 16 = OpArgK \<and> getCMode 16 = OpArgK \<and> testAMode 16 \<and> \<not> testTMode 16"
  "getOpMode 17 = iABC \<and> getBMode 17 = OpArgK \<and> getCMode 17 = OpArgK \<and> testAMode 17 \<and> \<not> testTMode 17"
  "getOpMode 18 = iABC \<and> getBMode 18 = OpArgR \<and> getCMode 18 = OpArgN \<and> testAMode 18 \<and> \<not> testTMode 18"
  "getOpMode 19 = iABC \<and> getBMode 19 = OpArgR \<and> getCMode 19 = OpArgN \<and> testAMode 19 \<and> \<not> testTMode 19"
  "getOpMode 20 = iABC \<and> getBMode 20 = OpArgR \<and> getCMode 20 = OpArgN \<and> testAMode 20 \<and> \<not> testTMode 20"
  "getOpMode 21 = iABC \<and> getBMode 21 = OpArgR \<and> getCMode 21 = OpArgR \<and> testAMode 21 \<and> \<not> testTMode 21"
  "getOpMode 22 = iAsBx \<and> getBMode 22 = OpArgR \<and> getCMode 22 = OpArgN \<and> \<not> testAMode 22 \<and> \<not> testTMode 22"
  "getOpMode 23 = iABC \<and> getBMode 23 = OpArgK \<and> getCMode 23 = OpArgK \<and> \<not> testAMode 23 \<and> testTMode 23"
  "getOpMode 24 = iABC \<and> getBMode 24 = OpArgK \<and> getCMode 24 = OpArgK \<and> \<not> testAMode 24 \<and> testTMode 24"
  "getOpMode 25 = iABC \<and> getBMode 25 = OpArgK \<and> getCMode 25 = OpArgK \<and> \<not> testAMode 25 \<and> testTMode 25"
  "getOpMode 26 = iABC \<and> getBMode 26 = OpArgR \<and> getCMode 26 = OpArgU \<and> testAMode 26 \<and> testTMode 26"
  "getOpMode 27 = iABC \<and> getBMode 27 = OpArgR \<and> getCMode 27 = OpArgU \<and> testAMode 27 \<and> testTMode 27"
  "getOpMode 28 = iABC \<and> getBMode 28 = OpArgU \<and> getCMode 28 = OpArgU \<and> testAMode 28 \<and> \<not> testTMode 28"
  "getOpMode 29 = iABC \<and> getBMode 29 = OpArgU \<and> getCMode 29 = OpArgU \<and> testAMode 29 \<and> \<not> testTMode 29"
  "getOpMode 30 = iABC \<and> getBMode 30 = OpArgU \<and> getCMode 30 = OpArgN \<and> \<not> testAMode 30 \<and> \<not> testTMode 30"
  "getOpMode 31 = iAsBx \<and> getBMode 31 = OpArgR \<and> getCMode 31 = OpArgN \<and> testAMode 31 \<and> \<not> testTMode 31"
  "getOpMode 32 = iAsBx \<and> getBMode 32 = OpArgR \<and> getCMode 32 = OpArgN \<and> testAMode 32 \<and> \<not> testTMode 32"
  "getOpMode 33 = iABC \<and> getBMode 33 = OpArgN \<and> getCMode 33 = OpArgU \<and> \<not> testAMode 33 \<and> testTMode 33"
  "getOpMode 34 = iABC \<and> getBMode 34 = OpArgU \<and> getCMode 34 = OpArgU \<and> \<not> testAMode 34 \<and> \<not> testTMode 34"
  "getOpMode 35 = iABC \<and> getBMode 35 = OpArgN \<and> getCMode 35 = OpArgN \<and> \<not> testAMode 35 \<and> \<not> testTMode 35"
  "getOpMode 36 = iABx \<and> getBMode 36 = OpArgU \<and> getCMode 36 = OpArgN \<and> testAMode 36 \<and> \<not> testTMode 36"
  "getOpMode 37 = iABC \<and> getBMode 37 = OpArgU \<and> getCMode 37 = OpArgN \<and> testAMode 37 \<and> \<not> testTMode 37"
  by (simp_all add: getOpMode_def getBMode_def getCMode_def testAMode_def testTMode_def
      OpMode_of_def OpArgMask_of_def luaP_opmodes_def opmode_def)


end
