(* ===== verification/Lua_Proto.thy ===== *)
theory Lua_Proto
  imports Lua_Object Lua_Opcodes
begin

text \<open>
  Function prototypes (\<open>Proto\<close> and \<open>LocVar\<close> of \<^verbatim>\<open>lobject.h\<close>) and the operations of
  \<^verbatim>\<open>lfunc.c\<close> on them.  Every array with its size field is a list; a \<open>TString *\<close> is the
  string's content, \<open>None\<close> for NULL (strings are interned, so equal contents are equal
  pointers).
\<close>

section \<open>Data\<close>

datatype Const = KNil | KBoolean int | KNumber lua_Number | KString "string option"

fun const_ttype :: "Const \<Rightarrow> int" where
  "const_ttype KNil = 0"
| "const_ttype (KBoolean b) = 1"
| "const_ttype (KNumber n) = 3"
| "const_ttype (KString s) = 4"

record LocVar =
  varname :: "string option"
  startpc :: int
  endpc :: int

datatype Proto = Proto
  (pk: "Const list")
  (pcode: "Instruction list")
  (pp: "Proto list")
  (plineinfo: "int list")
  (plocvars: "LocVar list")
  (pupvalues: "string option list")
  (psource: "string option")
  (plinedefined: int)
  (plastlinedefined: int)
  (pnups: u8)
  (pnumparams: u8)
  (pis_vararg: u8)
  (pmaxstacksize: u8)

definition sizecode :: "Proto \<Rightarrow> int" where "sizecode f = int (length (pcode f))"
definition sizek :: "Proto \<Rightarrow> int" where "sizek f = int (length (pk f))"
definition sizep :: "Proto \<Rightarrow> int" where "sizep f = int (length (pp f))"

definition VARARG_HASARG :: u8 where "VARARG_HASARG = 1"
definition VARARG_ISVARARG :: u8 where "VARARG_ISVARARG = 2"
definition VARARG_NEEDSARG :: u8 where "VARARG_NEEDSARG = 4"

lemmas vararg_defs = VARARG_HASARG_def VARARG_ISVARARG_def VARARG_NEEDSARG_def

definition luaF_newproto :: Proto where
  "luaF_newproto = Proto [] [] [] [] [] [] None 0 0 0 0 0 0"

section \<open>Names of local variables\<close>

text \<open>
  \<open>luaF_getlocalname\<close>: the scan stops at the first variable that starts after \<open>pc\<close>.
\<close>

fun getlocalname_from :: "LocVar list \<Rightarrow> int \<Rightarrow> int \<Rightarrow> string option" where
  "getlocalname_from [] local_number pc = None"
| "getlocalname_from (v # vs) local_number pc =
     (if startpc v \<le> pc then
        if pc < endpc v then
          if local_number - 1 = 0 then varname v
          else getlocalname_from vs (local_number - 1) pc
        else getlocalname_from vs local_number pc
      else None)"

definition luaF_getlocalname :: "Proto \<Rightarrow> int \<Rightarrow> int \<Rightarrow> string option" where
  "luaF_getlocalname f local_number pc = getlocalname_from (plocvars f) local_number pc"

text \<open>The variables active at \<open>pc\<close>, in order of declaration.\<close>

definition active_at :: "int \<Rightarrow> LocVar \<Rightarrow> bool" where
  "active_at pc v = (startpc v \<le> pc \<and> pc < endpc v)"

lemma getlocalname_from_active:
  "sorted (map startpc vs) \<Longrightarrow> 0 < n \<Longrightarrow>
     getlocalname_from vs n pc =
       (let act = filter (active_at pc) vs
        in if nat n \<le> length act then varname (act ! (nat n - 1)) else None)"
proof (induction vs n pc rule: getlocalname_from.induct)
  case (1 n pc)
  then show ?case by simp
next
  case (2 v vs n pc)
  show ?case
  proof (cases "startpc v \<le> pc")
    case False
    have "\<forall>w \<in> set vs. startpc v \<le> startpc w" using "2.prems"(1) by simp
    with False have "filter (active_at pc) (v # vs) = []"
      by (fastforce simp: active_at_def filter_empty_conv)
    with False "2.prems"(2) show ?thesis by (simp add: Let_def)
  next
    case True
    then show ?thesis
      using 2 by (auto simp: active_at_def Let_def nth_Cons' nat_diff_distrib)
  qed
qed

text \<open>
  When the variables are listed in the order their scopes open, as the compiler lists
  them, \<open>luaF_getlocalname\<close> names the n-th variable that is active at the instruction, and
  gives NULL when fewer are active.
\<close>

theorem getlocalname_nth_active:
  assumes "sorted (map startpc (plocvars f))" "0 < n"
  shows "luaF_getlocalname f n pc =
    (let act = filter (active_at pc) (plocvars f)
     in if nat n \<le> length act then varname (act ! (nat n - 1)) else None)"
  using getlocalname_from_active [OF assms] by (simp add: luaF_getlocalname_def)

definition example_scopes :: Proto where
  "example_scopes = Proto [] [] [] []
     [\<lparr>varname = Some ''a'', startpc = 0, endpc = 9\<rparr>, \<lparr>varname = Some ''b'', startpc = 1, endpc = 3\<rparr>,
      \<lparr>varname = Some ''c'', startpc = 4, endpc = 8\<rparr>] [] None 0 0 0 0 0 0"

theorem getlocalname_nth_active_witness:
  "luaF_getlocalname example_scopes 2 5 = Some ''c''"
  by (subst getlocalname_nth_active)
    (simp_all add: example_scopes_def active_at_def Let_def)

end
