(* ===== verification/Lua_CodeCheck.thy ===== *)
theory Lua_CodeCheck
  imports Lua_Proto
begin

text \<open>
  The bytecode checker of \<^verbatim>\<open>ldebug.c\<close> (\<open>precheck\<close>, \<open>checkArgMode\<close>, \<open>luaG_checkopenop\<close>,
  \<open>symbexec\<close>, \<open>luaG_checkcode\<close>), which runs on untrusted precompiled chunks.

  A failed \<open>check\<close> makes \<open>symbexec\<close> return the instruction 0; a read of \<open>code\<close>, \<open>k\<close> or
  \<open>p\<close> outside its array is \<open>UB\<close>, so that the absence of such reads is a theorem and not
  an assumption.  One iteration of the loop is \<open>symb_step\<close>: \<open>None\<close> is a failed check,
  \<open>Some (pc, last)\<close> the values of the loop variables at the end of the body.
\<close>

definition LUA_MULTRET :: int where "LUA_MULTRET = - 1"
definition MAXSTACK :: int where "MAXSTACK = 250"

definition code_at :: "Proto \<Rightarrow> int \<Rightarrow> lua_err + Instruction" where
  "code_at pt i = (if 0 \<le> i \<and> i < sizecode pt then Inr (pcode pt ! nat i) else Inl (UB ''code''))"

definition k_at :: "Proto \<Rightarrow> int \<Rightarrow> lua_err + Const" where
  "k_at pt i = (if 0 \<le> i \<and> i < sizek pt then Inr (pk pt ! nat i) else Inl (UB ''k''))"

definition p_at :: "Proto \<Rightarrow> int \<Rightarrow> lua_err + Proto" where
  "p_at pt i = (if 0 \<le> i \<and> i < sizep pt then Inr (pp pt ! nat i) else Inl (UB ''p''))"

definition opc :: "OpCode \<Rightarrow> int" where
  "opc x = int (opcode_num x)"

definition checkreg :: "Proto \<Rightarrow> int \<Rightarrow> bool" where
  "checkreg pt reg = (reg < uint (pmaxstacksize pt))"

definition precheck :: "Proto \<Rightarrow> lua_err + bool" where
  "precheck pt =
     (if \<not> uint (pmaxstacksize pt) \<le> MAXSTACK then Inr False
      else if \<not> uint (pnumparams pt) + uint (pis_vararg pt AND VARARG_HASARG) \<le> uint (pmaxstacksize pt)
      then Inr False
      else if \<not> (pis_vararg pt AND VARARG_NEEDSARG = 0 \<or> pis_vararg pt AND VARARG_HASARG \<noteq> 0)
      then Inr False
      else if \<not> int (length (pupvalues pt)) \<le> uint (pnups pt) then Inr False
      else if \<not> (int (length (plineinfo pt)) = sizecode pt \<or> length (plineinfo pt) = 0) then Inr False
      else if \<not> sizecode pt > 0 then Inr False
      else bindE (code_at pt (sizecode pt - 1)) (\<lambda>i. Inr (GET_OPCODE i = opc OP_RETURN)))"

definition luaG_checkopenop :: "Instruction \<Rightarrow> bool" where
  "luaG_checkopenop i =
     (if GET_OPCODE i = opc OP_CALL \<or> GET_OPCODE i = opc OP_TAILCALL \<or>
         GET_OPCODE i = opc OP_RETURN \<or> GET_OPCODE i = opc OP_SETLIST
      then GETARG_B i = 0 else False)"

definition checkArgMode :: "Proto \<Rightarrow> int \<Rightarrow> OpArgMask \<Rightarrow> bool" where
  "checkArgMode pt r mode =
     (case mode of
        OpArgN \<Rightarrow> r = 0
      | OpArgU \<Rightarrow> True
      | OpArgR \<Rightarrow> checkreg pt r
      | OpArgK \<Rightarrow> (if ISK r then INDEXK r < sizek pt else r < uint (pmaxstacksize pt)))"

text \<open>The run of words before a jump target that look like a SETLIST with a count word.\<close>

definition is_setlist0 :: "Instruction \<Rightarrow> bool" where
  "is_setlist0 d = (GET_OPCODE d = opc OP_SETLIST \<and> GETARG_C d = 0)"

function setlist_run :: "Proto \<Rightarrow> int \<Rightarrow> int \<Rightarrow> lua_err + int" where
  "setlist_run pt dest j =
     (if j < dest then
        bindE (code_at pt (dest - 1 - j)) (\<lambda>d. if \<not> is_setlist0 d then Inr j else setlist_run pt dest (j + 1))
      else Inr j)"
  by pat_completeness auto
termination
  by (relation "measure (\<lambda>(pt, dest, j). nat (dest - j))") auto

declare setlist_run.simps [simp del]

text \<open>Decoding and checking the operands by format: the values of \<open>b\<close> and \<open>c\<close>.\<close>

definition symb_operands :: "Proto \<Rightarrow> int \<Rightarrow> Instruction \<Rightarrow> lua_err + (int \<times> int) option" where
  "symb_operands pt pc i =
     (let op = GET_OPCODE i in
      case getOpMode op of
        iABC \<Rightarrow>
          (let b = GETARG_B i; c = GETARG_C i in
           if checkArgMode pt b (getBMode op) \<and> checkArgMode pt c (getCMode op)
           then Inr (Some (b, c)) else Inr None)
      | iABx \<Rightarrow>
          (let b = GETARG_Bx i in
           if getBMode op = OpArgK \<and> \<not> b < sizek pt then Inr None else Inr (Some (b, 0)))
      | iAsBx \<Rightarrow>
          (let b = GETARG_sBx i in
           if getBMode op = OpArgR then
             (let dest = pc + 1 + b in
              if \<not> (0 \<le> dest \<and> dest < sizecode pt) then Inr None
              else if dest > 0 then
                bindE (setlist_run pt dest 0) (\<lambda>j. if j AND 1 = 0 then Inr (Some (b, 0)) else Inr None)
              else Inr (Some (b, 0)))
           else Inr (Some (b, 0))))"

text \<open>The checks on the pseudo-instructions that follow a CLOSURE.\<close>

fun checkupvals :: "Proto \<Rightarrow> int \<Rightarrow> nat \<Rightarrow> nat \<Rightarrow> lua_err + bool" where
  "checkupvals pt pc j 0 = Inr True"
| "checkupvals pt pc j (Suc n) =
     bindE (code_at pt (pc + int j)) (\<lambda>i.
       if GET_OPCODE i = opc OP_GETUPVAL \<or> GET_OPCODE i = opc OP_MOVE
       then checkupvals pt pc (Suc j) n else Inr False)"

definition okif :: "bool \<Rightarrow> (lua_err + (int \<times> int) option) \<Rightarrow> lua_err + (int \<times> int) option" where
  "okif x k = (if x then k else Inr None)"

definition symb_call :: "Proto \<Rightarrow> int \<Rightarrow> int \<Rightarrow> int \<Rightarrow> int \<Rightarrow> int \<Rightarrow> int \<Rightarrow> lua_err + (int \<times> int) option" where
  "symb_call pt reg pc lst a b c =
     (let lst' = (if reg \<ge> a then pc else lst); c = c - 1 in
      okif (b \<noteq> 0 \<longrightarrow> checkreg pt (a + b - 1))
        (if c = LUA_MULTRET then
           bindE (code_at pt (pc + 1)) (\<lambda>i. okif (luaG_checkopenop i) (Inr (Some (pc, lst'))))
         else if c \<noteq> 0 then okif (checkreg pt (a + c - 1)) (Inr (Some (pc, lst')))
         else Inr (Some (pc, lst'))))"

definition symb_jump :: "int \<Rightarrow> int \<Rightarrow> int \<Rightarrow> int \<Rightarrow> int \<Rightarrow> lua_err + (int \<times> int) option" where
  "symb_jump lastpc reg pc lst b =
     (let dest = pc + 1 + b in
      Inr (Some (if reg \<noteq> NO_REG \<and> pc < dest \<and> dest \<le> lastpc then pc + b else pc, lst)))"

definition symb_setlist :: "Proto \<Rightarrow> int \<Rightarrow> int \<Rightarrow> int \<Rightarrow> int \<Rightarrow> int \<Rightarrow> lua_err + (int \<times> int) option" where
  "symb_setlist pt pc lst a b c =
     okif (b > 0 \<longrightarrow> checkreg pt (a + b))
       (if c = 0 then okif (pc + 1 < sizecode pt - 1) (Inr (Some (pc + 1, lst)))
        else Inr (Some (pc, lst)))"

definition symb_closure :: "Proto \<Rightarrow> int \<Rightarrow> int \<Rightarrow> int \<Rightarrow> int \<Rightarrow> lua_err + (int \<times> int) option" where
  "symb_closure pt reg pc lst b =
     okif (b < sizep pt)
       (bindE (p_at pt b) (\<lambda>f.
          let nup = uint (pnups f) in
          okif (pc + nup < sizecode pt)
            (bindE (checkupvals pt pc 1 (nat nup)) (\<lambda>ok.
               okif ok (Inr (Some (if reg \<noteq> NO_REG then pc + nup else pc, lst)))))))"

definition symb_vararg :: "Proto \<Rightarrow> int \<Rightarrow> int \<Rightarrow> int \<Rightarrow> int \<Rightarrow> lua_err + (int \<times> int) option" where
  "symb_vararg pt pc lst a b =
     okif (pis_vararg pt AND VARARG_ISVARARG \<noteq> 0 \<and> pis_vararg pt AND VARARG_NEEDSARG = 0)
       (let b = b - 1 in
        if b = LUA_MULTRET then
          bindE (code_at pt (pc + 1)) (\<lambda>i.
            okif (luaG_checkopenop i) (okif (checkreg pt (a + b - 1)) (Inr (Some (pc, lst)))))
        else okif (checkreg pt (a + b - 1)) (Inr (Some (pc, lst))))"

text \<open>The \<open>switch (op)\<close> of the loop body.\<close>

definition symb_switch ::
  "Proto \<Rightarrow> int \<Rightarrow> int \<Rightarrow> int \<Rightarrow> int \<Rightarrow> OpCode \<Rightarrow> int \<Rightarrow> int \<Rightarrow> int \<Rightarrow> lua_err + (int \<times> int) option" where
  "symb_switch pt lastpc reg pc lst op a b c =
     (case op of
        OP_LOADBOOL \<Rightarrow>
          (if c = 1 then
             okif (pc + 2 < sizecode pt)
               (bindE (code_at pt (pc + 1)) (\<lambda>i.
                  okif (GET_OPCODE i \<noteq> opc OP_SETLIST \<or> GETARG_C i \<noteq> 0) (Inr (Some (pc, lst)))))
           else Inr (Some (pc, lst)))
      | OP_LOADNIL \<Rightarrow> Inr (Some (pc, if a \<le> reg \<and> reg \<le> b then pc else lst))
      | OP_GETUPVAL \<Rightarrow> okif (b < uint (pnups pt)) (Inr (Some (pc, lst)))
      | OP_SETUPVAL \<Rightarrow> okif (b < uint (pnups pt)) (Inr (Some (pc, lst)))
      | OP_GETGLOBAL \<Rightarrow> bindE (k_at pt b) (\<lambda>k. okif (const_ttype k = 4) (Inr (Some (pc, lst))))
      | OP_SETGLOBAL \<Rightarrow> bindE (k_at pt b) (\<lambda>k. okif (const_ttype k = 4) (Inr (Some (pc, lst))))
      | OP_SELF \<Rightarrow>
          okif (checkreg pt (a + 1)) (Inr (Some (pc, if reg = a + 1 then pc else lst)))
      | OP_CONCAT \<Rightarrow> okif (b < c) (Inr (Some (pc, lst)))
      | OP_TFORLOOP \<Rightarrow>
          okif (c \<ge> 1) (okif (checkreg pt (a + 2 + c))
            (Inr (Some (pc, if reg \<ge> a + 2 then pc else lst))))
      | OP_FORLOOP \<Rightarrow> okif (checkreg pt (a + 3)) (symb_jump lastpc reg pc lst b)
      | OP_FORPREP \<Rightarrow> okif (checkreg pt (a + 3)) (symb_jump lastpc reg pc lst b)
      | OP_JMP \<Rightarrow> symb_jump lastpc reg pc lst b
      | OP_CALL \<Rightarrow> symb_call pt reg pc lst a b c
      | OP_TAILCALL \<Rightarrow> symb_call pt reg pc lst a b c
      | OP_RETURN \<Rightarrow> okif (b - 1 > 0 \<longrightarrow> checkreg pt (a + (b - 1) - 1)) (Inr (Some (pc, lst)))
      | OP_SETLIST \<Rightarrow> symb_setlist pt pc lst a b c
      | OP_CLOSURE \<Rightarrow> symb_closure pt reg pc lst b
      | OP_VARARG \<Rightarrow> symb_vararg pt pc lst a b
      | _ \<Rightarrow> Inr (Some (pc, lst)))"

text \<open>The rest of the body between the operands and the switch: register A and the test skip.\<close>

definition symb_step :: "Proto \<Rightarrow> int \<Rightarrow> int \<Rightarrow> int \<Rightarrow> int \<Rightarrow> lua_err + (int \<times> int) option" where
  "symb_step pt lastpc reg pc lst =
     bindE (code_at pt pc) (\<lambda>i.
       let op = GET_OPCODE i; a = GETARG_A i in
       okif (op < NUM_OPCODES) (okif (checkreg pt a)
         (bindE (symb_operands pt pc i) (\<lambda>operands.
            case operands of
              None \<Rightarrow> Inr None
            | Some (b, c) \<Rightarrow>
                (let lst = (if testAMode op \<and> a = reg then pc else lst) in
                 if testTMode op \<and> \<not> pc + 2 < sizecode pt then Inr None
                 else bindE (if testTMode op
                             then bindE (code_at pt (pc + 1)) (\<lambda>j. Inr (GET_OPCODE j = opc OP_JMP))
                             else Inr True) (\<lambda>ok.
                   okif ok (symb_switch pt lastpc reg pc lst (the (opcode_of op)) a b c)))))))"

lemma symb_switch_pc:
  "symb_switch pt lastpc reg pc lst op a b c = Inr (Some (pc', lst')) \<Longrightarrow> pc \<le> pc'"
  by (cases op)
    (auto simp: symb_switch_def okif_def symb_call_def symb_jump_def symb_setlist_def symb_closure_def
      symb_vararg_def Let_def res_simps split: if_splits)

lemma symb_step_pc:
  "symb_step pt lastpc reg pc lst = Inr (Some (pc', lst')) \<Longrightarrow> pc \<le> pc'"
  by (auto simp: symb_step_def okif_def Let_def res_simps dest: symb_switch_pc
      split: if_splits option.splits)

text \<open>The loop and its result: \<open>None\<close> from a failed check, else the final \<open>lst\<close>.\<close>

function symb_loop :: "Proto \<Rightarrow> int \<Rightarrow> int \<Rightarrow> int \<Rightarrow> int \<Rightarrow> lua_err + int option" where
  "symb_loop pt lastpc reg pc lst =
     (if pc < lastpc then
        (case symb_step pt lastpc reg pc lst of
           Inl e \<Rightarrow> Inl e
         | Inr None \<Rightarrow> Inr None
         | Inr (Some (pc', lst')) \<Rightarrow> symb_loop pt lastpc reg (pc' + 1) lst')
      else Inr (Some lst))"
  by pat_completeness auto
termination
  by (relation "measure (\<lambda>(pt, lastpc, reg, pc, lst). nat (lastpc - pc))")
    (auto dest: symb_step_pc)

declare symb_loop.simps [simp del]

definition symbexec :: "Proto \<Rightarrow> int \<Rightarrow> int \<Rightarrow> lua_err + Instruction" where
  "symbexec pt lastpc reg =
     bindE (precheck pt) (\<lambda>ok.
       if \<not> ok then Inr 0
       else bindE (symb_loop pt lastpc reg 0 (sizecode pt - 1)) (\<lambda>r.
         case r of None \<Rightarrow> Inr 0 | Some lst \<Rightarrow> code_at pt lst))"

definition luaG_checkcode :: "Proto \<Rightarrow> lua_err + bool" where
  "luaG_checkcode pt = bindE (symbexec pt (sizecode pt) NO_REG) (\<lambda>i. Inr (i \<noteq> 0))"

section \<open>No read outside an array\<close>

lemma GETARG_nonneg [simp]:
  "0 \<le> GETARG_A i" "0 \<le> GETARG_B i" "0 \<le> GETARG_C i" "0 \<le> GETARG_Bx i" "0 \<le> GET_OPCODE i"
  using field_ranges by auto

lemma code_at_in: "0 \<le> i \<Longrightarrow> i < sizecode pt \<Longrightarrow> code_at pt i = Inr (pcode pt ! nat i)"
  by (simp add: code_at_def)

lemma opcode_cases:
  assumes "GET_OPCODE i < NUM_OPCODES"
  obtains x where "opcode_of (GET_OPCODE i) = Some x" "GET_OPCODE i = opc x"
proof -
  have "opcode_of (GET_OPCODE i) \<noteq> None"
    using assms by (simp add: opcode_of_def NUM_OPCODES_def)
  then obtain x where x: "opcode_of (GET_OPCODE i) = Some x" by auto
  then have "GET_OPCODE i = opc x" by (simp add: opc_def opcode_num_of)
  with x that show thesis by blast
qed

lemma opc_num [simp]: "opcode_of (opc x) = Some x"
  by (simp add: opc_def)

lemma opc_eq [simp]: "(opc x = opc y) = (x = y)"
  by (simp add: opc_def opcode_num_inj)

lemma setlist_run_no_UB:
  "0 \<le> j \<Longrightarrow> 0 \<le> dest \<Longrightarrow> dest < sizecode pt \<Longrightarrow> \<exists>n. setlist_run pt dest j = Inr n"
proof (induction pt dest j rule: setlist_run.induct)
  case (1 pt dest j)
  show ?case
  proof (cases "j < dest")
    case True
    then show ?thesis
      using 1 by (subst setlist_run.simps) (simp add: code_at_in)
  next
    case False
    then show ?thesis by (subst setlist_run.simps) simp
  qed
qed

lemma checkupvals_no_UB:
  "0 \<le> pc \<Longrightarrow> pc + int j + int n \<le> sizecode pt \<Longrightarrow> \<exists>b. checkupvals pt pc j n = Inr b"
  by (induction n arbitrary: j) (auto simp: code_at_in)

lemma symb_operands_no_UB: "\<exists>r. symb_operands pt pc i = Inr r"
proof -
  let ?dest = "pc + 1 + GETARG_sBx i"
  have "0 \<le> ?dest \<Longrightarrow> ?dest < sizecode pt \<Longrightarrow> \<exists>n. setlist_run pt ?dest 0 = Inr n"
    by (rule setlist_run_no_UB) simp_all
  then show ?thesis
    by (cases "getOpMode (GET_OPCODE i)") (auto simp: symb_operands_def Let_def)
qed

text \<open>What a prechecked prototype gives the loop: a final RETURN.\<close>

definition prechecked :: "Proto \<Rightarrow> bool" where
  "prechecked pt = (0 < sizecode pt \<and> GET_OPCODE (pcode pt ! nat (sizecode pt - 1)) = opc OP_RETURN \<and>
     uint (pmaxstacksize pt) \<le> MAXSTACK)"

lemma precheck_no_UB: "\<exists>b. precheck pt = Inr b"
  by (auto simp: precheck_def code_at_in res_simps)

lemma precheck_True: "precheck pt = Inr True \<Longrightarrow> prechecked pt"
  by (auto simp: precheck_def prechecked_def code_at_in res_simps split: if_splits)

lemma not_last:
  assumes "prechecked pt" "0 \<le> pc" "pc < sizecode pt"
    and "GET_OPCODE (pcode pt ! nat pc) = opc x" "x \<noteq> OP_RETURN"
  shows "pc + 1 < sizecode pt"
proof (rule ccontr)
  assume "\<not> pc + 1 < sizecode pt"
  then have "pc = sizecode pt - 1" using assms(3) by simp
  with assms show False by (simp add: prechecked_def)
qed

lemma symb_switch_no_UB:
  assumes "prechecked pt" "0 \<le> pc" "pc < sizecode pt" "GET_OPCODE (pcode pt ! nat pc) = opc x"
    and "x = OP_GETGLOBAL \<or> x = OP_SETGLOBAL \<Longrightarrow> 0 \<le> b \<and> b < sizek pt"
    and "x = OP_CLOSURE \<Longrightarrow> 0 \<le> b"
  shows "\<exists>r. symb_switch pt lastpc reg pc lst x a b c = Inr r"
proof -
  have nx: "code_at pt (pc + 1) = Inr (pcode pt ! nat (pc + 1))" if "x \<noteq> OP_RETURN"
    using not_last [OF assms(1-4) that] assms(2) by (simp add: code_at_in)
  have up: "\<exists>b. checkupvals pt pc 1 (nat n) = Inr b" if "0 \<le> n" "pc + n < sizecode pt" for n
    by (rule checkupvals_no_UB) (use assms(2) that in auto)
  show ?thesis
  proof (cases "x = OP_CLOSURE")
    case True
    show ?thesis
    proof (cases "b < sizep pt")
      case bs: True
      then have p: "p_at pt b = Inr (pp pt ! nat b)" using assms(6) True by (simp add: p_at_def)
      have "\<exists>r. checkupvals pt pc 1 (nat (uint (pnups (pp pt ! nat b)))) = Inr r"
        if "pc + uint (pnups (pp pt ! nat b)) < sizecode pt"
        by (rule up) (use that in simp_all)
      then show ?thesis
        using True bs p by (auto simp: symb_switch_def symb_closure_def okif_def Let_def)
    qed (use True in \<open>simp add: symb_switch_def symb_closure_def okif_def\<close>)
  next
    case False
    with nx assms(5) show ?thesis
      by (cases x) (auto simp: symb_switch_def okif_def symb_call_def symb_jump_def symb_setlist_def
          symb_vararg_def k_at_def Let_def)
  qed
qed

lemma operands_constant:
  assumes "symb_operands pt pc i = Inr (Some (b, c))" "GET_OPCODE i = opc x"
  shows "x = OP_GETGLOBAL \<or> x = OP_SETGLOBAL \<Longrightarrow> 0 \<le> b \<and> b < sizek pt"
    and "x = OP_CLOSURE \<Longrightarrow> 0 \<le> b"
  using assms by (auto simp: symb_operands_def Let_def opmode_table opc_def split: if_splits)

lemma symb_step_no_UB:
  assumes "prechecked pt" "0 \<le> pc" "pc < sizecode pt"
  shows "\<exists>r. symb_step pt lastpc reg pc lst = Inr r"
proof -
  let ?i = "pcode pt ! nat pc"
  note i = code_at_in [OF assms(2,3)]
  show ?thesis
  proof (cases "GET_OPCODE ?i < NUM_OPCODES")
    case True
    then obtain x where x: "opcode_of (GET_OPCODE ?i) = Some x" "GET_OPCODE ?i = opc x"
      by (rule opcode_cases)
    obtain r where r: "symb_operands pt pc ?i = Inr r" using symb_operands_no_UB by blast
    have sw: "\<exists>r. symb_switch pt lastpc reg pc lst' x a b c = Inr r"
      if "r = Some (b, c)" for lst' a b c
      by (rule symb_switch_no_UB [OF assms x(2)])
        (use operands_constant [OF r [unfolded that] x(2)] in auto)
    have nx: "code_at pt (pc + 1) = Inr (pcode pt ! nat (pc + 1))" if "pc + 2 < sizecode pt"
      using that assms(2) by (simp add: code_at_in)
    show ?thesis
      using i r x sw nx
      by (auto simp: symb_step_def okif_def Let_def split: option.splits)
  next
    case False
    with i show ?thesis by (simp add: symb_step_def okif_def Let_def)
  qed
qed

lemma symb_switch_last:
  "symb_switch pt lastpc reg pc lst x a b c = Inr (Some (pc', lst')) \<Longrightarrow> lst' = lst \<or> lst' = pc"
  by (cases x)
    (auto simp: symb_switch_def okif_def symb_call_def symb_jump_def symb_setlist_def symb_closure_def
      symb_vararg_def Let_def res_simps split: if_splits)

lemma symb_step_last:
  "symb_step pt lastpc reg pc lst = Inr (Some (pc', lst')) \<Longrightarrow> lst' = lst \<or> lst' = pc"
  by (auto simp: symb_step_def okif_def Let_def res_simps dest: symb_switch_last
      split: if_splits option.splits)

lemma symb_loop_no_UB:
  "prechecked pt \<Longrightarrow> lastpc \<le> sizecode pt \<Longrightarrow> 0 \<le> pc \<Longrightarrow> 0 \<le> lst \<Longrightarrow> lst < sizecode pt \<Longrightarrow>
     \<exists>r. symb_loop pt lastpc reg pc lst = Inr r \<and> (\<forall>l. r = Some l \<longrightarrow> 0 \<le> l \<and> l < sizecode pt)"
proof (induction pt lastpc reg pc lst rule: symb_loop.induct)
  case (1 pt lastpc reg pc lst)
  show ?case
  proof (cases "pc < lastpc")
    case True
    then have pc: "pc < sizecode pt" using 1 by simp
    obtain r where r: "symb_step pt lastpc reg pc lst = Inr r"
      using symb_step_no_UB 1 pc by blast
    show ?thesis
    proof (cases r)
      case None
      with r True show ?thesis by (subst symb_loop.simps) simp
    next
      case (Some q)
      obtain pc' lst' where q: "q = (pc', lst')" by fastforce
      with Some r have s: "symb_step pt lastpc reg pc lst = Inr (Some (pc', lst'))" by simp
      have "0 \<le> pc' + 1" "0 \<le> lst'" "lst' < sizecode pt"
        using symb_step_pc [OF s] symb_step_last [OF s] 1 pc by auto
      with 1 True r Some q show ?thesis by (subst symb_loop.simps) simp
    qed
  next
    case False
    with 1 show ?thesis by (subst symb_loop.simps) simp
  qed
qed

text \<open>
  C3. The checker is memory safe on untrusted code: for every prototype whatsoever, every
  register and every \<open>lastpc\<close> inside the code, symbolic execution reads no element of
  \<open>code\<close>, \<open>k\<close> or \<open>p\<close> outside its array, and it always returns; in particular
  \<open>luaG_checkcode\<close> gives a verdict on every chunk.
\<close>

theorem symbexec_no_UB:
  assumes "lastpc \<le> sizecode pt"
  shows "(\<exists>i. symbexec pt lastpc reg = Inr i) \<and> (\<exists>b. luaG_checkcode pt = Inr b)"
proof -
  have "\<exists>i. symbexec pt l reg = Inr i" if l: "l \<le> sizecode pt" for l reg
  proof -
    obtain ok where ok: "precheck pt = Inr ok" using precheck_no_UB by blast
    show ?thesis
    proof (cases ok)
      case True
      with ok have p: "prechecked pt" by (simp add: precheck_True)
      then obtain r where "symb_loop pt l reg 0 (sizecode pt - 1) = Inr r"
        "\<forall>m. r = Some m \<longrightarrow> 0 \<le> m \<and> m < sizecode pt"
        using symb_loop_no_UB [OF p l, of 0 "sizecode pt - 1" reg] by (auto simp: prechecked_def)
      with ok True show ?thesis
        by (auto simp: symbexec_def code_at_in split: option.splits)
    qed (use ok in \<open>simp add: symbexec_def\<close>)
  qed
  from this [OF assms] this [of "sizecode pt" NO_REG] show ?thesis
    by (auto simp: luaG_checkcode_def)
qed

definition example_proto :: Proto where
  "example_proto = Proto [KNumber 0] [CREATE_ABx 1 0 0, CREATE_ABC 30 0 2 0, CREATE_ABC 30 0 1 0]
     [] [] [] [] (Some ''=x'') 0 0 0 0 2 2"

theorem symbexec_no_UB_witness: "\<exists>i. symbexec example_proto 2 0 = Inr i"
  using symbexec_no_UB [of 2 example_proto 0] by (simp add: sizecode_def example_proto_def)

section \<open>What an accepted prototype guarantees\<close>

text \<open>
  The declarative side: the registers and constants an instruction uses according to the
  opcode descriptions of \<^verbatim>\<open>lopcodes.h\<close>.  An open operand (\<open>B = 0\<close> or \<open>C = 0\<close> where the
  count comes from \<open>top\<close>) names no fixed register.
\<close>

definition rk_regs :: "int \<Rightarrow> int set" where
  "rk_regs x = (if ISK x then {} else {x})"

definition rk_consts :: "int \<Rightarrow> int set" where
  "rk_consts x = (if ISK x then {INDEXK x} else {})"

definition vm_regs :: "OpCode \<Rightarrow> Instruction \<Rightarrow> int set" where
  "vm_regs x i =
     (let a = GETARG_A i; b = GETARG_B i; c = GETARG_C i in
      case x of
        OP_MOVE \<Rightarrow> {a, b}
      | OP_LOADNIL \<Rightarrow> {a} \<union> {a..b}
      | OP_GETTABLE \<Rightarrow> {a, b} \<union> rk_regs c
      | OP_SETTABLE \<Rightarrow> {a} \<union> rk_regs b \<union> rk_regs c
      | OP_SELF \<Rightarrow> {a, a + 1, b} \<union> rk_regs c
      | OP_ADD \<Rightarrow> {a} \<union> rk_regs b \<union> rk_regs c
      | OP_SUB \<Rightarrow> {a} \<union> rk_regs b \<union> rk_regs c
      | OP_MUL \<Rightarrow> {a} \<union> rk_regs b \<union> rk_regs c
      | OP_DIV \<Rightarrow> {a} \<union> rk_regs b \<union> rk_regs c
      | OP_MOD \<Rightarrow> {a} \<union> rk_regs b \<union> rk_regs c
      | OP_POW \<Rightarrow> {a} \<union> rk_regs b \<union> rk_regs c
      | OP_UNM \<Rightarrow> {a, b}
      | OP_NOT \<Rightarrow> {a, b}
      | OP_LEN \<Rightarrow> {a, b}
      | OP_CONCAT \<Rightarrow> {a} \<union> {b..c}
      | OP_JMP \<Rightarrow> {}
      | OP_EQ \<Rightarrow> rk_regs b \<union> rk_regs c
      | OP_LT \<Rightarrow> rk_regs b \<union> rk_regs c
      | OP_LE \<Rightarrow> rk_regs b \<union> rk_regs c
      | OP_TESTSET \<Rightarrow> {a, b}
      | OP_CALL \<Rightarrow> {a} \<union> {a..a + b - 1} \<union> {a..a + c - 2}
      | OP_TAILCALL \<Rightarrow> {a} \<union> {a..a + b - 1}
      | OP_RETURN \<Rightarrow> {a..a + b - 2}
      | OP_FORLOOP \<Rightarrow> {a..a + 3}
      | OP_FORPREP \<Rightarrow> {a..a + 3}
      | OP_TFORLOOP \<Rightarrow> {a..a + 2 + c}
      | OP_SETLIST \<Rightarrow> {a..a + b}
      | OP_VARARG \<Rightarrow> {a..a + b - 2}
      | _ \<Rightarrow> {a})"

definition vm_consts :: "OpCode \<Rightarrow> Instruction \<Rightarrow> int set" where
  "vm_consts x i =
     (let b = GETARG_B i; c = GETARG_C i in
      if x \<in> {OP_LOADK, OP_GETGLOBAL, OP_SETGLOBAL} then {GETARG_Bx i}
      else if x \<in> {OP_GETTABLE, OP_SELF} then rk_consts c
      else if x \<in> {OP_SETTABLE, OP_ADD, OP_SUB, OP_MUL, OP_DIV, OP_MOD, OP_POW, OP_EQ, OP_LT, OP_LE}
      then rk_consts b \<union> rk_consts c
      else {})"

definition instr_ok :: "Proto \<Rightarrow> int \<Rightarrow> bool" where
  "instr_ok pt pc =
     (let i = pcode pt ! nat pc in
      case opcode_of (GET_OPCODE i) of
        None \<Rightarrow> False
      | Some x \<Rightarrow>
          (\<forall>r \<in> vm_regs x i. 0 \<le> r \<and> r < uint (pmaxstacksize pt)) \<and>
          (\<forall>k \<in> vm_consts x i. 0 \<le> k \<and> k < sizek pt) \<and>
          (x \<in> {OP_GETGLOBAL, OP_SETGLOBAL} \<longrightarrow> const_ttype (pk pt ! nat (GETARG_Bx i)) = 4) \<and>
          (x \<in> {OP_GETUPVAL, OP_SETUPVAL} \<longrightarrow> GETARG_B i < uint (pnups pt)) \<and>
          (x = OP_CLOSURE \<longrightarrow> GETARG_Bx i < sizep pt))"

text \<open>The instruction words the interpreter can decode: not the count word of a SETLIST.\<close>

inductive boundary :: "Proto \<Rightarrow> int \<Rightarrow> bool" for pt where
  start: "boundary pt 0"
| advance: "boundary pt pc \<Longrightarrow> pc < sizecode pt \<Longrightarrow> \<not> is_setlist0 (pcode pt ! nat pc) \<Longrightarrow> boundary pt (pc + 1)"
| skip: "boundary pt pc \<Longrightarrow> pc < sizecode pt \<Longrightarrow> is_setlist0 (pcode pt ! nat pc) \<Longrightarrow> boundary pt (pc + 2)"

lemma boundary_nonneg: "boundary pt pc \<Longrightarrow> 0 \<le> pc"
  by (induction rule: boundary.induct) auto

text \<open>Where control can go after an instruction, as the interpreter of \<^verbatim>\<open>lvm.c\<close> moves \<open>pc\<close>.\<close>

definition vm_succs :: "Proto \<Rightarrow> int \<Rightarrow> int set" where
  "vm_succs pt pc =
     (let i = pcode pt ! nat pc in
      case opcode_of (GET_OPCODE i) of
        None \<Rightarrow> {}
      | Some x \<Rightarrow>
          (if x = OP_RETURN then {}
           else if x = OP_JMP \<or> x = OP_FORPREP then {pc + 1 + GETARG_sBx i}
           else if x = OP_FORLOOP then {pc + 1, pc + 1 + GETARG_sBx i}
           else if x \<in> {OP_EQ, OP_LT, OP_LE, OP_TEST, OP_TESTSET, OP_TFORLOOP}
           then {pc + 2, pc + 2 + GETARG_sBx (pcode pt ! nat (pc + 1))}
           else if x = OP_LOADBOOL then {if GETARG_C i \<noteq> 0 then pc + 2 else pc + 1}
           else if x = OP_SETLIST then {if GETARG_C i = 0 then pc + 2 else pc + 1}
           else if x = OP_CLOSURE then {pc + 1 + uint (pnups (pp pt ! nat (GETARG_Bx i)))}
           else {pc + 1}))"

lemma INDEXK_nonneg: "0 \<le> x \<Longrightarrow> 0 \<le> INDEXK x"
  by (simp add: INDEXK_def)

lemma operands_ok:
  assumes "symb_operands pt pc i = Inr (Some (b, c))" "opcode_of (GET_OPCODE i) = Some x"
  shows "(getOpMode (GET_OPCODE i) = iABC \<longrightarrow> b = GETARG_B i \<and> c = GETARG_C i \<and>
            checkArgMode pt b (getBMode (GET_OPCODE i)) \<and> checkArgMode pt c (getCMode (GET_OPCODE i))) \<and>
         (getOpMode (GET_OPCODE i) = iABx \<longrightarrow> b = GETARG_Bx i \<and> c = 0 \<and>
            (getBMode (GET_OPCODE i) = OpArgK \<longrightarrow> b < sizek pt)) \<and>
         (getOpMode (GET_OPCODE i) = iAsBx \<longrightarrow> b = GETARG_sBx i \<and> c = 0 \<and>
            (getBMode (GET_OPCODE i) = OpArgR \<longrightarrow> 0 \<le> pc + 1 + b \<and> pc + 1 + b < sizecode pt \<and>
               (0 < pc + 1 + b \<longrightarrow> (\<exists>j. setlist_run pt (pc + 1 + b) 0 = Inr j \<and> j AND 1 = 0))))"
  using assms(1)
  by (cases "getOpMode (GET_OPCODE i)")
    (auto simp: symb_operands_def Let_def res_simps split: if_splits)

text \<open>Everything one accepted iteration of the loop has established.\<close>

lemma symb_step_Some:
  assumes "symb_step pt lastpc NO_REG pc lst = Inr (Some (pc', lst'))" "0 \<le> pc" "pc < sizecode pt"
  defines "i \<equiv> pcode pt ! nat pc"
  obtains x b c where "opcode_of (GET_OPCODE i) = Some x" "GET_OPCODE i = opc x"
    "checkreg pt (GETARG_A i)" "symb_operands pt pc i = Inr (Some (b, c))"
    "testTMode (GET_OPCODE i) \<Longrightarrow> pc + 2 < sizecode pt \<and> GET_OPCODE (pcode pt ! nat (pc + 1)) = opc OP_JMP"
    "\<exists>l. symb_switch pt lastpc NO_REG pc l x (GETARG_A i) b c = Inr (Some (pc', lst'))"
proof -
  have lt: "GET_OPCODE i < NUM_OPCODES" and a: "checkreg pt (GETARG_A i)"
    using assms(1) by (auto simp: symb_step_def code_at_in assms(2,3) okif_def i_def Let_def split: if_splits)
  then obtain x where x: "opcode_of (GET_OPCODE i) = Some x" "GET_OPCODE i = opc x"
    by (blast elim: opcode_cases)
  obtain b c where o: "symb_operands pt pc i = Inr (Some (b, c))"
    using assms(1) lt a
    by (auto simp: symb_step_def code_at_in assms(2,3) okif_def i_def Let_def res_simps split: option.splits)
  have nx: "code_at pt (pc + 1) = Inr (pcode pt ! nat (pc + 1))" if "pc + 2 < sizecode pt"
    using that assms(2) by (simp add: code_at_in)
  have t: "pc + 2 < sizecode pt \<and> GET_OPCODE (pcode pt ! nat (pc + 1)) = opc OP_JMP"
    if "testTMode (GET_OPCODE i)"
    using assms(1) lt a o nx that x
    by (auto simp: symb_step_def code_at_in assms(2,3) okif_def i_def [symmetric] Let_def res_simps split: if_splits)
  have "\<exists>l. symb_switch pt lastpc NO_REG pc l x (GETARG_A i) b c = Inr (Some (pc', lst'))"
    using assms(1) lt a o t nx x
    by (auto simp: symb_step_def code_at_in assms(2,3) okif_def i_def [symmetric] Let_def res_simps split: if_splits)
  with x a o t that show thesis by blast
qed

lemma rk_regs_ok: "q \<in> rk_regs r \<Longrightarrow> checkArgMode pt r OpArgK \<Longrightarrow> 0 \<le> r \<Longrightarrow> 0 \<le> q \<and> q < uint (pmaxstacksize pt)"
  by (auto simp: checkArgMode_def rk_regs_def split: if_splits)

lemma rk_consts_ok: "k \<in> rk_consts r \<Longrightarrow> checkArgMode pt r OpArgK \<Longrightarrow> 0 \<le> r \<Longrightarrow> 0 \<le> k \<and> k < sizek pt"
  by (auto simp: checkArgMode_def rk_consts_def INDEXK_def split: if_splits)

lemma checkArgMode_simps:
  "checkArgMode pt r OpArgN = (r = 0)" "checkArgMode pt r OpArgU" "checkArgMode pt r OpArgR = checkreg pt r"
  by (simp_all add: checkArgMode_def)

lemmas switch_defs =
  symb_switch_def okif_def symb_call_def symb_jump_def symb_setlist_def symb_closure_def symb_vararg_def


lemma vm_regs_nonneg: "r \<in> vm_regs x i \<Longrightarrow> 0 \<le> r"
  using GETARG_nonneg(1,2,3) [of i]
  by (cases x) (auto simp: vm_regs_def rk_regs_def Let_def simp del: GETARG_nonneg split: if_splits)

lemma switch_regs:
  assumes x: "opcode_of (GET_OPCODE i) = Some x" "GET_OPCODE i = opc x"
    and a: "checkreg pt (GETARG_A i)" and o: "symb_operands pt pc i = Inr (Some (b, c))"
    and sw: "symb_switch pt lastpc NO_REG pc l x (GETARG_A i) b c = Inr (Some (pc', lst'))"
    and r: "r \<in> vm_regs x i"
  shows "r < uint (pmaxstacksize pt)"
  using operands_ok [OF o x(1), unfolded x(2)] sw a r
  apply (cases x)
  apply (simp_all add: vm_regs_def Let_def opc_def opmode_table checkArgMode_simps checkreg_def)
  apply (simp_all add: switch_defs res_simps LUA_MULTRET_def checkreg_def Let_def split: if_splits)
  apply (auto dest: rk_regs_ok)
  done

lemma switch_consts:
  assumes x: "opcode_of (GET_OPCODE i) = Some x" "GET_OPCODE i = opc x"
    and o: "symb_operands pt pc i = Inr (Some (b, c))"
    and r: "r \<in> vm_consts x i"
  shows "0 \<le> r \<and> r < sizek pt"
  using operands_ok [OF o x(1), unfolded x(2)] r
  by (cases x) (auto simp: vm_consts_def Let_def opc_def opmode_table dest: rk_consts_ok split: if_splits)

lemma switch_operands:
  assumes x: "opcode_of (GET_OPCODE i) = Some x" "GET_OPCODE i = opc x"
    and a: "checkreg pt (GETARG_A i)" and o: "symb_operands pt pc i = Inr (Some (b, c))"
    and sw: "symb_switch pt lastpc NO_REG pc l x (GETARG_A i) b c = Inr (Some (pc', lst'))"
  shows "(x \<in> {OP_GETGLOBAL, OP_SETGLOBAL} \<longrightarrow> const_ttype (pk pt ! nat (GETARG_Bx i)) = 4) \<and>
    (x \<in> {OP_GETUPVAL, OP_SETUPVAL} \<longrightarrow> GETARG_B i < uint (pnups pt)) \<and>
    (x = OP_CLOSURE \<longrightarrow> GETARG_Bx i < sizep pt) \<and>
    pc' = (if is_setlist0 i then pc + 1 else pc)"
  using operands_ok [OF o x(1), unfolded x(2)] sw
  by (cases x) 
    (auto simp: is_setlist0_def x(2) opc_def opmode_table switch_defs res_simps k_at_def Let_def
      split: if_splits)

lemma symb_step_sound:
  assumes s: "symb_step pt lastpc NO_REG pc lst = Inr (Some (pc', lst'))" and pc: "0 \<le> pc" "pc < sizecode pt"
  shows "instr_ok pt pc \<and> pc' = (if is_setlist0 (pcode pt ! nat pc) then pc + 1 else pc)"
proof -
  define i where "i = pcode pt ! nat pc"
  from symb_step_Some [OF s pc] obtain x b c l where
    x: "opcode_of (GET_OPCODE i) = Some x" "GET_OPCODE i = opc x"
    and a: "checkreg pt (GETARG_A i)" and o: "symb_operands pt pc i = Inr (Some (b, c))"
    and sw: "symb_switch pt lastpc NO_REG pc l x (GETARG_A i) b c = Inr (Some (pc', lst'))"
    unfolding i_def by metis
  show ?thesis
    using switch_regs [OF x a o sw] switch_consts [OF x o] switch_operands [OF x a o sw]
      vm_regs_nonneg x(1)
    by (auto simp: instr_ok_def Let_def simp flip: i_def)
qed

text \<open>The loop visits every boundary.\<close>

definition next_boundary :: "Proto \<Rightarrow> int \<Rightarrow> int" where
  "next_boundary pt pc = (if is_setlist0 (pcode pt ! nat pc) then pc + 2 else pc + 1)"

lemma boundary_next: "boundary pt pc \<Longrightarrow> pc < sizecode pt \<Longrightarrow> boundary pt (next_boundary pt pc)"
  by (auto simp: next_boundary_def intro: boundary.intros)

lemma boundary_gap:
  "boundary pt q \<Longrightarrow> boundary pt p \<Longrightarrow> p < q \<Longrightarrow> next_boundary pt p \<le> q"
proof (induction "nat q" arbitrary: p q rule: less_induct)
  case less
  from less(2) show ?case
  proof (cases rule: boundary.cases)
    case start
    with less(4) boundary_nonneg [OF less(3)] show ?thesis by simp
  next
    case (advance q0)
    then have q: "q = next_boundary pt q0" by (simp add: next_boundary_def)
    have "p \<le> q0" using advance less(4) by simp
    then show ?thesis
      using less(1) [of q0 p] less(3) advance q boundary_nonneg [OF advance(2)] by (cases "p = q0") auto
  next
    case (skip q0)
    then have q: "q = next_boundary pt q0" by (simp add: next_boundary_def)
    consider "p = q0" | "p < q0" | "q0 < p" by linarith
    then show ?thesis
    proof cases
      case 1
      with q show ?thesis by simp
    next
      case 2
      then show ?thesis
        using less(1) [of q0 p] less(3) skip boundary_nonneg [OF skip(2)] by auto
    next
      case 3
      then have "next_boundary pt q0 \<le> p"
        using less(1) [of p q0] less(3,4) skip(2) boundary_nonneg [OF less(3)] by auto
      with q less(4) show ?thesis by simp
    qed
  qed
qed

lemma boundary_cover:
  "q \<le> length (pcode pt) \<Longrightarrow>
     boundary pt (int q) \<or> 0 < q \<and> boundary pt (int q - 1) \<and> is_setlist0 (pcode pt ! (q - 1))"
proof (induction q)
  case 0
  show ?case by (simp add: boundary.start)
next
  case (Suc q)
  then have q: "int q < sizecode pt" by (simp add: sizecode_def)
  show ?case
  proof (cases "boundary pt (int q)")
    case True
    then show ?thesis
      using q boundary.advance [OF True q] by (auto simp: add.commute)
  next
    case False
    with Suc have *: "0 < q" "boundary pt (int q - 1)" "is_setlist0 (pcode pt ! (q - 1))" by auto
    have "nat (int q - 1) = q - 1" using *(1) by simp
    then have "boundary pt (int q - 1 + 2)" using * q by (intro boundary.skip) auto
    then show ?thesis by (simp add: add.commute)
  qed
qed

lemma symb_loop_visits:
  "symb_loop pt lastpc reg pc lst = Inr (Some l) \<Longrightarrow> reg = NO_REG \<Longrightarrow> lastpc = sizecode pt \<Longrightarrow>
     boundary pt pc \<Longrightarrow> boundary pt q \<Longrightarrow> pc \<le> q \<Longrightarrow> q < sizecode pt \<Longrightarrow>
     \<exists>lst pc' lst'. symb_step pt lastpc NO_REG q lst = Inr (Some (pc', lst'))"
proof (induction pt lastpc reg pc lst rule: symb_loop.induct)
  case (1 pt lastpc reg pc lst)
  then have lt: "pc < lastpc" by simp
  from 1(2) lt 1(3) obtain pc' lst' where
    s: "symb_step pt lastpc NO_REG pc lst = Inr (Some (pc', lst'))"
    and r: "symb_loop pt lastpc NO_REG (pc' + 1) lst' = Inr (Some l)"
    by (subst (asm) symb_loop.simps) (auto split: sum.splits option.splits)
  show ?case
  proof (cases "q = pc")
    case True
    with s show ?thesis by blast
  next
    case False
    have "pc' + 1 = next_boundary pt pc"
      using symb_step_sound [OF s boundary_nonneg [OF 1(5)]] lt 1(4) by (auto simp: next_boundary_def)
    moreover have "next_boundary pt pc \<le> q"
      using boundary_gap [OF 1(6,5)] False 1(7) by simp
    moreover have "boundary pt (next_boundary pt pc)"
      using boundary_next [OF 1(5)] lt 1(4) by simp
    ultimately show ?thesis
      using 1(1) [OF lt, of "Some (pc', lst')" "(pc', lst')" pc' lst'] s r 1(3-) by simp
  qed
qed

lemma checkcode_loop:
  assumes "luaG_checkcode pt = Inr True"
  shows "prechecked pt \<and> (\<exists>l. symb_loop pt (sizecode pt) NO_REG 0 (sizecode pt - 1) = Inr (Some l))"
  using assms
  by (auto simp: luaG_checkcode_def symbexec_def res_simps precheck_True split: if_splits option.splits)

lemma checkcode_step:
  assumes "luaG_checkcode pt = Inr True" "boundary pt pc" "pc < sizecode pt"
  obtains lst pc' lst' where "symb_step pt (sizecode pt) NO_REG pc lst = Inr (Some (pc', lst'))"
  using checkcode_loop [OF assms(1)] symb_loop_visits [OF _ refl refl boundary.start assms(2)]
    boundary_nonneg [OF assms(2)] assms(3) by blast

text \<open>
  C2. The checker is sound for operands: in an accepted prototype every instruction the
  interpreter can decode names only registers of the frame, only constants, upvalues and
  nested prototypes that exist, and global names that are strings.
\<close>

theorem checkcode_operands_in_range:
  assumes "luaG_checkcode pt = Inr True" "boundary pt pc" "pc < sizecode pt"
  shows "instr_ok pt pc"
proof -
  from checkcode_step [OF assms] obtain lst pc' lst' where
    "symb_step pt (sizecode pt) NO_REG pc lst = Inr (Some (pc', lst'))" .
  from symb_step_sound [OF this boundary_nonneg [OF assms(2)] assms(3)] show ?thesis by blast
qed


lemma example_accepted: "luaG_checkcode example_proto = Inr True"
  by code_simp

theorem checkcode_operands_in_range_witness:
  "luaG_checkcode example_proto = Inr True \<and> instr_ok example_proto 0"
  using checkcode_operands_in_range [of example_proto 0, OF _ boundary.start] example_accepted
  by (simp add: example_proto_def sizecode_def)

section \<open>Control stays inside the code\<close>

lemma setlist_run_spec:
  "setlist_run pt dest j = Inr n \<Longrightarrow> 0 \<le> j \<Longrightarrow> j \<le> dest \<Longrightarrow> dest < sizecode pt \<Longrightarrow>
     j \<le> n \<and> n \<le> dest \<and> (\<forall>k. j \<le> k \<and> k < n \<longrightarrow> is_setlist0 (pcode pt ! nat (dest - 1 - k))) \<and>
     (n < dest \<longrightarrow> \<not> is_setlist0 (pcode pt ! nat (dest - 1 - n)))"
proof (induction pt dest j rule: setlist_run.induct)
  case (1 pt dest j)
  show ?case
  proof (cases "j < dest \<and> is_setlist0 (pcode pt ! nat (dest - 1 - j))")
    case True
    then have r: "setlist_run pt dest (j + 1) = Inr n"
      using 1(2-) by (subst (asm) setlist_run.simps) (simp add: code_at_in)
    have IH: "j + 1 \<le> n \<and> n \<le> dest \<and>
        (\<forall>k. j + 1 \<le> k \<and> k < n \<longrightarrow> is_setlist0 (pcode pt ! nat (dest - 1 - k))) \<and>
        (n < dest \<longrightarrow> \<not> is_setlist0 (pcode pt ! nat (dest - 1 - n)))"
      by (rule 1(1) [OF _ code_at_in]) (use True r 1(3-) in auto)
    have "is_setlist0 (pcode pt ! nat (dest - 1 - k))" if "j \<le> k" "k < n" for k
      using that True IH by (cases "k = j") simp_all
    with IH show ?thesis by simp
  next
    case False
    then have "n = j"
      using 1(2-) by (subst (asm) setlist_run.simps) (auto simp: code_at_in split: if_splits)
    with False 1(3-) show ?thesis by auto
  qed
qed

lemma boundary_run:
  assumes b: "boundary pt p" and "even n" and "p + int n \<le> sizecode pt"
    and "\<And>k. p \<le> k \<Longrightarrow> k < p + int n \<Longrightarrow> is_setlist0 (pcode pt ! nat k)"
  shows "boundary pt (p + int n)"
  using assms(2-)
proof (induction n rule: less_induct)
  case (less n)
  show ?case
  proof (cases "n = 0")
    case True
    with b show ?thesis by simp
  next
    case False
    then have n: "n - 2 < n" "even (n - 2)" "int (n - 2) = int n - 2"
      using less.prems(1) by (auto elim!: evenE)
    then have "boundary pt (p + (int n - 2))"
      using less.IH [OF n(1,2)] less.prems(2,3) by simp
    from boundary.skip [OF this] show ?thesis
      using less.prems(2,3) n by (simp add: algebra_simps)
  qed
qed

text \<open>The parity test of the checker is exact: an accepted jump target is a boundary.\<close>

lemma jump_target_boundary:
  assumes run: "setlist_run pt dest 0 = Inr j" and even: "j AND 1 = 0"
    and d: "0 \<le> dest" "dest < sizecode pt"
  shows "boundary pt dest"
proof -
  note S = setlist_run_spec [OF run _ d(1,2), simplified]
  have "boundary pt (dest - j)"
  proof (cases "j = dest")
    case True
    then show ?thesis by (simp add: boundary.start)
  next
    case False
    define q where "q = nat (dest - j)"
    have q: "0 < q" "int q = dest - j" using S False by (auto simp: q_def)
    have "nat (dest - 1 - j) = q - 1" by (simp add: q_def)
    moreover have "\<not> is_setlist0 (pcode pt ! nat (dest - 1 - j))" using S False by auto
    ultimately have "\<not> is_setlist0 (pcode pt ! (q - 1))" by simp
    then show ?thesis
      using boundary_cover [of q pt] q S d by (simp add: sizecode_def)
  qed
  moreover have "even (nat j)" using even S by (simp add: and_one_eq even_nat_iff flip: even_iff_mod_2_eq_zero)
  moreover have "is_setlist0 (pcode pt ! nat k)" if "dest - j \<le> k" "k < dest" for k
  proof -
    have "dest - 1 - (dest - 1 - k) = k" "0 \<le> dest - 1 - k" "dest - 1 - k < j" using that by auto
    with S show ?thesis by metis
  qed
  ultimately have "boundary pt (dest - j + int (nat j))"
    using S d by (intro boundary_run) auto
  then show ?thesis using S by simp
qed

lemma iAsBx_target:
  assumes "symb_operands pt pc i = Inr (Some (b, c))" "opcode_of (GET_OPCODE i) = Some x" "GET_OPCODE i = opc x"
    and "x \<in> {OP_JMP, OP_FORPREP, OP_FORLOOP}"
  shows "0 \<le> pc + 1 + GETARG_sBx i \<and> pc + 1 + GETARG_sBx i < sizecode pt \<and> boundary pt (pc + 1 + GETARG_sBx i)"
proof -
  have "b = GETARG_sBx i \<and> 0 \<le> pc + 1 + b \<and> pc + 1 + b < sizecode pt \<and>
      (0 < pc + 1 + b \<longrightarrow> (\<exists>j. setlist_run pt (pc + 1 + b) 0 = Inr j \<and> j AND 1 = 0))"
    using operands_ok [OF assms(1,2), unfolded assms(3)] assms(4) by (auto simp: opc_def opmode_table)
  then show ?thesis
    using jump_target_boundary [of pt "pc + 1 + b"] boundary.start [of pt]
    by (metis less_eq_int_code(1) order_le_less)
qed

lemma test_target:
  assumes acc: "luaG_checkcode pt = Inr True" and b: "boundary pt pc" and lt: "pc + 2 < sizecode pt"
    and j: "GET_OPCODE (pcode pt ! nat (pc + 1)) = opc OP_JMP" "\<not> is_setlist0 (pcode pt ! nat pc)"
  shows "boundary pt (pc + 2) \<and> (let d = pc + 2 + GETARG_sBx (pcode pt ! nat (pc + 1)) in
    0 \<le> d \<and> d < sizecode pt \<and> boundary pt d)"
proof -
  let ?i = "pcode pt ! nat (pc + 1)"
  have b1: "boundary pt (pc + 1)" using boundary.advance [OF b _ j(2)] lt by simp
  have "\<not> is_setlist0 ?i" using j(1) by (simp add: is_setlist0_def)
  then have b2: "boundary pt (pc + 2)" using boundary.advance [OF b1] lt by (simp add: add.commute)
  obtain lst pc' lst' where s: "symb_step pt (sizecode pt) NO_REG (pc + 1) lst = Inr (Some (pc', lst'))"
    using checkcode_step [OF acc b1] lt by auto
  have p1: "0 \<le> pc + 1" "pc + 1 < sizecode pt" using boundary_nonneg [OF b] lt by simp_all
  from symb_step_Some [OF s p1]
  obtain x b c where x: "opcode_of (GET_OPCODE ?i) = Some x" "GET_OPCODE ?i = opc x"
    and o: "symb_operands pt (pc + 1) ?i = Inr (Some (b, c))"
    by metis
  from x j(1) have "x = OP_JMP" by simp
  with iAsBx_target [OF o x] b2 show ?thesis by (simp add: Let_def algebra_simps)
qed

lemma closure_run:
  "checkupvals pt pc j n = Inr True \<Longrightarrow> boundary pt (pc + int j) \<Longrightarrow> 0 \<le> pc \<Longrightarrow>
     pc + int j + int n \<le> sizecode pt \<Longrightarrow> boundary pt (pc + int j + int n)"
proof (induction n arbitrary: j)
  case 0
  then show ?case by simp
next
  case (Suc n)
  let ?i = "pcode pt ! nat (pc + int j)"
  have o: "GET_OPCODE ?i = opc OP_GETUPVAL \<or> GET_OPCODE ?i = opc OP_MOVE" "checkupvals pt pc (Suc j) n = Inr True"
    using Suc.prems by (auto simp: code_at_in split: if_splits)
  then have "\<not> is_setlist0 ?i" by (auto simp: is_setlist0_def)
  then have "boundary pt (pc + int (Suc j))"
    using boundary.advance [OF Suc.prems(2)] Suc.prems(4) by (simp add: algebra_simps)
  from Suc.IH [OF o(2) this Suc.prems(3)] Suc.prems(4) show ?case by (simp add: algebra_simps)
qed

lemma checkupvals_op:
  "checkupvals pt pc j n = Inr True \<Longrightarrow> 0 < n \<Longrightarrow>
     GET_OPCODE (pcode pt ! nat (pc + int j + int n - 1)) \<noteq> opc OP_RETURN"
proof (induction n arbitrary: j)
  case 0
  then show ?case by simp
next
  case (Suc n)
  show ?case
  proof (cases "n = 0")
    case True
    then show ?thesis using Suc.prems by (auto simp: code_at_def res_simps split: if_splits)
  next
    case False
    with Suc.IH [of "Suc j"] Suc.prems show ?thesis
      by (auto simp: res_simps algebra_simps split: if_splits)
  qed
qed

lemma example_decode:
  "GET_OPCODE (CREATE_ABx 1 0 0) = 1" "opcode_of 1 = Some OP_LOADK"
  by code_simp+

lemma checkcode_last_return:
  assumes "luaG_checkcode pt = Inr True"
  shows "GET_OPCODE (pcode pt ! nat (sizecode pt - 1)) = opc OP_RETURN"
  using checkcode_loop [OF assms] by (auto simp: prechecked_def)

text \<open>
  C1. The checker is sound for control flow: in an accepted prototype every place the
  interpreter can go to after an instruction is again a decodable instruction of the array;
  neither falling through, nor a jump, a test's skip, a loop, a SETLIST count word, nor the
  pseudo-instructions of a CLOSURE lead out of it.  LOADBOOL is excepted for \<open>C\<close> above 1.
\<close>

theorem checkcode_control_in_range:
  assumes acc: "luaG_checkcode pt = Inr True" and b: "boundary pt pc" and lt: "pc < sizecode pt"
    and lb: "GET_OPCODE (pcode pt ! nat pc) = opc OP_LOADBOOL \<Longrightarrow> GETARG_C (pcode pt ! nat pc) \<le> 1"
    and d: "d \<in> vm_succs pt pc"
  shows "0 \<le> d \<and> d < sizecode pt \<and> boundary pt d"
proof -
  let ?i = "pcode pt ! nat pc"
  have pc: "0 \<le> pc" by (rule boundary_nonneg [OF b])
  obtain lst pc' lst' where s: "symb_step pt (sizecode pt) NO_REG pc lst = Inr (Some (pc', lst'))"
    using checkcode_step [OF acc b lt] .
  from symb_step_Some [OF s pc lt] obtain x b' c l where
    x: "opcode_of (GET_OPCODE ?i) = Some x" "GET_OPCODE ?i = opc x"
    and o: "symb_operands pt pc ?i = Inr (Some (b', c))"
    and t: "testTMode (GET_OPCODE ?i) \<Longrightarrow> pc + 2 < sizecode pt \<and> GET_OPCODE (pcode pt ! nat (pc + 1)) = opc OP_JMP"
    and sw: "symb_switch pt (sizecode pt) NO_REG pc l x (GETARG_A ?i) b' c = Inr (Some (pc', lst'))"
    by metis
  have pre: "prechecked pt" using checkcode_loop [OF acc] by blast
  have nx: "pc + 1 < sizecode pt" if "x \<noteq> OP_RETURN"
    using not_last [OF pre pc lt x(2) that] .
  have b1: "boundary pt (pc + 1)" if "\<not> is_setlist0 ?i" using boundary.advance [OF b lt that] .
  have ns: "\<not> is_setlist0 ?i" if "x \<noteq> OP_SETLIST" using that x(2) by (simp add: is_setlist0_def)
  consider "x = OP_RETURN" | "x = OP_JMP \<or> x = OP_FORPREP \<or> x = OP_FORLOOP"
    | "x \<in> {OP_EQ, OP_LT, OP_LE, OP_TEST, OP_TESTSET, OP_TFORLOOP}" | "x = OP_LOADBOOL" | "x = OP_SETLIST"
    | "x = OP_CLOSURE"
    | "x \<notin> {OP_RETURN, OP_JMP, OP_FORPREP, OP_FORLOOP, OP_EQ, OP_LT, OP_LE, OP_TEST, OP_TESTSET,
          OP_TFORLOOP, OP_LOADBOOL, OP_SETLIST, OP_CLOSURE}" by blast
  then show ?thesis
  proof cases
    case 1
    with d x(1) show ?thesis by (simp add: vm_succs_def)
  next
    case 2
    then show ?thesis
      using d x iAsBx_target [OF o x] b1 ns nx pc by (auto simp: vm_succs_def Let_def)
  next
    case 3
    then have "testTMode (GET_OPCODE ?i)" using x(2) by (auto simp: opc_def opmode_table)
    from t [OF this] show ?thesis
      using test_target [OF acc b] ns 3 d x(1) pc by (auto simp: vm_succs_def Let_def)
  next
    case 4
    then have oo: "b' = GETARG_B ?i" "c = GETARG_C ?i"
      using operands_ok [OF o x(1), unfolded x(2)] by (auto simp: opc_def opmode_table)
    show ?thesis
    proof (cases "GETARG_C ?i = 0")
      case True
      then show ?thesis using d x(1) 4 b1 ns nx pc by (auto simp: vm_succs_def Let_def)
    next
      case False
      then have c1: "GETARG_C ?i = 1"
        using lb [unfolded x(2) 4, OF refl] GETARG_nonneg(3) [of ?i] by linarith
      then have l2: "pc + 2 < sizecode pt" and n1: "\<not> is_setlist0 (pcode pt ! nat (pc + 1))"
        using sw 4 oo pc
        by (auto simp: symb_switch_def okif_def res_simps code_at_in is_setlist0_def split: if_splits)
      then have "boundary pt (pc + 2)"
        using boundary.advance [OF b1 _ n1] ns 4 by (simp add: add.commute)
      with l2 show ?thesis using d x(1) 4 c1 pc by (auto simp: vm_succs_def Let_def)
    qed
  next
    case 5
    then have oo: "b' = GETARG_B ?i" "c = GETARG_C ?i"
      using operands_ok [OF o x(1), unfolded x(2)] by (auto simp: opc_def opmode_table)
    show ?thesis
    proof (cases "GETARG_C ?i = 0")
      case True
      then have "pc + 2 < sizecode pt"
        using sw 5 oo by (auto simp: symb_switch_def symb_setlist_def okif_def split: if_splits)
      moreover have "is_setlist0 ?i" using True 5 x(2) by (simp add: is_setlist0_def)
      ultimately show ?thesis
        using boundary.skip [OF b lt] True d x(1) 5 pc by (auto simp: vm_succs_def Let_def)
    next
      case False
      then have "\<not> is_setlist0 ?i" by (simp add: is_setlist0_def)
      with False show ?thesis using d x(1) 5 b1 nx pc by (auto simp: vm_succs_def Let_def)
    qed
  next
    case 6
    then have oo: "b' = GETARG_Bx ?i"
      using operands_ok [OF o x(1), unfolded x(2)] by (auto simp: opc_def opmode_table)
    define nup where "nup = uint (pnups (pp pt ! nat (GETARG_Bx ?i)))"
    have c: "checkupvals pt pc 1 (nat nup) = Inr True" "pc + nup < sizecode pt" "0 \<le> nup"
      using sw 6 oo
      by (auto simp: symb_switch_def symb_closure_def okif_def res_simps p_at_def nup_def Let_def split: if_splits)
    have "boundary pt (pc + int 1 + int (nat nup))"
      by (rule closure_run [OF c(1)]) (use b1 ns 6 pc c nx in auto)
    moreover have "pc + 1 + nup < sizecode pt"
    proof (rule ccontr)
      assume "\<not> pc + 1 + nup < sizecode pt"
      then have e: "sizecode pt - 1 = pc + nup" using c by simp
      show False
      proof (cases "nup = 0")
        case True
        with e nx 6 show False by simp
      next
        case False
        then have "0 < nat nup" "int (nat nup) = nup" using c by auto
        from checkupvals_op [OF c(1) this(1)] this(2) e checkcode_last_return [OF acc]
        show False by (simp add: algebra_simps)
      qed
    qed
    ultimately show ?thesis
      using d x(1) 6 c pc by (simp add: vm_succs_def Let_def nup_def)
  next
    case 7
    then show ?thesis
      using d x(1) b1 ns nx pc by (auto simp: vm_succs_def Let_def)
  qed
qed

theorem checkcode_control_in_range_witness:
  "boundary example_proto 1"
  using checkcode_control_in_range [of example_proto 0 1, OF example_accepted boundary.start]
  by (simp add: example_proto_def sizecode_def vm_succs_def Let_def example_decode opc_def)

definition loadbool_proto :: Proto where
  "loadbool_proto = Proto [] [CREATE_ABC 2 0 1 2, CREATE_ABC 30 0 1 0] [] [] [] [] (Some ''=x'') 0 0 0 0 2 2"

text \<open>
  C4. The exception is real: the checker tests \<open>C = 1\<close> while the interpreter skips whenever
  \<open>C\<close> is not 0, so a prototype whose LOADBOOL has \<open>C = 2\<close> is accepted although control goes
  from its first instruction past the end of the code array.
\<close>

theorem loadbool_skip_escapes:
  "luaG_checkcode loadbool_proto = Inr True \<and> boundary loadbool_proto 0 \<and>
   vm_succs loadbool_proto 0 = {sizecode loadbool_proto}"
proof -
  have "luaG_checkcode loadbool_proto = Inr True" by code_simp
  moreover have "GET_OPCODE (CREATE_ABC 2 0 1 2) = 2 \<and> GETARG_C (CREATE_ABC 2 0 1 2) = 2" by code_simp
  moreover have "opcode_of 2 = Some OP_LOADBOOL" by code_simp
  ultimately show ?thesis
    by (simp add: boundary.start vm_succs_def loadbool_proto_def sizecode_def)
qed

end
