(* ===== verification/Lua_Dump.thy ===== *)
theory Lua_Dump
  imports Lua_Proto
begin

text \<open>
  Writing precompiled chunks (\<^verbatim>\<open>ldump.c\<close>) and the chunk header (\<open>luaU_header\<close> of
  \<^verbatim>\<open>lundump.c\<close>), on a little-endian x86-64 machine.

  The writer supplied by the client is a function on its own data that gets one block and
  answers a status; a status other than 0 stops all further output.  The second half states
  the bytes a prototype is written as, and shows that these are what reaches the writer.
\<close>

section \<open>Memory images\<close>

text \<open>The bytes of an unsigned integer of \<open>k\<close> bytes in memory.\<close>

primrec le_bytes :: "nat \<Rightarrow> nat \<Rightarrow> string" where
  "le_bytes 0 v = []"
| "le_bytes (Suc k) v = char_of v # le_bytes k (v div 256)"

primrec le_value :: "string \<Rightarrow> nat" where
  "le_value [] = 0"
| "le_value (c # cs) = of_char c + 256 * le_value cs"

lemma length_le_bytes [simp]: "length (le_bytes k v) = k"
  by (induction k arbitrary: v) simp_all

lemma le_value_bytes: "le_value (le_bytes k v) = v mod 256 ^ k"
proof (induction k arbitrary: v)
  case 0
  then show ?case by simp
next
  case (Suc k)
  have "v mod (256 * 256 ^ k) = 256 * (v div 256 mod 256 ^ k) + v mod 256"
    by (rule mod_mult2_eq)
  with Suc show ?case by simp
qed

definition mem_u8 :: "u8 \<Rightarrow> string" where "mem_u8 x = le_bytes 1 (unat x)"
definition mem_u32 :: "u32 \<Rightarrow> string" where "mem_u32 x = le_bytes 4 (unat x)"
definition mem_u64 :: "u64 \<Rightarrow> string" where "mem_u64 x = le_bytes 8 (unat x)"
definition mem_int :: "int \<Rightarrow> string" where "mem_int x = mem_u32 (word_of_int x)"

section \<open>The header\<close>

definition LUA_SIGNATURE :: string where "LUA_SIGNATURE = [CHR 0x1B, CHR ''L'', CHR ''u'', CHR ''a'']"
definition LUAC_VERSION :: int where "LUAC_VERSION = 81"
definition LUAC_FORMAT :: int where "LUAC_FORMAT = 0"
definition LUAC_HEADERSIZE :: nat where "LUAC_HEADERSIZE = 12"

definition luaU_header :: string where
  "luaU_header = LUA_SIGNATURE @
     [chr_of LUAC_VERSION, chr_of LUAC_FORMAT, hd (mem_int 1),
      chr_of 4, chr_of 8, chr_of 4, chr_of 8, chr_of 0]"

section \<open>The dumper\<close>

record 'w DumpState =
  ddata :: 'w
  dstatus :: int

type_synonym 'w lua_Writer = "string \<Rightarrow> 'w \<Rightarrow> int \<times> 'w"

definition DumpBlock :: "'w lua_Writer \<Rightarrow> string \<Rightarrow> 'w DumpState \<Rightarrow> 'w DumpState" where
  "DumpBlock w b D =
     (if dstatus D = 0 then (let (st, d) = w b (ddata D) in D\<lparr>ddata := d, dstatus := st\<rparr>) else D)"

definition DumpChar :: "'w lua_Writer \<Rightarrow> int \<Rightarrow> 'w DumpState \<Rightarrow> 'w DumpState" where
  "DumpChar w y D = DumpBlock w [chr_of y] D"

definition DumpInt :: "'w lua_Writer \<Rightarrow> int \<Rightarrow> 'w DumpState \<Rightarrow> 'w DumpState" where
  "DumpInt w x D = DumpBlock w (mem_int x) D"

definition DumpNumber :: "'w lua_Writer \<Rightarrow> lua_Number \<Rightarrow> 'w DumpState \<Rightarrow> 'w DumpState" where
  "DumpNumber w x D = DumpBlock w (mem_u64 x) D"

text \<open>\<open>DumpVector\<close> gets the memory image of the \<open>n\<close> elements.\<close>

definition DumpVector :: "'w lua_Writer \<Rightarrow> string \<Rightarrow> int \<Rightarrow> 'w DumpState \<Rightarrow> 'w DumpState" where
  "DumpVector w b n D = DumpBlock w b (DumpInt w n D)"

definition DumpString :: "'w lua_Writer \<Rightarrow> string option \<Rightarrow> 'w DumpState \<Rightarrow> 'w DumpState" where
  "DumpString w s D =
     (case s of
        None \<Rightarrow> DumpBlock w (mem_u64 0) D
      | Some t \<Rightarrow>
          (let size = of_nat (length t) + 1
           in DumpBlock w (t @ [CHR 0x00]) (DumpBlock w (mem_u64 size) D)))"

definition DumpCode :: "'w lua_Writer \<Rightarrow> Instruction list \<Rightarrow> 'w DumpState \<Rightarrow> 'w DumpState" where
  "DumpCode w code D = DumpVector w (concat (map mem_u32 code)) (int (length code)) D"

definition DumpConst :: "'w lua_Writer \<Rightarrow> Const \<Rightarrow> 'w DumpState \<Rightarrow> 'w DumpState" where
  "DumpConst w c D =
     (let D = DumpChar w (const_ttype c) D in
      case c of
        KNil \<Rightarrow> D
      | KBoolean b \<Rightarrow> DumpChar w b D
      | KNumber n \<Rightarrow> DumpNumber w n D
      | KString s \<Rightarrow> DumpString w s D)"

primrec DumpConsts :: "'w lua_Writer \<Rightarrow> Const list \<Rightarrow> 'w DumpState \<Rightarrow> 'w DumpState" where
  "DumpConsts w [] D = D"
| "DumpConsts w (c # cs) D = DumpConsts w cs (DumpConst w c D)"

primrec DumpLocVars :: "'w lua_Writer \<Rightarrow> LocVar list \<Rightarrow> 'w DumpState \<Rightarrow> 'w DumpState" where
  "DumpLocVars w [] D = D"
| "DumpLocVars w (v # vs) D =
     DumpLocVars w vs (DumpInt w (endpc v) (DumpInt w (startpc v) (DumpString w (varname v) D)))"

primrec DumpStrings :: "'w lua_Writer \<Rightarrow> string option list \<Rightarrow> 'w DumpState \<Rightarrow> 'w DumpState" where
  "DumpStrings w [] D = D"
| "DumpStrings w (s # ss) D = DumpStrings w ss (DumpString w s D)"

definition DumpDebug ::
  "'w lua_Writer \<Rightarrow> bool \<Rightarrow> int list \<Rightarrow> LocVar list \<Rightarrow> string option list \<Rightarrow> 'w DumpState \<Rightarrow> 'w DumpState" where
  "DumpDebug w strip lineinfo locvars upvalues D =
     (let lineinfo = (if strip then [] else lineinfo);
          locvars = (if strip then [] else locvars);
          upvalues = (if strip then [] else upvalues);
          D = DumpVector w (concat (map mem_int lineinfo)) (int (length lineinfo)) D;
          D = DumpLocVars w locvars (DumpInt w (int (length locvars)) D)
      in DumpStrings w upvalues (DumpInt w (int (length upvalues)) D))"

fun DumpFunction :: "'w lua_Writer \<Rightarrow> bool \<Rightarrow> Proto \<Rightarrow> string option \<Rightarrow> 'w DumpState \<Rightarrow> 'w DumpState"
  and DumpFunctions :: "'w lua_Writer \<Rightarrow> bool \<Rightarrow> Proto list \<Rightarrow> string option \<Rightarrow> 'w DumpState \<Rightarrow> 'w DumpState"
where
  "DumpFunction w strip
     (Proto k code ps lineinfo locvars upvalues source linedefined lastlinedefined nups numparams is_vararg maxstacksize) p D =
     (let D = DumpString w (if source = p \<or> strip then None else source) D;
          D = DumpInt w linedefined D;
          D = DumpInt w lastlinedefined D;
          D = DumpChar w (uint nups) D;
          D = DumpChar w (uint numparams) D;
          D = DumpChar w (uint is_vararg) D;
          D = DumpChar w (uint maxstacksize) D;
          D = DumpCode w code D;
          D = DumpConsts w k (DumpInt w (int (length k)) D);
          D = DumpFunctions w strip ps source (DumpInt w (int (length ps)) D)
      in DumpDebug w strip lineinfo locvars upvalues D)"
| "DumpFunctions w strip [] p D = D"
| "DumpFunctions w strip (f # fs) p D = DumpFunctions w strip fs p (DumpFunction w strip f p D)"

definition luaU_dump :: "'w lua_Writer \<Rightarrow> Proto \<Rightarrow> 'w \<Rightarrow> bool \<Rightarrow> int \<times> 'w" where
  "luaU_dump w f d strip =
     (let D = \<lparr>ddata = d, dstatus = 0\<rparr>; D = DumpBlock w luaU_header D; D = DumpFunction w strip f None D
      in (dstatus D, ddata D))"

text \<open>The writer of \<open>string.dump\<close> (\<^verbatim>\<open>lstrlib.c\<close>): it appends to a buffer and never fails.\<close>

definition str_writer :: "string lua_Writer" where
  "str_writer b buf = (0, buf @ b)"

section \<open>The bytes of a chunk\<close>

primrec bString :: "string option \<Rightarrow> string" where
  "bString None = mem_u64 0"
| "bString (Some t) = mem_u64 (of_nat (length t) + 1) @ t @ [CHR 0x00]"

primrec bConst :: "Const \<Rightarrow> string" where
  "bConst KNil = [chr_of 0]"
| "bConst (KBoolean b) = [chr_of 1, chr_of b]"
| "bConst (KNumber n) = chr_of 3 # mem_u64 n"
| "bConst (KString s) = chr_of 4 # bString s"

definition bLocVar :: "LocVar \<Rightarrow> string" where
  "bLocVar v = bString (varname v) @ mem_int (startpc v) @ mem_int (endpc v)"

definition bList :: "('a \<Rightarrow> string) \<Rightarrow> 'a list \<Rightarrow> string" where
  "bList b xs = mem_int (int (length xs)) @ concat (map b xs)"

definition bDebug :: "int list \<Rightarrow> LocVar list \<Rightarrow> string option list \<Rightarrow> string" where
  "bDebug lineinfo locvars upvalues = bList mem_int lineinfo @ bList bLocVar locvars @ bList bString upvalues"

fun bFunction :: "bool \<Rightarrow> Proto \<Rightarrow> string option \<Rightarrow> string"
  and bFunctions :: "bool \<Rightarrow> Proto list \<Rightarrow> string option \<Rightarrow> string"
where
  "bFunction strip
     (Proto k code ps lineinfo locvars upvalues source linedefined lastlinedefined nups numparams is_vararg maxstacksize) p =
     bString (if source = p \<or> strip then None else source) @ mem_int linedefined @ mem_int lastlinedefined @
     mem_u8 nups @ mem_u8 numparams @ mem_u8 is_vararg @ mem_u8 maxstacksize @
     bList mem_u32 code @ bList bConst k @
     (mem_int (int (length ps)) @ bFunctions strip ps source) @
     (if strip then bDebug [] [] [] else bDebug lineinfo locvars upvalues)"
| "bFunctions strip [] p = []"
| "bFunctions strip (f # fs) p = bFunction strip f p @ bFunctions strip fs p"

definition bChunk :: "bool \<Rightarrow> Proto \<Rightarrow> string" where
  "bChunk strip f = luaU_header @ bFunction strip f None"

lemma uchar_char_of_nat: "uchar (char_of (n :: nat)) = int n mod 256"
proof -
  have "uchar (char_of n) = int (of_char (char_of n) :: nat)" by (simp only: uchar_def of_nat_of_char)
  also have "(of_char (char_of n) :: nat) = n mod 256" by simp
  finally show ?thesis by (simp add: zmod_int)
qed

lemma mem_u8_char: "mem_u8 x = [chr_of (uint x)]"
proof -
  have "uint x < 256" using unsigned_less [of x, where 'a = int] by simp
  then have "uchar (char_of (unat x)) = uchar (chr_of (uint x))"
    by (simp add: uchar_char_of_nat uchar_chr_of)
  then show ?thesis by (simp add: mem_u8_def)
qed

section \<open>What a writer receives\<close>

locale byte_writer =
  fixes w :: "'w lua_Writer" and out :: "'w \<Rightarrow> string"
  assumes writes: "w b d = (0, d') \<Longrightarrow> out d' = out d @ b"
begin

definition emits :: "('w DumpState \<Rightarrow> 'w DumpState) \<Rightarrow> string \<Rightarrow> bool" where
  "emits f bs = (\<forall>D. (dstatus D \<noteq> 0 \<longrightarrow> f D = D) \<and>
     (dstatus (f D) = 0 \<longrightarrow> out (ddata (f D)) = out (ddata D) @ bs))"

lemma emits_comp: "emits f bs \<Longrightarrow> emits g cs \<Longrightarrow> emits (\<lambda>D. g (f D)) (bs @ cs)"
  unfolding emits_def by (metis append.assoc)

lemma emits_id: "emits (\<lambda>D. D) []"
  by (simp add: emits_def)

lemma emits_block: "emits (DumpBlock w b) b"
  by (auto simp: emits_def DumpBlock_def split: prod.splits dest: writes)

lemma emits_char: "emits (DumpChar w y) [chr_of y]"
  using emits_block [of "[chr_of y]"] by (simp add: DumpChar_def [abs_def])

lemma emits_int: "emits (DumpInt w x) (mem_int x)"
  using emits_block [of "mem_int x"] by (simp add: DumpInt_def [abs_def])

lemma emits_string: "emits (DumpString w s) (bString s)"
  by (cases s)
    (use emits_block emits_comp [OF emits_block emits_block] in \<open>simp_all add: DumpString_def [abs_def] Let_def\<close>)

lemma emits_const: "emits (DumpConst w c) (bConst c)"
  using emits_char [of 0] emits_comp [OF emits_char emits_char] emits_comp [OF emits_char emits_block]
    emits_comp [OF emits_char emits_string]
  by (cases c) (fastforce simp: DumpConst_def [abs_def] Let_def DumpNumber_def)+

lemma emits_consts: "emits (DumpConsts w cs) (concat (map bConst cs))"
  by (induction cs) (auto intro: emits_id emits_comp emits_const)

lemma emits_locvars: "emits (DumpLocVars w vs) (concat (map bLocVar vs))"
proof (induction vs)
  case (Cons v vs)
  show ?case
    using emits_comp [OF emits_comp [OF emits_comp [OF emits_string emits_int] emits_int] Cons]
    by (simp add: bLocVar_def)
qed (simp add: emits_id)

lemma emits_strings: "emits (DumpStrings w ss) (concat (map bString ss))"
  by (induction ss) (auto intro: emits_id emits_comp emits_string)

lemma emits_vector: "emits (DumpVector w b n) (mem_int n @ b)"
  using emits_comp [OF emits_int emits_block] by (simp add: DumpVector_def [abs_def])

lemma emits_debug:
  "emits (DumpDebug w strip li lv up) (if strip then bDebug [] [] [] else bDebug li lv up)"
proof -
  have "emits (\<lambda>D. DumpStrings w ss (DumpInt w n (DumpLocVars w vs (DumpInt w m (DumpVector w b l D)))))
      ((((mem_int l @ b) @ mem_int m) @ concat (map bLocVar vs)) @ mem_int n @ concat (map bString ss))"
    for ss n vs m b l
    using emits_comp [OF emits_comp [OF emits_comp [OF emits_comp [OF emits_vector emits_int] emits_locvars] emits_int] emits_strings]
    by simp
  from this [of up _ lv _ "concat (map mem_int li)"] this [of "[]" _ "[]" _ "[]"] show ?thesis
    by (cases strip) (simp_all add: DumpDebug_def [abs_def] Let_def bDebug_def bList_def)
qed

lemma emits_function:
  "emits (DumpFunction w strip f p) (bFunction strip f p)"
  "emits (DumpFunctions w strip fs p) (bFunctions strip fs p)"
proof (induction strip f p and strip fs p rule: bFunction_bFunctions.induct)
  case (1 strip k code ps lineinfo locvars upvalues source linedefined lastlinedefined nups numparams is_vararg maxstacksize p)
  note E = emits_comp [OF emits_comp [OF emits_comp [OF emits_comp [OF emits_comp [OF emits_comp [OF emits_comp
    [OF emits_string emits_int] emits_int] emits_char] emits_char] emits_char] emits_char] emits_vector]
  note F = emits_comp [OF emits_comp [OF emits_comp [OF emits_comp [OF emits_comp [OF E emits_int] emits_consts] emits_int] 1] emits_debug]
  show ?case
    using F
    by (simp add: DumpCode_def Let_def bList_def mem_u8_char)
qed (auto intro: emits_id emits_comp)

lemma dump_emits: "luaU_dump w f d strip = (0, d') \<Longrightarrow> out d' = out d @ bChunk strip f"
proof -
  have "emits (\<lambda>D. DumpFunction w strip f None (DumpBlock w luaU_header D)) (bChunk strip f)"
    unfolding bChunk_def by (rule emits_comp [OF emits_block emits_function(1)])
  then show "luaU_dump w f d strip = (0, d') \<Longrightarrow> out d' = out d @ bChunk strip f"
    by (auto simp: luaU_dump_def emits_def Let_def)
qed

end

text \<open>A writer that never fails delivers the whole chunk.\<close>

locale total_writer = byte_writer +
  assumes total: "fst (w b d) = 0"
begin

definition keeps :: "('a DumpState \<Rightarrow> 'a DumpState) \<Rightarrow> bool" where
  "keeps f = (\<forall>D. dstatus D = 0 \<longrightarrow> dstatus (f D) = 0)"

lemma keepsD: "keeps f \<Longrightarrow> dstatus D = 0 \<Longrightarrow> dstatus (f D) = 0"
  by (simp add: keeps_def)

lemma keeps_block: "keeps (DumpBlock w b)"
  using total by (auto simp: keeps_def DumpBlock_def Let_def split: prod.splits) (metis fst_conv)

lemma keeps_basic:
  "keeps (DumpInt w n)" "keeps (DumpChar w n)" "keeps (DumpVector w b n)"
  "keeps (DumpString w s)" "keeps (DumpNumber w x)"
  using keeps_block
  by (auto simp: keeps_def DumpInt_def DumpChar_def DumpVector_def DumpString_def DumpNumber_def Let_def
      split: option.splits)

lemma keeps_const: "keeps (DumpConst w c)"
  using keeps_basic by (auto simp: keeps_def DumpConst_def Let_def split: Const.splits)

lemma keeps_consts: "dstatus D = 0 \<Longrightarrow> dstatus (DumpConsts w cs D) = 0"
  by (induction cs arbitrary: D) (auto intro: keepsD [OF keeps_const])

lemma keeps_locvars: "dstatus D = 0 \<Longrightarrow> dstatus (DumpLocVars w vs D) = 0"
  by (induction vs arbitrary: D) (auto intro: keepsD [OF keeps_basic(1)] keepsD [OF keeps_basic(4)])

lemma keeps_strings: "dstatus D = 0 \<Longrightarrow> dstatus (DumpStrings w ss D) = 0"
  by (induction ss arbitrary: D) (auto intro: keepsD [OF keeps_basic(4)])

lemmas keeps_all = keepsD [OF keeps_basic(1)] keepsD [OF keeps_basic(2)] keepsD [OF keeps_basic(3)]
  keepsD [OF keeps_basic(4)] keeps_consts keeps_locvars keeps_strings

lemma keeps_function:
  "dstatus D = 0 \<Longrightarrow> dstatus (DumpFunction w strip f p D) = 0"
  "dstatus D = 0 \<Longrightarrow> dstatus (DumpFunctions w strip fs p D) = 0"
proof (induction strip f p and strip fs p arbitrary: D and D rule: bFunction_bFunctions.induct)
  case (1 strip k code ps lineinfo locvars upvalues source linedefined lastlinedefined nups numparams is_vararg maxstacksize p)
  show ?case by (simp add: DumpCode_def DumpDebug_def Let_def 1 keeps_all)
qed auto

lemma dump_total: "\<exists>d'. luaU_dump w f d strip = (0, d') \<and> out d' = out d @ bChunk strip f"
proof -
  have "fst (luaU_dump w f d strip) = 0"
    by (simp add: luaU_dump_def Let_def keeps_function keepsD [OF keeps_block])
  then obtain d' where "luaU_dump w f d strip = (0, d')" by (metis prod.collapse)
  with dump_emits show ?thesis by blast
qed

end

interpretation strw: total_writer str_writer "\<lambda>buf. buf"
  by unfold_locales (simp_all add: str_writer_def)

end
