(* ===== verification/Lua_Mem.thy ===== *)
theory Lua_Mem
  imports Lua_Object
begin

text \<open>
  The memory interface of \<^verbatim>\<open>lmem.c\<close> and \<^verbatim>\<open>lmem.h\<close>: the accounting of the generic allocation
  routine, the overflow test of the vector macros and the growth of vectors.

  The allocator \<open>frealloc\<close> is supplied by the host program: the parameter \<open>mem\<close> says
  whether it can serve a block of so many bytes (a request for 0 bytes frees and always
  gives NULL).  Block contents belong to the data structures and not to this component.
\<close>

record mem_state =
  totalbytes :: u64
  allocbytes :: u64
  freebytes :: u64

type_synonym allocator = "u64 \<Rightarrow> bool"

text \<open>An allocator that never fails.\<close>

definition ample :: "allocator \<Rightarrow> bool" where "ample mem = (\<forall>b. mem b)"

definition MAX_SIZET :: u64 where "MAX_SIZET = NOT 0 - 2"
definition MINSIZEARRAY :: int where "MINSIZEARRAY = 4"

definition luaM_toobig :: "lua_err + 'a" where
  "luaM_toobig = Inl (LUA_ERRRUN ''memory allocation error: block too big'')"

definition luaM_realloc :: "allocator \<Rightarrow> u64 \<Rightarrow> u64 \<Rightarrow> mem_state \<Rightarrow> lua_err + mem_state" where
  "luaM_realloc mem osize nsize g =
     (if nsize > 0 \<and> \<not> mem nsize then Inl LUA_ERRMEM
      else Inr (g\<lparr>totalbytes := (totalbytes g - osize) + nsize,
                 allocbytes := allocbytes g + nsize,
                 freebytes := freebytes g + osize\<rparr>))"

definition luaM_reallocv :: "allocator \<Rightarrow> u64 \<Rightarrow> u64 \<Rightarrow> u64 \<Rightarrow> mem_state \<Rightarrow> lua_err + mem_state" where
  "luaM_reallocv mem oldn n e g =
     (if n + 1 \<le> MAX_SIZET div e then luaM_realloc mem (oldn * e) (n * e) g else luaM_toobig)"

text \<open>
  The same macro with \<open>int\<close> counts: \<open>n+1\<close> is computed in \<open>int\<close>, where it overflows for the
  largest value.
\<close>

definition luaM_reallocv_int :: "allocator \<Rightarrow> int \<Rightarrow> int \<Rightarrow> u64 \<Rightarrow> mem_state \<Rightarrow> lua_err + mem_state" where
  "luaM_reallocv_int mem oldn n e g =
     (if n = INT_MAX then Inl (UB ''signed overflow'')
      else if word_of_int (n + 1) \<le> MAX_SIZET div e
      then luaM_realloc mem (word_of_int oldn * e) (word_of_int n * e) g else luaM_toobig)"

definition luaM_newvector :: "allocator \<Rightarrow> int \<Rightarrow> u64 \<Rightarrow> mem_state \<Rightarrow> lua_err + mem_state" where
  "luaM_newvector mem n e g = luaM_reallocv_int mem 0 n e g"

definition luaM_growaux ::
  "allocator \<Rightarrow> int \<Rightarrow> u64 \<Rightarrow> int \<Rightarrow> string \<Rightarrow> mem_state \<Rightarrow> lua_err + (int \<times> mem_state)" where
  "luaM_growaux mem sz e limit errormsg g =
     bindE (if sz \<ge> limit div 2
            then if sz \<ge> limit then Inl (LUA_ERRRUN errormsg) else Inr limit
            else Inr (if sz * 2 < MINSIZEARRAY then MINSIZEARRAY else sz * 2))
       (\<lambda>newsize. bindE (luaM_reallocv_int mem sz newsize e g) (\<lambda>g'. Inr (newsize, g')))"

definition luaM_growvector ::
  "allocator \<Rightarrow> int \<Rightarrow> int \<Rightarrow> u64 \<Rightarrow> int \<Rightarrow> string \<Rightarrow> mem_state \<Rightarrow> lua_err + (int \<times> mem_state)" where
  "luaM_growvector mem nelems sz e limit errormsg g =
     (if nelems + 1 > sz then luaM_growaux mem sz e limit errormsg g else Inr (sz, g))"

section \<open>Laws\<close>

lemma realloc_balance:
  "luaM_realloc mem osize nsize g = Inr g' \<Longrightarrow>
     totalbytes g' - allocbytes g' + freebytes g' = totalbytes g - allocbytes g + freebytes g"
  by (auto simp: luaM_realloc_def split: if_splits)

lemma reallocv_int_ok:
  assumes "0 \<le> n" "n < INT_MAX" "0 < e" "e \<le> 2 ^ 31" "ample mem"
  shows "luaM_reallocv_int mem oldn n e g =
    luaM_realloc mem (word_of_int oldn * e) (word_of_int n * e) g"
proof -
  have "uint (word_of_int (n + 1) :: u64) = n + 1"
    by (subst uint_word_of_int) (use assms(1,2) in \<open>simp add: INT_MAX_def\<close>)
  moreover have "n + 1 \<le> uint (MAX_SIZET div e)"
  proof -
    have e: "0 < uint e" "uint e \<le> 2 ^ 31" using assms(3,4) by (simp_all add: word_less_def word_le_def)
    have "uint (MAX_SIZET div e) = (2 ^ 64 - 3) div uint e"
      by (simp add: uint_div MAX_SIZET_def)
    moreover have "(2 ^ 64 - 3) div 2 ^ 31 \<le> (2 ^ 64 - 3) div uint e"
      by (rule zdiv_mono2) (use e in auto)
    ultimately show ?thesis using assms(2) by (simp add: INT_MAX_def)
  qed
  ultimately show ?thesis
    using assms(2) by (simp add: luaM_reallocv_int_def word_le_def)
qed

lemma growvector_step:
  assumes "0 \<le> nelems" "nelems \<le> sz" "sz \<le> limit" "4 \<le> limit" "limit < INT_MAX"
    and "0 < e" "e \<le> 2 ^ 31" "ample mem"
  shows "if nelems = limit
    then luaM_growvector mem nelems sz e limit msg g = Inl (LUA_ERRRUN msg)
    else (\<exists>sz' g'. luaM_growvector mem nelems sz e limit msg g = Inr (sz', g') \<and>
            nelems + 1 \<le> sz' \<and> sz \<le> sz' \<and> sz' \<le> limit \<and>
            (sz' = sz \<or> sz' = limit \<or> 2 * sz \<le> sz') \<and>
            totalbytes g' - allocbytes g' + freebytes g' = totalbytes g - allocbytes g + freebytes g)"
proof (cases "nelems = limit \<or> nelems + 1 \<le> sz")
  case True
  then show ?thesis
    using assms(2,3,4) by (auto simp: luaM_growvector_def luaM_growaux_def)
next
  case False
  define n' where "n' = (if sz \<ge> limit div 2 then limit else if sz * 2 < MINSIZEARRAY then MINSIZEARRAY else sz * 2)"
  have n': "0 \<le> n'" "n' < INT_MAX" "nelems + 1 \<le> n'" "sz \<le> n'" "n' \<le> limit"
      "n' = limit \<or> 2 * sz \<le> n'"
    using False assms(1-5) by (auto simp: n'_def MINSIZEARRAY_def)
  obtain g' where g': "luaM_realloc mem (word_of_int sz * e) (word_of_int n' * e) g = Inr g'"
    using assms(8) by (auto simp: luaM_realloc_def ample_def)
  have r: "luaM_reallocv_int mem sz n' e g = Inr g'"
    using reallocv_int_ok [OF n'(1,2) assms(6-8), where oldn = sz and g = g] g' by (simp only:)
  have "luaM_growvector mem nelems sz e limit msg g = Inr (n', g')"
    using False assms(2,3) r by (auto simp: luaM_growvector_def luaM_growaux_def n'_def)
  then show ?thesis
    using False n' realloc_balance [OF g'] by auto
qed

text \<open>
  C15. Vector growth: when the elements so far fit the vector and the limit is below the
  largest \<open>int\<close>, one step either makes room for one more element, at least doubling a
  vector that is not near its limit and never passing the limit, or fails with the caller's
  message, exactly when the vector is full at its limit.
\<close>

theorem growvector_room:
  assumes "0 \<le> nelems" "nelems \<le> sz" "sz \<le> limit" "4 \<le> limit" "limit < INT_MAX"
    and "0 < e" "e \<le> 2 ^ 31" "ample mem"
  shows "if nelems = limit
    then luaM_growvector mem nelems sz e limit msg g = Inl (LUA_ERRRUN msg)
    else (\<exists>sz' g'. luaM_growvector mem nelems sz e limit msg g = Inr (sz', g') \<and>
            nelems + 1 \<le> sz' \<and> sz \<le> sz' \<and> sz' \<le> limit \<and>
            (sz' = sz \<or> sz' = limit \<or> 2 * sz \<le> sz') \<and>
            totalbytes g' - allocbytes g' + freebytes g' = totalbytes g - allocbytes g + freebytes g)"
  by (rule growvector_step [OF assms])

theorem growvector_room_witness:
  "\<exists>sz' g'. luaM_growvector (\<lambda>_. True) 4 4 16 100 ''too many'' \<lparr>totalbytes = 64, allocbytes = 64, freebytes = 0\<rparr> =
     Inr (sz', g') \<and> 5 \<le> sz'"
  using growvector_room [of 4 4 100 16 "\<lambda>_. True" "''too many''" "\<lparr>totalbytes = 64, allocbytes = 64, freebytes = 0\<rparr>"]
  by (auto simp: INT_MAX_def ample_def)

end
