(* ===== verification/Lua_Zio.thy ===== *)
theory Lua_Zio
  imports Lua_Mem
begin

text \<open>
  Buffered streams (\<^verbatim>\<open>lzio.h\<close>, \<^verbatim>\<open>lzio.c\<close>) and the two readers of \<^verbatim>\<open>lauxlib.c\<close> that feed them.

  The pointer \<open>p\<close> of a \<open>ZIO\<close> is the block last returned by the reader and a position in it;
  reading at or past the end of the block is \<open>UB\<close>.  The reader is a function on its own
  data; an empty block stands for NULL or size 0, which \<open>luaZ_fill\<close> treats alike.
\<close>

definition EOZ :: int where "EOZ = - 1"

record 'd ZIO =
  zn :: u64
  zblk :: string
  zpos :: nat
  zdata :: 'd

type_synonym 'd reader = "'d \<Rightarrow> string \<times> 'd"

definition luaZ_init :: "'d \<Rightarrow> 'd ZIO" where
  "luaZ_init d = \<lparr>zn = 0, zblk = [], zpos = 0, zdata = d\<rparr>"

definition luaZ_fill :: "'d reader \<Rightarrow> 'd ZIO \<Rightarrow> int \<times> 'd ZIO" where
  "luaZ_fill rd z =
     (let (buff, d) = rd (zdata z); size = of_nat (length buff) :: u64; z = z\<lparr>zdata := d\<rparr>
      in if size = 0 then (EOZ, z)
         else (uchar (hd buff), z\<lparr>zn := size - 1, zblk := buff, zpos := 1\<rparr>))"

text \<open>The macro \<open>zgetc\<close>: \<open>n\<close> is decremented even when it is 0.\<close>

definition zgetc :: "'d reader \<Rightarrow> 'd ZIO \<Rightarrow> lua_err + (int \<times> 'd ZIO)" where
  "zgetc rd z =
     (let z' = z\<lparr>zn := zn z - 1\<rparr> in
      if zn z > 0 then
        if zpos z < length (zblk z)
        then Inr (uchar (zblk z ! zpos z), z'\<lparr>zpos := zpos z + 1\<rparr>)
        else Inl (UB ''zgetc'')
      else Inr (luaZ_fill rd z'))"

definition luaZ_lookahead :: "'d reader \<Rightarrow> 'd ZIO \<Rightarrow> lua_err + (int \<times> 'd ZIO)" where
  "luaZ_lookahead rd z =
     (let here = (\<lambda>z. if zpos z < length (zblk z) then Inr (uchar (zblk z ! zpos z), z)
                      else Inl (UB ''luaZ_lookahead''))
      in if zn z = 0 then
           (let (c, z) = luaZ_fill rd z in
            if c = EOZ then Inr (EOZ, z)
            else here (z\<lparr>zn := zn z + 1, zpos := zpos z - 1\<rparr>))
         else here z)"

lemma uchar_not_EOZ [simp]: "uchar c \<noteq> EOZ" "EOZ \<noteq> uchar c"
  using uchar_ge_0 [of c] unfolding EOZ_def by linarith+

lemma lookahead_progress:
  "luaZ_lookahead rd z = Inr (c, z') \<Longrightarrow> c \<noteq> EOZ \<Longrightarrow> 0 < zn z'"
  by (auto simp: luaZ_lookahead_def luaZ_fill_def Let_def word_neq_0_conv split: if_splits prod.splits)

text \<open>\<open>luaZ_read\<close> gives the number of missing bytes and the bytes copied to \<open>b\<close>.\<close>

function luaZ_read :: "'d reader \<Rightarrow> 'd ZIO \<Rightarrow> u64 \<Rightarrow> string \<Rightarrow> lua_err + (u64 \<times> string \<times> 'd ZIO)" where
  "luaZ_read rd z n b =
     (if n = 0 then Inr (0, b, z)
      else bindE (luaZ_lookahead rd z) (\<lambda>r.
        case r of (c, z1) \<Rightarrow>
        if c = EOZ then Inr (n, b, z1)
        else let m = (if n \<le> zn z1 then n else zn z1) in
          if zpos z1 + unat m \<le> length (zblk z1)
          then luaZ_read rd (z1\<lparr>zn := zn z1 - m, zpos := zpos z1 + unat m\<rparr>) (n - m)
                 (b @ take (unat m) (drop (zpos z1) (zblk z1)))
          else Inl (UB ''luaZ_read'')))"
  by pat_completeness auto
termination
proof (relation "measure (\<lambda>(rd, z, n, b). unat n)", goal_cases)
  case (2 rd z n b r c z1 m)
  then have "0 < m" "m \<le> n"
    using lookahead_progress [of rd z c z1] by (auto simp: word_neq_0_conv split: if_splits)
  then have "unat (n - m) < unat n"
    by (simp add: unat_sub word_less_nat_alt word_le_nat_alt)
  then show ?case by simp
qed simp

declare luaZ_read.simps [simp del]

section \<open>The growing buffer\<close>

text \<open>\<open>Mbuffer\<close> as its size; \<open>luaZ_openspace\<close> makes it at least \<open>n\<close> long.\<close>

definition LUA_MINBUFFER :: u64 where "LUA_MINBUFFER = 32"

definition luaZ_openspace :: "allocator \<Rightarrow> u64 \<Rightarrow> u64 \<Rightarrow> mem_state \<Rightarrow> lua_err + (u64 \<times> mem_state)" where
  "luaZ_openspace mem buffsize n g =
     (if n > buffsize then
        (let n = (if n < LUA_MINBUFFER then LUA_MINBUFFER else n) in
         bindE (luaM_reallocv mem buffsize n 1 g) (\<lambda>g. Inr (n, g)))
      else Inr (buffsize, g))"

lemma openspace_enough:
  "luaZ_openspace mem s n g = Inr (s', g') \<Longrightarrow> n \<le> s' \<and> s \<le> s'"
  by (auto simp: luaZ_openspace_def Let_def res_simps split: if_splits)

section \<open>Readers\<close>

text \<open>\<open>getS\<close>: one block, then the end.\<close>

record LoadS =
  ls_s :: string
  ls_size :: u64

definition getS :: "LoadS reader" where
  "getS ls = (if ls_size ls = 0 then ([], ls)
              else (take (unat (ls_size ls)) (ls_s ls), ls\<lparr>ls_size := 0\<rparr>))"

definition luaL_loadbuffer_data :: "string \<Rightarrow> LoadS" where
  "luaL_loadbuffer_data s = \<lparr>ls_s = s, ls_size = of_nat (length s)\<rparr>"

text \<open>
  \<open>getF\<close>: an optional line feed, then the file by blocks of \<open>LUAL_BUFFERSIZE\<close> bytes.  \<open>feof\<close>
  holds once a read has met the end of the file.
\<close>

definition LUAL_BUFFERSIZE :: nat where "LUAL_BUFFERSIZE = 8192"

record LoadF =
  extraline :: bool
  lf_rest :: string
  lf_eof :: bool

definition getF :: "LoadF reader" where
  "getF lf =
     (if extraline lf then ([CHR 0x0A], lf\<lparr>extraline := False\<rparr>)
      else if lf_eof lf then ([], lf)
      else (take LUAL_BUFFERSIZE (lf_rest lf),
            lf\<lparr>lf_rest := drop LUAL_BUFFERSIZE (lf_rest lf),
               lf_eof := length (lf_rest lf) < LUAL_BUFFERSIZE\<rparr>))"

section \<open>The stream a reader delivers\<close>

text \<open>
  The contract between a stream and its client: the reader hands out the bytes of a string
  block by block and nothing after the end.
\<close>

locale byte_reader =
  fixes rd :: "'d reader" and stream :: "'d \<Rightarrow> string" and ready :: "'d \<Rightarrow> bool"
  assumes at_end: "ready d \<Longrightarrow> rd d = ([], d') \<Longrightarrow> stream d = [] \<and> stream d' = [] \<and> ready d'"
    and block: "ready d \<Longrightarrow> rd d = (b, d') \<Longrightarrow> b \<noteq> [] \<Longrightarrow>
      stream d = b @ stream d' \<and> length b < 2 ^ 64 \<and> ready d'"
begin

definition zok :: "'d ZIO \<Rightarrow> bool" where
  "zok z = (zpos z + unat (zn z) = length (zblk z) \<and> ready (zdata z))"

definition contents :: "'d ZIO \<Rightarrow> string" where
  "contents z = drop (zpos z) (zblk z) @ stream (zdata z)"

lemma init_ok: "ready d \<Longrightarrow> zok (luaZ_init d) \<and> contents (luaZ_init d) = stream d"
  by (simp add: zok_def contents_def luaZ_init_def)

lemma fill_empty:
  assumes "ready (zdata z)" "stream (zdata z) = []"
  shows "\<exists>d. luaZ_fill rd z = (EOZ, z\<lparr>zdata := d\<rparr>) \<and> stream d = [] \<and> ready d"
proof -
  obtain b d where r: "rd (zdata z) = (b, d)" by fastforce
  then have "b = []" using block [OF assms(1) r] assms(2) by auto
  then show ?thesis
    using r at_end [OF assms(1), of d] by (intro exI [of _ d]) (simp add: luaZ_fill_def)
qed

lemma fill_block:
  assumes "ready (zdata z)" "stream (zdata z) \<noteq> []"
  shows "\<exists>b d. b \<noteq> [] \<and> length b < 2 ^ 64 \<and> stream (zdata z) = b @ stream d \<and> ready d \<and>
    luaZ_fill rd z = (uchar (hd b), z\<lparr>zn := of_nat (length b) - 1, zblk := b, zpos := 1, zdata := d\<rparr>)"
proof -
  obtain b d where r: "rd (zdata z) = (b, d)" by fastforce
  then have b: "b \<noteq> []" using at_end [OF assms(1), of d] assms(2) by auto
  note B = block [OF assms(1) r b]
  have "(of_nat (length b) :: u64) \<noteq> 0"
    using B b by (simp add: word_of_nat_eq_0_iff nat_dvd_not_less)
  then show ?thesis
    using r B b by (intro exI [of _ b] exI [of _ d]) (simp add: luaZ_fill_def)
qed

lemma lookahead_none:
  assumes "zok z" "contents z = []"
  shows "\<exists>z'. luaZ_lookahead rd z = Inr (EOZ, z') \<and> zok z' \<and> contents z' = []"
proof -
  have "unat (zn z) = 0" using assms by (simp add: zok_def contents_def)
  then have e: "zn z = 0" "stream (zdata z) = []" "ready (zdata z)"
    using assms by (simp_all add: zok_def contents_def unat_eq_zero)
  obtain d where "luaZ_fill rd z = (EOZ, z\<lparr>zdata := d\<rparr>)" "stream d = []" "ready d"
    using fill_empty [OF e(3,2)] by blast
  then show ?thesis using e assms by (simp add: luaZ_lookahead_def zok_def contents_def)
qed

lemma lookahead_some:
  assumes "zok z" "contents z \<noteq> []"
  shows "\<exists>z'. luaZ_lookahead rd z = Inr (uchar (hd (contents z)), z') \<and> zok z' \<and>
    contents z' = contents z \<and> 0 < zn z'"
proof (cases "zn z = 0")
  case False
  then have "0 < unat (zn z)" by (simp add: unat_eq_zero flip: neq0_conv)
  then have "zpos z < length (zblk z)"
    using assms(1) by (simp add: zok_def)
  then have "luaZ_lookahead rd z = Inr (uchar (hd (contents z)), z)"
    using False by (simp add: luaZ_lookahead_def contents_def hd_drop_conv_nth)
  then show ?thesis using assms False by (auto simp: word_neq_0_conv)
next
  case True
  then have e: "contents z = stream (zdata z)" "ready (zdata z)"
    using assms(1) by (simp_all add: zok_def contents_def)
  from fill_block [OF e(2)] assms(2) e(1) obtain b d where b: "b \<noteq> []" "length b < 2 ^ 64"
    "stream (zdata z) = b @ stream d" "ready d"
    "luaZ_fill rd z = (uchar (hd b), z\<lparr>zn := of_nat (length b) - 1, zblk := b, zpos := 1, zdata := d\<rparr>)"
    by auto
  define z' where "z' = z\<lparr>zn := of_nat (length b), zblk := b, zpos := 0, zdata := d\<rparr>"
  have "unat (of_nat (length b) :: u64) = length b" using b(2) by (simp add: unat_of_nat)
  then have "zok z'" "0 < zn z'" "contents z' = contents z"
    using b e(1) by (simp_all add: zok_def contents_def z'_def word_less_nat_alt)
  moreover have "luaZ_lookahead rd z = Inr (uchar (hd (contents z)), z')"
    using True b(1,3) e(1)
    by (simp add: luaZ_lookahead_def b(5) z'_def hd_conv_nth nth_append)
  ultimately show ?thesis by blast
qed

lemma getc_some:
  assumes "zok z" "contents z = c # s"
  shows "\<exists>z'. zgetc rd z = Inr (uchar c, z') \<and> zok z' \<and> contents z' = s"
proof (cases "zn z = 0")
  case False
  then have u: "unat (zn z - 1) + 1 = unat (zn z)" using unat_sub [of 1 "zn z"] by (simp add: word_le_nat_alt Suc_le_eq unat_eq_zero flip: neq0_conv)
  have p: "zpos z < length (zblk z)"
    using assms(1) u by (simp add: zok_def)
  then have "drop (zpos z) (zblk z) = zblk z ! zpos z # drop (Suc (zpos z)) (zblk z)"
    by (rule Cons_nth_drop_Suc [symmetric])
  then have "zblk z ! zpos z = c" "drop (Suc (zpos z)) (zblk z) @ stream (zdata z) = s"
    using assms(2) by (simp_all add: contents_def)
  then show ?thesis
    using False p u assms(1) by (simp add: zgetc_def Let_def word_neq_0_conv zok_def contents_def)
next
  case True
  then have e: "contents z = stream (zdata z)" "ready (zdata z)"
    using assms(1) by (simp_all add: zok_def contents_def)
  let ?z = "z\<lparr>zn := zn z - 1\<rparr>"
  from fill_block [of ?z] assms(2) e obtain b d where b: "b \<noteq> []" "length b < 2 ^ 64"
    "stream (zdata z) = b @ stream d" "ready d"
    "luaZ_fill rd ?z = (uchar (hd b), ?z\<lparr>zn := of_nat (length b) - 1, zblk := b, zpos := 1, zdata := d\<rparr>)"
    by auto
  have bc: "b = c # tl b" "s = tl b @ stream d"
    using b(1,3) e(1) assms(2) by (cases b; simp)+
  have "of_nat (length b) - 1 = (of_nat (length (tl b)) :: u64)" by (subst bc(1)) simp
  moreover have "unat (of_nat (length (tl b)) :: u64) = length (tl b)" using b(2) by (simp add: unat_of_nat)
  ultimately have "zok (?z\<lparr>zn := of_nat (length b) - 1, zblk := b, zpos := 1, zdata := d\<rparr>)"
    using b(1,4) by (simp add: zok_def)
  then show ?thesis
    using True b(5) bc by (simp add: zgetc_def Let_def contents_def drop_Suc) (metis list.sel(1))
qed

lemma getc_none:
  assumes "zok z" "contents z = []"
  shows "\<exists>z'. zgetc rd z = Inr (EOZ, z')"
proof -
  have "unat (zn z) = 0" using assms by (simp add: zok_def contents_def)
  then have e: "zn z = 0" "stream (zdata z) = []" "ready (zdata z)"
    using assms by (simp_all add: zok_def contents_def unat_eq_zero)
  then show ?thesis
    using fill_empty [of "z\<lparr>zn := zn z - 1\<rparr>"] by (auto simp: zgetc_def Let_def)
qed

lemma read_spec:
  "zok z \<Longrightarrow> \<exists>z'. luaZ_read rd z n b =
     Inr (n - of_nat (min (unat n) (length (contents z))), b @ take (unat n) (contents z), z') \<and>
     zok z' \<and> contents z' = drop (unat n) (contents z)"
proof (induction "unat n" arbitrary: z n b rule: less_induct)
  case less
  consider "n = 0" | "n \<noteq> 0" "contents z = []" | "n \<noteq> 0" "contents z \<noteq> []" by blast
  then show ?case
  proof cases
    case 1
    with less.prems show ?thesis by (simp add: luaZ_read.simps)
  next
    case 2
    with lookahead_none [OF less.prems] show ?thesis by (auto simp: luaZ_read.simps [of rd z n b])
  next
    case 3
    from lookahead_some [OF less.prems 3(2)] obtain z1 where
      l: "luaZ_lookahead rd z = Inr (uchar (hd (contents z)), z1)" and z1: "zok z1" "contents z1 = contents z" "0 < zn z1"
      by blast
    define m where "m = (if n \<le> zn z1 then n else zn z1)"
    have m: "m \<noteq> 0" "m \<le> n" "m \<le> zn z1" using 3(1) z1(3) by (auto simp: m_def)
    have u: "unat (n - m) = unat n - unat m" "unat (zn z1 - m) = unat (zn z1) - unat m"
      "0 < unat m" "unat m \<le> unat n" "unat m \<le> unat (zn z1)"
      using m by (simp_all add: unat_sub unat_eq_zero word_le_nat_alt flip: neq0_conv)
    define z2 where "z2 = z1\<lparr>zn := zn z1 - m, zpos := zpos z1 + unat m\<rparr>"
    have len: "zpos z1 + unat m \<le> length (zblk z1)" using z1(1) u by (simp add: zok_def)
    have z2: "zok z2" using z1 u len by (simp add: zok_def z2_def)
    have d2: "contents z2 = drop (unat m) (contents z)"
      unfolding z1(2) [symmetric] using len by (simp add: z2_def contents_def add.commute)
    have c: "take (unat m) (drop (zpos z1) (zblk z1)) = take (unat m) (contents z)"
      unfolding z1(2) [symmetric] using len by (simp add: contents_def)
    have lc: "unat m \<le> length (contents z)"
      unfolding z1(2) [symmetric] using len by (simp add: contents_def)
    let ?b = "b @ take (unat m) (contents z)"
    have step: "luaZ_read rd z n b = luaZ_read rd z2 (n - m) ?b"
      using 3(1) l len by (subst luaZ_read.simps) (simp add: z2_def Let_def flip: m_def c)
    have "unat (n - m) < unat n" using u by simp
    from less.hyps [OF this z2, of ?b] obtain z' where
      r: "luaZ_read rd z2 (n - m) ?b = Inr (n - m - of_nat (min (unat (n - m)) (length (contents z2))),
        ?b @ take (unat (n - m)) (contents z2), z')" "zok z'" "contents z' = drop (unat (n - m)) (contents z2)"
      by blast
    have "m + of_nat (min (unat (n - m)) (length (contents z2))) = of_nat (min (unat n) (length (contents z)))"
    proof -
      have "min (unat n) (length (contents z)) = unat m + min (unat n - unat m) (length (contents z) - unat m)"
        using u lc by simp
      then show ?thesis using u d2 by simp
    qed
    moreover have "take (unat m) (contents z) @ take (unat n - unat m) (drop (unat m) (contents z)) =
        take (unat n) (contents z)"
      using u by (simp flip: take_add)
    ultimately show ?thesis
      using r step u d2 by (intro exI [of _ z']) (simp add: diff_diff_eq)
  qed
qed

end

lemma length_take_unat: "length (take (unat (n :: u64)) s) < 2 ^ 64"
  using unsigned_less [of n, where 'a = nat] by (simp add: min.strict_coboundedI2)

interpretation getS: byte_reader getS
  "\<lambda>ls. take (unat (ls_size ls)) (ls_s ls)" "\<lambda>ls. True"
  using length_take_unat
  by unfold_locales (auto simp: getS_def split: if_splits)

interpretation getF: byte_reader getF
  "\<lambda>lf. (if extraline lf then [CHR 0x0A] else []) @ (if lf_eof lf then [] else lf_rest lf)"
  "\<lambda>lf. True"
  by unfold_locales
    (auto simp: getF_def LUAL_BUFFERSIZE_def split: if_splits)

section \<open>Reading a file\<close>

definition file_bytes :: "bool \<Rightarrow> string \<Rightarrow> string" where
  "file_bytes x s = (if x then [CHR 0x0A] else []) @ s"

text \<open>
  C12. Reading through the buffered stream is reading the file: two reads in a row deliver
  the first \<open>n\<close> bytes and the \<open>m\<close> bytes after them, whatever the sizes of the reader's
  blocks, report exactly how many bytes are missing at the end, and never touch memory
  outside the block.
\<close>

theorem luaZ_read_file:
  "\<exists>z1 z2. luaZ_read getF (luaZ_init \<lparr>extraline = x, lf_rest = s, lf_eof = False\<rparr>) n [] =
     Inr (n - of_nat (min (unat n) (length (file_bytes x s))), take (unat n) (file_bytes x s), z1) \<and>
     luaZ_read getF z1 m [] =
     Inr (m - of_nat (min (unat m) (length (drop (unat n) (file_bytes x s)))),
          take (unat m) (drop (unat n) (file_bytes x s)), z2)"
proof -
  let ?d = "\<lparr>extraline = x, lf_rest = s, lf_eof = False\<rparr>"
  have c: "getF.zok (luaZ_init ?d)" "getF.contents (luaZ_init ?d) = file_bytes x s"
    using getF.init_ok [of ?d] by (simp_all add: file_bytes_def)
  from getF.read_spec [OF c(1), of n "[]"] c(2) obtain z1 where
    z1: "luaZ_read getF (luaZ_init ?d) n [] =
      Inr (n - of_nat (min (unat n) (length (file_bytes x s))), take (unat n) (file_bytes x s), z1)"
    "getF.zok z1" "getF.contents z1 = drop (unat n) (file_bytes x s)"
    by auto
  from getF.read_spec [OF z1(2), of m "[]"] z1(1,3) show ?thesis by auto
qed

text \<open>
  At the end of the stream \<open>zgetc\<close> answers \<open>EOZ\<close> but leaves its byte count wrapped
  around, so that a second \<open>zgetc\<close> reads past the block: the answer must never be ignored.
\<close>

theorem zgetc_once_at_end:
  "\<exists>z'. zgetc getS (luaZ_init (luaL_loadbuffer_data [])) = Inr (EOZ, z') \<and>
     zn z' = 2 ^ 64 - 1 \<and> zgetc getS z' = Inl (UB ''zgetc'')"
  by (simp add: zgetc_def luaZ_init_def luaZ_fill_def getS_def luaL_loadbuffer_data_def Let_def flip: word_neq_0_conv)

end
