(* ===== verification/Lua_Undump.thy ===== *)
theory Lua_Undump
  imports Lua_CodeCheck Lua_Dump Lua_Zio
begin

text \<open>
  Loading precompiled chunks (\<^verbatim>\<open>lundump.c\<close>).

  A loader is a function on the load state: the stream, the size of the scratch buffer and
  the allocation account.  \<open>nm\<close> is the chunk name of the messages, \<open>rd\<close> the reader, \<open>mem\<close>
  the allocator.  \<open>nCcalls\<close> is an argument of \<open>LoadFunction\<close>: it grows on entry and is
  restored on return.  Counting a reference to a NULL string is \<open>UB\<close>.  The theorems relate
  the loader to the bytes the dumper writes, through \<open>decodes\<close>.
\<close>

definition LUAI_MAXCCALLS :: nat where "LUAI_MAXCCALLS = 200"

section \<open>Loaders\<close>

record 'd LoadState =
  lz :: "'d ZIO"
  lbuff :: u64
  lmem :: mem_state

type_synonym ('d, 'a) loader = "'d LoadState \<Rightarrow> lua_err + ('a \<times> 'd LoadState)"

definition retL :: "'a \<Rightarrow> ('d, 'a) loader" where
  "retL x s = Inr (x, s)"

definition bindL :: "('d, 'a) loader \<Rightarrow> ('a \<Rightarrow> ('d, 'b) loader) \<Rightarrow> ('d, 'b) loader" where
  "bindL m f s = bindE (m s) (\<lambda>r. f (fst r) (snd r))"

lemma bindL_cong [fundef_cong]:
  "s = s' \<Longrightarrow> m s' = m' s' \<Longrightarrow> (\<And>x t. m' s' = Inr (x, t) \<Longrightarrow> f x t = g x t) \<Longrightarrow> bindL m f s = bindL m' g s'"
  by (auto simp: bindL_def intro!: bindE_cong)

lemma bindL_simps [simp]:
  "m s = Inr (x, t) \<Longrightarrow> bindL m f s = f x t"
  "m s = Inl e \<Longrightarrow> bindL m f s = Inl e"
  by (simp_all add: bindL_def)

lemma bindL_ret: "bindL (retL x) f = f x"
  by (simp add: fun_eq_iff bindL_def retL_def)

definition load_error :: "string \<Rightarrow> string \<Rightarrow> ('d, 'a) loader" where
  "load_error nm why s = Inl (LUA_ERRSYNTAX (nm @ '': '' @ why @ '' in precompiled chunk''))"

definition LoadBlock :: "'d reader \<Rightarrow> string \<Rightarrow> u64 \<Rightarrow> ('d, string) loader" where
  "LoadBlock rd nm sz s =
     bindE (luaZ_read rd (lz s) sz []) (\<lambda>r.
       case r of (missing, b, z) \<Rightarrow>
         if missing \<noteq> 0 then load_error nm ''unexpected end'' s else Inr (b, s\<lparr>lz := z\<rparr>))"

definition LoadChar :: "'d reader \<Rightarrow> string \<Rightarrow> ('d, int) loader" where
  "LoadChar rd nm = bindL (LoadBlock rd nm 1) (\<lambda>b. retL (schar (hd b)))"

definition LoadByte :: "'d reader \<Rightarrow> string \<Rightarrow> ('d, u8) loader" where
  "LoadByte rd nm = bindL (LoadChar rd nm) (\<lambda>c. retL (word_of_int c))"

definition image_int :: "string \<Rightarrow> int" where
  "image_int b = sint (of_nat (le_value b) :: u32)"

definition LoadInt :: "'d reader \<Rightarrow> string \<Rightarrow> ('d, int) loader" where
  "LoadInt rd nm =
     bindL (LoadBlock rd nm 4) (\<lambda>b.
       let x = image_int b in if x < 0 then load_error nm ''bad integer'' else retL x)"

definition LoadNumber :: "'d reader \<Rightarrow> string \<Rightarrow> ('d, lua_Number) loader" where
  "LoadNumber rd nm = bindL (LoadBlock rd nm 8) (\<lambda>b. retL (of_nat (le_value b)))"

definition openspace :: "allocator \<Rightarrow> u64 \<Rightarrow> ('d, unit) loader" where
  "openspace mem sz s =
     bindE (luaZ_openspace mem (lbuff s) sz (lmem s)) (\<lambda>r. Inr ((), s\<lparr>lbuff := fst r, lmem := snd r\<rparr>))"

definition LoadString :: "'d reader \<Rightarrow> allocator \<Rightarrow> string \<Rightarrow> ('d, string option) loader" where
  "LoadString rd mem nm =
     bindL (LoadBlock rd nm 8) (\<lambda>b.
       let size = of_nat (le_value b) :: u64 in
       if size = 0 then retL None
       else bindL (openspace mem size) (\<lambda>_.
         bindL (LoadBlock rd nm size) (\<lambda>s. retL (Some (take (unat (size - 1)) s)))))"

definition newvector :: "allocator \<Rightarrow> int \<Rightarrow> u64 \<Rightarrow> ('d, unit) loader" where
  "newvector mem n e s = bindE (luaM_newvector mem n e (lmem s)) (\<lambda>g. Inr ((), s\<lparr>lmem := g\<rparr>))"

text \<open>The elements of a vector from its memory image, \<open>e\<close> bytes each.\<close>

fun chunks :: "nat \<Rightarrow> nat \<Rightarrow> string \<Rightarrow> string list" where
  "chunks e 0 b = []"
| "chunks e (Suc n) b = take e b # chunks e n (drop e b)"

definition LoadVector :: "'d reader \<Rightarrow> string \<Rightarrow> int \<Rightarrow> nat \<Rightarrow> ('d, string list) loader" where
  "LoadVector rd nm n e =
     bindL (LoadBlock rd nm (word_of_int n * of_nat e)) (\<lambda>b. retL (chunks e (nat n) b))"

definition LoadCode :: "'d reader \<Rightarrow> allocator \<Rightarrow> string \<Rightarrow> ('d, Instruction list) loader" where
  "LoadCode rd mem nm =
     bindL (LoadInt rd nm) (\<lambda>n. bindL (newvector mem n 4) (\<lambda>_.
       bindL (LoadVector rd nm n 4) (\<lambda>bs. retL (map (\<lambda>b. of_nat (le_value b)) bs))))"

definition LoadConst :: "'d reader \<Rightarrow> allocator \<Rightarrow> string \<Rightarrow> ('d, Const) loader" where
  "LoadConst rd mem nm =
     bindL (LoadChar rd nm) (\<lambda>t.
       if t = 0 then retL KNil
       else if t = 1 then bindL (LoadChar rd nm) (\<lambda>b. retL (KBoolean (if b \<noteq> 0 then 1 else 0)))
       else if t = 3 then bindL (LoadNumber rd nm) (\<lambda>n. retL (KNumber n))
       else if t = 4 then
         bindL (LoadString rd mem nm) (\<lambda>s.
           case s of None \<Rightarrow> (\<lambda>_. Inl (UB ''addobjref(NULL)'')) | Some _ \<Rightarrow> retL (KString s))
       else load_error nm ''bad constant'')"

primrec LoadTimes :: "nat \<Rightarrow> ('d, 'a) loader \<Rightarrow> ('d, 'a list) loader" where
  "LoadTimes 0 m = retL []"
| "LoadTimes (Suc n) m = bindL m (\<lambda>x. bindL (LoadTimes n m) (\<lambda>xs. retL (x # xs)))"

definition LoadConsts :: "'d reader \<Rightarrow> allocator \<Rightarrow> string \<Rightarrow> ('d, Const list) loader" where
  "LoadConsts rd mem nm =
     bindL (LoadInt rd nm) (\<lambda>n. bindL (newvector mem n 16) (\<lambda>_. LoadTimes (nat n) (LoadConst rd mem nm)))"

text \<open>A debug name: the string is referenced as soon as it is stored.\<close>

definition LoadName :: "'d reader \<Rightarrow> allocator \<Rightarrow> string \<Rightarrow> ('d, string option) loader" where
  "LoadName rd mem nm =
     bindL (LoadString rd mem nm) (\<lambda>s.
       case s of None \<Rightarrow> (\<lambda>_. Inl (UB ''addstringref(NULL)'')) | Some _ \<Rightarrow> retL s)"

definition LoadLocVar :: "'d reader \<Rightarrow> allocator \<Rightarrow> string \<Rightarrow> ('d, LocVar) loader" where
  "LoadLocVar rd mem nm =
     bindL (LoadName rd mem nm) (\<lambda>v. bindL (LoadInt rd nm) (\<lambda>s. bindL (LoadInt rd nm) (\<lambda>e.
       retL \<lparr>varname = v, startpc = s, endpc = e\<rparr>)))"

definition LoadDebug ::
  "'d reader \<Rightarrow> allocator \<Rightarrow> string \<Rightarrow> ('d, int list \<times> LocVar list \<times> string option list) loader" where
  "LoadDebug rd mem nm =
     bindL (LoadInt rd nm) (\<lambda>n. bindL (newvector mem n 4) (\<lambda>_. bindL (LoadVector rd nm n 4) (\<lambda>li.
     bindL (LoadInt rd nm) (\<lambda>n. bindL (newvector mem n 16) (\<lambda>_.
     bindL (LoadTimes (nat n) (LoadLocVar rd mem nm)) (\<lambda>lv.
     bindL (LoadInt rd nm) (\<lambda>n. bindL (newvector mem n 8) (\<lambda>_.
     bindL (LoadTimes (nat n) (LoadName rd mem nm)) (\<lambda>up.
       retL (map image_int li, lv, up))))))))))"

definition LoadSource :: "'d reader \<Rightarrow> allocator \<Rightarrow> string \<Rightarrow> string option \<Rightarrow> ('d, string option) loader" where
  "LoadSource rd mem nm p =
     bindL (LoadString rd mem nm) (\<lambda>s.
       case (if s = None then p else s) of
         None \<Rightarrow> (\<lambda>_. Inl (UB ''addstringref(NULL)'')) | Some t \<Rightarrow> retL (Some t))"

definition checked :: "string \<Rightarrow> Proto \<Rightarrow> ('d, Proto) loader" where
  "checked nm f s =
     (case luaG_checkcode f of
        Inl e \<Rightarrow> Inl e | Inr ok \<Rightarrow> if ok then Inr (f, s) else load_error nm ''bad code'' s)"

function LoadFunction ::
    "'d reader \<Rightarrow> allocator \<Rightarrow> string \<Rightarrow> nat \<Rightarrow> string option \<Rightarrow> ('d, Proto) loader"
  and LoadFunctions ::
    "'d reader \<Rightarrow> allocator \<Rightarrow> string \<Rightarrow> nat \<Rightarrow> string option \<Rightarrow> nat \<Rightarrow> ('d, Proto list) loader"
where
  "LoadFunction rd mem nm nCcalls p st =
     (if nCcalls + 1 > LUAI_MAXCCALLS then load_error nm ''code too deep'' st
      else bindL (LoadSource rd mem nm p) (\<lambda>source.
        bindL (LoadInt rd nm) (\<lambda>linedefined.
        bindL (LoadInt rd nm) (\<lambda>lastlinedefined.
        bindL (LoadByte rd nm) (\<lambda>nups.
        bindL (LoadByte rd nm) (\<lambda>numparams.
        bindL (LoadByte rd nm) (\<lambda>is_vararg.
        bindL (LoadByte rd nm) (\<lambda>maxstacksize.
        bindL (LoadCode rd mem nm) (\<lambda>code.
        bindL (LoadConsts rd mem nm) (\<lambda>k.
        bindL (LoadInt rd nm) (\<lambda>n.
        bindL (newvector mem n 8) (\<lambda>_.
        bindL (\<lambda>st. LoadFunctions rd mem nm (nCcalls + 1) source (nat n) st) (\<lambda>ps.
        bindL (LoadDebug rd mem nm) (\<lambda>(li, lv, up).
          checked nm (Proto k code ps li lv up source linedefined lastlinedefined nups numparams
            is_vararg maxstacksize)))))))))))))) st)"
| "LoadFunctions rd mem nm nCcalls p n st =
     (case n of
        0 \<Rightarrow> Inr ([], st)
      | Suc n \<Rightarrow>
          bindL (\<lambda>st. LoadFunction rd mem nm nCcalls p st) (\<lambda>f.
          bindL (\<lambda>st. LoadFunctions rd mem nm nCcalls p n st) (\<lambda>fs. retL (f # fs))) st)"
  by pat_completeness auto
termination
  by (relation "measures [\<lambda>x. case x of Inl (rd, mem, nm, c, p, st) \<Rightarrow> LUAI_MAXCCALLS - c
                               | Inr (rd, mem, nm, c, p, n, st) \<Rightarrow> LUAI_MAXCCALLS - c,
                          \<lambda>x. case x of Inl (rd, mem, nm, c, p, st) \<Rightarrow> 0
                               | Inr (rd, mem, nm, c, p, n, st) \<Rightarrow> Suc n]") auto

declare LoadFunction.simps [simp del] LoadFunctions.simps [simp del]

definition LoadHeader :: "'d reader \<Rightarrow> string \<Rightarrow> ('d, unit) loader" where
  "LoadHeader rd nm =
     bindL (LoadBlock rd nm (of_nat LUAC_HEADERSIZE)) (\<lambda>b.
       if b \<noteq> luaU_header then load_error nm ''bad header'' else retL ())"

definition chunk_display_name :: "string \<Rightarrow> string" where
  "chunk_display_name name =
     (if cstr_at name 0 = CHR ''@'' \<or> cstr_at name 0 = CHR ''='' then tl name
      else if cstr_at name 0 = hd LUA_SIGNATURE then ''binary string''
      else name)"

definition luaU_undump ::
  "'d reader \<Rightarrow> allocator \<Rightarrow> string \<Rightarrow> nat \<Rightarrow> ('d, Proto) loader" where
  "luaU_undump rd mem name nCcalls =
     (let nm = chunk_display_name name in
      bindL (LoadHeader rd nm) (\<lambda>_. LoadFunction rd mem nm nCcalls (Some ''=?'')))"

section \<open>Decoding\<close>

text \<open>
  \<open>decodes m e x bs\<close>: on a stream that starts with \<open>bs\<close> the loader delivers \<open>x\<close> and stops
  exactly behind \<open>bs\<close>; on a stream that ends inside \<open>bs\<close> it fails with \<open>e\<close>.
\<close>

context byte_reader
begin

definition decodes :: "('d, 'a) loader \<Rightarrow> lua_err \<Rightarrow> 'a \<Rightarrow> string \<Rightarrow> bool" where
  "decodes m e x bs = (\<forall>s. zok (lz s) \<longrightarrow>
     (\<forall>t. contents (lz s) = bs @ t \<longrightarrow> (\<exists>s'. m s = Inr (x, s') \<and> zok (lz s') \<and> contents (lz s') = t)) \<and>
     (\<forall>u. u \<noteq> [] \<and> bs = contents (lz s) @ u \<longrightarrow> m s = Inl e))"

lemma decodesD:
  assumes "decodes m e x bs" "zok (lz s)"
  shows "contents (lz s) = bs @ t \<Longrightarrow> \<exists>s'. m s = Inr (x, s') \<and> zok (lz s') \<and> contents (lz s') = t"
    and "u \<noteq> [] \<Longrightarrow> bs = contents (lz s) @ u \<Longrightarrow> m s = Inl e"
  using assms unfolding decodes_def by blast+

lemma decodes_ret: "decodes (retL x) e x []"
  by (simp add: decodes_def retL_def)

lemma decodes_bind:
  assumes m: "decodes m e x bs" and f: "decodes (f x) e y cs"
  shows "decodes (bindL m f) e y (bs @ cs)"
  unfolding decodes_def
proof (intro allI impI conjI)
  fix s :: "'d LoadState" and t assume z: "zok (lz s)" and c: "contents (lz s) = (bs @ cs) @ t"
  obtain s1 where s1: "m s = Inr (x, s1)" "zok (lz s1)" "contents (lz s1) = cs @ t"
    using decodesD(1) [OF m z, of "cs @ t"] c by auto
  with decodesD(1) [OF f s1(2,3)]
  show "\<exists>s'. bindL m f s = Inr (y, s') \<and> zok (lz s') \<and> contents (lz s') = t" by simp
next
  fix s :: "'d LoadState" and u assume z: "zok (lz s)" and u: "u \<noteq> [] \<and> bs @ cs = contents (lz s) @ u"
  then consider (short) v where "v \<noteq> []" "bs = contents (lz s) @ v"
    | (mid) v where "contents (lz s) = bs @ v" "cs = v @ u"
    by (metis append_Nil2 append_eq_append_conv2)
  then show "bindL m f s = Inl e"
  proof cases
    case short
    with decodesD(2) [OF m z] show ?thesis by simp
  next
    case mid
    obtain s1 where "m s = Inr (x, s1)" "zok (lz s1)" "contents (lz s1) = v"
      using decodesD(1) [OF m z mid(1)] by blast
    with decodesD(2) [OF f] mid u show ?thesis by simp
  qed
qed

lemma decodes_bind_ret:
  "decodes m e x bs \<Longrightarrow> decodes (f x) e y [] \<Longrightarrow> decodes (bindL m f) e y bs"
  using decodes_bind [of m e x bs f y "[]"] by simp

lemma decodes_silent:
  assumes "\<And>s. zok (lz s) \<Longrightarrow> \<exists>s'. m s = Inr (x, s') \<and> lz s' = lz s"
  shows "decodes m e x []"
  using assms unfolding decodes_def by fastforce

lemma decodes_silent_bind:
  "decodes m e x [] \<Longrightarrow> decodes (f x) e y bs \<Longrightarrow> decodes (bindL m f) e y bs"
  using decodes_bind [of m e x "[]" f y bs] by simp

definition eof_err :: "string \<Rightarrow> lua_err" where
  "eof_err nm = LUA_ERRSYNTAX (nm @ '': unexpected end in precompiled chunk'')"

lemma decodes_block:
  assumes "length bs = unat n"
  shows "decodes (LoadBlock rd nm n) (eof_err nm) bs bs"
  unfolding decodes_def
proof (intro allI impI conjI)
  fix s :: "'d LoadState" and t assume "zok (lz s)" "contents (lz s) = bs @ t"
  with assms read_spec [of "lz s" n "[]"]
  show "\<exists>s'. LoadBlock rd nm n s = Inr (bs, s') \<and> zok (lz s') \<and> contents (lz s') = t"
    by (auto simp: LoadBlock_def)
next
  fix s :: "'d LoadState" and u assume z: "zok (lz s)" and u: "u \<noteq> [] \<and> bs = contents (lz s) @ u"
  then have "length (contents (lz s)) < unat n" using assms by (auto simp flip: assms)
  then have l: "length (contents (lz s)) < unat n" "unat (of_nat (length (contents (lz s))) :: u64) = length (contents (lz s))"
    using unsigned_less [of n, where 'a = nat] by (simp_all add: unat_of_nat)
  then have "n - of_nat (length (contents (lz s))) \<noteq> 0"
    by (metis eq_iff_diff_eq_0 less_irrefl)
  with l read_spec [OF z, of n "[]"] show "LoadBlock rd nm n s = Inl (eof_err nm)"
    by (auto simp: LoadBlock_def load_error_def eof_err_def min_def)
qed

lemma decodes_char: "decodes (LoadChar rd nm) (eof_err nm) (schar c) [c]"
  unfolding LoadChar_def
  by (rule decodes_bind_ret [OF decodes_block]) (simp_all add: decodes_ret)

end

lemma schar_u8: "word_of_int (schar (chr_of (uint (x :: u8)))) = x"
proof -
  have "uint x < 256" using unsigned_less [of x, where 'a = int] by simp
  then have "uchar (chr_of (uint x)) = uint x" by (simp add: uchar_chr_of)
  then have "word_of_int (schar (chr_of (uint x))) = (word_of_int (uint x - (if uint x < 128 then 0 else 256)) :: u8)"
    by (simp add: schar_def)
  also have "\<dots> = x" by (simp add: word_of_int_eq_iff)
  finally show ?thesis .
qed

lemma image_mem_u32 [simp]: "of_nat (le_value (mem_u32 x)) = x"
  using unsigned_less [of x, where 'a = nat] by (simp add: mem_u32_def le_value_bytes)

lemma image_mem_u64 [simp]: "of_nat (le_value (mem_u64 x)) = x"
  using unsigned_less [of x, where 'a = nat] by (simp add: mem_u64_def le_value_bytes)

lemma length_mem [simp]:
  "length (mem_u32 x) = 4" "length (mem_u64 y) = 8" "length (mem_int i) = 4" "length (mem_u8 z) = 1"
  by (simp_all add: mem_u32_def mem_u64_def mem_int_def mem_u8_def)

lemma image_mem_int: "INT_MIN \<le> x \<Longrightarrow> x \<le> INT_MAX \<Longrightarrow> image_int (mem_int x) = x"
proof -
  assume "INT_MIN \<le> x" "x \<le> INT_MAX"
  then have "signed_take_bit (LENGTH(32) - 1) x = x"
    by (intro signed_take_bit_int_eq_self) (simp_all add: INT_MIN_def INT_MAX_def)
  then show ?thesis by (simp only: image_int_def mem_int_def image_mem_u32 sint_sbintrunc')
qed

lemma unat_MAX_SIZET: "unat MAX_SIZET = 2 ^ 64 - 3"
proof -
  have m: "MAX_SIZET = 18446744073709551613" by (simp add: MAX_SIZET_def)
  show ?thesis unfolding m by simp
qed

lemma chunks_concat:
  "(\<And>x. x \<in> set xs \<Longrightarrow> length (b x) = e) \<Longrightarrow> chunks e (length xs) (concat (map b xs)) = map b xs"
  by (induction xs) simp_all

lemma length_concat_const:
  "(\<And>x. x \<in> set xs \<Longrightarrow> length (b x) = e) \<Longrightarrow> length (concat (map b xs)) = length xs * e"
  by (induction xs) simp_all

section \<open>Prototypes that can be written and read back\<close>

definition int_ok :: "int \<Rightarrow> bool" where "int_ok x = (0 \<le> x \<and> x \<le> INT_MAX)"
definition length_ok :: "'a list \<Rightarrow> bool" where "length_ok xs = (int (length xs) < INT_MAX)"

primrec string_ok :: "string option \<Rightarrow> bool" where
  "string_ok None = True"
| "string_ok (Some t) = (length t < 2 ^ 63)"

primrec const_ok :: "Const \<Rightarrow> bool" where
  "const_ok KNil = True"
| "const_ok (KBoolean b) = (b = 0 \<or> b = 1)"
| "const_ok (KNumber n) = True"
| "const_ok (KString s) = (s \<noteq> None \<and> string_ok s)"

definition name_ok :: "string option \<Rightarrow> bool" where "name_ok s = (s \<noteq> None \<and> string_ok s)"

definition locvar_ok :: "LocVar \<Rightarrow> bool" where
  "locvar_ok v = (name_ok (varname v) \<and> int_ok (startpc v) \<and> int_ok (endpc v))"

definition lines_ok :: "int list \<Rightarrow> bool" where
  "lines_ok li = (length_ok li \<and> (\<forall>x \<in> set li. INT_MIN \<le> x \<and> x \<le> INT_MAX))"

lemma int_ok_length: "length_ok xs \<Longrightarrow> int_ok (int (length xs))"
  by (simp add: int_ok_def length_ok_def)

context byte_reader
begin

lemma decodes_int: "int_ok x \<Longrightarrow> decodes (LoadInt rd nm) (eof_err nm) x (mem_int x)"
  unfolding LoadInt_def
  by (rule decodes_bind_ret [OF decodes_block])
    (simp_all add: int_ok_def image_mem_int INT_MIN_def decodes_ret)

lemma decodes_number: "decodes (LoadNumber rd nm) (eof_err nm) x (mem_u64 x)"
  unfolding LoadNumber_def by (rule decodes_bind_ret [OF decodes_block]) (simp_all add: decodes_ret)

lemma decodes_byte: "decodes (LoadByte rd nm) (eof_err nm) x (mem_u8 x)"
  unfolding LoadByte_def mem_u8_char
  by (rule decodes_bind_ret [OF decodes_char]) (simp add: decodes_ret schar_u8)

lemma decodes_newvector:
  assumes "ample mem" "length_ok xs" "0 < e" "e \<le> 2 ^ 31"
  shows "decodes (newvector mem (int (length xs)) e) err () []"
proof (rule decodes_silent)
  fix s :: "'d LoadState"
  have "luaM_reallocv_int mem 0 (int (length xs)) e (lmem s) =
      luaM_realloc mem (word_of_int 0 * e) (word_of_int (int (length xs)) * e) (lmem s)"
    by (rule reallocv_int_ok) (use assms in \<open>auto simp: length_ok_def\<close>)
  then show "\<exists>s'. newvector mem (int (length xs)) e s = Inr ((), s') \<and> lz s' = lz s"
    using assms(1) by (auto simp: newvector_def luaM_newvector_def luaM_realloc_def ample_def)
qed

lemma decodes_openspace:
  assumes "ample mem" "unat n \<le> 2 ^ 63"
  shows "decodes (openspace mem n) err () []"
proof (rule decodes_silent)
  fix s :: "'d LoadState"
  have "n' + 1 \<le> MAX_SIZET div 1" if "unat n' \<le> 2 ^ 63" for n'
    using that unat_of_nat_64 [of "unat n' + 1"]
    by (simp add: unat_MAX_SIZET word_le_nat_alt add.commute)
  from this [of n] this [of LUA_MINBUFFER] assms
  show "\<exists>s'. openspace mem n s = Inr ((), s') \<and> lz s' = lz s"
    by (auto simp: openspace_def luaZ_openspace_def luaM_reallocv_def luaM_realloc_def Let_def LUA_MINBUFFER_def ample_def)
qed

lemma decodes_string:
  assumes "ample mem" "string_ok s"
  shows "decodes (LoadString rd mem nm) (eof_err nm) s (bString s)"
proof (cases s)
  case None
  then show ?thesis
    unfolding LoadString_def
    by (simp del: image_mem_u64) (rule decodes_bind_ret [OF decodes_block], simp_all add: decodes_ret)
next
  case (Some t)
  then have l: "length t < 2 ^ 63" using assms(2) by simp
  let ?n = "of_nat (length t) + 1 :: u64"
  have u: "unat ?n = length t + 1" "?n \<noteq> 0"
    using l unat_of_nat_64 [of "length t + 1"] by (auto simp: add.commute)
  have k: "unat (?n - 1) = length t" using l unat_of_nat_64 [of "length t"] by simp
  have "decodes (LoadBlock rd nm ?n) (eof_err nm) (t @ [CHR 0x00]) (t @ [CHR 0x00])"
    by (rule decodes_block) (simp add: u)
  then have "decodes (bindL (LoadBlock rd nm ?n) (\<lambda>s. retL (Some (take (unat (?n - 1)) s))))
      (eof_err nm) (Some t) (t @ [CHR 0x00])"
    by (rule decodes_bind_ret) (simp only: k, simp add: decodes_ret)
  moreover have "decodes (openspace mem ?n) (eof_err nm) () []"
    by (rule decodes_openspace) (use assms(1) l u in auto)
  ultimately have o: "decodes (bindL (openspace mem ?n) (\<lambda>_. bindL (LoadBlock rd nm ?n) (\<lambda>s. retL (Some (take (unat (?n - 1)) s)))))
      (eof_err nm) (Some t) (t @ [CHR 0x00])"
    by - (rule decodes_silent_bind, assumption, simp)
  show ?thesis
    unfolding LoadString_def Some bString.simps
    by (rule decodes_bind [OF decodes_block]) (use o u in \<open>simp_all add: Let_def\<close>)
qed

lemma decodes_name:
  assumes "ample mem" "name_ok s"
  shows "decodes (LoadName rd mem nm) (eof_err nm) s (bString s)"
  unfolding LoadName_def
  by (rule decodes_bind_ret [OF decodes_string])
    (use assms in \<open>auto simp: name_ok_def decodes_ret split: option.split\<close>)

lemma decodes_const:
  assumes "ample mem" "const_ok c"
  shows "decodes (LoadConst rd mem nm) (eof_err nm) c (bConst c)"
proof -
  have sc: "schar (chr_of 0) = 0" "schar (chr_of 1) = 1" "schar (chr_of 3) = 3" "schar (chr_of 4) = 4"
    by (simp_all add: schar_def uchar_chr_of)
  define F :: "int \<Rightarrow> ('d, Const) loader" where "F = (\<lambda>t.
       if t = 0 then retL KNil
       else if t = 1 then bindL (LoadChar rd nm) (\<lambda>b. retL (KBoolean (if b \<noteq> 0 then 1 else 0)))
       else if t = 3 then bindL (LoadNumber rd nm) (\<lambda>n. retL (KNumber n))
       else if t = 4 then
         bindL (LoadString rd mem nm) (\<lambda>s.
           case s of None \<Rightarrow> (\<lambda>_. Inl (UB ''addobjref(NULL)'')) | Some _ \<Rightarrow> retL (KString s))
       else load_error nm ''bad constant'')"
  have L: "LoadConst rd mem nm = bindL (LoadChar rd nm) F" by (simp add: LoadConst_def F_def)
  have B: "decodes (LoadConst rd mem nm) (eof_err nm) c (chr_of k # bs)"
    if "decodes (F (schar (chr_of k))) (eof_err nm) c bs" for k bs
    using decodes_bind [of "LoadChar rd nm" _ _ "[chr_of k]" F, OF decodes_char that] by (simp add: L)
  show ?thesis
  proof (cases c)
    case KNil
    then show ?thesis using B [of 0 "[]"] by (simp add: sc F_def decodes_ret)
  next
    case (KBoolean b)
    have "decodes (bindL (LoadChar rd nm) (\<lambda>b. retL (KBoolean (if b \<noteq> 0 then 1 else 0)))) (eof_err nm) c [chr_of b]"
      by (rule decodes_bind_ret [OF decodes_char]) (use assms(2) KBoolean sc in \<open>auto simp: decodes_ret\<close>)
    then show ?thesis using B [of 1 "[chr_of b]"] KBoolean by (simp add: sc F_def)
  next
    case (KNumber n)
    have "decodes (bindL (LoadNumber rd nm) (\<lambda>n. retL (KNumber n))) (eof_err nm) c (mem_u64 n)"
      by (rule decodes_bind_ret [OF decodes_number]) (simp add: KNumber decodes_ret)
    then show ?thesis using B [of 3 "mem_u64 n"] KNumber by (simp add: sc F_def)
  next
    case (KString s)
    have "decodes (bindL (LoadString rd mem nm) (\<lambda>s.
           case s of None \<Rightarrow> (\<lambda>_. Inl (UB ''addobjref(NULL)'')) | Some _ \<Rightarrow> retL (KString s))) (eof_err nm) c (bString s)"
      by (rule decodes_bind_ret [OF decodes_string])
        (use assms KString in \<open>auto simp: decodes_ret split: option.split\<close>)
    then show ?thesis using B [of 4 "bString s"] KString by (simp add: sc F_def)
  qed
qed

lemma decodes_times:
  "(\<And>x. x \<in> set xs \<Longrightarrow> decodes m e x (b x)) \<Longrightarrow> decodes (LoadTimes (length xs) m) e xs (concat (map b xs))"
proof (induction xs)
  case Nil
  then show ?case by (simp add: decodes_ret)
next
  case (Cons x xs)
  then have "decodes (bindL (LoadTimes (length xs) m) (\<lambda>ys. retL (x # ys))) e (x # xs) (concat (map b xs))"
    by (intro decodes_bind_ret [where x = xs]) (simp_all add: decodes_ret)
  then show ?case
    using decodes_bind [of m e x "b x"] Cons.prems by simp
qed

lemma decodes_locvar:
  assumes "ample mem" "locvar_ok v"
  shows "decodes (LoadLocVar rd mem nm) (eof_err nm) v (bLocVar v)"
proof -
  have v: "\<lparr>varname = varname v, startpc = startpc v, endpc = endpc v\<rparr> = v" by simp
  have "decodes (bindL (LoadInt rd nm) (\<lambda>e. retL \<lparr>varname = varname v, startpc = startpc v, endpc = e\<rparr>))
      (eof_err nm) v (mem_int (endpc v))"
    by (rule decodes_bind_ret [OF decodes_int]) (use assms(2) in \<open>simp_all only: locvar_ok_def v decodes_ret\<close>)
  then have "decodes (bindL (LoadInt rd nm) (\<lambda>s. bindL (LoadInt rd nm) (\<lambda>e.
       retL \<lparr>varname = varname v, startpc = s, endpc = e\<rparr>))) (eof_err nm) v (mem_int (startpc v) @ mem_int (endpc v))"
    by (intro decodes_bind [OF decodes_int]) (use assms(2) in \<open>simp_all add: locvar_ok_def\<close>)
  then show ?thesis
    unfolding LoadLocVar_def bLocVar_def
    by (intro decodes_bind [OF decodes_name]) (use assms in \<open>simp_all add: locvar_ok_def\<close>)
qed

lemma decodes_vector:
  assumes "length_ok xs" "\<And>x. x \<in> set xs \<Longrightarrow> length (b x) = e" "e \<le> 2 ^ 31"
  shows "decodes (LoadVector rd nm (int (length xs)) e) (eof_err nm) (map b xs) (concat (map b xs))"
proof -
  have "length xs * e \<le> 2 ^ 31 * 2 ^ 31"
    by (intro mult_mono) (use assms(1,3) in \<open>auto simp: length_ok_def INT_MAX_def\<close>)
  then have "unat (of_nat (length xs * e) :: u64) = length xs * e"
    by (intro unat_of_nat_64) (simp add: le_less_trans)
  then show ?thesis
    unfolding LoadVector_def
    by (intro decodes_bind_ret [OF decodes_block])
      (simp_all add: length_concat_const assms(2) chunks_concat decodes_ret)
qed

lemma decodes_sized:
  assumes "ample mem" "length_ok xs" "0 < e" "e \<le> 2 ^ 31"
    and "decodes (g (int (length xs))) (eof_err nm) y bs"
  shows "decodes (bindL (LoadInt rd nm) (\<lambda>n. bindL (newvector mem n e) (\<lambda>_. g n))) (eof_err nm) y
    (mem_int (int (length xs)) @ bs)"
  by (intro decodes_bind [OF decodes_int] decodes_silent_bind [OF decodes_newvector] int_ok_length assms)

lemma decodes_code:
  assumes "ample mem" "length_ok code"
  shows "decodes (LoadCode rd mem nm) (eof_err nm) code (bList mem_u32 code)"
proof -
  have "map (\<lambda>b. of_nat (le_value b)) (map mem_u32 code) = code" by (simp add: map_idI)
  then have "decodes (bindL (LoadVector rd nm (int (length code)) 4) (\<lambda>bs. retL (map (\<lambda>b. of_nat (le_value b)) bs)))
      (eof_err nm) code (concat (map mem_u32 code))"
    by (intro decodes_bind_ret [OF decodes_vector]) (use assms in \<open>simp_all add: decodes_ret\<close>)
  from decodes_sized [where g = "\<lambda>n. bindL (LoadVector rd nm n 4) (\<lambda>bs. retL (map (\<lambda>b. of_nat (le_value b)) bs))",
      OF assms _ _ this, where e = 4]
  show ?thesis unfolding LoadCode_def bList_def by simp
qed

lemma decodes_consts:
  assumes "ample mem" "length_ok k" "\<And>c. c \<in> set k \<Longrightarrow> const_ok c"
  shows "decodes (LoadConsts rd mem nm) (eof_err nm) k (bList bConst k)"
proof -
  have "decodes (LoadTimes (length k) (LoadConst rd mem nm)) (eof_err nm) k (concat (map bConst k))"
    by (intro decodes_times decodes_const assms)
  then have "decodes (LoadTimes (nat (int (length k))) (LoadConst rd mem nm)) (eof_err nm) k (concat (map bConst k))"
    by simp
  from decodes_sized [where g = "\<lambda>n. LoadTimes (nat n) (LoadConst rd mem nm)", OF assms(1,2) _ _ this, where e = 16]
  show ?thesis unfolding LoadConsts_def bList_def by simp
qed

lemma decodes_debug:
  assumes mem: "ample mem" and li: "lines_ok li"
    and lv: "length_ok lv" "\<And>v. v \<in> set lv \<Longrightarrow> locvar_ok v"
    and up: "length_ok up" "\<And>s. s \<in> set up \<Longrightarrow> name_ok s"
  shows "decodes (LoadDebug rd mem nm) (eof_err nm) (li, lv, up) (bDebug li lv up)"
proof -
  define G3 :: "string list \<Rightarrow> LocVar list \<Rightarrow> int \<Rightarrow> ('d, int list \<times> LocVar list \<times> string option list) loader"
    where "G3 li lv n = bindL (LoadTimes (nat n) (LoadName rd mem nm)) (\<lambda>up. retL (map image_int li, lv, up))" for li lv n
  define G2 :: "string list \<Rightarrow> int \<Rightarrow> ('d, int list \<times> LocVar list \<times> string option list) loader"
    where "G2 li n = bindL (LoadTimes (nat n) (LoadLocVar rd mem nm)) (\<lambda>lv.
       bindL (LoadInt rd nm) (\<lambda>n. bindL (newvector mem n 8) (\<lambda>_. G3 li lv n)))" for li n
  define G1 :: "int \<Rightarrow> ('d, int list \<times> LocVar list \<times> string option list) loader"
    where "G1 n = bindL (LoadVector rd nm n 4) (\<lambda>li.
       bindL (LoadInt rd nm) (\<lambda>n. bindL (newvector mem n 16) (\<lambda>_. G2 li n)))" for n
  have D: "LoadDebug rd mem nm = bindL (LoadInt rd nm) (\<lambda>n. bindL (newvector mem n 4) (\<lambda>_. G1 n))"
    by (simp add: LoadDebug_def G1_def G2_def G3_def)
  have img: "map image_int (map mem_int li) = li"
    using li by (auto simp: lines_ok_def image_mem_int intro!: map_idI)
  have g3: "decodes (G3 (map mem_int li) lv (int (length up))) (eof_err nm) (li, lv, up) (concat (map bString up))"
    unfolding G3_def nat_int
    by (rule decodes_bind_ret [OF decodes_times]) (use mem up img in \<open>auto intro: decodes_name simp: decodes_ret\<close>)
  have g2: "decodes (G2 (map mem_int li) (int (length lv))) (eof_err nm) (li, lv, up)
      (concat (map bLocVar lv) @ bList bString up)"
    unfolding G2_def nat_int bList_def
    by (rule decodes_bind [OF decodes_times decodes_sized]) (use mem lv up g3 in \<open>auto intro: decodes_locvar\<close>)
  have g1: "decodes (G1 (int (length li))) (eof_err nm) (li, lv, up)
      (concat (map mem_int li) @ bList bLocVar lv @ bList bString up)"
    unfolding G1_def bList_def [of bLocVar] append.assoc
    by (rule decodes_bind [OF decodes_vector decodes_sized]) (use mem li lv g2 in \<open>auto simp: lines_ok_def\<close>)
  show ?thesis
    unfolding D bDebug_def bList_def [of mem_int] append.assoc
    by (rule decodes_sized) (use mem li g1 in \<open>auto simp: lines_ok_def\<close>)
qed

end

section \<open>What comes back\<close>

text \<open>
  The prototype a dump is loaded as: stripping drops the debug information; a source name
  that is not written (stripped, NULL, or the same as the parent's) is the loading parent's.
\<close>

fun reload :: "bool \<Rightarrow> Proto \<Rightarrow> string option \<Rightarrow> string option \<Rightarrow> Proto"
  and reloads :: "bool \<Rightarrow> Proto list \<Rightarrow> string option \<Rightarrow> string option \<Rightarrow> Proto list"
where
  "reload strip
     (Proto k code ps li lv up source linedefined lastlinedefined nups numparams is_vararg maxstacksize) p lp =
     (let src = (if source = p \<or> strip \<or> source = None then lp else source)
      in Proto k code (reloads strip ps source src) (if strip then [] else li) (if strip then [] else lv)
           (if strip then [] else up) src linedefined lastlinedefined nups numparams is_vararg maxstacksize)"
| "reloads strip [] p lp = []"
| "reloads strip (f # fs) p lp = reload strip f p lp # reloads strip fs p lp"

lemma reloads_map: "reloads strip fs p lp = map (\<lambda>f. reload strip f p lp) fs"
  by (induction fs) simp_all

lemma reload_pnups [simp]: "pnups (reload strip f p lp) = pnups f"
  by (cases f) (simp add: Let_def)

definition same_body :: "Proto \<Rightarrow> Proto \<Rightarrow> bool" where
  "same_body f g = (pcode f = pcode g \<and> pk f = pk g \<and> map pnups (pp f) = map pnups (pp g) \<and> pnups f = pnups g \<and>
     pnumparams f = pnumparams g \<and> pis_vararg f = pis_vararg g \<and> pmaxstacksize f = pmaxstacksize g)"

lemma same_sizep: "same_body f g \<Longrightarrow> sizep f = sizep g"
  unfolding same_body_def sizep_def by (metis length_map)

lemma same_basic:
  assumes "same_body f g"
  shows "code_at f = code_at g" "k_at f = k_at g" "sizecode f = sizecode g" "sizek f = sizek g"
  "checkreg f = checkreg g" "checkArgMode f = checkArgMode g" "pnups f = pnups g" "pis_vararg f = pis_vararg g"
  using assms
  by (auto simp: same_body_def code_at_def k_at_def sizecode_def sizek_def checkreg_def
      checkArgMode_def fun_eq_iff split: OpArgMask.split)

lemma same_p_at:
  assumes "same_body f g"
  shows "bindE (p_at f b) (\<lambda>q. h (pnups q)) = bindE (p_at g b) (\<lambda>q. h (pnups q))"
proof -
  have "map pnups (pp f) ! nat b = map pnups (pp g) ! nat b"
    using assms by (simp add: same_body_def)
  then have "pnups (pp f ! nat b) = pnups (pp g ! nat b)" if "0 \<le> b" "b < sizep g"
    using that same_sizep [OF assms] by (simp add: sizep_def nat_less_iff)
  then show ?thesis using same_sizep [OF assms] by (auto simp: p_at_def)
qed

lemma same_setlist_run:
  assumes "same_body f g"
  shows "setlist_run f d j = setlist_run g d j"
proof (induction "nat (d - j)" arbitrary: j rule: less_induct)
  case less
  show ?case
    unfolding setlist_run.simps [of f d j] setlist_run.simps [of g d j] same_basic(1) [OF assms]
    using less [of "j + 1"] by (auto intro!: bindE_cong)
qed

lemma same_checkupvals:
  assumes "same_body f g"
  shows "checkupvals f pc j n = checkupvals g pc j n"
  using same_basic(1) [OF assms] by (induction n arbitrary: j) (auto intro!: bindE_cong)

lemma same_operands:
  assumes "same_body f g"
  shows "symb_operands f pc i = symb_operands g pc i"
  unfolding symb_operands_def same_basic [OF assms] same_setlist_run [OF assms] ..

lemma same_closure:
  assumes "same_body f g"
  shows "symb_closure f reg pc lst b = symb_closure g reg pc lst b"
  unfolding symb_closure_def same_basic [OF assms] same_sizep [OF assms] same_checkupvals [OF assms] Let_def
  by (subst same_p_at [OF assms]) simp

lemma same_switch:
  assumes "same_body f g"
  shows "symb_switch f lastpc reg pc lst x a b c = symb_switch g lastpc reg pc lst x a b c"
  unfolding symb_switch_def symb_call_def symb_setlist_def symb_vararg_def same_basic [OF assms] same_closure [OF assms] ..

lemma same_step:
  assumes "same_body f g"
  shows "symb_step f lastpc reg pc lst = symb_step g lastpc reg pc lst"
  unfolding symb_step_def same_basic [OF assms] same_operands [OF assms] same_switch [OF assms] ..

lemma same_loop:
  assumes "same_body f g"
  shows "symb_loop f lastpc reg pc lst = symb_loop g lastpc reg pc lst"
proof (induction "nat (lastpc - pc)" arbitrary: pc lst rule: less_induct)
  case less
  show ?case
    unfolding symb_loop.simps [of f lastpc reg pc lst] symb_loop.simps [of g lastpc reg pc lst] same_step [OF assms]
    using less by (auto dest: symb_step_pc split: sum.split option.split)
qed

text \<open>Dropping or replacing debug information does not change the verdict of the checker.\<close>

lemma checkcode_same_body:
  assumes "same_body f g" "luaG_checkcode f = Inr True"
    and "plineinfo g = plineinfo f \<or> plineinfo g = []" "length (pupvalues g) \<le> length (pupvalues f)"
  shows "luaG_checkcode g = Inr True"
proof -
  have "precheck f = Inr True \<Longrightarrow> precheck g = Inr True"
    using assms(1,3,4) unfolding precheck_def same_basic [OF assms(1)]
    by (auto simp: same_body_def split: if_splits)
  then show ?thesis
    using assms(2) same_basic [OF assms(1)] same_loop [OF assms(1)]
    by (auto simp: luaG_checkcode_def symbexec_def res_simps split: if_splits)
qed

lemma reload_same_body: "same_body f (reload strip f p lp)"
  by (cases f) (simp add: same_body_def Let_def reloads_map)

lemma checkcode_reload: "luaG_checkcode f = Inr True \<Longrightarrow> luaG_checkcode (reload strip f p lp) = Inr True"
  by (erule checkcode_same_body [OF reload_same_body]) (cases f; simp add: Let_def)+

text \<open>
  What a compiled prototype satisfies: nesting depth at most \<open>n\<close>, sizes and line numbers in
  range, no NULL names, and code the checker accepts.
\<close>

fun dumpable :: "nat \<Rightarrow> Proto \<Rightarrow> bool" where
  "dumpable n (Proto k code ps li lv up source linedefined lastlinedefined nups numparams is_vararg maxstacksize) =
     (0 < n \<and> string_ok source \<and> int_ok linedefined \<and> int_ok lastlinedefined \<and> length_ok code \<and>
      length_ok k \<and> (\<forall>c \<in> set k. const_ok c) \<and> length_ok ps \<and> (\<forall>f \<in> set ps. dumpable (n - 1) f) \<and>
      lines_ok li \<and> length_ok lv \<and> (\<forall>v \<in> set lv. locvar_ok v) \<and> length_ok up \<and> (\<forall>s \<in> set up. name_ok s) \<and>
      luaG_checkcode (Proto k code ps li lv up source linedefined lastlinedefined nups numparams is_vararg
        maxstacksize) = Inr True)"

lemma LoadFunction_binds:
  "\<not> nc + 1 > LUAI_MAXCCALLS \<Longrightarrow> LoadFunction rd mem nm nc lp = bindL (LoadSource rd mem nm lp) (\<lambda>source.
        bindL (LoadInt rd nm) (\<lambda>linedefined.
        bindL (LoadInt rd nm) (\<lambda>lastlinedefined.
        bindL (LoadByte rd nm) (\<lambda>nups.
        bindL (LoadByte rd nm) (\<lambda>numparams.
        bindL (LoadByte rd nm) (\<lambda>is_vararg.
        bindL (LoadByte rd nm) (\<lambda>maxstacksize.
        bindL (LoadCode rd mem nm) (\<lambda>code.
        bindL (LoadConsts rd mem nm) (\<lambda>k.
        bindL (LoadInt rd nm) (\<lambda>n.
        bindL (newvector mem n 8) (\<lambda>_.
        bindL (\<lambda>st. LoadFunctions rd mem nm (nc + 1) source (nat n) st) (\<lambda>ps.
        bindL (LoadDebug rd mem nm) (\<lambda>(li, lv, up).
          checked nm (Proto k code ps li lv up source linedefined lastlinedefined nups numparams
            is_vararg maxstacksize))))))))))))))"
  by (rule ext, subst LoadFunction.simps) simp

context byte_reader
begin

lemma decodes_source:
  assumes "ample mem" "string_ok source" "lp \<noteq> None"
  shows "decodes (LoadSource rd mem nm lp) (eof_err nm)
    (if source = p \<or> strip \<or> source = None then lp else source)
    (bString (if source = p \<or> strip then None else source))"
  unfolding LoadSource_def
  by (rule decodes_bind_ret [OF decodes_string])
    (use assms in \<open>auto simp: decodes_ret split: option.split\<close>)

lemma decodes_checked: "luaG_checkcode f = Inr True \<Longrightarrow> decodes (checked nm f) e f []"
  by (rule decodes_silent) (simp add: checked_def)

lemma decodes_function:
  assumes mem: "ample mem"
  shows "dumpable n f \<Longrightarrow> nc + n \<le> LUAI_MAXCCALLS \<Longrightarrow> lp \<noteq> None \<Longrightarrow>
     decodes (LoadFunction rd mem nm nc lp) (eof_err nm) (reload strip f p lp) (bFunction strip f p)"
    and "\<forall>f \<in> set fs. dumpable n f \<Longrightarrow> nc + n \<le> LUAI_MAXCCALLS \<Longrightarrow> lp \<noteq> None \<Longrightarrow>
     decodes (LoadFunctions rd mem nm nc lp (length fs)) (eof_err nm) (reloads strip fs p lp) (bFunctions strip fs p)"
proof (induction strip f p lp and strip fs p lp arbitrary: n nc and n nc rule: reload_reloads.induct)
  case (1 strip k code ps li lv up source linedefined lastlinedefined nups numparams is_vararg maxstacksize p lp)
  let ?f = "Proto k code ps li lv up source linedefined lastlinedefined nups numparams is_vararg maxstacksize"
  define src where "src = (if source = p \<or> strip \<or> source = None then lp else source)"
  have src: "src \<noteq> None" using 1(4) by (simp add: src_def)
  note d = 1(2)
  have nc: "\<not> nc + 1 > LUAI_MAXCCALLS" using d 1(3) by simp
  have ps: "decodes (LoadFunctions rd mem nm (nc + 1) src (length ps)) (eof_err nm)
      (reloads strip ps source src) (bFunctions strip ps source)"
  proof -
    have c: "\<forall>a\<in>set ps. dumpable (n - 1) a" "nc + 1 + (n - 1) \<le> LUAI_MAXCCALLS" using d 1(3) by auto
    show ?thesis by (rule 1(1) [OF src_def c src])
  qed
  have ck: "luaG_checkcode (reload strip ?f p lp) = Inr True"
    by (rule checkcode_reload) (use d in simp)
  define G :: "Const list \<Rightarrow> int \<Rightarrow> ('d, Proto) loader" where
    "G k n = bindL (\<lambda>st. LoadFunctions rd mem nm (nc + 1) src (nat n) st) (\<lambda>ps.
        bindL (LoadDebug rd mem nm) (\<lambda>(li, lv, up).
          checked nm (Proto k code ps li lv up src linedefined lastlinedefined nups numparams
            is_vararg maxstacksize)))" for k n
  have G: "decodes (G k (int (length ps))) (eof_err nm) (reload strip ?f p lp)
      (bFunctions strip ps source @ (if strip then bDebug [] [] [] else bDebug li lv up))"
  proof -
    have "decodes (bindL (LoadDebug rd mem nm) (\<lambda>(li, lv, up).
          checked nm (Proto k code (reloads strip ps source src) li lv up src linedefined lastlinedefined nups numparams
            is_vararg maxstacksize))) (eof_err nm) (reload strip ?f p lp) (if strip then bDebug [] [] [] else bDebug li lv up)"
    proof (cases strip)
      case True
      then show ?thesis
        by (simp del: reload.simps, intro decodes_bind_ret [OF decodes_debug])
          (use d mem ck in \<open>auto simp: Let_def src_def lines_ok_def length_ok_def INT_MAX_def intro!: decodes_checked\<close>)
    next
      case False
      then show ?thesis
        by (simp del: reload.simps, intro decodes_bind_ret [OF decodes_debug])
          (use d mem ck in \<open>auto simp: Let_def src_def intro!: decodes_checked\<close>)
    qed
    then show ?thesis
      unfolding G_def nat_int by - (rule decodes_bind, rule ps, assumption)
  qed
  note L = LoadFunction_binds [OF nc]
  have S: "decodes (bindL (LoadInt rd nm) (\<lambda>n. bindL (newvector mem n 8) (\<lambda>_. G k n))) (eof_err nm)
      (reload strip ?f p lp) (mem_int (int (length ps)) @ bFunctions strip ps source @
        (if strip then bDebug [] [] [] else bDebug li lv up))"
    by (rule decodes_sized) (use mem d G in auto)
  show ?case
    unfolding L bFunction.simps
    apply (rule decodes_bind [OF decodes_source])
       apply (use mem d 1(4) in auto)[3]
    apply (rule decodes_bind [OF decodes_int], use d in simp)+
    apply (rule decodes_bind [OF decodes_byte])+
    apply (rule decodes_bind [OF decodes_code [OF mem]], use d in simp)
    apply (rule decodes_bind [OF decodes_consts [OF mem]], use d in simp, use d in simp)
    using S unfolding G_def src_def append.assoc
    by simp
next
  case (2 strip p lp)
  show ?case by (auto simp: LoadFunctions.simps [abs_def] retL_def [symmetric] decodes_ret)
next
  case (3 strip f fs p lp)
  have "LoadFunctions rd mem nm nc lp (Suc (length fs)) =
      bindL (LoadFunction rd mem nm nc lp) (\<lambda>f. bindL (LoadFunctions rd mem nm nc lp (length fs)) (\<lambda>fs. retL (f # fs)))"
    by (rule ext, subst LoadFunctions.simps) simp
  moreover have "decodes (bindL (LoadFunctions rd mem nm nc lp (length fs)) (\<lambda>fs. retL (reload strip f p lp # fs)))
      (eof_err nm) (reload strip f p lp # reloads strip fs p lp) (bFunctions strip fs p)"
    by (rule decodes_bind_ret [OF 3(2)]) (use 3(3-) in \<open>auto simp: decodes_ret\<close>)
  moreover have "decodes (LoadFunction rd mem nm nc lp) (eof_err nm) (reload strip f p lp) (bFunction strip f p)"
    by (rule 3(1)) (use 3(3-) in auto)
  ultimately show ?case
    by (simp del: reload.simps) (rule decodes_bind, assumption, assumption)
qed

lemma decodes_header: "decodes (LoadHeader rd nm) (eof_err nm) () luaU_header"
  unfolding LoadHeader_def
  by (rule decodes_bind_ret [OF decodes_block])
    (simp_all add: decodes_ret LUAC_HEADERSIZE_def luaU_header_def LUA_SIGNATURE_def)

lemma decodes_undump:
  assumes "ample mem" "dumpable n f" "nc + n \<le> LUAI_MAXCCALLS"
  shows "decodes (luaU_undump rd mem name nc) (eof_err (chunk_display_name name))
    (reload strip f None (Some ''=?'')) (bChunk strip f)"
  unfolding luaU_undump_def bChunk_def Let_def
  by (rule decodes_bind [OF decodes_header]) (rule decodes_function(1) [OF assms], simp)

lemma undump_whole:
  assumes "ample mem" "dumpable n f" "nc + n \<le> LUAI_MAXCCALLS" "ready d" "stream d = bChunk strip f @ t"
  shows "\<exists>s'. luaU_undump rd mem name nc \<lparr>lz = luaZ_init d, lbuff = buff, lmem = g\<rparr> =
    Inr (reload strip f None (Some ''=?''), s') \<and> contents (lz s') = t"
  using decodesD(1) [OF decodes_undump [OF assms(1-3), where strip = strip and name = name], where s = "\<lparr>lz = luaZ_init d, lbuff = buff, lmem = g\<rparr>" and t = t]
    init_ok [OF assms(4)] assms(5) by auto

lemma undump_prefix:
  assumes "ample mem" "dumpable n f" "nc + n \<le> LUAI_MAXCCALLS" "ready d" "bChunk strip f = stream d @ u" "u \<noteq> []"
  shows "luaU_undump rd mem name nc \<lparr>lz = luaZ_init d, lbuff = buff, lmem = g\<rparr> = Inl (eof_err (chunk_display_name name))"
  using decodesD(2) [OF decodes_undump [OF assms(1-3), where strip = strip and name = name], where s = "\<lparr>lz = luaZ_init d, lbuff = buff, lmem = g\<rparr>" and u = u]
    init_ok [OF assms(4)] assms(5,6) by auto

end

section \<open>Dump and load\<close>

text \<open>Every function of a prototype knows its source, as after compilation.\<close>

fun has_source :: "Proto \<Rightarrow> bool" where
  "has_source (Proto k code ps li lv up source linedefined lastlinedefined nups numparams is_vararg maxstacksize) =
     (source \<noteq> None \<and> (\<forall>f \<in> set ps. has_source f))"

lemma reload_id:
  "has_source f \<Longrightarrow> p = lp \<or> psource f \<noteq> p \<Longrightarrow> reload False f p lp = f"
  "\<forall>f \<in> set fs. has_source f \<Longrightarrow> p = lp \<Longrightarrow> reloads False fs p lp = fs"
proof (induction False f p lp and False fs p lp rule: reload_reloads.induct)
  case (1 k code ps li lv up source linedefined lastlinedefined nups numparams is_vararg maxstacksize p lp)
  then have "(if source = p \<or> False \<or> source = None then lp else source) = source" by auto
  with 1 show ?case by (simp add: Let_def)
qed auto

lemma reload_has_source: "has_source f \<Longrightarrow> reload False f None lp = f"
  by (rule reload_id(1)) (cases f; simp)+

definition load_state :: "'d \<Rightarrow> u64 \<Rightarrow> mem_state \<Rightarrow> 'd LoadState" where
  "load_state d buff g = \<lparr>lz = luaZ_init d, lbuff = buff, lmem = g\<rparr>"

lemma ample_True: "ample (\<lambda>_. True)"
  by (simp add: ample_def)

lemma example_dumpable: "dumpable 1 example_proto" "has_source example_proto"
  using example_accepted
  by (simp_all add: example_proto_def int_ok_def length_ok_def lines_ok_def INT_MAX_def)

lemma example_chunk_length: "length (bChunk strip example_proto) < 2 ^ 64"
  by (simp add: bChunk_def example_proto_def bDebug_def bList_def luaU_header_def LUA_SIGNATURE_def)

text \<open>
  C8. Dumping a prototype (\<open>string.dump\<close>) and loading the bytes gives the prototype back,
  whether they are loaded from memory (\<open>luaL_loadbuffer\<close>) or read from a file block by
  block (\<open>luaL_loadfile\<close>), for prototypes as the compiler makes them.
\<close>

theorem undump_dump_roundtrip:
  assumes "ample mem" "dumpable n f" "nCcalls + n \<le> LUAI_MAXCCALLS" "has_source f"
    and "length (bChunk False f) < 2 ^ 64"
  shows "\<exists>bytes s1 s2. luaU_dump str_writer f [] False = (0, bytes) \<and>
    luaU_undump getS mem name nCcalls (load_state (luaL_loadbuffer_data bytes) buff g) = Inr (f, s1) \<and>
    luaU_undump getF mem name nCcalls
      (load_state \<lparr>extraline = False, lf_rest = bytes, lf_eof = False\<rparr> buff g) = Inr (f, s2)"
proof -
  from strw.dump_total [of f "[]" False] have d: "luaU_dump str_writer f [] False = (0, bChunk False f)" by auto
  have n: "unat (of_nat (length (bChunk False f)) :: u64) = length (bChunk False f)"
    using assms(5) by (rule unat_of_nat_64)
  from getS.undump_whole [OF assms(1-3), where d = "luaL_loadbuffer_data (bChunk False f)" and strip = False and t = "[]" and name = name and buff = buff and g = g]
    getF.undump_whole [OF assms(1-3), where d = "\<lparr>extraline = False, lf_rest = bChunk False f, lf_eof = False\<rparr>" and strip = False and t = "[]" and name = name and buff = buff and g = g]
  show ?thesis
    using d n by (auto simp: luaL_loadbuffer_data_def load_state_def reload_has_source [OF assms(4)])
qed

theorem undump_dump_roundtrip_witness:
  "\<exists>bytes s1. luaU_dump str_writer example_proto [] False = (0, bytes) \<and>
    luaU_undump getS (\<lambda>_. True) ''=x'' 199 (load_state (luaL_loadbuffer_data bytes) 0
      \<lparr>totalbytes = 0, allocbytes = 0, freebytes = 0\<rparr>) = Inr (example_proto, s1)"
  using undump_dump_roundtrip [OF ample_True example_dumpable(1) _ example_dumpable(2) example_chunk_length,
      of 199 "''=x''" 0 "\<lparr>totalbytes = 0, allocbytes = 0, freebytes = 0\<rparr>"]
  by (auto simp: LUAI_MAXCCALLS_def)

lemma example_loads:
  "\<exists>bytes s1. luaU_undump getS (\<lambda>_. True) ''=x'' 199 (load_state (luaL_loadbuffer_data bytes) 0
      \<lparr>totalbytes = 0, allocbytes = 0, freebytes = 0\<rparr>) = Inr (example_proto, s1)"
proof -
  let ?bytes = "bChunk False example_proto"
  have "unat (of_nat (length ?bytes) :: u64) = length ?bytes"
    using example_chunk_length by (rule unat_of_nat_64)
  then show ?thesis
    using getS.undump_whole [OF ample_True example_dumpable(1), where nc = 199 and d = "luaL_loadbuffer_data ?bytes"
        and strip = False and t = "[]" and name = "''=x''" and buff = 0
        and g = "\<lparr>totalbytes = 0, allocbytes = 0, freebytes = 0\<rparr>"]
    by (auto simp: LUAI_MAXCCALLS_def luaL_loadbuffer_data_def load_state_def
        reload_has_source [OF example_dumpable(2)])
qed

fun stripped :: "Proto \<Rightarrow> bool" where
  "stripped (Proto k code ps li lv up source linedefined lastlinedefined nups numparams is_vararg maxstacksize) =
     (li = [] \<and> lv = [] \<and> up = [] \<and> source = Some ''=?'' \<and> (\<forall>f \<in> set ps. stripped f))"

lemma stripped_reload:
  "lp = Some ''=?'' \<Longrightarrow> stripped (reload True f p lp)"
  "lp = Some ''=?'' \<Longrightarrow> \<forall>g \<in> set (reloads True fs p lp). stripped g"
  by (induction True f p lp and True fs p lp rule: reload_reloads.induct) (auto simp: Let_def)

text \<open>
  A stripped dump loads as the same code without debug information: line numbers, local
  and upvalue names are gone and every source is \<open>=?\<close>, at every nesting level.
\<close>

theorem undump_stripped:
  assumes "ample mem" "dumpable n f" "nCcalls + n \<le> LUAI_MAXCCALLS" "length (bChunk True f) < 2 ^ 64"
  shows "\<exists>bytes f' s1. luaU_dump str_writer f [] True = (0, bytes) \<and>
    luaU_undump getS mem name nCcalls (load_state (luaL_loadbuffer_data bytes) buff g) = Inr (f', s1) \<and>
    stripped f' \<and> same_body f f' \<and> length (pp f') = length (pp f)"
proof -
  let ?f = "reload True f None (Some ''=?'')"
  from strw.dump_total [of f "[]" True] have d: "luaU_dump str_writer f [] True = (0, bChunk True f)" by auto
  have n: "unat (of_nat (length (bChunk True f)) :: u64) = length (bChunk True f)"
    using assms(4) by (rule unat_of_nat_64)
  have "\<exists>s. luaU_undump getS mem name nCcalls (load_state (luaL_loadbuffer_data (bChunk True f)) buff g) = Inr (?f, s)"
    using getS.undump_whole [OF assms(1-3), where d = "luaL_loadbuffer_data (bChunk True f)"
        and strip = True and t = "[]" and name = name and buff = buff and g = g] n
    by (auto simp: luaL_loadbuffer_data_def load_state_def)
  moreover have "length (pp ?f) = length (pp f)" by (cases f) (simp add: Let_def reloads_map)
  ultimately show ?thesis using d stripped_reload(1) reload_same_body by blast
qed

theorem undump_stripped_witness:
  "\<exists>bytes f' s1. luaU_dump str_writer example_proto [] True = (0, bytes) \<and>
    luaU_undump getS (\<lambda>_. True) ''=x'' 0 (load_state (luaL_loadbuffer_data bytes) 0
      \<lparr>totalbytes = 0, allocbytes = 0, freebytes = 0\<rparr>) = Inr (f', s1) \<and> stripped f' \<and> pcode f' = pcode example_proto"
  using undump_stripped [OF ample_True example_dumpable(1) _ example_chunk_length,
      of 0 "''=x''" 0 "\<lparr>totalbytes = 0, allocbytes = 0, freebytes = 0\<rparr>"]
  by (auto simp: LUAI_MAXCCALLS_def same_body_def)

text \<open>
  C10. A truncated chunk is refused: every proper prefix of a dump fails with the message
  "unexpected end in precompiled chunk", after the display name of the chunk.
\<close>

theorem undump_truncated:
  assumes "ample mem" "dumpable n f" "nCcalls + n \<le> LUAI_MAXCCALLS"
    and "bChunk strip f = bytes @ u" "u \<noteq> []" "length bytes < 2 ^ 64"
  shows "luaU_undump getS mem name nCcalls (load_state (luaL_loadbuffer_data bytes) buff g) =
    Inl (LUA_ERRSYNTAX (chunk_display_name name @ '': unexpected end in precompiled chunk''))"
  using getS.undump_prefix [OF assms(1-3), where d = "luaL_loadbuffer_data bytes" and strip = strip and u = u and name = name and buff = buff and g = g]
    assms(4-6) unat_of_nat_64 [OF assms(6)]
  by (simp add: luaL_loadbuffer_data_def load_state_def getS.eof_err_def)


theorem undump_truncated_witness:
  "luaU_undump getS (\<lambda>_. True) ''@f.luac'' 0 (load_state (luaL_loadbuffer_data luaU_header) 0
      \<lparr>totalbytes = 0, allocbytes = 0, freebytes = 0\<rparr>) =
   Inl (LUA_ERRSYNTAX ''f.luac: unexpected end in precompiled chunk'')"
proof -
  have l: "length luaU_header < 2 ^ 64" by (simp add: luaU_header_def LUA_SIGNATURE_def)
  have "length (bFunction True example_proto None) \<noteq> 0" by (simp add: example_proto_def)
  then have "bFunction True example_proto None \<noteq> []" by simp
  from undump_truncated [OF ample_True example_dumpable(1) _ bChunk_def this l,
      of 0 "''@f.luac''" 0 "\<lparr>totalbytes = 0, allocbytes = 0, freebytes = 0\<rparr>"]
  show ?thesis
    by (simp add: LUAI_MAXCCALLS_def chunk_display_name_def)
qed

section \<open>Whatever is loaded has been checked\<close>

fun all_checked :: "Proto \<Rightarrow> bool" where
  "all_checked (Proto k code ps li lv up source linedefined lastlinedefined nups numparams is_vararg maxstacksize) =
     (luaG_checkcode (Proto k code ps li lv up source linedefined lastlinedefined nups numparams is_vararg
        maxstacksize) = Inr True \<and> (\<forall>f \<in> set ps. all_checked f))"

lemma bindL_Inr: "(bindL m f s = Inr r) = (\<exists>x t. m s = Inr (x, t) \<and> f x t = Inr r)"
  by (auto simp: bindL_def res_simps)

lemma load_checked_list:
  assumes "\<And>p st f st'. LoadFunction rd mem nm c p st = Inr (f, st') \<Longrightarrow> all_checked f"
  shows "LoadFunctions rd mem nm c p n st = Inr (fs, st') \<Longrightarrow> \<forall>f \<in> set fs. all_checked f"
proof (induction n arbitrary: st fs st')
  case 0
  then show ?case by (simp add: LoadFunctions.simps)
next
  case (Suc n)
  then show ?case
    using assms by (subst (asm) LoadFunctions.simps) (auto simp: bindL_Inr retL_def)
qed

lemma load_inner:
  assumes "LoadFunction rd mem nm c p st = Inr (f, st')"
  obtains k code ps li lv up source linedefined lastlinedefined nups numparams is_vararg maxstacksize n s1 s2 s3
  where "c < LUAI_MAXCCALLS" "LoadFunctions rd mem nm (c + 1) source n s1 = Inr (ps, s2)"
    "checked nm (Proto k code ps li lv up source linedefined lastlinedefined nups numparams is_vararg maxstacksize) s3 =
       Inr (f, st')"
  using assms
  by (subst (asm) LoadFunction.simps) (auto simp: bindL_Inr load_error_def split: if_splits)

lemma load_checked: "LoadFunction rd mem nm c p st = Inr (f, st') \<Longrightarrow> all_checked f"
proof (induction "LUAI_MAXCCALLS - c" arbitrary: c p st f st' rule: less_induct)
  case less
  from less.prems show ?case
  proof (rule load_inner)
    fix k code ps li lv up source linedefined lastlinedefined nups numparams is_vararg maxstacksize n s1 s2 s3
    assume c: "c < LUAI_MAXCCALLS" and ps: "LoadFunctions rd mem nm (c + 1) source n s1 = Inr (ps, s2)"
      and ck: "checked nm (Proto k code ps li lv up source linedefined lastlinedefined nups numparams is_vararg
        maxstacksize) s3 = Inr (f, st')"
    have "\<forall>f \<in> set ps. all_checked f"
      by (rule load_checked_list [OF _ ps]) (rule less.hyps, use c in auto)
    with ck show ?thesis by (auto simp: checked_def load_error_def split: sum.splits if_splits)
  qed
qed

text \<open>
  C9. Nothing unchecked is ever returned: whatever bytes the reader delivers, a prototype
  that \<open>luaU_undump\<close> returns has been accepted by the bytecode checker, and so has every
  prototype nested in it.
\<close>

theorem undump_result_checked:
  assumes "luaU_undump rd mem name nCcalls st = Inr (f, st')"
  shows "all_checked f"
  using assms by (auto simp: luaU_undump_def bindL_Inr Let_def dest: load_checked)

theorem undump_result_checked_witness: "all_checked example_proto"
proof -
  obtain bytes s1 where "luaU_undump getS (\<lambda>_. True) ''=x'' 199 (load_state (luaL_loadbuffer_data bytes) 0
      \<lparr>totalbytes = 0, allocbytes = 0, freebytes = 0\<rparr>) = Inr (example_proto, s1)"
    using example_loads by blast
  from undump_result_checked [OF this] show ?thesis .
qed

section \<open>A NULL name\<close>

context byte_reader
begin

definition fails :: "('d, 'a) loader \<Rightarrow> lua_err \<Rightarrow> string \<Rightarrow> bool" where
  "fails m e bs = (\<forall>s t. zok (lz s) \<longrightarrow> contents (lz s) = bs @ t \<longrightarrow> m s = Inl e)"

lemma fails_step: "decodes m e' x bs \<Longrightarrow> fails (f x) e cs \<Longrightarrow> fails (bindL m f) e (bs @ cs)"
  unfolding fails_def using decodesD(1) [of m e' x bs] by (metis append.assoc bindL_simps(1))

lemma fails_bind: "fails m e bs \<Longrightarrow> fails (bindL m f) e bs"
  by (simp add: fails_def)

lemma fails_here: "fails m e bs \<Longrightarrow> fails (bindL m f) e (bs @ cs)"
  by (simp add: fails_def)

lemma fails_sized:
  assumes "ample mem" "length_ok xs" "0 < e" "e \<le> 2 ^ 31" "fails (g (int (length xs))) err bs"
  shows "fails (bindL (LoadInt rd nm) (\<lambda>n. bindL (newvector mem n e) (\<lambda>_. g n))) err
    (mem_int (int (length xs)) @ bs)"
  using fails_step [OF decodes_newvector [OF assms(1-4)], where f = "\<lambda>_. g (int (length xs))" and cs = bs] assms(5)
  by (intro fails_step [OF decodes_int [OF int_ok_length [OF assms(2)]]]) simp

lemma fails_name: "fails (LoadName rd mem nm) (UB ''addstringref(NULL)'') (mem_u64 0)"
  unfolding fails_def
proof (intro allI impI)
  fix s :: "'d LoadState" and t assume s: "zok (lz s)" "contents (lz s) = mem_u64 0 @ t"
  have "decodes (LoadString rd mem nm) (eof_err nm) None (mem_u64 0)"
    unfolding LoadString_def
    by (rule decodes_bind_ret [OF decodes_block]) (simp_all add: decodes_ret)
  from decodesD(1) [OF this s] show "LoadName rd mem nm s = Inl (UB ''addstringref(NULL)'')"
    by (auto simp: LoadName_def)
qed

lemma fails_debug:
  assumes "ample mem" "lines_ok li" "length_ok (None # up)"
  shows "fails (LoadDebug rd mem nm) (UB ''addstringref(NULL)'') (bDebug li [] (None # up))"
proof -
  define G3 :: "string list \<Rightarrow> LocVar list \<Rightarrow> int \<Rightarrow> ('d, int list \<times> LocVar list \<times> string option list) loader"
    where "G3 li lv n = bindL (LoadTimes (nat n) (LoadName rd mem nm)) (\<lambda>up. retL (map image_int li, lv, up))" for li lv n
  define G2 :: "string list \<Rightarrow> int \<Rightarrow> ('d, int list \<times> LocVar list \<times> string option list) loader"
    where "G2 li n = bindL (LoadTimes (nat n) (LoadLocVar rd mem nm)) (\<lambda>lv.
       bindL (LoadInt rd nm) (\<lambda>n. bindL (newvector mem n 8) (\<lambda>_. G3 li lv n)))" for li n
  define G1 :: "int \<Rightarrow> ('d, int list \<times> LocVar list \<times> string option list) loader"
    where "G1 n = bindL (LoadVector rd nm n 4) (\<lambda>li.
       bindL (LoadInt rd nm) (\<lambda>n. bindL (newvector mem n 16) (\<lambda>_. G2 li n)))" for n
  have D: "LoadDebug rd mem nm = bindL (LoadInt rd nm) (\<lambda>n. bindL (newvector mem n 4) (\<lambda>_. G1 n))"
    by (simp add: LoadDebug_def G1_def G2_def G3_def)
  let ?e = "UB ''addstringref(NULL)''"
  have g3: "fails (G3 li' lv (int (length (None # up)))) ?e (concat (map bString (None # up)))" for li' lv
    unfolding G3_def nat_int by (simp, rule fails_bind, rule fails_here, rule fails_name)
  have g2: "fails (G2 li' (int (length ([] :: LocVar list)))) ?e (bList bString (None # up))" for li'
  proof -
    have "fails (bindL (LoadInt rd nm) (\<lambda>n. bindL (newvector mem n 8) (\<lambda>_. G3 li' [] n))) ?e (bList bString (None # up))"
      unfolding bList_def by (rule fails_sized) (use assms g3 in auto)
    then show ?thesis by (simp add: G2_def bindL_ret)
  qed
  have z: "length_ok ([] :: LocVar list)" by (simp add: length_ok_def INT_MAX_def)
  have g1: "fails (G1 (int (length li))) ?e (concat (map mem_int li) @ bList bLocVar [] @ bList bString (None # up))"
    unfolding G1_def bList_def [of bLocVar] append.assoc
    by (rule fails_step [OF decodes_vector fails_sized]) (use assms z g2 in \<open>auto simp: lines_ok_def\<close>)
  show ?thesis
    unfolding D bDebug_def bList_def [of mem_int] append.assoc
    by (rule fails_sized) (use assms(1,2) g1 in \<open>auto simp: lines_ok_def\<close>)
qed

lemma fails_function:
  assumes mem: "ample mem" and d: "dumpable n (Proto k code [] li [] [] source linedefined lastlinedefined nups numparams is_vararg maxstacksize)"
    and up: "length_ok (None # up)" and nc: "nc < LUAI_MAXCCALLS" and lp: "lp \<noteq> None"
  shows "fails (LoadFunction rd mem nm nc lp) (UB ''addstringref(NULL)'')
    (bFunction False (Proto k code [] li [] (None # up) source linedefined lastlinedefined nups numparams is_vararg maxstacksize) p)"
proof -
  define src where "src = (if source = p \<or> False \<or> source = None then lp else source)"
  define G :: "Const list \<Rightarrow> int \<Rightarrow> ('d, Proto) loader" where
    "G k n = bindL (\<lambda>st. LoadFunctions rd mem nm (nc + 1) src (nat n) st) (\<lambda>ps.
        bindL (LoadDebug rd mem nm) (\<lambda>(li, lv, up).
          checked nm (Proto k code ps li lv up src linedefined lastlinedefined nups numparams
            is_vararg maxstacksize)))" for k n
  have dl: "decodes (\<lambda>st. LoadFunctions rd mem nm (nc + 1) src (nat (int (length ([] :: Proto list)))) st) (eof_err nm) [] []"
    by (simp add: LoadFunctions.simps [abs_def] retL_def [symmetric] decodes_ret)
  have li: "lines_ok li" using d by simp
  have G: "fails (G k (int (length ([] :: Proto list)))) (UB ''addstringref(NULL)'')
      ([] @ (bDebug li [] (None # up) @ []))"
    unfolding G_def by (rule fails_step [OF dl fails_here [OF fails_debug [OF mem li up]]])
  have z: "length_ok ([] :: Proto list)" by (simp add: length_ok_def INT_MAX_def)
  have S: "fails (bindL (LoadInt rd nm) (\<lambda>n. bindL (newvector mem n 8) (\<lambda>_. G k n))) (UB ''addstringref(NULL)'')
      (mem_int (int (length ([] :: Proto list))) @ bDebug li [] (None # up))"
    by (rule fails_sized) (use mem z G in auto)
  have nc': "\<not> nc + 1 > LUAI_MAXCCALLS" using nc by simp
  show ?thesis
    unfolding LoadFunction_binds [OF nc'] bFunction.simps
    apply (rule fails_step [OF decodes_source])
       apply (use mem d lp in auto)[3]
    apply (rule fails_step [OF decodes_int], use d in simp)+
    apply (rule fails_step [OF decodes_byte])+
    apply (rule fails_step [OF decodes_code [OF mem]], use d in simp)
    apply (rule fails_step [OF decodes_consts [OF mem]], use d in simp, use d in simp)
    using S unfolding G_def src_def append.assoc
    by simp
qed

lemma undump_fails:
  assumes "fails (LoadFunction rd mem (chunk_display_name name) nc (Some ''=?'')) e bs"
    and "ready d" "stream d = luaU_header @ bs"
  shows "luaU_undump rd mem name nc \<lparr>lz = luaZ_init d, lbuff = buff, lmem = g\<rparr> = Inl e"
proof -
  have "fails (luaU_undump rd mem name nc) e (luaU_header @ bs)"
    unfolding luaU_undump_def Let_def by (rule fails_step [OF decodes_header assms(1)])
  then show ?thesis
    using init_ok [OF assms(2)] assms(3)
    by (metis (no_types, lifting) LoadState.select_convs(1) append_Nil2 fails_def)
qed

end

definition null_name_proto :: Proto where
  "null_name_proto = Proto [] [CREATE_ABC 30 0 1 0] [] [] [] [None] (Some ''=x'') 0 0 1 0 2 2"

text \<open>
  C11. The loader counts a reference to every name it loads without looking whether the name
  is NULL: on the chunk the dumper itself writes for a prototype with a NULL upvalue name,
  whose code the checker accepts, it dereferences NULL.
\<close>

theorem undump_null_name:
  "luaG_checkcode null_name_proto = Inr True \<and>
   luaU_undump getS (\<lambda>_. True) ''=x'' 0
     (load_state (luaL_loadbuffer_data (bChunk False null_name_proto)) 0
       \<lparr>totalbytes = 0, allocbytes = 0, freebytes = 0\<rparr>) = Inl (UB ''addstringref(NULL)'')"
proof -
  have ck: "luaG_checkcode null_name_proto = Inr True" by code_simp
  have "luaG_checkcode (Proto [] [CREATE_ABC 30 0 1 0] [] [] [] [] (Some ''=x'') 0 0 1 0 2 2) = Inr True"
    by code_simp
  then have d: "dumpable 1 (Proto [] [CREATE_ABC 30 0 1 0] [] [] [] [] (Some ''=x'') 0 0 1 0 2 2)"
    by (simp add: int_ok_def length_ok_def lines_ok_def INT_MAX_def)
  have l: "unat (of_nat (length (bChunk False null_name_proto)) :: u64) = length (bChunk False null_name_proto)"
    by (rule unat_of_nat_64)
      (simp add: bChunk_def null_name_proto_def bDebug_def bList_def luaU_header_def LUA_SIGNATURE_def)
  have "getS.fails (LoadFunction getS (\<lambda>_. True) (chunk_display_name ''=x'') 0 (Some ''=?''))
      (UB ''addstringref(NULL)'') (bFunction False null_name_proto None)"
    unfolding null_name_proto_def
    by (rule getS.fails_function [OF ample_True d]) (simp_all add: length_ok_def INT_MAX_def LUAI_MAXCCALLS_def)
  from getS.undump_fails [OF this, of "luaL_loadbuffer_data (bChunk False null_name_proto)"] ck l
  show ?thesis by (simp add: load_state_def luaL_loadbuffer_data_def bChunk_def)
qed

end
