(* ===== verification/Lua_String.thy ===== *)
theory Lua_String
  imports Lua_Mem
begin

text \<open>
  The string table (\<^verbatim>\<open>lstring.c\<close>): interning of strings by hashing with doubly linked
  collision chains, the growth of the table, and the release of a string by the reference
  counter (\<open>luarc_freestring\<close> of \<^verbatim>\<open>lgc.c\<close>).

  The heap maps the address of a \<open>TString\<close> to its fields; \<open>next\<close> and \<open>prev\<close> are the links
  of the chain.  Following a dangling link is \<open>UB\<close>.  The chains are followed for at most
  \<open>nuse + 1\<close> steps, which the invariant \<open>strt_ok\<close> makes enough.  The address of a new
  object comes from the parameter \<open>fresh\<close>; its success from the allocator \<open>mem\<close>.
\<close>

section \<open>Data\<close>

record TString =
  s_next :: "addr option"
  s_prev :: "addr option"
  s_ref :: int
  s_marked :: u8
  s_hash :: u32
  s_val :: string

type_synonym sheap = "addr \<Rightarrow> TString option"

record strtab =
  st_heap :: sheap
  st_hash :: "addr option list"
  st_nuse :: u32
  st_size :: int
  st_currentwhite :: u8
  st_sweeping :: bool
  st_mem :: mem_state
  st_count :: u64
  st_bytes :: u64

definition WHITEBITS :: u8 where "WHITEBITS = 3"
definition sizeof_TString :: u64 where "sizeof_TString = 40"

definition lmod :: "u32 \<Rightarrow> int \<Rightarrow> int" where
  "lmod h sz = uint (h AND (word_of_int sz - 1))"

definition luaC_white :: "strtab \<Rightarrow> u8" where
  "luaC_white S = (st_currentwhite S AND WHITEBITS)"

definition isdead :: "strtab \<Rightarrow> TString \<Rightarrow> bool" where
  "isdead S ts = (s_marked ts AND (st_currentwhite S XOR WHITEBITS) AND WHITEBITS \<noteq> 0)"

section \<open>The hash of a string\<close>

function hash_loop :: "string \<Rightarrow> nat \<Rightarrow> nat \<Rightarrow> u32 \<Rightarrow> u32" where
  "hash_loop str step l1 h =
     (if step \<le> l1 \<and> 0 < step
      then hash_loop str step (l1 - step)
             (h XOR (push_bit 5 h + drop_bit 2 h + word_of_int (uchar (str ! (l1 - 1)))))
      else h)"
  by pat_completeness auto
termination by (relation "measure (\<lambda>(str, step, l1, h). l1)") auto

declare hash_loop.simps [simp del]

definition str_hash :: "string \<Rightarrow> u32" where
  "str_hash str = hash_loop str (length str div 32 + 1) (length str) (of_nat (length str))"

section \<open>Links\<close>

definition set_prev :: "sheap \<Rightarrow> addr option \<Rightarrow> addr option \<Rightarrow> sheap" where
  "set_prev H p v = (case p of None \<Rightarrow> H | Some q \<Rightarrow> H(q := map_option (\<lambda>s. s\<lparr>s_prev := v\<rparr>) (H q)))"

definition set_next :: "sheap \<Rightarrow> addr \<Rightarrow> addr option \<Rightarrow> sheap" where
  "set_next H q v = H(q := map_option (\<lambda>s. s\<lparr>s_next := v\<rparr>) (H q))"

section \<open>Resizing\<close>

text \<open>The inner loop of the rehash: one old chain is moved to the new table.\<close>

fun move_chain :: "nat \<Rightarrow> int \<Rightarrow> addr option \<Rightarrow> sheap \<Rightarrow> addr option list \<Rightarrow>
    lua_err + (sheap \<times> addr option list)" where
  "move_chain n newsize None H nh = Inr (H, nh)"
| "move_chain 0 newsize (Some p) H nh = Inl (UB ''endless chain'')"
| "move_chain (Suc n) newsize (Some p) H nh =
     (case H p of
        None \<Rightarrow> Inl (UB ''dangling link'')
      | Some s \<Rightarrow>
          (let h1 = nat (lmod (s_hash s) newsize);
               H = H(p \<mapsto> s\<lparr>s_next := nh ! h1, s_prev := None\<rparr>);
               H = set_prev H (nh ! h1) (Some p)
           in move_chain n newsize (s_next s) H (nh[h1 := Some p])))"

fun move_chains :: "nat \<Rightarrow> int \<Rightarrow> addr option list \<Rightarrow> sheap \<Rightarrow> addr option list \<Rightarrow>
    lua_err + (sheap \<times> addr option list)" where
  "move_chains n newsize [] H nh = Inr (H, nh)"
| "move_chains n newsize (p # ps) H nh =
     bindE (move_chain n newsize p H nh) (\<lambda>r. move_chains n newsize ps (fst r) (snd r))"

definition luaS_resize :: "allocator \<Rightarrow> int \<Rightarrow> strtab \<Rightarrow> lua_err + strtab" where
  "luaS_resize mem newsize S =
     (if st_sweeping S then Inr S
      else bindE (luaM_newvector mem newsize 8 (st_mem S)) (\<lambda>g.
        bindE (move_chains (unat (st_nuse S) + 1) newsize (st_hash S) (st_heap S) (replicate (nat newsize) None))
          (\<lambda>(H, nh).
        bindE (luaM_reallocv_int mem (st_size S) 0 8 g) (\<lambda>g.
          Inr (S\<lparr>st_heap := H, st_hash := nh, st_size := newsize, st_mem := g\<rparr>)))))"

section \<open>New strings\<close>

definition newlstr ::
  "allocator \<Rightarrow> (sheap \<Rightarrow> addr) \<Rightarrow> string \<Rightarrow> u32 \<Rightarrow> strtab \<Rightarrow> lua_err + (addr \<times> strtab)" where
  "newlstr mem fresh str h S =
     (let l = of_nat (length str) :: u64 in
      if l + 1 > MAX_SIZET - sizeof_TString then luaM_toobig
      else bindE (luaM_realloc mem 0 (l + 1 + sizeof_TString) (st_mem S)) (\<lambda>g.
        let ts = fresh (st_heap S);
            b = nat (lmod h (st_size S));
            H = set_prev (st_heap S) (st_hash S ! b) (Some ts);
            H = H(ts \<mapsto> \<lparr>s_next = st_hash S ! b, s_prev = None, s_ref = 0, s_marked = luaC_white S,
                         s_hash = h, s_val = str\<rparr>);
            S = S\<lparr>st_heap := H, st_hash := (st_hash S)[b := Some ts], st_nuse := st_nuse S + 1,
                  st_mem := g, st_count := st_count S + 1, st_bytes := st_bytes S + (l + 1 + sizeof_TString)\<rparr>
        in if st_nuse S > word_of_int (st_size S) \<and> st_size S \<le> MAX_INT div 2
           then bindE (luaS_resize mem (st_size S * 2) S) (\<lambda>S. Inr (ts, S))
           else Inr (ts, S)))"

fun find_chain :: "nat \<Rightarrow> sheap \<Rightarrow> addr option \<Rightarrow> string \<Rightarrow> lua_err + addr option" where
  "find_chain n H None str = Inr None"
| "find_chain 0 H (Some a) str = Inl (UB ''endless chain'')"
| "find_chain (Suc n) H (Some a) str =
     (case H a of
        None \<Rightarrow> Inl (UB ''dangling link'')
      | Some ts \<Rightarrow> if length (s_val ts) = length str \<and> s_val ts = str then Inr (Some a)
                  else find_chain n H (s_next ts) str)"

definition luaS_newlstr ::
  "allocator \<Rightarrow> (sheap \<Rightarrow> addr) \<Rightarrow> string \<Rightarrow> strtab \<Rightarrow> lua_err + (addr \<times> strtab)" where
  "luaS_newlstr mem fresh str S =
     (let h = str_hash str in
      bindE (find_chain (unat (st_nuse S) + 1) (st_heap S) (st_hash S ! nat (lmod h (st_size S))) str) (\<lambda>r.
        case r of
          None \<Rightarrow> newlstr mem fresh str h S
        | Some a \<Rightarrow>
            (case st_heap S a of
               None \<Rightarrow> Inl (UB ''dangling link'')
             | Some ts \<Rightarrow>
                 Inr (a, if isdead S ts
                         then S\<lparr>st_heap := (st_heap S)(a \<mapsto> ts\<lparr>s_marked := s_marked ts XOR WHITEBITS\<rparr>)\<rparr>
                         else S))))"

section \<open>Release by the reference counter\<close>

definition luarc_freestring :: "allocator \<Rightarrow> addr \<Rightarrow> strtab \<Rightarrow> lua_err + strtab" where
  "luarc_freestring mem a S =
     (case st_heap S a of
        None \<Rightarrow> Inl (UB ''dangling link'')
      | Some s \<Rightarrow>
          (let b = nat (lmod (s_hash s) (st_size S));
               (H, hs) = (case s_prev s of
                            Some q \<Rightarrow> (set_next (st_heap S) q (s_next s), st_hash S)
                          | None \<Rightarrow> (st_heap S, (st_hash S)[b := s_next s]));
               H = set_prev H (s_next s) (s_prev s)
           in bindE (luaM_realloc mem (sizeof_TString + (of_nat (length (s_val s)) + 1)) 0 (st_mem S)) (\<lambda>g.
                Inr (S\<lparr>st_heap := H(a := None), st_hash := hs, st_nuse := st_nuse S - 1, st_mem := g\<rparr>))))"

section \<open>Chains as lists\<close>

fun dll :: "sheap \<Rightarrow> addr option \<Rightarrow> addr option \<Rightarrow> addr list \<Rightarrow> bool" where
  "dll H prev p [] = (p = None)"
| "dll H prev p (a # as) =
     (p = Some a \<and> (\<exists>s. H a = Some s \<and> s_prev s = prev \<and> dll H (Some a) (s_next s) as))"

fun chain :: "sheap \<Rightarrow> addr option \<Rightarrow> addr list \<Rightarrow> bool" where
  "chain H p [] = (p = None)"
| "chain H p (a # as) = (p = Some a \<and> (\<exists>s. H a = Some s \<and> chain H (s_next s) as))"

lemma dll_chain: "dll H prev p as \<Longrightarrow> chain H p as"
  by (induction as arbitrary: prev p) auto

lemma dll_cong: "(\<And>x. x \<in> set as \<Longrightarrow> H' x = H x) \<Longrightarrow> dll H' prev p as = dll H prev p as"
  by (induction as arbitrary: prev p) auto

lemma chain_cong: "(\<And>x. x \<in> set as \<Longrightarrow> H' x = H x) \<Longrightarrow> chain H' p as = chain H p as"
  by (induction as arbitrary: p) auto

lemma chain_dom: "chain H p as \<Longrightarrow> set as \<subseteq> dom H"
  by (induction as arbitrary: p) auto

lemma dll_dom: "dll H prev p as \<Longrightarrow> set as \<subseteq> dom H"
  by (rule chain_dom [OF dll_chain])

lemma set_prev_other: "p \<noteq> Some x \<Longrightarrow> set_prev H p v x = H x"
  by (auto simp: set_prev_def split: option.split)

lemma set_next_other: "q \<noteq> x \<Longrightarrow> set_next H q v x = H x"
  by (auto simp: set_next_def)

lemma dll_set_prev:
  "dll H prev p as \<Longrightarrow> distinct as \<Longrightarrow> dll (set_prev H p v) v p as"
proof (cases as)
  case (Cons a bs)
  assume d: "dll H prev p as" "distinct as"
  with Cons obtain s where s: "p = Some a" "H a = Some s" "dll H (Some a) (s_next s) bs" by auto
  have "dll (set_prev H p v) (Some a) (s_next s) bs = dll H (Some a) (s_next s) bs"
    by (rule dll_cong) (use d s Cons in \<open>auto simp: set_prev_def\<close>)
  with s show ?thesis by (simp add: Cons set_prev_def)
qed (simp add: set_prev_def)

text \<open>Linking a new node in front of a chain.\<close>

lemma dll_push:
  assumes "dll H None p as" "distinct as" "a \<notin> set as" "s_next s = p" "s_prev s = None"
  shows "dll ((set_prev H p (Some a))(a \<mapsto> s)) None (Some a) (a # as)"
proof -
  have "dll ((set_prev H p (Some a))(a \<mapsto> s)) (Some a) p as = dll (set_prev H p (Some a)) (Some a) p as"
    by (rule dll_cong) (use assms(3) in auto)
  with dll_set_prev [OF assms(1,2)] assms(4,5) show ?thesis by simp
qed

text \<open>What links do not change.\<close>

definition core :: "TString \<Rightarrow> string \<times> u32 \<times> u8 \<times> int" where
  "core s = (s_val s, s_hash s, s_marked s, s_ref s)"

definition relinked :: "sheap \<Rightarrow> sheap \<Rightarrow> bool" where
  "relinked H H' = (\<forall>a. map_option core (H' a) = map_option core (H a))"

lemma relinked_refl [simp]: "relinked H H"
  by (simp add: relinked_def)

lemma relinked_trans: "relinked H H' \<Longrightarrow> relinked H' H'' \<Longrightarrow> relinked H H''"
  by (simp add: relinked_def)

lemma core_update [simp]:
  "map_option core (map_option (\<lambda>s. s\<lparr>s_prev := v\<rparr>) x) = map_option core x"
  "map_option core (map_option (\<lambda>s. s\<lparr>s_next := q\<rparr>) x) = map_option core x"
  by (cases x; simp add: core_def)+

lemma relinked_set_prev [simp]: "relinked H (set_prev H p v)"
  by (auto simp: relinked_def set_prev_def split: option.split)

lemma relinked_set_next [simp]: "relinked H (set_next H q v)"
  by (auto simp: relinked_def set_next_def)

lemma relinked_upd: "relinked H H' \<Longrightarrow> H a = Some s \<Longrightarrow> core s' = core s \<Longrightarrow> relinked H (H'(a \<mapsto> s'))"
  by (auto simp: relinked_def)

lemma relinked_dom: "relinked H H' \<Longrightarrow> dom H' = dom H"
  by (auto simp: relinked_def dom_def) (metis map_option_is_None option.exhaust)+

lemma relinked_get: "relinked H H' \<Longrightarrow> H a = Some s \<Longrightarrow> \<exists>s'. H' a = Some s' \<and> core s' = core s"
  by (metis (no_types, lifting) map_option_eq_Some relinked_def)

definition at_bucket :: "sheap \<Rightarrow> int \<Rightarrow> nat \<Rightarrow> addr \<Rightarrow> bool" where
  "at_bucket H n j x = (\<exists>s. H x = Some s \<and> lmod (s_hash s) n = int j)"

lemma relinked_at_bucket: "relinked H H' \<Longrightarrow> at_bucket H' n j x = at_bucket H n j x"
proof -
  assume "relinked H H'"
  then have "map_option core (H' x) = map_option core (H x)" by (simp add: relinked_def)
  then show ?thesis by (cases "H x"; cases "H' x") (simp_all add: at_bucket_def core_def)
qed

definition in_buckets :: "sheap \<Rightarrow> addr option list \<Rightarrow> int \<Rightarrow> addr set \<Rightarrow> bool" where
  "in_buckets H nh n M = (length nh = nat n \<and>
     (\<forall>j < nat n. \<exists>as. dll H None (nh ! j) as \<and> distinct as \<and> set as = {a \<in> M. at_bucket H n j a}))"

lemma in_buckets_push:
  assumes B: "in_buckets H nh n M" and a: "a \<notin> M" and b: "b < nat n" and s: "s_next s = nh ! b" "s_prev s = None"
    and h: "lmod (s_hash s) n = int b"
  defines "H' \<equiv> (set_prev H (nh ! b) (Some a))(a \<mapsto> s)"
  shows "in_buckets H' (nh[b := Some a]) n (insert a M)"
proof -
  have at: "at_bucket H' n j x = (if x = a then j = b else at_bucket H n j x)" for j x
    using h relinked_at_bucket [OF relinked_set_prev, of H "nh ! b" "Some a" n j x]
    by (auto simp: at_bucket_def H'_def)
  have "\<exists>as. dll H' None (nh[b := Some a] ! j) as \<and> distinct as \<and> set as = {x \<in> insert a M. at_bucket H' n j x}"
    if j: "j < nat n" for j
  proof -
    from B j obtain as where as: "dll H None (nh ! j) as" "distinct as" "set as = {x \<in> M. at_bucket H n j x}"
      unfolding in_buckets_def by blast
    have len: "length nh = nat n" using B by (simp add: in_buckets_def)
    show ?thesis
    proof (cases "j = b")
      case True
      have "dll H' None (Some a) (a # as)"
        unfolding H'_def True [symmetric]
        by (rule dll_push) (use as a s True in auto)
      moreover have "set (a # as) = {x \<in> insert a M. at_bucket H' n j x}"
        using as a True by (auto simp: at)
      moreover have "distinct (a # as)" using as a by auto
      ultimately show ?thesis using True b len by (intro exI [of _ "a # as"]) simp
    next
      case False
      from B b obtain bs where bs: "dll H None (nh ! b) bs" "set bs = {x \<in> M. at_bucket H n b x}"
        unfolding in_buckets_def by blast
      have "H' x = H x" if "x \<in> set as" for x
      proof -
        have "x \<notin> set bs" using that as(3) bs(2) False by (auto simp: at_bucket_def)
        then have "nh ! b \<noteq> Some x" using bs(1) by (cases bs) auto
        moreover have "x \<noteq> a" using that as(3) a by auto
        ultimately show ?thesis by (simp add: H'_def set_prev_other)
      qed
      then have "dll H' None (nh ! j) as" using as(1) by (subst dll_cong) auto
      moreover have "set as = {x \<in> insert a M. at_bucket H' n j x}"
        using as(3) a False by (auto simp: at)
      ultimately show ?thesis using as(2) False by (intro exI [of _ as]) simp
    qed
  qed
  then show ?thesis using B by (simp add: in_buckets_def)
qed

lemma in_buckets_head: "in_buckets H nh n M \<Longrightarrow> j < nat n \<Longrightarrow> nh ! j = Some x \<Longrightarrow> x \<in> M"
  unfolding in_buckets_def by (metis (no_types, lifting) dll.simps list.exhaust list.set_intros(1) mem_Collect_eq option.discI option.inject)

definition size_ok :: "int \<Rightarrow> bool" where
  "size_ok n = (\<exists>k \<le> 31. n = 2 ^ k)"

lemma lmod_range: "size_ok n \<Longrightarrow> 0 \<le> lmod h n \<and> lmod h n < n"
proof -
  assume "size_ok n"
  then obtain k where k: "k \<le> 31" "n = 2 ^ k" by (auto simp: size_ok_def)
  have "lmod h n = uint (take_bit k h)"
    by (simp add: lmod_def k(2) take_bit_eq_mask mask_eq_decr_exp and.commute)
  also have "\<dots> < 2 ^ k"
    using k(1) by (simp add: unsigned_take_bit_eq)
  finally show ?thesis using k by (simp add: lmod_def)
qed

lemma move_chain_ok:
  assumes n: "size_ok n"
  shows "chain H p rest \<Longrightarrow> distinct rest \<Longrightarrow> set rest \<inter> M = {} \<Longrightarrow> in_buckets H nh n M \<Longrightarrow> length rest \<le> fuel \<Longrightarrow>
    \<exists>H' nh'. move_chain fuel n p H nh = Inr (H', nh') \<and> in_buckets H' nh' n (M \<union> set rest) \<and>
      relinked H H' \<and> (\<forall>x. x \<notin> M \<union> set rest \<longrightarrow> H' x = H x)"
proof (induction rest arbitrary: p H nh M fuel)
  case Nil
  then show ?case by simp
next
  case (Cons a rest)
  from Cons.prems(1) obtain s where s: "p = Some a" "H a = Some s" "chain H (s_next s) rest" by auto
  from Cons.prems(5) obtain f where f: "fuel = Suc f" "length rest \<le> f" by (cases fuel) auto
  define b where "b = nat (lmod (s_hash s) n)"
  have b: "b < nat n" "lmod (s_hash s) n = int b"
    using lmod_range [OF n, of "s_hash s"] by (simp_all add: b_def)
  define s' where "s' = s\<lparr>s_next := nh ! b, s_prev := None\<rparr>"
  define H1 where "H1 = (set_prev H (nh ! b) (Some a))(a \<mapsto> s')"
  have a: "a \<notin> M" "a \<notin> set rest" using Cons.prems(2,3) by auto
  have hd: "nh ! b \<noteq> Some x" if "x \<notin> M" for x
    using in_buckets_head [OF Cons.prems(4) b(1)] that by auto
  have H1: "set_prev (H(a \<mapsto> s')) (nh ! b) (Some a) = H1"
    using hd [OF a(1)] by (auto simp: H1_def set_prev_def fun_upd_twist split: option.split)
  have B1: "in_buckets H1 (nh[b := Some a]) n (insert a M)"
    unfolding H1_def by (rule in_buckets_push [OF Cons.prems(4) a(1) b(1)]) (use b in \<open>simp_all add: s'_def\<close>)
  have same: "H1 x = H x" if "x \<notin> insert a M" for x
    using that hd [of x] by (simp add: H1_def set_prev_other)
  have r1: "relinked H H1"
    unfolding H1_def by (rule relinked_upd [where s = s]) (simp_all add: s(2) s'_def core_def)
  have c1: "chain H1 (s_next s) rest"
  proof -
    have "H1 x = H x" if "x \<in> set rest" for x
      by (rule same) (use that a Cons.prems(3) in auto)
    then show ?thesis using s(3) by (subst chain_cong [where H = H]) auto
  qed
  from Cons.IH [OF c1 _ _ B1 f(2)] Cons.prems(2,3) obtain H' nh' where
    r: "move_chain f n (s_next s) H1 (nh[b := Some a]) = Inr (H', nh')" "in_buckets H' nh' n (insert a M \<union> set rest)"
      "relinked H1 H'" "\<forall>x. x \<notin> insert a M \<union> set rest \<longrightarrow> H' x = H1 x"
    by auto
  have "move_chain fuel n p H nh = Inr (H', nh')"
    using s(1,2) r(1) H1 by (simp add: f(1) Let_def flip: b_def s'_def)
  then show ?case
    using r(2-) same relinked_trans [OF r1 r(3)] by (intro exI [of _ H'] exI [of _ nh']) auto
qed

lemma move_chains_ok:
  assumes n: "size_ok n"
  shows "list_all2 (chain H) ps bss \<Longrightarrow> distinct (concat bss) \<Longrightarrow> set (concat bss) \<inter> M = {} \<Longrightarrow> in_buckets H nh n M \<Longrightarrow>
    (\<forall>as \<in> set bss. length as \<le> fuel) \<Longrightarrow>
    \<exists>H' nh'. move_chains fuel n ps H nh = Inr (H', nh') \<and> in_buckets H' nh' n (M \<union> set (concat bss)) \<and> relinked H H'"
proof (induction ps arbitrary: bss H nh M)
  case Nil
  then show ?case by auto
next
  case (Cons p ps)
  then obtain as bss' where b: "bss = as # bss'" "chain H p as" "list_all2 (chain H) ps bss'"
    by (auto simp: list_all2_Cons1)
  from move_chain_ok [OF n b(2) _ _ Cons.prems(4), of fuel] Cons.prems(2,3,5) b(1) obtain H1 nh1 where
    r: "move_chain fuel n p H nh = Inr (H1, nh1)" "in_buckets H1 nh1 n (M \<union> set as)" "relinked H H1"
      "\<forall>x. x \<notin> M \<union> set as \<longrightarrow> H1 x = H x"
    by auto
  have c: "chain H1 q bs" if "chain H q bs" "bs \<in> set bss'" for q bs
  proof -
    have "H1 x = H x" if "x \<in> set bs" for x
    proof -
      have "x \<in> set (concat bss')" using that \<open>bs \<in> set bss'\<close> by auto
      then show ?thesis using r(4) Cons.prems(2,3) b(1) by auto
    qed
    with \<open>chain H q bs\<close> show ?thesis by (subst chain_cong [where H = H]) auto
  qed
  then have l: "list_all2 (chain H1) ps bss'"
    using b(3) by (auto simp: list_all2_conv_all_nth)
  have d: "distinct (concat bss')" "set (concat bss') \<inter> (M \<union> set as) = {}"
    "\<forall>as \<in> set bss'. length as \<le> fuel"
    using Cons.prems(2,3,5) b(1) by auto
  from Cons.IH [OF l d(1,2) r(2) d(3)] obtain H' nh' where
    "move_chains fuel n ps H1 nh1 = Inr (H', nh')" "in_buckets H' nh' n (M \<union> set as \<union> set (concat bss'))" "relinked H1 H'"
    by blast
  then show ?case
    using r(1,3) b(1) by (auto simp: Un_assoc intro: relinked_trans)
qed

section \<open>The invariant\<close>

text \<open>
  Every string is in the chain of its hash and in no other, \<open>nuse\<close> counts them, the stored
  hash is the hash of the content, and no content occurs twice.
\<close>

definition strt_ok :: "strtab \<Rightarrow> bool" where
  "strt_ok S = (size_ok (st_size S) \<and> in_buckets (st_heap S) (st_hash S) (st_size S) (dom (st_heap S)) \<and>
     finite (dom (st_heap S)) \<and> card (dom (st_heap S)) < 2 ^ 31 \<and> unat (st_nuse S) = card (dom (st_heap S)) \<and>
     (\<forall>a s. st_heap S a = Some s \<longrightarrow> s_hash s = str_hash (s_val s)) \<and>
     (\<forall>a b s t. st_heap S a = Some s \<longrightarrow> st_heap S b = Some t \<longrightarrow> s_val s = s_val t \<longrightarrow> a = b))"

lemma in_buckets_empty: "0 \<le> n \<Longrightarrow> in_buckets H (replicate (nat n) None) n {}"
  by (auto simp: in_buckets_def intro: exI [of _ "[]"])

lemma in_buckets_chains:
  assumes B: "in_buckets H hs n (dom H)" and n: "size_ok n" and fin: "finite (dom H)"
  obtains bss where "list_all2 (chain H) hs bss" "distinct (concat bss)" "set (concat bss) = dom H"
    "\<forall>as \<in> set bss. length as \<le> card (dom H)"
proof -
  have "\<forall>j. \<exists>as. j < nat n \<longrightarrow> dll H None (hs ! j) as \<and> distinct as \<and> set as = {a \<in> dom H. at_bucket H n j a}"
    using B by (auto simp: in_buckets_def)
  from choice [OF this] obtain f where
    f: "\<And>j. j < nat n \<Longrightarrow> dll H None (hs ! j) (f j) \<and> distinct (f j) \<and> set (f j) = {a \<in> dom H. at_bucket H n j a}"
    by blast
  define bss where "bss = map f [0..<nat n]"
  have "list_all2 (chain H) hs bss"
  proof -
    have len: "length hs = nat n" using B by (simp add: in_buckets_def)
    show ?thesis by (simp add: list_all2_conv_all_nth bss_def len) (use f dll_chain in blast)
  qed
  moreover have "distinct (concat (map f [0..<k]))" if "k \<le> nat n" for k
    using that
  proof (induction k)
    case (Suc k)
    have "set (f k) \<inter> set (concat (map f [0..<k])) = {}"
      using f Suc.prems by (auto simp: at_bucket_def)
    with Suc f [of k] show ?case by (simp add: Int_commute)
  qed simp
  then have "distinct (concat bss)" by (simp add: bss_def)
  moreover have "set (concat bss) = dom H"
  proof
    show "set (concat bss) \<subseteq> dom H" using f by (auto simp: bss_def)
    show "dom H \<subseteq> set (concat bss)"
    proof
      fix a assume a: "a \<in> dom H"
      then obtain s where s: "H a = Some s" by auto
      define j where "j = nat (lmod (s_hash s) n)"
      have j: "j < nat n" "int j = lmod (s_hash s) n" using lmod_range [OF n, of "s_hash s"] by (auto simp: j_def)
      then have "a \<in> set (f j)" using f a s by (auto simp: at_bucket_def)
      then show "a \<in> set (concat bss)" using j by (auto simp: bss_def)
    qed
  qed
  moreover have "\<forall>as \<in> set bss. length as \<le> card (dom H)"
  proof
    fix as assume "as \<in> set bss"
    then obtain j where j: "j < nat n" "as = f j" by (auto simp: bss_def)
    then have "length as = card (set as)" using f [OF j(1)] distinct_card [of "f j"] by simp
    also have "\<dots> \<le> card (dom H)" by (rule card_mono [OF fin]) (use f j in auto)
    finally show "length as \<le> card (dom H)" .
  qed
  ultimately show thesis using that by blast
qed

lemma size_ok_range: "size_ok n \<Longrightarrow> 0 < n \<and> n \<le> 2 ^ 31"
  using power_increasing [of _ 31 "2 :: int"] by (auto simp: size_ok_def)

lemma strt_ok_relinked:
  assumes "strt_ok S" "relinked (st_heap S) H" "in_buckets H hs n (dom (st_heap S))" "size_ok n"
  shows "strt_ok (S\<lparr>st_heap := H, st_hash := hs, st_size := n, st_mem := g\<rparr>)"
proof -
  have c: "\<exists>s'. st_heap S a = Some s' \<and> core s' = core s" if "H a = Some s" for a s
    using assms(2) that unfolding relinked_def by (metis (no_types, lifting) map_option_eq_Some)
  show ?thesis
    using assms c unfolding strt_ok_def
    by (auto simp: relinked_dom [OF assms(2)] core_def) (metis prod.inject core_def)+
qed

text \<open>Resizing keeps the strings and their invariant, and always ends.\<close>

lemma resize_ok:
  assumes S: "strt_ok S" and n: "size_ok n" "n < INT_MAX" and mem: "ample mem"
  shows "\<exists>S'. luaS_resize mem n S = Inr S' \<and> strt_ok S' \<and> relinked (st_heap S) (st_heap S') \<and>
    st_nuse S' = st_nuse S"
proof (cases "st_sweeping S")
  case True
  with S show ?thesis by (simp add: luaS_resize_def)
next
  case False
  note s = S [unfolded strt_ok_def]
  obtain bss where b: "list_all2 (chain (st_heap S)) (st_hash S) bss" "distinct (concat bss)"
    "set (concat bss) = dom (st_heap S)" "\<forall>as \<in> set bss. length as \<le> card (dom (st_heap S))"
    using in_buckets_chains s by blast
  have n0: "0 \<le> n" using size_ok_range [OF n(1)] by simp
  from move_chains_ok [OF n(1) b(1,2) _ in_buckets_empty [OF n0], of "unat (st_nuse S) + 1"] b(3,4) s obtain H nh where
    r: "move_chains (unat (st_nuse S) + 1) n (st_hash S) (st_heap S) (replicate (nat n) None) = Inr (H, nh)"
      "in_buckets H nh n (dom (st_heap S))" "relinked (st_heap S) H"
    by fastforce
  obtain g where g: "luaM_newvector mem n 8 (st_mem S) = Inr g"
    using reallocv_int_ok [OF n0 n(2), of 8 mem 0 "st_mem S"] mem
    by (auto simp: luaM_newvector_def luaM_realloc_def ample_def)
  obtain g' where g': "luaM_reallocv_int mem (st_size S) 0 8 g = Inr g'"
    using reallocv_int_ok [of 0 8 mem "st_size S" g] mem
    by (auto simp: luaM_realloc_def ample_def INT_MAX_def)
  show ?thesis
    using strt_ok_relinked [OF S r(3,2) n(1), of g'] r g g' False
    by (auto simp: luaS_resize_def)
qed

section \<open>Interning\<close>

lemma find_chain_ok:
  "dll H prev p as \<Longrightarrow> length as < n \<Longrightarrow>
     \<exists>r. find_chain n H p str = Inr r \<and>
       (case r of None \<Rightarrow> \<forall>a \<in> set as. \<forall>s. H a = Some s \<longrightarrow> s_val s \<noteq> str
        | Some a \<Rightarrow> a \<in> set as \<and> (\<exists>s. H a = Some s \<and> s_val s = str))"
proof (induction as arbitrary: n prev p)
  case Nil
  then show ?case by simp
next
  case (Cons a as)
  then obtain s where s: "p = Some a" "H a = Some s" "dll H (Some a) (s_next s) as" by auto
  obtain m where m: "n = Suc m" "length as < m" using Cons.prems(2) by (cases n) auto
  show ?case
  proof (cases "s_val s = str")
    case True
    with s m show ?thesis by simp
  next
    case False
    from Cons.IH [OF s(3) m(2)] s m False show ?thesis by (auto split: option.splits)
  qed
qed

lemma lookup_ok:
  assumes S: "strt_ok S"
  shows "\<exists>r. find_chain (unat (st_nuse S) + 1) (st_heap S) (st_hash S ! nat (lmod (str_hash str) (st_size S))) str = Inr r \<and>
    (case r of None \<Rightarrow> \<forall>a s. st_heap S a = Some s \<longrightarrow> s_val s \<noteq> str
     | Some a \<Rightarrow> \<exists>s. st_heap S a = Some s \<and> s_val s = str)"
proof -
  note s = S [unfolded strt_ok_def]
  define b where "b = nat (lmod (str_hash str) (st_size S))"
  have b: "b < nat (st_size S)" "lmod (str_hash str) (st_size S) = int b"
    using lmod_range [of "st_size S" "str_hash str"] s by (auto simp: b_def)
  from s b(1) obtain as where as: "dll (st_heap S) None (st_hash S ! b) as" "distinct as"
    "set as = {a \<in> dom (st_heap S). at_bucket (st_heap S) (st_size S) b a}"
    unfolding in_buckets_def by blast
  have "length as = card (set as)" using as(2) by (simp add: distinct_card)
  also have "\<dots> \<le> card (dom (st_heap S))" by (rule card_mono) (use s as(3) in auto)
  finally have "length as < unat (st_nuse S) + 1" using s by simp
  from find_chain_ok [OF as(1) this, of str] obtain r where
    r: "find_chain (unat (st_nuse S) + 1) (st_heap S) (st_hash S ! b) str = Inr r"
      "case r of None \<Rightarrow> \<forall>a \<in> set as. \<forall>s. st_heap S a = Some s \<longrightarrow> s_val s \<noteq> str
        | Some a \<Rightarrow> a \<in> set as \<and> (\<exists>s. st_heap S a = Some s \<and> s_val s = str)"
    by blast
  have "a \<in> set as" if "st_heap S a = Some t" "s_val t = str" for a t
    using that s b(2) as(3) by (auto simp: at_bucket_def)
  then show ?thesis using r by (fold b_def) (auto split: option.splits)
qed

text \<open>The address a new object gets is not in use.\<close>

definition fresh_ok :: "(sheap \<Rightarrow> addr) \<Rightarrow> bool" where
  "fresh_ok fresh = (\<forall>H. dom H \<noteq> UNIV \<longrightarrow> fresh H \<notin> dom H)"

definition has_string :: "strtab \<Rightarrow> addr \<Rightarrow> string \<Rightarrow> bool" where
  "has_string S a str = (\<exists>s. st_heap S a = Some s \<and> s_val s = str)"

definition same_strings :: "strtab \<Rightarrow> strtab \<Rightarrow> bool" where
  "same_strings S S' = (\<forall>a str. has_string S a str \<longrightarrow> has_string S' a str)"

lemma relinked_has: "relinked (st_heap S) (st_heap S') \<Longrightarrow> has_string S' a str = has_string S a str"
proof -
  assume "relinked (st_heap S) (st_heap S')"
  then have "map_option core (st_heap S' a) = map_option core (st_heap S a)" by (simp add: relinked_def)
  then show ?thesis
    by (cases "st_heap S a"; cases "st_heap S' a") (simp_all add: has_string_def core_def)
qed

lemma newlstr_ok:
  assumes S: "strt_ok S" and mem: "ample mem" and fr: "fresh (st_heap S) \<notin> dom (st_heap S)"
    and new: "\<forall>a s. st_heap S a = Some s \<longrightarrow> s_val s \<noteq> str"
    and len: "length str < 2 ^ 63" and room: "card (dom (st_heap S)) < 2 ^ 30"
  shows "\<exists>S'. newlstr mem fresh str (str_hash str) S = Inr (fresh (st_heap S), S') \<and> strt_ok S' \<and>
    (\<forall>a t. has_string S' a t = (has_string S a t \<or> a = fresh (st_heap S) \<and> t = str))"
proof -
  note s = S [unfolded strt_ok_def]
  define a where "a = fresh (st_heap S)"
  define l where "l = (of_nat (length str) :: u64)"
  define b where "b = nat (lmod (str_hash str) (st_size S))"
  have b: "b < nat (st_size S)" "lmod (str_hash str) (st_size S) = int b"
    using lmod_range [of "st_size S" "str_hash str"] s by (auto simp: b_def)
  have l: "\<not> l + 1 > MAX_SIZET - sizeof_TString"
  proof -
    have "unat (l + 1) \<le> 2 ^ 63"
      using len unat_of_nat_64 [of "length str + 1"] by (simp add: l_def add.commute)
    moreover have "unat (MAX_SIZET - sizeof_TString) \<ge> 2 ^ 63"
      by (simp add: MAX_SIZET_def sizeof_TString_def)
    ultimately show ?thesis by (simp add: word_less_nat_alt)
  qed
  obtain g where g: "luaM_realloc mem 0 (l + 1 + sizeof_TString) (st_mem S) = Inr g"
    using mem by (auto simp: luaM_realloc_def ample_def)
  define ts where "ts = \<lparr>s_next = st_hash S ! b, s_prev = None, s_ref = 0, s_marked = luaC_white S,
                         s_hash = str_hash str, s_val = str\<rparr>"
  define H where "H = (set_prev (st_heap S) (st_hash S ! b) (Some a))(a \<mapsto> ts)"
  define S1 where "S1 = S\<lparr>st_heap := H, st_hash := (st_hash S)[b := Some a], st_nuse := st_nuse S + 1,
                  st_mem := g, st_count := st_count S + 1, st_bytes := st_bytes S + (l + 1 + sizeof_TString)\<rparr>"
  have a: "a \<notin> dom (st_heap S)" using fr by (simp add: a_def)
  have old: "\<exists>s'. H x = Some s' \<and> core s' = core t" if "st_heap S x = Some t" for x t
    using relinked_get [OF relinked_set_prev, of "st_heap S" x t "st_hash S ! b" "Some a"] a that by (auto simp: H_def)
  have old': "\<exists>t. st_heap S x = Some t \<and> core s' = core t" if "H x = Some s'" "x \<noteq> a" for x s'
    using that relinked_set_prev [of "st_heap S" "st_hash S ! b" "Some a"]
    unfolding relinked_def H_def by (metis (no_types, lifting) fun_upd_other map_option_eq_Some)
  have dom: "dom H = insert a (dom (st_heap S))"
    using relinked_dom [OF relinked_set_prev, of "st_heap S"] by (auto simp: H_def)
  have B: "in_buckets H ((st_hash S)[b := Some a]) (st_size S) (insert a (dom (st_heap S)))"
    unfolding H_def by (rule in_buckets_push [OF _ a b(1)]) (use s b in \<open>simp_all add: ts_def\<close>)
  have u: "unat (st_nuse S + 1) = unat (st_nuse S) + 1"
    using s room by (subst iffD1 [OF unat_add_lem]) simp_all
  have Ha: "H a = Some ts" by (simp add: H_def)
  have hs: "s_hash s' = str_hash (s_val s')" if "H x = Some s'" for x s'
    using that old' [OF that] s Ha by (cases "x = a") (auto simp: ts_def core_def)
  have val_new: "x = a" if "H x = Some s'" "s_val s' = str" for x s'
    using that(1) old' [OF that(1)] new by (cases "x = a") (auto simp: core_def that(2))
  have uniq: "x = y" if "H x = Some s'" "H y = Some t'" "s_val s' = s_val t'" for x y s' t'
  proof (cases "x = a \<or> y = a")
    case True
    then show ?thesis
      using that Ha val_new [OF that(1)] val_new [OF that(2)] by (auto simp: ts_def)
  next
    case False
    with that old' [OF that(1)] old' [OF that(2)] show ?thesis
      using s unfolding core_def by (metis prod.inject)
  qed
  have ok: "strt_ok S1"
    using s B a u room hs uniq unfolding strt_ok_def S1_def by (simp add: dom)
  have str1: "has_string S1 x t = (has_string S x t \<or> x = a \<and> t = str)" for x t
  proof (cases "x = a")
    case True
    then show ?thesis using Ha a by (auto simp: has_string_def S1_def ts_def)
  next
    case False
    then show ?thesis
      using old [of x] old' [of x] by (auto simp: has_string_def S1_def core_def)
  qed
  have R: "newlstr mem fresh str (str_hash str) S =
      (if st_nuse S1 > word_of_int (st_size S1) \<and> st_size S1 \<le> MAX_INT div 2
       then bindE (luaS_resize mem (st_size S1 * 2) S1) (\<lambda>S. Inr (a, S)) else Inr (a, S1))"
    using l g by (simp add: newlstr_def Let_def S1_def H_def ts_def flip: l_def a_def b_def)
  have "\<exists>S'. newlstr mem fresh str (str_hash str) S = Inr (a, S') \<and> strt_ok S' \<and>
      (\<forall>x t. has_string S' x t = has_string S1 x t)"
  proof (cases "st_nuse S1 > word_of_int (st_size S1) \<and> st_size S1 \<le> MAX_INT div 2")
    case True
    have n: "size_ok (st_size S1 * 2)" "st_size S1 * 2 < INT_MAX"
    proof -
      from s obtain k where k: "k \<le> 31" "st_size S = 2 ^ k" by (auto simp: size_ok_def)
      have c: "st_size S \<le> 2 ^ 30 - 2" using True by (simp add: S1_def MAX_INT_def INT_MAX_def)
      then have "k < 30" using k power_increasing [of 30 k "2 :: int"] by (cases "k < 30") auto
      then show "size_ok (st_size S1 * 2)" "st_size S1 * 2 < INT_MAX"
        using k c by (auto simp: size_ok_def S1_def INT_MAX_def intro!: exI [of _ "Suc k"])
    qed
    from resize_ok [OF ok n mem] obtain S2 where
      "luaS_resize mem (st_size S1 * 2) S1 = Inr S2" "strt_ok S2" "relinked (st_heap S1) (st_heap S2)"
      by blast
    then show ?thesis
      using True relinked_has [of S1 S2] by (simp add: R)
  next
    case False
    then show ?thesis using ok unfolding R by auto
  qed
  then show ?thesis using str1 unfolding a_def by auto
qed

text \<open>An update that leaves links, hash and content alone.\<close>

definition same_string :: "TString \<Rightarrow> TString \<Rightarrow> bool" where
  "same_string s s' = (s_next s' = s_next s \<and> s_prev s' = s_prev s \<and> s_hash s' = s_hash s \<and> s_val s' = s_val s)"

lemma dll_same_string:
  "H a = Some s \<Longrightarrow> same_string s s' \<Longrightarrow> dll (H(a \<mapsto> s')) prev p as = dll H prev p as"
  by (induction as arbitrary: prev p) (auto simp: same_string_def)

lemma strt_ok_upd:
  assumes S: "strt_ok S" and a: "st_heap S a = Some s" and same: "same_string s s'"
  defines "S' \<equiv> S\<lparr>st_heap := (st_heap S)(a \<mapsto> s')\<rparr>"
  shows "strt_ok S'" "has_string S' b t = has_string S b t"
proof -
  note sm = same [unfolded same_string_def]
  have at: "at_bucket (st_heap S') n j x = at_bucket (st_heap S) n j x" for n j x
    using a sm by (auto simp: at_bucket_def S'_def)
  have dom: "dom (st_heap S') = dom (st_heap S)" using a by (auto simp: S'_def)
  have "in_buckets (st_heap S') (st_hash S) (st_size S) (dom (st_heap S))"
    using S unfolding strt_ok_def in_buckets_def at by (simp add: S'_def dll_same_string [where H = "st_heap S", OF a same])
  moreover have g: "\<exists>s'. st_heap S x = Some s' \<and> s_hash s' = s_hash t \<and> s_val s' = s_val t" if "st_heap S' x = Some t" for x t
    using that a sm by (auto simp: S'_def split: if_splits)
  moreover have "s_hash t = str_hash (s_val t)" if "st_heap S' x = Some t" for x t
    using g [OF that] S by (auto simp: strt_ok_def)
  moreover have "x = y" if "st_heap S' x = Some t" "st_heap S' y = Some u" "s_val t = s_val u" for x y t u
  proof -
    have U: "\<forall>a b s t. st_heap S a = Some s \<longrightarrow> st_heap S b = Some t \<longrightarrow> s_val s = s_val t \<longrightarrow> a = b"
      using S by (simp add: strt_ok_def)
    note th = that
    obtain t1 u1 where tu: "st_heap S x = Some t1" "s_val t1 = s_val t" "st_heap S y = Some u1" "s_val u1 = s_val u"
      using g [OF th(1)] g [OF th(2)] by blast
    have e: "s_val t1 = s_val u1" unfolding tu(2) tu(4) by (rule th(3))
    show ?thesis by (rule U [rule_format, OF tu(1) tu(3) e])
  qed
  moreover have "st_size S' = st_size S" "st_hash S' = st_hash S" "st_nuse S' = st_nuse S"
    by (simp_all add: S'_def)
  moreover have "size_ok (st_size S)" "finite (dom (st_heap S))" "card (dom (st_heap S)) < 2 ^ 31"
    "unat (st_nuse S) = card (dom (st_heap S))"
    using S unfolding strt_ok_def by simp_all
  ultimately show "strt_ok S'"
    unfolding strt_ok_def dom by (intro conjI allI impI) simp_all
  show "has_string S' b t = has_string S b t" using a sm by (auto simp: has_string_def S'_def)
qed

lemmas strt_ok_marked = strt_ok_upd [where s' = "s\<lparr>s_marked := m\<rparr>" for s m, unfolded same_string_def, simplified]

text \<open>
  \<open>luaS_newlstr\<close> returns the one address that holds the string, keeping every other string
  and the invariant.
\<close>

lemma luaS_newlstr_ok:
  assumes S: "strt_ok S" and mem: "ample mem" and fr: "fresh_ok fresh"
    and len: "length str < 2 ^ 63" and room: "card (dom (st_heap S)) < 2 ^ 30"
  shows "\<exists>a S'. luaS_newlstr mem fresh str S = Inr (a, S') \<and> strt_ok S' \<and>
    (\<forall>b t. has_string S' b t = (has_string S b t \<or> b = a \<and> t = str))"
proof -
  obtain r where r: "find_chain (unat (st_nuse S) + 1) (st_heap S) (st_hash S ! nat (lmod (str_hash str) (st_size S))) str = Inr r"
    "case r of None \<Rightarrow> \<forall>a s. st_heap S a = Some s \<longrightarrow> s_val s \<noteq> str
     | Some a \<Rightarrow> \<exists>s. st_heap S a = Some s \<and> s_val s = str"
    using lookup_ok [OF S] by blast
  show ?thesis
  proof (cases r)
    case None
    have "card (UNIV :: addr set) = 2 ^ 64" by (simp add: card_word)
    then have "dom (st_heap S) \<noteq> UNIV" using room by auto
    then have "fresh (st_heap S) \<notin> dom (st_heap S)" using fr by (simp add: fresh_ok_def)
    from newlstr_ok [where fresh = fresh and str = str, OF S mem this _ len room] r(2) None obtain S' where
      "newlstr mem fresh str (str_hash str) S = Inr (fresh (st_heap S), S')" "strt_ok S'"
      "\<forall>a t. has_string S' a t = (has_string S a t \<or> a = fresh (st_heap S) \<and> t = str)"
      by auto
    then show ?thesis using r(1) None by (auto simp: luaS_newlstr_def Let_def)
  next
    case (Some a)
    with r(2) obtain s where s: "st_heap S a = Some s" "s_val s = str" by auto
    define S' where "S' = (if isdead S s then S\<lparr>st_heap := (st_heap S)(a \<mapsto> s\<lparr>s_marked := s_marked s XOR WHITEBITS\<rparr>)\<rparr> else S)"
    have "luaS_newlstr mem fresh str S = Inr (a, S')"
      using r(1) Some s by (simp add: luaS_newlstr_def Let_def S'_def)
    moreover have "strt_ok S'" "has_string S' b t = has_string S b t" for b t
      using strt_ok_marked [OF S s(1)] S by (simp_all add: S'_def)
    moreover have "has_string S a str" using s by (simp add: has_string_def)
    ultimately show ?thesis by auto
  qed
qed

lemma strt_ok_unique: "strt_ok S \<Longrightarrow> has_string S a t \<Longrightarrow> has_string S b t \<Longrightarrow> a = b"
  by (auto simp: strt_ok_def has_string_def)

lemma card_has: "strt_ok S \<Longrightarrow> strt_ok S' \<Longrightarrow> (\<forall>b t. has_string S' b t = (has_string S b t \<or> b = a \<and> t = str)) \<Longrightarrow>
    card (dom (st_heap S')) \<le> card (dom (st_heap S)) + 1"
proof -
  assume S: "strt_ok S" "strt_ok S'" and h: "\<forall>b t. has_string S' b t = (has_string S b t \<or> b = a \<and> t = str)"
  have fin: "finite (dom (st_heap S))" using S by (simp add: strt_ok_def)
  have "dom (st_heap S') \<subseteq> insert a (dom (st_heap S))"
    using h by (auto simp: has_string_def) blast
  then have "card (dom (st_heap S')) \<le> card (insert a (dom (st_heap S)))"
    using fin by (intro card_mono) auto
  also have "\<dots> \<le> card (dom (st_heap S)) + 1" using fin by (simp add: card_insert_if)
  finally show ?thesis .
qed

text \<open>
  C13. Strings are interned: after two strings have been made one after the other, in any
  state of the table, their addresses are equal exactly when their contents are, both
  addresses hold their strings, and every string that existed before is still where it was.
\<close>

theorem interning:
  assumes "strt_ok S" "ample mem" "fresh_ok fresh"
    and "length s < 2 ^ 63" "length t < 2 ^ 63" "card (dom (st_heap S)) < 2 ^ 30 - 1"
  shows "\<exists>a S1 b S2. luaS_newlstr mem fresh s S = Inr (a, S1) \<and> luaS_newlstr mem fresh t S1 = Inr (b, S2) \<and>
    (a = b) = (s = t) \<and> strt_ok S2 \<and> has_string S2 a s \<and> has_string S2 b t \<and>
    (\<forall>x u. has_string S x u \<longrightarrow> has_string S2 x u)"
proof -
  obtain a S1 where 1: "luaS_newlstr mem fresh s S = Inr (a, S1)" "strt_ok S1"
    "\<forall>b t. has_string S1 b t = (has_string S b t \<or> b = a \<and> t = s)"
    using luaS_newlstr_ok [OF assms(1-4)] assms(6) by auto
  have "card (dom (st_heap S1)) < 2 ^ 30" using card_has [OF assms(1) 1(2,3)] assms(6) by simp
  from luaS_newlstr_ok [OF 1(2) assms(2,3,5) this] obtain b S2 where
    2: "luaS_newlstr mem fresh t S1 = Inr (b, S2)" "strt_ok S2"
    "\<forall>x u. has_string S2 x u = (has_string S1 x u \<or> x = b \<and> u = t)"
    by auto
  have h: "has_string S2 a s" "has_string S2 b t" "has_string S1 a s" using 1(3) 2(3) by auto
  have "(a = b) = (s = t)"
    using h strt_ok_unique [OF 2(2)] by (auto simp: has_string_def)
  then show ?thesis using 1 2 h by auto
qed

definition empty_strtab :: strtab where
  "empty_strtab = \<lparr>st_heap = Map.empty, st_hash = replicate 32 None, st_nuse = 0, st_size = 32,
     st_currentwhite = 1, st_sweeping = False,
     st_mem = \<lparr>totalbytes = 0, allocbytes = 0, freebytes = 0\<rparr>, st_count = 0, st_bytes = 0\<rparr>"

lemma empty_strtab_ok: "strt_ok empty_strtab"
  using in_buckets_empty [of 32 Map.empty]
  by (auto simp: strt_ok_def empty_strtab_def size_ok_def intro: exI [of _ 5])

lemma fresh_Least: "fresh_ok (\<lambda>H. LEAST a. a \<notin> dom H)"
  unfolding fresh_ok_def by (metis (mono_tags, lifting) LeastI_ex UNIV_eq_I)

theorem interning_witness:
  "\<exists>a S1 b S2. luaS_newlstr (\<lambda>_. True) (\<lambda>H. LEAST a. a \<notin> dom H) ''end'' empty_strtab = Inr (a, S1) \<and>
     luaS_newlstr (\<lambda>_. True) (\<lambda>H. LEAST a. a \<notin> dom H) ''end'' S1 = Inr (b, S2) \<and> a = b"
  using interning [OF empty_strtab_ok _ fresh_Least, of "\<lambda>_. True" "''end''" "''end''"]
  by (fastforce simp: ample_def empty_strtab_def)

section \<open>Releasing a string\<close>

definition unlink :: "sheap \<Rightarrow> TString \<Rightarrow> addr \<Rightarrow> sheap" where
  "unlink H s b =
     (let H1 = (case s_prev s of Some q \<Rightarrow> set_next H q (s_next s) | None \<Rightarrow> H)
      in (set_prev H1 (s_next s) (s_prev s))(b := None))"

lemma dll_prev:
  "dll H prev p (as @ b # bs) \<Longrightarrow> H b = Some s \<Longrightarrow> s_prev s = (if as = [] then prev else Some (last as))"
  by (induction as arbitrary: prev p) (auto split: if_splits)

lemma dll_next: "dll H prev p (as @ b # bs) \<Longrightarrow> H b = Some s \<Longrightarrow> s_next s = (if bs = [] then None else Some (hd bs))"
  by (induction as arbitrary: prev p) (cases bs; auto)+

lemma unlink_other:
  assumes "dll H prev p (as @ b # bs)" "H b = Some s" "as = [] \<longrightarrow> prev = None" "x \<notin> set (as @ b # bs)"
  shows "unlink H s b x = H x"
proof -
  have "s_prev s \<noteq> Some x" using dll_prev [OF assms(1,2)] assms(3,4) by (cases as rule: rev_cases) auto
  moreover have "s_next s \<noteq> Some x" using dll_next [OF assms(1,2)] assms(4) by (cases bs) auto
  ultimately show ?thesis
    using assms(4) by (auto simp: unlink_def Let_def set_prev_other set_next_other split: option.split)
qed

lemma unlink_ok:
  "dll H prev p (as @ b # bs) \<Longrightarrow> distinct (as @ b # bs) \<Longrightarrow> H b = Some s \<Longrightarrow> (as = [] \<longrightarrow> prev = None) \<Longrightarrow>
     dll (unlink H s b) prev (if as = [] then s_next s else p) (as @ bs)"
proof (induction as arbitrary: prev p)
  case Nil
  then have d: "dll H (Some b) (s_next s) bs" "s_prev s = None" "prev = None" by auto
  have "dll (set_prev H (s_next s) None) None (s_next s) bs"
    using dll_set_prev [OF d(1)] Nil.prems(2) by simp
  moreover have "dll (unlink H s b) None (s_next s) bs = dll (set_prev H (s_next s) None) None (s_next s) bs"
    by (rule dll_cong) (use Nil.prems(2) d in \<open>auto simp: unlink_def\<close>)
  ultimately show ?case using d by simp
next
  case (Cons a as)
  then obtain sa where sa: "p = Some a" "H a = Some sa" "s_prev sa = prev" "dll H (Some a) (s_next sa) (as @ b # bs)"
    by auto
  have ab: "a \<noteq> b" "a \<notin> set as" "a \<notin> set bs" using Cons.prems(2) by auto
  have nx: "s_next s \<noteq> Some a" using dll_next [OF sa(4) Cons.prems(3)] ab by (cases bs) auto
  show ?case
  proof (cases "as = []")
    case True
    then have d: "dll H (Some b) (s_next s) bs" "s_prev s = Some a" using sa(4) Cons.prems(3) by auto
    have "dll (set_prev H (s_next s) (Some a)) (Some a) (s_next s) bs"
      using dll_set_prev [OF d(1)] Cons.prems(2) by simp
    moreover have "dll (unlink H s b) (Some a) (s_next s) bs = dll (set_prev H (s_next s) (Some a)) (Some a) (s_next s) bs"
      by (rule dll_cong)
        (use Cons.prems(2) d ab in \<open>auto simp: unlink_def Let_def set_prev_def set_next_def split: option.split\<close>)
    moreover have "unlink H s b a = Some (sa\<lparr>s_next := s_next s\<rparr>)"
      using d ab nx sa(2) by (simp add: unlink_def Let_def set_prev_other set_next_def)
    ultimately show ?thesis using True sa by simp
  next
    case False
    have "s_prev s \<noteq> Some a" using dll_prev [OF sa(4) Cons.prems(3)] False ab(2) by auto
    then have "unlink H s b a = H a"
      using nx ab by (auto simp: unlink_def Let_def set_prev_other set_next_other split: option.split)
    moreover have "dll (unlink H s b) (Some a) (s_next sa) (as @ bs)"
      using Cons.IH [OF sa(4)] Cons.prems(2,3) False by simp
    ultimately show ?thesis using sa by simp
  qed
qed

lemma freestring_ok:
  assumes S: "strt_ok S" and s: "st_heap S a = Some s"
  obtains S' where "luarc_freestring mem a S = Inr S'" "strt_ok S'"
    "\<And>x. map_option core (st_heap S' x) = (if x = a then None else map_option core (st_heap S x))"
    "st_currentwhite S' = st_currentwhite S"
proof -
  note I = S [unfolded strt_ok_def]
  let ?H = "st_heap S" and ?n = "st_size S"
  define b where "b = nat (lmod (s_hash s) ?n)"
  have b: "b < nat ?n" "lmod (s_hash s) ?n = int b"
    using lmod_range [of ?n "s_hash s"] I by (auto simp: b_def)
  have len: "length (st_hash S) = nat ?n" using I by (simp add: in_buckets_def)
  have bk: "\<exists>as. dll ?H None (st_hash S ! j) as \<and> distinct as \<and> set as = {x \<in> dom ?H. at_bucket ?H ?n j x}"
    if "j < nat ?n" for j
    using I that by (simp add: in_buckets_def)
  obtain xs where xs: "dll ?H None (st_hash S ! b) xs" "distinct xs" "set xs = {x \<in> dom ?H. at_bucket ?H ?n b x}"
    using bk [OF b(1)] by blast
  have "a \<in> set xs" using xs(3) s b by (auto simp: at_bucket_def)
  then obtain as bs where as: "xs = as @ a # bs" by (metis split_list)
  define H' where "H' = unlink ?H s a"
  define hs' where "hs' = (if as = [] then (st_hash S)[b := s_next s] else st_hash S)"
  have pv: "s_prev s = (if as = [] then None else Some (last as))"
    using dll_prev [OF xs(1) [unfolded as] s] .
  have other: "H' x = ?H x" if "x \<notin> set xs" for x
    unfolding H'_def by (rule unlink_other [OF xs(1) [unfolded as] s]) (use that as in auto)
  have rel: "map_option core (H' x) = (if x = a then None else map_option core (?H x))" for x
    by (auto simp: H'_def unlink_def Let_def set_prev_def set_next_def split: option.split)
  have rel': "(\<exists>t. H' x = Some t \<and> core t = c) = (x \<noteq> a \<and> (\<exists>t. ?H x = Some t \<and> core t = c))" for x c
    using rel [of x] by (cases "H' x"; cases "?H x") (auto split: if_splits)
  have dom: "dom H' = dom ?H - {a}"
    using rel by (auto simp: dom_def) (metis map_option_eq_Some not_None_eq option.simps(3))+
  have at: "at_bucket H' ?n j x = (x \<noteq> a \<and> at_bucket ?H ?n j x)" for j x
    using rel [of x] by (cases "H' x"; cases "?H x") (auto simp: at_bucket_def core_def split: if_splits)
  have "\<exists>ys. dll H' None (hs' ! j) ys \<and> distinct ys \<and> set ys = {x \<in> dom H'. at_bucket H' ?n j x}"
    if j: "j < nat ?n" for j
  proof (cases "j = b")
    case True
    have "dll H' None (if as = [] then s_next s else st_hash S ! b) (as @ bs)"
      unfolding H'_def using unlink_ok [OF xs(1) [unfolded as] _ s] xs(2) as by simp
    moreover have "set (as @ bs) = {x \<in> dom H'. at_bucket H' ?n b x}"
      using xs(2,3) by (auto simp: as dom at)
    ultimately show ?thesis
      using xs(2) as True b(1) len by (intro exI [of _ "as @ bs"]) (auto simp: hs'_def)
  next
    case False
    from bk [OF j] obtain ys where ys: "dll ?H None (st_hash S ! j) ys" "distinct ys"
      "set ys = {x \<in> dom ?H. at_bucket ?H ?n j x}" by blast
    have dis: "x \<notin> set xs" if "x \<in> set ys" for x
      using that ys(3) xs(3) False by (auto simp: at_bucket_def)
    then have "dll H' None (st_hash S ! j) ys"
      using ys(1) other by (subst dll_cong) auto
    moreover have "set ys = {x \<in> dom H'. at_bucket H' ?n j x}"
      using ys(3) dis as by (auto simp: dom at)
    ultimately show ?thesis
      using ys(2) False by (intro exI [of _ ys]) (simp add: hs'_def)
  qed
  then have B: "in_buckets H' hs' ?n (dom H')" using len by (simp add: in_buckets_def hs'_def)
  obtain g where g: "luaM_realloc mem (sizeof_TString + (of_nat (length (s_val s)) + 1)) 0 (st_mem S) = Inr g"
    by (simp add: luaM_realloc_def)
  define S' where "S' = S\<lparr>st_heap := H', st_hash := hs', st_nuse := st_nuse S - 1, st_mem := g\<rparr>"
  have r: "luarc_freestring mem a S = Inr S'"
    using s g pv
    by (auto simp: luarc_freestring_def Let_def H'_def unlink_def hs'_def S'_def b_def split: option.split)
  have fin: "finite (dom ?H)" "a \<in> dom ?H" using I s by auto
  have card: "card (dom H') = card (dom ?H) - 1" "0 < card (dom ?H)"
    using fin by (auto simp: dom card_gt_0_iff)
  have "1 \<le> st_nuse S" using card(2) I by (simp add: word_le_nat_alt)
  then have u: "unat (st_nuse S - 1) = card (dom H')" using card I by (simp add: unat_sub)
  have up: "\<exists>t'. ?H x = Some t' \<and> core t' = core t" if "H' x = Some t" for x t
    using rel' [of x "core t"] that by auto
  have hash: "s_hash t = str_hash (s_val t)" if "H' x = Some t" for x t
    using up [OF that] I by (auto simp: core_def)
  have uniq: "x = y" if "H' x = Some t" "H' y = Some u" "s_val t = s_val u" for x y t u
  proof -
    note th = that
    obtain t1 u1 where "?H x = Some t1" "core t1 = core t" "?H y = Some u1" "core u1 = core u"
      using up [OF th(1)] up [OF th(2)] by blast
    then show ?thesis using I that(3) by (simp add: core_def)
  qed
  have "card (dom H') < 2 ^ 31" using I card by linarith
  then have ok: "strt_ok S'"
    using I B u hash uniq fin unfolding strt_ok_def S'_def by (simp add: dom)
  show thesis by (rule that [OF r ok]) (simp_all add: S'_def rel)
qed

text \<open>
  C14. Releasing a string takes exactly that string out of the table: its content is gone,
  every other string is still found at its address, the links and the count stay consistent.
\<close>

theorem freestring_removes:
  assumes S: "strt_ok S" and a: "has_string S a str"
  shows "\<exists>S'. luarc_freestring mem a S = Inr S' \<and> strt_ok S' \<and>
    (\<forall>b t. has_string S' b t = (has_string S b t \<and> b \<noteq> a)) \<and> (\<forall>b. \<not> has_string S' b str)"
proof -
  obtain s where s: "st_heap S a = Some s" "s_val s = str" using a by (auto simp: has_string_def)
  from freestring_ok [OF S s(1), of mem] obtain S' where S': "luarc_freestring mem a S = Inr S'" "strt_ok S'"
    "\<And>x. map_option core (st_heap S' x) = (if x = a then None else map_option core (st_heap S x))" by metis
  have has: "has_string S' x t = (has_string S x t \<and> x \<noteq> a)" for x t
    using S'(3) [of x] by (cases "st_heap S' x"; cases "st_heap S x") (auto simp: has_string_def core_def split: if_splits)
  then have "\<not> has_string S' x str" for x using strt_ok_unique [OF S _ a] by blast
  then show ?thesis using S'(1,2) has by blast
qed

theorem freestring_removes_witness:
  "\<exists>a S1 S2. luaS_newlstr (\<lambda>_. True) (\<lambda>H. LEAST a. a \<notin> dom H) ''end'' empty_strtab = Inr (a, S1) \<and>
     luarc_freestring (\<lambda>_. True) a S1 = Inr S2 \<and> \<not> has_string S2 a ''end''"
proof -
  have "ample (\<lambda>_. True)" "length ''end'' < 2 ^ 63" "card (dom (st_heap empty_strtab)) < 2 ^ 30"
    by (simp_all add: ample_def empty_strtab_def)
  from luaS_newlstr_ok [OF empty_strtab_ok this(1) fresh_Least this(2,3)] obtain a S1 where
    1: "luaS_newlstr (\<lambda>_. True) (\<lambda>H. LEAST a. a \<notin> dom H) ''end'' empty_strtab = Inr (a, S1)" "strt_ok S1"
      "has_string S1 a ''end''" by auto
  from freestring_removes [OF 1(2,3), of "\<lambda>_. True"] 1 show ?thesis by blast
qed

end
