(* ===== verification/Lua_StrMatch.thy ===== *)
theory Lua_StrMatch
  imports Lua_Prelude
begin

text \<open>
  The pattern matcher of \<^verbatim>\<open>lstrlib.c\<close>: character classes, single items, balanced strings,
  captures, and the backtracking \<open>match\<close>.

  A pointer into the subject or the pattern is a position; position \<open>length\<close> holds the
  terminating NUL and reading beyond it is \<open>UB\<close>.  The match state is threaded through
  every call, since a failed attempt leaves its traces in the captures above \<open>level\<close>.  The
  second half proves that \<open>match\<close> stays inside both strings and agrees with the
  declarative relation \<open>matches\<close>.
\<close>

definition LUA_MAXCAPTURES :: nat where "LUA_MAXCAPTURES = 32"
definition CAP_UNFINISHED :: int where "CAP_UNFINISHED = - 1"
definition CAP_POSITION :: int where "CAP_POSITION = - 2"
definition L_ESC :: char where "L_ESC = CHR ''%''"

record MatchState =
  level :: nat
  cap_init :: "nat list"
  cap_len :: "int list"

definition lua_error :: "string \<Rightarrow> lua_err + 'a" where
  "lua_error msg = Inl (LUA_ERRRUN msg)"

section \<open>Classes\<close>

text \<open>The loop of \<open>classend\<close> behind a \<open>[\<close>, with the test at its end.\<close>

function classend_set :: "string \<Rightarrow> nat \<Rightarrow> lua_err + nat" where
  "classend_set pat p =
     (if p > length pat then Inl (UB ''pattern'')
      else if cstr_at pat p = CHR 0x00 then lua_error ''malformed pattern (missing ']')''
      else let p' = (if cstr_at pat p = L_ESC \<and> cstr_at pat (p + 1) \<noteq> CHR 0x00 then p + 2 else p + 1)
           in if cstr_at pat p' \<noteq> CHR '']'' then classend_set pat p' else Inr (p' + 1))"
  by pat_completeness auto
termination by (relation "measure (\<lambda>(pat, p). Suc (length pat) - p)") auto

declare classend_set.simps [simp del]

definition classend :: "string \<Rightarrow> nat \<Rightarrow> lua_err + nat" where
  "classend pat p =
     (if p > length pat then Inl (UB ''pattern'')
      else if cstr_at pat p = L_ESC then
        if cstr_at pat (p + 1) = CHR 0x00 then lua_error ''malformed pattern (ends with '%')''
        else Inr (p + 2)
      else if cstr_at pat p = CHR ''['' then
        classend_set pat (if cstr_at pat (p + 1) = CHR ''^'' then p + 2 else p + 1)
      else Inr (p + 1))"

definition match_class :: "int \<Rightarrow> int \<Rightarrow> bool" where
  "match_class c cl =
     (let res = (\<lambda>b. if islower cl then b else \<not> b); l = tolower cl in
      if l = 97 then res (isalpha c)
      else if l = 99 then res (iscntrl c)
      else if l = 100 then res (isdigit c)
      else if l = 108 then res (islower c)
      else if l = 112 then res (ispunct c)
      else if l = 115 then res (isspace c)
      else if l = 117 then res (isupper c)
      else if l = 119 then res (isalnum c)
      else if l = 120 then res (isxdigit c)
      else if l = 122 then res (c = 0)
      else cl = c)"

text \<open>The loop of \<open>matchbracketclass\<close>: \<open>p\<close> is the value before the \<open>++p\<close> of its test.\<close>

function bracket_loop :: "int \<Rightarrow> string \<Rightarrow> nat \<Rightarrow> nat \<Rightarrow> bool \<Rightarrow> bool" where
  "bracket_loop c pat p ec sig =
     (let p = p + 1 in
      if \<not> p < ec then \<not> sig
      else if cstr_at pat p = L_ESC then
        if match_class c (uchar (cstr_at pat (p + 1))) then sig else bracket_loop c pat (p + 1) ec sig
      else if cstr_at pat (p + 1) = CHR ''-'' \<and> p + 2 < ec then
        if uchar (cstr_at pat p) \<le> c \<and> c \<le> uchar (cstr_at pat (p + 2)) then sig
        else bracket_loop c pat (p + 2) ec sig
      else if uchar (cstr_at pat p) = c then sig
      else bracket_loop c pat p ec sig)"
  by pat_completeness auto
termination by (relation "measure (\<lambda>(c, pat, p, ec, sig). ec - p)") auto

declare bracket_loop.simps [simp del]

definition matchbracketclass :: "int \<Rightarrow> string \<Rightarrow> nat \<Rightarrow> nat \<Rightarrow> bool" where
  "matchbracketclass c pat p ec =
     (if cstr_at pat (p + 1) = CHR ''^'' then bracket_loop c pat (p + 1) ec False
      else bracket_loop c pat p ec True)"

definition singlematch :: "int \<Rightarrow> string \<Rightarrow> nat \<Rightarrow> nat \<Rightarrow> bool" where
  "singlematch c pat p ep =
     (if cstr_at pat p = CHR ''.'' then True
      else if cstr_at pat p = L_ESC then match_class c (uchar (cstr_at pat (p + 1)))
      else if cstr_at pat p = CHR ''['' then matchbracketclass c pat p (ep - 1)
      else uchar (cstr_at pat p) = c)"

section \<open>Balanced strings\<close>

function balance_loop :: "string \<Rightarrow> nat \<Rightarrow> char \<Rightarrow> char \<Rightarrow> nat \<Rightarrow> nat option" where
  "balance_loop src s b e cont =
     (if \<not> s + 1 < length src then None
      else let s = s + 1 in
        if cstr_at src s = e then
          if cont - 1 = 0 then Some (s + 1) else balance_loop src s b e (cont - 1)
        else if cstr_at src s = b then balance_loop src s b e (cont + 1)
        else balance_loop src s b e cont)"
  by pat_completeness auto
termination by (relation "measure (\<lambda>(src, s, b, e, cont). length src - s)") auto

declare balance_loop.simps [simp del]

definition matchbalance :: "string \<Rightarrow> string \<Rightarrow> nat \<Rightarrow> nat \<Rightarrow> lua_err + nat option" where
  "matchbalance src pat s p =
     (if p > length pat then Inl (UB ''pattern'')
      else if cstr_at pat p = CHR 0x00 \<or> cstr_at pat (p + 1) = CHR 0x00 then lua_error ''unbalanced pattern''
      else if cstr_at src s \<noteq> cstr_at pat p then Inr None
      else Inr (balance_loop src s (cstr_at pat p) (cstr_at pat (p + 1)) 1))"

section \<open>Captures\<close>

definition check_capture :: "MatchState \<Rightarrow> int \<Rightarrow> lua_err + nat" where
  "check_capture ms l =
     (let l = l - 49 in
      if l < 0 \<or> l \<ge> int (level ms) \<or> cap_len ms ! nat l = CAP_UNFINISHED
      then lua_error ''invalid capture index'' else Inr (nat l))"

fun close_from :: "int list \<Rightarrow> nat \<Rightarrow> lua_err + nat" where
  "close_from lens 0 = lua_error ''invalid pattern capture''"
| "close_from lens (Suc l) = (if lens ! l = CAP_UNFINISHED then Inr l else close_from lens l)"

definition capture_to_close :: "MatchState \<Rightarrow> lua_err + nat" where
  "capture_to_close ms = close_from (cap_len ms) (level ms)"

text \<open>
  \<open>match_capture\<close> compares in \<open>size_t\<close>, so that the length \<open>CAP_POSITION\<close> is larger than
  any subject.
\<close>

definition match_capture :: "string \<Rightarrow> MatchState \<Rightarrow> nat \<Rightarrow> int \<Rightarrow> lua_err + nat option" where
  "match_capture src ms s l =
     bindE (check_capture ms l) (\<lambda>l.
       let len = cap_len ms ! l mod 2 ^ 64 in
       if int (length src) - int s \<ge> len \<and>
          take (nat len) (drop (cap_init ms ! l) src) = take (nat len) (drop s src)
       then Inr (Some (s + nat len)) else Inr None)"

section \<open>Repetition\<close>

text \<open>How often the item matches from \<open>s\<close> on: the counting loop of \<open>max_expand\<close>.\<close>

function expand_count :: "string \<Rightarrow> string \<Rightarrow> nat \<Rightarrow> nat \<Rightarrow> nat \<Rightarrow> nat" where
  "expand_count src pat s p ep =
     (if s < length src \<and> singlematch (uchar (cstr_at src s)) pat p ep
      then Suc (expand_count src pat (s + 1) p ep) else 0)"
  by pat_completeness auto
termination by (relation "measure (\<lambda>(src, pat, s, p, ep). length src - s)") auto

declare expand_count.simps [simp del]

lemma classend_set_progress: "classend_set pat p = Inr ep \<Longrightarrow> p + 1 < ep \<and> ep \<le> length pat"
proof (induction pat p arbitrary: ep rule: classend_set.induct)
  case (1 pat p)
  define p' where "p' = (if cstr_at pat p = L_ESC \<and> cstr_at pat (p + 1) \<noteq> CHR 0x00 then p + 2 else p + 1)"
  have p: "\<not> p > length pat" "cstr_at pat p \<noteq> CHR 0x00"
    using 1(2) by (auto simp: classend_set.simps [of pat p] lua_error_def split: if_splits)
  have s: "classend_set pat p = (if cstr_at pat p' \<noteq> CHR '']'' then classend_set pat p' else Inr (p' + 1))"
    using p by (simp add: classend_set.simps [of pat p] p'_def Let_def)
  show ?case
  proof (cases "cstr_at pat p' = CHR '']''")
    case True
    then have "p' < length pat" using cstr_at_nonzero [of pat p'] by simp
    moreover have "p < p'" by (simp add: p'_def)
    ultimately show ?thesis using s True 1(2) by auto
  next
    case False
    then have "classend_set pat p' = Inr ep" using s 1(2) by simp
    from 1(1) [OF p p'_def False this] show ?thesis by (simp add: p'_def split: if_splits)
  qed
qed

lemma classend_progress:
  "classend pat p = Inr ep \<Longrightarrow> cstr_at pat p \<noteq> CHR 0x00 \<Longrightarrow> p < ep \<and> ep \<le> length pat"
  by (auto simp: classend_def lua_error_def dest: classend_set_progress cstr_at_nonzero split: if_splits)

lemma classend_set_no_UB: "p \<le> length pat \<Longrightarrow> classend_set pat p \<noteq> Inl (UB u)"
proof (induction pat p rule: classend_set.induct)
  case (1 pat p)
  define p' where "p' = (if cstr_at pat p = L_ESC \<and> cstr_at pat (p + 1) \<noteq> CHR 0x00 then p + 2 else p + 1)"
  show ?case
  proof (cases "cstr_at pat p = CHR 0x00")
    case True
    then show ?thesis using 1(2) by (subst classend_set.simps) (simp add: lua_error_def)
  next
    case False
    then have l: "p < length pat" by (rule cstr_at_nonzero)
    have "p' \<le> length pat"
      using l cstr_at_nonzero [of pat "p + 1"] by (auto simp: p'_def)
    moreover have "classend_set pat p = (if cstr_at pat p' \<noteq> CHR '']'' then classend_set pat p' else Inr (p' + 1))"
      using l False by (simp add: classend_set.simps [of pat p] p'_def Let_def)
    ultimately show ?thesis using 1(1) [OF _ False p'_def] l by auto
  qed
qed

lemma classend_no_UB: "p \<le> length pat \<Longrightarrow> classend pat p \<noteq> Inl (UB u)"
proof -
  assume p: "p \<le> length pat"
  have "(if cstr_at pat (p + 1) = CHR ''^'' then p + 2 else p + 1) \<le> length pat" if "cstr_at pat p = CHR ''[''"
    using cstr_at_nonzero [of pat p] cstr_at_nonzero [of pat "p + 1"] that by auto
  then show ?thesis
    using p classend_set_no_UB by (auto simp: classend_def lua_error_def)
qed

section \<open>The matcher\<close>

definition guard_item :: "string \<Rightarrow> string \<Rightarrow> nat \<Rightarrow> nat \<Rightarrow> nat \<Rightarrow> bool" where
  "guard_item src pat s p ep = (s < length src \<and> singlematch (uchar (cstr_at src s)) pat p ep)"

text \<open>What a failed attempt undoes.\<close>

definition undo_start :: "MatchState \<Rightarrow> MatchState" where
  "undo_start ms = ms\<lparr>level := level ms - 1\<rparr>"

definition undo_end :: "nat \<Rightarrow> MatchState \<Rightarrow> MatchState" where
  "undo_end l ms = ms\<lparr>cap_len := (cap_len ms)[l := CAP_UNFINISHED]\<rparr>"

type_synonym match_result = "lua_err + (nat option \<times> MatchState)"

definition or_undo :: "match_result \<Rightarrow> (MatchState \<Rightarrow> MatchState) \<Rightarrow> match_result" where
  "or_undo r f = bindE r (\<lambda>(res, ms). Inr (res, if res = None then f ms else ms))"

definition or_else :: "match_result \<Rightarrow> (MatchState \<Rightarrow> match_result) \<Rightarrow> match_result" where
  "or_else r f = bindE r (\<lambda>r. if fst r = None then f (snd r) else Inr r)"

lemma or_else_cong [fundef_cong]:
  "r = r' \<Longrightarrow> (\<And>ms. r' = Inr (None, ms) \<Longrightarrow> f ms = g ms) \<Longrightarrow> or_else r f = or_else r' g"
  by (auto simp: or_else_def bindE_def split: sum.splits)

definition push_capture :: "MatchState \<Rightarrow> nat \<Rightarrow> int \<Rightarrow> MatchState" where
  "push_capture ms s what = ms\<lparr>cap_init := (cap_init ms)[level ms := s], cap_len := (cap_len ms)[level ms := what],
     level := level ms + 1\<rparr>"

definition close_capture :: "MatchState \<Rightarrow> nat \<Rightarrow> nat \<Rightarrow> MatchState" where
  "close_capture ms l s = ms\<lparr>cap_len := (cap_len ms)[l := int s - int (cap_init ms ! l)]\<rparr>"

function match :: "string \<Rightarrow> string \<Rightarrow> MatchState \<Rightarrow> nat \<Rightarrow> nat \<Rightarrow> match_result"
  and start_capture :: "string \<Rightarrow> string \<Rightarrow> MatchState \<Rightarrow> nat \<Rightarrow> nat \<Rightarrow> int \<Rightarrow> match_result"
  and end_capture :: "string \<Rightarrow> string \<Rightarrow> MatchState \<Rightarrow> nat \<Rightarrow> nat \<Rightarrow> match_result"
  and dflt :: "string \<Rightarrow> string \<Rightarrow> MatchState \<Rightarrow> nat \<Rightarrow> nat \<Rightarrow> match_result"
  and max_try :: "string \<Rightarrow> string \<Rightarrow> MatchState \<Rightarrow> nat \<Rightarrow> nat \<Rightarrow> nat \<Rightarrow> match_result"
  and min_expand :: "string \<Rightarrow> string \<Rightarrow> MatchState \<Rightarrow> nat \<Rightarrow> nat \<Rightarrow> nat \<Rightarrow> match_result"
where
  "match src pat ms s p =
     (if p > length pat \<or> s > length src then Inl (UB ''match'')
      else let c = cstr_at pat p; d = cstr_at pat (p + 1) in
      if c = CHR ''('' then
        if d = CHR '')'' then start_capture src pat ms s (p + 2) CAP_POSITION
        else start_capture src pat ms s (p + 1) CAP_UNFINISHED
      else if c = CHR '')'' then end_capture src pat ms s (p + 1)
      else if c = L_ESC \<and> d = CHR ''b'' then
        bindE (matchbalance src pat s (p + 2)) (\<lambda>r.
          case r of None \<Rightarrow> Inr (None, ms) | Some s' \<Rightarrow> match src pat ms s' (p + 4))
      else if c = L_ESC \<and> d = CHR ''f'' then
        if cstr_at pat (p + 2) \<noteq> CHR ''['' then lua_error ''missing '[' after '%f' in pattern''
        else bindE (classend pat (p + 2)) (\<lambda>ep.
          let previous = (if s = 0 then CHR 0x00 else cstr_at src (s - 1)) in
          if matchbracketclass (uchar previous) pat (p + 2) (ep - 1) \<or>
             \<not> matchbracketclass (uchar (cstr_at src s)) pat (p + 2) (ep - 1)
          then Inr (None, ms) else if p < ep then match src pat ms s ep else Inl (UB ''classend''))
      else if c = L_ESC \<and> isdigit (uchar d) then
        bindE (match_capture src ms s (uchar d)) (\<lambda>r.
          case r of None \<Rightarrow> Inr (None, ms) | Some s' \<Rightarrow> match src pat ms s' (p + 2))
      else if c = CHR 0x00 then Inr (Some s, ms)
      else if c = CHR ''$'' \<and> d = CHR 0x00 then Inr (if s = length src then Some s else None, ms)
      else dflt src pat ms s p)"
| "start_capture src pat ms s p what =
     (if level ms \<ge> LUA_MAXCAPTURES then lua_error ''too many captures''
      else or_undo (match src pat (push_capture ms s what) s p) undo_start)"
| "end_capture src pat ms s p =
     bindE (capture_to_close ms) (\<lambda>l. or_undo (match src pat (close_capture ms l s) s p) (undo_end l))"
| "dflt src pat ms s p =
     bindE (classend pat p) (\<lambda>ep.
       if \<not> (p < ep \<and> p < length pat) then Inl (UB ''classend'')
       else let m = guard_item src pat s p ep; e = cstr_at pat ep in
       if e = CHR ''?'' then
         or_else (if m then match src pat ms (s + 1) (ep + 1) else Inr (None, ms))
           (\<lambda>ms. match src pat ms s (ep + 1))
       else if e = CHR ''*'' then max_try src pat ms s ep (expand_count src pat s p ep)
       else if e = CHR ''+'' then
         (if m then max_try src pat ms (s + 1) ep (expand_count src pat (s + 1) p ep) else Inr (None, ms))
       else if e = CHR ''-'' then min_expand src pat ms s p ep
       else if \<not> m then Inr (None, ms)
       else match src pat ms (s + 1) ep)"
| "max_try src pat ms s ep i =
     (if ep \<ge> length pat then Inl (UB ''max_expand'')
      else or_else (match src pat ms (s + i) (ep + 1))
        (\<lambda>ms. if i = 0 then Inr (None, ms) else max_try src pat ms s ep (i - 1)))"
| "min_expand src pat ms s p ep =
     (if ep \<ge> length pat then Inl (UB ''min_expand'')
      else or_else (match src pat ms s (ep + 1))
        (\<lambda>ms. if guard_item src pat s p ep then min_expand src pat ms (s + 1) p ep else Inr (None, ms)))"
  by pat_completeness auto
termination
proof (relation "measures [\<lambda>x. case x of
      Inl (Inl (src, pat, ms, s, p)) \<Rightarrow> 2 * (Suc (Suc (length pat)) - p) + 1
    | Inl (Inr (Inl (src, pat, ms, s, p, what))) \<Rightarrow> 2 * (Suc (Suc (length pat)) - p) + 2
    | Inl (Inr (Inr (src, pat, ms, s, p))) \<Rightarrow> 2 * (Suc (Suc (length pat)) - p) + 2
    | Inr (Inl (src, pat, ms, s, p)) \<Rightarrow> 2 * (Suc (Suc (length pat)) - p)
    | Inr (Inr (Inl (src, pat, ms, s, ep, i))) \<Rightarrow> 2 * (Suc (Suc (length pat)) - ep)
    | Inr (Inr (Inr (src, pat, ms, s, p, ep))) \<Rightarrow> 2 * (Suc (Suc (length pat)) - ep),
    \<lambda>x. case x of
      Inl (Inl (src, pat, ms, s, p)) \<Rightarrow> 0
    | Inl (Inr (Inl (src, pat, ms, s, p, what))) \<Rightarrow> 0
    | Inl (Inr (Inr (src, pat, ms, s, p))) \<Rightarrow> 0
    | Inr (Inl (src, pat, ms, s, p)) \<Rightarrow> 0
    | Inr (Inr (Inl (src, pat, ms, s, ep, i))) \<Rightarrow> i
    | Inr (Inr (Inr (src, pat, ms, s, p, ep))) \<Rightarrow> length src - s]", goal_cases)
qed (auto simp: guard_item_def dest!: cstr_at_nonzero)

declare match.simps [simp del] start_capture.simps [simp del] end_capture.simps [simp del]
  dflt.simps [simp del] max_try.simps [simp del] min_expand.simps [simp del]

section \<open>What a pattern means\<close>

text \<open>
  \<open>matches cs s p e cs'\<close>: with the captures \<open>cs\<close>, the pattern from \<open>p\<close> on can match the
  subject from \<open>s\<close> to \<open>e\<close>, ending with the captures \<open>cs'\<close>.  A single item with its suffix
  consumes \<open>k\<close> characters and goes on at \<open>q\<close>: \<open>item_step\<close>.
\<close>

definition item_step :: "string \<Rightarrow> string \<Rightarrow> nat \<Rightarrow> nat \<Rightarrow> nat \<Rightarrow> nat \<Rightarrow> bool" where
  "item_step src pat s p k q =
     (\<exists>ep. classend pat p = Inr ep \<and> (\<forall>j<k. guard_item src pat (s + j) p ep) \<and>
       (if cstr_at pat ep = CHR ''?'' then k \<le> 1 \<and> q = ep + 1
        else if cstr_at pat ep = CHR ''*'' \<or> cstr_at pat ep = CHR ''-'' then q = ep + 1
        else if cstr_at pat ep = CHR ''+'' then 1 \<le> k \<and> q = ep + 1
        else k = 1 \<and> q = ep))"

definition is_item :: "string \<Rightarrow> nat \<Rightarrow> bool" where
  "is_item pat p =
     (let c = cstr_at pat p; d = cstr_at pat (p + 1)
      in c \<noteq> CHR ''('' \<and> c \<noteq> CHR '')'' \<and> c \<noteq> CHR 0x00 \<and> \<not> (c = CHR ''$'' \<and> d = CHR 0x00) \<and>
         \<not> (c = L_ESC \<and> (d = CHR ''b'' \<or> d = CHR ''f'' \<or> isdigit (uchar d))))"

type_synonym caps = "(nat \<times> int) list"

text \<open>The innermost open capture, and the length of a finished one.\<close>

definition open_cap :: "caps \<Rightarrow> nat \<Rightarrow> bool" where
  "open_cap cs l = (l < length cs \<and> snd (cs ! l) = CAP_UNFINISHED \<and>
     (\<forall>j. l < j \<and> j < length cs \<longrightarrow> snd (cs ! j) \<noteq> CAP_UNFINISHED))"

definition frontier :: "string \<Rightarrow> string \<Rightarrow> nat \<Rightarrow> nat \<Rightarrow> nat \<Rightarrow> bool" where
  "frontier src pat s p ep =
     (\<not> matchbracketclass (uchar (if s = 0 then CHR 0x00 else cstr_at src (s - 1))) pat p (ep - 1) \<and>
      matchbracketclass (uchar (cstr_at src s)) pat p (ep - 1))"

definition backref :: "string \<Rightarrow> caps \<Rightarrow> nat \<Rightarrow> int \<Rightarrow> nat \<Rightarrow> bool" where
  "backref src cs s l s' =
     (\<exists>i n. int i = l - 49 \<and> i < length cs \<and> snd (cs ! i) = int n \<and> s' = s + n \<and> s' \<le> length src \<and>
       take n (drop (fst (cs ! i)) src) = take n (drop s src))"

inductive matches :: "string \<Rightarrow> string \<Rightarrow> caps \<Rightarrow> nat \<Rightarrow> nat \<Rightarrow> nat \<Rightarrow> caps \<Rightarrow> bool" for src pat where
  m_end: "cstr_at pat p = CHR 0x00 \<Longrightarrow> matches src pat cs s p s cs"
| m_dollar: "cstr_at pat p = CHR ''$'' \<Longrightarrow> cstr_at pat (p + 1) = CHR 0x00 \<Longrightarrow> s = length src \<Longrightarrow>
    matches src pat cs s p s cs"
| m_position: "cstr_at pat p = CHR ''('' \<Longrightarrow> cstr_at pat (p + 1) = CHR '')'' \<Longrightarrow>
    matches src pat (cs @ [(s, CAP_POSITION)]) s (p + 2) e cs' \<Longrightarrow> matches src pat cs s p e cs'"
| m_open: "cstr_at pat p = CHR ''('' \<Longrightarrow> cstr_at pat (p + 1) \<noteq> CHR '')'' \<Longrightarrow>
    matches src pat (cs @ [(s, CAP_UNFINISHED)]) s (p + 1) e cs' \<Longrightarrow> matches src pat cs s p e cs'"
| m_close: "cstr_at pat p = CHR '')'' \<Longrightarrow> open_cap cs l \<Longrightarrow>
    matches src pat (cs[l := (fst (cs ! l), int s - int (fst (cs ! l)))]) s (p + 1) e cs' \<Longrightarrow>
    matches src pat cs s p e cs'"
| m_balance: "cstr_at pat p = L_ESC \<Longrightarrow> cstr_at pat (p + 1) = CHR ''b'' \<Longrightarrow>
    matchbalance src pat s (p + 2) = Inr (Some s') \<Longrightarrow> matches src pat cs s' (p + 4) e cs' \<Longrightarrow>
    matches src pat cs s p e cs'"
| m_frontier: "cstr_at pat p = L_ESC \<Longrightarrow> cstr_at pat (p + 1) = CHR ''f'' \<Longrightarrow> cstr_at pat (p + 2) = CHR ''['' \<Longrightarrow>
    classend pat (p + 2) = Inr ep \<Longrightarrow> frontier src pat s (p + 2) ep \<Longrightarrow> matches src pat cs s ep e cs' \<Longrightarrow>
    matches src pat cs s p e cs'"
| m_backref: "cstr_at pat p = L_ESC \<Longrightarrow> isdigit (uchar (cstr_at pat (p + 1))) \<Longrightarrow>
    backref src cs s (uchar (cstr_at pat (p + 1))) s' \<Longrightarrow> matches src pat cs s' (p + 2) e cs' \<Longrightarrow>
    matches src pat cs s p e cs'"
| m_item: "is_item pat p \<Longrightarrow> item_step src pat s p k q \<Longrightarrow> matches src pat cs (s + k) q e cs' \<Longrightarrow>
    matches src pat cs s p e cs'"

inductive_simps matches_at: "matches src pat cs s p e cs'"

section \<open>The matcher computes the meaning\<close>

definition caps_of :: "MatchState \<Rightarrow> caps" where
  "caps_of ms = zip (take (level ms) (cap_init ms)) (take (level ms) (cap_len ms))"

definition cap_ok :: "nat \<Rightarrow> nat \<times> int \<Rightarrow> bool" where
  "cap_ok s c = (fst c \<le> s \<and> (snd c = CAP_UNFINISHED \<or> snd c = CAP_POSITION \<or> 0 \<le> snd c \<and> int (fst c) + snd c \<le> int s))"

definition ms_ok :: "nat \<Rightarrow> MatchState \<Rightarrow> bool" where
  "ms_ok s ms = (level ms \<le> LUA_MAXCAPTURES \<and> length (cap_init ms) = LUA_MAXCAPTURES \<and>
     length (cap_len ms) = LUA_MAXCAPTURES \<and> (\<forall>c \<in> set (caps_of ms). cap_ok s c))"

definition same_caps :: "MatchState \<Rightarrow> MatchState \<Rightarrow> bool" where
  "same_caps ms ms' = (level ms' = level ms \<and> caps_of ms' = caps_of ms \<and>
     length (cap_init ms') = LUA_MAXCAPTURES \<and> length (cap_len ms') = LUA_MAXCAPTURES)"

text \<open>The verdict on a result: no \<open>UB\<close>, an unchanged state on failure, a match that is one.\<close>

definition good :: "string \<Rightarrow> nat \<Rightarrow> MatchState \<Rightarrow> match_result \<Rightarrow> (nat \<Rightarrow> caps \<Rightarrow> bool) \<Rightarrow> bool" where
  "good src s ms r P =
     (case r of
        Inl e \<Rightarrow> (\<forall>u. e \<noteq> UB u)
      | Inr (None, ms') \<Rightarrow> same_caps ms ms' \<and> (\<forall>e cs. \<not> P e cs)
      | Inr (Some e, ms') \<Rightarrow> s \<le> e \<and> e \<le> length src \<and> ms_ok e ms' \<and> P e (caps_of ms'))"

lemma length_caps_of: "ms_ok s ms \<Longrightarrow> length (caps_of ms) = level ms"
  by (simp add: caps_of_def ms_ok_def)

lemma caps_of_nth: "ms_ok s ms \<Longrightarrow> i < level ms \<Longrightarrow> caps_of ms ! i = (cap_init ms ! i, cap_len ms ! i)"
  by (simp add: caps_of_def ms_ok_def)

lemma ms_ok_mono: "ms_ok s ms \<Longrightarrow> s \<le> t \<Longrightarrow> ms_ok t ms"
  by (fastforce simp: ms_ok_def cap_ok_def)

lemma same_caps_refl: "ms_ok s ms \<Longrightarrow> same_caps ms ms"
  by (simp add: same_caps_def ms_ok_def)

lemma same_caps_ok: "same_caps ms ms' \<Longrightarrow> ms_ok s ms \<Longrightarrow> ms_ok s ms'"
  by (simp add: same_caps_def ms_ok_def)

lemma same_caps_trans: "same_caps ms ms' \<Longrightarrow> same_caps ms' ms'' \<Longrightarrow> same_caps ms ms''"
  by (simp add: same_caps_def)

lemma same_caps_of: "same_caps ms ms' \<Longrightarrow> caps_of ms' = caps_of ms"
  by (simp add: same_caps_def)

lemma good_mono: "good src s ms r P \<Longrightarrow> t \<le> s \<Longrightarrow> good src t ms r P"
  by (auto simp: good_def split: sum.splits option.splits)

lemma good_cong: "good src s ms r P \<Longrightarrow> (\<And>e cs. P e cs = Q e cs) \<Longrightarrow> good src s ms r Q"
proof -
  assume "good src s ms r P" "\<And>e cs. P e cs = Q e cs"
  moreover from this(2) have "P = Q" by (intro ext)
  ultimately show ?thesis by simp
qed

lemma good_error: "good src s ms (lua_error msg) P"
  by (simp add: good_def lua_error_def)

lemma good_fail: "ms_ok s' ms \<Longrightarrow> (\<And>e cs. \<not> P e cs) \<Longrightarrow> good src s ms (Inr (None, ms)) P"
  by (simp add: good_def same_caps_refl)

lemma good_or_else:
  assumes "good src s ms r P" "ms_ok t ms"
    and "\<And>ms'. same_caps ms ms' \<Longrightarrow> ms_ok t ms' \<Longrightarrow> good src s ms' (f ms') Q"
  shows "good src s ms (or_else r f) (\<lambda>e cs. P e cs \<or> Q e cs)"
proof (cases r)
  case (Inl e)
  with assms(1) show ?thesis by (simp add: or_else_def good_def)
next
  case (Inr x)
  obtain res ms' where x: "x = (res, ms')" by fastforce
  show ?thesis
  proof (cases res)
    case None
    then have s: "same_caps ms ms'" "\<And>e cs. \<not> P e cs" using assms(1) Inr x by (simp_all add: good_def)
    from assms(3) [OF s(1) same_caps_ok [OF s(1) assms(2)]] s Inr x None show ?thesis
      by (auto simp: or_else_def good_def split: sum.splits option.splits intro: same_caps_trans)
  next
    case (Some e)
    with assms(1) Inr x show ?thesis by (simp add: or_else_def good_def)
  qed
qed

lemma good_bind:
  assumes "\<And>u. m \<noteq> Inl (UB u)" "\<And>x. m = Inr x \<Longrightarrow> good src s ms (f x) P"
  shows "good src s ms (bindE m f) P"
  using assms by (cases m) (auto simp: good_def)

text \<open>The meaning of each kind of pattern.\<close>

lemma matches_end:
  "cstr_at pat p = CHR 0x00 \<Longrightarrow> matches src pat cs s p e cs' = (e = s \<and> cs' = cs)"
  by (subst matches_at) (auto simp: is_item_def L_ESC_def)

lemma matches_dollar:
  "cstr_at pat p = CHR ''$'' \<Longrightarrow> cstr_at pat (p + 1) = CHR 0x00 \<Longrightarrow>
     matches src pat cs s p e cs' = (s = length src \<and> e = s \<and> cs' = cs)"
  by (subst matches_at) (auto simp: is_item_def L_ESC_def)

lemma matches_position:
  "cstr_at pat p = CHR ''('' \<Longrightarrow> cstr_at pat (p + 1) = CHR '')'' \<Longrightarrow>
     matches src pat cs s p e cs' = matches src pat (cs @ [(s, CAP_POSITION)]) s (p + 2) e cs'"
  by (subst matches_at) (auto simp: is_item_def L_ESC_def)

lemma matches_open:
  "cstr_at pat p = CHR ''('' \<Longrightarrow> cstr_at pat (p + 1) \<noteq> CHR '')'' \<Longrightarrow>
     matches src pat cs s p e cs' = matches src pat (cs @ [(s, CAP_UNFINISHED)]) s (p + 1) e cs'"
  by (subst matches_at) (auto simp: is_item_def L_ESC_def)

lemma matches_close:
  "cstr_at pat p = CHR '')'' \<Longrightarrow> matches src pat cs s p e cs' = (\<exists>l. open_cap cs l \<and>
     matches src pat (cs[l := (fst (cs ! l), int s - int (fst (cs ! l)))]) s (p + 1) e cs')"
  by (subst matches_at) (auto simp: is_item_def L_ESC_def)

lemma matches_balance:
  "cstr_at pat p = L_ESC \<Longrightarrow> cstr_at pat (p + 1) = CHR ''b'' \<Longrightarrow> matches src pat cs s p e cs' =
     (\<exists>s'. matchbalance src pat s (p + 2) = Inr (Some s') \<and> matches src pat cs s' (p + 4) e cs')"
  by (subst matches_at) (auto simp: is_item_def L_ESC_def isdigit_def uchar_def)

lemma matches_frontier:
  "cstr_at pat p = L_ESC \<Longrightarrow> cstr_at pat (p + 1) = CHR ''f'' \<Longrightarrow> cstr_at pat (p + 2) = CHR ''['' \<Longrightarrow>
     matches src pat cs s p e cs' =
     (\<exists>ep. classend pat (p + 2) = Inr ep \<and> frontier src pat s (p + 2) ep \<and> matches src pat cs s ep e cs')"
  by (subst matches_at) (auto simp: is_item_def L_ESC_def isdigit_def uchar_def)

lemma digit_not_b_f: "isdigit (uchar d) \<Longrightarrow> d \<noteq> CHR ''b'' \<and> d \<noteq> CHR ''f''"
  by (auto simp: isdigit_def uchar_def)

lemma matches_backref:
  "cstr_at pat p = L_ESC \<Longrightarrow> isdigit (uchar (cstr_at pat (p + 1))) \<Longrightarrow> matches src pat cs s p e cs' =
     (\<exists>s'. backref src cs s (uchar (cstr_at pat (p + 1))) s' \<and> matches src pat cs s' (p + 2) e cs')"
  by (subst matches_at) (auto simp: is_item_def L_ESC_def dest: digit_not_b_f)

lemma matches_item:
  "is_item pat p \<Longrightarrow> matches src pat cs s p e cs' =
     (\<exists>k q. item_step src pat s p k q \<and> matches src pat cs (s + k) q e cs')"
  (is "_ \<Longrightarrow> ?l = ?r")
proof -
  assume i: "is_item pat p"
  then have n: "cstr_at pat p \<noteq> CHR 0x00" "cstr_at pat p \<noteq> CHR ''(''" "cstr_at pat p \<noteq> CHR '')''"
    "\<not> (cstr_at pat p = CHR ''$'' \<and> cstr_at pat (p + 1) = CHR 0x00)"
    "\<not> (cstr_at pat p = L_ESC \<and> cstr_at pat (p + 1) = CHR ''b'')"
    "\<not> (cstr_at pat p = L_ESC \<and> cstr_at pat (p + 1) = CHR ''f'')"
    "\<not> (cstr_at pat p = L_ESC \<and> isdigit (uchar (cstr_at pat (p + 1))))"
    by (simp_all add: is_item_def Let_def)
  show "?l = ?r"
  proof
    assume ?l
    then show ?r by (rule matches.cases) (use n in blast)+
  next
    assume ?r
    then show ?l using m_item [OF i] by blast
  qed
qed

text \<open>Captures.\<close>

lemma good_undo:
  assumes "good src s ms1 r P" "\<And>ms'. same_caps ms1 ms' \<Longrightarrow> same_caps ms (f ms')"
  shows "good src s ms (or_undo r f) P"
  using assms by (auto simp: good_def or_undo_def bindE_def split: sum.splits option.splits prod.splits)

lemma caps_of_push:
  assumes "ms_ok s ms" "level ms < LUA_MAXCAPTURES"
  shows "caps_of (push_capture ms t what) = caps_of ms @ [(t, what)]"
  using assms by (simp add: caps_of_def push_capture_def ms_ok_def take_Suc_conv_app_nth)

lemma push_ok:
  assumes "ms_ok s ms" "level ms < LUA_MAXCAPTURES" "what = CAP_UNFINISHED \<or> what = CAP_POSITION"
  shows "ms_ok s (push_capture ms s what)"
  using assms caps_of_push [OF assms(1,2), of s what]
  by (auto simp: ms_ok_def cap_ok_def) (simp_all add: push_capture_def)

lemma undo_start_same:
  assumes "ms_ok s ms" "level ms < LUA_MAXCAPTURES" "same_caps (push_capture ms t what) ms'"
  shows "same_caps ms (undo_start ms')"
proof -
  have l: "level ms' = Suc (level ms)" using assms(3) by (simp add: same_caps_def push_capture_def)
  have len: "length (cap_init ms') = LUA_MAXCAPTURES" "length (cap_len ms') = LUA_MAXCAPTURES"
    using assms(3) by (simp_all add: same_caps_def)
  have "caps_of ms' = caps_of ms @ [(t, what)]"
    using assms(3) caps_of_push [OF assms(1,2)] by (simp add: same_caps_def)
  then have "take (level ms) (caps_of ms') = caps_of ms"
    using length_caps_of [OF assms(1)] by simp
  moreover have "take (level ms) (caps_of ms') = caps_of (undo_start ms')"
    using l by (simp add: caps_of_def undo_start_def take_zip)
  ultimately show ?thesis using l len by (simp add: same_caps_def undo_start_def)
qed

lemma close_from_spec:
  "close_from lens n = Inr l \<Longrightarrow> l < n \<and> lens ! l = CAP_UNFINISHED \<and> (\<forall>j. l < j \<and> j < n \<longrightarrow> lens ! j \<noteq> CAP_UNFINISHED)"
  by (induction n) (auto simp: lua_error_def less_Suc_eq split: if_splits)

lemma close_from_no_UB: "close_from lens n \<noteq> Inl (UB u)"
  by (induction n) (auto simp: lua_error_def)

lemma capture_to_close_spec:
  assumes "ms_ok s ms" "capture_to_close ms = Inr l"
  shows "open_cap (caps_of ms) m = (m = l)" "l < level ms" "cap_len ms ! l = CAP_UNFINISHED"
proof -
  note C = close_from_spec [OF assms(2) [unfolded capture_to_close_def]]
  then show "l < level ms" "cap_len ms ! l = CAP_UNFINISHED" by auto
  have "snd (caps_of ms ! i) = cap_len ms ! i" if "i < level ms" for i
    using caps_of_nth [OF assms(1) that] by simp
  then show "open_cap (caps_of ms) m = (m = l)"
    using C length_caps_of [OF assms(1)] unfolding open_cap_def by (metis linorder_neqE_nat)
qed

lemma caps_of_close:
  assumes "ms_ok s ms" "l < level ms"
  shows "caps_of (close_capture ms l t) = (caps_of ms)[l := (fst (caps_of ms ! l), int t - int (fst (caps_of ms ! l)))]"
proof (rule nth_equalityI)
  show "length (caps_of (close_capture ms l t)) = length ((caps_of ms)[l := (fst (caps_of ms ! l), int t - int (fst (caps_of ms ! l)))])"
    by (simp add: caps_of_def close_capture_def)
next
  fix i assume "i < length (caps_of (close_capture ms l t))"
  then have i: "i < level ms" using assms(1) by (simp add: caps_of_def close_capture_def ms_ok_def)
  have n: "i < length (cap_len ms)" "l < length (cap_len ms)" "length (cap_init ms) = length (cap_len ms)"
    using i assms by (simp_all add: ms_ok_def)
  show "caps_of (close_capture ms l t) ! i = (caps_of ms)[l := (fst (caps_of ms ! l), int t - int (fst (caps_of ms ! l)))] ! i"
    using i n assms caps_of_nth [OF assms(1)] length_caps_of [OF assms(1)]
    by (simp add: caps_of_def close_capture_def nth_list_update)
qed

lemma close_ok:
  assumes "ms_ok s ms" "l < level ms"
  shows "ms_ok s (close_capture ms l s)"
proof -
  have c: "cap_ok s (caps_of ms ! l)"
    using assms length_caps_of [OF assms(1)] by (auto simp: ms_ok_def)
  have "\<forall>c \<in> set (caps_of (close_capture ms l s)). cap_ok s c"
    unfolding caps_of_close [OF assms]
    using assms(1) c set_update_subset_insert [of "caps_of ms" l]
    by (fastforce simp: ms_ok_def cap_ok_def)
  then show ?thesis using assms(1) by (simp add: ms_ok_def) (simp add: close_capture_def)
qed

lemma undo_end_same:
  assumes "ms_ok s ms" "l < level ms" "cap_len ms ! l = CAP_UNFINISHED" "same_caps (close_capture ms l t) ms'"
  shows "same_caps ms (undo_end l ms')"
proof -
  have lv: "level ms' = level ms" using assms(4) by (simp add: same_caps_def close_capture_def)
  have len: "length (cap_init ms') = LUA_MAXCAPTURES" "length (cap_len ms') = LUA_MAXCAPTURES"
    using assms(4) by (simp_all add: same_caps_def)
  have c: "caps_of ms' = (caps_of ms)[l := (fst (caps_of ms ! l), int t - int (fst (caps_of ms ! l)))]"
    using assms(4) caps_of_close [OF assms(1,2)] by (simp add: same_caps_def)
  have "caps_of (undo_end l ms') = (caps_of ms')[l := (fst (caps_of ms' ! l), CAP_UNFINISHED)]"
  proof (rule nth_equalityI)
    show "length (caps_of (undo_end l ms')) = length ((caps_of ms')[l := (fst (caps_of ms' ! l), CAP_UNFINISHED)])"
      by (simp add: caps_of_def undo_end_def)
  next
    fix i assume "i < length (caps_of (undo_end l ms'))"
    then have "i < level ms'" "i < LUA_MAXCAPTURES" "l < LUA_MAXCAPTURES" "level ms' \<le> LUA_MAXCAPTURES"
      using assms(1,2) lv len by (auto simp: caps_of_def undo_end_def ms_ok_def)
    then show "caps_of (undo_end l ms') ! i = (caps_of ms')[l := (fst (caps_of ms' ! l), CAP_UNFINISHED)] ! i"
      using len assms(2) lv by (simp add: caps_of_def undo_end_def nth_list_update)
  qed
  also have "\<dots> = caps_of ms"
    unfolding c using assms(2,3) caps_of_nth [OF assms(1)] length_caps_of [OF assms(1)]
    by (simp add: list_update_same_conv)
  finally show ?thesis using lv len by (simp add: same_caps_def undo_end_def)
qed

lemma match_capture_no_UB: "match_capture src ms s l \<noteq> Inl (UB u)"
  by (auto simp: match_capture_def check_capture_def lua_error_def res_simps Let_def split: if_splits)

lemma match_capture_spec:
  assumes "ms_ok s ms" "s \<le> length src" "length src < 2 ^ 63" "match_capture src ms s l = Inr r"
  shows "backref src (caps_of ms) s l s' = (r = Some s')"
proof -
  obtain i where i: "check_capture ms l = Inr i" using assms(4) by (auto simp: match_capture_def res_simps)
  then have I: "int i = l - 49" "i < level ms" "cap_len ms ! i \<noteq> CAP_UNFINISHED"
    by (auto simp: check_capture_def lua_error_def Let_def split: if_splits)
  note nth = caps_of_nth [OF assms(1) I(2)] and len = length_caps_of [OF assms(1)]
  have "cap_ok s (caps_of ms ! i)" using assms(1) I(2) len by (simp add: ms_ok_def)
  then have ok: "cap_len ms ! i = CAP_POSITION \<or> 0 \<le> cap_len ms ! i \<and> int (cap_init ms ! i) + cap_len ms ! i \<le> int s"
    using I(3) nth by (auto simp: cap_ok_def)
  have B: "backref src (caps_of ms) s l s' = (\<exists>n. cap_len ms ! i = int n \<and> s' = s + n \<and> s' \<le> length src \<and>
       take n (drop (cap_init ms ! i) src) = take n (drop s src))"
    using I nth len by (auto simp: backref_def) (metis fst_conv of_nat_eq_iff snd_conv)+
  show ?thesis
  proof (cases "cap_len ms ! i = CAP_POSITION")
    case True
    then have "r = None" using assms(3,4) i by (simp add: match_capture_def CAP_POSITION_def)
    then show ?thesis using True by (simp add: B CAP_POSITION_def)
  next
    case False
    define n where "n = nat (cap_len ms ! i)"
    have n: "cap_len ms ! i = int n" "n \<le> s" using ok False by (auto simp: n_def)
    then have m: "cap_len ms ! i mod 2 ^ 64 = int n" using assms(2,3) by simp
    show ?thesis using assms(4) i m n assms(2) by (auto simp: match_capture_def B Let_def split: if_splits)
  qed
qed

lemma balance_loop_bounds: "balance_loop src s b e cont = Some s' \<Longrightarrow> s < s' \<and> s' \<le> length src"
proof (induction src s b e cont rule: balance_loop.induct)
  case (1 src s b e cont)
  from 1(4) show ?case
    by (subst (asm) balance_loop.simps) (use 1(1-3) in \<open>fastforce split: if_splits simp: Let_def\<close>)
qed

lemma matchbalance_bounds:
  "matchbalance src pat s p = Inr (Some s') \<Longrightarrow> s < s' \<and> s' \<le> length src \<and> p + 1 < length pat"
  by (auto simp: matchbalance_def lua_error_def dest!: balance_loop_bounds cstr_at_nonzero split: if_splits)

lemma matchbalance_no_UB: "p \<le> length pat \<Longrightarrow> matchbalance src pat s p \<noteq> Inl (UB u)"
  by (auto simp: matchbalance_def lua_error_def)

lemma expand_count_spec:
  "(\<forall>j<expand_count src pat s p ep. guard_item src pat (s + j) p ep) \<and>
   \<not> guard_item src pat (s + expand_count src pat s p ep) p ep"
proof (induction src pat s p ep rule: expand_count.induct)
  case (1 src pat s p ep)
  show ?case
  proof (cases "s < length src \<and> singlematch (uchar (cstr_at src s)) pat p ep")
    case True
    with 1 have IH: "\<forall>j<expand_count src pat (s + 1) p ep. guard_item src pat (s + 1 + j) p ep"
      "\<not> guard_item src pat (s + 1 + expand_count src pat (s + 1) p ep) p ep" by blast+
    have "guard_item src pat (s + j) p ep" if "j < Suc (expand_count src pat (s + 1) p ep)" for j
      using IH(1) that True by (cases j) (auto simp: guard_item_def)
    moreover have "expand_count src pat s p ep = Suc (expand_count src pat (s + 1) p ep)"
      by (subst expand_count.simps) (simp only: True if_True simp_thms)
    ultimately show ?thesis using IH(2) by simp
  next
    case False
    then show ?thesis by (subst (1 2) expand_count.simps) (auto simp: guard_item_def)
  qed
qed

lemma guards_bound: "\<forall>j<k. guard_item src pat (s + j) p ep \<Longrightarrow> s \<le> length src \<Longrightarrow> s + k \<le> length src"
  by (cases k) (auto simp: guard_item_def)

text \<open>The claim at a pattern position, and each function under the claim at later positions.\<close>

definition ok_from :: "string \<Rightarrow> string \<Rightarrow> nat \<Rightarrow> bool" where
  "ok_from src pat p = (\<forall>ms s. ms_ok s ms \<longrightarrow> s \<le> length src \<longrightarrow>
     good src s ms (match src pat ms s p) (matches src pat (caps_of ms) s p))"

lemma ok_fromD:
  "ok_from src pat p \<Longrightarrow> ms_ok s ms \<Longrightarrow> s \<le> length src \<Longrightarrow>
     good src s ms (match src pat ms s p) (matches src pat (caps_of ms) s p)"
  by (simp add: ok_from_def)

lemma start_capture_good:
  assumes "ok_from src pat p" "ms_ok s ms" "s \<le> length src" "what = CAP_UNFINISHED \<or> what = CAP_POSITION"
  shows "good src s ms (start_capture src pat ms s p what) (matches src pat (caps_of ms @ [(s, what)]) s p)"
proof (cases "level ms \<ge> LUA_MAXCAPTURES")
  case False
  then have l: "level ms < LUA_MAXCAPTURES" by simp
  show ?thesis
    unfolding start_capture.simps [of src pat ms] using False
    by (simp add: good_undo [OF ok_fromD [OF assms(1) push_ok [OF assms(2) l assms(4)] assms(3)] undo_start_same [OF assms(2) l]]
      flip: caps_of_push [OF assms(2) l])
qed (simp add: start_capture.simps good_error)

lemma end_capture_good:
  assumes "ok_from src pat p" "ms_ok s ms" "s \<le> length src"
  shows "good src s ms (end_capture src pat ms s p) (\<lambda>e cs. \<exists>l. open_cap (caps_of ms) l \<and>
     matches src pat ((caps_of ms)[l := (fst (caps_of ms ! l), int s - int (fst (caps_of ms ! l)))]) s p e cs)"
  unfolding end_capture.simps [of src pat ms]
proof (rule good_bind)
  show "capture_to_close ms \<noteq> Inl (UB u)" for u by (simp add: capture_to_close_def close_from_no_UB)
next
  fix l assume c: "capture_to_close ms = Inr l"
  note C = capture_to_close_spec [OF assms(2) c]
  have "good src s ms (or_undo (match src pat (close_capture ms l s) s p) (undo_end l))
          (matches src pat (caps_of (close_capture ms l s)) s p)"
    by (rule good_undo [OF ok_fromD [OF assms(1) close_ok [OF assms(2) C(2)] assms(3)] undo_end_same [OF assms(2) C(2,3)]])
  then show "good src s ms (or_undo (match src pat (close_capture ms l s) s p) (undo_end l)) (\<lambda>e cs. \<exists>l. open_cap (caps_of ms) l \<and>
     matches src pat ((caps_of ms)[l := (fst (caps_of ms ! l), int s - int (fst (caps_of ms ! l)))]) s p e cs)"
    by (rule good_cong) (simp add: C(1) caps_of_close [OF assms(2) C(2)])
qed

lemma max_try_good:
  assumes "ok_from src pat (ep + 1)" "ep < length pat" "ms_ok s ms" "s + i \<le> length src"
  shows "good src s ms (max_try src pat ms s ep i) (\<lambda>e cs. \<exists>k\<le>i. matches src pat (caps_of ms) (s + k) (ep + 1) e cs)"
  using assms(3,4)
proof (induction i arbitrary: ms)
  case 0
  have "good src s ms (max_try src pat ms s ep 0)
      (\<lambda>e cs. matches src pat (caps_of ms) (s + 0) (ep + 1) e cs \<or> False)"
  proof -
    have n: "good src s ms' (Inr (None, ms')) (\<lambda>e cs. False)" if "same_caps ms ms'" "ms_ok s ms'" for ms'
      by (rule good_fail [OF that(2)]) simp
    have r: "max_try src pat ms s ep 0 = or_else (match src pat ms (s + 0) (ep + 1)) (\<lambda>ms. Inr (None, ms))"
      using assms(2) by (subst max_try.simps) simp
    have "s + 0 \<le> length src" using 0(2) by simp
    then show ?thesis
      unfolding r using good_or_else [where f = "\<lambda>ms. Inr (None, ms)", OF ok_fromD [OF assms(1) 0(1)] 0(1) n]
      by simp
  qed
  then show ?case by (rule good_cong) simp
next
  case (Suc i)
  have m: "good src s ms (match src pat ms (s + Suc i) (ep + 1)) (matches src pat (caps_of ms) (s + Suc i) (ep + 1))"
    by (rule good_mono [OF ok_fromD [OF assms(1) ms_ok_mono [OF Suc.prems(1)]]]) (use Suc.prems in auto)
  have "good src s ms' (max_try src pat ms' s ep i) (\<lambda>e cs. \<exists>k\<le>i. matches src pat (caps_of ms) (s + k) (ep + 1) e cs)"
    if "same_caps ms ms'" "ms_ok s ms'" for ms'
    using Suc.IH [OF that(2)] Suc.prems(2) same_caps_of [OF that(1)] by simp
  note good_or_else [OF m Suc.prems(1) this]
  moreover have "max_try src pat ms s ep (Suc i) =
      or_else (match src pat ms (s + Suc i) (ep + 1)) (\<lambda>ms. max_try src pat ms s ep i)"
    using assms(2) by (subst max_try.simps) simp
  ultimately have "good src s ms (max_try src pat ms s ep (Suc i)) (\<lambda>e cs. matches src pat (caps_of ms) (s + Suc i) (ep + 1) e cs \<or>
      (\<exists>k\<le>i. matches src pat (caps_of ms) (s + k) (ep + 1) e cs))" by simp
  then show ?case by (rule good_cong) (auto simp: le_Suc_eq)
qed

lemma min_expand_good:
  assumes "ok_from src pat (ep + 1)" "ep < length pat" "ms_ok s ms" "s \<le> length src"
  shows "good src s ms (min_expand src pat ms s p ep)
     (\<lambda>e cs. \<exists>k. (\<forall>j<k. guard_item src pat (s + j) p ep) \<and> matches src pat (caps_of ms) (s + k) (ep + 1) e cs)"
  using assms(3,4)
proof (induction "length src - s" arbitrary: ms s rule: less_induct)
  case less
  let ?P = "\<lambda>s e cs. \<exists>k. (\<forall>j<k. guard_item src pat (s + j) p ep) \<and> matches src pat (caps_of ms) (s + k) (ep + 1) e cs"
  let ?rest = "\<lambda>ms. if guard_item src pat s p ep then min_expand src pat ms (s + 1) p ep else Inr (None, ms)"
  have step: "good src s ms' (?rest ms') (\<lambda>e cs. guard_item src pat s p ep \<and> ?P (s + 1) e cs)"
    if "same_caps ms ms'" "ms_ok s ms'" for ms'
  proof (cases "guard_item src pat s p ep")
    case True
    then have s: "s < length src" by (simp add: guard_item_def)
    have "good src (s + 1) ms' (min_expand src pat ms' (s + 1) p ep) (?P (s + 1))"
      using less(1) [of "s + 1" ms'] s ms_ok_mono [OF that(2)] same_caps_of [OF that(1)] by simp
    then show ?thesis using True good_mono by fastforce
  qed (use that in \<open>auto intro: good_fail\<close>)
  have "good src s ms (min_expand src pat ms s p ep) (\<lambda>e cs. matches src pat (caps_of ms) s (ep + 1) e cs \<or>
      guard_item src pat s p ep \<and> ?P (s + 1) e cs)"
  proof -
    have "min_expand src pat ms s p ep = or_else (match src pat ms s (ep + 1)) ?rest"
      using assms(2) by (subst min_expand.simps) simp
    then show ?thesis by (simp only: good_or_else [OF ok_fromD [OF assms(1) less(2,3)] less(2) step])
  qed
  then show ?case
  proof (rule good_cong)
    fix e cs
    show "(matches src pat (caps_of ms) s (ep + 1) e cs \<or> guard_item src pat s p ep \<and> ?P (s + 1) e cs) = ?P s e cs"
      (is "?l = ?r")
    proof
      assume ?l
      then show ?r
      proof
        assume "guard_item src pat s p ep \<and> ?P (s + 1) e cs"
        then obtain k where k: "guard_item src pat s p ep" "\<forall>j<k. guard_item src pat (s + 1 + j) p ep"
          "matches src pat (caps_of ms) (s + 1 + k) (ep + 1) e cs" by blast
        have "guard_item src pat (s + j) p ep" if "j < Suc k" for j using k that by (cases j) auto
        with k(3) show ?r by (intro exI [of _ "Suc k"]) simp
      qed (rule exI [of _ 0], simp)
    next
      assume ?r
      then obtain k where k: "\<forall>j<k. guard_item src pat (s + j) p ep" "matches src pat (caps_of ms) (s + k) (ep + 1) e cs"
        by blast
      show ?l
      proof (cases k)
        case (Suc j)
        have "guard_item src pat (s + 1 + i) p ep" if "i < j" for i
          using k(1) [rule_format, of "Suc i"] that Suc by simp
        then show ?thesis using k Suc by (auto intro!: exI [of _ j])
      qed (use k in simp)
    qed
  qed
qed

text \<open>A single item with its suffix.\<close>

lemma item_step_iff:
  "classend pat p = Inr ep \<Longrightarrow> item_step src pat s p k q =
     ((\<forall>j<k. guard_item src pat (s + j) p ep) \<and>
       (if cstr_at pat ep = CHR ''?'' then k \<le> 1 \<and> q = ep + 1
        else if cstr_at pat ep = CHR ''*'' \<or> cstr_at pat ep = CHR ''-'' then q = ep + 1
        else if cstr_at pat ep = CHR ''+'' then 1 \<le> k \<and> q = ep + 1
        else k = 1 \<and> q = ep))"
  by (simp add: item_step_def)

lemma guards_le_count:
  "(\<forall>j<k. guard_item src pat (s + j) p ep) = (k \<le> expand_count src pat s p ep)"
  using expand_count_spec [of src pat s p ep] by (metis le_neq_implies_less linorder_not_less order_less_le_trans)

lemma guards_Suc:
  "(\<forall>j<Suc k. guard_item src pat (s + j) p ep) = (guard_item src pat s p ep \<and> (\<forall>j<k. guard_item src pat (s + 1 + j) p ep))"
  by (auto simp: less_Suc_eq_0_disj)

lemma ex_le_1: "(\<exists>k\<le>1::nat. P k) = (P 0 \<or> P 1)"
  by (auto simp: le_Suc_eq)

lemma dflt_good:
  assumes later: "\<And>q. p < q \<Longrightarrow> q \<le> length pat \<Longrightarrow> ok_from src pat q"
    and p: "cstr_at pat p \<noteq> CHR 0x00" and ms: "ms_ok s ms" and s: "s \<le> length src"
  shows "good src s ms (dflt src pat ms s p)
    (\<lambda>e cs. \<exists>k q. item_step src pat s p k q \<and> matches src pat (caps_of ms) (s + k) q e cs)"
  unfolding dflt.simps [of src pat ms]
proof (rule good_bind)
  show "classend pat p \<noteq> Inl (UB u)" for u
    using cstr_at_nonzero [OF p] by (intro classend_no_UB) simp
next
  fix ep assume ep: "classend pat p = Inr ep"
  have pl: "p < length pat" by (rule cstr_at_nonzero [OF p])
  have e: "p < ep" "ep \<le> length pat" using classend_progress [OF ep p] by auto
  let ?m = "guard_item src pat s p ep" and ?e = "cstr_at pat ep"
  let ?G = "\<lambda>e cs. \<exists>k q. item_step src pat s p k q \<and> matches src pat (caps_of ms) (s + k) q e cs"
  let ?M = "\<lambda>t q. matches src pat (caps_of ms) t q"
  note step = item_step_iff [OF ep]
  have m1: "s < length src" if ?m using that by (simp add: guard_item_def)
  have sfx: "ep < length pat" "ok_from src pat (ep + 1)" if "?e \<noteq> CHR 0x00"
    using cstr_at_nonzero [OF that] later [of "ep + 1"] e by auto
  have one: "good src s ms (match src pat ms (s + 1) q) (?M (s + 1) q)" if ?m "ok_from src pat q" for q
    using good_mono [OF ok_fromD [OF that(2) ms_ok_mono [OF ms], of "s + 1"], of s] m1 [OF that(1)] by simp
  have "good src s ms
     (if ?e = CHR ''?'' then
         or_else (if ?m then match src pat ms (s + 1) (ep + 1) else Inr (None, ms)) (\<lambda>ms. match src pat ms s (ep + 1))
       else if ?e = CHR ''*'' then max_try src pat ms s ep (expand_count src pat s p ep)
       else if ?e = CHR ''+'' then
         (if ?m then max_try src pat ms (s + 1) ep (expand_count src pat (s + 1) p ep) else Inr (None, ms))
       else if ?e = CHR ''-'' then min_expand src pat ms s p ep
       else if \<not> ?m then Inr (None, ms)
       else match src pat ms (s + 1) ep) ?G" (is "good _ _ _ ?r _")
  proof -
    consider (opt) "?e = CHR ''?''" | (star) "?e = CHR ''*''" | (plus) "?e = CHR ''+''" | (minus) "?e = CHR ''-''"
      | (single) "?e \<noteq> CHR ''?''" "?e \<noteq> CHR ''*''" "?e \<noteq> CHR ''+''" "?e \<noteq> CHR ''-''" by blast
    then show ?thesis
    proof cases
      case opt
      then have o: "ok_from src pat (ep + 1)" using sfx by simp
      have a: "good src s ms (if ?m then match src pat ms (s + 1) (ep + 1) else Inr (None, ms)) (\<lambda>e cs. ?m \<and> ?M (s + 1) (ep + 1) e cs)"
        using one [OF _ o] good_fail [OF ms, of "\<lambda>e cs. False"] by auto
      have b: "good src s ms' (match src pat ms' s (ep + 1)) (?M s (ep + 1))"
        if "same_caps ms ms'" "ms_ok s ms'" for ms'
        using ok_fromD [OF o that(2) s] same_caps_of [OF that(1)] by simp
      have "?r = or_else (if ?m then match src pat ms (s + 1) (ep + 1) else Inr (None, ms)) (\<lambda>ms. match src pat ms s (ep + 1))"
        using opt by simp
      then have "good src s ms ?r (\<lambda>e cs. ?m \<and> ?M (s + 1) (ep + 1) e cs \<or> ?M s (ep + 1) e cs)"
        by (elim ssubst) (rule good_or_else [OF a ms b])
      then show ?thesis
      proof (rule good_cong)
        fix e cs
        have "?G e cs = (\<exists>k\<le>1. (\<forall>j<k. guard_item src pat (s + j) p ep) \<and> ?M (s + k) (ep + 1) e cs)"
          using opt by (auto simp: step)
        also have "\<dots> = (?m \<and> ?M (s + 1) (ep + 1) e cs \<or> ?M s (ep + 1) e cs)"
          by (simp only: ex_le_1) auto
        finally show "(?m \<and> ?M (s + 1) (ep + 1) e cs \<or> ?M s (ep + 1) e cs) = ?G e cs" by simp
      qed
    next
      case star
      then have o: "ep < length pat" "ok_from src pat (ep + 1)" using sfx by simp_all
      have "s + expand_count src pat s p ep \<le> length src"
        using guards_bound [OF _ s] guards_le_count by blast
      from max_try_good [OF o(2,1) ms this] star show ?thesis
        by (auto simp: step guards_le_count elim: good_cong)
    next
      case plus
      then have o: "ep < length pat" "ok_from src pat (ep + 1)" using sfx by simp_all
      have G: "?G e cs = (\<exists>k. ?m \<and> k \<le> expand_count src pat (s + 1) p ep \<and> ?M (s + 1 + k) (ep + 1) e cs)"
        (is "?l = ?r") for e cs
      proof -
        have "item_step src pat s p k q = (\<exists>i. k = Suc i \<and> q = ep + 1 \<and> ?m \<and> i \<le> expand_count src pat (s + 1) p ep)" for k q
        proof (cases k)
          case (Suc i)
          have "(\<forall>j<Suc i. guard_item src pat (s + j) p ep) = (?m \<and> i \<le> expand_count src pat (s + 1) p ep)"
            by (simp only: guards_Suc guards_le_count)
          then have "item_step src pat s p (Suc i) q = ((?m \<and> i \<le> expand_count src pat (s + 1) p ep) \<and> 1 \<le> Suc i \<and> q = ep + 1)"
            using plus by (simp only: step if_True if_False char.inject simp_thms)
          moreover have "(1 \<le> Suc i) = True" by simp
          ultimately show ?thesis unfolding Suc nat.inject by blast
        qed (use plus in \<open>simp add: step\<close>)
        note S = this
        show ?thesis
        proof
          assume ?l
          then obtain k q where "item_step src pat s p k q" "?M (s + k) q e cs" by blast
          then show ?r by (auto simp: S)
        next
          assume ?r
          then obtain k where k: "?m" "k \<le> expand_count src pat (s + 1) p ep" "?M (s + 1 + k) (ep + 1) e cs" by blast
          then have "item_step src pat s p (Suc k) (ep + 1)" by (simp add: S)
          with k(3) show ?l by (intro exI [of _ "Suc k"] exI [of _ "ep + 1"]) simp
        qed
      qed
      show ?thesis
      proof (cases ?m)
        case True
        have b: "s + 1 + expand_count src pat (s + 1) p ep \<le> length src"
          by (rule guards_bound [OF conjunct1 [OF expand_count_spec]]) (use m1 [OF True] in simp)
        have "good src (s + 1) ms (max_try src pat ms (s + 1) ep (expand_count src pat (s + 1) p ep))
            (\<lambda>e cs. \<exists>k\<le>expand_count src pat (s + 1) p ep. ?M (s + 1 + k) (ep + 1) e cs)"
          by (rule max_try_good [OF o(2,1) ms_ok_mono [OF ms] b]) simp
        then have "good src s ms (max_try src pat ms (s + 1) ep (expand_count src pat (s + 1) p ep))
            (\<lambda>e cs. \<exists>k\<le>expand_count src pat (s + 1) p ep. ?M (s + 1 + k) (ep + 1) e cs)"
          by (rule good_mono) simp
        then have "good src s ms (max_try src pat ms (s + 1) ep (expand_count src pat (s + 1) p ep)) ?G"
          by (rule good_cong) (use True in \<open>simp only: G simp_thms\<close>)
        then show ?thesis using plus True by simp
      qed (use plus ms in \<open>auto simp: G intro!: good_fail\<close>)
    next
      case minus
      then have o: "ep < length pat" "ok_from src pat (ep + 1)" using sfx by simp_all
      from min_expand_good [OF o(2,1) ms s] minus show ?thesis
        by (auto simp: step elim: good_cong)
    next
      case single
      have G: "?G e cs = (?m \<and> ?M (s + 1) ep e cs)" for e cs
        using single by (auto simp: step)
      show ?thesis
        using single one [OF _ later [OF e]] good_fail [OF ms, of ?G] by (auto simp: G)
    qed
  qed
  then show "good src s ms
      (if \<not> (p < ep \<and> p < length pat) then Inl (UB ''classend'')
       else let m = ?m; e = ?e in
       if e = CHR ''?'' then
         or_else (if m then match src pat ms (s + 1) (ep + 1) else Inr (None, ms))
           (\<lambda>ms. match src pat ms s (ep + 1))
       else if e = CHR ''*'' then max_try src pat ms s ep (expand_count src pat s p ep)
       else if e = CHR ''+'' then
         (if m then max_try src pat ms (s + 1) ep (expand_count src pat (s + 1) p ep) else Inr (None, ms))
       else if e = CHR ''-'' then min_expand src pat ms s p ep
       else if \<not> m then Inr (None, ms)
       else match src pat ms (s + 1) ep) ?G"
    using e(1) pl by (simp only: Let_def simp_thms if_False)
qed

text \<open>All positions.\<close>

lemma dflt_item_good:
  assumes "\<And>q. p < q \<Longrightarrow> q \<le> length pat \<Longrightarrow> ok_from src pat q" "is_item pat p" "ms_ok s ms" "s \<le> length src"
  shows "good src s ms (dflt src pat ms s p) (matches src pat (caps_of ms) s p)"
proof -
  have "cstr_at pat p \<noteq> CHR 0x00" using assms(2) by (simp add: is_item_def Let_def)
  from dflt_good [OF assms(1) this assms(3,4)] show ?thesis
    by (rule good_cong) (assumption | rule matches_item [OF assms(2), symmetric])+
qed

lemma balance_good:
  assumes "\<And>q. p < q \<Longrightarrow> q \<le> length pat \<Longrightarrow> ok_from src pat q" "ms_ok s ms" "s \<le> length src"
    and c: "cstr_at pat p = L_ESC" "cstr_at pat (p + 1) = CHR ''b''"
  shows "good src s ms (bindE (matchbalance src pat s (p + 2)) (\<lambda>r.
          case r of None \<Rightarrow> Inr (None, ms) | Some s' \<Rightarrow> match src pat ms s' (p + 4))) (matches src pat (caps_of ms) s p)"
proof (rule good_bind)
  show "matchbalance src pat s (p + 2) \<noteq> Inl (UB u)" for u
    using cstr_at_nonzero [of pat "p + 1"] c by (intro matchbalance_no_UB) simp
next
  fix r assume r: "matchbalance src pat s (p + 2) = Inr r"
  show "good src s ms (case r of None \<Rightarrow> Inr (None, ms) | Some s' \<Rightarrow> match src pat ms s' (p + 4)) (matches src pat (caps_of ms) s p)"
  proof (cases r)
    case None
    then show ?thesis using r assms(2) by (simp add: good_fail matches_balance [OF c])
  next
    case (Some s')
    with r have b: "s < s'" "s' \<le> length src" "p + 2 + 1 < length pat" using matchbalance_bounds by blast+
    then have "ok_from src pat (p + 4)" using assms(1) by simp
    have "matches src pat (caps_of ms) s p e cs = matches src pat (caps_of ms) s' (p + 4) e cs" for e cs
      unfolding matches_balance [OF c] r Some by simp
    moreover have "good src s ms (match src pat ms s' (p + 4)) (matches src pat (caps_of ms) s' (p + 4))"
      by (rule good_mono [OF ok_fromD [OF \<open>ok_from src pat (p + 4)\<close> ms_ok_mono [OF assms(2)] b(2)]]) (use b(1) in simp_all)
    ultimately show ?thesis using Some good_cong by simp
  qed
qed

lemma backref_good:
  assumes "\<And>q. p < q \<Longrightarrow> q \<le> length pat \<Longrightarrow> ok_from src pat q" "ms_ok s ms" "s \<le> length src" "length src < 2 ^ 63"
    and c: "cstr_at pat p = L_ESC" "isdigit (uchar (cstr_at pat (p + 1)))"
  shows "good src s ms (bindE (match_capture src ms s (uchar (cstr_at pat (p + 1)))) (\<lambda>r.
          case r of None \<Rightarrow> Inr (None, ms) | Some s' \<Rightarrow> match src pat ms s' (p + 2))) (matches src pat (caps_of ms) s p)"
proof (rule good_bind)
  show "match_capture src ms s (uchar (cstr_at pat (p + 1))) \<noteq> Inl (UB u)" for u by (rule match_capture_no_UB)
next
  fix r assume r: "match_capture src ms s (uchar (cstr_at pat (p + 1))) = Inr r"
  note B = match_capture_spec [OF assms(2-4) r]
  have "cstr_at pat (p + 1) \<noteq> CHR 0x00" using c(2) by (auto simp: isdigit_def uchar_def)
  then have ok: "ok_from src pat (p + 2)" using assms(1) cstr_at_nonzero [of pat "p + 1"] by simp
  show "good src s ms (case r of None \<Rightarrow> Inr (None, ms) | Some s' \<Rightarrow> match src pat ms s' (p + 2)) (matches src pat (caps_of ms) s p)"
  proof (cases r)
    case None
    then show ?thesis using assms(2) B by (simp add: good_fail matches_backref [OF c])
  next
    case (Some s')
    then have "backref src (caps_of ms) s (uchar (cstr_at pat (p + 1))) s'" using B by simp
    then have b: "s \<le> s'" "s' \<le> length src" by (auto simp: backref_def)
    have "good src s ms (match src pat ms s' (p + 2)) (matches src pat (caps_of ms) s' (p + 2))"
      by (rule good_mono [OF ok_fromD [OF ok ms_ok_mono [OF assms(2) b(1)] b(2)] b(1)])
    moreover have "matches src pat (caps_of ms) s p e cs = matches src pat (caps_of ms) s' (p + 2) e cs" for e cs
      unfolding matches_backref [OF c] B Some by simp
    ultimately show ?thesis using Some good_cong by simp
  qed
qed

lemma frontier_good:
  assumes "\<And>q. p < q \<Longrightarrow> q \<le> length pat \<Longrightarrow> ok_from src pat q" "ms_ok s ms" "s \<le> length src"
    and c: "cstr_at pat p = L_ESC" "cstr_at pat (p + 1) = CHR ''f''" "cstr_at pat (p + 2) = CHR ''[''"
  shows "good src s ms (bindE (classend pat (p + 2)) (\<lambda>ep.
          let previous = (if s = 0 then CHR 0x00 else cstr_at src (s - 1)) in
          if matchbracketclass (uchar previous) pat (p + 2) (ep - 1) \<or>
             \<not> matchbracketclass (uchar (cstr_at src s)) pat (p + 2) (ep - 1)
          then Inr (None, ms) else if p < ep then match src pat ms s ep else Inl (UB ''classend''))) (matches src pat (caps_of ms) s p)"
proof (rule good_bind)
  show "classend pat (p + 2) \<noteq> Inl (UB u)" for u
    using cstr_at_nonzero [of pat "p + 2"] c by (intro classend_no_UB) simp
next
  fix ep assume ep: "classend pat (p + 2) = Inr ep"
  have e: "p + 2 < ep" "ep \<le> length pat" using classend_progress [OF ep] c by auto
  have M: "matches src pat (caps_of ms) s p e cs = (frontier src pat s (p + 2) ep \<and> matches src pat (caps_of ms) s ep e cs)" for e cs
    using ep by (simp add: matches_frontier [OF c])
  have "good src s ms (if \<not> frontier src pat s (p + 2) ep then Inr (None, ms) else match src pat ms s ep) (matches src pat (caps_of ms) s p)"
    using ok_fromD [OF assms(1) [of ep] assms(2,3)] e good_fail [OF assms(2), of "matches src pat (caps_of ms) s p"]
    by (auto simp: M elim!: good_cong)
  then show "good src s ms (let previous = (if s = 0 then CHR 0x00 else cstr_at src (s - 1)) in
          if matchbracketclass (uchar previous) pat (p + 2) (ep - 1) \<or>
             \<not> matchbracketclass (uchar (cstr_at src s)) pat (p + 2) (ep - 1)
          then Inr (None, ms) else if p < ep then match src pat ms s ep else Inl (UB ''classend'')) (matches src pat (caps_of ms) s p)"
    using e(1) by (simp only: Let_def frontier_def de_Morgan_conj not_not add_lessD1 if_True)
qed

lemma ok_from_all: "length src < 2 ^ 63 \<Longrightarrow> p \<le> length pat \<Longrightarrow> ok_from src pat p"
proof (induction "length pat - p" arbitrary: p rule: less_induct)
  case less
  have later: "ok_from src pat q" if "p < q" "q \<le> length pat" for q
    using less(1) [of q] less(2,3) that by simp
  show ?case unfolding ok_from_def
  proof (intro allI impI)
    fix ms s assume ms: "ms_ok s ms" and s: "s \<le> length src"
    let ?c = "cstr_at pat p" and ?d = "cstr_at pat (p + 1)"
    let ?Q = "\<lambda>r. good src s ms r (matches src pat (caps_of ms) s p)"
    have u: "\<not> (p > length pat \<or> s > length src)" using less(3) s by simp
    note simps = match.simps [of src pat ms s p] u if_False Let_def
    have pl: "p + 1 \<le> length pat" if "?c \<noteq> CHR 0x00" using cstr_at_nonzero [OF that] by simp
    have pl2: "p + 2 \<le> length pat" if "?d \<noteq> CHR 0x00" using cstr_at_nonzero [OF that] by simp
    consider (position) "?c = CHR ''(''" "?d = CHR '')''" | (openp) "?c = CHR ''(''" "?d \<noteq> CHR '')''"
      | (closing) "?c = CHR '')''" | (balance) "?c = L_ESC" "?d = CHR ''b''"
      | (frontier) "?c = L_ESC" "?d = CHR ''f''" "cstr_at pat (p + 2) = CHR ''[''"
      | (nofrontier) "?c = L_ESC" "?d = CHR ''f''" "cstr_at pat (p + 2) \<noteq> CHR ''[''"
      | (backref) "?c = L_ESC" "isdigit (uchar ?d)" | (finish) "?c = CHR 0x00"
      | (dollar) "?c = CHR ''$''" "?d = CHR 0x00" | (item) "is_item pat p"
      by (auto simp: is_item_def Let_def)
    then show "?Q (match src pat ms s p)"
    proof cases
      case position
      then have "?Q (start_capture src pat ms s (p + 2) CAP_POSITION)"
        using good_cong [OF start_capture_good [OF later [OF _ pl2] ms s] matches_position [OF position, symmetric]] by simp
      then show ?thesis using position by (simp add: simps)
    next
      case openp
      then have "?Q (start_capture src pat ms s (p + 1) CAP_UNFINISHED)"
        using good_cong [OF start_capture_good [OF later [OF _ pl] ms s] matches_open [OF openp, symmetric]] by simp
      then show ?thesis using openp by (simp add: simps)
    next
      case closing
      then have "?Q (end_capture src pat ms s (p + 1))"
        using good_cong [OF end_capture_good [OF later [OF _ pl] ms s] matches_close [OF closing, symmetric]] by simp
      then show ?thesis using closing by (simp add: simps)
    next
      case balance
      show ?thesis using balance_good [OF later ms s balance] balance by (simp add: simps L_ESC_def)
    next
      case frontier
      show ?thesis using frontier_good [OF later ms s frontier] frontier by (simp add: simps L_ESC_def)
    next
      case nofrontier
      then show ?thesis by (simp add: simps L_ESC_def good_error)
    next
      case backref
      note backref_good [OF later ms s less(2) backref]
      with backref show ?thesis using digit_not_b_f [OF backref(2)] by (simp add: simps L_ESC_def)
    next
      case finish
      then show ?thesis using ms s less(3) by (simp add: simps L_ESC_def good_def matches_end)
    next
      case dollar
      then show ?thesis using ms s less(3) by (simp add: simps L_ESC_def good_def matches_dollar) (use same_caps_refl in blast)
    next
      case item
      have "?Q (dflt src pat ms s p)" by (rule dflt_item_good [OF later item ms s])
      moreover have "match src pat ms s p = dflt src pat ms s p"
        using item by (auto simp: simps is_item_def)
      ultimately show ?thesis by simp
    qed
  qed
qed

section \<open>Properties\<close>

definition initial :: "MatchState" where
  "initial = \<lparr>level = 0, cap_init = replicate LUA_MAXCAPTURES 0, cap_len = replicate LUA_MAXCAPTURES 0\<rparr>"

lemma ms_ok_level_0:
  "length (cap_init ms) = LUA_MAXCAPTURES \<Longrightarrow> length (cap_len ms) = LUA_MAXCAPTURES \<Longrightarrow> ms_ok s (ms\<lparr>level := 0\<rparr>)"
  by (simp add: ms_ok_def caps_of_def)

text \<open>
  C16. Whatever the subject, the pattern and the positions inside them, \<open>match\<close> returns, never
  reads outside the two strings or the capture arrays, finds an end exactly when the pattern can
  match there, and then the end and the captures it reports are those of one possible match.  On
  failure the captures are those it was called with.
\<close>

theorem match_decides:
  assumes "length src < 2 ^ 63" "p \<le> length pat" "s \<le> length src" "ms_ok s ms"
  shows "case match src pat ms s p of
      Inl e \<Rightarrow> \<forall>u. e \<noteq> UB u
    | Inr (Some e, ms') \<Rightarrow> s \<le> e \<and> e \<le> length src \<and> matches src pat (caps_of ms) s p e (caps_of ms')
    | Inr (None, ms') \<Rightarrow> caps_of ms' = caps_of ms \<and> (\<nexists>e cs. matches src pat (caps_of ms) s p e cs)"
  using ok_fromD [OF ok_from_all [OF assms(1,2)] assms(4,3)]
  by (auto simp: good_def same_caps_def split: sum.splits option.splits)

lemma match_decides_witness:
  "match ''key = value'' ''(%w+) = (%w+)'' initial 0 0 =
     Inr (Some 11, initial\<lparr>level := 2, cap_init := [0, 6] @ replicate 30 0, cap_len := [3, 5] @ replicate 30 0\<rparr>) \<and>
   matches ''key = value'' ''(%w+) = (%w+)'' [] 0 0 11 [(0, 3), (6, 5)]"
proof -
  have r: "match ''key = value'' ''(%w+) = (%w+)'' initial 0 0 =
     Inr (Some 11, initial\<lparr>level := 2, cap_init := [0, 6] @ replicate 30 0, cap_len := [3, 5] @ replicate 30 0\<rparr>)"
    by code_simp
  have "case match ''key = value'' ''(%w+) = (%w+)'' initial 0 0 of
      Inl e \<Rightarrow> \<forall>u. e \<noteq> UB u
    | Inr (Some e, ms') \<Rightarrow> 0 \<le> e \<and> e \<le> length ''key = value'' \<and>
        matches ''key = value'' ''(%w+) = (%w+)'' (caps_of initial) 0 0 e (caps_of ms')
    | Inr (None, ms') \<Rightarrow> caps_of ms' = caps_of initial \<and> (\<nexists>e cs. matches ''key = value'' ''(%w+) = (%w+)'' (caps_of initial) 0 0 e cs)"
    by (rule match_decides) (simp_all add: ms_ok_def initial_def caps_of_def)
  then have "matches ''key = value'' ''(%w+) = (%w+)'' [] 0 0 11 [(0, 3), (6, 5)]"
    unfolding r by (simp add: caps_of_def initial_def numeral_eq_Suc)
  with r show ?thesis by simp
qed

end
