(* ===== verification/Lua_StrLib.thy ===== *)
theory Lua_StrLib
  imports Lua_StrMatch
begin

text \<open>
  The functions of \<^verbatim>\<open>lstrlib.c\<close> on top of the matcher: substrings and bytes, the plain search,
  \<open>find\<close>, \<open>match\<close>, \<open>gmatch\<close>, \<open>gsub\<close>, quoting and the format specifications of \<open>format\<close>.

  A function is given its arguments after the \<open>luaL_check...\<close> calls and returns the list of
  values it pushes.  \<open>'n\<close> is the type of Lua numbers; \<open>ofint\<close> is the conversion of
  \<open>lua_pushinteger\<close> and \<open>n2s\<close> that of \<open>lua_tolstring\<close> on a number.  The match state is an
  argument: \<open>MatchState ms\<close> is an uninitialised local variable of its functions.
\<close>

datatype 'n sval = SNil | SBool bool | SNum 'n | SStr string | SOther string

section \<open>Substrings and bytes\<close>

definition posrelat :: "int \<Rightarrow> nat \<Rightarrow> int" where
  "posrelat pos len = (let pos = (if pos < 0 then pos + int len + 1 else pos) in if pos \<ge> 0 then pos else 0)"

definition str_sub :: "string \<Rightarrow> int \<Rightarrow> int option \<Rightarrow> string" where
  "str_sub s i j =
     (let l = length s;
          start = posrelat i l;
          e = posrelat (case j of None \<Rightarrow> - 1 | Some j \<Rightarrow> j) l;
          start = (if start < 1 then 1 else start);
          e = (if e > int l then int l else e)
      in if start \<le> e then take (nat (e - start + 1)) (drop (nat (start - 1)) s) else '''')"

fun str_reverse_loop :: "string \<Rightarrow> nat \<Rightarrow> string \<Rightarrow> string" where
  "str_reverse_loop s 0 b = b"
| "str_reverse_loop s (Suc l) b = str_reverse_loop s l (b @ [s ! l])"

definition str_reverse :: "string \<Rightarrow> string" where
  "str_reverse s = str_reverse_loop s (length s) ''''"

definition str_lower :: "string \<Rightarrow> string" where
  "str_lower s = map (\<lambda>c. chr_of (tolower (uchar c))) s"

definition str_upper :: "string \<Rightarrow> string" where
  "str_upper s = map (\<lambda>c. chr_of (toupper (uchar c))) s"

function str_rep_loop :: "string \<Rightarrow> int \<Rightarrow> string \<Rightarrow> string" where
  "str_rep_loop s n b = (if n > 0 then str_rep_loop s (n - 1) (b @ s) else b)"
  by pat_completeness auto
termination by (relation "measure (\<lambda>(s, n, b). nat n)") auto

definition str_rep :: "string \<Rightarrow> int \<Rightarrow> string" where
  "str_rep s n = str_rep_loop s n ''''"

text \<open>
  \<open>str_byte\<close> counts in an \<open>int\<close>: a slice of \<open>2 ^ 31\<close> bytes or more shows as the wrapped
  count of the test.  \<open>room n\<close> is \<open>lua_checkstack\<close>.
\<close>

definition str_byte :: "(int \<Rightarrow> bool) \<Rightarrow> string \<Rightarrow> int option \<Rightarrow> int option \<Rightarrow> lua_err + int list" where
  "str_byte room s i j =
     (let l = length s;
          posi = posrelat (case i of None \<Rightarrow> 1 | Some i \<Rightarrow> i) l;
          pose = posrelat (case j of None \<Rightarrow> posi | Some j \<Rightarrow> j) l;
          posi = (if posi \<le> 0 then 1 else posi);
          pose = (if pose > int l then int l else pose)
      in if posi > pose then Inr []
         else let n = sint (word_of_int (pose - posi + 1) :: 32 word) in
           if posi + n \<le> pose then lua_error ''string slice too long''
           else if \<not> room n then lua_error ''stack overflow (string slice too long)''
           else Inr (map (\<lambda>k. uchar (s ! (nat posi + k - 1))) [0..<nat n]))"

definition str_char :: "int list \<Rightarrow> lua_err + string" where
  "str_char cs =
     (if \<forall>c \<in> set cs. c mod 256 = c then Inr (map chr_of cs) else lua_error ''invalid value'')"

section \<open>Searching\<close>

text \<open>\<open>memchr\<close> on the \<open>l1\<close> bytes from \<open>s1\<close> on.\<close>

fun memchr :: "string \<Rightarrow> nat \<Rightarrow> char \<Rightarrow> nat \<Rightarrow> nat option" where
  "memchr s i c 0 = None"
| "memchr s i c (Suc n) = (if s ! i = c then Some i else memchr s (i + 1) c n)"

lemma memchr_bounds: "memchr s i c n = Some j \<Longrightarrow> i \<le> j \<and> j < i + n"
  by (induction s i c n rule: memchr.induct) (auto split: if_splits)

function lmemfind_loop :: "string \<Rightarrow> string \<Rightarrow> nat \<Rightarrow> nat \<Rightarrow> nat option" where
  "lmemfind_loop s s2 s1 l1 =
     (if l1 > 0 then
        case memchr s s1 (s2 ! 0) l1 of
          None \<Rightarrow> None
        | Some init \<Rightarrow>
            let init = init + 1 in
            if take (length s2 - 1) (drop init s) = drop 1 s2 then Some (init - 1)
            else lmemfind_loop s s2 init (l1 - (init - s1))
      else None)"
  by pat_completeness auto
termination by (relation "measure (\<lambda>(s, s2, s1, l1). l1)") (auto dest: memchr_bounds)

declare lmemfind_loop.simps [simp del]

text \<open>\<open>s1\<close> is the offset in \<open>s\<close>, \<open>l1\<close> the number of bytes from there.\<close>

definition lmemfind :: "string \<Rightarrow> nat \<Rightarrow> nat \<Rightarrow> string \<Rightarrow> nat option" where
  "lmemfind s s1 l1 s2 =
     (if length s2 = 0 then Some s1
      else if length s2 > l1 then None
      else lmemfind_loop s s2 s1 (l1 - (length s2 - 1)))"

section \<open>Captures as results\<close>

definition push_onecapture :: "(int \<Rightarrow> 'n) \<Rightarrow> string \<Rightarrow> MatchState \<Rightarrow> int \<Rightarrow> nat \<Rightarrow> nat \<Rightarrow> lua_err + 'n sval" where
  "push_onecapture ofint src ms i s e =
     (if i \<ge> int (level ms) then
        if i = 0 then Inr (SStr (take (e - s) (drop s src)))
        else lua_error ''invalid capture index''
      else if i < 0 then Inl (UB ''capture'')
      else let l = cap_len ms ! nat i; init = cap_init ms ! nat i in
        if l = CAP_UNFINISHED then lua_error ''unfinished capture''
        else if l = CAP_POSITION then Inr (SNum (ofint (int init + 1)))
        else Inr (SStr (take (nat l) (drop init src))))"

fun push_list :: "(nat \<Rightarrow> lua_err + 'n sval) \<Rightarrow> nat list \<Rightarrow> lua_err + 'n sval list" where
  "push_list f [] = Inr []"
| "push_list f (i # is) = bindE (f i) (\<lambda>v. bindE (push_list f is) (\<lambda>vs. Inr (v # vs)))"

text \<open>\<open>s\<close> is \<open>None\<close> for the NULL that \<open>find\<close> passes.\<close>

definition push_captures ::
  "(int \<Rightarrow> 'n) \<Rightarrow> (int \<Rightarrow> bool) \<Rightarrow> string \<Rightarrow> MatchState \<Rightarrow> nat option \<Rightarrow> nat \<Rightarrow> lua_err + 'n sval list" where
  "push_captures ofint room src ms s e =
     (let nlevels = (if level ms = 0 \<and> s \<noteq> None then 1 else level ms) in
      if \<not> room (int nlevels) then lua_error ''stack overflow (too many captures)''
      else push_list (\<lambda>i. push_onecapture ofint src ms (int i) (case s of None \<Rightarrow> 0 | Some s \<Rightarrow> s) e) [0..<nlevels])"

section \<open>find and match\<close>

definition SPECIALS :: string where "SPECIALS = ''^$*+?.([%-''"

definition has_special :: "string \<Rightarrow> bool" where
  "has_special p = list_ex (\<lambda>c. c \<in> set SPECIALS) (takeWhile (\<lambda>c. c \<noteq> CHR 0x00) p)"

text \<open>The \<open>do\<close> loop: the first position from \<open>s1\<close> on where the pattern matches.\<close>

function find_loop :: "string \<Rightarrow> string \<Rightarrow> nat \<Rightarrow> bool \<Rightarrow> MatchState \<Rightarrow> nat \<Rightarrow> lua_err + (nat \<times> nat \<times> MatchState) option" where
  "find_loop src pat p anchor ms s1 =
     bindE (match src pat (ms\<lparr>level := 0\<rparr>) s1 p) (\<lambda>(res, ms).
       case res of
         Some res \<Rightarrow> Inr (Some (s1, res, ms))
       | None \<Rightarrow> if s1 < length src \<and> \<not> anchor then find_loop src pat p anchor ms (s1 + 1) else Inr None)"
  by pat_completeness auto
termination by (relation "measure (\<lambda>(src, pat, p, anchor, ms, s1). length src - s1)") auto

declare find_loop.simps [simp del]

definition str_find_aux ::
  "(int \<Rightarrow> 'n) \<Rightarrow> (int \<Rightarrow> bool) \<Rightarrow> bool \<Rightarrow> string \<Rightarrow> string \<Rightarrow> int option \<Rightarrow> bool \<Rightarrow> MatchState \<Rightarrow> lua_err + 'n sval list" where
  "str_find_aux ofint room isfind s p i plain ms =
     (let l1 = length s; l2 = length p;
          init = posrelat (case i of None \<Rightarrow> 1 | Some i \<Rightarrow> i) l1 - 1;
          init = (if init < 0 then 0 else if init > int l1 then int l1 else init)
      in if isfind \<and> (plain \<or> \<not> has_special p) then
           case lmemfind s (nat init) (l1 - nat init) p of
             Some s2 \<Rightarrow> Inr [SNum (ofint (int s2 + 1)), SNum (ofint (int s2 + int l2))]
           | None \<Rightarrow> Inr [SNil]
         else let anchor = (cstr_at p 0 = CHR ''^'') in
           bindE (find_loop s p (if anchor then 1 else 0) anchor ms (nat init)) (\<lambda>r.
             case r of
               None \<Rightarrow> Inr [SNil]
             | Some (s1, res, ms) \<Rightarrow>
                 if isfind then
                   bindE (push_captures ofint room s ms None 0) (\<lambda>cs.
                     Inr (SNum (ofint (int s1 + 1)) # SNum (ofint (int res)) # cs))
                 else push_captures ofint room s ms (Some s1) res))"

definition str_find where "str_find ofint room s p i plain ms = str_find_aux ofint room True s p i plain ms"
definition str_match where "str_match ofint room s p i ms = str_find_aux ofint room False s p i False ms"

section \<open>gmatch\<close>

text \<open>One call of the iterator; \<open>start\<close> is its third upvalue, returned updated.\<close>

function gmatch_aux ::
  "(int \<Rightarrow> 'n) \<Rightarrow> (int \<Rightarrow> bool) \<Rightarrow> string \<Rightarrow> string \<Rightarrow> MatchState \<Rightarrow> nat \<Rightarrow> nat \<Rightarrow> lua_err + 'n sval list \<times> nat" where
  "gmatch_aux ofint room s p ms start src =
     (if \<not> src \<le> length s then Inr ([], start)
      else bindE (match s p (ms\<lparr>level := 0\<rparr>) src 0) (\<lambda>(e, ms).
        case e of
          Some e \<Rightarrow>
            let newstart = (if e = src then e + 1 else e) in
            bindE (push_captures ofint room s ms (Some src) e) (\<lambda>cs. Inr (cs, newstart))
        | None \<Rightarrow> gmatch_aux ofint room s p ms start (src + 1)))"
  by pat_completeness auto
termination by (relation "measure (\<lambda>(ofint, room, s, p, ms, start, src). Suc (length s) - src)") auto

declare gmatch_aux.simps [simp del]

section \<open>gsub\<close>

text \<open>
  The third argument: a string (or a number, as its string), a function, or a table.  The function
  and the metamethods of the table are Lua code: they are arguments of the model and thread a
  state \<open>'st\<close>.
\<close>

datatype ('n, 'st) repl =
    Repl_string string
  | Repl_function "'n sval list \<Rightarrow> 'st \<Rightarrow> lua_err + 'n sval \<times> 'st"
  | Repl_table "'n sval \<Rightarrow> 'st \<Rightarrow> lua_err + 'n sval \<times> 'st"

definition sval_str :: "('n \<Rightarrow> string) \<Rightarrow> 'n sval \<Rightarrow> lua_err + string" where
  "sval_str n2s v = (case v of SStr s \<Rightarrow> Inr s | SNum n \<Rightarrow> Inr (n2s n) | _ \<Rightarrow> Inl (UB ''addvalue''))"

function add_s ::
  "(int \<Rightarrow> 'n) \<Rightarrow> ('n \<Rightarrow> string) \<Rightarrow> string \<Rightarrow> MatchState \<Rightarrow> string \<Rightarrow> nat \<Rightarrow> string \<Rightarrow> nat \<Rightarrow> nat \<Rightarrow> lua_err + string" where
  "add_s ofint n2s news ms src i b s e =
     (if \<not> i < length news then Inr b
      else if news ! i \<noteq> L_ESC then add_s ofint n2s news ms src (i + 1) (b @ [news ! i]) s e
      else let i = i + 1; c = cstr_at news i in
        if \<not> isdigit (uchar c) then add_s ofint n2s news ms src (i + 1) (b @ [c]) s e
        else if c = CHR ''0'' then add_s ofint n2s news ms src (i + 1) (b @ take (e - s) (drop s src)) s e
        else bindE (push_onecapture ofint src ms (uchar c - 49) s e) (\<lambda>v.
          bindE (sval_str n2s v) (\<lambda>x. add_s ofint n2s news ms src (i + 1) (b @ x) s e)))"
  by pat_completeness auto
termination by (relation "measure (\<lambda>(ofint, n2s, news, ms, src, i, b, s, e). length news - i)") auto

declare add_s.simps [simp del]

definition typename_of :: "'n sval \<Rightarrow> string" where
  "typename_of v = (case v of SNil \<Rightarrow> ''nil'' | SBool _ \<Rightarrow> ''boolean'' | SNum _ \<Rightarrow> ''number'' | SStr _ \<Rightarrow> ''string'' | SOther t \<Rightarrow> t)"

definition add_result :: "('n \<Rightarrow> string) \<Rightarrow> string \<Rightarrow> string \<Rightarrow> nat \<Rightarrow> nat \<Rightarrow> 'n sval \<Rightarrow> lua_err + string" where
  "add_result n2s src b s e v =
     (case v of
        SNil \<Rightarrow> Inr (b @ take (e - s) (drop s src))
      | SBool False \<Rightarrow> Inr (b @ take (e - s) (drop s src))
      | SStr x \<Rightarrow> Inr (b @ x)
      | SNum n \<Rightarrow> Inr (b @ n2s n)
      | _ \<Rightarrow> lua_error (''invalid replacement value (a '' @ typename_of v @ '')''))"

definition add_value ::
  "(int \<Rightarrow> 'n) \<Rightarrow> ('n \<Rightarrow> string) \<Rightarrow> (int \<Rightarrow> bool) \<Rightarrow> ('n, 'st) repl \<Rightarrow> MatchState \<Rightarrow> string \<Rightarrow> 'st \<Rightarrow> string \<Rightarrow> nat \<Rightarrow> nat \<Rightarrow>
     lua_err + string \<times> 'st" where
  "add_value ofint n2s room r ms src st b s e =
     (case r of
        Repl_string news \<Rightarrow> bindE (add_s ofint n2s news ms src 0 b s e) (\<lambda>b. Inr (b, st))
      | Repl_function f \<Rightarrow> bindE (push_captures ofint room src ms (Some s) e) (\<lambda>cs.
          bindE (f cs st) (\<lambda>(v, st). bindE (add_result n2s src b s e v) (\<lambda>b. Inr (b, st))))
      | Repl_table t \<Rightarrow> bindE (push_onecapture ofint src ms 0 s e) (\<lambda>k.
          bindE (t k st) (\<lambda>(v, st). bindE (add_result n2s src b s e v) (\<lambda>b. Inr (b, st)))))"

function gsub_loop ::
  "(int \<Rightarrow> 'n) \<Rightarrow> ('n \<Rightarrow> string) \<Rightarrow> (int \<Rightarrow> bool) \<Rightarrow> ('n, 'st) repl \<Rightarrow> string \<Rightarrow> string \<Rightarrow> nat \<Rightarrow> bool \<Rightarrow> int \<Rightarrow>
     MatchState \<Rightarrow> 'st \<Rightarrow> string \<Rightarrow> nat \<Rightarrow> int \<Rightarrow> lua_err + string \<times> nat \<times> int \<times> 'st" where
  "gsub_loop ofint n2s room r src pat p anchor max_s ms st b s n =
     (if \<not> n < max_s then Inr (b, s, n, st)
      else bindE (match src pat (ms\<lparr>level := 0\<rparr>) s p) (\<lambda>(e, ms).
        bindE (case e of None \<Rightarrow> Inr (b, n, st)
                 | Some e \<Rightarrow> bindE (add_value ofint n2s room r ms src st b s e) (\<lambda>(b, st). Inr (b, n + 1, st))) (\<lambda>(b, n, st).
        case (case e of Some e \<Rightarrow> if e > s then Some e else None | None \<Rightarrow> None) of
          Some e \<Rightarrow> if e \<le> length src then
              (if anchor then Inr (b, e, n, st) else gsub_loop ofint n2s room r src pat p anchor max_s ms st b e n)
            else Inl (UB ''gsub'')
        | None \<Rightarrow> if s < length src then
              (if anchor then Inr (b @ [src ! s], s + 1, n, st)
               else gsub_loop ofint n2s room r src pat p anchor max_s ms st (b @ [src ! s]) (s + 1) n)
            else Inr (b, s, n, st))))"
  by pat_completeness auto
termination
  by (relation "measure (\<lambda>(ofint, n2s, room, r, src, pat, p, anchor, max_s, ms, st, b, s, n). length src - s)")
    (auto split: option.splits if_splits)

declare gsub_loop.simps [simp del]

text \<open>\<open>luaL_optint\<close> narrows the default \<open>srcl + 1\<close> to an \<open>int\<close>.\<close>

definition str_gsub ::
  "(int \<Rightarrow> 'n) \<Rightarrow> ('n \<Rightarrow> string) \<Rightarrow> (int \<Rightarrow> bool) \<Rightarrow> string \<Rightarrow> string \<Rightarrow> ('n, 'st) repl \<Rightarrow> int option \<Rightarrow> MatchState \<Rightarrow> 'st \<Rightarrow>
     lua_err + (string \<times> int) \<times> 'st" where
  "str_gsub ofint n2s room src pat r max_arg ms st =
     (let srcl = length src;
          max_s = sint (word_of_int (case max_arg of None \<Rightarrow> int srcl + 1 | Some m \<Rightarrow> m) :: 32 word);
          anchor = (cstr_at pat 0 = CHR ''^'')
      in bindE (gsub_loop ofint n2s room r src pat (if anchor then 1 else 0) anchor max_s ms st '''' 0 0)
           (\<lambda>(b, s, n, st). Inr ((b @ drop s src, n), st)))"

section \<open>Quoting and formats\<close>

fun addquoted_loop :: "string \<Rightarrow> string \<Rightarrow> string" where
  "addquoted_loop [] b = b"
| "addquoted_loop (c # s) b = addquoted_loop s
     (if c = CHR 0x22 \<or> c = CHR 0x5C \<or> c = CHR 0x0A then b @ [CHR 0x5C, c]
      else if c = CHR 0x0D then b @ [CHR 0x5C, CHR ''r'']
      else if c = CHR 0x00 then b @ [CHR 0x5C, CHR ''0'', CHR ''0'', CHR ''0'']
      else b @ [c])"

definition addquoted :: "string \<Rightarrow> string \<Rightarrow> string" where
  "addquoted s b = addquoted_loop s (b @ [CHR 0x22]) @ [CHR 0x22]"

definition FLAGS :: string where "FLAGS = ''-+ #0''"
definition sizeof_FLAGS :: nat where "sizeof_FLAGS = 6"
definition LUA_INTFRMLEN :: string where "LUA_INTFRMLEN = ''l''"
definition sizeof_INTFRMLEN :: nat where "sizeof_INTFRMLEN = 2"
definition MAX_FORMAT :: nat where "MAX_FORMAT = sizeof_FLAGS + sizeof_INTFRMLEN + 10"

function skip_flags :: "string \<Rightarrow> nat \<Rightarrow> nat" where
  "skip_flags f p = (if cstr_at f p \<noteq> CHR 0x00 \<and> cstr_at f p \<in> set FLAGS then skip_flags f (p + 1) else p)"
  by pat_completeness auto
termination by (relation "measure (\<lambda>(f, p). length f - p)") (auto dest!: cstr_at_nonzero)

declare skip_flags.simps [simp del]

definition skip_digit :: "string \<Rightarrow> nat \<Rightarrow> nat" where
  "skip_digit f p = (if isdigit (uchar (cstr_at f p)) then p + 1 else p)"

text \<open>The end of the specification that starts at \<open>p0\<close>, and the contents of \<open>form\<close>.\<close>

definition scanformat :: "string \<Rightarrow> nat \<Rightarrow> lua_err + nat \<times> string" where
  "scanformat f p0 =
     (let p = skip_flags f p0 in
      if p - p0 \<ge> sizeof_FLAGS then lua_error ''invalid format (repeated flags)''
      else let p = skip_digit f (skip_digit f p);
               p = (if cstr_at f p = CHR ''.'' then skip_digit f (skip_digit f (p + 1)) else p)
        in if isdigit (uchar (cstr_at f p)) then lua_error ''invalid format (width or precision too long)''
           else Inr (p, CHR ''%'' # take (p - p0 + 1) (drop p0 f)))"

definition addintlen :: "string \<Rightarrow> string" where
  "addintlen form = butlast form @ LUA_INTFRMLEN @ [last form]"

text \<open>
  \<open>str_format\<close>: \<open>num\<close> and \<open>str\<close> are \<open>luaL_checknumber\<close> and \<open>luaL_checklstring\<close> on an argument
  index, \<open>sprintf\<close> is the C library's on a specification and one argument.
\<close>

datatype 'n fmt_arg = F_int 'n | F_long 'n | F_ulong 'n | F_double 'n | F_str string

definition MAX_ITEM :: nat where "MAX_ITEM = 512"

text \<open>What \<open>luaL_addlstring(&b, buff, strlen(buff))\<close> adds; \<open>buff\<close> holds \<open>MAX_ITEM\<close> bytes.\<close>

definition sprintf_buff :: "(string \<Rightarrow> 'n fmt_arg \<Rightarrow> string) \<Rightarrow> string \<Rightarrow> 'n fmt_arg \<Rightarrow> lua_err + string" where
  "sprintf_buff sprintf form a =
     (if length form \<ge> MAX_FORMAT then Inl (UB ''form'')
      else if length (sprintf form a) \<ge> MAX_ITEM then Inl (UB ''buff'')
      else Inr (takeWhile (\<lambda>c. c \<noteq> CHR 0x00) (sprintf form a)))"

definition format_item ::
  "(string \<Rightarrow> 'n fmt_arg \<Rightarrow> string) \<Rightarrow> (nat \<Rightarrow> lua_err + 'n) \<Rightarrow> (nat \<Rightarrow> lua_err + string) \<Rightarrow> nat \<Rightarrow> char \<Rightarrow> string \<Rightarrow> lua_err + string" where
  "format_item sprintf num str arg c form =
     (if c = CHR ''c'' then bindE (num arg) (\<lambda>n. sprintf_buff sprintf form (F_int n))
      else if c = CHR ''d'' \<or> c = CHR ''i'' then bindE (num arg) (\<lambda>n. sprintf_buff sprintf (addintlen form) (F_long n))
      else if c = CHR ''o'' \<or> c = CHR ''u'' \<or> c = CHR ''x'' \<or> c = CHR ''X'' then
        bindE (num arg) (\<lambda>n. sprintf_buff sprintf (addintlen form) (F_ulong n))
      else if c = CHR ''e'' \<or> c = CHR ''E'' \<or> c = CHR ''f'' \<or> c = CHR ''g'' \<or> c = CHR ''G'' then
        bindE (num arg) (\<lambda>n. sprintf_buff sprintf form (F_double n))
      else if c = CHR ''q'' then bindE (str arg) (\<lambda>s. Inr (addquoted s ''''))
      else if c = CHR ''s'' then bindE (str arg) (\<lambda>s.
        if CHR ''.'' \<notin> set form \<and> length s \<ge> 100 then Inr s else sprintf_buff sprintf form (F_str s))
      else lua_error ''invalid option to format'')"

function format_loop ::
  "(string \<Rightarrow> 'n fmt_arg \<Rightarrow> string) \<Rightarrow> (nat \<Rightarrow> lua_err + 'n) \<Rightarrow> (nat \<Rightarrow> lua_err + string) \<Rightarrow> string \<Rightarrow> nat \<Rightarrow> nat \<Rightarrow> string \<Rightarrow> lua_err + string" where
  "format_loop sprintf num str f i arg b =
     (if \<not> i < length f then Inr b
      else if f ! i \<noteq> L_ESC then format_loop sprintf num str f (i + 1) arg (b @ [f ! i])
      else if cstr_at f (i + 1) = L_ESC then format_loop sprintf num str f (i + 2) arg (b @ [L_ESC])
      else bindE (scanformat f (i + 1)) (\<lambda>(p, form).
        if \<not> i < p then Inl (UB ''scanformat'')
        else bindE (format_item sprintf num str (arg + 1) (cstr_at f p) form) (\<lambda>x.
          format_loop sprintf num str f (p + 1) (arg + 1) (b @ x))))"
  by pat_completeness auto
termination by (relation "measure (\<lambda>(sprintf, num, str, f, i, arg, b). length f - i)") auto

declare format_loop.simps [simp del]

definition str_format ::
  "(string \<Rightarrow> 'n fmt_arg \<Rightarrow> string) \<Rightarrow> (nat \<Rightarrow> lua_err + 'n) \<Rightarrow> (nat \<Rightarrow> lua_err + string) \<Rightarrow> string \<Rightarrow> lua_err + string" where
  "str_format sprintf num str f = format_loop sprintf num str f 0 1 ''''"

section \<open>The plain search\<close>

definition occurs_at :: "string \<Rightarrow> string \<Rightarrow> nat \<Rightarrow> bool" where
  "occurs_at s s2 i = (take (length s2) (drop i s) = s2)"

lemma memchr_Some: "memchr s i c n = Some j \<Longrightarrow> s ! j = c \<and> (\<forall>k. i \<le> k \<and> k < j \<longrightarrow> s ! k \<noteq> c)"
proof (induction s i c n rule: memchr.induct)
  case (2 s i c n)
  then show ?case by (cases "s ! i = c") (auto simp: Suc_le_eq, metis le_neq_implies_less)
qed simp

lemma memchr_None: "memchr s i c n = None \<Longrightarrow> \<forall>k. i \<le> k \<and> k < i + n \<longrightarrow> s ! k \<noteq> c"
proof (induction s i c n rule: memchr.induct)
  case (2 s i c n)
  then show ?case by (cases "s ! i = c") (auto simp: Suc_le_eq, metis le_neq_implies_less)
qed auto

lemma occurs_at_first:
  assumes "s2 \<noteq> []" "i < length s"
  shows "occurs_at s s2 i = (s ! i = s2 ! 0 \<and> take (length s2 - 1) (drop (i + 1) s) = drop 1 s2)"
proof -
  obtain c t where "s2 = c # t" using assms(1) by (cases s2) auto
  moreover have "drop i s = s ! i # drop (i + 1) s" using assms(2) by (simp add: Cons_nth_drop_Suc)
  ultimately show ?thesis by (simp add: occurs_at_def)
qed

lemma lmemfind_loop_spec:
  assumes "s2 \<noteq> []" "s1 + l1 + length s2 = length s + 1"
  shows "case lmemfind_loop s s2 s1 l1 of
       Some i \<Rightarrow> s1 \<le> i \<and> occurs_at s s2 i \<and> (\<forall>j. s1 \<le> j \<and> j < i \<longrightarrow> \<not> occurs_at s s2 j)
     | None \<Rightarrow> \<forall>j. s1 \<le> j \<and> j < s1 + l1 \<longrightarrow> \<not> occurs_at s s2 j"
  using assms
proof (induction s s2 s1 l1 rule: lmemfind_loop.induct)
  case (1 s s2 s1 l1)
  have first: "occurs_at s s2 i = (s ! i = s2 ! 0 \<and> take (length s2 - 1) (drop (i + 1) s) = drop 1 s2)"
    if "i < s1 + l1" for i
  proof -
    have "0 < length s2" using 1(2) by simp
    then have "i < length s" using that 1(3) by linarith
    with 1(2) show ?thesis by (rule occurs_at_first)
  qed
  show ?case
  proof (cases "l1 > 0")
    case True
    show ?thesis
    proof (cases "memchr s s1 (s2 ! 0) l1")
      case None
      with memchr_None [OF None] show ?thesis using first by (subst lmemfind_loop.simps) (simp add: True)
    next
      case (Some i)
      note b = memchr_bounds [OF Some] and m = memchr_Some [OF Some]
      have before: "\<not> occurs_at s s2 j" if "s1 \<le> j" "j < i" for j using first [of j] m b that by auto
      show ?thesis
      proof (cases "take (length s2 - 1) (drop (i + 1) s) = drop 1 s2")
        case eq: True
        then have "lmemfind_loop s s2 s1 l1 = Some i"
          using True Some by (subst lmemfind_loop.simps) simp
        then show ?thesis using first [of i] m b eq before by simp
      next
        case False
        then have step: "lmemfind_loop s s2 s1 l1 = lmemfind_loop s s2 (i + 1) (l1 - (i + 1 - s1))"
          using True Some by (subst lmemfind_loop.simps) (simp add: Let_def)
        have ni: "\<not> occurs_at s s2 i" using first [of i] b False by simp
        have all: "\<not> occurs_at s s2 j" if "s1 \<le> j" "j \<le> i" for j using before ni that by (cases "j = i") auto
        have e: "i + 1 + (l1 - (i + 1 - s1)) = s1 + l1" using b by simp
        then have "i + 1 + (l1 - (i + 1 - s1)) + length s2 = length s + 1" using 1(3) by simp
        then have IH: "case lmemfind_loop s s2 (i + 1) (l1 - (i + 1 - s1)) of
             Some k \<Rightarrow> i + 1 \<le> k \<and> occurs_at s s2 k \<and> (\<forall>j. i + 1 \<le> j \<and> j < k \<longrightarrow> \<not> occurs_at s s2 j)
           | None \<Rightarrow> \<forall>j. i + 1 \<le> j \<and> j < s1 + l1 \<longrightarrow> \<not> occurs_at s s2 j"
          using 1(1) [OF True Some refl False 1(2)] by (simp only: e)
        show ?thesis unfolding step
        proof (cases "lmemfind_loop s s2 (i + 1) (l1 - (i + 1 - s1))")
          case None
          with IH have "\<forall>j. i + 1 \<le> j \<and> j < s1 + l1 \<longrightarrow> \<not> occurs_at s s2 j" by simp
          then show "case lmemfind_loop s s2 (i + 1) (l1 - (i + 1 - s1)) of
               Some i \<Rightarrow> s1 \<le> i \<and> occurs_at s s2 i \<and> (\<forall>j. s1 \<le> j \<and> j < i \<longrightarrow> \<not> occurs_at s s2 j)
             | None \<Rightarrow> \<forall>j. s1 \<le> j \<and> j < s1 + l1 \<longrightarrow> \<not> occurs_at s s2 j"
            using None all by (simp add: Suc_le_eq) (metis not_less)
        next
          case (Some k)
          with IH have "i + 1 \<le> k" "occurs_at s s2 k" "\<forall>j. i + 1 \<le> j \<and> j < k \<longrightarrow> \<not> occurs_at s s2 j" by simp_all
          then show "case lmemfind_loop s s2 (i + 1) (l1 - (i + 1 - s1)) of
               Some i \<Rightarrow> s1 \<le> i \<and> occurs_at s s2 i \<and> (\<forall>j. s1 \<le> j \<and> j < i \<longrightarrow> \<not> occurs_at s s2 j)
             | None \<Rightarrow> \<forall>j. s1 \<le> j \<and> j < s1 + l1 \<longrightarrow> \<not> occurs_at s s2 j"
            using Some all b by (simp add: Suc_le_eq) (metis not_less)
        qed
      qed
    qed
  qed (subst lmemfind_loop.simps, auto)
qed

lemma occurs_at_room: "occurs_at s s2 i \<Longrightarrow> s2 = [] \<or> i + length s2 \<le> length s"
  by (auto simp: occurs_at_def dest: arg_cong [where f = length])

text \<open>
  \<open>lmemfind\<close> finds the first occurrence of the second string at or behind the start, and
  answers NULL only when there is none.
\<close>

theorem lmemfind_first:
  assumes "s1 + l1 = length s"
  shows "case lmemfind s s1 l1 s2 of
       Some i \<Rightarrow> s1 \<le> i \<and> occurs_at s s2 i \<and> (\<forall>j. s1 \<le> j \<and> j < i \<longrightarrow> \<not> occurs_at s s2 j)
     | None \<Rightarrow> \<forall>j. s1 \<le> j \<longrightarrow> \<not> occurs_at s s2 j"
proof (cases "s2 = [] \<or> length s2 > l1")
  case True
  then show ?thesis using assms by (auto simp: lmemfind_def occurs_at_def dest: arg_cong [where f = length])
next
  case False
  have n: "\<not> occurs_at s s2 j" if "s1 + (l1 - (length s2 - 1)) \<le> j" for j
    using False assms occurs_at_room [of s s2 j] that by (cases s2) auto
  have "s1 + (l1 - (length s2 - 1)) + length s2 = length s + 1" using False assms by (cases s2) auto
  from lmemfind_loop_spec [OF _ this] False n show ?thesis
    by (auto simp: lmemfind_def split: option.splits) (meson not_less)
qed

lemma lmemfind_first_witness:
  "lmemfind ''abcabd'' 1 5 ''abd'' = Some 3 \<and> occurs_at ''abcabd'' ''abd'' 3 \<and> \<not> occurs_at ''abcabd'' ''abd'' 2"
proof -
  have r: "lmemfind ''abcabd'' 1 5 ''abd'' = Some 3" by code_simp
  show ?thesis using lmemfind_first [of 1 5 "''abcabd''" "''abd''"] r by simp
qed

section \<open>find, gmatch and gsub\<close>

text \<open>What a call of \<open>match\<close> on a fresh match state gives.\<close>

definition cap_arrays :: "MatchState \<Rightarrow> bool" where
  "cap_arrays ms = (length (cap_init ms) = LUA_MAXCAPTURES \<and> length (cap_len ms) = LUA_MAXCAPTURES)"

lemma ms_ok_arrays: "ms_ok s ms \<Longrightarrow> cap_arrays ms"
  by (simp add: ms_ok_def cap_arrays_def)

lemma match_fresh:
  assumes "length src < 2 ^ 63" "p \<le> length pat" "s \<le> length src" "cap_arrays ms"
  shows "good src s (ms\<lparr>level := 0\<rparr>) (match src pat (ms\<lparr>level := 0\<rparr>) s p) (matches src pat [] s p)"
proof -
  have "caps_of (ms\<lparr>level := 0\<rparr>) = []" by (simp add: caps_of_def)
  with ok_fromD [OF ok_from_all [OF assms(1,2)] _ assms(3), of "ms\<lparr>level := 0\<rparr>"] assms(4)
  show ?thesis by (simp add: ms_ok_level_0 cap_arrays_def)
qed

lemma match_fresh_cases:
  assumes "length src < 2 ^ 63" "p \<le> length pat" "s \<le> length src" "cap_arrays ms"
  obtains (error) err where "match src pat (ms\<lparr>level := 0\<rparr>) s p = Inl err" "\<And>u. err \<noteq> UB u"
  | (fail) ms' where "match src pat (ms\<lparr>level := 0\<rparr>) s p = Inr (None, ms')" "cap_arrays ms'" "\<And>e cs. \<not> matches src pat [] s p e cs"
  | (found) e ms' where "match src pat (ms\<lparr>level := 0\<rparr>) s p = Inr (Some e, ms')" "s \<le> e" "e \<le> length src"
      "ms_ok e ms'" "matches src pat [] s p e (caps_of ms')"
proof -
  note G = match_fresh [OF assms]
  consider err where "match src pat (ms\<lparr>level := 0\<rparr>) s p = Inl err"
    | ms' where "match src pat (ms\<lparr>level := 0\<rparr>) s p = Inr (None, ms')"
    | e ms' where "match src pat (ms\<lparr>level := 0\<rparr>) s p = Inr (Some e, ms')"
    by (metis old.prod.exhaust old.sum.exhaust option.exhaust)
  then show thesis
    by cases (use G error fail found in \<open>auto simp: good_def same_caps_def cap_arrays_def\<close>)
qed

lemma find_loop_spec:
  assumes "length src < 2 ^ 63" "p \<le> length pat" "s1 \<le> length src" "cap_arrays ms"
  shows "case find_loop src pat p anchor ms s1 of
      Inl e \<Rightarrow> \<forall>u. e \<noteq> UB u
    | Inr None \<Rightarrow> \<forall>j. s1 \<le> j \<and> j \<le> (if anchor then s1 else length src) \<longrightarrow> (\<nexists>e cs. matches src pat [] j p e cs)
    | Inr (Some (s, e, ms')) \<Rightarrow> s1 \<le> s \<and> (anchor \<longrightarrow> s = s1) \<and> s \<le> e \<and> e \<le> length src \<and> ms_ok e ms' \<and>
        matches src pat [] s p e (caps_of ms') \<and> (\<forall>j. s1 \<le> j \<and> j < s \<longrightarrow> (\<nexists>e cs. matches src pat [] j p e cs))"
  using assms(3,4)
proof (induction "length src - s1" arbitrary: s1 ms rule: less_induct)
  case less
  show ?case
  proof (rule match_fresh_cases [OF assms(1,2) less(2,3)])
    fix ms' assume m: "match src pat (ms\<lparr>level := 0\<rparr>) s1 p = Inr (None, ms')" "cap_arrays ms'" "\<And>e cs. \<not> matches src pat [] s1 p e cs"
    show ?thesis
    proof (cases "s1 < length src \<and> \<not> anchor")
      case True
      have eq: "find_loop src pat p anchor ms s1 = find_loop src pat p anchor ms' (s1 + 1)"
        using m(1) True by (subst find_loop.simps) simp
      moreover have n: "Suc s1 \<le> j" if "s1 \<le> j" "matches src pat [] j p e cs" for j e cs
        using m(3) that by (metis le_antisym not_less_eq_eq)
      moreover have "length src - (s1 + 1) < length src - s1" "s1 + 1 \<le> length src" using True by auto
      note IH = less(1) [OF this m(2)]
      ultimately show ?thesis
      proof (cases "find_loop src pat p anchor ms' (s1 + 1)")
        case (Inr r)
        show ?thesis
        proof (cases r)
          case None
          have "\<forall>j. s1 \<le> j \<and> j \<le> length src \<longrightarrow> (\<nexists>e cs. matches src pat [] j p e cs)"
            using IH [unfolded Inr None] True n unfolding Suc_eq_plus1 by (simp only: sum.case option.case if_False simp_thms) blast
          then show ?thesis using eq Inr None True by simp
        next
          case (Some x)
          obtain s e ms'' where x: "x = (s, e, ms'')" by (cases x)
          note IH' = IH [unfolded Inr Some x sum.case option.case prod.case]
          then have "s1 \<le> s \<and> s \<le> e \<and> e \<le> length src \<and> ms_ok e ms'' \<and> matches src pat [] s p e (caps_of ms'')"
            by simp
          moreover have "\<forall>j. s1 \<le> j \<and> j < s \<longrightarrow> (\<nexists>e cs. matches src pat [] j p e cs)"
            using IH' n unfolding Suc_eq_plus1 by blast
          ultimately show ?thesis using eq Inr Some x True by simp
        qed
      qed (use IH in simp)
    next
      case False
      then have "find_loop src pat p anchor ms s1 = Inr None"
        using m(1) by (subst find_loop.simps) auto
      then show ?thesis using m(3) False less(2) by (auto simp: not_less)
    qed
  qed (subst find_loop.simps, auto)+
qed


lemma push_onecapture_no_UB: "0 \<le> i \<Longrightarrow> push_onecapture ofint src ms i s e \<noteq> Inl (UB u)"
  by (simp add: push_onecapture_def lua_error_def Let_def)

lemma push_list_no_UB: "(\<And>i. i \<in> set is \<Longrightarrow> f i \<noteq> Inl (UB u)) \<Longrightarrow> push_list f is \<noteq> Inl (UB u)"
  by (induction "is") (auto simp: res_simps)

lemma push_captures_no_UB: "push_captures ofint room src ms s e \<noteq> Inl (UB u)"
  unfolding push_captures_def Let_def by (simp add: lua_error_def push_list_no_UB push_onecapture_no_UB)

lemma push_list_length: "push_list f is = Inr vs \<Longrightarrow> length vs = length is"
  by (induction "is" arbitrary: vs) (auto simp: res_simps)

lemma push_captures_nonempty: "push_captures ofint room src ms (Some s) e = Inr vs \<Longrightarrow> vs \<noteq> []"
proof -
  define n where "n = (if level ms = 0 \<and> Some s \<noteq> None then 1 else level ms)"
  assume "push_captures ofint room src ms (Some s) e = Inr vs"
  then have "push_list (\<lambda>i. push_onecapture ofint src ms (int i) s e) [0..<n] = Inr vs"
    unfolding push_captures_def Let_def n_def [symmetric] by (simp add: lua_error_def split: if_splits)
  then have "length vs = n" by (auto dest: push_list_length)
  then show "vs \<noteq> []" by (auto simp: n_def split: if_splits)
qed

text \<open>The range in which \<open>find\<close> starts.\<close>

definition start_index :: "int option \<Rightarrow> nat \<Rightarrow> nat" where
  "start_index i l = (let k = posrelat (case i of None \<Rightarrow> 1 | Some i \<Rightarrow> i) l - 1
     in nat (if k < 0 then 0 else if k > int l then int l else k))"

lemma start_index_le: "start_index i l \<le> l"
  by (auto simp: start_index_def Let_def)

text \<open>
  C17. A pattern search by \<open>string.find\<close> never leaves the strings; it answers nil only when the
  pattern matches at no position at or behind the start (only the start counts for an anchored
  pattern), and otherwise the first position at which it matches with the end of one match there.
\<close>

theorem str_find_leftmost:
  fixes p :: string
  defines "a \<equiv> (if cstr_at p 0 = CHR ''^'' then 1 else 0)"
  assumes "length s < 2 ^ 63" "cap_arrays ms" "has_special p"
  shows "case str_find ofint room s p i False ms of
      Inl e \<Rightarrow> \<forall>u. e \<noteq> UB u
    | Inr vs \<Rightarrow>
        vs = [SNil] \<and> (\<forall>j. start_index i (length s) \<le> j \<and> j \<le> (if a = 1 then start_index i (length s) else length s) \<longrightarrow>
           (\<nexists>e cs. matches s p [] j a e cs)) \<or>
        (\<exists>j e cs vs'. vs = SNum (ofint (int j + 1)) # SNum (ofint (int e)) # vs' \<and> matches s p [] j a e cs \<and>
           start_index i (length s) \<le> j \<and> (a = 1 \<longrightarrow> j = start_index i (length s)) \<and>
           (\<forall>k. start_index i (length s) \<le> k \<and> k < j \<longrightarrow> (\<nexists>e cs. matches s p [] k a e cs)))"
proof -
  let ?s1 = "start_index i (length s)"
  have a: "a \<le> length p" by (cases p) (simp_all add: a_def cstr_at_def)
  note F = find_loop_spec [OF assms(2) a start_index_le assms(3), of i "cstr_at p 0 = CHR ''^''"]
  have e: "str_find ofint room s p i False ms =
     bindE (find_loop s p a (cstr_at p 0 = CHR ''^'') ms ?s1) (\<lambda>r. case r of None \<Rightarrow> Inr [SNil]
       | Some (s1, res, ms) \<Rightarrow> bindE (push_captures ofint room s ms None 0) (\<lambda>cs.
           Inr (SNum (ofint (int s1 + 1)) # SNum (ofint (int res)) # cs)))"
    using assms(4) by (simp add: str_find_def str_find_aux_def start_index_def Let_def a_def)
  have anc: "(cstr_at p 0 = CHR ''^'') = (a = 1)" by (simp add: a_def)
  show ?thesis
  proof (cases "find_loop s p a (cstr_at p 0 = CHR ''^'') ms ?s1")
    case (Inl err)
    with F show ?thesis unfolding e by simp
  next
    case (Inr r)
    show ?thesis
    proof (cases r)
      case None
      with F Inr show ?thesis unfolding e anc by simp
    next
      case (Some x)
      obtain s1 res ms' where x: "x = (s1, res, ms')" by (cases x)
      have f: "find_loop s p a (cstr_at p 0 = CHR ''^'') ms ?s1 = Inr (Some (s1, res, ms'))"
        by (simp only: Inr Some x)
      have M: "?s1 \<le> s1" "a = 1 \<longrightarrow> s1 = ?s1" "matches s p [] s1 a res (caps_of ms')"
        "\<forall>k. ?s1 \<le> k \<and> k < s1 \<longrightarrow> (\<nexists>e cs. matches s p [] k a e cs)"
        using F unfolding f by (simp_all add: anc)
      have e': "str_find ofint room s p i False ms = bindE (push_captures ofint room s ms' None 0) (\<lambda>cs.
           Inr (SNum (ofint (int s1 + 1)) # SNum (ofint (int res)) # cs))"
        unfolding e f by simp
      show ?thesis
      proof (cases "push_captures ofint room s ms' None 0")
        case (Inl err)
        then show ?thesis unfolding e' using push_captures_no_UB [of ofint room s ms' None 0] by auto
      next
        case (Inr cs)
        have "str_find ofint room s p i False ms = Inr (SNum (ofint (int s1 + 1)) # SNum (ofint (int res)) # cs)"
          unfolding e' Inr by simp
        then show ?thesis using M by (simp only: sum.case) blast
      qed
    qed
  qed
qed

lemma str_find_leftmost_witness:
  "str_find (\<lambda>i. i) (\<lambda>n. n < 8000) ''hello world'' ''o( ?)'' None False initial = Inr [SNum 5, SNum 6, SStr '' ''] \<and>
   (\<nexists>e cs. matches ''hello world'' ''o( ?)'' [] 3 0 e cs)"
proof -
  have r: "str_find (\<lambda>i. i) (\<lambda>n. n < 8000) ''hello world'' ''o( ?)'' None False initial = Inr [SNum 5, SNum 6, SStr '' '']"
    by code_simp
  have i: "start_index None (length ''hello world'') = 0" by code_simp
  have c: "cstr_at ''o( ?)'' 0 = CHR ''o''" by code_simp
  have h: "has_special ''o( ?)''" by code_simp
  have "cap_arrays initial" by (simp add: cap_arrays_def initial_def)
  from str_find_leftmost [where s = "''hello world''" and ofint = "\<lambda>i. i" and room = "\<lambda>n. n < 8000" and i = None, OF _ this h]
  show ?thesis unfolding r i c by auto
qed

text \<open>
  C18. Every call of the \<open>gmatch\<close> iterator that returns values leaves the position from which the
  next call starts strictly larger, and a position behind the subject returns nothing: the
  iteration ends after at most one call per position.
\<close>

theorem gmatch_advances:
  assumes "length s < 2 ^ 63" "cap_arrays ms"
  shows "case gmatch_aux ofint room s p ms start start of
      Inl e \<Rightarrow> \<forall>u. e \<noteq> UB u
    | Inr (vs, start') \<Rightarrow> if vs = [] then start' = start else start < start' \<and> start' \<le> length s + 1"
proof -
  have "case gmatch_aux ofint room s p ms start src of
      Inl e \<Rightarrow> \<forall>u. e \<noteq> UB u
    | Inr (vs, start') \<Rightarrow> if vs = [] then start' = start else src < start' \<and> start' \<le> length s + 1" for src
    using assms(2)
  proof (induction "Suc (length s) - src" arbitrary: src ms rule: less_induct)
    case less
    show ?case
    proof (cases "src \<le> length s")
      case True
      show ?thesis
      proof (rule match_fresh_cases [OF assms(1) _ True less(2), of 0 p])
        fix ms' assume m: "match s p (ms\<lparr>level := 0\<rparr>) src 0 = Inr (None, ms')" "cap_arrays ms'"
        have "Suc (length s) - (src + 1) < Suc (length s) - src" using True by simp
        note less(1) [OF this m(2)]
        moreover have "gmatch_aux ofint room s p ms start src = gmatch_aux ofint room s p ms' start (src + 1)"
          using m(1) True by (subst gmatch_aux.simps) simp
        ultimately show ?thesis by (auto split: sum.splits prod.splits if_splits)
      next
        fix e ms' assume m: "match s p (ms\<lparr>level := 0\<rparr>) src 0 = Inr (Some e, ms')" "src \<le> e" "e \<le> length s"
        then have g: "gmatch_aux ofint room s p ms start src = bindE (push_captures ofint room s ms' (Some src) e)
            (\<lambda>cs. Inr (cs, if e = src then e + 1 else e))"
          using True by (subst gmatch_aux.simps) (simp add: Let_def)
        show ?thesis
        proof (cases "push_captures ofint room s ms' (Some src) e")
          case (Inl err)
          then show ?thesis using push_captures_no_UB [of ofint room s ms' "Some src" e] by (auto simp: g)
        next
          case (Inr cs)
          then show ?thesis using push_captures_nonempty [OF Inr] m(2,3) by (simp add: g)
        qed
      next
        fix err assume "match s p (ms\<lparr>level := 0\<rparr>) src 0 = Inl err" "\<And>u. err \<noteq> UB u"
        then show ?thesis using True by (subst gmatch_aux.simps) simp
      qed simp
    qed (subst gmatch_aux.simps, simp)
  qed
  then show ?thesis .
qed

lemma gmatch_advances_witness:
  "gmatch_aux (\<lambda>i. i) (\<lambda>n. n < 8000) ''a=1, b=2'' ''(%a)=(%d)'' initial 3 3 = Inr ([SStr ''b'', SStr ''2''], 8) \<and> (3::nat) < 8"
proof -
  have r: "gmatch_aux (\<lambda>i. i) (\<lambda>n. n < 8000) ''a=1, b=2'' ''(%a)=(%d)'' initial 3 3 = Inr ([SStr ''b'', SStr ''2''], 8)"
    by code_simp
  have "cap_arrays initial" by (simp add: cap_arrays_def initial_def)
  from gmatch_advances [where s = "''a=1, b=2''" and p = "''(%a)=(%d)''" and start = 3 and ofint = "\<lambda>i. i" and room = "\<lambda>n. n < 8000", OF _ this]
  show ?thesis unfolding r by simp
qed

text \<open>The loop of \<open>gsub\<close>: it keeps to the subject, and what it keeps is bounded.\<close>

lemma add_s_no_UB: "add_s ofint n2s news ms src i b s e \<noteq> Inl (UB u)"
proof (induction ofint n2s news ms src i b s e rule: add_s.induct)
  case (1 ofint n2s news ms src i b s e)
  have p: "0 \<le> uchar c - 49" if "isdigit (uchar c)" "c \<noteq> CHR ''0''" for c
  proof -
    have "uchar c \<noteq> 48" using that(2) uchar_inj [of c "CHR ''0''"] by (auto simp: uchar_def simp del: uchar_inj)
    then show ?thesis using that(1) by (auto simp: isdigit_def)
  qed
  have v: "sval_str n2s v \<noteq> Inl (UB u)" if "push_onecapture ofint src ms k s e = Inr v" for k v
    using that by (auto simp: push_onecapture_def lua_error_def sval_str_def Let_def split: if_splits)
  show ?case
  proof (cases "i < length news")
    case True
    then show ?thesis
      using 1(1) [OF _ ] 1(2-4) push_onecapture_no_UB [OF p, of "cstr_at news (i + 1)" ofint src ms s e u] v
      by (subst add_s.simps) (auto simp: res_simps Let_def)
  qed (subst add_s.simps, simp)
qed

definition total_repl :: "('n, 'st) repl \<Rightarrow> bool" where
  "total_repl r = (case r of Repl_string _ \<Rightarrow> True
     | Repl_function f \<Rightarrow> \<forall>cs st u. f cs st \<noteq> Inl (UB u)
     | Repl_table t \<Rightarrow> \<forall>k st u. t k st \<noteq> Inl (UB u))"

lemma add_result_no_UB: "add_result n2s src b s e v \<noteq> Inl (UB u)"
  by (simp add: add_result_def lua_error_def split: sval.splits bool.splits)

lemma add_value_no_UB: "total_repl r \<Longrightarrow> add_value ofint n2s room r ms src st b s e \<noteq> Inl (UB u)"
  by (auto simp: add_value_def total_repl_def add_s_no_UB res_simps add_result_no_UB push_captures_no_UB push_onecapture_no_UB
      split: repl.splits)

lemma gsub_loop_spec:
  assumes "length src < 2 ^ 63" "p \<le> length pat" "s \<le> length src" "cap_arrays ms" "total_repl r"
  shows "case gsub_loop ofint n2s room r src pat p anchor max_s ms st b s n of
      Inl e \<Rightarrow> \<forall>u. e \<noteq> UB u
    | Inr (b', s', n', st') \<Rightarrow> s \<le> s' \<and> s' \<le> length src \<and> n \<le> n' \<and> (n' \<le> max_s \<or> n' = n) \<and> n' \<le> n + (int (length src) - int s) + 1"
  using assms(3,4)
proof (induction "length src - s" arbitrary: ms st b s n rule: less_induct)
  case less
  let ?g = "gsub_loop ofint n2s room r src pat p anchor max_s"
  show ?case
  proof (cases "n < max_s")
    case True
    show ?thesis
    proof (rule match_fresh_cases [OF assms(1,2) less(2,3)])
      fix err assume "match src pat (ms\<lparr>level := 0\<rparr>) s p = Inl err" "\<And>u. err \<noteq> UB u"
      then show ?thesis using True by (subst gsub_loop.simps) simp
    next
      fix ms' assume m: "match src pat (ms\<lparr>level := 0\<rparr>) s p = Inr (None, ms')" "cap_arrays ms'"
      then have g: "?g ms st b s n = (if s < length src then
            (if anchor then Inr (b @ [src ! s], s + 1, n, st) else ?g ms' st (b @ [src ! s]) (s + 1) n) else Inr (b, s, n, st))"
        using True by (subst gsub_loop.simps) simp
      show ?thesis
      proof (cases "s < length src \<and> \<not> anchor")
        case True
        have l: "length src - (s + 1) < length src - s" "s + 1 \<le> length src" using True by auto
        show ?thesis using less(1) [OF l m(2), where st = st and b = "b @ [src ! s]" and n = n] g True
          by (auto split: sum.splits)
      qed (use g less(2) in auto)
    next
      fix e ms' assume m: "match src pat (ms\<lparr>level := 0\<rparr>) s p = Inr (Some e, ms')" "s \<le> e" "e \<le> length src" "ms_ok e ms'"
      show ?thesis
      proof (cases "add_value ofint n2s room r ms' src st b s e")
        case (Inl err)
        then have "?g ms st b s n = Inl err" using True m(1) by (subst gsub_loop.simps) simp
        then show ?thesis using Inl add_value_no_UB [OF assms(5)] by fastforce
      next
        case (Inr x)
        obtain b' st' where x: "x = (b', st')" by (cases x)
        have g: "?g ms st b s n = (if e > s then (if anchor then Inr (b', e, n + 1, st') else ?g ms' st' b' e (n + 1))
            else if s < length src then (if anchor then Inr (b' @ [src ! s], s + 1, n + 1, st')
               else ?g ms' st' (b' @ [src ! s]) (s + 1) (n + 1)) else Inr (b', s, n + 1, st'))"
          using True m Inr x by (subst gsub_loop.simps) simp
        show ?thesis
        proof (cases "e > s \<and> \<not> anchor")
          case e: True
          then have l: "length src - e < length src - s" "e \<le> length src" using m by auto
          show ?thesis using less(1) [OF l ms_ok_arrays [OF m(4)], where st = st' and b = b' and n = "n + 1"] g e True
            by (auto split: sum.splits)
        next
          case e: False
          show ?thesis
          proof (cases "\<not> e > s \<and> s < length src \<and> \<not> anchor")
            case c: True
            then have l: "length src - (s + 1) < length src - s" "s + 1 \<le> length src" by auto
            show ?thesis using less(1) [OF l ms_ok_arrays [OF m(4)], where st = st' and b = "b' @ [src ! s]" and n = "n + 1"] g c True
              by (auto split: sum.splits)
          qed (use g e m True in auto)
        qed
      qed
    qed
  next
    case False
    then show ?thesis using less(2) by (subst gsub_loop.simps) simp
  qed
qed

text \<open>
  C19. \<open>gsub\<close> returns on every subject and pattern without reading outside them (given
  replacement code that does not itself go wrong), and counts at most one substitution per
  position and no more than the limit it was given.
\<close>

theorem gsub_safe:
  assumes "length src < 2 ^ 63" "cap_arrays ms" "total_repl r"
  shows "case str_gsub ofint n2s room src pat r m ms st of
      Inl e \<Rightarrow> \<forall>u. e \<noteq> UB u
    | Inr ((b, n), st') \<Rightarrow> 0 \<le> n \<and> n \<le> int (length src) + 1 \<and>
        (\<forall>k. m = Some k \<longrightarrow> 0 \<le> k \<longrightarrow> k < 2 ^ 31 \<longrightarrow> n \<le> k)"
proof -
  let ?a = "cstr_at pat 0 = CHR ''^''"
  let ?max = "sint (word_of_int (case m of None \<Rightarrow> int (length src) + 1 | Some m \<Rightarrow> m) :: 32 word)"
  have a: "(if ?a then 1 else 0) \<le> length pat" by (cases pat) (simp_all add: cstr_at_def)
  have k: "?max = k" if "m = Some k" "0 \<le> k" "k < 2 ^ 31" for k
    using that by (simp add: int_word_sint mod_pos_pos_trivial)
  note S = gsub_loop_spec [OF assms(1) a le0 assms(2,3), where ofint = ofint and n2s = n2s and room = room
    and anchor = ?a and max_s = ?max and st = st and b = "''''" and n = 0]
  then show ?thesis
    using k by (auto simp: str_gsub_def Let_def split: sum.splits)
qed

lemma gsub_safe_witness:
  "str_gsub (\<lambda>i. i) (\<lambda>n. ''#'') (\<lambda>n. n < 8000) ''hello world'' ''o'' (Repl_string ''[%0%%]'') (Some 1) initial () =
     Inr ((''hell[o%] world'', 1), ()) \<and> (1::int) \<le> 1"
proof -
  have r: "str_gsub (\<lambda>i. i) (\<lambda>n. ''#'') (\<lambda>n. n < 8000) ''hello world'' ''o'' (Repl_string ''[%0%%]'') (Some 1) initial () =
     Inr ((''hell[o%] world'', 1), ())" by code_simp
  have "cap_arrays initial" by (simp add: cap_arrays_def initial_def)
  from gsub_safe [where src = "''hello world''" and r = "Repl_string ''[%0%%]''" and m = "Some 1" and pat = "''o''" and
    ofint = "\<lambda>i. i" and n2s = "\<lambda>n. ''#''" and room = "\<lambda>n. n < 8000" and st = "()", OF _ this]
  show ?thesis unfolding r by (simp add: total_repl_def)
qed

lemma add_s_whole: "add_s ofint n2s ''%0'' ms src 0 b s e = Inr (b @ take (e - s) (drop s src))"
proof -
  have "add_s ofint n2s ''%0'' ms src 2 c s e = Inr c" for c by (subst add_s.simps) simp
  then show ?thesis
    by (subst add_s.simps) (simp add: L_ESC_def isdigit_def uchar_def numeral_2_eq_2)
qed

lemma take_step: "s \<le> e \<Longrightarrow> take s xs @ take (e - s) (drop s xs) = take e xs"
  by (metis le_add_diff_inverse take_add)

lemma gsub_loop_identity:
  assumes "length src < 2 ^ 63" "p \<le> length pat" "s \<le> length src" "cap_arrays ms"
    and "gsub_loop ofint n2s room (Repl_string ''%0'') src pat p anchor max_s ms st (take s src) s n = Inr (b', s', n', st')"
  shows "b' = take s' src \<and> s' \<le> length src"
  using assms(3-5)
proof (induction "length src - s" arbitrary: ms st s n rule: less_induct)
  case less
  let ?g = "gsub_loop ofint n2s room (Repl_string ''%0'') src pat p anchor max_s"
  have A: "add_value ofint n2s room (Repl_string ''%0'') ms src st (take s src) s e = Inr (take e src, st)" if "s \<le> e" for ms e
    using that by (simp add: add_value_def add_s_whole take_step)
  have snoc: "take s src @ [src ! s] = take (s + 1) src" if "s < length src"
    using that by (simp add: take_Suc_conv_app_nth)
  show ?case
  proof (cases "n < max_s")
    case True
    show ?thesis
    proof (rule match_fresh_cases [OF assms(1,2) less(2,3)])
      fix err assume "match src pat (ms\<lparr>level := 0\<rparr>) s p = Inl err"
      then show ?thesis using True less(4) by (subst (asm) gsub_loop.simps) simp
    next
      fix ms' assume m: "match src pat (ms\<lparr>level := 0\<rparr>) s p = Inr (None, ms')" "cap_arrays ms'"
      have g: "?g ms st (take s src) s n = (if s < length src then
            (if anchor then Inr (take (s + 1) src, s + 1, n, st) else ?g ms' st (take (s + 1) src) (s + 1) n) else Inr (take s src, s, n, st))"
        using True m(1) snoc by (subst gsub_loop.simps) simp
      show ?thesis
      proof (cases "s < length src \<and> \<not> anchor")
        case True
        have l: "length src - (s + 1) < length src - s" "s + 1 \<le> length src" using True by auto
        show ?thesis by (rule less(1) [OF l m(2)]) (use less(4) g True in simp)
      qed (use g less(2,4) in \<open>auto split: if_splits\<close>)
    next
      fix e ms' assume m: "match src pat (ms\<lparr>level := 0\<rparr>) s p = Inr (Some e, ms')" "s \<le> e" "e \<le> length src" "ms_ok e ms'"
      have g: "?g ms st (take s src) s n = (if e > s then (if anchor then Inr (take e src, e, n + 1, st) else ?g ms' st (take e src) e (n + 1))
            else if s < length src then (if anchor then Inr (take (s + 1) src, s + 1, n + 1, st)
               else ?g ms' st (take (s + 1) src) (s + 1) (n + 1)) else Inr (take s src, s, n + 1, st))"
        using True m snoc A [OF m(2)] by (subst gsub_loop.simps) (auto simp: not_less)
      consider (skip) "e > s" "\<not> anchor" | (copy) "\<not> e > s" "s < length src" "\<not> anchor"
        | (stop) "anchor \<or> \<not> e > s \<and> \<not> s < length src" by blast
      then show ?thesis
      proof cases
        case skip
        then have l: "length src - e < length src - s" "e \<le> length src" using m by auto
        show ?thesis by (rule less(1) [OF l ms_ok_arrays [OF m(4)]]) (use less(4) g skip in simp)
      next
        case copy
        then have l: "length src - (s + 1) < length src - s" "s + 1 \<le> length src" by auto
        show ?thesis by (rule less(1) [OF l ms_ok_arrays [OF m(4)]]) (use less(4) g copy in simp)
      qed (use g less(2,4) m in \<open>auto split: if_splits\<close>)
    qed
  next
    case False
    then show ?thesis using less(2,4) by (subst (asm) gsub_loop.simps) auto
  qed
qed

text \<open>
  C20. Replacing every match by itself gives the subject back: whatever the pattern, anchored or
  not, with empty matches or a limit, \<open>gsub(s, p, "%0")\<close> neither loses nor repeats a character.
\<close>

theorem gsub_identity:
  assumes "length src < 2 ^ 63" "cap_arrays ms"
    and "str_gsub ofint n2s room src pat (Repl_string ''%0'') m ms st = Inr ((b, n), st')"
  shows "b = src"
proof -
  let ?a = "cstr_at pat 0 = CHR ''^''"
  have a: "(if ?a then 1 else 0) \<le> length pat" by (cases pat) (simp_all add: cstr_at_def)
  from assms(3) obtain b0 s n0 where
    "gsub_loop ofint n2s room (Repl_string ''%0'') src pat (if ?a then 1 else 0) ?a
       (sint (word_of_int (case m of None \<Rightarrow> int (length src) + 1 | Some m \<Rightarrow> m) :: 32 word)) ms st (take 0 src) 0 0 = Inr (b0, s, n0, st')"
    "b = b0 @ drop s src"
    by (auto simp: str_gsub_def Let_def res_simps)
  from gsub_loop_identity [OF assms(1) a le0 assms(2) this(1)] this(2) show ?thesis by simp
qed

lemma gsub_identity_witness:
  "str_gsub (\<lambda>i. i) (\<lambda>n. ''#'') (\<lambda>n. n < 8000) ''a  b c'' ''%s*'' (Repl_string ''%0'') None initial () = Inr ((''a  b c'', 6), ())"
proof -
  have r: "map_sum (\<lambda>_. ()) (\<lambda>((b, n), st). n) (str_gsub (\<lambda>i. i) (\<lambda>n. ''#'') (\<lambda>n. n < 8000) ''a  b c'' ''%s*'' (Repl_string ''%0'') None initial ()) = Inr 6"
    by code_simp
  obtain b n where b: "str_gsub (\<lambda>i. i) (\<lambda>n. ''#'') (\<lambda>n. n < 8000) ''a  b c'' ''%s*'' (Repl_string ''%0'') None initial () = Inr ((b, n), ())"
    and n: "n = 6"
    using r by (cases "str_gsub (\<lambda>i. i) (\<lambda>n. ''#'') (\<lambda>n. n < 8000) ''a  b c'' ''%s*'' (Repl_string ''%0'') None initial ()") auto
  have "cap_arrays initial" by (simp add: cap_arrays_def initial_def)
  from gsub_identity [OF _ this b] b n show ?thesis by simp
qed

text \<open>
  The default limit of \<open>gsub\<close> is narrowed to an \<open>int\<close>: on a subject of \<open>2 ^ 31 - 1\<close> bytes or
  more (up to \<open>2 ^ 32 - 2\<close>) no substitution is made at all.
\<close>

theorem gsub_narrow_default:
  assumes "2 ^ 31 \<le> length src + 1" "length src + 1 < 2 ^ 32"
  shows "str_gsub ofint n2s room src pat r None ms st = Inr ((src, 0), st)"
proof -
  define x where "x = int (length src) + 1"
  have x: "2 ^ 31 \<le> x" "x < 2 ^ 32" using assms unfolding x_def by simp_all
  have "sint (word_of_int x :: 32 word) = (x + 2 ^ 31) mod 2 ^ 32 - 2 ^ 31"
    by (simp add: int_word_sint)
  also have "(x + 2 ^ 31) mod 2 ^ 32 = x + 2 ^ 31 - 2 ^ 32"
    using x by (simp add: mod_pos_geq mod_pos_pos_trivial)
  finally have "sint (word_of_int (int (length src) + 1) :: 32 word) < 0"
    using x by (simp add: x_def)
  moreover have "gsub_loop ofint n2s room r src pat p anchor m ms st '''' 0 0 = Inr ('''', 0, 0, st)" if "m < 0" for p anchor m
    using that by (subst gsub_loop.simps) simp
  ultimately show ?thesis by (simp add: str_gsub_def Let_def)
qed

lemma gsub_narrow_default_witness:
  "str_gsub (\<lambda>i. i) (\<lambda>n. ''#'') (\<lambda>n. n < 8000) (replicate (2 ^ 31) (CHR ''a'')) ''a'' (Repl_string ''b'') None initial () =
     Inr ((replicate (2 ^ 31) (CHR ''a''), 0), ())"
  by (rule gsub_narrow_default) simp_all

section \<open>Format specifications\<close>

definition slice :: "string \<Rightarrow> nat \<Rightarrow> nat \<Rightarrow> string" where
  "slice f a b = take (b - a) (drop a f)"

lemma slice_append: "a \<le> b \<Longrightarrow> b \<le> c \<Longrightarrow> slice f a c = slice f a b @ slice f b c"
  by (auto simp: slice_def take_add ac_simps dest!: le_Suc_ex)

lemma slice_empty [simp]: "slice f a a = []"
  by (simp add: slice_def)

lemma set_slice: "x \<in> set (slice f a b) \<Longrightarrow> \<exists>k. a \<le> k \<and> k < b \<and> k < length f \<and> x = f ! k"
  unfolding slice_def by (auto simp: in_set_conv_nth) (metis le_add1 less_diff_conv add.commute)

lemma length_slice: "length (slice f a b) \<le> b - a"
  by (simp add: slice_def)

definition digits :: "nat \<Rightarrow> string \<Rightarrow> bool" where
  "digits n w = (length w \<le> n \<and> (\<forall>c \<in> set w. isdigit (uchar c)))"

text \<open>Flags, a width and a precision of at most two digits each.\<close>

definition fmt_head :: "string \<Rightarrow> bool" where
  "fmt_head h = (\<exists>fl w pr. h = fl @ w @ pr \<and> set fl \<subseteq> set FLAGS \<and> length fl < sizeof_FLAGS \<and> digits 2 w \<and>
     (pr = [] \<or> (\<exists>q. pr = CHR ''.'' # q \<and> digits 2 q)))"

lemma skip_flags_spec: "p \<le> length f \<Longrightarrow> p \<le> skip_flags f p \<and> skip_flags f p \<le> length f \<and> set (slice f p (skip_flags f p)) \<subseteq> set FLAGS"
proof (induction f p rule: skip_flags.induct)
  case (1 f p)
  show ?case
  proof (cases "cstr_at f p \<noteq> CHR 0x00 \<and> cstr_at f p \<in> set FLAGS")
    case True
    then have l: "p < length f" by (blast dest: cstr_at_nonzero)
    then have IH: "p + 1 \<le> skip_flags f (p + 1)" "skip_flags f (p + 1) \<le> length f" "set (slice f (p + 1) (skip_flags f (p + 1))) \<subseteq> set FLAGS"
      using 1 True by auto
    moreover have "slice f p (p + 1) = [f ! p]" using l by (simp add: slice_def take_Suc_conv_app_nth [of 0] hd_drop_conv_nth take_Suc)
    ultimately show ?thesis
      using slice_append [of p "p + 1" "skip_flags f (p + 1)" f] True l by (subst (1 2 3) skip_flags.simps) auto
  qed (subst (1 2 3) skip_flags.simps, use 1(2) in auto)
qed

lemma skip_digit_spec: "p \<le> length f \<Longrightarrow> p \<le> skip_digit f p \<and> skip_digit f p \<le> length f \<and> digits 1 (slice f p (skip_digit f p))"
proof -
  assume "p \<le> length f"
  moreover have "p < length f" if "isdigit (uchar (cstr_at f p))"
    using that by (intro cstr_at_nonzero) (auto simp: isdigit_def uchar_def)
  moreover have "slice f p (p + 1) = [f ! p]" if "p < length f"
    using that by (simp add: slice_def hd_drop_conv_nth take_Suc)
  ultimately show ?thesis by (auto simp: skip_digit_def digits_def)
qed

lemma digits_append: "digits m a \<Longrightarrow> digits n b \<Longrightarrow> digits (m + n) (a @ b)"
  by (auto simp: digits_def)

lemma skip_two_digits:
  assumes "p \<le> length f"
  defines "q \<equiv> skip_digit f (skip_digit f p)"
  shows "p \<le> q \<and> q \<le> length f \<and> digits 2 (slice f p q)"
proof -
  note a = skip_digit_spec [OF assms(1)]
  then have b: "skip_digit f p \<le> q \<and> q \<le> length f \<and> digits 1 (slice f (skip_digit f p) q)"
    using skip_digit_spec [of "skip_digit f p" f] by (simp add: q_def)
  from a b digits_append [of 1 _ 1] slice_append [of p "skip_digit f p" q f] show ?thesis
    by (auto simp: numeral_2_eq_2)
qed

lemma scanformat_spec:
  assumes "scanformat f p0 = Inr (p, form)" "p0 \<le> length f"
  shows "p0 \<le> p \<and> p \<le> length f \<and> (\<exists>h. fmt_head h \<and> form = CHR ''%'' # h @ (if p < length f then [f ! p] else []))"
proof -
  define a where "a = skip_flags f p0"
  define b where "b = skip_digit f (skip_digit f a)"
  define d where "d = (if cstr_at f b = CHR ''.'' then skip_digit f (skip_digit f (b + 1)) else b)"
  have A: "p0 \<le> a" "a \<le> length f" "set (slice f p0 a) \<subseteq> set FLAGS" using skip_flags_spec [OF assms(2)] by (auto simp: a_def)
  have B: "a \<le> b" "b \<le> length f" "digits 2 (slice f a b)" using skip_two_digits [OF A(2)] by (auto simp: b_def)
  have D: "b \<le> d \<and> d \<le> length f \<and> (slice f b d = [] \<or> (\<exists>q. slice f b d = CHR ''.'' # q \<and> digits 2 q))"
  proof (cases "cstr_at f b = CHR ''.''")
    case True
    then have l: "b < length f" by (intro cstr_at_nonzero) simp
    then have "b + 1 \<le> d" "d \<le> length f" "digits 2 (slice f (b + 1) d)"
      using skip_two_digits [of "b + 1" f] True by (auto simp: d_def)
    moreover have "slice f b (b + 1) = [CHR ''.'']" using l True by (simp add: slice_def hd_drop_conv_nth take_Suc)
    ultimately show ?thesis using slice_append [of b "b + 1" d f] by auto
  qed (use B in \<open>simp add: d_def\<close>)
  have r: "p = d" "form = CHR ''%'' # take (d - p0 + 1) (drop p0 f)" "a - p0 < sizeof_FLAGS"
    using assms(1) by (auto simp: scanformat_def lua_error_def Let_def d_def b_def a_def not_le split: if_splits)
  have pd: "p0 \<le> d" using A B D by simp
  have "slice f p0 d = slice f p0 a @ slice f a b @ slice f b d"
    using slice_append [of p0 a d f] slice_append [of a b d f] A B D by simp
  then have "fmt_head (slice f p0 d)"
    unfolding fmt_head_def using A B D r(3) length_slice [of f p0 a] by (metis le_less_trans)
  moreover have "take (d - p0 + 1) (drop p0 f) = slice f p0 d @ (if d < length f then [f ! d] else [])"
    using pd by (auto simp: slice_def take_Suc_conv_app_nth)
  ultimately show ?thesis using r pd D by auto
qed

text \<open>
  The C library's \<open>sprintf\<close> on one conversion, as the C standard describes it: the conversions that go with
  an argument's type; the number of characters one of them needs, given its precision (an \<open>int\<close> as a
  character, a 64-bit integer in decimal or octal with its sign or prefix, a \<open>double\<close> with 309 digits before the
  point, a string); and that the result is no longer than this or the width.
\<close>

fun conversions :: "'n fmt_arg \<Rightarrow> string set" where
  "conversions (F_int n) = {''c''}"
| "conversions (F_long n) = {''ld'', ''li''}"
| "conversions (F_ulong n) = {''lo'', ''lu'', ''lx'', ''lX''}"
| "conversions (F_double n) = {''e'', ''E'', ''f'', ''g'', ''G''}"
| "conversions (F_str s) = {''s''}"

definition number :: "string \<Rightarrow> nat" where
  "number w = foldl (\<lambda>n c. 10 * n + nat (uchar c - 48)) 0 w"

fun natural_length :: "string \<Rightarrow> 'n fmt_arg \<Rightarrow> nat" where
  "natural_length pr (F_int n) = 1"
| "natural_length pr (F_long n) = max 19 (number (tl pr)) + 1"
| "natural_length pr (F_ulong n) = max 22 (number (tl pr)) + 2"
| "natural_length pr (F_double n) = 309 + 2 + (if pr = [] then 6 else number (tl pr))"
| "natural_length pr (F_str s) = (if pr = [] then length s else number (tl pr))"

definition sprintf_std :: "(string \<Rightarrow> 'n fmt_arg \<Rightarrow> string) \<Rightarrow> bool" where
  "sprintf_std sprintf = (\<forall>fl w pr c a. set fl \<subseteq> set FLAGS \<longrightarrow> digits 2 w \<longrightarrow>
     pr = [] \<or> (\<exists>q. pr = CHR ''.'' # q \<and> digits 2 q) \<longrightarrow> c \<in> conversions a \<longrightarrow>
     length (sprintf (CHR ''%'' # fl @ w @ pr @ c) a) \<le> max (number w) (natural_length pr a))"

lemma number_bound:
  assumes "digits 2 w"
  shows "number w \<le> 99"
proof -
  have d: "nat (uchar c - 48) \<le> 9" if "isdigit (uchar c)" for c using that by (auto simp: isdigit_def)
  consider "w = []" | x where "w = [x]" "isdigit (uchar x)" | x y where "w = [x, y]" "isdigit (uchar x)" "isdigit (uchar y)"
    using assms unfolding digits_def by (cases w rule: remdups_adj.cases) auto
  then show ?thesis
  proof cases
    case (2 x)
    then show ?thesis using d [of x] by (simp add: number_def)
  next
    case (3 x y)
    then show ?thesis using d [of x] d [of y] by (simp add: number_def)
  qed (simp add: number_def)
qed

lemma sprintf_buff_safe:
  assumes "sprintf_std sprintf" "fmt_head h" "c \<in> conversions a" "form = CHR ''%'' # h @ c"
    "\<And>s. a = F_str s \<Longrightarrow> CHR ''.'' \<in> set form \<or> length s < 100"
  shows "sprintf_buff sprintf form a \<noteq> Inl (UB u)"
proof -
  obtain fl w pr where h: "h = fl @ w @ pr" "set fl \<subseteq> set FLAGS" "length fl < sizeof_FLAGS" "digits 2 w"
      "pr = [] \<or> (\<exists>q. pr = CHR ''.'' # q \<and> digits 2 q)"
    using assms(2) unfolding fmt_head_def by blast
  have l: "length (sprintf form a) \<le> max (number w) (natural_length pr a)"
    using assms(1) [unfolded sprintf_std_def, rule_format, OF h(2,4,5) assms(3)] by (simp add: assms(4) h(1))
  have n: "number w \<le> 99" "number (tl pr) \<le> 99"
    using h(4,5) number_bound number_bound [of "[]"] by (auto simp: digits_def)
  have "length s < 100" if "pr = []" "a = F_str s" for s
  proof -
    have "CHR ''.'' \<notin> set form"
      using h(1,2,4) that assms(3,4) by (auto simp: digits_def isdigit_def FLAGS_def uchar_def)
    then show ?thesis using assms(5) that by blast
  qed
  then have "natural_length pr a < MAX_ITEM" using n by (cases a) (auto simp: MAX_ITEM_def)
  then have "length (sprintf form a) < MAX_ITEM" using l n by (simp add: MAX_ITEM_def max_def split: if_splits)
  moreover have "length c \<le> 2" using assms(3) by (cases a) auto
  then have "length form < MAX_FORMAT"
    using h assms(4) by (auto simp: digits_def MAX_FORMAT_def sizeof_FLAGS_def sizeof_INTFRMLEN_def)
  ultimately show ?thesis by (simp add: sprintf_buff_def)
qed

lemma format_item_safe:
  assumes "sprintf_std sprintf" "\<And>k u. num k \<noteq> Inl (UB u)" "\<And>k u. str k \<noteq> Inl (UB u)"
    and "fmt_head h" "form = CHR ''%'' # h @ [c]"
  shows "format_item sprintf num str arg c form \<noteq> Inl (UB u)"
proof -
  have S: "sprintf_buff sprintf form a \<noteq> Inl (UB u)"
    if "[c] \<in> conversions a" "\<And>s. a = F_str s \<Longrightarrow> CHR ''.'' \<in> set form \<or> length s < 100" for a
    by (rule sprintf_buff_safe [OF assms(1,4) that(1) assms(5)]) (rule that(2))
  have i: "addintlen form = CHR ''%'' # h @ [CHR ''l'', c]"
    by (simp add: assms(5) addintlen_def LUA_INTFRMLEN_def butlast_append)
  have I: "sprintf_buff sprintf (addintlen form) a \<noteq> Inl (UB u)"
    if "[CHR ''l'', c] \<in> conversions a" "\<And>s. a \<noteq> F_str s" for a
    by (rule sprintf_buff_safe [OF assms(1,4) that(1) i]) (use that(2) in blast)
  have F1: "c = CHR ''c'' \<Longrightarrow> sprintf_buff sprintf form (F_int n) \<noteq> Inl (UB u)" for n by (rule S) simp_all
  have F2: "c = CHR ''d'' \<or> c = CHR ''i'' \<Longrightarrow> sprintf_buff sprintf (addintlen form) (F_long n) \<noteq> Inl (UB u)" for n
    by (rule I) auto
  have F3: "c = CHR ''o'' \<or> c = CHR ''u'' \<or> c = CHR ''x'' \<or> c = CHR ''X'' \<Longrightarrow>
      sprintf_buff sprintf (addintlen form) (F_ulong n) \<noteq> Inl (UB u)" for n by (rule I) auto
  have F4: "c = CHR ''e'' \<or> c = CHR ''E'' \<or> c = CHR ''f'' \<or> c = CHR ''g'' \<or> c = CHR ''G'' \<Longrightarrow>
      sprintf_buff sprintf form (F_double n) \<noteq> Inl (UB u)" for n by (rule S) auto
  have F5: "c = CHR ''s'' \<Longrightarrow> \<not> (CHR ''.'' \<notin> set form \<and> length s \<ge> 100) \<Longrightarrow>
      sprintf_buff sprintf form (F_str s) \<noteq> Inl (UB u)" for s by (rule S) auto
  have bind: "bindE m f \<noteq> Inl (UB u)" if "m \<noteq> Inl (UB u)" "\<And>x. f x \<noteq> Inl (UB u)" for m and f :: "'x \<Rightarrow> lua_err + string"
    using that by (cases m) auto
  have cond: "(if b then x else y) \<noteq> Inl (UB u)" if "b \<Longrightarrow> x \<noteq> Inl (UB u)" "\<not> b \<Longrightarrow> y \<noteq> Inl (UB u)" for b and x y :: "lua_err + string"
    using that by simp
  show ?thesis
    unfolding format_item_def by (intro cond bind F1 F2 F3 F4 F5 assms(2,3)) (simp_all add: lua_error_def)
qed

lemma format_item_end:
  "c = CHR 0x00 \<Longrightarrow> format_item sprintf num str arg c form \<noteq> Inl (UB u)"
  by (simp add: format_item_def lua_error_def)

lemma format_loop_safe:
  assumes "sprintf_std sprintf" "\<And>k u. num k \<noteq> Inl (UB u)" "\<And>k u. str k \<noteq> Inl (UB u)"
  shows "format_loop sprintf num str f i arg b \<noteq> Inl (UB u)"
proof (induction "length f - i" arbitrary: i arg b rule: less_induct)
  case less
  show ?case
  proof (cases "i < length f \<and> f ! i = L_ESC \<and> cstr_at f (i + 1) \<noteq> L_ESC")
    case True
    have "scanformat f (i + 1) \<noteq> Inl (UB u)" by (simp add: scanformat_def lua_error_def Let_def)
    moreover have "(if \<not> i < p then Inl (UB ''scanformat'')
        else bindE (format_item sprintf num str (arg + 1) (cstr_at f p) form) (\<lambda>x.
          format_loop sprintf num str f (p + 1) (arg + 1) (b @ x))) \<noteq> Inl (UB u)"
      if "scanformat f (i + 1) = Inr (p, form)" for p form
    proof -
      have "i + 1 \<le> length f" using True by simp
      from scanformat_spec [OF that this] obtain h where h: "i + 1 \<le> p" "p \<le> length f" "fmt_head h"
        "form = CHR ''%'' # h @ (if p < length f then [f ! p] else [])" by blast
      have "format_item sprintf num str (arg + 1) (cstr_at f p) form \<noteq> Inl (UB u)"
        using format_item_safe [OF assms h(3), of form "f ! p"] format_item_end [of "cstr_at f p" sprintf num str "arg + 1" form u] h(4)
        by (cases "p < length f") auto
      moreover have "format_loop sprintf num str f (p + 1) (arg + 1) (b @ x) \<noteq> Inl (UB u)" for x
        by (rule less) (use h True in auto)
      ultimately show ?thesis using h(1) by (auto simp: res_simps)
    qed
    ultimately show ?thesis using True by (subst format_loop.simps) (auto simp: res_simps)
  next
    case False
    then show ?thesis using less by (subst format_loop.simps) (auto simp: less_diff_conv)
  qed
qed

text \<open>
  C21. \<open>string.format\<close> never overruns its buffers: every specification it hands to \<open>sprintf\<close>, with
  the length modifier added or not, has at most five flags and two digits of width and precision
  and fits \<open>MAX_FORMAT\<close>, and no item it formats (a string of 100 bytes or more without a precision is not
  formatted) reaches \<open>MAX_ITEM\<close> bytes. What is assumed of \<open>sprintf\<close> is \<open>sprintf_std\<close>: one conversion writes no
  more characters than its width or than a value of its type needs with its precision.
\<close>

theorem format_in_bounds:
  assumes "sprintf_std sprintf" "\<And>k u. num k \<noteq> Inl (UB u)" "\<And>k u. str k \<noteq> Inl (UB u)"
  shows "str_format sprintf num str f \<noteq> Inl (UB u)"
  unfolding str_format_def by (rule format_loop_safe [OF assms])

text \<open>A C library that knows few values.\<close>

definition small_sprintf :: "string \<Rightarrow> nat fmt_arg \<Rightarrow> string" where
  "small_sprintf form a = (case a of F_int n \<Rightarrow> ''a'' | F_long n \<Rightarrow> ''-7'' | F_ulong n \<Rightarrow> ''ff'' | F_double n \<Rightarrow> ''1.500000''
     | F_str s \<Rightarrow> if CHR ''.'' \<in> set form then '''' else s)"

lemma small_sprintf_std: "sprintf_std small_sprintf"
  unfolding sprintf_std_def
proof (intro allI impI)
  fix fl w pr c :: string and a :: "nat fmt_arg"
  show "length (small_sprintf (CHR ''%'' # fl @ w @ pr @ c) a) \<le> max (number w) (natural_length pr a)"
    if "pr = [] \<or> (\<exists>q. pr = CHR ''.'' # q \<and> digits 2 q)"
    using that by (cases a) (auto simp: small_sprintf_def)
qed

lemma format_in_bounds_witness:
  "str_format small_sprintf (\<lambda>k. Inr k) (\<lambda>k. Inr ''lua'') ''<%-5s|%q|%+d|%%>'' = Inr ''<lua|\"lua\"|-7|%>'' \<and>
   str_format small_sprintf (\<lambda>k. Inr k) (\<lambda>k. Inr ''lua'') ''<%-5s|%q|%+d|%%>'' \<noteq> Inl (UB ''buff'')"
proof -
  note format_in_bounds [OF small_sprintf_std, of "\<lambda>k. Inr k" "\<lambda>k. Inr ''lua''" "''<%-5s|%q|%+d|%%>''" "''buff''"]
  moreover have "str_format small_sprintf (\<lambda>k. Inr k) (\<lambda>k. Inr ''lua'') ''<%-5s|%q|%+d|%%>'' = Inr ''<lua|\"lua\"|-7|%>''"
    by code_simp
  ultimately show ?thesis by simp
qed

section \<open>Bytes of a slice\<close>

lemma sint_int32: "0 \<le> x \<Longrightarrow> x < 2 ^ 31 \<Longrightarrow> sint (word_of_int x :: 32 word) = x"
  by (simp add: int_word_sint mod_pos_pos_trivial)

text \<open>
  \<open>string.byte\<close> gives the bytes of the substring \<open>string.sub\<close> gives for the same (explicit)
  bounds, negative and out of range ones included, as long as the subject is shorter than
  \<open>2 ^ 31\<close> bytes and the stack has room.
\<close>

theorem str_byte_is_sub:
  assumes "length s < 2 ^ 31" "\<And>n. room n"
  shows "str_byte room s (Some i) (Some j) = Inr (map uchar (str_sub s i (Some j)))"
proof -
  define l where "l = length s"
  define a where "a = (if posrelat i l \<le> 0 then 1 else posrelat i l)"
  define e where "e = (if posrelat j l > int l then int l else posrelat j l)"
  have a: "1 \<le> a" by (simp add: a_def)
  have e: "e \<le> int l" by (simp add: e_def)
  have S: "str_sub s i (Some j) = (if a \<le> e then take (nat (e - a + 1)) (drop (nat (a - 1)) s) else '''')"
    by (simp add: str_sub_def Let_def a_def e_def l_def)
  have B0: "str_byte room s (Some i) (Some j) = (if a > e then Inr []
         else let n = sint (word_of_int (e - a + 1) :: 32 word) in
           if a + n \<le> e then lua_error ''string slice too long''
           else if \<not> room n then lua_error ''stack overflow (string slice too long)''
           else Inr (map (\<lambda>k. uchar (s ! (nat a + k - 1))) [0..<nat n]))"
    by (simp only: str_byte_def Let_def option.case a_def e_def l_def)
  show ?thesis
  proof (cases "a \<le> e")
    case False
    then show ?thesis unfolding S by (simp add: B0)
  next
    case True
    have n: "sint (word_of_int (e - a + 1) :: 32 word) = e - a + 1"
      by (rule sint_int32) (use True a e assms(1) in \<open>simp_all add: l_def\<close>)
    have B: "str_byte room s (Some i) (Some j) = Inr (map (\<lambda>k. uchar (s ! (nat a + k - 1))) [0..<nat (e - a + 1)])"
      using True assms(2) unfolding B0 Let_def n by simp
    have "map uchar (take (nat (e - a + 1)) (drop (nat (a - 1)) s)) = map (\<lambda>k. uchar (s ! (nat a + k - 1))) [0..<nat (e - a + 1)]"
    proof (rule nth_equalityI)
      show "length (map uchar (take (nat (e - a + 1)) (drop (nat (a - 1)) s))) = length (map (\<lambda>k. uchar (s ! (nat a + k - 1))) [0..<nat (e - a + 1)])"
        using a e True by (simp add: l_def)
      show "map uchar (take (nat (e - a + 1)) (drop (nat (a - 1)) s)) ! k = map (\<lambda>k. uchar (s ! (nat a + k - 1))) [0..<nat (e - a + 1)] ! k"
        if "k < length (map uchar (take (nat (e - a + 1)) (drop (nat (a - 1)) s)))" for k
      proof -
        have "nat (a - 1) + k = nat a + k - 1" using a by linarith
        then show ?thesis using that a e True by (simp add: nth_drop l_def)
      qed
    qed
    then show ?thesis using True B S by simp
  qed
qed

lemma str_byte_is_sub_witness:
  "str_byte (\<lambda>n. True) ''Lua 5.1'' (Some (- 3)) (Some 100) = Inr [53, 46, 49] \<and> str_sub ''Lua 5.1'' (- 3) (Some 100) = ''5.1''"
proof -
  have "str_sub ''Lua 5.1'' (- 3) (Some 100) = ''5.1''" by code_simp
  then show ?thesis using str_byte_is_sub [of "''Lua 5.1''" "\<lambda>n. True" "- 3" 100] by (simp add: uchar_def)
qed

end
