(* ===== verification/Lua_Table.thy ===== *)
theory Lua_Table
  imports Lua_Object
begin

text \<open>
  Lua tables (\<^verbatim>\<open>ltable.c\<close>): an array part and a hash part, a chained scatter table with Brent's
  variation.

  A \<open>Node *\<close> is an index into \<open>node\<close>; \<open>is_dummy\<close> says that \<open>node\<close> is the shared
  \<open>dummynode\<close>.  A \<open>TValue *\<close> into a table is a \<open>slot\<close>.  Reference counting is kept as the list
  of increments and decrements an operation performs, in order (\<open>rc\<close>); applying them is the
  collector's work.  \<open>hs\<close> reads the hash of an interned string.  Walking a chain is given
  \<open>sizenode\<close> steps: a chain without a cycle needs no more.  Allocation failure is not modelled
  here, nor are the profile counters.
\<close>

datatype rc = Inc addr | Dec addr

definition luarc_addref :: "TValue \<Rightarrow> rc list" where
  "luarc_addref v = (case gcvalue v of Some a \<Rightarrow> [Inc a] | None \<Rightarrow> [])"

definition luarc_subref :: "TValue \<Rightarrow> rc list" where
  "luarc_subref v = (case gcvalue v of Some a \<Rightarrow> [Dec a] | None \<Rightarrow> [])"

text \<open>\<open>setobj\<close> over a slot that held \<open>old\<close>; \<open>setnilvalue\<close>.\<close>

definition rc_setobj :: "TValue \<Rightarrow> TValue \<Rightarrow> rc list" where
  "rc_setobj old v = luarc_addref v @ luarc_subref old"

record Node =
  gval :: TValue
  gkey :: TValue
  gnext :: "nat option"

definition dummynode :: Node where
  "dummynode = \<lparr>gval = VNil, gkey = VNil, gnext = None\<rparr>"

record Table =
  arr :: "TValue list"
  sizearray :: nat
  node :: "Node list"
  is_dummy :: bool
  lsizenode :: nat
  lastfree :: int
  flags :: nat
  resizecount :: nat

datatype slot = In_array nat | In_node nat | Nilobject

definition MAXBITS :: nat where "MAXBITS = 26"
definition MAXASIZE :: int where "MAXASIZE = 2 ^ MAXBITS"

definition sizenode :: "Table \<Rightarrow> nat" where
  "sizenode t = 2 ^ lsizenode t"

definition gnode :: "Table \<Rightarrow> nat \<Rightarrow> Node" where
  "gnode t i = node t ! i"

definition set_node :: "Table \<Rightarrow> nat \<Rightarrow> Node \<Rightarrow> Table" where
  "set_node t i n = t\<lparr>node := (node t)[i := n]\<rparr>"

section \<open>Main positions\<close>

definition hashpow2 :: "Table \<Rightarrow> u32 \<Rightarrow> nat" where
  "hashpow2 t n = unat (n AND (of_nat (sizenode t) - 1))"

definition hashmod :: "Table \<Rightarrow> u32 \<Rightarrow> nat" where
  "hashmod t n = unat n mod unat ((of_nat (sizenode t) - 1 :: u32) OR 1)"

definition IntPoint :: "u64 \<Rightarrow> u32" where
  "IntPoint p = ucast p"

definition hashnum :: "Table \<Rightarrow> lua_Number \<Rightarrow> nat" where
  "hashnum t n = (if luai_numeq n 0 then 0 else hashmod t (ucast n + ucast (drop_bit 32 n)))"

fun mainposition :: "(addr \<Rightarrow> u32) \<Rightarrow> Table \<Rightarrow> TValue \<Rightarrow> nat" where
  "mainposition hs t (VNumber n) = hashnum t n"
| "mainposition hs t (VString a) = hashpow2 t (hs a)"
| "mainposition hs t (VBoolean b) = hashpow2 t (word_of_int b)"
| "mainposition hs t (VLightUserdata p) = hashmod t (IntPoint p)"
| "mainposition hs t v = (case gcvalue v of Some a \<Rightarrow> hashmod t (IntPoint a) | None \<Rightarrow> 0)"

definition arrayindex :: "TValue \<Rightarrow> int" where
  "arrayindex key = (case key of
     VNumber n \<Rightarrow> (let k = lua_number2int n in if luai_numeq (cast_num k) n then k else - 1)
   | _ \<Rightarrow> - 1)"

section \<open>Lookup\<close>

text \<open>The \<open>do\<close> loops over a chain: the first node whose key satisfies the test.\<close>

fun walk :: "Table \<Rightarrow> (TValue \<Rightarrow> bool) \<Rightarrow> nat \<Rightarrow> nat \<Rightarrow> lua_err + nat option" where
  "walk t P i 0 = Inl (UB ''chain'')"
| "walk t P i (Suc k) =
     (if P (gkey (gnode t i)) then Inr (Some i)
      else case gnext (gnode t i) of None \<Rightarrow> Inr None | Some j \<Rightarrow> walk t P j k)"

definition walk_slot :: "Table \<Rightarrow> (TValue \<Rightarrow> bool) \<Rightarrow> nat \<Rightarrow> lua_err + slot" where
  "walk_slot t P i = bindE (walk t P i (sizenode t)) (\<lambda>r. Inr (case r of None \<Rightarrow> Nilobject | Some i \<Rightarrow> In_node i))"

definition luaH_getnum :: "Table \<Rightarrow> int \<Rightarrow> lua_err + slot" where
  "luaH_getnum t key =
     (if unat (word_of_int (key - 1) :: u32) < sizearray t then Inr (In_array (unat (word_of_int (key - 1) :: u32)))
      else let nk = cast_num key in
        walk_slot t (\<lambda>k. case k of VNumber n \<Rightarrow> luai_numeq n nk | _ \<Rightarrow> False) (hashnum t nk))"

definition luaH_getstr :: "(addr \<Rightarrow> u32) \<Rightarrow> Table \<Rightarrow> addr \<Rightarrow> lua_err + slot" where
  "luaH_getstr hs t key = walk_slot t (\<lambda>k. case k of VString a \<Rightarrow> a = key | _ \<Rightarrow> False) (hashpow2 t (hs key))"

definition getgeneric :: "(addr \<Rightarrow> u32) \<Rightarrow> Table \<Rightarrow> TValue \<Rightarrow> lua_err + slot" where
  "getgeneric hs t key = walk_slot t (\<lambda>k. luaO_rawequalObj k key) (mainposition hs t key)"

definition luaH_get :: "(addr \<Rightarrow> u32) \<Rightarrow> Table \<Rightarrow> TValue \<Rightarrow> lua_err + slot" where
  "luaH_get hs t key = (case key of
     VNil \<Rightarrow> Inr Nilobject
   | VString a \<Rightarrow> luaH_getstr hs t a
   | VNumber n \<Rightarrow> (let k = lua_number2int n in if luai_numeq (cast_num k) n then luaH_getnum t k else getgeneric hs t key)
   | _ \<Rightarrow> getgeneric hs t key)"

definition slot_value :: "Table \<Rightarrow> slot \<Rightarrow> TValue" where
  "slot_value t p = (case p of In_array i \<Rightarrow> arr t ! i | In_node i \<Rightarrow> gval (gnode t i) | Nilobject \<Rightarrow> VNil)"

definition store :: "Table \<Rightarrow> slot \<Rightarrow> TValue \<Rightarrow> Table" where
  "store t p v = (case p of
     In_array i \<Rightarrow> t\<lparr>arr := (arr t)[i := v]\<rparr>
   | In_node i \<Rightarrow> set_node t i (gnode t i\<lparr>gval := v\<rparr>)
   | Nilobject \<Rightarrow> t)"

section \<open>Traversal\<close>

definition findindex :: "(addr \<Rightarrow> u32) \<Rightarrow> Table \<Rightarrow> TValue \<Rightarrow> lua_err + int" where
  "findindex hs t key =
     (if ttisnil key then Inr (- 1)
      else let i = arrayindex key in
        if 0 < i \<and> i \<le> int (sizearray t) then Inr (i - 1)
        else bindE (walk t (\<lambda>k. luaO_rawequalObj k key \<or>
                (case k of VDeadKey a \<Rightarrow> iscollectable key \<and> gcvalue key = Some a | _ \<Rightarrow> False))
              (mainposition hs t key) (sizenode t)) (\<lambda>r. case r of
            Some i \<Rightarrow> Inr (int i + int (sizearray t))
          | None \<Rightarrow> Inl (LUA_ERRRUN ''invalid key to next'')))"

function next_array :: "Table \<Rightarrow> nat \<Rightarrow> nat option" where
  "next_array t i = (if i < sizearray t then (if ttisnil (arr t ! i) then next_array t (i + 1) else Some i) else None)"
  by pat_completeness auto
termination by (relation "measure (\<lambda>(t, i). sizearray t - i)") auto

function next_hash :: "Table \<Rightarrow> nat \<Rightarrow> nat option" where
  "next_hash t i = (if i < sizenode t then (if ttisnil (gval (gnode t i)) then next_hash t (i + 1) else Some i) else None)"
  by pat_completeness auto
termination by (relation "measure (\<lambda>(t, i). sizenode t - i)") auto

declare next_array.simps [simp del] next_hash.simps [simp del]

text \<open>\<open>old\<close> is what the stack slot behind the key holds; the result gives both slots.\<close>

definition luaH_next :: "(addr \<Rightarrow> u32) \<Rightarrow> Table \<Rightarrow> TValue \<Rightarrow> TValue \<Rightarrow> lua_err + (TValue \<times> TValue \<times> rc list) option" where
  "luaH_next hs t key old =
     bindE (findindex hs t key) (\<lambda>i.
       let i = nat (i + 1) in
       case next_array t i of
         Some i \<Rightarrow> Inr (Some (VNumber (cast_num (int i + 1)), arr t ! i, luarc_subref key @ rc_setobj old (arr t ! i)))
       | None \<Rightarrow> (case next_hash t (i - sizearray t) of
           Some i \<Rightarrow> Inr (Some (gkey (gnode t i), gval (gnode t i),
               rc_setobj key (gkey (gnode t i)) @ rc_setobj old (gval (gnode t i))))
         | None \<Rightarrow> Inr None))"

section \<open>Sizes\<close>

text \<open>\<open>computesizes\<close>: its loop from \<open>i\<close> on, returning the size of the array part and the number
  of elements that go there.\<close>

function computesizes_loop :: "int list \<Rightarrow> int \<Rightarrow> nat \<Rightarrow> int \<Rightarrow> int \<Rightarrow> int \<Rightarrow> int \<Rightarrow> int \<times> int" where
  "computesizes_loop nums narray i twotoi a na n =
     (if twotoi div 2 < narray \<and> i \<le> MAXBITS then
        let a' = (if nums ! i > 0 then a + nums ! i else a);
            hit = (nums ! i > 0 \<and> a' > twotoi div 2);
            n' = (if hit then twotoi else n);
            na' = (if hit then a' else na)
        in if a' = narray then (n', na') else computesizes_loop nums narray (i + 1) (twotoi * 2) a' na' n'
      else (n, na))"
  by pat_completeness auto
termination by (relation "measure (\<lambda>(nums, narray, i, twotoi, a, na, n). Suc MAXBITS - i)") auto

declare computesizes_loop.simps [simp del]

definition computesizes :: "int list \<Rightarrow> int \<Rightarrow> int \<times> int" where
  "computesizes nums narray = computesizes_loop nums narray 0 1 0 0 0"

definition countint :: "TValue \<Rightarrow> int list \<Rightarrow> int list \<times> int" where
  "countint key nums =
     (let k = arrayindex key in
      if 0 < k \<and> k \<le> MAXASIZE then
        (let c = nat (ceillog2 (word_of_int k)) in (nums[c := nums ! c + 1], 1))
      else (nums, 0))"

text \<open>\<open>numusearray\<close>: how many array slots from index \<open>i\<close> up to \<open>lim\<close> are in use, and the
  loop over the slices.\<close>

definition count_slice :: "Table \<Rightarrow> nat \<Rightarrow> nat \<Rightarrow> nat" where
  "count_slice t i lim = length (filter (\<lambda>k. \<not> ttisnil (arr t ! (k - 1))) [i..<lim + 1])"

function numusearray_loop :: "Table \<Rightarrow> int list \<Rightarrow> nat \<Rightarrow> nat \<Rightarrow> int \<Rightarrow> int list \<times> int" where
  "numusearray_loop t nums lg i ause =
     (if lg \<le> MAXBITS then
        let lim = (if 2 ^ lg > sizearray t then sizearray t else 2 ^ lg) in
        if 2 ^ lg > sizearray t \<and> i > lim then (nums, ause)
        else let lc = int (count_slice t i lim) in
          numusearray_loop t (nums[lg := nums ! lg + lc]) (lg + 1) (max i (lim + 1)) (ause + lc)
      else (nums, ause))"
  by pat_completeness auto
termination by (relation "measure (\<lambda>(t, nums, lg, i, ause). Suc MAXBITS - lg)") auto

declare numusearray_loop.simps [simp del]

definition numusearray :: "Table \<Rightarrow> int list \<Rightarrow> int list \<times> int" where
  "numusearray t nums = numusearray_loop t nums 0 1 0"

text \<open>\<open>numusehash\<close>: the loop counts down from \<open>i\<close>; the results are the counters, the number of
  array candidates and the number of elements.\<close>

fun numusehash_loop :: "Table \<Rightarrow> nat \<Rightarrow> int list \<Rightarrow> int \<Rightarrow> int \<Rightarrow> int list \<times> int \<times> int" where
  "numusehash_loop t 0 nums ause totaluse = (nums, ause, totaluse)"
| "numusehash_loop t (Suc i) nums ause totaluse =
     (if \<not> ttisnil (gval (gnode t i)) then
        let (nums, c) = countint (gkey (gnode t i)) nums in numusehash_loop t i nums (ause + c) (totaluse + 1)
      else numusehash_loop t i nums ause totaluse)"

definition numusehash :: "Table \<Rightarrow> int list \<Rightarrow> int list \<times> int \<times> int" where
  "numusehash t nums = numusehash_loop t (sizenode t) nums 0 0"

section \<open>Insertion and resizing\<close>

definition setarrayvector :: "Table \<Rightarrow> nat \<Rightarrow> Table" where
  "setarrayvector t n = t\<lparr>arr := take (min n (sizearray t)) (arr t) @ replicate (n - sizearray t) VNil, sizearray := n\<rparr>"

definition setnodevector :: "Table \<Rightarrow> int \<Rightarrow> lua_err + Table" where
  "setnodevector t n =
     (if n = 0 then Inr (t\<lparr>node := [dummynode], is_dummy := True, lsizenode := 0, lastfree := 0\<rparr>)
      else let lsize = ceillog2 (word_of_int n) in
        if lsize > int MAXBITS then Inl (LUA_ERRRUN ''table overflow'')
        else Inr (t\<lparr>node := replicate (2 ^ nat lsize) \<lparr>gval = VNil, gkey = VNil, gnext = None\<rparr>, is_dummy := False,
                    lsizenode := nat lsize, lastfree := 2 ^ nat lsize\<rparr>))"

function getfreepos :: "Table \<Rightarrow> nat option \<times> Table" where
  "getfreepos t =
     (if lastfree t > 0 then
        let t' = t\<lparr>lastfree := lastfree t - 1\<rparr> in
        if ttisnil (gkey (gnode t' (nat (lastfree t')))) then (Some (nat (lastfree t')), t') else getfreepos t'
      else (None, t\<lparr>lastfree := lastfree t - 1\<rparr>))"
  by pat_completeness auto
termination by (relation "measure (\<lambda>t. nat (lastfree t))") auto

declare getfreepos.simps [simp del]

text \<open>The predecessor of \<open>mp\<close> in the chain from \<open>i\<close> on.\<close>

fun find_prev :: "Table \<Rightarrow> nat \<Rightarrow> nat \<Rightarrow> nat \<Rightarrow> lua_err + nat" where
  "find_prev t mp i 0 = Inl (UB ''chain'')"
| "find_prev t mp i (Suc k) =
     (if gnext (gnode t i) = Some mp then Inr i
      else case gnext (gnode t i) of None \<Rightarrow> Inl (UB ''null'') | Some j \<Rightarrow> find_prev t mp j k)"

type_synonym set_result = "lua_err + slot \<times> Table \<times> rc list"

text \<open>The end of \<open>newkey\<close>: the key goes into the node \<open>mp\<close>.\<close>

definition put_key :: "Table \<Rightarrow> nat \<Rightarrow> TValue \<Rightarrow> set_result" where
  "put_key t mp key =
     (let old = gkey (gnode t mp) in
      Inr (In_node mp, set_node t mp (gnode t mp\<lparr>gkey := key\<rparr>),
           luarc_addref key @ (case old of VDeadKey _ \<Rightarrow> [] | _ \<Rightarrow> luarc_subref old)))"

text \<open>\<open>newkey\<close>, with what it does when no place is free as the argument \<open>grow\<close>.\<close>

definition newkey_step :: "(addr \<Rightarrow> u32) \<Rightarrow> (Table \<Rightarrow> TValue \<Rightarrow> set_result) \<Rightarrow> Table \<Rightarrow> TValue \<Rightarrow> set_result" where
  "newkey_step hs grow t key =
     (let mp = mainposition hs t key in
      if \<not> ttisnil (gval (gnode t mp)) \<or> is_dummy t then
        case getfreepos t of
          (None, t) \<Rightarrow> grow t key
        | (Some n, t) \<Rightarrow>
            let othern = mainposition hs t (gkey (gnode t mp)) in
            if othern \<noteq> mp then
              bindE (find_prev t mp othern (sizenode t)) (\<lambda>prev.
                let t = set_node t prev (gnode t prev\<lparr>gnext := Some n\<rparr>);
                    t = set_node t n (gnode t mp);
                    t = set_node t mp \<lparr>gval = VNil, gkey = VNil, gnext = None\<rparr>
                in put_key t mp key)
            else
              let t = set_node t n (gnode t n\<lparr>gnext := gnext (gnode t mp)\<rparr>);
                  t = set_node t mp (gnode t mp\<lparr>gnext := Some n\<rparr>)
              in put_key t n key
      else put_key t mp key)"

definition set_with :: "(addr \<Rightarrow> u32) \<Rightarrow> (Table \<Rightarrow> TValue \<Rightarrow> set_result) \<Rightarrow> Table \<Rightarrow> TValue \<Rightarrow> set_result" where
  "set_with hs newkey t key =
     bindE (luaH_get hs t key) (\<lambda>p.
       let t = t\<lparr>flags := 0\<rparr> in
       if p \<noteq> Nilobject then Inr (p, t, [])
       else if ttisnil key then Inl (LUA_ERRRUN ''table index is nil'')
       else (case key of
           VNumber n \<Rightarrow> if luai_numisnan n then Inl (LUA_ERRRUN ''table index is NaN'') else newkey t key
         | _ \<Rightarrow> newkey t key))"

definition setnum_with :: "(Table \<Rightarrow> TValue \<Rightarrow> set_result) \<Rightarrow> Table \<Rightarrow> int \<Rightarrow> set_result" where
  "setnum_with newkey t key =
     bindE (luaH_getnum t key) (\<lambda>p. if p \<noteq> Nilobject then Inr (p, t, []) else newkey t (VNumber (cast_num key)))"

text \<open>\<open>resize\<close>: the vanishing slice of the array part from \<open>i\<close> on, then the nodes of the old hash
  part from \<open>i - 1\<close> down, then the references the old nodes held.\<close>

function reinsert_array :: "(Table \<Rightarrow> TValue \<Rightarrow> set_result) \<Rightarrow> nat \<Rightarrow> nat \<Rightarrow> Table \<Rightarrow> rc list \<Rightarrow> lua_err + Table \<times> rc list" where
  "reinsert_array newkey oldasize i t rcs =
     (if i < oldasize then
        let v = arr t ! i in
        if \<not> ttisnil v then
          bindE (setnum_with newkey t (int i + 1)) (\<lambda>(p, t, r).
            reinsert_array newkey oldasize (i + 1) ((store t p v)\<lparr>arr := (arr (store t p v))[i := VNil]\<rparr>)
              (rcs @ r @ rc_setobj (slot_value t p) v @ luarc_subref v))
        else reinsert_array newkey oldasize (i + 1) t rcs
      else Inr (t, rcs))"
  by pat_completeness auto
termination by (relation "measure (\<lambda>(newkey, oldasize, i, t, rcs). oldasize - i)") auto

declare reinsert_array.simps [simp del]

fun reinsert_hash :: "(addr \<Rightarrow> u32) \<Rightarrow> (Table \<Rightarrow> TValue \<Rightarrow> set_result) \<Rightarrow> Node list \<Rightarrow> nat \<Rightarrow> Table \<Rightarrow> rc list \<Rightarrow> lua_err + Table \<times> rc list" where
  "reinsert_hash hs newkey nold 0 t rcs = Inr (t, rcs)"
| "reinsert_hash hs newkey nold (Suc i) t rcs =
     (let old = nold ! i in
      if \<not> ttisnil (gval old) then
        bindE (set_with hs newkey t (gkey old)) (\<lambda>(p, t, r).
          reinsert_hash hs newkey nold i (store t p (gval old)) (rcs @ r @ rc_setobj (slot_value t p) (gval old)))
      else reinsert_hash hs newkey nold i t rcs)"

definition release_nodes :: "Node list \<Rightarrow> rc list" where
  "release_nodes nold = concat (map (\<lambda>old.
     if \<not> ttisnil (gval old) then luarc_subref (gkey old) @ luarc_subref (gval old) else []) (rev nold))"

definition resize :: "(addr \<Rightarrow> u32) \<Rightarrow> (Table \<Rightarrow> TValue \<Rightarrow> set_result) \<Rightarrow> Table \<Rightarrow> nat \<Rightarrow> int \<Rightarrow> lua_err + Table \<times> rc list" where
  "resize hs newkey t nasize nhsize =
     (let oldasize = sizearray t; nold = node t; olddummy = is_dummy t;
          t = (if nasize > oldasize then setarrayvector t nasize else t)
      in bindE (setnodevector t nhsize) (\<lambda>t.
         bindE (if nasize < oldasize then
                  bindE (reinsert_array newkey oldasize nasize (t\<lparr>sizearray := nasize\<rparr>) []) (\<lambda>(t, r).
                    Inr (t\<lparr>arr := take nasize (arr t)\<rparr>, r))
                else Inr (t, [])) (\<lambda>(t, r1).
         bindE (reinsert_hash hs newkey nold (length nold) t []) (\<lambda>(t, r2).
           Inr (t\<lparr>resizecount := resizecount t + 1\<rparr>, r1 @ r2 @ (if olddummy then [] else release_nodes nold))))))"

definition rehash :: "(addr \<Rightarrow> u32) \<Rightarrow> (Table \<Rightarrow> TValue \<Rightarrow> set_result) \<Rightarrow> Table \<Rightarrow> TValue \<Rightarrow> lua_err + Table \<times> rc list" where
  "rehash hs newkey t ek =
     (let nums = replicate (MAXBITS + 1) 0;
          (nums, nasize) = numusearray t nums;
          totaluse = nasize;
          (nums, ause, htotal) = numusehash t nums;
          nasize = nasize + ause;
          totaluse = totaluse + htotal;
          (nums, c) = countint ek nums;
          nasize = nasize + c;
          totaluse = totaluse + 1;
          (n, na) = computesizes nums nasize
      in resize hs newkey t (nat n) (totaluse - na))"

text \<open>
  \<open>newkey\<close> calls itself through \<open>rehash\<close>.  The first argument bounds the nesting of rehashes: one
  is always enough, since the new sizes have room for every key.
\<close>

fun newkey :: "nat \<Rightarrow> (addr \<Rightarrow> u32) \<Rightarrow> Table \<Rightarrow> TValue \<Rightarrow> set_result" where
  "newkey 0 hs t key = newkey_step hs (\<lambda>t key. Inl (UB ''rehash'')) t key"
| "newkey (Suc d) hs t key = newkey_step hs (\<lambda>t key.
     bindE (rehash hs (newkey d hs) t key) (\<lambda>(t, r1).
     bindE (set_with hs (newkey d hs) t key) (\<lambda>(p, t, r2). Inr (p, t, r1 @ r2)))) t key"

definition luaH_set :: "(addr \<Rightarrow> u32) \<Rightarrow> Table \<Rightarrow> TValue \<Rightarrow> set_result" where
  "luaH_set hs t key = set_with hs (newkey 1 hs) t key"

definition luaH_setnum :: "(addr \<Rightarrow> u32) \<Rightarrow> Table \<Rightarrow> int \<Rightarrow> set_result" where
  "luaH_setnum hs t key = setnum_with (newkey 1 hs) t key"

text \<open>The temporary copy of the key in \<open>luaH_setstr\<close> is counted while it is used.\<close>

definition luaH_setstr :: "(addr \<Rightarrow> u32) \<Rightarrow> Table \<Rightarrow> addr \<Rightarrow> set_result" where
  "luaH_setstr hs t key =
     bindE (luaH_getstr hs t key) (\<lambda>p.
       if p \<noteq> Nilobject then Inr (p, t, [])
       else bindE (newkey 1 hs t (VString key)) (\<lambda>(v, t, r).
         Inr (v, t, luarc_addref (VString key) @ r @ luarc_subref (VString key))))"

definition luaH_resizearray :: "(addr \<Rightarrow> u32) \<Rightarrow> Table \<Rightarrow> nat \<Rightarrow> lua_err + Table \<times> rc list" where
  "luaH_resizearray hs t nasize =
     resize hs (newkey 1 hs) t nasize (if is_dummy t then 0 else int (sizenode t))"

definition luaH_new :: "nat \<Rightarrow> int \<Rightarrow> lua_err + Table" where
  "luaH_new narray nhash =
     setnodevector (setarrayvector \<lparr>arr = [], sizearray = 0, node = [dummynode], is_dummy = True, lsizenode = 0,
       lastfree = 0, flags = 255, resizecount = 0\<rparr> narray) nhash"

section \<open>The border\<close>

definition num_value :: "Table \<Rightarrow> nat \<Rightarrow> lua_err + TValue" where
  "num_value t j = bindE (luaH_getnum t (int j)) (\<lambda>p. Inr (slot_value t p))"

function linear_search :: "Table \<Rightarrow> nat \<Rightarrow> lua_err + nat" where
  "linear_search t i =
     (if i \<ge> 2 ^ 31 then Inl (UB ''linear_search'')
      else bindE (num_value t i) (\<lambda>v. if ttisnil v then Inr (i - 1) else linear_search t (i + 1)))"
  by pat_completeness auto
termination by (relation "measure (\<lambda>(t, i). 2 ^ 31 - i)") auto

function binary_search :: "(nat \<Rightarrow> lua_err + TValue) \<Rightarrow> nat \<Rightarrow> nat \<Rightarrow> lua_err + nat" where
  "binary_search val i j =
     (if j - i > 1 then
        let m = (i + j) div 2 in
        bindE (val m) (\<lambda>v. if ttisnil v then binary_search val i m else binary_search val m j)
      else Inr i)"
  by pat_completeness auto
termination by (relation "measure (\<lambda>(val, i, j). j - i)") auto

text \<open>The doubling loop of \<open>unbound_search\<close>; \<open>0 < j\<close> since it starts with \<open>j++\<close>.\<close>

function unbound_loop :: "Table \<Rightarrow> nat \<Rightarrow> nat \<Rightarrow> lua_err + nat" where
  "unbound_loop t i j =
     (if j = 0 \<or> j \<ge> 2 ^ 31 then Inl (UB ''unbound_search'')
      else bindE (num_value t j) (\<lambda>v.
        if \<not> ttisnil v then
          (if j * 2 > nat MAX_INT then linear_search t 1 else unbound_loop t j (j * 2))
        else binary_search (num_value t) i j))"
  by pat_completeness auto
termination by (relation "measure (\<lambda>(t, i, j). 2 ^ 31 - j)") auto

declare linear_search.simps [simp del] binary_search.simps [simp del] unbound_loop.simps [simp del]

definition unbound_search :: "Table \<Rightarrow> nat \<Rightarrow> lua_err + nat" where
  "unbound_search t j = unbound_loop t j (j + 1)"

definition luaH_getn :: "Table \<Rightarrow> lua_err + nat" where
  "luaH_getn t =
     (let j = sizearray t in
      if j > 0 \<and> ttisnil (arr t ! (j - 1)) then binary_search (\<lambda>m. Inr (arr t ! (m - 1))) 0 j
      else if is_dummy t then Inr j
      else unbound_search t j)"

end
