(* ===== verification/Lua_TableLaws.thy ===== *)
theory Lua_TableLaws
  imports Lua_Table
begin

text \<open>
  The invariant of the table structure and what lookup and insertion mean: a table is the map
  \<open>content\<close> from keys to values, \<open>luaH_get\<close> reads it and a value stored where \<open>luaH_set\<close> says
  updates it, whatever moves of colliding nodes and rehashes that takes.
\<close>

section \<open>Main positions\<close>

lemma sizenode_pos [simp]: "0 < sizenode t"
  by (simp add: sizenode_def)

lemma of_nat_sizenode:
  assumes "lsizenode t \<le> MAXBITS"
  shows "unat (of_nat (sizenode t) - 1 :: u32) = sizenode t - 1" "sizenode t \<le> 2 ^ 26"
proof -
  show s: "sizenode t \<le> 2 ^ 26"
    using assms unfolding sizenode_def MAXBITS_def by (intro power_increasing) auto
  then have "unat (of_nat (sizenode t) :: u32) = sizenode t"
    by (subst unat_of_nat) simp
  then show "unat (of_nat (sizenode t) - 1 :: u32) = sizenode t - 1"
    using sizenode_pos [of t] by (subst unat_minus_one) (metis unat_0 less_irrefl, simp)
qed

lemma hashpow2_less: "lsizenode t \<le> MAXBITS \<Longrightarrow> hashpow2 t n < sizenode t"
proof -
  assume a: "lsizenode t \<le> MAXBITS"
  have "n AND (of_nat (sizenode t) - 1) \<le> (of_nat (sizenode t) - 1 :: u32)"
    by (simp add: word_and_le1)
  then have "hashpow2 t n \<le> sizenode t - 1"
    unfolding hashpow2_def word_le_nat_alt of_nat_sizenode(1) [OF a] .
  then show ?thesis using sizenode_pos [of t] by linarith
qed

lemma mask_or_1: "(mask l :: u32) OR 1 = (if l = 0 then 1 else mask l)"
  by (rule bit_eqI) (auto simp: bit_simps)

lemma hashmod_less: "lsizenode t \<le> MAXBITS \<Longrightarrow> hashmod t n < sizenode t"
proof -
  assume a: "lsizenode t \<le> MAXBITS"
  define d where "d = unat ((of_nat (sizenode t) - 1 :: u32) OR 1)"
  have m: "of_nat (sizenode t) - 1 = (mask (lsizenode t) :: u32)"
    by (simp add: mask_eq_exp_minus_1 sizenode_def)
  have "0 < d \<and> d \<le> sizenode t"
  proof (cases "lsizenode t = 0")
    case True
    then show ?thesis by (simp add: d_def m mask_or_1 sizenode_def)
  next
    case False
    then have "d = sizenode t - 1"
      using of_nat_sizenode(1) [OF a] by (simp add: d_def m mask_or_1)
    moreover have "2 \<le> sizenode t" using False unfolding sizenode_def by (cases "lsizenode t") auto
    ultimately show ?thesis by simp
  qed
  then show ?thesis
    unfolding hashmod_def d_def [symmetric] by (meson mod_less_divisor order_less_le_trans)
qed

lemma mainposition_less: "lsizenode t \<le> MAXBITS \<Longrightarrow> mainposition hs t k < sizenode t"
  by (cases k) (auto simp: hashpow2_less hashmod_less hashnum_def)

lemma zero_numeq: "d_iszero a \<Longrightarrow> luai_numeq a 0"
  by (simp add: luai_numeq_def d_iszero_def d_isnan_def d_exp_def d_frac_def)

lemma numeq_hashnum: "luai_numeq a b \<Longrightarrow> hashnum t a = hashnum t b"
  using zero_numeq [of a] zero_numeq [of b] unfolding luai_numeq_def [of a b] hashnum_def by metis

lemma mainposition_rawequal: "luaO_rawequalObj a b \<Longrightarrow> mainposition hs t a = mainposition hs t b"
proof -
  assume r: "luaO_rawequalObj a b"
  show ?thesis
  proof (cases "ttisnumber a")
    case True
    then obtain n where n: "a = VNumber n" by (auto simp: ttisnumber_iff)
    then obtain m where "b = VNumber m" using r by (cases b) auto
    then show ?thesis using r n by (simp add: numeq_hashnum)
  next
    case False
    then show ?thesis using r rawequal_nonnumber by simp
  qed
qed

lemma mainposition_cong:
  "lsizenode t' = lsizenode t \<Longrightarrow> mainposition hs t' k = mainposition hs t k"
proof -
  assume "lsizenode t' = lsizenode t"
  then have "sizenode t' = sizenode t" by (simp only: sizenode_def)
  then have "hashpow2 t' = hashpow2 t" "hashmod t' = hashmod t" by (intro ext; simp only: hashpow2_def hashmod_def)+
  moreover from this have "hashnum t' = hashnum t" by (intro ext) (simp only: hashnum_def)
  ultimately show ?thesis by (cases k) simp_all
qed

section \<open>Chains\<close>

definition nx :: "Table \<Rightarrow> (nat \<times> nat) set" where
  "nx t = {(i, j). i < sizenode t \<and> gnext (gnode t i) = Some j}"

definition chains_ok :: "Table \<Rightarrow> bool" where
  "chains_ok t = ((\<forall>i j. (i, j) \<in> nx t \<longrightarrow> j < sizenode t) \<and> (\<exists>rk :: nat \<Rightarrow> nat. \<forall>i j. (i, j) \<in> nx t \<longrightarrow> rk i < rk j))"

lemma nx_rank_trancl: "(i, j) \<in> (nx t)\<^sup>+ \<Longrightarrow> (\<And>i j. (i, j) \<in> nx t \<Longrightarrow> (rk :: nat \<Rightarrow> nat) i < rk j) \<Longrightarrow> rk i < rk j"
  by (induction rule: trancl_induct) (auto intro: less_trans)

lemma reach_less:
  assumes "chains_ok t" "(i, j) \<in> (nx t)\<^sup>*" "i < sizenode t"
  shows "j < sizenode t"
  using assms(2,3) by (induction rule: rtrancl_induct) (use assms(1) in \<open>auto simp: chains_ok_def\<close>)

definition R :: "Table \<Rightarrow> nat \<Rightarrow> nat set" where
  "R t i = {j. (i, j) \<in> (nx t)\<^sup>*}"

lemma R_bound:
  assumes "chains_ok t" "i < sizenode t"
  shows "finite (R t i)" "card (R t i) \<le> sizenode t" "0 < card (R t i)"
proof -
  have s: "R t i \<subseteq> {..<sizenode t}" using reach_less [OF assms(1) _ assms(2)] by (auto simp: R_def)
  then show f: "finite (R t i)" by (rule finite_subset) simp
  show "card (R t i) \<le> sizenode t" using card_mono [OF _ s] by simp
  have "i \<in> R t i" by (simp add: R_def)
  then show "0 < card (R t i)" using f card_gt_0_iff by blast
qed

lemma R_step:
  assumes "chains_ok t" "i < sizenode t" "gnext (gnode t i) = Some j"
  shows "R t i = insert i (R t j)" "i \<notin> R t j"
proof -
  have e: "(i, j) \<in> nx t" using assms(2,3) by (simp add: nx_def)
  have u: "k = j" if "(i, k) \<in> nx t" for k using that assms(3) by (simp add: nx_def)
  show "R t i = insert i (R t j)"
  proof (intro set_eqI iffI)
    fix k assume "k \<in> R t i"
    then have "(i, k) \<in> (nx t)\<^sup>*" by (simp add: R_def)
    then show "k \<in> insert i (R t j)" by (cases rule: converse_rtranclE) (use u in \<open>auto simp: R_def\<close>)
  next
    fix k assume "k \<in> insert i (R t j)"
    then show "k \<in> R t i" using converse_rtrancl_into_rtrancl [OF e] by (auto simp: R_def)
  qed
  obtain rk :: "nat \<Rightarrow> nat" where rk: "\<And>i j. (i, j) \<in> nx t \<Longrightarrow> rk i < rk j" using assms(1) by (auto simp: chains_ok_def)
  show "i \<notin> R t j"
  proof
    assume "i \<in> R t j"
    then have "(i, i) \<in> (nx t)\<^sup>+" using e by (auto simp: R_def intro: rtrancl_into_trancl2)
    from nx_rank_trancl [of i i t rk, OF this] rk show False by simp
  qed
qed

lemma R_end: "gnext (gnode t i) = None \<Longrightarrow> R t i = {i}"
  unfolding R_def by (auto simp: nx_def elim: converse_rtranclE)

lemma walk_spec:
  assumes "chains_ok t" "i < sizenode t" "card (R t i) \<le> k"
  shows "\<exists>r. walk t P i k = Inr r \<and> (case r of
      Some j \<Rightarrow> j \<in> R t i \<and> P (gkey (gnode t j))
    | None \<Rightarrow> \<forall>j \<in> R t i. \<not> P (gkey (gnode t j)))"
  using assms(2,3)
proof (induction k arbitrary: i)
  case 0
  then show ?case using R_bound(3) [OF assms(1), of i] by simp
next
  case (Suc k)
  show ?case
  proof (cases "P (gkey (gnode t i))")
    case True
    then show ?thesis by (simp add: R_def)
  next
    case False
    show ?thesis
    proof (cases "gnext (gnode t i)")
      case None
      then show ?thesis using False R_end [OF None] by simp
    next
      case (Some j)
      note s = R_step [OF assms(1) Suc.prems(1) Some]
      have j: "j < sizenode t" using assms(1) Some Suc.prems(1) by (auto simp: chains_ok_def nx_def)
      have "card (R t j) \<le> k" using Suc.prems(2) s R_bound(1) [OF assms(1) j] by simp
      from Suc.IH [OF j this] obtain r where r: "walk t P j k = Inr r" "case r of
          Some x \<Rightarrow> x \<in> R t j \<and> P (gkey (gnode t x)) | None \<Rightarrow> \<forall>x \<in> R t j. \<not> P (gkey (gnode t x))" by blast
      show ?thesis
        by (rule exI [of _ r]) (use r False Some s(1) in \<open>auto split: option.splits\<close>)
    qed
  qed
qed

lemma walk_full:
  assumes "chains_ok t" "i < sizenode t"
  obtains (hit) j where "walk t P i (sizenode t) = Inr (Some j)" "j \<in> R t i" "P (gkey (gnode t j))"
  | (miss) "walk t P i (sizenode t) = Inr None" "\<forall>j \<in> R t i. \<not> P (gkey (gnode t j))"
proof -
  from walk_spec [OF assms R_bound(2) [OF assms], of P] obtain r where
    "walk t P i (sizenode t) = Inr r" "case r of Some j \<Rightarrow> j \<in> R t i \<and> P (gkey (gnode t j))
       | None \<Rightarrow> \<forall>j \<in> R t i. \<not> P (gkey (gnode t j))" by blast
  then show thesis by (cases r) (auto intro: hit miss)
qed

lemma find_prev_spec:
  assumes "chains_ok t" "i < sizenode t" "mp \<in> R t i" "i \<noteq> mp" "card (R t i) \<le> k"
  shows "\<exists>j. find_prev t mp i k = Inr j \<and> j < sizenode t \<and> gnext (gnode t j) = Some mp \<and> j \<in> R t i"
  using assms(2-)
proof (induction k arbitrary: i)
  case 0
  then show ?case using R_bound(3) [OF assms(1), of i] by simp
next
  case (Suc k)
  show ?case
  proof (cases "gnext (gnode t i)")
    case None
    then show ?thesis using R_end [OF None] Suc.prems by simp
  next
    case (Some j)
    note s = R_step [OF assms(1) Suc.prems(1) Some]
    have j: "j < sizenode t" using assms(1) Some Suc.prems(1) by (auto simp: chains_ok_def nx_def)
    show ?thesis
    proof (cases "j = mp")
      case True
      then show ?thesis using Some Suc.prems(1) by (auto simp: R_def)
    next
      case False
      have "card (R t j) \<le> k" "mp \<in> R t j" using Suc.prems s R_bound(1) [OF assms(1) j] by auto
      from Suc.IH [OF j this(2) False this(1)] obtain x where x: "find_prev t mp j k = Inr x"
        "x < sizenode t \<and> gnext (gnode t x) = Some mp \<and> x \<in> R t j" by blast
      show ?thesis by (rule exI [of _ x]) (use x False Some s in auto)
    qed
  qed
qed

section \<open>The invariant\<close>

lemmas raweq = luaO_rawequalObj.simps

declare luaO_rawequalObj.simps [simp del]

fun realkey :: "TValue \<Rightarrow> bool" where
  "realkey VNil = False"
| "realkey (VDeadKey a) = False"
| "realkey (VNumber n) = (\<not> d_isnan n)"
| "realkey k = True"

abbreviation key_at :: "Table \<Rightarrow> nat \<Rightarrow> TValue" where "key_at t i \<equiv> gkey (gnode t i)"
abbreviation val_at :: "Table \<Rightarrow> nat \<Rightarrow> TValue" where "val_at t i \<equiv> gval (gnode t i)"

definition live :: "Table \<Rightarrow> nat \<Rightarrow> bool" where
  "live t i = (i < sizenode t \<and> val_at t i \<noteq> VNil)"

definition has :: "Table \<Rightarrow> nat \<Rightarrow> bool" where
  "has t i = (i < sizenode t \<and> realkey (key_at t i))"

definition in_array :: "Table \<Rightarrow> TValue \<Rightarrow> bool" where
  "in_array t k = (1 \<le> arrayindex k \<and> arrayindex k \<le> int (sizearray t))"

text \<open>
  The node part: free nodes are unlinked and lie below \<open>lastfree\<close>; the chains have no cycle and
  no two nodes share a successor; an element is on the chain of its main position; of the keys
  with one main position on its chain no two are equal, and if that position is itself in use its
  key belongs there (the invariant the header of \<^verbatim>\<open>ltable.c\<close> names).
\<close>

definition links_ok :: "Table \<Rightarrow> bool" where
  "links_ok t = (chains_ok t \<and>
     (\<forall>i j. (i, j) \<in> nx t \<longrightarrow> key_at t i \<noteq> VNil \<and> key_at t j \<noteq> VNil) \<and>
     (\<forall>i i' j. (i, j) \<in> nx t \<longrightarrow> (i', j) \<in> nx t \<longrightarrow> i = i') \<and>
     (\<forall>i < sizenode t. key_at t i = VNil \<longrightarrow> val_at t i = VNil) \<and>
     (\<forall>i < sizenode t. \<not> is_dummy t \<longrightarrow> lastfree t \<le> int i \<longrightarrow> key_at t i \<noteq> VNil))"

definition keys_ok :: "(addr \<Rightarrow> u32) \<Rightarrow> Table \<Rightarrow> bool" where
  "keys_ok hs t = (
     (\<forall>i. live t i \<longrightarrow> has t i \<and> i \<in> R t (mainposition hs t (key_at t i)) \<and> \<not> in_array t (key_at t i)) \<and>
     (\<forall>i. has t i \<longrightarrow> key_at t (mainposition hs t (key_at t i)) \<noteq> VNil) \<and>
     (\<forall>i. has t i \<longrightarrow> (let m = mainposition hs t (key_at t i) in
        i \<in> R t m \<longrightarrow> m \<noteq> i \<longrightarrow> has t m \<longrightarrow> mainposition hs t (key_at t m) = m)) \<and>
     (\<forall>i j. has t i \<longrightarrow> has t j \<longrightarrow> luaO_rawequalObj (key_at t i) (key_at t j) \<longrightarrow>
        i \<in> R t (mainposition hs t (key_at t i)) \<longrightarrow> j \<in> R t (mainposition hs t (key_at t i)) \<longrightarrow> i = j))"

definition shape_ok :: "Table \<Rightarrow> bool" where
  "shape_ok t = (length (node t) = sizenode t \<and> lsizenode t \<le> MAXBITS \<and>
     sizearray t \<le> length (arr t) \<and> int (sizearray t) \<le> MAXASIZE \<and>
     (is_dummy t \<longrightarrow> node t = [dummynode] \<and> lastfree t \<le> 0) \<and> lastfree t \<le> int (sizenode t))"

definition table_ok :: "(addr \<Rightarrow> u32) \<Rightarrow> Table \<Rightarrow> bool" where
  "table_ok hs t = (shape_ok t \<and> links_ok t \<and> keys_ok hs t)"

lemma table_okD:
  assumes "table_ok hs t"
  shows "chains_ok t" "lsizenode t \<le> MAXBITS" "length (node t) = sizenode t"
    "sizearray t \<le> length (arr t)" "int (sizearray t) \<le> MAXASIZE"
  using assms by (auto simp: table_ok_def shape_ok_def links_ok_def)

lemma live_has: "table_ok hs t \<Longrightarrow> live t i \<Longrightarrow> has t i"
  by (simp add: table_ok_def keys_ok_def)

lemma live_reach: "table_ok hs t \<Longrightarrow> live t i \<Longrightarrow> i \<in> R t (mainposition hs t (key_at t i))"
  by (simp add: table_ok_def keys_ok_def)

lemma live_not_array: "table_ok hs t \<Longrightarrow> live t i \<Longrightarrow> \<not> in_array t (key_at t i)"
  by (simp add: table_ok_def keys_ok_def)

lemma has_unique:
  assumes "table_ok hs t" "has t i" "has t j" "luaO_rawequalObj (key_at t i) (key_at t j)"
    "i \<in> R t (mainposition hs t (key_at t i))" "j \<in> R t (mainposition hs t (key_at t i))"
  shows "i = j"
  using assms unfolding table_ok_def keys_ok_def by blast

lemma rawequal_realkey: "luaO_rawequalObj a b \<Longrightarrow> realkey b \<Longrightarrow> realkey a"
  by (cases a; cases b) (auto simp: raweq luai_numeq_def)

section \<open>The map a table is\<close>

definition content :: "Table \<Rightarrow> TValue \<Rightarrow> TValue" where
  "content t k =
     (if in_array t k then arr t ! nat (arrayindex k - 1)
      else case List.find (\<lambda>i. luaO_rawequalObj (key_at t i) k \<and> val_at t i \<noteq> VNil) [0..<sizenode t] of
        Some i \<Rightarrow> val_at t i | None \<Rightarrow> VNil)"

lemma content_array: "in_array t k \<Longrightarrow> content t k = arr t ! nat (arrayindex k - 1)"
  by (simp add: content_def)

lemma content_node:
  assumes "table_ok hs t" "\<not> in_array t k" "has t i" "luaO_rawequalObj (key_at t i) k"
    "i \<in> R t (mainposition hs t k)"
  shows "content t k = val_at t i"
proof -
  note m = mainposition_rawequal [OF assms(4), of hs t]
  have only: "j = i" if "live t j" "luaO_rawequalObj (key_at t j) k" for j
  proof -
    have "luaO_rawequalObj (key_at t i) (key_at t j)"
      using assms(4) that(2) rawequal_trans rawequal_sym by blast
    moreover have "j \<in> R t (mainposition hs t (key_at t i))"
      using live_reach [OF assms(1) that(1)] mainposition_rawequal [OF that(2), of hs t] m by simp
    ultimately show ?thesis
      using has_unique [OF assms(1,3) live_has [OF assms(1) that(1)]] assms(5) m by simp
  qed
  show ?thesis
  proof (cases "List.find (\<lambda>i. luaO_rawequalObj (key_at t i) k \<and> val_at t i \<noteq> VNil) [0..<sizenode t]")
    case None
    then have "val_at t i = VNil" using assms(3,4) by (auto simp: find_None_iff has_def)
    then show ?thesis using None assms(2) by (simp add: content_def)
  next
    case (Some j)
    then have "j < sizenode t" "luaO_rawequalObj (key_at t j) k" "val_at t j \<noteq> VNil"
      by (auto simp: find_Some_iff)
    then have "j = i" using only by (simp add: live_def)
    then show ?thesis using Some assms(2) by (simp add: content_def)
  qed
qed

lemma content_none:
  assumes "table_ok hs t" "\<not> in_array t k" "\<forall>i \<in> R t (mainposition hs t k). \<not> luaO_rawequalObj (key_at t i) k"
  shows "content t k = VNil"
proof -
  have "\<not> (luaO_rawequalObj (key_at t i) k \<and> val_at t i \<noteq> VNil)" if "i < sizenode t" for i
    using live_reach [OF assms(1), of i] assms(3) mainposition_rawequal [of "key_at t i" k hs t] that
    unfolding live_def by metis
  then have "List.find (\<lambda>i. luaO_rawequalObj (key_at t i) k \<and> val_at t i \<noteq> VNil) [0..<sizenode t] = None"
    by (auto simp: find_None_iff)
  then show ?thesis using assms(2) by (simp add: content_def)
qed

text \<open>Where the value of a key is, or may be put.\<close>

definition slot_for :: "(addr \<Rightarrow> u32) \<Rightarrow> Table \<Rightarrow> TValue \<Rightarrow> slot \<Rightarrow> bool" where
  "slot_for hs t k p = (case p of
     In_array i \<Rightarrow> in_array t k \<and> i = nat (arrayindex k - 1)
   | In_node i \<Rightarrow> \<not> in_array t k \<and> has t i \<and> luaO_rawequalObj (key_at t i) k \<and> i \<in> R t (mainposition hs t k)
   | Nilobject \<Rightarrow> False)"

lemma slot_value_content: "table_ok hs t \<Longrightarrow> slot_for hs t k p \<Longrightarrow> slot_value t p = content t k"
  by (cases p) (auto simp: slot_for_def slot_value_def content_array content_node)

section \<open>Lookup\<close>

lemma getgeneric_spec:
  assumes "table_ok hs t" "realkey k" "\<not> in_array t k"
  obtains p where "getgeneric hs t k = Inr p" "p = Nilobject \<and> (\<forall>i \<in> R t (mainposition hs t k). \<not> luaO_rawequalObj (key_at t i) k) \<or> slot_for hs t k p"
proof -
  note c = table_okD(1,2) [OF assms(1)]
  note m = mainposition_less [OF c(2), of hs k]
  show thesis
  proof (rule walk_full [OF c(1) m, of "\<lambda>x. luaO_rawequalObj x k"])
    fix j assume hit: "walk t (\<lambda>x. luaO_rawequalObj x k) (mainposition hs t k) (sizenode t) = Inr (Some j)"
      "j \<in> R t (mainposition hs t k)" "luaO_rawequalObj (key_at t j) k"
    moreover have "j < sizenode t" using hit(2) reach_less [OF c(1) _ m] by (simp add: R_def)
    ultimately have "slot_for hs t k (In_node j)"
      using assms(2,3) rawequal_realkey [OF hit(3)] by (simp add: slot_for_def has_def)
    then show ?thesis using that hit(1) by (simp add: getgeneric_def walk_slot_def)
  next
    assume "walk t (\<lambda>x. luaO_rawequalObj x k) (mainposition hs t k) (sizenode t) = Inr None"
      "\<forall>j \<in> R t (mainposition hs t k). \<not> luaO_rawequalObj (key_at t j) k"
    then show ?thesis using that by (simp add: getgeneric_def walk_slot_def)
  qed
qed

lemma walk_cong: "(\<And>x. P x = Q x) \<Longrightarrow> walk t P i k = walk t Q i k"
  by (subgoal_tac "P = Q") auto

lemma getstr_generic: "luaH_getstr hs t a = getgeneric hs t (VString a)"
proof -
  have "(\<lambda>k. case k of VString b \<Rightarrow> b = a | _ \<Rightarrow> False) = (\<lambda>k. luaO_rawequalObj k (VString a))"
    by (rule ext) (simp add: raweq split: TValue.split)
  then show ?thesis unfolding luaH_getstr_def getgeneric_def mainposition.simps by simp
qed

lemma unat_index:
  assumes "INT_MIN \<le> k" "k \<le> INT_MAX" "int n \<le> MAXASIZE"
  shows "(unat (word_of_int (k - 1) :: u32) < n) = (1 \<le> k \<and> k \<le> int n)"
    "1 \<le> k \<Longrightarrow> unat (word_of_int (k - 1) :: u32) = nat (k - 1)"
proof -
  have u: "int (unat (word_of_int (k - 1) :: u32)) = (k - 1) mod 2 ^ 32"
  proof -
    have "LENGTH(32) = 32" by simp
    then show ?thesis by (simp only: uint_nat [symmetric] uint_word_of_int)
  qed
  show "1 \<le> k \<Longrightarrow> unat (word_of_int (k - 1) :: u32) = nat (k - 1)"
  proof -
    assume "1 \<le> k"
    then have "(k - 1) mod 2 ^ 32 = k - 1" using assms(2) by (intro mod_pos_pos_trivial) (simp_all add: INT_MAX_def)
    then show ?thesis using u by linarith
  qed
  show "(unat (word_of_int (k - 1) :: u32) < n) = (1 \<le> k \<and> k \<le> int n)"
  proof (cases "1 \<le> k")
    case True
    then have "(k - 1) mod 2 ^ 32 = k - 1" using assms(2) by (intro mod_pos_pos_trivial) (simp_all add: INT_MAX_def)
    then show ?thesis using u True by linarith
  next
    case False
    have "(k - 1) mod 2 ^ 32 = (k - 1 + 2 ^ 32) mod 2 ^ 32" by (simp only: mod_add_self2)
    also have "\<dots> = k - 1 + 2 ^ 32"
      using assms(1) False by (intro mod_pos_pos_trivial) (simp_all add: INT_MIN_def)
    finally have m: "(k - 1) mod 2 ^ 32 = k - 1 + 4294967296" by simp
    define x where "x = unat (word_of_int (k - 1) :: u32)"
    have "int x = k - 1 + 4294967296" unfolding x_def by (rule trans [OF u m])
    moreover have "- 2147483648 \<le> k" "int n \<le> 67108864" using assms(1,3) by (simp_all add: INT_MIN_def MAXASIZE_def MAXBITS_def)
    ultimately have "\<not> x < n" by linarith
    then have "\<not> unat (word_of_int (k - 1) :: u32) < n" unfolding x_def .
    with False show ?thesis by blast
  qed
qed

lemma getnum_generic:
  assumes "int (sizearray t) \<le> MAXASIZE" "INT_MIN \<le> k" "k \<le> INT_MAX"
  shows "luaH_getnum t k = (if 1 \<le> k \<and> k \<le> int (sizearray t) then Inr (In_array (nat (k - 1)))
     else getgeneric hs t (VNumber (cast_num k)))"
proof -
  have "(\<lambda>x. case x of VNumber n \<Rightarrow> luai_numeq n (cast_num k) | _ \<Rightarrow> False) = (\<lambda>x. luaO_rawequalObj x (VNumber (cast_num k)))"
    by (rule ext) (simp add: raweq split: TValue.split)
  then show ?thesis
    using unat_index [OF assms(2,3,1)] unfolding luaH_getnum_def getgeneric_def mainposition.simps Let_def by simp
qed

lemma arrayindex_number:
  "arrayindex (VNumber n) = (if luai_numeq (cast_num (lua_number2int n)) n then lua_number2int n else - 1)"
  by (simp add: arrayindex_def Let_def)

lemma cast_num_arrayindex:
  assumes "INT_MIN \<le> k" "k \<le> INT_MAX"
  shows "arrayindex (VNumber (cast_num k)) = k" "realkey (VNumber (cast_num k))"
proof -
  have a: "\<bar>k\<bar> < 2 ^ 53" using assms by (simp add: INT_MIN_def INT_MAX_def)
  show "realkey (VNumber (cast_num k))" using cast_num_not_nan [OF a] by simp
  have "lua_number2int (cast_num k) = k"
    using number2int_cast_num assms by (simp add: INT_MIN_def INT_MAX_def)
  then show "arrayindex (VNumber (cast_num k)) = k"
    using cast_num_not_nan [OF a] by (simp add: arrayindex_number luai_numeq_def)
qed

lemma arrayindex_rawequal: "luaO_rawequalObj a b \<Longrightarrow> arrayindex a = arrayindex b"
proof -
  assume r: "luaO_rawequalObj a b"
  show ?thesis
  proof (cases "ttisnumber a")
    case False
    then show ?thesis using r rawequal_nonnumber by simp
  next
    case True
    then obtain n where n: "a = VNumber n" by (auto simp: ttisnumber_iff)
    then obtain m where m: "b = VNumber m" using r by (cases b) (auto simp: raweq)
    have e: "luai_numeq n m" using r n m by (simp add: raweq)
    show ?thesis
    proof (cases "n = m")
      case False
      then have z: "d_iszero n" "d_iszero m" using e by (auto simp: luai_numeq_def)
      then have "lua_number2int n = 0" "lua_number2int m = 0"
        by (auto simp: lua_number2int_def d_iszero_def)
      moreover have "luai_numeq 0 n" "luai_numeq 0 m"
        using z by (auto simp: luai_numeq_def d_iszero_def d_isnan_def d_exp_def d_frac_def)
      ultimately show ?thesis by (simp add: n m arrayindex_number)
    qed (simp add: n m)
  qed
qed

lemma in_array_rawequal: "luaO_rawequalObj a b \<Longrightarrow> in_array t a = in_array t b"
  by (simp add: in_array_def arrayindex_rawequal)

text \<open>\<open>luaH_get\<close> finds the slot of the key, and none only when the chain does not hold it.\<close>

lemma luaH_get_spec:
  assumes "table_ok hs t" "realkey k"
  obtains p where "luaH_get hs t k = Inr p"
    "p = Nilobject \<and> \<not> in_array t k \<and> (\<forall>i \<in> R t (mainposition hs t k). \<not> luaO_rawequalObj (key_at t i) k) \<or> slot_for hs t k p"
proof -
  note sz = table_okD(5) [OF assms(1)]
  show thesis
  proof (cases "\<exists>n. k = VNumber n \<and> luai_numeq (cast_num (lua_number2int n)) n")
    case True
    then obtain n where n: "k = VNumber n" "luai_numeq (cast_num (lua_number2int n)) n" by blast
    define i where "i = lua_number2int n"
    have r: "INT_MIN \<le> i" "i \<le> INT_MAX" using number2int_range [of n] by (simp_all add: i_def)
    have e: "luaO_rawequalObj (VNumber (cast_num i)) k" using n by (simp add: raweq i_def)
    have g: "luaH_get hs t k = luaH_getnum t i" using n by (simp add: luaH_get_def i_def)
    have ai: "arrayindex k = i" using n by (simp add: arrayindex_number i_def)
    show thesis
    proof (cases "in_array t k")
      case True
      then have "luaH_get hs t k = Inr (In_array (nat (i - 1)))"
        using getnum_generic [OF sz r, of hs] ai g by (simp add: in_array_def)
      then show thesis using that True ai by (simp add: slot_for_def)
    next
      case False
      then have g': "luaH_get hs t k = getgeneric hs t (VNumber (cast_num i))"
        using getnum_generic [OF sz r, of hs] ai g by (auto simp: in_array_def)
      have rq: "luaO_rawequalObj x (VNumber (cast_num i)) = luaO_rawequalObj x k" for x
        using e rawequal_trans rawequal_sym by blast
      have mp: "mainposition hs t (VNumber (cast_num i)) = mainposition hs t k"
        by (rule mainposition_rawequal [OF e])
      have "getgeneric hs t (VNumber (cast_num i)) = getgeneric hs t k"
        unfolding getgeneric_def mp rq ..
      then show thesis using getgeneric_spec [OF assms False] that g' False by metis
    qed
  next
    case False
    then have na: "\<not> in_array t k"
      by (cases k) (auto simp: in_array_def arrayindex_def)
    have "luaH_get hs t k = getgeneric hs t k"
      using False assms(2) by (cases k) (auto simp: luaH_get_def getstr_generic)
    then show thesis using getgeneric_spec [OF assms na] that na by metis
  qed
qed

lemma luaH_get_content:
  assumes "table_ok hs t" "realkey k" "luaH_get hs t k = Inr p"
  shows "slot_value t p = content t k"
proof (rule luaH_get_spec [OF assms(1,2)])
  fix q assume q: "luaH_get hs t k = Inr q"
    "q = Nilobject \<and> \<not> in_array t k \<and> (\<forall>i \<in> R t (mainposition hs t k). \<not> luaO_rawequalObj (key_at t i) k) \<or> slot_for hs t k q"
  then have "q = p" using assms(3) by simp
  with q(2) show ?thesis
    using slot_value_content [OF assms(1)] content_none [OF assms(1)] by (auto simp: slot_value_def)
qed

section \<open>Storing a value\<close>

lemma gnode_set_node: "i < length (node t) \<Longrightarrow> gnode (set_node t i n) j = (if j = i then n else gnode t j)"
  by (simp add: gnode_def set_node_def)

lemma set_node_simps [simp]:
  "length (node (set_node t i n)) = length (node t)" "sizenode (set_node t i n) = sizenode t"
  "lsizenode (set_node t i n) = lsizenode t" "arr (set_node t i n) = arr t" "sizearray (set_node t i n) = sizearray t"
  "is_dummy (set_node t i n) = is_dummy t" "lastfree (set_node t i n) = lastfree t"
  "mainposition hs (set_node t i n) = mainposition hs t" "in_array (set_node t i n) = in_array t"
  by (auto simp: set_node_def sizenode_def in_array_def intro!: ext mainposition_cong)

text \<open>Tables that differ only outside the keys and the links, or only in what is stored.\<close>

definition same_links :: "Table \<Rightarrow> Table \<Rightarrow> bool" where
  "same_links t t' = (lsizenode t' = lsizenode t \<and> length (node t') = length (node t) \<and> is_dummy t' = is_dummy t \<and>
     lastfree t' = lastfree t \<and> (\<forall>i. key_at t' i = key_at t i \<and> gnext (gnode t' i) = gnext (gnode t i)))"

lemma same_links_eqs:
  assumes "same_links t t'"
  shows "sizenode t' = sizenode t" "nx t' = nx t" "R t' = R t" "has t' = has t" "mainposition hs t' = mainposition hs t"
    "chains_ok t' = chains_ok t"
proof -
  show s: "sizenode t' = sizenode t" using assms by (simp add: same_links_def sizenode_def)
  show n: "nx t' = nx t" using assms s by (simp add: nx_def same_links_def)
  show "R t' = R t" by (rule ext) (simp add: R_def n)
  show "has t' = has t" using assms s by (intro ext) (simp add: has_def same_links_def)
  show "mainposition hs t' = mainposition hs t"
    using assms by (intro ext mainposition_cong) (simp add: same_links_def)
  show "chains_ok t' = chains_ok t" by (simp add: chains_ok_def n s)
qed

lemma slot_node_less: "table_ok hs t \<Longrightarrow> slot_for hs t k (In_node i) \<Longrightarrow> i < length (node t)"
  by (simp add: slot_for_def has_def table_okD)

lemma store_node_links:
  assumes "table_ok hs t" "slot_for hs t k (In_node i)"
  shows "same_links t (store t (In_node i) v)"
    "val_at (store t (In_node i) v) j = (if j = i then v else val_at t j)"
  using slot_node_less [OF assms] by (auto simp: same_links_def store_def gnode_set_node)

lemma dummy_no_has: "table_ok hs t \<Longrightarrow> is_dummy t \<Longrightarrow> \<not> has t i"
  by (cases i) (auto simp: table_ok_def shape_ok_def has_def gnode_def dummynode_def)

lemma store_node_ok:
  assumes "table_ok hs t" "slot_for hs t k (In_node i)"
  shows "table_ok hs (store t (In_node i) v)"
proof -
  let ?t = "store t (In_node i) v"
  note sl = store_node_links(1) [OF assms, of v] and val = store_node_links(2) [OF assms, of v]
  note eqs = same_links_eqs [OF sl]
  have key: "key_at ?t j = key_at t j" for j using sl by (simp add: same_links_def)
  have i: "\<not> in_array t k" "has t i" "luaO_rawequalObj (key_at t i) k" "i \<in> R t (mainposition hs t k)"
    using assms(2) by (simp_all add: slot_for_def)
  have ia: "in_array ?t = in_array t" "arr ?t = arr t" "sizearray ?t = sizearray t" by (simp_all add: store_def)
  have ki: "key_at t i \<noteq> VNil" using i(2) by (auto simp: has_def)
  have lv: "live ?t j = (if j = i then v \<noteq> VNil else live t j)" for j
    using i(2) by (simp add: live_def val eqs(1) has_def)
  have "shape_ok ?t"
    using assms(1) dummy_no_has [OF assms(1), of i] i(2) sl ia eqs(1) by (auto simp: table_ok_def shape_ok_def same_links_def)
  moreover have "links_ok ?t"
    using assms(1) sl ki unfolding table_ok_def links_ok_def eqs key val by (auto simp: same_links_def)
  moreover have "keys_ok hs ?t"
    using assms(1) i mainposition_rawequal [OF i(3), of hs t] in_array_rawequal [OF i(3), of t]
    unfolding table_ok_def keys_ok_def eqs key ia(1) lv by auto
  ultimately show ?thesis by (simp add: table_ok_def)
qed

lemma store_array_ok:
  assumes "table_ok hs t"
  shows "table_ok hs (store t (In_array i) v)"
proof -
  let ?t = "store t (In_array i) v"
  have sl: "same_links t ?t" by (simp add: same_links_def store_def gnode_def)
  note eqs = same_links_eqs [OF sl]
  have key: "gnode ?t j = gnode t j" for j by (simp add: store_def gnode_def)
  have ia: "in_array ?t = in_array t" by (intro ext) (simp add: in_array_def store_def)
  have lv: "live ?t = live t" by (intro ext) (simp add: live_def key eqs(1))
  have "shape_ok ?t" using assms eqs(1) by (auto simp: table_ok_def shape_ok_def store_def sizenode_def)
  moreover have "links_ok ?t"
    using assms sl unfolding table_ok_def links_ok_def eqs key by (auto simp: same_links_def)
  moreover have "keys_ok hs ?t"
    using assms unfolding table_ok_def keys_ok_def eqs key ia lv by simp
  ultimately show ?thesis by (simp add: table_ok_def)
qed

lemma store_ok: "table_ok hs t \<Longrightarrow> slot_for hs t k p \<Longrightarrow> table_ok hs (store t p v)"
  by (cases p) (auto simp: store_array_ok store_node_ok slot_for_def)

lemma arrayindex_inj:
  assumes "arrayindex a = arrayindex b" "0 < arrayindex a"
  shows "luaO_rawequalObj a b"
proof -
  have num: "\<exists>n. x = VNumber n \<and> luai_numeq (cast_num (arrayindex x)) n" if "0 < arrayindex x" for x
    using that by (cases x) (auto simp: arrayindex_number, auto simp: arrayindex_def)
  obtain n m where "a = VNumber n" "b = VNumber m" "luai_numeq (cast_num (arrayindex a)) n" "luai_numeq (cast_num (arrayindex a)) m"
    using num [OF assms(2)] num [of b] assms by auto
  then show ?thesis by (auto simp: raweq luai_numeq_def)
qed

lemma find_cong: "(\<And>x. x \<in> set xs \<Longrightarrow> P x = Q x) \<Longrightarrow> List.find P xs = List.find Q xs"
  by (induction xs) auto

lemma content_store:
  assumes "table_ok hs t" "slot_for hs t k p" "realkey k'"
  shows "content (store t p v) k' = (if luaO_rawequalObj k k' then v else content t k')"
proof (cases p)
  case (In_array i)
  then have i: "in_array t k" "i = nat (arrayindex k - 1)" using assms(2) by (simp_all add: slot_for_def)
  let ?t = "store t (In_array i) v"
  have st: "in_array ?t k' = in_array t k'" "gnode ?t = gnode t" "sizenode ?t = sizenode t"
    by (auto simp: in_array_def store_def gnode_def sizenode_def)
  have l: "i < length (arr t)" using i table_okD(4) [OF assms(1)] by (auto simp: in_array_def nat_less_iff)
  show ?thesis
  proof (cases "luaO_rawequalObj k k'")
    case True
    then show ?thesis
      using In_array i l arrayindex_rawequal [OF True] in_array_rawequal [OF True, of t] st(1)
      by (simp add: content_array) (simp add: store_def)
  next
    case False
    have "nat (arrayindex k' - 1) \<noteq> i" if "in_array t k'"
      using arrayindex_inj [of k k'] False that i by (auto simp: in_array_def eq_nat_nat_iff)
    moreover have "arr ?t = (arr t)[i := v]" by (simp add: store_def)
    ultimately have "content ?t k' = content t k'"
      by (cases "in_array t k'") (auto simp: content_def st split: option.split)
    then show ?thesis using In_array False by simp
  qed
next
  case (In_node i)
  note a2 = assms(2) [unfolded In_node]
  note sl = store_node_links(1) [OF assms(1) a2, of v] and val = store_node_links(2) [OF assms(1) a2, of v]
  note eqs = same_links_eqs [OF sl]
  let ?t = "store t (In_node i) v"
  have key: "key_at ?t j = key_at t j" for j using sl by (simp add: same_links_def)
  have i: "\<not> in_array t k" "has t i" "luaO_rawequalObj (key_at t i) k" "i \<in> R t (mainposition hs t k)"
    using a2 by (simp_all add: slot_for_def)
  have ia: "in_array ?t = in_array t" "arr ?t = arr t" by (simp_all add: store_def)
  show ?thesis
  proof (cases "luaO_rawequalObj k k'")
    case True
    have rk: "luaO_rawequalObj (key_at t i) k'" using i(3) True rawequal_trans rawequal_sym by blast
    have "content ?t k' = val_at ?t i"
      by (rule content_node [OF store_node_ok [OF assms(1) a2]])
        (use i rk in_array_rawequal [OF True] mainposition_rawequal [OF True, of hs t] in \<open>auto simp: ia eqs key\<close>)
    then show ?thesis using True In_node by (simp add: val)
  next
    case False
    have "\<not> luaO_rawequalObj (key_at t i) k'"
      using i(3) False rawequal_trans rawequal_sym by blast
    then have f: "List.find (\<lambda>j. luaO_rawequalObj (key_at ?t j) k' \<and> val_at ?t j \<noteq> VNil) [0..<sizenode ?t] =
        List.find (\<lambda>j. luaO_rawequalObj (key_at t j) k' \<and> val_at t j \<noteq> VNil) [0..<sizenode t]"
      unfolding eqs key val by (intro find_cong) auto
    have "val_at ?t j = val_at t j" if "List.find (\<lambda>j. luaO_rawequalObj (key_at t j) k' \<and> val_at t j \<noteq> VNil) [0..<sizenode t] = Some j" for j
      using that \<open>\<not> luaO_rawequalObj (key_at t i) k'\<close> val by (auto simp: find_Some_iff)
    then show ?thesis using False In_node ia f unfolding content_def by (auto split: option.split)
  qed
qed (use assms(2) in \<open>simp add: slot_for_def\<close>)

section \<open>Chains under insertion\<close>

lemma rtrancl_insert_after:
  assumes r': "r' = {(i, j) \<in> r. i \<noteq> m} \<union> {(m, n)} \<union> {(n, j) |j. (m, j) \<in> r}"
    and n: "\<And>x. (x, n) \<notin> r" "\<And>x. (n, x) \<notin> r" "n \<noteq> m"
  shows "(a, b) \<in> r\<^sup>* \<Longrightarrow> (a, b) \<in> r'\<^sup>*"
    "(a, b) \<in> r'\<^sup>* \<Longrightarrow> a \<noteq> n \<Longrightarrow> (if b = n then (a, m) \<in> r\<^sup>* else (a, b) \<in> r\<^sup>*)"
proof -
  have step: "(x, y) \<in> r'\<^sup>*" if "(x, y) \<in> r" for x y
  proof (cases "x = m")
    case True
    then have "(m, n) \<in> r'" "(n, y) \<in> r'" using that r' by auto
    then show ?thesis using True by (meson converse_rtrancl_into_rtrancl r_into_rtrancl)
  next
    case False
    then show ?thesis using that r' by auto
  qed
  show "(a, b) \<in> r\<^sup>* \<Longrightarrow> (a, b) \<in> r'\<^sup>*"
    by (induction rule: rtrancl_induct) (auto intro: rtrancl_trans step)
  show "(a, b) \<in> r'\<^sup>* \<Longrightarrow> a \<noteq> n \<Longrightarrow> (if b = n then (a, m) \<in> r\<^sup>* else (a, b) \<in> r\<^sup>*)"
  proof (induction rule: rtrancl_induct)
    case base
    then show ?case by simp
  next
    case (step y z)
    show ?case
    proof (cases "y = n")
      case True
      then have "(m, z) \<in> r" using step.hyps(2) n r' by auto
      then show ?thesis using step True n by (auto intro: rtrancl_into_rtrancl)
    next
      case False
      then have y: "(a, y) \<in> r\<^sup>*" using step by simp
      show ?thesis
      proof (cases "y = m")
        case True
        then have "z = n" using step.hyps(2) n r' by auto
        then show ?thesis using y True by simp
      next
        case ym: False
        then have "(y, z) \<in> r" using step.hyps(2) False r' by auto
        then show ?thesis using y n by (auto intro: rtrancl_into_rtrancl)
      qed
    qed
  qed
qed

lemma rtrancl_rename:
  assumes r': "r' = (\<lambda>(i, j). (s i, s j)) ` r" and inj: "inj_on s (Field r)"
  shows "(a, b) \<in> r\<^sup>* \<Longrightarrow> (s a, s b) \<in> r'\<^sup>*"
    "(x, y) \<in> r'\<^sup>* \<Longrightarrow> x = y \<or> (\<exists>a b. a \<in> Field r \<and> b \<in> Field r \<and> x = s a \<and> y = s b \<and> (a, b) \<in> r\<^sup>*)"
proof -
  show "(a, b) \<in> r\<^sup>* \<Longrightarrow> (s a, s b) \<in> r'\<^sup>*"
    by (induction rule: rtrancl_induct) (auto simp: r' intro: rtrancl_into_rtrancl image_eqI)
  show "(x, y) \<in> r'\<^sup>* \<Longrightarrow> x = y \<or> (\<exists>a b. a \<in> Field r \<and> b \<in> Field r \<and> x = s a \<and> y = s b \<and> (a, b) \<in> r\<^sup>*)"
  proof (induction rule: rtrancl_induct)
    case base
    then show ?case by simp
  next
    case (step y z)
    obtain c d where cd: "(c, d) \<in> r" "y = s c" "z = s d" using step.hyps(2) r' by auto
    have F: "c \<in> Field r" "d \<in> Field r" using cd(1) by (auto simp: Field_def)
    from step.IH show ?case
    proof
      assume "x = y"
      then show ?thesis using cd F by blast
    next
      assume "\<exists>a b. a \<in> Field r \<and> b \<in> Field r \<and> x = s a \<and> y = s b \<and> (a, b) \<in> r\<^sup>*"
      then obtain a b where ab: "a \<in> Field r" "b \<in> Field r" "x = s a" "y = s b" "(a, b) \<in> r\<^sup>*" by blast
      then have "b = c" using inj cd(2) F by (auto dest: inj_onD)
      then have "(a, d) \<in> r\<^sup>*" using ab(5) cd(1) by (auto intro: rtrancl_into_rtrancl)
      then show ?thesis using ab(1,3) cd(3) F(2) by blast
    qed
  qed
qed

section \<open>Free places\<close>

definition used :: "Table \<Rightarrow> nat" where
  "used t = card {i. i < sizenode t \<and> key_at t i \<noteq> VNil}"

definition room :: "Table \<Rightarrow> nat" where
  "room t = (if is_dummy t then 0 else sizenode t - used t)"

lemma used_le: "used t \<le> sizenode t"
proof -
  have "card {i. i < sizenode t \<and> key_at t i \<noteq> VNil} \<le> card {..<sizenode t}" by (rule card_mono) auto
  then show ?thesis by (simp add: used_def)
qed

lemma getfreepos_spec:
  assumes "\<forall>i < sizenode t. l \<le> int i \<longrightarrow> key_at t i \<noteq> VNil" "lastfree t = l" "l \<le> int (sizenode t)"
  shows "\<exists>r l'. getfreepos t = (r, t\<lparr>lastfree := l'\<rparr>) \<and> l' \<le> l \<and> (case r of
      Some n \<Rightarrow> n < sizenode t \<and> key_at t n = VNil \<and> l' = int n \<and> (\<forall>i < sizenode t. l' \<le> int i \<longrightarrow> i \<noteq> n \<longrightarrow> key_at t i \<noteq> VNil)
    | None \<Rightarrow> \<forall>i < sizenode t. key_at t i \<noteq> VNil)"
  using assms
proof (induction "nat l" arbitrary: l t)
  case 0
  then have "getfreepos t = (None, t\<lparr>lastfree := lastfree t - 1\<rparr>)" by (subst getfreepos.simps) simp
  then show ?case using 0 by auto
next
  case (Suc k)
  let ?t = "t\<lparr>lastfree := l - 1\<rparr>"
  have g: "gnode ?t = gnode t" "sizenode ?t = sizenode t" by (auto simp: gnode_def sizenode_def)
  have l: "0 < l" "nat (l - 1) < sizenode t" using Suc.hyps(2) Suc.prems(3) by auto
  show ?case
  proof (cases "key_at t (nat (l - 1)) = VNil")
    case True
    then have "getfreepos t = (Some (nat (l - 1)), ?t)"
      using l Suc.prems(2) g by (subst getfreepos.simps) (simp add: Let_def)
    moreover have "\<forall>i < sizenode t. l - 1 \<le> int i \<longrightarrow> i \<noteq> nat (l - 1) \<longrightarrow> key_at t i \<noteq> VNil"
      using Suc.prems(1) l by (metis dual_order.strict_trans1 int_nat_eq linorder_not_less nat_int order_less_le zle_diff1_eq zle_iff_zadd zless_nat_eq_int_zless)
    ultimately show ?thesis using True l by (intro exI [of _ "Some (nat (l - 1))"] exI [of _ "l - 1"]) auto
  next
    case False
    have p: "\<forall>i < sizenode ?t. l - 1 \<le> int i \<longrightarrow> key_at ?t i \<noteq> VNil"
      unfolding g
    proof (intro allI impI)
      fix i assume "i < sizenode t" "l - 1 \<le> int i"
      then have "l \<le> int i \<or> i = nat (l - 1)" by linarith
      then show "key_at t i \<noteq> VNil" using Suc.prems(1) False \<open>i < sizenode t\<close> by blast
    qed
    have "k = nat (l - 1)" using Suc.hyps(2) by simp
    from Suc.hyps(1) [OF this p] Suc.prems(3) obtain r l' where
      "getfreepos ?t = (r, ?t\<lparr>lastfree := l'\<rparr>)" "l' \<le> l - 1" "case r of
      Some n \<Rightarrow> n < sizenode t \<and> key_at t n = VNil \<and> l' = int n \<and> (\<forall>i < sizenode t. l' \<le> int i \<longrightarrow> i \<noteq> n \<longrightarrow> key_at t i \<noteq> VNil)
    | None \<Rightarrow> \<forall>i < sizenode t. key_at t i \<noteq> VNil" unfolding g by auto
    moreover have "getfreepos t = getfreepos ?t"
      using l Suc.prems(2) False g by (subst getfreepos.simps) (simp add: Let_def)
    ultimately show ?thesis by (intro exI [of _ r] exI [of _ l']) auto
  qed
qed

section \<open>Content under moves\<close>

lemma content_live:
  assumes "table_ok hs t" "live t i" "luaO_rawequalObj (key_at t i) k"
  shows "content t k = val_at t i"
proof (rule content_node [OF assms(1)])
  show "\<not> in_array t k" using live_not_array [OF assms(1,2)] in_array_rawequal [OF assms(3)] by simp
  show "i \<in> R t (mainposition hs t k)" using live_reach [OF assms(1,2)] mainposition_rawequal [OF assms(3), of hs t] by simp
qed (use live_has [OF assms(1,2)] assms(3) in auto)

lemma content_no_live:
  assumes "\<not> in_array t k" "\<And>i. live t i \<Longrightarrow> \<not> luaO_rawequalObj (key_at t i) k"
  shows "content t k = VNil"
proof -
  have "List.find (\<lambda>i. luaO_rawequalObj (key_at t i) k \<and> val_at t i \<noteq> VNil) [0..<sizenode t] = None"
    using assms(2) by (auto simp: find_None_iff live_def)
  then show ?thesis using assms(1) by (simp add: content_def)
qed

lemma content_moved:
  assumes "table_ok hs t" "table_ok hs t'" "sizearray t' = sizearray t" "arr t' = arr t"
    and "\<And>j. live t j \<Longrightarrow> live t' (s j) \<and> key_at t' (s j) = key_at t j \<and> val_at t' (s j) = val_at t j"
    and "\<And>j. live t' j \<Longrightarrow> \<exists>i. live t i \<and> s i = j"
  shows "content t' k = content t k"
proof -
  have ia: "in_array t' k = in_array t k" using assms(3) by (simp add: in_array_def)
  show ?thesis
  proof (cases "in_array t k")
    case True
    then show ?thesis using ia assms(4) by (simp add: content_array)
  next
    case False
    show ?thesis
    proof (cases "\<exists>i. live t i \<and> luaO_rawequalObj (key_at t i) k")
      case True
      then obtain i where i: "live t i" "luaO_rawequalObj (key_at t i) k" by blast
      show ?thesis
        using content_live [OF assms(1) i] content_live [OF assms(2), of "s i" k] assms(5) [OF i(1)] i(2) by simp
    next
      case no: False
      then have "\<not> luaO_rawequalObj (key_at t' j) k" if "live t' j" for j using assms(5,6) that by metis
      then have "content t' k = VNil" using False ia by (intro content_no_live) auto
      moreover have "content t k = VNil" using False no by (intro content_no_live) auto
      ultimately show ?thesis by simp
    qed
  qed
qed

section \<open>The three ways to insert\<close>

definition absent :: "(addr \<Rightarrow> u32) \<Rightarrow> Table \<Rightarrow> TValue \<Rightarrow> bool" where
  "absent hs t k = (realkey k \<and> \<not> in_array t k \<and> (\<forall>i \<in> R t (mainposition hs t k). \<not> luaO_rawequalObj (key_at t i) k))"

definition inserted :: "(addr \<Rightarrow> u32) \<Rightarrow> Table \<Rightarrow> TValue \<Rightarrow> slot \<Rightarrow> Table \<Rightarrow> bool" where
  "inserted hs t k p t' = (table_ok hs t' \<and> slot_for hs t' k p \<and> (\<forall>k'. content t' k' = content t k') \<and>
     sizearray t' = sizearray t \<and> arr t' = arr t \<and> is_dummy t' = is_dummy t \<and> lsizenode t' = lsizenode t \<and> used t' \<le> used t + 1)"

lemma used_insert:
  assumes "sizenode t' = sizenode t" "\<And>i. i < sizenode t \<Longrightarrow> i \<noteq> n \<Longrightarrow> key_at t' i \<noteq> VNil \<Longrightarrow> key_at t i \<noteq> VNil"
  shows "used t' \<le> used t + 1"
proof -
  have "{i. i < sizenode t' \<and> key_at t' i \<noteq> VNil} \<subseteq> insert n {i. i < sizenode t \<and> key_at t i \<noteq> VNil}"
    using assms by auto
  then have "used t' \<le> card (insert n {i. i < sizenode t \<and> key_at t i \<noteq> VNil})"
    unfolding used_def by (rule card_mono [rotated]) simp
  also have "\<dots> \<le> used t + 1" unfolding used_def by (simp add: card_insert_if)
  finally show ?thesis .
qed

lemma links_okD:
  assumes "links_ok t"
  shows "\<And>i j. (i, j) \<in> nx t \<Longrightarrow> key_at t i \<noteq> VNil \<and> key_at t j \<noteq> VNil \<and> j < sizenode t"
    "\<And>i i' j. (i, j) \<in> nx t \<Longrightarrow> (i', j) \<in> nx t \<Longrightarrow> i = i'"
    "\<And>i. i < sizenode t \<Longrightarrow> key_at t i = VNil \<Longrightarrow> val_at t i = VNil"
    "chains_ok t"
  using assms unfolding links_ok_def chains_ok_def by blast+

lemma keys_okD:
  assumes "keys_ok hs t" "has t i"
  shows "key_at t (mainposition hs t (key_at t i)) \<noteq> VNil"
    "i \<in> R t (mainposition hs t (key_at t i)) \<Longrightarrow> mainposition hs t (key_at t i) \<noteq> i \<Longrightarrow>
       has t (mainposition hs t (key_at t i)) \<Longrightarrow>
       mainposition hs t (key_at t (mainposition hs t (key_at t i))) = mainposition hs t (key_at t i)"
    "has t j \<Longrightarrow> luaO_rawequalObj (key_at t i) (key_at t j) \<Longrightarrow> i \<in> R t (mainposition hs t (key_at t i)) \<Longrightarrow>
       j \<in> R t (mainposition hs t (key_at t i)) \<Longrightarrow> i = j"
  using assms unfolding keys_ok_def Let_def by blast+

lemma insert_main:
  assumes ok: "table_ok hs t" and ab: "absent hs t k" and nd: "\<not> is_dummy t"
    and mp: "mp = mainposition hs t k" "val_at t mp = VNil"
  shows "inserted hs t k (In_node mp) (set_node t mp (gnode t mp\<lparr>gkey := k\<rparr>))" (is "inserted hs t k _ ?t")
proof -
  have sh: "shape_ok t" and li: "links_ok t" and ke: "keys_ok hs t" using ok by (auto simp: table_ok_def)
  have ml: "mp < length (node t)" "mp < sizenode t" using mainposition_less [of t hs k] table_okD [OF ok] mp(1) by auto
  have g: "gnode ?t j = (if j = mp then gnode t mp\<lparr>gkey := k\<rparr> else gnode t j)" for j by (rule gnode_set_node [OF ml(1)])
  have nxe: "nx ?t = nx t" by (auto simp: nx_def g split: if_splits)
  have Re: "R ?t = R t" by (intro ext) (simp add: R_def nxe)
  have rk: "realkey k" "k \<noteq> VNil" using ab by (auto simp: absent_def)
  have hase: "has ?t j = (j = mp \<or> has t j)" for j using ml rk by (auto simp: has_def g)
  have livee: "live ?t = live t" by (intro ext) (simp add: live_def g)
  have nl: "\<not> live t mp" using mp(2) by (simp add: live_def)
  have keye: "key_at ?t j = (if j = mp then k else key_at t j)" for j by (simp add: g)
  have no: "\<not> luaO_rawequalObj (key_at t j) k" if "j \<in> R t mp" for j using ab that mp(1) by (simp add: absent_def)
  have self: "luaO_rawequalObj k k" using rk by (cases k) (auto simp: raweq luai_numeq_def)
  have shape: "shape_ok ?t" using sh nd by (simp add: shape_ok_def)
  have links: "links_ok ?t"
    using li rk ml unfolding links_ok_def chains_ok_def nxe keye by (auto simp: g)
  have keys: "keys_ok hs ?t"
    unfolding keys_ok_def livee Re hase keye set_node_simps Let_def
  proof (intro conjI allI impI)
    fix i assume "live t i"
    then have "i \<noteq> mp" "has t i \<and> i \<in> R t (mainposition hs t (key_at t i)) \<and> \<not> in_array t (key_at t i)"
      using ke nl by (auto simp: keys_ok_def)
    then show "i = mp \<or> has t i" "i \<in> R t (mainposition hs t (if i = mp then k else key_at t i))"
      "\<not> in_array t (if i = mp then k else key_at t i)" by auto
  next
    fix i assume "i = mp \<or> has t i"
    then show "(if mainposition hs t (if i = mp then k else key_at t i) = mp then k
        else key_at t (mainposition hs t (if i = mp then k else key_at t i))) \<noteq> VNil"
      using rk mp(1) keys_okD(1) [OF ke] by auto
  next
    fix i assume a: "i = mp \<or> has t i" "i \<in> R t (mainposition hs t (if i = mp then k else key_at t i))"
      "mainposition hs t (if i = mp then k else key_at t i) \<noteq> i"
      "mainposition hs t (if i = mp then k else key_at t i) = mp \<or> has t (mainposition hs t (if i = mp then k else key_at t i))"
    then show "mainposition hs t (if mainposition hs t (if i = mp then k else key_at t i) = mp then k
        else key_at t (mainposition hs t (if i = mp then k else key_at t i))) = mainposition hs t (if i = mp then k else key_at t i)"
      using mp(1) keys_okD(2) [OF ke] by (cases "i = mp") auto
  next
    fix i j assume a: "i = mp \<or> has t i" "j = mp \<or> has t j"
      "luaO_rawequalObj (if i = mp then k else key_at t i) (if j = mp then k else key_at t j)"
      "i \<in> R t (mainposition hs t (if i = mp then k else key_at t i))"
      "j \<in> R t (mainposition hs t (if i = mp then k else key_at t i))"
    show "i = j"
    proof (cases "i = mp \<or> j = mp")
      case True
      then show ?thesis
      proof
        assume i: "i = mp"
        then have "j \<in> R t mp" using a(5) mp(1) by simp
        then show ?thesis using no a(3) i rawequal_sym by (cases "j = mp") auto
      next
        assume j: "j = mp"
        show ?thesis
        proof (rule ccontr)
          assume "i \<noteq> j"
          then have e: "luaO_rawequalObj (key_at t i) k" using a(3) j by simp
          then have "i \<in> R t mp" using a(4) mainposition_rawequal [OF e, of hs t] \<open>i \<noteq> j\<close> j mp(1) by simp
          then show False using no e by simp
        qed
      qed
    next
      case False
      then show ?thesis using a keys_okD(3) [OF ke, of i j] by simp
    qed
  qed
  have ok': "table_ok hs ?t" using shape links keys by (simp add: table_ok_def)
  have "slot_for hs ?t k (In_node mp)"
    using ab self by (simp add: slot_for_def absent_def hase keye Re flip: mp(1)) (simp add: R_def)
  moreover have "content ?t k' = content t k'" for k'
    by (rule content_moved [OF ok ok', where s = "\<lambda>i. i"]) (use nl livee in \<open>auto simp: g\<close>)
  moreover have "used ?t \<le> used t + 1" by (rule used_insert [where n = mp]) (auto simp: g)
  ultimately show ?thesis using ok' by (simp add: inserted_def)
qed

text \<open>The colliding node is in its own main position: the key goes to a free node behind it.\<close>

definition chained :: "Table \<Rightarrow> nat \<Rightarrow> nat \<Rightarrow> int \<Rightarrow> TValue \<Rightarrow> Table" where
  "chained t mp n l k =
     (let t = t\<lparr>lastfree := l\<rparr>;
          t = set_node t n (gnode t n\<lparr>gnext := gnext (gnode t mp)\<rparr>);
          t = set_node t mp (gnode t mp\<lparr>gnext := Some n\<rparr>)
      in set_node t n (gnode t n\<lparr>gkey := k\<rparr>))"

lemma set_lastfree_simps [simp]:
  "gnode (t\<lparr>lastfree := l\<rparr>) = gnode t" "sizenode (t\<lparr>lastfree := l\<rparr>) = sizenode t"
  "in_array (t\<lparr>lastfree := l\<rparr>) = in_array t" "mainposition hs (t\<lparr>lastfree := l\<rparr>) = mainposition hs t"
  by (auto simp: gnode_def sizenode_def in_array_def intro!: ext mainposition_cong)

lemma insert_chained:
  assumes ok: "table_ok hs t" and ab: "absent hs t k" and nd: "\<not> is_dummy t"
    and mp: "mp = mainposition hs t k" "live t mp" "mainposition hs t (key_at t mp) = mp"
    and n: "n < sizenode t" "key_at t n = VNil" "l \<le> int (sizenode t)"
      "\<forall>i < sizenode t. l \<le> int i \<longrightarrow> i \<noteq> n \<longrightarrow> key_at t i \<noteq> VNil"
  shows "inserted hs t k (In_node n) (chained t mp n l k)" (is "inserted hs t k _ ?t")
proof -
  have sh: "shape_ok t" and li: "links_ok t" and ke: "keys_ok hs t" using ok by (auto simp: table_ok_def)
  note lD = links_okD [OF li]
  have ml: "mp < sizenode t" "length (node t) = sizenode t" using mp(2) table_okD [OF ok] by (auto simp: live_def)
  have mk: "has t mp" "key_at t mp \<noteq> VNil" using live_has [OF ok mp(2)] by (auto simp: has_def)
  have nm: "n \<noteq> mp" using mk n(2) by auto
  have vn: "val_at t n = VNil" using lD(3) n by simp
  have fr: "(x, n) \<notin> nx t" "(n, x) \<notin> nx t" for x using lD(1) n(2) by blast+
  have g: "gnode ?t j = (if j = n then \<lparr>gval = VNil, gkey = k, gnext = gnext (gnode t mp)\<rparr>
      else if j = mp then gnode t mp\<lparr>gnext := Some n\<rparr> else gnode t j)" for j
    using n ml nm vn by (simp add: chained_def Let_def gnode_set_node)
  have sz: "sizenode ?t = sizenode t" "mainposition hs ?t = mainposition hs t" "in_array ?t = in_array t"
    "is_dummy ?t = is_dummy t" "arr ?t = arr t" "sizearray ?t = sizearray t" "lsizenode ?t = lsizenode t"
    "length (node ?t) = length (node t)" "lastfree ?t = l"
    by (simp_all add: chained_def Let_def)
  have nn: "gnext (gnode t n) = None" using fr(2) n(1) by (cases "gnext (gnode t n)") (auto simp: nx_def)
  have nxe: "nx ?t = {(i, j) \<in> nx t. i \<noteq> mp} \<union> {(mp, n)} \<union> {(n, j) |j. (mp, j) \<in> nx t}"
    using n(1) ml nm nn by (auto simp: nx_def g sz split: if_splits)
  note RI = rtrancl_insert_after [OF nxe fr nm]
  have R1: "b \<in> R t a \<Longrightarrow> b \<in> R ?t a" for a b using RI(1) by (simp add: R_def)
  have R2: "b \<in> R ?t a \<Longrightarrow> a \<noteq> n \<Longrightarrow> (if b = n then mp \<in> R t a else b \<in> R t a)" for a b using RI(2) by (simp add: R_def)
  have rk: "realkey k" "k \<noteq> VNil" using ab by (auto simp: absent_def)
  have hase: "has ?t j = (j = n \<or> has t j)" for j using n(1) rk by (auto simp: has_def g sz)
  have hn: "\<not> has t n" using n(2) by (simp add: has_def)
  have livee: "live ?t = live t" using vn by (intro ext) (auto simp: live_def g sz)
  have nl: "\<not> live t n" using vn by (simp add: live_def)
  have keye: "key_at ?t j = (if j = n then k else key_at t j)" for j by (simp add: g)
  have no: "\<not> luaO_rawequalObj (key_at t j) k" if "j \<in> R t mp" for j using ab that mp(1) by (simp add: absent_def)
  have self: "luaO_rawequalObj k k" using rk by (cases k) (auto simp: raweq luai_numeq_def)
  have mn: "mainposition hs t (key_at t i) \<noteq> n" if "has t i" for i using keys_okD(1) [OF ke that] n(2) by auto
  have shape: "shape_ok ?t" using sh nd n(3) by (simp add: shape_ok_def sz)
  have links: "links_ok ?t"
  proof -
    obtain rk :: "nat \<Rightarrow> nat" where r: "\<And>i j. (i, j) \<in> nx t \<Longrightarrow> rk i < rk j" using lD(4) by (auto simp: chains_ok_def)
    define rk' where "rk' = (\<lambda>x. if x = n then 2 * rk mp + 1 else 2 * rk x)"
    have "rk' i < rk' j" if "(i, j) \<in> nx ?t" for i j
      using that fr nm unfolding nxe rk'_def by (auto dest: r)
    moreover have "j < sizenode t" if "(i, j) \<in> nx ?t" for i j using that lD(1) n(1) unfolding nxe by auto
    ultimately have c: "chains_ok ?t" unfolding chains_ok_def sz by blast
    have "key_at ?t i \<noteq> VNil \<and> key_at ?t j \<noteq> VNil" if "(i, j) \<in> nx ?t" for i j
      using that lD(1) mk(2) rk(2) unfolding nxe keye by auto
    moreover have "i = i'" if "(i, j) \<in> nx ?t" "(i', j) \<in> nx ?t" for i i' j
      using that lD(2) fr nm unfolding nxe by blast
    moreover have "val_at ?t i = VNil" if "i < sizenode t" "key_at ?t i = VNil" for i
      using that lD(3) rk(2) by (auto simp: g split: if_splits)
    ultimately show ?thesis
      unfolding links_ok_def sz using c n(4) rk(2) by (auto simp: keye)
  qed
  have keys: "keys_ok hs ?t"
    unfolding keys_ok_def livee hase keye sz Let_def
  proof (intro conjI allI impI)
    fix i assume "live t i"
    then have "i \<noteq> n" "has t i \<and> i \<in> R t (mainposition hs t (key_at t i)) \<and> \<not> in_array t (key_at t i)"
      using ke nl by (auto simp: keys_ok_def)
    then show "i = n \<or> has t i" "i \<in> R ?t (mainposition hs t (if i = n then k else key_at t i))"
      "\<not> in_array t (if i = n then k else key_at t i)" using R1 by auto
  next
    fix i assume "i = n \<or> has t i"
    then show "(if mainposition hs t (if i = n then k else key_at t i) = n then k
        else key_at t (mainposition hs t (if i = n then k else key_at t i))) \<noteq> VNil"
      using rk mk(2) mp(1) keys_okD(1) [OF ke] by auto
  next
    fix i assume a: "i = n \<or> has t i" "i \<in> R ?t (mainposition hs t (if i = n then k else key_at t i))"
      "mainposition hs t (if i = n then k else key_at t i) \<noteq> i"
      "mainposition hs t (if i = n then k else key_at t i) = n \<or> has t (mainposition hs t (if i = n then k else key_at t i))"
    show "mainposition hs t (if mainposition hs t (if i = n then k else key_at t i) = n then k
        else key_at t (mainposition hs t (if i = n then k else key_at t i))) = mainposition hs t (if i = n then k else key_at t i)"
    proof (cases "i = n")
      case True
      then show ?thesis using mp nm by simp
    next
      case False
      then have h: "has t i" and m: "mainposition hs t (key_at t i) \<noteq> n" using a(1) mn by auto
      then have "i \<in> R t (mainposition hs t (key_at t i))" using R2 [of i "mainposition hs t (key_at t i)"] a(2) False by simp
      then show ?thesis using keys_okD(2) [OF ke h] a(3,4) m False by simp
    qed
  next
    fix i j assume a: "i = n \<or> has t i" "j = n \<or> has t j"
      "luaO_rawequalObj (if i = n then k else key_at t i) (if j = n then k else key_at t j)"
      "i \<in> R ?t (mainposition hs t (if i = n then k else key_at t i))"
      "j \<in> R ?t (mainposition hs t (if i = n then k else key_at t i))"
    show "i = j"
    proof (rule ccontr)
      assume ij: "i \<noteq> j"
      show False
      proof (cases "i = n")
        case True
        then have "j \<in> R t mp" using R2 [of j mp] a(5) mp(1) nm ij by simp
        then show False using no a(3) True ij rawequal_sym by auto
      next
        case i: False
        then have h: "has t i" and m: "mainposition hs t (key_at t i) \<noteq> n" using a(1) mn by auto
        have iR: "i \<in> R t (mainposition hs t (key_at t i))" using R2 [of i "mainposition hs t (key_at t i)"] a(4) i m by simp
        show False
        proof (cases "j = n")
          case True
          then have e: "luaO_rawequalObj (key_at t i) k" using a(3) i by simp
          then have "i \<in> R t mp" using iR mainposition_rawequal [OF e, of hs t] mp(1) by simp
          then show False using no e by simp
        next
          case False
          then have "j \<in> R t (mainposition hs t (key_at t i))" using R2 [of j "mainposition hs t (key_at t i)"] a(5) i m by simp
          then show False using a(2,3) False i ij keys_okD(3) [OF ke h, of j] iR by simp
        qed
      qed
    qed
  qed
  have ok': "table_ok hs ?t" using shape links keys by (simp add: table_ok_def)
  have "(mp, n) \<in> (nx ?t)\<^sup>*" using nxe by auto
  then have "slot_for hs ?t k (In_node n)"
    using ab self by (simp add: slot_for_def absent_def hase keye sz flip: mp(1)) (simp add: R_def)
  moreover have "content ?t k' = content t k'" for k'
    by (rule content_moved [OF ok ok' sz(6,5), where s = "\<lambda>i. i"]) (use nl livee in \<open>auto simp: g\<close>)
  moreover have "used ?t \<le> used t + 1" by (rule used_insert [where n = n]) (simp_all add: keye sz)
  ultimately show ?thesis using ok' by (simp add: inserted_def sz)
qed

text \<open>The colliding node is out of its main position: it moves to the free node.\<close>

definition moved :: "Table \<Rightarrow> nat \<Rightarrow> nat \<Rightarrow> nat \<Rightarrow> int \<Rightarrow> TValue \<Rightarrow> Table" where
  "moved t mp prev n l k =
     (let t = t\<lparr>lastfree := l\<rparr>;
          t = set_node t prev (gnode t prev\<lparr>gnext := Some n\<rparr>);
          t = set_node t n (gnode t mp);
          t = set_node t mp \<lparr>gval = VNil, gkey = VNil, gnext = None\<rparr>
      in set_node t mp (gnode t mp\<lparr>gkey := k\<rparr>))"

lemma insert_moved:
  assumes ok: "table_ok hs t" and ab: "absent hs t k" and nd: "\<not> is_dummy t"
    and mp: "mp = mainposition hs t k" "live t mp" "mainposition hs t (key_at t mp) \<noteq> mp"
    and prev: "prev < sizenode t" "gnext (gnode t prev) = Some mp"
    and n: "n < sizenode t" "key_at t n = VNil" "l \<le> int (sizenode t)"
      "\<forall>i < sizenode t. l \<le> int i \<longrightarrow> i \<noteq> n \<longrightarrow> key_at t i \<noteq> VNil"
  shows "inserted hs t k (In_node mp) (moved t mp prev n l k)" (is "inserted hs t k _ ?t")
proof -
  have sh: "shape_ok t" and li: "links_ok t" and ke: "keys_ok hs t" using ok by (auto simp: table_ok_def)
  note lD = links_okD [OF li]
  have ml: "mp < sizenode t" "length (node t) = sizenode t" using mp(2) table_okD [OF ok] by (auto simp: live_def)
  have mh: "has t mp" by (rule live_has [OF ok mp(2)])
  then have mk: "key_at t mp \<noteq> VNil" "val_at t mp \<noteq> VNil" using mp(2) by (auto simp: has_def live_def)
  have nm: "n \<noteq> mp" using mk n(2) by auto
  have vn: "val_at t n = VNil" using lD(3) n by simp
  have fr: "(x, n) \<notin> nx t" "(n, x) \<notin> nx t" for x using lD(1) n(2) by blast+
  have nn: "gnext (gnode t n) = None" using fr(2) n(1) by (cases "gnext (gnode t n)") (auto simp: nx_def)
  have pe: "(prev, mp) \<in> nx t" using prev by (simp add: nx_def)
  obtain rk :: "nat \<Rightarrow> nat" where r: "\<And>i j. (i, j) \<in> nx t \<Longrightarrow> rk i < rk j" using lD(4) by (auto simp: chains_ok_def)
  have pm: "prev \<noteq> mp" using r [OF pe] by auto
  have pn: "prev \<noteq> n" using prev nn by auto
  have g: "gnode ?t j = (if j = mp then \<lparr>gval = VNil, gkey = k, gnext = None\<rparr>
      else if j = n then gnode t mp else if j = prev then gnode t prev\<lparr>gnext := Some n\<rparr> else gnode t j)" for j
    using n(1) ml nm prev(1) pm pn by (simp add: moved_def Let_def gnode_set_node)
  have sz: "sizenode ?t = sizenode t" "mainposition hs ?t = mainposition hs t" "in_array ?t = in_array t"
    "is_dummy ?t = is_dummy t" "arr ?t = arr t" "sizearray ?t = sizearray t" "lsizenode ?t = lsizenode t"
    "length (node ?t) = length (node t)" "lastfree ?t = l"
    by (simp_all add: moved_def Let_def)
  define s where "s = (\<lambda>x. if x = mp then n else x)"
  have only: "i = prev" if "(i, mp) \<in> nx t" for i using lD(2) [OF that pe] .
  have nxe: "nx ?t = (\<lambda>(i, j). (s i, s j)) ` nx t"
  proof (intro set_eqI iffI)
    fix x assume "x \<in> nx ?t"
    then obtain i j where x: "x = (i, j)" "i < sizenode t" "gnext (gnode ?t i) = Some j" by (auto simp: nx_def sz)
    have im: "i \<noteq> mp" using x(3) by (auto simp: g)
    show "x \<in> (\<lambda>(i, j). (s i, s j)) ` nx t"
    proof (cases "i = n")
      case True
      then have e: "(mp, j) \<in> nx t" using x(3) nm ml by (simp add: g nx_def)
      then have "j \<noteq> mp" using r [OF e] by auto
      then have "x = (\<lambda>(i, j). (s i, s j)) (mp, j)" using True x(1) by (simp add: s_def)
      then show ?thesis using e by blast
    next
      case inn: False
      show ?thesis
      proof (cases "i = prev")
        case True
        then have "j = n" using x(3) pm pn by (simp add: g)
        then have "x = (\<lambda>(i, j). (s i, s j)) (prev, mp)" using True x(1) pm by (simp add: s_def)
        then show ?thesis using pe by blast
      next
        case False
        then have e: "(i, j) \<in> nx t" using x(2,3) im inn by (simp add: g nx_def)
        then have "j \<noteq> mp" using only False by auto
        then have "x = (\<lambda>(i, j). (s i, s j)) (i, j)" using x(1) im by (simp add: s_def)
        then show ?thesis using e by blast
      qed
    qed
  next
    fix x assume "x \<in> (\<lambda>(i, j). (s i, s j)) ` nx t"
    then obtain i j where ij: "(i, j) \<in> nx t" "x = (s i, s j)" by auto
    then have b: "i < sizenode t" "gnext (gnode t i) = Some j" "i \<noteq> n" "j \<noteq> n" using fr by (auto simp: nx_def)
    have "j \<noteq> mp" if "i = mp" using r [OF ij(1)] that by auto
    then show "x \<in> nx ?t"
      using ij(2) b n(1) only [of i] ij(1) prev nm pm pn by (cases "i = mp"; cases "j = mp") (auto simp: nx_def sz g s_def)
  qed
  have fldn: "n \<notin> Field (nx t)" using fr by (auto simp: Field_def)
  then have inj: "inj_on s (Field (nx t))" by (auto simp: inj_on_def s_def split: if_splits)
  note RR = rtrancl_rename [OF nxe inj]
  have R1: "b \<in> R t a \<Longrightarrow> s b \<in> R ?t (s a)" for a b using RR(1) by (simp add: R_def)
  have R2: "y \<in> R ?t x \<Longrightarrow> x = y \<or> (\<exists>a b. x = s a \<and> y = s b \<and> a \<noteq> n \<and> b \<noteq> n \<and> b \<in> R t a)" for x y
    using RR(2) [of x y] fldn by (auto simp: R_def)
  have rk': "realkey k" "k \<noteq> VNil" using ab by (auto simp: absent_def)
  have hn: "\<not> has t n" using n(2) by (simp add: has_def)
  have keye: "key_at ?t j = (if j = mp then k else if j = n then key_at t mp else key_at t j)" for j by (simp add: g)
  have hase: "has ?t j = (j = mp \<or> j = n \<or> has t j)" for j
    using n(1) rk' ml mh by (auto simp: has_def keye sz)
  have vale: "val_at ?t j = (if j = mp then VNil else if j = n then val_at t mp else val_at t j)" for j by (simp add: g)
  have livee: "live ?t j = (j \<noteq> mp \<and> (j = n \<or> live t j))" for j
    using n(1) mk by (auto simp: live_def vale sz)
  have nl: "\<not> live t n" using vn by (simp add: live_def)
  have self: "luaO_rawequalObj k k" using rk' by (cases k) (auto simp: raweq luai_numeq_def)
  have mn: "mainposition hs t (key_at t i) \<noteq> n" if "has t i" for i using keys_okD(1) [OF ke that] n(2) by auto
  have nomp: "i = mp" if "has t i" "i \<in> R t (mainposition hs t (key_at t i))" "mainposition hs t (key_at t i) = mp" for i
    using keys_okD(2) [OF ke that(1,2)] that(3) mh mp(3) by (metis (full_types))
  have behind: "\<exists>i'. has t i' \<and> i = s i' \<and> i' \<noteq> n \<and> key_at ?t i = key_at t i' \<and>
        (mainposition hs t (key_at t i') \<noteq> mp \<longrightarrow> i' \<in> R t (mainposition hs t (key_at t i')))"
    if "has ?t i" "i \<noteq> mp" "i \<in> R ?t (mainposition hs t (key_at ?t i))" for i
  proof -
    note tt = that
    define i' where "i' = (if i = n then mp else i)"
    have h: "has t i'" "i = s i'" "i' \<noteq> n" "key_at ?t i = key_at t i'"
      using tt(1,2) mh nm by (auto simp: i'_def hase keye s_def)
    define m where "m = mainposition hs t (key_at t i')"
    have "i' \<in> R t m" if mm: "m \<noteq> mp"
    proof -
      have "m \<noteq> n" using mn [OF h(1)] by (simp add: m_def)
      from R2 [of i m] tt(3) h(4) consider "m = i" | a b where "m = s a" "i = s b" "a \<noteq> n" "b \<noteq> n" "b \<in> R t a"
        by (auto simp: m_def)
      then show ?thesis
      proof cases
        case 1
        then have "i' = m" using \<open>m \<noteq> n\<close> by (simp add: i'_def)
        then show ?thesis by (simp add: R_def)
      next
        case 2
        have "a = m" using 2 \<open>m \<noteq> n\<close> by (auto simp: s_def split: if_splits)
        moreover have "b = i'" unfolding i'_def using 2 tt(2) by (auto simp: s_def split: if_splits)
        ultimately show ?thesis using 2 by simp
      qed
    qed
    then show ?thesis using h by (auto simp: m_def)
  qed
  have atmp: "i = mp" if "has ?t i" "i \<in> R ?t mp" for i
    using R2 [OF that(2)] nm by (auto simp: s_def split: if_splits)
  have shape: "shape_ok ?t" using sh nd n(3) by (simp add: shape_ok_def sz)
  have links: "links_ok ?t"
  proof -
    define rk2 where "rk2 = rk(n := rk mp)"
    have sr: "rk2 (s x) = rk x" if "x \<noteq> n" for x using that nm by (simp add: rk2_def s_def)
    have "rk2 i < rk2 j" if "(i, j) \<in> nx ?t" for i j
    proof -
      from that obtain a b where ab': "(a, b) \<in> nx t" "i = s a" "j = s b" unfolding nxe by auto
      then have "a \<noteq> n" "b \<noteq> n" using fr by auto
      then show ?thesis using r [OF ab'(1)] ab' sr by simp
    qed
    moreover have "j < sizenode t" if "(i, j) \<in> nx ?t" for i j using that lD(1) n(1) unfolding nxe s_def by auto
    ultimately have c: "chains_ok ?t" unfolding chains_ok_def sz by blast
    have ks: "key_at ?t (s x) = key_at t x" if "x \<noteq> n" for x using that nm by (auto simp: keye s_def)
    have "key_at ?t i \<noteq> VNil \<and> key_at ?t j \<noteq> VNil" if "(i, j) \<in> nx ?t" for i j
    proof -
      from that obtain a b where ab': "(a, b) \<in> nx t" "i = s a" "j = s b" unfolding nxe by auto
      then have "a \<noteq> n" "b \<noteq> n" using fr by auto
      then show ?thesis using lD(1) [OF ab'(1)] ab' ks by simp
    qed
    moreover have "i = i'" if a: "(i, j) \<in> nx ?t" "(i', j) \<in> nx ?t" for i i' j
    proof -
      from a obtain a1 b1 a2 b2 where e: "(a1, b1) \<in> nx t" "i = s a1" "j = s b1" "(a2, b2) \<in> nx t" "i' = s a2" "j = s b2"
        unfolding nxe by auto
      have "b1 = b2" using inj e by (auto simp: inj_on_def Field_def)
      then show ?thesis using lD(2) e by auto
    qed
    moreover have "val_at ?t i = VNil" if "i < sizenode t" "key_at ?t i = VNil" for i
      using that lD(3) rk'(2) mk(1) by (auto simp: keye vale split: if_splits)
    ultimately show ?thesis
      unfolding links_ok_def sz using c n(4) rk'(2) mk(1) by (auto simp: keye)
  qed
  have keys: "keys_ok hs ?t"
    unfolding keys_ok_def sz Let_def
  proof (intro conjI allI impI)
    fix i assume l: "live ?t i"
    define i' where "i' = (if i = n then mp else i)"
    have h: "live t i'" "i = s i'" "key_at ?t i = key_at t i'" using l mp(2) nm by (auto simp: livee i'_def keye s_def)
    have R': "i' \<in> R t (mainposition hs t (key_at t i'))" "\<not> in_array t (key_at t i')" "has t i'"
      using live_reach [OF ok h(1)] live_not_array [OF ok h(1)] live_has [OF ok h(1)] by auto
    have "mainposition hs t (key_at t i') \<noteq> mp"
      using nomp [OF R'(3,1)] mp(3) by auto
    then have "s (mainposition hs t (key_at t i')) = mainposition hs t (key_at t i')" by (simp add: s_def)
    then show "i \<in> R ?t (mainposition hs t (key_at ?t i))" using R1 [OF R'(1)] h by simp
    show "\<not> in_array t (key_at ?t i)" using R'(2) h(3) by simp
    show "has ?t i" using l live_has [OF ok] by (auto simp: livee hase)
  next
    fix i assume h: "has ?t i"
    have "key_at t (mainposition hs t (key_at ?t i)) \<noteq> VNil \<or> mainposition hs t (key_at ?t i) = mp"
    proof -
      consider "i = mp" | "i \<noteq> mp" "i = n" | "i \<noteq> mp" "i \<noteq> n" "has t i" using h hase by blast
      then show ?thesis
        by cases (use keys_okD(1) [OF ke] keys_okD(1) [OF ke mh] nm in \<open>simp_all add: keye mp(1) [symmetric]\<close>)
    qed
    then show "key_at ?t (mainposition hs t (key_at ?t i)) \<noteq> VNil"
      using mk(1) rk'(2) by (auto simp: keye)
  next
    fix i assume a: "has ?t i" "i \<in> R ?t (mainposition hs t (key_at ?t i))" "mainposition hs t (key_at ?t i) \<noteq> i"
      "has ?t (mainposition hs t (key_at ?t i))"
    show "mainposition hs t (key_at ?t (mainposition hs t (key_at ?t i))) = mainposition hs t (key_at ?t i)"
    proof (cases "mainposition hs t (key_at ?t i) = mp")
      case True
      then show ?thesis by (simp add: keye mp(1) [symmetric])
    next
      case False
      then have "i \<noteq> mp" by (auto simp: keye mp(1) [symmetric])
      from behind [OF a(1) this a(2)] obtain i' where i': "has t i'" "i = s i'" "i' \<noteq> n" "key_at ?t i = key_at t i'"
        "mainposition hs t (key_at t i') \<noteq> mp \<longrightarrow> i' \<in> R t (mainposition hs t (key_at t i'))" by blast
      define m where "m = mainposition hs t (key_at t i')"
      have m: "m \<noteq> mp" "m \<noteq> n" "i' \<in> R t m" using False i' mn [OF i'(1)] by (auto simp: m_def)
      have hm: "has t m" using a(4) i'(4) m by (auto simp: hase m_def)
      have "m \<noteq> i'" using a(3) i'(2,4) m by (auto simp: m_def s_def split: if_splits)
      then have "mainposition hs t (key_at t m) = m" using keys_okD(2) [OF ke i'(1)] m hm by (auto simp: m_def)
      then show ?thesis using m i'(4) by (simp add: keye m_def)
    qed
  next
    fix i j assume a: "has ?t i" "has ?t j" "luaO_rawequalObj (key_at ?t i) (key_at ?t j)"
      "i \<in> R ?t (mainposition hs t (key_at ?t i))" "j \<in> R ?t (mainposition hs t (key_at ?t i))"
    define m where "m = mainposition hs t (key_at ?t i)"
    have mj: "mainposition hs t (key_at ?t j) = m" using mainposition_rawequal [OF a(3)] by (simp add: m_def)
    show "i = j"
    proof (cases "m = mp")
      case True
      then show ?thesis using atmp a by (auto simp: m_def)
    next
      case False
      have "i \<noteq> mp" using False by (auto simp: keye m_def mp(1) [symmetric])
      moreover have "j \<noteq> mp" using False mj by (auto simp: keye mp(1) [symmetric])
      ultimately obtain i' j' where "has t i'" "i = s i'" "key_at ?t i = key_at t i'" "i' \<in> R t m"
        "has t j'" "j = s j'" "key_at ?t j = key_at t j'" "j' \<in> R t m"
        using behind [of i] behind [of j] a mj False m_def by metis
      then show ?thesis using keys_okD(3) [OF ke, of i' j'] a(3) by (simp add: m_def)
    qed
  qed
  have ok': "table_ok hs ?t" using shape links keys by (simp add: table_ok_def)
  have "slot_for hs ?t k (In_node mp)"
    using ab self by (simp add: slot_for_def absent_def hase keye sz flip: mp(1)) (simp add: R_def)
  moreover have "content ?t k' = content t k'" for k'
  proof (rule content_moved [OF ok ok' sz(6,5), where s = s])
    show "live ?t (s j) \<and> key_at ?t (s j) = key_at t j \<and> val_at ?t (s j) = val_at t j" if "live t j" for j
      using that nl nm by (auto simp: livee s_def keye vale)
    show "\<exists>i. live t i \<and> s i = j" if "live ?t j" for j
      using that mp(2) by (cases "j = n") (auto simp: livee s_def)
  qed
  moreover have "used ?t \<le> used t + 1" by (rule used_insert [where n = n]) (auto simp: keye sz mk split: if_splits)
  ultimately show ?thesis using ok' by (simp add: inserted_def sz)
qed

section \<open>newkey\<close>

lemma find_prev_lastfree: "find_prev (t\<lparr>lastfree := l\<rparr>) mp i k = find_prev t mp i k"
  by (induction t mp i k rule: find_prev.induct) (auto split: option.split)

lemma full_lastfree_ok:
  assumes "table_ok hs t" "\<forall>i < sizenode t. key_at t i \<noteq> VNil \<or> is_dummy t" "l \<le> lastfree t"
  shows "table_ok hs (t\<lparr>lastfree := l\<rparr>)"
proof -
  have n: "nx (t\<lparr>lastfree := l\<rparr>) = nx t" by (simp add: nx_def)
  have e: "R (t\<lparr>lastfree := l\<rparr>) = R t" "has (t\<lparr>lastfree := l\<rparr>) = has t" "live (t\<lparr>lastfree := l\<rparr>) = live t"
    by (auto simp: R_def n has_def live_def intro!: ext)
  show ?thesis
    using assms unfolding table_ok_def shape_ok_def links_ok_def keys_ok_def chains_ok_def n e
    by (auto simp: Let_def)
qed

lemma content_lastfree [simp]: "content (t\<lparr>lastfree := l\<rparr>) k = content t k"
  by (simp add: content_def split: option.split)

lemma newkey_step_cases:
  assumes ok: "table_ok hs t" and ab: "absent hs t k"
  obtains (placed) p t' r where "newkey_step hs grow t k = Inr (p, t', r)" "inserted hs t k p t'"
  | (grow) l where "newkey_step hs grow t k = grow (t\<lparr>lastfree := l\<rparr>) k" "l \<le> lastfree t" "room t = 0"
      "\<forall>i < sizenode t. key_at t i \<noteq> VNil \<or> is_dummy t"
proof -
  define mp where "mp = mainposition hs t k"
  have sh: "shape_ok t" and li: "links_ok t" using ok by (auto simp: table_ok_def)
  show thesis
  proof (cases "val_at t mp = VNil \<and> \<not> is_dummy t")
    case True
    then have "newkey_step hs grow t k = put_key t mp k" by (simp add: newkey_step_def mp_def Let_def)
    then show thesis using placed insert_main [OF ok ab _ mp_def] True by (simp add: put_key_def Let_def)
  next
    case False
    have b: "newkey_step hs grow t k = (case getfreepos t of
          (None, t) \<Rightarrow> grow t k
        | (Some n, t) \<Rightarrow>
            let othern = mainposition hs t (gkey (gnode t mp)) in
            if othern \<noteq> mp then
              bindE (find_prev t mp othern (sizenode t)) (\<lambda>prev.
                let t = set_node t prev (gnode t prev\<lparr>gnext := Some n\<rparr>);
                    t = set_node t n (gnode t mp);
                    t = set_node t mp \<lparr>gval = VNil, gkey = VNil, gnext = None\<rparr>
                in put_key t mp k)
            else
              let t = set_node t n (gnode t n\<lparr>gnext := gnext (gnode t mp)\<rparr>);
                  t = set_node t mp (gnode t mp\<lparr>gnext := Some n\<rparr>)
              in put_key t n k)"
      unfolding newkey_step_def Let_def mp_def [symmetric] by (rule if_P) (use False in auto)
    show thesis
    proof (cases "is_dummy t")
      case True
      then have "getfreepos t = (None, t\<lparr>lastfree := lastfree t - 1\<rparr>)"
        using sh by (subst getfreepos.simps) (simp add: shape_ok_def)
      then show thesis using grow [of "lastfree t - 1"] b True by (simp add: room_def)
    next
      case nd: False
      have lv: "live t mp" using False nd mainposition_less [of t hs k] table_okD(2) [OF ok] by (simp add: live_def mp_def)
      have pre: "\<forall>i < sizenode t. lastfree t \<le> int i \<longrightarrow> key_at t i \<noteq> VNil" "lastfree t \<le> int (sizenode t)"
        using li sh nd by (auto simp: links_ok_def shape_ok_def)
      from getfreepos_spec [OF pre(1) refl pre(2)] obtain r l where f: "getfreepos t = (r, t\<lparr>lastfree := l\<rparr>)" "l \<le> lastfree t"
        "case r of Some n \<Rightarrow> n < sizenode t \<and> key_at t n = VNil \<and> l = int n \<and> (\<forall>i < sizenode t. l \<le> int i \<longrightarrow> i \<noteq> n \<longrightarrow> key_at t i \<noteq> VNil)
         | None \<Rightarrow> \<forall>i < sizenode t. key_at t i \<noteq> VNil" by blast
      show thesis
      proof (cases r)
        case None
        with f(3) have a: "\<forall>i < sizenode t. key_at t i \<noteq> VNil" by simp
        then have "{i. i < sizenode t \<and> key_at t i \<noteq> VNil} = {..<sizenode t}" by auto
        then have "room t = 0" by (simp add: room_def used_def)
        then show thesis using grow [of l] b f a None by simp
      next
        case (Some n)
        with f(3) have n: "n < sizenode t" "key_at t n = VNil" "\<forall>i < sizenode t. l \<le> int i \<longrightarrow> i \<noteq> n \<longrightarrow> key_at t i \<noteq> VNil" by auto
        have l: "l \<le> int (sizenode t)" using f(2) pre(2) by simp
        show thesis
        proof (cases "mainposition hs t (key_at t mp) = mp")
          case True
          then have "\<exists>rcs. newkey_step hs grow t k = Inr (In_node n, chained t mp n l k, rcs)"
            using b f(1) Some by (simp add: chained_def put_key_def Let_def)
          then show thesis using placed insert_chained [OF ok ab nd mp_def lv True n(1,2) l n(3)] by blast
        next
          case ne: False
          let ?o = "mainposition hs t (key_at t mp)"
          have o: "?o < sizenode t" by (rule mainposition_less [OF table_okD(2) [OF ok]])
          have rm: "mp \<in> R t ?o" using live_reach [OF ok lv] .
          obtain prev where p: "find_prev t mp ?o (sizenode t) = Inr prev" "prev < sizenode t" "gnext (gnode t prev) = Some mp"
            using find_prev_spec [OF table_okD(1) [OF ok] o rm ne R_bound(2) [OF table_okD(1) [OF ok] o]] by blast
          have "\<exists>rcs. newkey_step hs grow t k = Inr (In_node mp, moved t mp prev n l k, rcs)"
            using b f(1) Some ne p(1) by (simp add: moved_def put_key_def Let_def find_prev_lastfree)
          then show thesis using placed insert_moved [OF ok ab nd mp_def lv ne p(2,3) n(1,2) l n(3)] by blast
        qed
      qed
    qed
  qed
qed


lemma set_flags_simps [simp]:
  "gnode (t\<lparr>flags := l\<rparr>) = gnode t" "sizenode (t\<lparr>flags := l\<rparr>) = sizenode t"
  "in_array (t\<lparr>flags := l\<rparr>) = in_array t" "mainposition hs (t\<lparr>flags := l\<rparr>) = mainposition hs t"
  by (auto simp: gnode_def sizenode_def in_array_def intro!: ext mainposition_cong)

lemma flags_eqs:
  "R (t\<lparr>flags := l\<rparr>) = R t" "has (t\<lparr>flags := l\<rparr>) = has t" "live (t\<lparr>flags := l\<rparr>) = live t"
  "used (t\<lparr>flags := l\<rparr>) = used t" "room (t\<lparr>flags := l\<rparr>) = room t" "content (t\<lparr>flags := l\<rparr>) = content t"
  by (auto simp: R_def nx_def has_def live_def used_def room_def content_def intro!: ext split: option.split)

lemma table_ok_flags [simp]: "table_ok hs (t\<lparr>flags := l\<rparr>) = table_ok hs t"
proof -
  have "nx (t\<lparr>flags := l\<rparr>) = nx t" by (simp add: nx_def)
  then show ?thesis
    unfolding table_ok_def shape_ok_def links_ok_def keys_ok_def chains_ok_def flags_eqs by (simp add: Let_def)
qed

text \<open>
  A key is set within the room of the node part: what comes out is its slot in a table with the
  same elements.
\<close>

definition slot_made :: "(addr \<Rightarrow> u32) \<Rightarrow> Table \<Rightarrow> TValue \<Rightarrow> slot \<Rightarrow> Table \<Rightarrow> bool" where
  "slot_made hs t k p t' = (table_ok hs t' \<and> slot_for hs t' k p \<and> (\<forall>k'. content t' k' = content t k') \<and>
     sizearray t' = sizearray t \<and> arr t' = arr t \<and> is_dummy t' = is_dummy t \<and> lsizenode t' = lsizenode t \<and>
     used t' \<le> used t + (if in_array t k then 0 else 1))"

lemma newkey_0_ok:
  assumes "table_ok hs t" "absent hs t k" "0 < room t"
  obtains p t' r where "newkey 0 hs t k = Inr (p, t', r)" "slot_made hs t k p t'"
proof (rule newkey_step_cases [OF assms(1,2), of "\<lambda>t key. Inl (UB ''rehash'')"])
  fix p t' r assume "newkey_step hs (\<lambda>t key. Inl (UB ''rehash'')) t k = Inr (p, t', r)" "inserted hs t k p t'"
  then show thesis using that assms(2) by (simp add: inserted_def slot_made_def absent_def)
qed (use assms(3) in simp)

lemma luaH_get_cases:
  assumes "table_ok hs t" "realkey k"
  obtains (none) "luaH_get hs t k = Inr Nilobject" "absent hs t k"
  | (found) p where "luaH_get hs t k = Inr p" "p \<noteq> Nilobject" "slot_for hs t k p"
proof (rule luaH_get_spec [OF assms])
  fix p assume "luaH_get hs t k = Inr p"
    "p = Nilobject \<and> \<not> in_array t k \<and> (\<forall>i \<in> R t (mainposition hs t k). \<not> luaO_rawequalObj (key_at t i) k) \<or> slot_for hs t k p"
  then show thesis using none found assms(2) by (cases p) (auto simp: absent_def slot_for_def)
qed

lemma set_with_newkey:
  assumes "realkey k" "luaH_get hs t k = Inr Nilobject"
  shows "set_with hs nk t k = nk (t\<lparr>flags := 0\<rparr>) k"
  using assms by (cases k) (simp_all add: set_with_def luai_numisnan_def luai_numeq_def Let_def)

lemma found_made:
  assumes "table_ok hs t" "slot_for hs t k p"
  shows "slot_made hs t k p (t\<lparr>flags := l\<rparr>)" "slot_made hs t k p t"
  using assms by (auto simp: slot_made_def slot_for_def flags_eqs split: slot.split)

lemma absent_flags [simp]: "absent hs (t\<lparr>flags := l\<rparr>) k = absent hs t k"
  by (simp add: absent_def flags_eqs)

lemma slot_made_flags: "slot_made hs (t\<lparr>flags := l\<rparr>) k p t' \<Longrightarrow> slot_made hs t k p t'"
  by (simp add: slot_made_def flags_eqs)

lemma set_with_0_ok:
  assumes "table_ok hs t" "realkey k" "in_array t k \<or> 0 < room t"
  obtains p t' r where "set_with hs (newkey 0 hs) t k = Inr (p, t', r)" "slot_made hs t k p t'"
  using assms(1,2)
proof (cases rule: luaH_get_cases)
  case none
  then have "0 < room (t\<lparr>flags := 0\<rparr>)" using assms(3) by (auto simp: absent_def flags_eqs)
  from newkey_0_ok [OF _ _ this, of hs k] assms(1) none(2) obtain p t' r where
    "newkey 0 hs (t\<lparr>flags := 0\<rparr>) k = Inr (p, t', r)" "slot_made hs (t\<lparr>flags := 0\<rparr>) k p t'" by auto
  then show thesis using that set_with_newkey [OF assms(2) none(1)] slot_made_flags by metis
next
  case (found p)
  then show thesis using that found_made [OF assms(1)] by (auto simp: set_with_def Let_def)
qed

lemma setnum_with_0_ok:
  assumes "table_ok hs t" "1 \<le> k" "k \<le> INT_MAX" "k \<le> int (sizearray t) \<or> 0 < room t"
  obtains p t' r where "setnum_with (newkey 0 hs) t k = Inr (p, t', r)" "slot_made hs t (VNumber (cast_num k)) p t'"
proof -
  let ?K = "VNumber (cast_num k)"
  have r: "INT_MIN \<le> k" using assms(2) by (simp add: INT_MIN_def)
  note ai = cast_num_arrayindex [OF r assms(3)]
  have eq: "lua_number2int (cast_num k) = k" by (rule number2int_cast_num [OF r assms(3)])
  have "arrayindex ?K = k" by (rule ai)
  then have "luai_numeq (cast_num k) (cast_num k)" using assms(2) eq by (auto simp: arrayindex_number split: if_splits)
  then have g: "luaH_getnum t k = luaH_get hs t ?K" using eq by (simp add: luaH_get_def)
  show thesis
    using assms(1) ai(2)
  proof (cases rule: luaH_get_cases)
    case none
    then have "0 < room t" using assms(2,4) ai(1) by (auto simp: absent_def in_array_def)
    from newkey_0_ok [OF assms(1) none(2) this] that show thesis
      using none g by (auto simp: setnum_with_def)
  next
    case (found p)
    then show thesis using that found_made [OF assms(1)] g by (auto simp: setnum_with_def)
  qed
qed

end
