(* ===== verification/Lua_Rehash.thy ===== *)
theory Lua_Rehash
  imports Lua_TableLaws
begin

text \<open>
  The resizing of a table (\<open>resize\<close>, \<open>rehash\<close> of \<^verbatim>\<open>ltable.c\<close>) keeps its elements, and one rehash
  always makes room for the key that caused it.
\<close>

declare newkey.simps [simp del]

section \<open>Fresh node vectors\<close>

lemma fresh_nodes_ok:
  assumes "\<And>i. i < sizenode t \<Longrightarrow> gnode t i = \<lparr>gval = VNil, gkey = VNil, gnext = None\<rparr>"
    "length (node t) = sizenode t" "lsizenode t \<le> MAXBITS"
    "sizearray t \<le> length (arr t)" "int (sizearray t) \<le> MAXASIZE"
    "is_dummy t \<longrightarrow> node t = [dummynode] \<and> lastfree t = 0" "\<not> is_dummy t \<longrightarrow> lastfree t = int (sizenode t)"
  shows "table_ok hs t" "\<not> live t i" "used t = 0"
proof -
  have n: "nx t = {}" using assms(1) by (auto simp: nx_def)
  have nl: "\<not> live t i" "\<not> has t i" for i using assms(1) by (auto simp: live_def has_def)
  show "used t = 0" using assms(1) by (auto simp: used_def)
  show "\<not> live t i" by (rule nl)
  have "shape_ok t" using assms by (cases "is_dummy t") (auto simp: shape_ok_def)
  moreover have "links_ok t" using assms(1,7) by (auto simp: links_ok_def chains_ok_def n)
  moreover have "keys_ok hs t" by (simp add: keys_ok_def nl)
  ultimately show "table_ok hs t" by (simp add: table_ok_def)
qed

text \<open>The array part alone as a map.\<close>

definition array_content :: "Table \<Rightarrow> TValue \<Rightarrow> TValue" where
  "array_content t k = (if in_array t k then arr t ! nat (arrayindex k - 1) else VNil)"

lemma setnodevector_ok:
  assumes "0 \<le> n" "n \<le> 2 ^ MAXBITS" "sizearray t \<le> length (arr t)" "int (sizearray t) \<le> MAXASIZE"
  obtains t' where "setnodevector t n = Inr t'" "table_ok hs t'" "n \<le> int (room t')"
    "\<And>k. content t' k = array_content t k" "arr t' = arr t" "sizearray t' = sizearray t"
proof (cases "n = 0")
  case True
  let ?t = "t\<lparr>node := [dummynode], is_dummy := True, lsizenode := 0, lastfree := 0\<rparr>"
  have "gnode ?t i = \<lparr>gval = VNil, gkey = VNil, gnext = None\<rparr>" if "i < sizenode ?t" for i
    using that by (simp add: gnode_def sizenode_def dummynode_def)
  note fr = fresh_nodes_ok [where t = ?t, OF this]
  have f: "table_ok hs ?t" "\<not> live ?t i" for i
    using fr(1,2) assms(3,4) by (simp_all add: sizenode_def)
  have "content ?t k = array_content t k" for k
    using f(2) content_no_live [of ?t k] content_array [of ?t k] by (auto simp: array_content_def in_array_def)
  then show thesis using that [of ?t] f True by (simp add: setnodevector_def)
next
  case False
  define w where "w = (word_of_int n :: u32)"
  have b: "n < 2 ^ 32" using assms(2) by (simp add: MAXBITS_def)
  have u: "int (unat w) = n"
  proof -
    have "LENGTH(32) = 32" by simp
    moreover have "n mod 2 ^ 32 = n" using assms(1) b by simp
    ultimately show ?thesis by (simp only: w_def uint_nat [symmetric] uint_word_of_int)
  qed
  then have "w \<noteq> 0" using False by auto
  from ceillog2_spec [OF this] obtain m where m: "ceillog2 w = int m" "\<And>k. unat w \<le> 2 ^ k \<longleftrightarrow> m \<le> k" by blast
  have le: "m \<le> MAXBITS" using assms(2) u m(2) [of MAXBITS] by (metis of_nat_le_iff of_nat_numeral of_nat_power)
  let ?t = "t\<lparr>node := replicate (2 ^ m) \<lparr>gval = VNil, gkey = VNil, gnext = None\<rparr>, is_dummy := False,
                    lsizenode := m, lastfree := 2 ^ m\<rparr>"
  have "gnode ?t i = \<lparr>gval = VNil, gkey = VNil, gnext = None\<rparr>" if "i < sizenode ?t" for i
    using that by (simp add: gnode_def sizenode_def)
  note fr = fresh_nodes_ok [where t = ?t, OF this]
  have f: "table_ok hs ?t" "\<not> live ?t i" "used ?t = 0" for i
    using fr assms(3,4) le by (simp_all add: sizenode_def)
  have "content ?t k = array_content t k" for k
    using f(2) content_no_live [of ?t k] content_array [of ?t k] by (auto simp: array_content_def in_array_def)
  moreover have "n \<le> int (room ?t)"
  proof -
    have "int (unat w) \<le> int (2 ^ m)" using m(2) [of m] by (simp only: of_nat_le_iff order_refl)
    then have "n \<le> int (2 ^ m)" unfolding u .
    then show ?thesis using f(3) by (simp add: room_def sizenode_def)
  qed
  moreover have "setnodevector t n = Inr ?t" using False m(1) le by (simp add: setnodevector_def Let_def w_def)
  ultimately show thesis using that [of ?t] f by simp
qed

section \<open>Reinsertion\<close>

lemma slot_made_D:
  assumes "slot_made hs t k p t'"
  shows "table_ok hs t'" "slot_for hs t' k p" "content t' k' = content t k'" "sizearray t' = sizearray t"
    "arr t' = arr t" "in_array t' k' = in_array t k'" "room t \<le> room t' + (if in_array t k then 0 else 1)"
  using assms by (auto simp: slot_made_def in_array_def room_def sizenode_def)

lemma store_room:
  assumes "table_ok hs t" "slot_for hs t k p"
  shows "room (store t p v) = room t" "sizearray (store t p v) = sizearray t" "in_array (store t p v) = in_array t"
proof -
  have "same_links t (store t p v)"
  proof (cases p)
    case (In_node i)
    then show ?thesis using store_node_links(1) [OF assms(1)] assms(2) by simp
  qed (simp_all add: same_links_def store_def gnode_def)
  note sl = this same_links_eqs(1) [OF this]
  show "room (store t p v) = room t" using sl by (simp add: room_def used_def same_links_def)
  show "sizearray (store t p v) = sizearray t" "in_array (store t p v) = in_array t"
    by (auto simp: store_def in_array_def split: slot.split)
qed

text \<open>The elements of the old nodes below \<open>i\<close> which need a node in the new table.\<close>

definition node_need :: "Table \<Rightarrow> nat \<Rightarrow> nat \<Rightarrow> nat" where
  "node_need t0 na i = card {j. j < i \<and> live t0 j \<and> \<not> (1 \<le> arrayindex (key_at t0 j) \<and> arrayindex (key_at t0 j) \<le> int na)}"

lemma node_need_Suc:
  "node_need t0 na (Suc i) = node_need t0 na i +
     (if live t0 i \<and> \<not> (1 \<le> arrayindex (key_at t0 i) \<and> arrayindex (key_at t0 i) \<le> int na) then 1 else 0)"
proof -
  let ?P = "\<lambda>j. live t0 j \<and> \<not> (1 \<le> arrayindex (key_at t0 j) \<and> arrayindex (key_at t0 j) \<le> int na)"
  have "{j. j < Suc i \<and> ?P j} = (if ?P i then insert i {j. j < i \<and> ?P j} else {j. j < i \<and> ?P j})"
    by (auto simp: less_Suc_eq)
  then show ?thesis by (simp add: node_need_def)
qed

lemma reinsert_hash_ok:
  assumes ok0: "table_ok hs t0" and "i \<le> sizenode t0"
    and "table_ok hs t" "node_need t0 (sizearray t) i + slack \<le> room t"
    and "\<And>k. realkey k \<Longrightarrow> content t k = (if \<exists>j < i. live t0 j \<and> luaO_rawequalObj (key_at t0 j) k then VNil else content t0 k)"
  shows "\<exists>t' r. reinsert_hash hs (newkey 0 hs) (node t0) i t rcs = Inr (t', r) \<and> table_ok hs t' \<and> slack \<le> room t' \<and>
     sizearray t' = sizearray t \<and> (\<forall>k. realkey k \<longrightarrow> content t' k = content t0 k)"
  using assms(2-)
proof (induction i arbitrary: t rcs)
  case 0
  then show ?case by simp
next
  case (Suc i)
  have i: "i < sizenode t0" using Suc.prems(1) by simp
  have nd: "node t0 ! i = gnode t0 i" by (simp add: gnode_def)
  show ?case
  proof (cases "live t0 i")
    case False
    then have v: "val_at t0 i = VNil" using i by (simp add: live_def)
    have "\<exists>t' r. reinsert_hash hs (newkey 0 hs) (node t0) i t rcs = Inr (t', r) \<and> table_ok hs t' \<and> slack \<le> room t' \<and>
       sizearray t' = sizearray t \<and> (\<forall>k. realkey k \<longrightarrow> content t' k = content t0 k)"
    proof (rule Suc.IH)
      show "node_need t0 (sizearray t) i + slack \<le> room t" using Suc.prems(3) by (simp add: node_need_Suc)
      show "content t k = (if \<exists>j < i. live t0 j \<and> luaO_rawequalObj (key_at t0 j) k then VNil else content t0 k)"
        if "realkey k" for k
      proof -
        have "(\<exists>j < Suc i. live t0 j \<and> luaO_rawequalObj (key_at t0 j) k) = (\<exists>j < i. live t0 j \<and> luaO_rawequalObj (key_at t0 j) k)"
          using False less_Suc_eq by auto
        then show ?thesis using Suc.prems(4) [OF that] by simp
      qed
    qed (use Suc.prems in auto)
    then show ?thesis using v by (simp add: nd Let_def)
  next
    case True
    define K where "K = key_at t0 i"
    define v where "v = val_at t0 i"
    have vn: "v \<noteq> VNil" using True by (simp add: live_def v_def)
    have rk: "realkey K" using live_has [OF ok0 True] by (simp add: has_def K_def)
    have "in_array t K \<or> 0 < room t"
      using Suc.prems(3) True by (auto simp: node_need_Suc in_array_def K_def split: if_splits)
    from set_with_0_ok [OF Suc.prems(2) rk this] obtain p t1 r where
      s: "set_with hs (newkey 0 hs) t K = Inr (p, t1, r)" "slot_made hs t K p t1" .
    note D = slot_made_D [OF s(2)]
    let ?t = "store t1 p v"
    note sr = store_room [OF D(1,2), of v]
    have "\<exists>t' r'. reinsert_hash hs (newkey 0 hs) (node t0) i ?t (rcs @ r @ rc_setobj (slot_value t1 p) v) = Inr (t', r') \<and>
       table_ok hs t' \<and> slack \<le> room t' \<and> sizearray t' = sizearray ?t \<and> (\<forall>k. realkey k \<longrightarrow> content t' k = content t0 k)"
    proof (rule Suc.IH)
      show "i \<le> sizenode t0" using i by simp
      show "table_ok hs ?t" by (rule store_ok [OF D(1,2)])
      show "node_need t0 (sizearray ?t) i + slack \<le> room ?t"
        using Suc.prems(3) D(7) True unfolding sr D(4) node_need_Suc in_array_def K_def by (auto split: if_splits)
      fix k assume k: "realkey k"
      show "content ?t k = (if \<exists>j < i. live t0 j \<and> luaO_rawequalObj (key_at t0 j) k then VNil else content t0 k)"
      proof (cases "luaO_rawequalObj K k")
        case eq: True
        have no: "\<not> (live t0 j \<and> luaO_rawequalObj (key_at t0 j) k)" if "j < i" for j
        proof
          assume j: "live t0 j \<and> luaO_rawequalObj (key_at t0 j) k"
          then have rq: "luaO_rawequalObj K (key_at t0 j)" using eq rawequal_trans rawequal_sym by blast
          have "i = j"
            by (rule has_unique [OF ok0 live_has [OF ok0 True] live_has [OF ok0]])
              (use j rq live_reach [OF ok0, of j] live_reach [OF ok0 True] mainposition_rawequal [OF rq, of hs t0] in \<open>auto simp: K_def\<close>)
          then show False using that by simp
        qed
        then show ?thesis
          using content_store [OF D(1,2) k, of v] eq content_live [OF ok0 True, of k] by (auto simp: K_def v_def)
      next
        case ne: False
        then have "(\<exists>j < Suc i. live t0 j \<and> luaO_rawequalObj (key_at t0 j) k) = (\<exists>j < i. live t0 j \<and> luaO_rawequalObj (key_at t0 j) k)"
          unfolding K_def using less_Suc_eq by auto
        then show ?thesis
          using content_store [OF D(1,2) k, of v] D(3) [of k] Suc.prems(4) [OF k] ne by simp
      qed
    qed
    then show ?thesis using vn s(1) sr(2) D(4) by (simp add: nd Let_def K_def v_def)
  qed
qed

text \<open>The elements of the vanishing slice from \<open>i\<close> on.\<close>

definition slice_need :: "Table \<Rightarrow> nat \<Rightarrow> nat" where
  "slice_need t0 i = card {j. i \<le> j \<and> j < sizearray t0 \<and> arr t0 ! j \<noteq> VNil}"

lemma slice_need_step:
  assumes "i < sizearray t0"
  shows "slice_need t0 i = slice_need t0 (Suc i) + (if arr t0 ! i \<noteq> VNil then 1 else 0)"
proof -
  have "{j. i \<le> j \<and> j < sizearray t0 \<and> arr t0 ! j \<noteq> VNil} =
      (if arr t0 ! i \<noteq> VNil then insert i {j. Suc i \<le> j \<and> j < sizearray t0 \<and> arr t0 ! j \<noteq> VNil}
       else {j. Suc i \<le> j \<and> j < sizearray t0 \<and> arr t0 ! j \<noteq> VNil})"
    using assms by (auto simp: Suc_le_eq order_le_less)
  then show ?thesis by (simp add: slice_need_def)
qed

text \<open>The part of the array outside \<open>sizearray\<close> does not matter.\<close>

lemma arr_upd_eqs:
  assumes "table_ok hs t" "\<And>j. j < sizearray t \<Longrightarrow> xs ! j = arr t ! j" "sizearray t \<le> length xs"
  shows "table_ok hs (t\<lparr>arr := xs\<rparr>)" "content (t\<lparr>arr := xs\<rparr>) k = content t k" "room (t\<lparr>arr := xs\<rparr>) = room t"
proof -
  let ?t = "t\<lparr>arr := xs\<rparr>"
  have g: "gnode ?t = gnode t" "sizenode ?t = sizenode t" "in_array ?t = in_array t" "mainposition hs ?t = mainposition hs t"
    by (auto simp: gnode_def sizenode_def in_array_def intro!: ext mainposition_cong)
  have n: "nx ?t = nx t" by (simp add: nx_def g)
  have e: "R ?t = R t" "has ?t = has t" "live ?t = live t"
    by (auto simp: R_def n has_def live_def g intro!: ext)
  show "table_ok hs ?t"
    using assms unfolding table_ok_def shape_ok_def links_ok_def keys_ok_def chains_ok_def n e g by (simp add: Let_def)
  show "content ?t k = content t k"
    using assms(2) by (auto simp: content_def g in_array_def split: option.split)
  show "room ?t = room t" by (simp add: room_def used_def g)
qed

lemma reinsert_array_ok:
  assumes sz: "int (sizearray t0) \<le> MAXASIZE" and "i \<le> sizearray t0" "sizearray t \<le> i"
    and "table_ok hs t" "slice_need t0 i + slack \<le> room t"
    and "sizearray t0 \<le> length (arr t)" "\<And>j. i \<le> j \<Longrightarrow> j < sizearray t0 \<Longrightarrow> arr t ! j = arr t0 ! j"
    and "\<And>k. realkey k \<Longrightarrow> content t k = (if in_array t0 k \<and> arrayindex k \<le> int i then arr t0 ! nat (arrayindex k - 1) else VNil)"
  shows "\<exists>t' r. reinsert_array (newkey 0 hs) (sizearray t0) i t rcs = Inr (t', r) \<and> table_ok hs t' \<and> slack \<le> room t' \<and>
     sizearray t' = sizearray t \<and> sizearray t0 \<le> length (arr t') \<and> (\<forall>k. realkey k \<longrightarrow> content t' k = array_content t0 k)"
  using assms(2-)
proof (induction "sizearray t0 - i" arbitrary: i t rcs)
  case 0
  then have "content t k = array_content t0 k" if "realkey k" for k
    using that by (auto simp: array_content_def in_array_def)
  then show ?case using 0 by (subst reinsert_array.simps) simp
next
  case (Suc n)
  have i: "i < sizearray t0" using Suc.hyps(2) by simp
  have n: "n = sizearray t0 - Suc i" using Suc.hyps(2) by simp
  note rec = Suc.hyps(1) [OF n]
  have ai: "arr t ! i = arr t0 ! i" using Suc.prems(6) i by simp
  show ?case
  proof (cases "arr t0 ! i = VNil")
    case True
    have "\<exists>t' r. reinsert_array (newkey 0 hs) (sizearray t0) (Suc i) t rcs = Inr (t', r) \<and> table_ok hs t' \<and> slack \<le> room t' \<and>
       sizearray t' = sizearray t \<and> sizearray t0 \<le> length (arr t') \<and> (\<forall>k. realkey k \<longrightarrow> content t' k = array_content t0 k)"
    proof (rule rec)
      show "slice_need t0 (Suc i) + slack \<le> room t" using Suc.prems(4) slice_need_step [OF i] True by simp
      fix k assume "realkey k"
      then show "content t k = (if in_array t0 k \<and> arrayindex k \<le> int (Suc i) then arr t0 ! nat (arrayindex k - 1) else VNil)"
        using Suc.prems(7) [of k] True by (cases "arrayindex k = int (Suc i)") auto
    qed (use Suc.prems i in auto)
    then show ?thesis using i ai True by (subst reinsert_array.simps) simp
  next
    case False
    define v where "v = arr t0 ! i"
    define K where "K = VNumber (cast_num (int i + 1))"
    have le: "int i + 1 \<le> INT_MAX" "INT_MIN \<le> int i + 1" using i sz by (simp_all add: MAXASIZE_def MAXBITS_def INT_MAX_def INT_MIN_def)
    note K = cast_num_arrayindex [OF le(2,1), folded K_def]
    have nin: "\<not> in_array t K" using K Suc.prems(2) by (simp add: in_array_def)
    have "0 < room t" using Suc.prems(4) slice_need_step [OF i] False by simp
    with setnum_with_0_ok [OF Suc.prems(3) _ le(1)] obtain p t1 r where
      s: "setnum_with (newkey 0 hs) t (int i + 1) = Inr (p, t1, r)" "slot_made hs t K p t1" by (auto simp: K_def)
    note D = slot_made_D [OF s(2)]
    obtain m where p: "p = In_node m" using D(2) nin D(6) by (cases p) (auto simp: slot_for_def)
    define t2 where "t2 = store t1 p v"
    note sr = store_room [OF D(1,2), of v, folded t2_def]
    have a2: "arr t2 = arr t" using p D(5) by (simp add: t2_def store_def)
    let ?t = "t2\<lparr>arr := (arr t2)[i := VNil]\<rparr>"
    have ok2: "table_ok hs t2" unfolding t2_def by (rule store_ok [OF D(1,2)])
    have ix: "sizearray t2 \<le> i" using Suc.prems(2) sr D(4) by simp
    have E: "table_ok hs ?t" "content ?t k = content t2 k" "room ?t = room t2" for k
      by (rule arr_upd_eqs [OF ok2]; use ix Suc.prems(5) a2 i in simp)+
    have "\<exists>t' r'. reinsert_array (newkey 0 hs) (sizearray t0) (Suc i) ?t (rcs @ r @ rc_setobj (slot_value t1 p) v @ luarc_subref v)
        = Inr (t', r') \<and> table_ok hs t' \<and> slack \<le> room t' \<and>
       sizearray t' = sizearray ?t \<and> sizearray t0 \<le> length (arr t') \<and> (\<forall>k. realkey k \<longrightarrow> content t' k = array_content t0 k)"
    proof (rule rec)
      show "slice_need t0 (Suc i) + slack \<le> room ?t"
        using Suc.prems(4) slice_need_step [OF i] False D(7) nin E(3) sr(1) by simp
      show "arr ?t ! j = arr t0 ! j" if "Suc i \<le> j" "j < sizearray t0" for j using Suc.prems(6) that a2 by simp
      fix k assume k: "realkey k"
      have eq: "luaO_rawequalObj K k \<longleftrightarrow> arrayindex k = int i + 1"
        using arrayindex_rawequal [of K k] arrayindex_inj [of K k] K(1) by auto
      have "content t2 k = (if luaO_rawequalObj K k then v else content t k)"
        using content_store [OF D(1,2) k, of v] D(3) by (simp add: t2_def)
      then show "content ?t k = (if in_array t0 k \<and> arrayindex k \<le> int (Suc i) then arr t0 ! nat (arrayindex k - 1) else VNil)"
        unfolding E(2) eq using Suc.prems(7) [OF k] i by (auto simp: v_def in_array_def)
    qed (use E(1) ix Suc.prems i a2 in auto)
    then show ?thesis
      using i ai False s(1) sr(2) D(4) by (subst reinsert_array.simps) (simp add: Let_def v_def t2_def)
  qed
qed

section \<open>resize\<close>

lemma setnodevector_sizearray:
  "bindE (setnodevector t n) (\<lambda>t. Inr (t\<lparr>sizearray := na\<rparr>)) = setnodevector (t\<lparr>sizearray := na\<rparr>) n"
  by (simp add: setnodevector_def Let_def)

lemma content_split:
  assumes "table_ok hs t0" "i = sizenode t0"
  shows "array_content t0 k = (if \<exists>j < i. live t0 j \<and> luaO_rawequalObj (key_at t0 j) k then VNil else content t0 k)"
proof (cases "in_array t0 k")
  case True
  then have "\<not> (live t0 j \<and> luaO_rawequalObj (key_at t0 j) k)" for j
    using live_not_array [OF assms(1)] in_array_rawequal by blast
  then have "\<not> (\<exists>j < i. live t0 j \<and> luaO_rawequalObj (key_at t0 j) k)" by blast
  then have "(if \<exists>j < i. live t0 j \<and> luaO_rawequalObj (key_at t0 j) k then VNil else content t0 k) = content t0 k"
    by (rule if_not_P)
  with True show ?thesis by (simp only: array_content_def content_array if_True)
next
  case False
  have "content t0 k = VNil" if "\<not> (\<exists>j < i. live t0 j \<and> luaO_rawequalObj (key_at t0 j) k)"
    by (rule content_no_live [OF False]) (use that assms(2) in \<open>auto simp: live_def\<close>)
  then show ?thesis using False by (simp add: array_content_def)
qed

text \<open>The array part of the new table, before the hash part is reinserted.\<close>

lemma resize_array_ok:
  assumes ok: "table_ok hs t" and na: "int na \<le> MAXASIZE" and nh: "0 \<le> nh" "nh \<le> 2 ^ MAXBITS"
    and need: "int (slice_need t na + slack) \<le> nh"
  shows "\<exists>t' r. bindE (setnodevector (if na > sizearray t then setarrayvector t na else t) nh) (\<lambda>t'.
       if na < sizearray t then
         bindE (reinsert_array (newkey 0 hs) (sizearray t) na (t'\<lparr>sizearray := na\<rparr>) []) (\<lambda>(t, r).
            Inr (t\<lparr>arr := take na (arr t)\<rparr>, r))
       else Inr (t', [])) = Inr (t', r) \<and> table_ok hs t' \<and> slack \<le> room t' \<and> sizearray t' = na \<and>
       (\<forall>k. realkey k \<longrightarrow> content t' k = array_content t k)"
proof -
  note sz = table_okD(4,5) [OF ok]
  consider "na < sizearray t" | "na = sizearray t" | "na > sizearray t" by linarith
  then show ?thesis
  proof cases
    case 1
    obtain t1 where t1: "setnodevector (t\<lparr>sizearray := na\<rparr>) nh = Inr t1" "table_ok hs t1" "nh \<le> int (room t1)"
      "\<And>k. content t1 k = array_content (t\<lparr>sizearray := na\<rparr>) k" "arr t1 = arr t" "sizearray t1 = na"
      by (rule setnodevector_ok [OF nh, of "t\<lparr>sizearray := na\<rparr>" hs]) (use sz na 1 in auto)
    obtain t0 where t0: "setnodevector t nh = Inr t0" "t1 = t0\<lparr>sizearray := na\<rparr>"
      using t1(1) unfolding setnodevector_sizearray [symmetric] by (cases "setnodevector t nh") auto
    have "\<exists>t' r. reinsert_array (newkey 0 hs) (sizearray t) na t1 [] = Inr (t', r) \<and> table_ok hs t' \<and> slack \<le> room t' \<and>
       sizearray t' = sizearray t1 \<and> sizearray t \<le> length (arr t') \<and> (\<forall>k. realkey k \<longrightarrow> content t' k = array_content t k)"
      by (rule reinsert_array_ok) (use sz 1 t1 need in \<open>auto simp: array_content_def in_array_def\<close>)
    then obtain t2 r where t2: "reinsert_array (newkey 0 hs) (sizearray t) na t1 [] = Inr (t2, r)" "table_ok hs t2" "slack \<le> room t2"
       "sizearray t2 = na" "sizearray t \<le> length (arr t2)" "\<And>k. realkey k \<Longrightarrow> content t2 k = array_content t k"
      using t1(6) by auto
    note E = arr_upd_eqs [OF t2(2), of "take na (arr t2)"]
    show ?thesis using 1 t0 t2 E by (simp del: reinsert_array.simps)
  next
    case 2
    obtain t1 where "setnodevector t nh = Inr t1" "table_ok hs t1" "nh \<le> int (room t1)"
      "\<And>k. content t1 k = array_content t k" "arr t1 = arr t" "sizearray t1 = sizearray t"
      using setnodevector_ok [OF nh sz, where hs = hs] by blast
    then show ?thesis using 2 need by auto
  next
    case 3
    obtain t1 where t1: "setnodevector (setarrayvector t na) nh = Inr t1" "table_ok hs t1" "nh \<le> int (room t1)"
      "\<And>k. content t1 k = array_content (setarrayvector t na) k" "sizearray t1 = na"
      by (rule setnodevector_ok [OF nh, of "setarrayvector t na" hs]) (use sz na 3 in \<open>auto simp: setarrayvector_def\<close>)
    have "array_content (setarrayvector t na) k = array_content t k" for k
      using sz(1) 3 by (auto simp: array_content_def setarrayvector_def in_array_def nth_append min_def)
    then show ?thesis using t1 3 need by auto
  qed
qed

lemma resize_keeps:
  assumes ok: "table_ok hs t" and na: "int na \<le> MAXASIZE" and nh: "0 \<le> nh" "nh \<le> 2 ^ MAXBITS"
    and need: "int (slice_need t na + node_need t na (sizenode t) + slack) \<le> nh"
  shows "\<exists>t' r. resize hs (newkey 0 hs) t na nh = Inr (t', r) \<and> table_ok hs t' \<and> slack \<le> room t' \<and> sizearray t' = na \<and>
    (\<forall>k. realkey k \<longrightarrow> content t' k = content t k)"
proof -
  define tail where "tail = (\<lambda>t' r1. bindE (reinsert_hash hs (newkey 0 hs) (node t) (length (node t)) t' []) (\<lambda>(t', r2).
           Inr (t'\<lparr>resizecount := resizecount t' + 1\<rparr>, r1 @ r2 @ (if is_dummy t then [] else release_nodes (node t)))))"
  have R: "resize hs (newkey 0 hs) t na nh = bindE (bindE (setnodevector (if na > sizearray t then setarrayvector t na else t) nh) (\<lambda>t'.
       if na < sizearray t then
         bindE (reinsert_array (newkey 0 hs) (sizearray t) na (t'\<lparr>sizearray := na\<rparr>) []) (\<lambda>(t, r).
            Inr (t\<lparr>arr := take na (arr t)\<rparr>, r))
       else Inr (t', []))) (\<lambda>(t', r1). tail t' r1)"
    unfolding resize_def Let_def tail_def bindE_assoc ..
  obtain t1 r1 where a: "bindE (setnodevector (if na > sizearray t then setarrayvector t na else t) nh) (\<lambda>t'.
       if na < sizearray t then
         bindE (reinsert_array (newkey 0 hs) (sizearray t) na (t'\<lparr>sizearray := na\<rparr>) []) (\<lambda>(t, r).
            Inr (t\<lparr>arr := take na (arr t)\<rparr>, r))
       else Inr (t', [])) = Inr (t1, r1)" "table_ok hs t1" "node_need t na (sizenode t) + slack \<le> room t1" "sizearray t1 = na"
       "\<And>k. realkey k \<Longrightarrow> content t1 k = array_content t k"
    using resize_array_ok [OF ok na nh, of "node_need t na (sizenode t) + slack"] need by (auto simp: add_ac)
  have "\<exists>t' r. reinsert_hash hs (newkey 0 hs) (node t) (sizenode t) t1 [] = Inr (t', r) \<and> table_ok hs t' \<and> slack \<le> room t' \<and>
     sizearray t' = sizearray t1 \<and> (\<forall>k. realkey k \<longrightarrow> content t' k = content t k)"
    by (rule reinsert_hash_ok [OF ok]) (use a content_split [OF ok refl] in auto)
  then obtain t2 r2 where b: "reinsert_hash hs (newkey 0 hs) (node t) (sizenode t) t1 [] = Inr (t2, r2)" "table_ok hs t2" "slack \<le> room t2"
    "sizearray t2 = na" "\<And>k. realkey k \<Longrightarrow> content t2 k = content t k" using a(4) by auto
  let ?t = "t2\<lparr>resizecount := Suc (resizecount t2)\<rparr>"
  have g: "gnode ?t = gnode t2" "sizenode ?t = sizenode t2" "in_array ?t = in_array t2" "mainposition hs ?t = mainposition hs t2"
    by (auto simp: gnode_def sizenode_def in_array_def intro!: ext mainposition_cong)
  have n: "nx ?t = nx t2" by (simp add: nx_def g)
  have e: "R ?t = R t2" "has ?t = has t2" "live ?t = live t2"
    by (auto simp: R_def n has_def live_def g intro!: ext)
  have "table_ok hs ?t"
    using b(2) unfolding table_ok_def shape_ok_def links_ok_def keys_ok_def chains_ok_def n e g by (simp add: Let_def)
  moreover have "content ?t k = content t2 k" for k by (simp add: content_def g split: option.split)
  moreover have "room ?t = room t2" by (simp add: room_def used_def g)
  moreover have "resize hs (newkey 0 hs) t na nh = tail t1 r1" unfolding R a(1) by simp
  then have "resize hs (newkey 0 hs) t na nh = Inr (?t, r1 @ r2 @ (if is_dummy t then [] else release_nodes (node t)))"
    using b(1) table_okD(3) [OF ok] by (simp add: tail_def)
  ultimately show ?thesis using b by auto
qed

section \<open>Counting\<close>

text \<open>The number of keys up to \<open>2 ^ j\<close> according to the counters.\<close>

definition psum :: "int list \<Rightarrow> nat \<Rightarrow> int" where
  "psum nums j = (\<Sum>l\<le>j. nums ! l)"

definition counters :: "int list \<Rightarrow> bool" where
  "counters nums = (length nums = Suc MAXBITS \<and> (\<forall>l \<le> MAXBITS. 0 \<le> nums ! l))"

lemma psum_add:
  assumes "c < length nums" "j < length nums"
  shows "psum (nums[c := nums ! c + d]) j = psum nums j + (if c \<le> j then d else 0)"
proof -
  have "psum (nums[c := nums ! c + d]) j = (\<Sum>l\<le>j. nums ! l + (if c = l then d else 0))"
    unfolding psum_def by (rule sum.cong) (use assms in \<open>auto simp: nth_list_update\<close>)
  then show ?thesis by (simp add: psum_def sum.distrib)
qed

lemma counters_add: "counters nums \<Longrightarrow> 0 \<le> d \<Longrightarrow> counters (nums[c := nums ! c + d])"
  by (cases "c < length nums") (auto simp: counters_def nth_list_update)

definition is_candidate :: "TValue \<Rightarrow> int \<Rightarrow> bool" where
  "is_candidate k n = (1 \<le> arrayindex k \<and> arrayindex k \<le> n)"

lemma countint_ok:
  assumes "counters nums" "countint k nums = (nums', c)"
  shows "counters nums'" "c = (if is_candidate k (2 ^ MAXBITS) then 1 else 0)"
    "j \<le> MAXBITS \<Longrightarrow> psum nums' j = psum nums j + (if is_candidate k (2 ^ j) then 1 else 0)"
proof -
  define n where "n = arrayindex k"
  have "counters nums' \<and> c = (if is_candidate k (2 ^ MAXBITS) then 1 else 0) \<and>
    (j \<le> MAXBITS \<longrightarrow> psum nums' j = psum nums j + (if is_candidate k (2 ^ j) then 1 else 0))"
  proof (cases "0 < n \<and> n \<le> MAXASIZE")
    case True
    define w where "w = (word_of_int n :: u32)"
    have u: "int (unat w) = n"
    proof -
      have "LENGTH(32) = 32" by simp
      moreover have "n mod 2 ^ 32 = n" using True by (simp add: MAXASIZE_def MAXBITS_def)
      ultimately show ?thesis by (simp only: w_def uint_nat [symmetric] uint_word_of_int)
    qed
    then have "w \<noteq> 0" using True by auto
    from ceillog2_spec [OF this] obtain m where m: "ceillog2 w = int m" "\<And>k. unat w \<le> 2 ^ k \<longleftrightarrow> m \<le> k" by blast
    have le: "n \<le> 2 ^ e \<longleftrightarrow> m \<le> e" for e
    proof -
      have "n \<le> 2 ^ e \<longleftrightarrow> int (unat w) \<le> int (2 ^ e)" unfolding u by simp
      then show ?thesis unfolding of_nat_le_iff m(2) .
    qed
    have mb: "m \<le> MAXBITS" using le [of MAXBITS] True by (simp add: MAXASIZE_def)
    have "nums' = nums[m := nums ! m + 1]" "c = 1"
      using assms(2) True m(1) by (auto simp: countint_def Let_def n_def w_def)
    then show ?thesis
      using psum_add [of m nums j 1] counters_add [OF assms(1), of 1 m] assms(1) mb le True
      by (auto simp: counters_def is_candidate_def n_def)
  next
    case False
    moreover have "\<not> is_candidate k (2 ^ j)" if "j \<le> MAXBITS" for j
    proof -
      have "(2 :: int) ^ j \<le> 2 ^ MAXBITS" using that by (rule power_increasing) simp
      then have "2 ^ j \<le> MAXASIZE" by (simp only: MAXASIZE_def)
      then show ?thesis using False unfolding is_candidate_def n_def by linarith
    qed
    ultimately show ?thesis using assms by (auto simp: countint_def Let_def n_def)
  qed
  then show "counters nums'" "c = (if is_candidate k (2 ^ MAXBITS) then 1 else 0)"
    "j \<le> MAXBITS \<Longrightarrow> psum nums' j = psum nums j + (if is_candidate k (2 ^ j) then 1 else 0)" by blast+
qed

lemma numusehash_loop_ok:
  assumes "counters nums" "numusehash_loop t i nums ause tot = (nums', ause', tot')" "i \<le> sizenode t"
  shows "counters nums'" "ause' = ause + int (card {l. l < i \<and> live t l \<and> is_candidate (key_at t l) (2 ^ MAXBITS)})"
    "tot' = tot + int (card {l. l < i \<and> live t l})"
    "j \<le> MAXBITS \<Longrightarrow> psum nums' j = psum nums j + int (card {l. l < i \<and> live t l \<and> is_candidate (key_at t l) (2 ^ j)})"
proof -
  have card_step: "card {l. l < Suc i \<and> P l} = card {l. l < i \<and> P l} + (if P i then 1 else 0)" for P i
  proof -
    have "{l. l < Suc i \<and> P l} = (if P i then insert i {l. l < i \<and> P l} else {l. l < i \<and> P l})" by (auto simp: less_Suc_eq)
    then show ?thesis by simp
  qed
  have "counters nums' \<and> ause' = ause + int (card {l. l < i \<and> live t l \<and> is_candidate (key_at t l) (2 ^ MAXBITS)}) \<and>
    tot' = tot + int (card {l. l < i \<and> live t l}) \<and>
    (j \<le> MAXBITS \<longrightarrow> psum nums' j = psum nums j + int (card {l. l < i \<and> live t l \<and> is_candidate (key_at t l) (2 ^ j)}))"
    using assms
  proof (induction i arbitrary: nums ause tot)
    case (Suc i)
    show ?case
    proof (cases "val_at t i = VNil")
      case True
      then have "\<not> live t i" by (simp add: live_def)
      then show ?thesis using Suc.IH [of nums ause tot] Suc.prems True by (simp add: card_step)
    next
      case False
      then have l: "live t i" using Suc.prems(3) by (simp add: live_def)
      obtain n1 c where c: "countint (key_at t i) nums = (n1, c)" by (cases "countint (key_at t i) nums")
      note C = countint_ok [OF Suc.prems(1) c]
      have "numusehash_loop t i n1 (ause + c) (tot + 1) = (nums', ause', tot')"
        using Suc.prems(2) False c by simp
      from Suc.IH [OF C(1) this] Suc.prems(3) show ?thesis using l C(2,3) by (simp add: card_step)
    qed
  qed simp
  then show "counters nums'" "ause' = ause + int (card {l. l < i \<and> live t l \<and> is_candidate (key_at t l) (2 ^ MAXBITS)})"
    "tot' = tot + int (card {l. l < i \<and> live t l})"
    "j \<le> MAXBITS \<Longrightarrow> psum nums' j = psum nums j + int (card {l. l < i \<and> live t l \<and> is_candidate (key_at t l) (2 ^ j)})"
    by blast+
qed

lemma count_slice_append: "m \<le> m' \<Longrightarrow> count_slice t 1 m + count_slice t (m + 1) m' = count_slice t 1 m'"
proof -
  assume m: "m \<le> m'"
  then have "[1..<m' + 1] = [1..<m + 1] @ [m + 1..<m' + 1]" by (metis Suc_eq_plus1 add_le_mono1 le_add2 le_iff_add upt_add_eq_append)
  then show ?thesis by (simp add: count_slice_def del: upt_Suc)
qed

lemma numusearray_loop_ok:
  assumes "sizearray t \<le> 2 ^ MAXBITS" "counters nums" "numusearray_loop t nums lg i ause = (nums', ause')"
    and "lg \<le> Suc MAXBITS" "P = (if lg = 0 then 0 else min (2 ^ (lg - 1)) (sizearray t))" "i = P + 1"
    and "ause = int (count_slice t 1 P)" "\<And>l. lg \<le> l \<Longrightarrow> l \<le> MAXBITS \<Longrightarrow> nums ! l = 0"
    and "\<And>j. j < lg \<Longrightarrow> psum nums j = int (count_slice t 1 (min (2 ^ j) (sizearray t)))"
  shows "counters nums' \<and> ause' = int (count_slice t 1 (sizearray t)) \<and>
    (\<forall>j \<le> MAXBITS. psum nums' j = int (count_slice t 1 (min (2 ^ j) (sizearray t))))"
  using assms(2-)
proof (induction "Suc MAXBITS - lg" arbitrary: lg nums i ause P)
  case 0
  then have l: "lg = Suc MAXBITS" by simp
  then have "P = sizearray t" using 0 assms(1) by simp
  then show ?case using 0 l by (subst (asm) numusearray_loop.simps) auto
next
  case (Suc n)
  have lg: "lg \<le> MAXBITS" using Suc.hyps(2) by simp
  define lim where "lim = min (2 ^ lg) (sizearray t)"
  have Pl: "P \<le> lim"
  proof (cases "lg = 0")
    case False
    have "(2::nat) ^ (lg - 1) \<le> 2 ^ lg" by (rule power_increasing) simp_all
    moreover have "P = min (2 ^ (lg - 1)) (sizearray t)" using Suc.prems(4) False by simp
    ultimately show ?thesis unfolding lim_def by linarith
  qed (use Suc.prems(4) in simp)
  have lim: "(if 2 ^ lg > sizearray t then sizearray t else 2 ^ lg) = lim" by (simp add: lim_def min_def)
  have sum0: "psum nums j = int (count_slice t 1 P)" if "lg \<le> j" "j \<le> MAXBITS" for j
  proof -
    have "psum nums j = (\<Sum>l<lg. nums ! l)"
      unfolding psum_def by (rule sum.mono_neutral_right) (use that Suc.prems(7) in auto)
    also have "\<dots> = int (count_slice t 1 P)"
    proof (cases lg)
      case 0
      then show ?thesis using Suc.prems(4) by (simp add: count_slice_def)
    next
      case (Suc l)
      then show ?thesis using Suc.prems(8) [of l] Suc.prems(4) by (simp add: psum_def lessThan_Suc_atMost)
    qed
    finally show ?thesis .
  qed
  show ?case
  proof (cases "2 ^ lg > sizearray t \<and> i > lim")
    case True
    then have ls: "lim = sizearray t" "P = sizearray t" using Pl Suc.prems(5) by (auto simp: lim_def)
    have "nums' = nums" "ause' = ause"
      using Suc.prems(2) True lg ls(1) by (auto simp: numusearray_loop.simps [of t nums] Let_def)
    moreover have "psum nums j = int (count_slice t 1 (min (2 ^ j) (sizearray t)))" if "j \<le> MAXBITS" for j
    proof (cases "j < lg")
      case False
      then have "(2::nat) ^ lg \<le> 2 ^ j" by (intro power_increasing) simp_all
      then have "min (2 ^ j) (sizearray t) = P" using True ls(2) by linarith
      then show ?thesis using sum0 [of j] False that by simp
    qed (use Suc.prems(8) in simp)
    ultimately show ?thesis using Suc.prems(1,6) ls by simp
  next
    case False
    define lc where "lc = int (count_slice t i lim)"
    let ?nums = "nums[lg := nums ! lg + lc]"
    have add: "int (count_slice t 1 P) + lc = int (count_slice t 1 lim)"
      using count_slice_append [OF Pl, of t] Suc.prems(5) by (simp add: lc_def)
    have len: "length nums = Suc MAXBITS" using Suc.prems(1) by (simp add: counters_def)
    have "numusearray_loop t ?nums (lg + 1) (max i (lim + 1)) (ause + lc) = (nums', ause')"
      using Suc.prems(2) False lg by (auto simp: numusearray_loop.simps [of t nums] lim Let_def lc_def)
    moreover have "max i (lim + 1) = lim + 1" using Pl Suc.prems(5) by simp
    ultimately show ?thesis
    proof (intro Suc.hyps(1) [of "lg + 1" ?nums "lim + 1" "ause + lc" lim])
      show "counters ?nums" using Suc.prems(1) by (rule counters_add) (simp add: lc_def)
      show "?nums ! l = 0" if "lg + 1 \<le> l" "l \<le> MAXBITS" for l using Suc.prems(7) [of l] that by simp
      show "psum ?nums j = int (count_slice t 1 (min (2 ^ j) (sizearray t)))" if "j < lg + 1" for j
      proof (cases "j = lg")
        case True
        then show ?thesis using psum_add [of lg nums lg lc] len lg sum0 [of lg] add by (simp add: lim_def)
      next
        case False
        then show ?thesis using psum_add [of lg nums j lc] len lg Suc.prems(8) [of j] that by simp
      qed
    qed (use Suc.hyps(2) lg Suc.prems(6) add in \<open>auto simp: lim_def\<close>)
  qed
qed

lemma computesizes_loop_ok:
  assumes "counters nums" "twotoi = 2 ^ i" "a = (\<Sum>l<i. nums ! l)"
    and "n = 0 \<and> na = 0 \<or> (\<exists>j \<le> MAXBITS. n = 2 ^ j \<and> na = psum nums j)"
    and "computesizes_loop nums narray i twotoi a na n = (n', na')"
  shows "n' = 0 \<and> na' = 0 \<or> (\<exists>j \<le> MAXBITS. n' = 2 ^ j \<and> na' = psum nums j)"
  using assms
proof (induction nums narray i twotoi a na n rule: computesizes_loop.induct)
  case (1 nums narray i twotoi a na n)
  show ?case
  proof (cases "twotoi div 2 < narray \<and> i \<le> MAXBITS")
    case False
    then show ?thesis using "1.prems"(4,5) by (auto simp: computesizes_loop.simps [of nums narray i])
  next
    case True
    define a' where "a' = (if nums ! i > 0 then a + nums ! i else a)"
    define hit where "hit = (nums ! i > 0 \<and> a' > twotoi div 2)"
    define n1 where "n1 = (if hit then twotoi else n)"
    define na1 where "na1 = (if hit then a' else na)"
    have a': "a' = psum nums i" "a' = (\<Sum>l<i + 1. nums ! l)"
      using "1.prems"(1,3) True unfolding a'_def counters_def psum_def lessThan_Suc_atMost [symmetric] by force+
    have inv: "n1 = 0 \<and> na1 = 0 \<or> (\<exists>j \<le> MAXBITS. n1 = 2 ^ j \<and> na1 = psum nums j)"
      using "1.prems"(2,4) a' True by (auto simp: n1_def na1_def)
    have step: "(if a' = narray then (n1, na1) else computesizes_loop nums narray (i + 1) (twotoi * 2) a' na1 n1) = (n', na')"
      using "1.prems"(5)
      unfolding computesizes_loop.simps [of nums narray i twotoi a na n] if_P [OF True] Let_def a'_def hit_def n1_def na1_def .
    show ?thesis
    proof (cases "a' = narray")
      case True
      then show ?thesis using step inv by simp
    next
      case False
      show ?thesis
        by (rule "1.IH" [OF True a'_def hit_def n1_def na1_def False "1.prems"(1) _ a'(2) inv])
          (use step False "1.prems"(2) in simp_all)
    qed
  qed
qed

lemma computesizes_ok:
  assumes "counters nums" "computesizes nums narray = (n, na)"
  obtains "n = 0" "na = 0" | j where "j \<le> MAXBITS" "n = 2 ^ j" "na = psum nums j"
  using computesizes_loop_ok [OF assms(1), of 1 0 0 0 0 narray n na] assms(2) by (auto simp: computesizes_def)

section \<open>rehash\<close>

text \<open>The number of elements of a table.\<close>

definition elements :: "Table \<Rightarrow> nat" where
  "elements t = slice_need t 0 + card {j. j < sizenode t \<and> live t j}"

lemma count_slice_card: "count_slice t 1 m = card {j. j < m \<and> arr t ! j \<noteq> VNil}"
proof (induction m)
  case (Suc m)
  have "{j. j < Suc m \<and> arr t ! j \<noteq> VNil} =
      (if arr t ! m \<noteq> VNil then insert m {j. j < m \<and> arr t ! j \<noteq> VNil} else {j. j < m \<and> arr t ! j \<noteq> VNil})"
    by (auto simp: less_Suc_eq)
  then show ?case using Suc by (simp add: count_slice_def)
qed (simp add: count_slice_def)

lemma slice_split: "slice_need t n + count_slice t 1 (min n (sizearray t)) = slice_need t 0"
proof -
  have "{j. 0 \<le> j \<and> j < sizearray t \<and> arr t ! j \<noteq> VNil} =
     {j. n \<le> j \<and> j < sizearray t \<and> arr t ! j \<noteq> VNil} \<union> {j. j < min n (sizearray t) \<and> arr t ! j \<noteq> VNil}"
    by auto
  moreover have "card ({j. n \<le> j \<and> j < sizearray t \<and> arr t ! j \<noteq> VNil} \<union> {j. j < min n (sizearray t) \<and> arr t ! j \<noteq> VNil}) =
     card {j. n \<le> j \<and> j < sizearray t \<and> arr t ! j \<noteq> VNil} + card {j. j < min n (sizearray t) \<and> arr t ! j \<noteq> VNil}"
    by (rule card_Un_disjoint) auto
  ultimately show ?thesis by (simp only: slice_need_def count_slice_card)
qed

lemma node_split:
  "node_need t n (sizenode t) + card {l. l < sizenode t \<and> live t l \<and> is_candidate (key_at t l) (int n)} =
   card {j. j < sizenode t \<and> live t j}"
proof -
  have "{j. j < sizenode t \<and> live t j} =
     {j. j < sizenode t \<and> live t j \<and> \<not> (1 \<le> arrayindex (key_at t j) \<and> arrayindex (key_at t j) \<le> int n)} \<union>
     {l. l < sizenode t \<and> live t l \<and> is_candidate (key_at t l) (int n)}" (is "_ = ?A \<union> ?B")
    by (auto simp: is_candidate_def)
  moreover have "card (?A \<union> ?B) = card ?A + card ?B" by (rule card_Un_disjoint) (auto simp: is_candidate_def)
  ultimately show ?thesis by (simp only: node_need_def)
qed

lemma rehash_ok:
  assumes ok: "table_ok hs t" and e: "elements t < 2 ^ MAXBITS"
  shows "\<exists>t' r. rehash hs (newkey 0 hs) t k = Inr (t', r) \<and> table_ok hs t' \<and> (in_array t' k \<or> 0 < room t') \<and>
    (\<forall>k. realkey k \<longrightarrow> content t' k = content t k)"
proof -
  have sz: "sizearray t \<le> 2 ^ MAXBITS" using table_okD(5) [OF ok] by (simp add: MAXASIZE_def)
  define n0 where "n0 = replicate (MAXBITS + 1) (0 :: int)"
  obtain n1 ause1 where 1: "numusearray t n0 = (n1, ause1)" by (cases "numusearray t n0")
  obtain n2 ause2 tot where 2: "numusehash t n1 = (n2, ause2, tot)" by (cases "numusehash t n1")
  obtain n3 c where 3: "countint k n2 = (n3, c)" by (cases "countint k n2")
  obtain n na where 4: "computesizes n3 (ause1 + ause2 + c) = (n, na)" by (cases "computesizes n3 (ause1 + ause2 + c)")
  have c0: "counters n0" by (simp add: counters_def n0_def less_Suc_eq_le del: replicate.simps)
  have A: "counters n1" "ause1 = int (count_slice t 1 (sizearray t))"
    "\<And>j. j \<le> MAXBITS \<Longrightarrow> psum n1 j = int (count_slice t 1 (min (2 ^ j) (sizearray t)))"
  proof -
    have "count_slice t 1 0 = 0" "l \<le> MAXBITS \<Longrightarrow> n0 ! l = 0" for l
      by (simp_all add: count_slice_def n0_def less_Suc_eq_le del: replicate.simps)
    then have "counters n1 \<and> ause1 = int (count_slice t 1 (sizearray t)) \<and>
        (\<forall>j \<le> MAXBITS. psum n1 j = int (count_slice t 1 (min (2 ^ j) (sizearray t))))"
      by (intro numusearray_loop_ok [OF sz c0 1 [unfolded numusearray_def], of 0]) simp_all
    then show "counters n1" "ause1 = int (count_slice t 1 (sizearray t))"
      "\<And>j. j \<le> MAXBITS \<Longrightarrow> psum n1 j = int (count_slice t 1 (min (2 ^ j) (sizearray t)))" by blast+
  qed
  note B = numusehash_loop_ok [OF A(1) 2 [unfolded numusehash_def] order_refl]
  note C = countint_ok [OF B(1) 3]
  have R: "rehash hs (newkey 0 hs) t k = resize hs (newkey 0 hs) t (nat n) (ause1 + tot + 1 - na)"
    using 1 2 3 4 by (simp add: rehash_def Let_def n0_def)
  have tot: "ause1 = int (slice_need t 0)" "tot = int (card {j. j < sizenode t \<and> live t j})"
    unfolding A(2) B(3) count_slice_card slice_need_def by simp_all
  define slack where "slack = (if is_candidate k n then 0 else 1 :: nat)"
  have n: "int (nat n) = n \<and> n \<le> MAXASIZE \<and>
     ause1 + tot + 1 - na = int (slice_need t (nat n) + node_need t (nat n) (sizenode t) + slack)"
    using C(1) 4
  proof (cases rule: computesizes_ok)
    case 1
    have "{l. l < sizenode t \<and> live t l \<and> is_candidate (key_at t l) (int 0)} = {}" by (auto simp: is_candidate_def)
    then have "node_need t 0 (sizenode t) = card {j. j < sizenode t \<and> live t j}"
      using node_split [of t 0] by (simp only: card.empty add_0_right)
    then show ?thesis using tot 1 by (simp add: slack_def is_candidate_def MAXASIZE_def)
  next
    case (2 j)
    have j: "n \<le> MAXASIZE" unfolding 2(2) MAXASIZE_def by (rule power_increasing) (use 2(1) in simp_all)
    have nn: "nat n = 2 ^ j" "int (nat n) = n" using 2(2) by (simp_all add: nat_power_eq)
    have "na = int (count_slice t 1 (min (nat n) (sizearray t))) +
        int (card {l. l < sizenode t \<and> live t l \<and> is_candidate (key_at t l) (int (nat n))}) + 1 - int slack"
      unfolding 2(3) C(3) [OF 2(1)] B(4) [OF 2(1)] A(3) [OF 2(1)] nn(1) by (simp add: slack_def 2(2))
    then show ?thesis
      using node_split [of t "nat n"] slice_split [of t "nat n"] tot j nn(2) by linarith
  qed
  have "int (nat n) \<le> MAXASIZE" "0 \<le> ause1 + tot + 1 - na" using n by auto
  moreover have "0 \<le> na"
    using C(1) 4 by (cases rule: computesizes_ok) (use C(1) in \<open>auto simp: psum_def counters_def intro!: sum_nonneg\<close>)
  moreover have "int (elements t) + 1 \<le> 2 ^ MAXBITS"
  proof -
    have "int (elements t + 1) \<le> int (2 ^ MAXBITS)" unfolding of_nat_le_iff using e by simp
    then show ?thesis by simp
  qed
  then have "ause1 + tot + 1 - na \<le> 2 ^ MAXBITS" using tot \<open>0 \<le> na\<close> by (simp add: elements_def)
  ultimately obtain t' r where t': "resize hs (newkey 0 hs) t (nat n) (ause1 + tot + 1 - na) = Inr (t', r)" "table_ok hs t'"
    "slack \<le> room t'" "sizearray t' = nat n" "\<forall>k. realkey k \<longrightarrow> content t' k = content t k"
    using resize_keeps [OF ok, of "nat n" "ause1 + tot + 1 - na" slack] n by auto
  moreover have "in_array t' k \<or> 0 < room t'"
    using t'(3,4) n by (auto simp: slack_def is_candidate_def in_array_def split: if_splits)
  ultimately show ?thesis unfolding R by blast
qed

section \<open>Setting a key\<close>

text \<open>What a successful call of one of the setters gives.\<close>

definition key_set :: "(addr \<Rightarrow> u32) \<Rightarrow> Table \<Rightarrow> TValue \<Rightarrow> set_result \<Rightarrow> bool" where
  "key_set hs t k res = (\<exists>p t' r. res = Inr (p, t', r) \<and> table_ok hs t' \<and> slot_for hs t' k p \<and>
     (\<forall>k'. realkey k' \<longrightarrow> content t' k' = content t k'))"

lemma slot_made_set: "slot_made hs t k p t' \<Longrightarrow> key_set hs t k (Inr (p, t', r))"
  by (simp add: key_set_def slot_made_def)

lemma elements_lastfree: "elements (t\<lparr>lastfree := l\<rparr>) = elements t"
  by (simp add: elements_def slice_need_def live_def)

lemma newkey_1_ok:
  assumes ok: "table_ok hs t" and ab: "absent hs t k" and e: "elements t < 2 ^ MAXBITS"
  shows "key_set hs t k (newkey 1 hs t k)"
proof (rule newkey_step_cases [OF ok ab, where grow = "\<lambda>t key.
     bindE (rehash hs (newkey 0 hs) t key) (\<lambda>(t, r1).
     bindE (set_with hs (newkey 0 hs) t key) (\<lambda>(p, t, r2). Inr (p, t, r1 @ r2)))"], goal_cases)
  case (1 p t' r)
  then show ?thesis by (simp add: newkey.simps key_set_def inserted_def)
next
  case (2 l)
  note ok' = full_lastfree_ok [OF ok 2(4,2)]
  obtain t1 r1 where 1: "rehash hs (newkey 0 hs) (t\<lparr>lastfree := l\<rparr>) k = Inr (t1, r1)" "table_ok hs t1"
    "in_array t1 k \<or> 0 < room t1" "\<And>k. realkey k \<Longrightarrow> content t1 k = content t k"
    using rehash_ok [OF ok', of k] e by (auto simp: elements_lastfree)
  have rk: "realkey k" using ab by (simp add: absent_def)
  obtain p t2 r2 where "set_with hs (newkey 0 hs) t1 k = Inr (p, t2, r2)" "slot_made hs t1 k p t2"
    using set_with_0_ok [OF 1(2) rk 1(3)] .
  then show ?thesis using 2(1) 1 by (simp add: newkey.simps key_set_def slot_made_def)
qed

lemma elements_flags: "elements (t\<lparr>flags := l\<rparr>) = elements t"
  by (simp add: elements_def slice_need_def live_def)

lemma luaH_set_ok:
  assumes ok: "table_ok hs t" and rk: "realkey k" and e: "elements t < 2 ^ MAXBITS"
  shows "key_set hs t k (luaH_set hs t k)"
  using ok rk
proof (cases rule: luaH_get_cases)
  case none
  have "key_set hs (t\<lparr>flags := 0\<rparr>) k (newkey 1 hs (t\<lparr>flags := 0\<rparr>) k)"
    by (rule newkey_1_ok) (use ok none e in \<open>auto simp: elements_flags\<close>)
  then show ?thesis
    unfolding luaH_set_def set_with_newkey [OF rk none(1)] by (simp add: key_set_def flags_eqs)
next
  case (found p)
  then show ?thesis using slot_made_set [OF found_made(1) [OF ok found(3)]] by (simp add: luaH_set_def set_with_def Let_def)
qed

lemma getnum_get:
  assumes "INT_MIN \<le> k" "k \<le> INT_MAX"
  shows "luaH_getnum t k = luaH_get hs t (VNumber (cast_num k))"
proof -
  have "lua_number2int (cast_num k) = k" by (rule number2int_cast_num [OF assms])
  moreover have "luai_numeq (cast_num k) (cast_num k)"
    using cast_num_not_nan [of k] assms by (simp add: luai_numeq_def INT_MIN_def INT_MAX_def)
  ultimately show ?thesis by (simp add: luaH_get_def)
qed

lemma luaH_setnum_ok:
  assumes ok: "table_ok hs t" and k: "INT_MIN \<le> k" "k \<le> INT_MAX" and e: "elements t < 2 ^ MAXBITS"
  shows "key_set hs t (VNumber (cast_num k)) (luaH_setnum hs t k)"
  using ok cast_num_arrayindex(2) [OF k]
proof (cases rule: luaH_get_cases)
  case none
  then show ?thesis using newkey_1_ok [OF ok none(2) e] by (simp add: luaH_setnum_def setnum_with_def getnum_get [OF k, of t hs])
next
  case (found p)
  then show ?thesis using slot_made_set [OF found_made(2) [OF ok found(3)]]
    by (simp add: luaH_setnum_def setnum_with_def getnum_get [OF k, of t hs])
qed

lemma key_set_ref:
  "key_set hs t k (Inr (p, t', r)) = key_set hs t k (Inr (p, t', r'))"
  by (simp add: key_set_def)

lemma luaH_setstr_ok:
  assumes ok: "table_ok hs t" and e: "elements t < 2 ^ MAXBITS"
  shows "key_set hs t (VString a) (luaH_setstr hs t a)"
proof -
  have g: "luaH_getstr hs t a = luaH_get hs t (VString a)" by (simp add: luaH_get_def)
  have "realkey (VString a)" by simp
  with ok show ?thesis
  proof (cases rule: luaH_get_cases)
    case none
    obtain p t' r where n: "newkey 1 hs t (VString a) = Inr (p, t', r)" "key_set hs t (VString a) (Inr (p, t', r))"
      using newkey_1_ok [OF ok none(2) e] unfolding key_set_def by blast
    then show ?thesis using none by (simp add: luaH_setstr_def g key_set_def)
  next
    case (found p)
    then show ?thesis using slot_made_set [OF found_made(2) [OF ok found(3)]] by (simp add: luaH_setstr_def g)
  qed
qed

text \<open>Reading a table: \<open>luaH_get\<close> and the value of the slot it gives.\<close>

definition rawget :: "(addr \<Rightarrow> u32) \<Rightarrow> Table \<Rightarrow> TValue \<Rightarrow> lua_err + TValue" where
  "rawget hs t k = bindE (luaH_get hs t k) (\<lambda>p. Inr (slot_value t p))"

lemma rawget_content: "table_ok hs t \<Longrightarrow> realkey k \<Longrightarrow> rawget hs t k = Inr (content t k)"
proof -
  assume a: "table_ok hs t" "realkey k"
  then show ?thesis using luaH_get_content [OF a] by (cases rule: luaH_get_cases) (auto simp: rawget_def)
qed

text \<open>A setter's slot, filled: the table's map is updated at the key and nowhere else.\<close>

definition updates :: "(addr \<Rightarrow> u32) \<Rightarrow> Table \<Rightarrow> TValue \<Rightarrow> set_result \<Rightarrow> bool" where
  "updates hs t k res = (\<exists>p t' r. res = Inr (p, t', r) \<and> p \<noteq> Nilobject \<and>
     (\<forall>v. table_ok hs (store t' p v) \<and>
        (\<forall>k'. realkey k' \<longrightarrow> rawget hs (store t' p v) k' = (if luaO_rawequalObj k k' then Inr v else rawget hs t k'))))"

lemma key_set_updates:
  assumes "table_ok hs t" "key_set hs t k res"
  shows "updates hs t k res"
proof -
  from assms(2) obtain p t' r where r: "res = Inr (p, t', r)" "table_ok hs t'" "slot_for hs t' k p"
    "\<And>k'. realkey k' \<Longrightarrow> content t' k' = content t k'" unfolding key_set_def by blast
  have "table_ok hs (store t' p v) \<and>
     (realkey k' \<longrightarrow> rawget hs (store t' p v) k' = (if luaO_rawequalObj k k' then Inr v else rawget hs t k'))" for v k'
    using store_ok [OF r(2,3)] content_store [OF r(2,3), of k' v] r(4) [of k'] assms(1) by (simp add: rawget_content)
  then show ?thesis using r(1,3) unfolding updates_def by (auto simp: slot_for_def)
qed

text \<open>
  C22. Setting a key. In a table that satisfies the invariant and holds fewer than \<open>2^26\<close>
  elements, \<open>luaH_set\<close> on any key but nil and NaN, \<open>luaH_setnum\<close> on any integer and \<open>luaH_setstr\<close>
  return (one rehash is always enough, the chains are walked without leaving the node vector) a
  slot that is not the shared nil object; whatever is stored there, the table satisfies the
  invariant again and \<open>luaH_get\<close> then gives that value for every key equal to the one set, and
  for every other key what it gave before, although the call may have moved every element.
\<close>

theorem table_set_get:
  assumes "table_ok hs t" "elements t < 2 ^ MAXBITS" "realkey k" "INT_MIN \<le> n" "n \<le> INT_MAX"
  shows "updates hs t k (luaH_set hs t k) \<and> updates hs t (VNumber (cast_num n)) (luaH_setnum hs t n) \<and>
    updates hs t (VString a) (luaH_setstr hs t a)"
  using key_set_updates [OF assms(1)] luaH_set_ok [OF assms(1,3,2)] luaH_setnum_ok [OF assms(1,4,5,2)]
    luaH_setstr_ok [OF assms(1,2)] by blast

lemma luaH_new_ok:
  assumes "int na \<le> MAXASIZE" "0 \<le> nh" "nh \<le> 2 ^ MAXBITS"
  obtains t where "luaH_new na nh = Inr t" "table_ok hs t" "sizearray t = na" "nh \<le> int (room t)" "elements t = 0"
    "\<And>k. content t k = VNil"
proof -
  let ?t = "setarrayvector \<lparr>arr = [], sizearray = 0, node = [dummynode], is_dummy = True, lsizenode = 0,
       lastfree = 0, flags = 255, resizecount = 0\<rparr> na"
  obtain t where t: "setnodevector ?t nh = Inr t" "table_ok hs t" "nh \<le> int (room t)"
    "\<And>k. content t k = array_content ?t k" "arr t = replicate na VNil" "sizearray t = na"
    by (rule setnodevector_ok [OF assms(2,3), of ?t hs]) (use assms(1) in \<open>auto simp: setarrayvector_def\<close>)
  have c: "content t k = VNil" for k
    using t(4) by (auto simp: array_content_def setarrayvector_def in_array_def)
  have "\<not> live t i" for i
  proof
    assume l: "live t i"
    have "luaO_rawequalObj (key_at t i) (key_at t i)"
      using live_has [OF t(2) l] by (cases "key_at t i") (auto simp: has_def raweq luai_numeq_def)
    then have "content t (key_at t i) = val_at t i" by (rule content_live [OF t(2) l])
    then show False using c l by (simp add: live_def)
  qed
  moreover have "slice_need t 0 = 0" using t(5,6) by (auto simp: slice_need_def)
  ultimately have "elements t = 0" by (simp add: elements_def)
  with that t c show thesis by (simp add: luaH_new_def)
qed

theorem table_set_get_witness:
  "\<exists>t. luaH_new 4 0 = Inr t \<and> updates (\<lambda>_. 7) t (VBoolean 1) (luaH_set (\<lambda>_. 7) t (VBoolean 1))"
proof -
  obtain t where "luaH_new 4 0 = Inr t" "table_ok (\<lambda>_. 7) t" "elements t = 0"
    by (rule luaH_new_ok [of 4 0 "\<lambda>_. 7"]) (simp_all add: MAXASIZE_def MAXBITS_def)
  then show ?thesis using table_set_get [of "\<lambda>_. 7" t "VBoolean 1" 0 0] by (auto simp: INT_MIN_def INT_MAX_def)
qed

end
