(* ===== verification/Lua_TableProps.thy ===== *)
theory Lua_TableProps
  imports Lua_Rehash
begin

text \<open>
  What the rest of the interpreter relies on in \<^verbatim>\<open>ltable.c\<close>: traversal by \<open>luaH_next\<close>, the border
  \<open>luaH_getn\<close> finds, fresh tables; and a reference count that resizing loses.
\<close>

section \<open>Traversal\<close>

definition entry_at :: "Table \<Rightarrow> nat \<Rightarrow> TValue \<times> TValue" where
  "entry_at t p =
     (if p < sizearray t then (VNumber (cast_num (int p + 1)), arr t ! p)
      else (key_at t (p - sizearray t), val_at t (p - sizearray t)))"

definition positions :: "Table \<Rightarrow> nat" where
  "positions t = sizearray t + sizenode t"

abbreviation filled :: "Table \<Rightarrow> nat \<Rightarrow> bool" where
  "filled t p \<equiv> snd (entry_at t p) \<noteq> VNil"

definition no_dead :: "Table \<Rightarrow> bool" where
  "no_dead t = (\<forall>i < sizenode t. case key_at t i of VDeadKey _ \<Rightarrow> False | _ \<Rightarrow> True)"

lemma find_upt_step: "List.find P [p..<n] = (if p < n then if P p then Some p else List.find P [Suc p..<n] else None)"
  by (simp add: upt_rec)

lemma next_array_find: "next_array t i = List.find (\<lambda>p. arr t ! p \<noteq> VNil) [i..<sizearray t]"
  by (induction t i rule: next_array.induct) (subst next_array.simps, subst find_upt_step, simp)

lemma next_hash_find: "next_hash t i = List.find (\<lambda>p. val_at t p \<noteq> VNil) [i..<sizenode t]"
  by (induction t i rule: next_hash.induct) (subst next_hash.simps, subst find_upt_step, simp)

lemma find_append: "List.find P (xs @ ys) = (case List.find P xs of None \<Rightarrow> List.find P ys | r \<Rightarrow> r)"
  by (induction xs) auto

lemma find_map: "List.find P (map f xs) = map_option f (List.find (P \<circ> f) xs)"
  by (induction xs) auto

lemma upt_positions:
  "[p..<positions t] = [p..<sizearray t] @ map (\<lambda>i. i + sizearray t) [p - sizearray t..<sizenode t]"
proof (cases "p \<le> sizearray t")
  case True
  have "[p..<positions t] = [p..<sizearray t] @ [sizearray t..<positions t]"
    unfolding positions_def by (rule upt_add_eq_append [OF True])
  moreover have "[sizearray t..<positions t] = map (\<lambda>i. i + sizearray t) [0..<sizenode t]"
    using map_add_upt [of "sizearray t" "sizenode t"] by (simp add: positions_def add.commute)
  ultimately show ?thesis using True by simp
next
  case False
  define d where "d = p - sizearray t"
  have p: "p = d + sizearray t" using False by (simp add: d_def)
  have "map (\<lambda>i. i + sizearray t) [d..<sizenode t] = [d + sizearray t..<sizenode t + sizearray t]"
    by (rule nth_equalityI) simp_all
  then show ?thesis unfolding positions_def p by (simp add: add.commute)
qed

lemma first_filled:
  "List.find (filled t) [p..<positions t] = (case next_array t p of Some i \<Rightarrow> Some i
     | None \<Rightarrow> map_option (\<lambda>i. i + sizearray t) (next_hash t (p - sizearray t)))"
proof -
  have "List.find (filled t) [p..<sizearray t] = next_array t p"
    unfolding next_array_find by (rule find_cong) (simp add: entry_at_def)
  moreover have "List.find (filled t \<circ> (\<lambda>i. i + sizearray t)) [p - sizearray t..<sizenode t] = next_hash t (p - sizearray t)"
    unfolding next_hash_find by (rule find_cong) (simp add: entry_at_def)
  ultimately show ?thesis unfolding upt_positions find_append find_map by (simp split: option.split)
qed

lemma next_array_less: "next_array t p = Some i \<Longrightarrow> i < sizearray t"
  unfolding next_array_find by (auto simp: find_Some_iff)

lemma luaH_next_first:
  assumes "findindex hs t k = Inr (int p - 1)"
  shows "\<exists>f. luaH_next hs t k old = Inr (map_option (\<lambda>q. (fst (entry_at t q), snd (entry_at t q), f q))
     (List.find (filled t) [p..<positions t]))"
proof (cases "next_array t p")
  case (Some i)
  have f: "List.find (filled t) [p..<positions t] = Some i" by (simp only: first_filled Some option.case)
  show ?thesis
    unfolding f using assms next_array_less [OF Some] Some
    by (intro exI [of _ "\<lambda>_. luarc_subref k @ rc_setobj old (arr t ! i)"]) (simp add: luaH_next_def entry_at_def)
next
  case None
  have f: "List.find (filled t) [p..<positions t] = map_option (\<lambda>i. i + sizearray t) (next_hash t (p - sizearray t))"
    by (simp only: first_filled None option.case)
  show ?thesis
    unfolding f using assms None
    by (intro exI [of _ "\<lambda>q. rc_setobj k (key_at t (q - sizearray t)) @ rc_setobj old (val_at t (q - sizearray t))"])
      (auto simp: luaH_next_def entry_at_def split: option.split)
qed

lemma findindex_entry:
  assumes ok: "table_ok hs t" and nd: "no_dead t" and q: "q < positions t" "filled t q"
  shows "findindex hs t (fst (entry_at t q)) = Inr (int q)"
proof (cases "q < sizearray t")
  case True
  have "INT_MIN \<le> int q + 1" "int q + 1 \<le> INT_MAX"
    using True table_okD(5) [OF ok] by (simp_all add: INT_MIN_def INT_MAX_def MAXASIZE_def MAXBITS_def)
  then have "arrayindex (fst (entry_at t q)) = int q + 1"
    using True cast_num_arrayindex(1) by (simp add: entry_at_def)
  then show ?thesis using True by (simp add: findindex_def entry_at_def)
next
  case False
  define i where "i = q - sizearray t"
  have l: "live t i" using q False by (simp add: live_def entry_at_def positions_def i_def)
  define K where "K = key_at t i"
  have e: "fst (entry_at t q) = K" using False by (simp add: entry_at_def K_def i_def)
  have rk: "realkey K" using live_has [OF ok l] by (simp add: has_def K_def)
  have na: "\<not> in_array t K" using live_not_array [OF ok l] by (simp add: K_def)
  have m: "mainposition hs t K < sizenode t" by (rule mainposition_less [OF table_okD(2) [OF ok]])
  define P where "P = (\<lambda>k. luaO_rawequalObj k K \<or> (case k of VDeadKey a \<Rightarrow> iscollectable K \<and> gcvalue K = Some a | _ \<Rightarrow> False))"
  have self: "luaO_rawequalObj K K" using rk by (cases K) (auto simp: raweq luai_numeq_def)
  have "walk t P (mainposition hs t K) (sizenode t) = Inr (Some i)"
  proof (rule walk_full [OF table_okD(1) [OF ok] m, of P])
    fix j assume j: "walk t P (mainposition hs t K) (sizenode t) = Inr (Some j)" "j \<in> R t (mainposition hs t K)" "P (key_at t j)"
    have "j < sizenode t" using j(2) reach_less [OF table_okD(1) [OF ok] _ m] by (simp add: R_def)
    then have rq: "luaO_rawequalObj (key_at t j) K" using j(3) nd by (auto simp: P_def no_dead_def split: TValue.splits)
    then have "has t j" using rawequal_realkey [OF rq rk] \<open>j < sizenode t\<close> by (simp add: has_def)
    moreover have "i \<in> R t (mainposition hs t (key_at t i))" by (rule live_reach [OF ok l])
    ultimately have "i = j"
      using has_unique [OF ok live_has [OF ok l], of j] rawequal_sym [of "key_at t j" K] rq j(2) by (simp add: K_def)
    then show ?thesis using j(1) by simp
  next
    assume "\<forall>j \<in> R t (mainposition hs t K). \<not> P (key_at t j)"
    then show ?thesis using live_reach [OF ok l] self by (auto simp: P_def K_def)
  qed
  moreover have "K \<noteq> VNil" using rk by auto
  moreover have "\<not> (0 < arrayindex K \<and> arrayindex K \<le> int (sizearray t))" using na by (auto simp: in_array_def)
  ultimately have "findindex hs t K = Inr (int i + int (sizearray t))"
    unfolding findindex_def Let_def P_def by (simp del: not_less_iff_gr_or_eq)
  then show ?thesis using False unfolding e by (simp add: i_def)
qed

text \<open>Calling \<open>luaH_next\<close> until it says there are no more elements.\<close>

fun traverse :: "(addr \<Rightarrow> u32) \<Rightarrow> Table \<Rightarrow> nat \<Rightarrow> TValue \<Rightarrow> TValue \<Rightarrow> lua_err + (TValue \<times> TValue) list" where
  "traverse hs t 0 k old = Inl (UB ''traverse'')"
| "traverse hs t (Suc n) k old = bindE (luaH_next hs t k old) (\<lambda>r. case r of
     None \<Rightarrow> Inr []
   | Some (k, v, _) \<Rightarrow> bindE (traverse hs t n k v) (\<lambda>es. Inr ((k, v) # es)))"

lemma find_filter:
  "(case List.find P [p..<n] of None \<Rightarrow> filter P [p..<n] = []
     | Some q \<Rightarrow> p \<le> q \<and> q < n \<and> P q \<and> filter P [p..<n] = q # filter P [Suc q..<n])"
proof (induction "n - p" arbitrary: p)
  case (Suc d)
  then have "p < n" "d = n - Suc p" by auto
  from Suc.hyps(1) [OF this(2)] this(1) show ?case
    by (subst find_upt_step) (auto simp: upt_rec [of p] split: option.splits)
qed simp

lemma traverse_from:
  assumes ok: "table_ok hs t" and nd: "no_dead t"
    and "findindex hs t k = Inr (int p - 1)" "length (filter (filled t) [p..<positions t]) < n"
  shows "traverse hs t n k old = Inr (map (entry_at t) (filter (filled t) [p..<positions t]))"
  using assms(3,4)
proof (induction n arbitrary: k p old)
  case (Suc n)
  obtain f where f: "luaH_next hs t k old = Inr (map_option (\<lambda>q. (fst (entry_at t q), snd (entry_at t q), f q))
     (List.find (filled t) [p..<positions t]))" using luaH_next_first [OF Suc.prems(1)] by blast
  note ff = find_filter [of "filled t" p "positions t"]
  show ?case
  proof (cases "List.find (filled t) [p..<positions t]")
    case None
    then show ?thesis using f ff by simp
  next
    case (Some q)
    then have q: "q < positions t" "filled t q" "filter (filled t) [p..<positions t] = q # filter (filled t) [Suc q..<positions t]"
      using ff by auto
    have "findindex hs t (fst (entry_at t q)) = Inr (int (Suc q) - 1)" using findindex_entry [OF ok nd q(1,2)] by simp
    from Suc.IH [OF this] Suc.prems(2) q(3) f Some show ?thesis by simp
  qed
qed simp

lemma elements_filled: "length (filter (filled t) [0..<positions t]) = elements t"
proof -
  have 1: "length (filter (filled t) [0..<sizearray t]) = slice_need t 0"
    unfolding slice_need_def length_filter_conv_card
    by (rule arg_cong [where f = card]) (auto simp: entry_at_def)
  have 2: "length (filter (filled t) (map (\<lambda>i. i + sizearray t) [0..<sizenode t])) = card {j. j < sizenode t \<and> live t j}"
    unfolding filter_map length_map length_filter_conv_card
    by (rule arg_cong [where f = card]) (auto simp: entry_at_def live_def)
  have "[0..<positions t] = [0..<sizearray t] @ map (\<lambda>i. i + sizearray t) [0..<sizenode t]"
    using upt_positions [of 0 t] by simp
  then show ?thesis using 1 2 by (simp add: elements_def)
qed

lemma content_entry:
  assumes ok: "table_ok hs t" and rk: "realkey k" and v: "v \<noteq> VNil"
  shows "content t k = v \<longleftrightarrow> (\<exists>q < positions t. filled t q \<and> luaO_rawequalObj (fst (entry_at t q)) k \<and> snd (entry_at t q) = v)"
proof
  assume c: "content t k = v"
  show "\<exists>q < positions t. filled t q \<and> luaO_rawequalObj (fst (entry_at t q)) k \<and> snd (entry_at t q) = v"
  proof (cases "in_array t k")
    case True
    define q where "q = nat (arrayindex k - 1)"
    have i: "1 \<le> arrayindex k" "arrayindex k \<le> int (sizearray t)" using True by (auto simp: in_array_def)
    have q: "q < sizearray t" "int q + 1 = arrayindex k" using i by (auto simp: q_def)
    have r: "INT_MIN \<le> int q + 1" "int q + 1 \<le> INT_MAX"
      using q(1) table_okD(5) [OF ok] by (simp_all add: INT_MIN_def INT_MAX_def MAXASIZE_def MAXBITS_def)
    have "luaO_rawequalObj (VNumber (cast_num (int q + 1))) k"
      by (rule arrayindex_inj) (use cast_num_arrayindex(1) [OF r] q(2) i in auto)
    then show ?thesis
      using c q(1) v True by (intro exI [of _ q]) (simp add: entry_at_def positions_def content_array q_def)
  next
    case False
    then obtain i where "live t i" "luaO_rawequalObj (key_at t i) k"
      using content_no_live [OF False] c v by blast
    with content_live [OF ok this] c v show ?thesis
      by (intro exI [of _ "i + sizearray t"]) (auto simp: entry_at_def positions_def live_def)
  qed
next
  assume "\<exists>q < positions t. filled t q \<and> luaO_rawequalObj (fst (entry_at t q)) k \<and> snd (entry_at t q) = v"
  then obtain q where q: "q < positions t" "filled t q" "luaO_rawequalObj (fst (entry_at t q)) k" "snd (entry_at t q) = v" by blast
  show "content t k = v"
  proof (cases "q < sizearray t")
    case True
    have r: "INT_MIN \<le> int q + 1" "int q + 1 \<le> INT_MAX"
      using True table_okD(5) [OF ok] by (simp_all add: INT_MIN_def INT_MAX_def MAXASIZE_def MAXBITS_def)
    have "arrayindex k = int q + 1"
      using arrayindex_rawequal [OF q(3)] cast_num_arrayindex(1) [OF r] True by (simp add: entry_at_def)
    then show ?thesis using True q(4) by (simp add: content_def in_array_def entry_at_def)
  next
    case False
    then have "live t (q - sizearray t)" "luaO_rawequalObj (key_at t (q - sizearray t)) k"
      using q by (auto simp: live_def entry_at_def positions_def)
    from content_live [OF ok this] show ?thesis using False q(4) by (simp add: entry_at_def)
  qed
qed

text \<open>
  C23. Traversal. On a table that satisfies the invariant and has no dead keys, calling \<open>luaH_next\<close>
  from nil and then from each key it gives ends after one call more than the table has elements
  (no call raises "invalid key to 'next'"), and the pairs it gives are exactly the elements: a
  non-nil value is listed with a key equal to \<open>k\<close> if and only if it is what \<open>luaH_get\<close> reads at \<open>k\<close>.
\<close>

theorem next_traversal:
  assumes "table_ok hs t" "no_dead t"
  shows "\<exists>es. traverse hs t (Suc (elements t)) VNil old = Inr es \<and> length es = elements t \<and>
    (\<forall>k v. realkey k \<longrightarrow> v \<noteq> VNil \<longrightarrow>
       (rawget hs t k = Inr v \<longleftrightarrow> (\<exists>k'. (k', v) \<in> set es \<and> luaO_rawequalObj k' k)))"
proof (intro exI conjI allI impI)
  let ?es = "map (entry_at t) (filter (filled t) [0..<positions t])"
  have "findindex hs t VNil = Inr (int 0 - 1)" by (simp add: findindex_def)
  show "traverse hs t (Suc (elements t)) VNil old = Inr ?es"
    by (rule traverse_from [OF assms \<open>findindex hs t VNil = Inr (int 0 - 1)\<close>]) (simp add: elements_filled)
  show "length ?es = elements t" by (simp add: elements_filled)
  fix k v assume k: "realkey k" "v \<noteq> VNil"
  have "(\<exists>k'. (k', v) \<in> set ?es \<and> luaO_rawequalObj k' k) \<longleftrightarrow>
      (\<exists>q < positions t. filled t q \<and> luaO_rawequalObj (fst (entry_at t q)) k \<and> snd (entry_at t q) = v)"
    by (auto simp: image_iff) (metis fst_conv prod.collapse snd_conv)+
  then show "rawget hs t k = Inr v \<longleftrightarrow> (\<exists>k'. (k', v) \<in> set ?es \<and> luaO_rawequalObj k' k)"
    using content_entry [OF assms(1) k] rawget_content [OF assms(1) k(1)] by simp
qed

definition one_element :: Table where
  "one_element = \<lparr>arr = [VBoolean 1, VNil], sizearray = 2, node = [dummynode], is_dummy = True, lsizenode = 0,
     lastfree = 0, flags = 255, resizecount = 0\<rparr>"

lemma one_element_ok: "table_ok hs one_element" "no_dead one_element" "elements one_element = 1"
proof -
  note f = fresh_nodes_ok [where t = one_element]
  have g: "gnode one_element i = \<lparr>gval = VNil, gkey = VNil, gnext = None\<rparr>" if "i < sizenode one_element" for i
    using that by (simp add: one_element_def gnode_def sizenode_def dummynode_def)
  show ok: "table_ok hs one_element"
    by (rule f(1) [OF g]) (simp_all add: one_element_def sizenode_def MAXASIZE_def MAXBITS_def)
  show "no_dead one_element" using g by (simp add: no_dead_def)
  have "{j. 0 \<le> j \<and> j < sizearray one_element \<and> arr one_element ! j \<noteq> VNil} = {0}"
    by (auto simp: one_element_def less_2_cases_iff nth_Cons')
  moreover have "{j. j < sizenode one_element \<and> live one_element j} = {}" using g by (auto simp: live_def)
  ultimately show "elements one_element = 1" by (simp only: elements_def slice_need_def card.empty card_1_singleton_iff) simp
qed

theorem next_traversal_witness:
  "\<exists>es. traverse (\<lambda>_. 7) one_element 2 VNil VNil = Inr es \<and> length es = 1"
proof -
  have "Suc (elements one_element) = 2" by (simp add: one_element_ok(3))
  then show ?thesis
    using next_traversal [where hs = "\<lambda>_. 7" and old = VNil, OF one_element_ok(1,2)] one_element_ok(3) by metis
qed

section \<open>The border\<close>

definition item :: "Table \<Rightarrow> nat \<Rightarrow> TValue" where
  "item t j = content t (VNumber (cast_num (int j)))"

lemma num_value_item:
  assumes "table_ok hs t" "j < 2 ^ 31"
  shows "num_value t j = Inr (item t j)" "rawget hs t (VNumber (cast_num (int j))) = Inr (item t j)"
proof -
  have r: "INT_MIN \<le> int j" "int j \<le> INT_MAX" using assms(2) by (simp_all add: INT_MIN_def INT_MAX_def)
  show g: "rawget hs t (VNumber (cast_num (int j))) = Inr (item t j)"
    using rawget_content [OF assms(1) cast_num_arrayindex(2) [OF r]] by (simp add: item_def)
  then show "num_value t j = Inr (item t j)" by (simp add: num_value_def rawget_def getnum_get [OF r, of t hs])
qed

definition present :: "(nat \<Rightarrow> TValue) \<Rightarrow> nat \<Rightarrow> bool" where
  "present f m = (m = 0 \<or> f m \<noteq> VNil)"

definition border :: "(nat \<Rightarrow> TValue) \<Rightarrow> nat \<Rightarrow> bool" where
  "border f n = (present f n \<and> f (n + 1) = VNil)"

lemma binary_search_border:
  assumes "\<And>m. i < m \<Longrightarrow> m < j \<Longrightarrow> val m = Inr (f m)" "i < j" "present f i" "f j = VNil"
  shows "\<exists>n. binary_search val i j = Inr n \<and> border f n \<and> n < j"
  using assms
proof (induction val i j rule: binary_search.induct)
  case (1 val i j)
  show ?case
  proof (cases "j - i > 1")
    case False
    then have "j = i + 1" using "1.prems"(2) by simp
    then show ?thesis using "1.prems" by (subst binary_search.simps) (simp add: border_def)
  next
    case True
    define m where "m = (i + j) div 2"
    have m: "i < m" "m < j" using True by (auto simp: m_def)
    have v: "val m = Inr (f m)" using "1.prems"(1) m by simp
    show ?thesis
    proof (cases "f m = VNil")
      case nil: True
      have "\<exists>n. binary_search val i m = Inr n \<and> border f n \<and> n < m"
        by (rule "1.IH"(1) [OF True m_def]) (use "1.prems" m nil in auto)
      then show ?thesis using True v nil m by (subst binary_search.simps) (auto simp: m_def [symmetric] Let_def)
    next
      case nn: False
      have "\<exists>n. binary_search val m j = Inr n \<and> border f n \<and> n < j"
        by (rule "1.IH"(2) [OF True m_def]) (use "1.prems" m nn in \<open>auto simp: present_def\<close>)
      then show ?thesis using True v nn by (subst binary_search.simps) (simp add: m_def [symmetric] Let_def)
    qed
  qed
qed

lemma linear_search_border:
  assumes "table_ok hs t" "i \<le> k" "k < 2 ^ 31" "item t k = VNil" "0 < i" "present (item t) (i - 1)"
  shows "\<exists>n. linear_search t i = Inr n \<and> border (item t) n \<and> n < k"
  using assms(2-)
proof (induction "k - i" arbitrary: i)
  case 0
  then have "i = k" by simp
  then show ?case
    using 0 num_value_item(1) [OF assms(1), of k] by (subst linear_search.simps) (simp add: border_def)
next
  case (Suc d)
  have i: "i < 2 ^ 31" "i < k" using Suc by simp_all
  note v = num_value_item(1) [OF assms(1) i(1)]
  show ?case
  proof (cases "item t i = VNil")
    case True
    then show ?thesis using i v Suc.prems by (subst linear_search.simps) (auto simp: border_def)
  next
    case False
    have "\<exists>n. linear_search t (i + 1) = Inr n \<and> border (item t) n \<and> n < k"
      by (rule Suc.hyps(1)) (use Suc.hyps(2) Suc.prems i False in \<open>auto simp: present_def\<close>)
    then show ?thesis using False v i by (subst linear_search.simps) simp
  qed
qed

text \<open>A table does not hold all positive \<open>int\<close> keys.\<close>

lemma some_nil:
  assumes ok: "table_ok hs t"
  obtains k where "0 < k" "k < 2 ^ 31" "item t k = VNil"
proof (rule ccontr)
  note that [intro]
  assume "\<not> thesis"
  then have all: "item t k \<noteq> VNil" if "0 < k" "k < 2 ^ 31" for k using that by blast
  have "\<exists>q < positions t. luaO_rawequalObj (fst (entry_at t q)) (VNumber (cast_num (int k)))" if "k \<in> {1..<2 ^ 31}" for k
  proof -
    have r: "INT_MIN \<le> int k" "int k \<le> INT_MAX" using that by (simp_all add: INT_MIN_def INT_MAX_def)
    show ?thesis
      using content_entry [OF ok cast_num_arrayindex(2) [OF r], of "item t k"] all [of k] that by (auto simp: item_def)
  qed
  then obtain pos where pos: "\<And>k. k \<in> {1..<2 ^ 31} \<Longrightarrow> pos k < positions t"
    "\<And>k. k \<in> {1..<2 ^ 31} \<Longrightarrow> luaO_rawequalObj (fst (entry_at t (pos k))) (VNumber (cast_num (int k)))" by metis
  have ai: "arrayindex (fst (entry_at t (pos k))) = int k" if "k \<in> {1..<2 ^ 31}" for k
  proof -
    have r: "INT_MIN \<le> int k" "int k \<le> INT_MAX" using that by (simp_all add: INT_MIN_def INT_MAX_def)
    show ?thesis using arrayindex_rawequal [OF pos(2) [OF that]] cast_num_arrayindex(1) [OF r] by simp
  qed
  have "inj_on pos {1..<2 ^ 31}" by (rule inj_onI) (use ai in \<open>metis of_nat_eq_iff\<close>)
  then have "card {1..<2 ^ 31 :: nat} \<le> card {..<positions t}"
    by (rule card_inj_on_le) (use pos(1) in auto)
  moreover have "positions t \<le> 2 ^ 26 + 2 ^ 26"
  proof -
    have "sizenode t \<le> 2 ^ MAXBITS"
      unfolding sizenode_def by (rule power_increasing) (use table_okD(2) [OF ok] in auto)
    then show ?thesis using table_okD(5) [OF ok] by (simp add: positions_def MAXASIZE_def MAXBITS_def)
  qed
  ultimately show False by simp
qed

lemma unbound_loop_border:
  assumes ok: "table_ok hs t" and "present (item t) i" "i < j" "0 < j" "int j \<le> MAX_INT"
  shows "\<exists>n. unbound_loop t i j = Inr n \<and> border (item t) n \<and> n + 1 < 2 ^ 31"
  using assms(2-)
proof (induction "2 ^ 31 - j" arbitrary: i j rule: less_induct)
  case less
  have j: "j < 2 ^ 31" using less.prems(4) by (simp add: MAX_INT_def INT_MAX_def)
  note v = num_value_item(1) [OF ok j]
  show ?case
  proof (cases "item t j = VNil")
    case True
    have "\<exists>n. binary_search (num_value t) i j = Inr n \<and> border (item t) n \<and> n < j"
      by (rule binary_search_border) (use less.prems True j num_value_item(1) [OF ok] in auto)
    then show ?thesis using v True j less.prems(3) by (subst unbound_loop.simps) auto
  next
    case False
    show ?thesis
    proof (cases "j * 2 > nat MAX_INT")
      case True
      obtain k where k: "0 < k" "k < 2 ^ 31" "item t k = VNil" by (rule some_nil [OF ok])
      have "\<exists>n. linear_search t 1 = Inr n \<and> border (item t) n \<and> n < k"
        by (rule linear_search_border [OF ok]) (use k in \<open>simp_all add: present_def\<close>)
      then show ?thesis using v False True j k(2) less.prems(3) by (subst unbound_loop.simps) auto
    next
      case small: False
      have "\<exists>n. unbound_loop t j (j * 2) = Inr n \<and> border (item t) n \<and> n + 1 < 2 ^ 31"
        by (rule less.hyps) (use small False less.prems(3) j in \<open>auto simp: present_def\<close>)
      then show ?thesis using v False small j less.prems(3) by (subst unbound_loop.simps) simp
    qed
  qed
qed

lemma item_array: "j < sizearray t \<Longrightarrow> table_ok hs t \<Longrightarrow> item t (Suc j) = arr t ! j"
proof -
  assume a: "j < sizearray t" "table_ok hs t"
  have r: "INT_MIN \<le> int (Suc j)" "int (Suc j) \<le> INT_MAX"
    using a(1) table_okD(5) [OF a(2)] by (simp_all add: INT_MIN_def INT_MAX_def MAXASIZE_def MAXBITS_def)
  show ?thesis
    using cast_num_arrayindex(1) [OF r] a(1) unfolding item_def content_def in_array_def by simp
qed

lemma item_dummy:
  assumes "table_ok hs t" "is_dummy t" "sizearray t \<le> j" "j < 2 ^ 31 - 1"
  shows "item t (Suc j) = VNil"
proof -
  have r: "INT_MIN \<le> int (Suc j)" "int (Suc j) \<le> INT_MAX" using assms(4) by (simp_all add: INT_MIN_def INT_MAX_def)
  show ?thesis
    unfolding item_def
    by (rule content_no_live)
      (use cast_num_arrayindex(1) [OF r] assms(3) dummy_no_has [OF assms(1,2)] live_has [OF assms(1)] in \<open>auto simp: in_array_def\<close>)
qed

lemma luaH_getn_border:
  assumes ok: "table_ok hs t"
  shows "\<exists>n. luaH_getn t = Inr n \<and> border (item t) n \<and> n + 1 < 2 ^ 31"
proof -
  define j where "j = sizearray t"
  have jl: "j \<le> 2 ^ 26" using table_okD(5) [OF ok] by (simp add: j_def MAXASIZE_def MAXBITS_def)
  have last: "item t j = arr t ! (j - 1)" if "0 < j" using item_array [OF _ ok, of "j - 1"] that by (simp add: j_def)
  show ?thesis
  proof (cases "j > 0 \<and> arr t ! (j - 1) = VNil")
    case True
    have "\<exists>n. binary_search (\<lambda>m. Inr (arr t ! (m - 1))) 0 j = Inr n \<and> border (item t) n \<and> n < j"
    proof (rule binary_search_border)
      show "Inr (arr t ! (m - 1)) = Inr (item t m)" if "0 < m" "m < j" for m
        using item_array [OF _ ok, of "m - 1"] that by (simp add: j_def)
    qed (use True last in \<open>simp_all add: present_def\<close>)
    then show ?thesis using True jl by (auto simp: luaH_getn_def j_def [symmetric])
  next
    case False
    then have p: "present (item t) j" using last by (auto simp: present_def)
    show ?thesis
    proof (cases "is_dummy t")
      case True
      have "item t (Suc j) = VNil" by (rule item_dummy [OF ok True]) (use jl in \<open>simp_all add: j_def\<close>)
      then show ?thesis using False True p jl by (auto simp: luaH_getn_def j_def [symmetric] border_def)
    next
      case nd: False
      have "\<exists>n. unbound_loop t j (j + 1) = Inr n \<and> border (item t) n \<and> n + 1 < 2 ^ 31"
        by (rule unbound_loop_border [OF ok p]) (use jl in \<open>simp_all add: MAX_INT_def INT_MAX_def\<close>)
      then show ?thesis using False nd by (auto simp: luaH_getn_def j_def [symmetric] unbound_search_def)
    qed
  qed
qed

text \<open>
  C24. The length of a table. On every table that satisfies the invariant \<open>luaH_getn\<close> returns, through
  the binary search of the array part, the doubling and binary search of the hash part or its
  linear search, and the result is a border as the comment in the source defines it: \<open>t[n]\<close> is not
  nil (or \<open>n\<close> is 0) and \<open>t[n+1]\<close> is nil.
\<close>

theorem getn_border:
  assumes "table_ok hs t"
  shows "\<exists>n v. luaH_getn t = Inr n \<and> (n = 0 \<or> v \<noteq> VNil) \<and> rawget hs t (VNumber (cast_num (int n))) = Inr v \<and>
    rawget hs t (VNumber (cast_num (int n + 1))) = Inr VNil"
proof -
  obtain n where n: "luaH_getn t = Inr n" "border (item t) n" "n + 1 < 2 ^ 31" using luaH_getn_border [OF assms] by blast
  then show ?thesis
    using num_value_item(2) [OF assms, of n] num_value_item(2) [OF assms, of "n + 1"]
    by (auto simp: border_def present_def add.commute)
qed

theorem getn_border_witness:
  "\<exists>n. luaH_getn one_element = Inr n \<and> rawget (\<lambda>_. 7) one_element (VNumber (cast_num (int n + 1))) = Inr VNil"
  using getn_border [where hs = "\<lambda>_. 7", OF one_element_ok(1)] by blast

section \<open>A reference resizing loses\<close>

text \<open>The table \<open>luaH_new(0, 0)\<close> makes, as \<open>luaH_set\<close> passes it on, and one with a single node.\<close>

definition fresh :: "int \<Rightarrow> Table" where
  "fresh l = \<lparr>arr = [], sizearray = 0, node = [dummynode], is_dummy = True, lsizenode = 0, lastfree = l, flags = 0, resizecount = 0\<rparr>"

definition one_node :: "TValue \<Rightarrow> nat \<Rightarrow> Table" where
  "one_node k n = \<lparr>arr = [], sizearray = 0, node = [\<lparr>gval = VNil, gkey = k, gnext = None\<rparr>], is_dummy = False,
     lsizenode = 0, lastfree = 1, flags = 0, resizecount = n\<rparr>"

lemma fresh_rehash: "rehash hs new (fresh l) (VString s) = Inr (one_node VNil 1, [])"
proof -
  have a: "numusearray (fresh l) (replicate (MAXBITS + 1) 0) = (replicate (MAXBITS + 1) 0, 0)" by code_simp
  have h: "numusehash (fresh l) (replicate (MAXBITS + 1) 0) = (replicate (MAXBITS + 1) 0, 0, 0)" by code_simp
  have c: "countint (VString s) nums = (nums, 0)" for nums by (simp add: countint_def arrayindex_def)
  have z: "computesizes (replicate (MAXBITS + 1) 0) 0 = (0, 0)" by code_simp
  have n: "setnodevector (fresh l) 1 = Inr (one_node VNil 0)" by code_simp
  have "resize hs new (fresh l) 0 1 = Inr (one_node VNil 1, [])"
    by (simp add: resize_def n Let_def) (simp add: fresh_def dummynode_def one_node_def)
  then show ?thesis unfolding rehash_def Let_def a h c prod.case add_0 by (simp only: z prod.case) simp
qed

lemma one_node_simps [simp]:
  "lsizenode (one_node k m) = 0" "node (one_node k m) = [\<lparr>gval = VNil, gkey = k, gnext = None\<rparr>]"
  "\<not> is_dummy (one_node k m)" "sizearray (one_node k m) = 0" "sizenode (one_node k m) = 1" "(one_node k m)\<lparr>flags := 0\<rparr> = one_node k m"
  by (simp_all add: one_node_def sizenode_def)

lemma single_hash: "lsizenode t = 0 \<Longrightarrow> hashpow2 t n = 0"
  using hashpow2_less [of t n] by (simp add: MAXBITS_def sizenode_def)

lemma single_get:
  assumes "node t = [\<lparr>gval = VNil, gkey = VNil, gnext = None\<rparr>]" "lsizenode t = 0"
  shows "luaH_get hs t (VString s) = Inr Nilobject"
  using assms single_hash [OF assms(2), of "hs s"]
  by (simp add: luaH_get_def luaH_getstr_def walk_slot_def sizenode_def gnode_def)

lemma one_node_set: "set_with hs (newkey 0 hs) (one_node VNil 1) (VString s) = Inr (In_node 0, one_node (VString s) 1, [Inc s])"
proof -
  have m: "mainposition hs (one_node VNil 1) (VString s) = 0" by (simp add: single_hash)
  have n: "newkey 0 hs (one_node VNil 1) (VString s) = Inr (In_node 0, one_node (VString s) 1, [Inc s])"
    unfolding newkey.simps newkey_step_def m Let_def
    by (simp add: put_key_def gnode_def) (simp add: one_node_def set_node_def luarc_addref_def luarc_subref_def)
  show ?thesis unfolding set_with_def by (simp add: single_get n del: newkey.simps One_nat_def)
qed

lemma newkey_step_full: "is_dummy t \<Longrightarrow> getfreepos t = (None, t') \<Longrightarrow> newkey_step hs grow t k = grow t' k"
  by (simp add: newkey_step_def Let_def)

lemma fresh_set: "luaH_set hs ((fresh l)\<lparr>flags := f\<rparr>) (VString s) = Inr (In_node 0, one_node (VString s) 1, [Inc s])" if "l \<le> 0"
proof -
  have f: "getfreepos (fresh l) = (None, fresh (l - 1))" using that by (simp add: getfreepos.simps fresh_def)
  have g: "luaH_get hs ((fresh l)\<lparr>flags := f\<rparr>) (VString s) = Inr Nilobject" by (rule single_get) (simp_all add: fresh_def dummynode_def)
  have e: "(fresh l)\<lparr>flags := f, flags := 0\<rparr> = fresh l" "is_dummy (fresh l)" by (simp_all add: fresh_def)
  have n: "newkey 1 hs (fresh l) (VString s) = Inr (In_node 0, one_node (VString s) 1, [Inc s])"
    unfolding One_nat_def newkey.simps(2) newkey_step_full [OF e(2) f] fresh_rehash bindE_simps prod.case
    by (simp add: one_node_set [unfolded One_nat_def] del: newkey.simps)
  show ?thesis unfolding luaH_set_def set_with_def g Let_def bindE_simps e(1) using n by simp
qed

lemma one_node_resize: "luaH_resizearray hs (one_node k m) 0 = Inr (one_node VNil (Suc m), [])"
proof -
  have n: "setnodevector (one_node k m) 1 = Inr (one_node VNil m)"
    by (simp add: setnodevector_def one_node_def ceillog2_def luaO_log2_def luaO_log2_loop.simps log_2_def MAXBITS_def)
  show ?thesis
    by (simp add: luaH_resizearray_def resize_def n Let_def) (simp add: one_node_def release_nodes_def)
qed

text \<open>
  C25. A string used as a key and set to nil. A fresh table gets the key \<open>s\<close> by \<open>luaH_set\<close>, which counts one reference
  for it; a value \<open>v\<close> is stored and then nil over it; then the table is resized. The key is gone from the table,
  and neither \<open>luaH_set\<close> nor the resizing performed a decrement for it: whatever the string, its hash and the
  value, its count stays one too high.
\<close>

theorem resize_leaks_key:
  "\<exists>t0 p t1 r1 t2. luaH_new 0 0 = Inr t0 \<and> luaH_set hs t0 (VString s) = Inr (p, t1, r1) \<and>
     slot_value (store t1 p v) p = v \<and> luaH_resizearray hs (store (store t1 p v) p VNil) 0 = Inr (t2, []) \<and>
     count_list r1 (Inc s) = 1 \<and> count_list r1 (Dec s) = 0 \<and>
     sizearray t2 = 0 \<and> (\<forall>i < sizenode t2. key_at t2 i = VNil)"
proof -
  have new: "luaH_new 0 0 = Inr ((fresh 0)\<lparr>flags := 255\<rparr>)" by code_simp
  have st: "slot_value (store (one_node (VString s) 1) (In_node 0) v) (In_node 0) = v"
    "store (store (one_node (VString s) 1) (In_node 0) v) (In_node 0) VNil = one_node (VString s) 1"
    by (simp_all add: store_def slot_value_def set_node_def gnode_def one_node_def)
  show ?thesis
    by (intro exI conjI, rule new, rule fresh_set, simp, rule st, simp only: st, rule one_node_resize)
      (simp_all add: gnode_def)
qed

theorem resize_leaks_key_witness:
  "\<exists>t0 p t1 r1 t2. luaH_new 0 0 = Inr t0 \<and> luaH_set (\<lambda>_. 7) t0 (VString 5) = Inr (p, t1, r1) \<and>
     luaH_resizearray (\<lambda>_. 7) (store (store t1 p (VBoolean 1)) p VNil) 0 = Inr (t2, []) \<and>
     count_list r1 (Inc 5) = 1 \<and> count_list r1 (Dec 5) = 0"
  using resize_leaks_key [of "\<lambda>_. 7" 5 "VBoolean 1"] by blast

end
