(* ===== verification/Lua_Lex.thy ===== *)
theory Lua_Lex
  imports Lua_Zio Lua_Object
begin

text \<open>
  The lexical analyser (\<^verbatim>\<open>llex.c\<close>) and \<open>luaO_str2d\<close> (\<^verbatim>\<open>lobject.c\<close>).

  The input is the list of characters the stream has still to deliver; \<open>at_end\<close> says that \<open>EOZ\<close>
  was delivered, after which another \<open>zgetc\<close> would read outside its block (\<open>zgetc_once_at_end\<close>
  of \<^verbatim>\<open>Lua_Zio\<close>) and is undefined here.  An interned string is its content, so the reserved byte
  of a \<open>TString\<close> is a function of it; \<open>anchored\<close> are the entries \<open>luaX_newstring\<close> makes in
  \<open>fs->h\<close>.  \<open>strtod\<close>, \<open>strtoul\<close>, the conversion of its result and the locale's decimal point are
  parameters (\<open>clib\<close>).  A loop is given as many steps as there are characters left.  Memory
  failure is not modelled.
\<close>

section \<open>Numbers\<close>

record clib =
  strtod :: "string \<Rightarrow> lua_Number \<times> nat"
  strtoul16 :: "string \<Rightarrow> u64 \<times> nat"
  ulong_to_double :: "u64 \<Rightarrow> lua_Number"
  decimal_point :: "char option"

fun skip_isspace :: "string \<Rightarrow> nat" where
  "skip_isspace [] = 0"
| "skip_isspace (c # s) = (if isspace (uchar c) then 1 + skip_isspace s else 0)"

definition luaO_str2d :: "clib \<Rightarrow> string \<Rightarrow> lua_Number option" where
  "luaO_str2d C s =
     (let (r, e) = strtod C s in
      if e = 0 then None
      else
        let (r, e) = (if cstr_at s e = CHR ''x'' \<or> cstr_at s e = CHR ''X''
                      then (ulong_to_double C (fst (strtoul16 C s)), snd (strtoul16 C s)) else (r, e)) in
        if cstr_at s e = CHR 0x00 then Some r
        else let e = e + skip_isspace (drop e s) in
          if cstr_at s e \<noteq> CHR 0x00 then None else Some r)"

section \<open>Tokens\<close>

definition FIRST_RESERVED :: int where "FIRST_RESERVED = 257"
definition NUM_RESERVED :: nat where "NUM_RESERVED = 21"

definition luaX_tokens :: "string list" where
  "luaX_tokens = [''and'', ''break'', ''do'', ''else'', ''elseif'', ''end'', ''false'', ''for'', ''function'', ''if'',
     ''in'', ''local'', ''nil'', ''not'', ''or'', ''repeat'', ''return'', ''then'', ''true'', ''until'', ''while'',
     ''..'', ''...'', ''=='', ''>='', ''<='', ''~='', ''<number>'', ''<name>'', ''<string>'', ''<eof>'']"

definition TK_CONCAT :: int where "TK_CONCAT = 278"
definition TK_DOTS :: int where "TK_DOTS = 279"
definition TK_EQ :: int where "TK_EQ = 280"
definition TK_GE :: int where "TK_GE = 281"
definition TK_LE :: int where "TK_LE = 282"
definition TK_NE :: int where "TK_NE = 283"
definition TK_NUMBER :: int where "TK_NUMBER = 284"
definition TK_NAME :: int where "TK_NAME = 285"
definition TK_STRING :: int where "TK_STRING = 286"
definition TK_EOS :: int where "TK_EOS = 287"

lemmas token_defs = FIRST_RESERVED_def TK_CONCAT_def TK_DOTS_def TK_EQ_def TK_GE_def TK_LE_def TK_NE_def
  TK_NUMBER_def TK_NAME_def TK_STRING_def TK_EOS_def

text \<open>\<open>luaX_init\<close> sets the \<open>reserved\<close> byte of the reserved words, counted from 1.\<close>

fun reserved_from :: "nat \<Rightarrow> string list \<Rightarrow> string \<Rightarrow> nat" where
  "reserved_from i [] ts = 0"
| "reserved_from i (w # ws) ts = (if w = ts then i + 1 else reserved_from (i + 1) ws ts)"

definition luaX_init :: "string \<Rightarrow> nat" where
  "luaX_init ts = reserved_from 0 (take NUM_RESERVED luaX_tokens) ts"

text \<open>A token without semantic information leaves the union \<open>SemInfo\<close> as it was.\<close>

datatype SemInfo = Sem_r lua_Number | Sem_ts string

record Token =
  token :: int
  seminfo :: SemInfo

record LexState =
  current :: int
  linenumber :: int
  lastline :: int
  tok :: Token
  lookahead :: Token
  input :: string
  at_end :: bool
  buff :: string
  buffsize :: u64
  source_name :: string
  decpoint :: char
  anchored :: "string list"

definition UCHAR_MAX :: int where "UCHAR_MAX = 255"

section \<open>Errors\<close>

function show_nat :: "nat \<Rightarrow> string" where
  "show_nat n = (if n < 10 then [chr_of (48 + int n)] else show_nat (n div 10) @ [chr_of (48 + int (n mod 10))])"
  by pat_completeness auto
termination by (relation "measure id") auto

declare show_nat.simps [simp del]

definition show_int :: "int \<Rightarrow> string" where
  "show_int i = (if i < 0 then CHR ''-'' # show_nat (nat (- i)) else show_nat (nat i))"

definition cstring :: "string \<Rightarrow> string" where
  "cstring s = takeWhile (\<lambda>c. c \<noteq> CHR 0x00) s"

definition luaX_token2str :: "int \<Rightarrow> string" where
  "luaX_token2str tk =
     (if tk < FIRST_RESERVED then
        (if iscntrl tk then ''char('' @ show_int tk @ '')'' else [chr_of tk])
      else luaX_tokens ! nat (tk - FIRST_RESERVED))"

definition lex_message :: "LexState \<Rightarrow> string \<Rightarrow> string" where
  "lex_message ls msg = luaO_chunkid (source_name ls) 80 @ '':'' @ show_int (linenumber ls) @ '': '' @ msg"

text \<open>\<open>save\<close> raises without a token, so the recursion through \<open>txtToken\<close> has one level.\<close>

definition save :: "LexState \<Rightarrow> int \<Rightarrow> lua_err + LexState" where
  "save ls c =
     (if of_nat (length (buff ls)) + 1 > buffsize ls then
        if buffsize ls \<ge> MAX_SIZET div 2 then Inl (LUA_ERRSYNTAX (lex_message ls ''lexical element too long''))
        else Inr (ls\<lparr>buffsize := buffsize ls * 2, buff := buff ls @ [chr_of c]\<rparr>)
      else Inr (ls\<lparr>buff := buff ls @ [chr_of c]\<rparr>))"

definition txtToken :: "LexState \<Rightarrow> int \<Rightarrow> lua_err + string" where
  "txtToken ls tk =
     (if tk = TK_NAME \<or> tk = TK_STRING \<or> tk = TK_NUMBER
      then bindE (save ls 0) (\<lambda>ls. Inr (cstring (buff ls)))
      else Inr (luaX_token2str tk))"

definition luaX_lexerror :: "LexState \<Rightarrow> string \<Rightarrow> int \<Rightarrow> lua_err + 'a" where
  "luaX_lexerror ls msg tk =
     (if tk \<noteq> 0 then
        bindE (txtToken ls tk) (\<lambda>t. Inl (LUA_ERRSYNTAX (lex_message ls msg @ '' near '' @ [CHR 0x27] @ t @ [CHR 0x27])))
      else Inl (LUA_ERRSYNTAX (lex_message ls msg)))"

definition luaX_syntaxerror :: "LexState \<Rightarrow> string \<Rightarrow> lua_err + 'a" where
  "luaX_syntaxerror ls msg = luaX_lexerror ls msg (token (tok ls))"

section \<open>Reading characters\<close>

definition next_char :: "LexState \<Rightarrow> lua_err + LexState" where
  "next_char ls =
     (if at_end ls then Inl (UB ''zgetc'')
      else case input ls of
          [] \<Rightarrow> Inr (ls\<lparr>current := EOZ, at_end := True\<rparr>)
        | c # s \<Rightarrow> Inr (ls\<lparr>current := uchar c, input := s\<rparr>))"

definition save_and_next :: "LexState \<Rightarrow> lua_err + LexState" where
  "save_and_next ls = bindE (save ls (current ls)) next_char"

definition currIsNewline :: "LexState \<Rightarrow> bool" where
  "currIsNewline ls = (current ls = 10 \<or> current ls = 13)"

definition luaX_newstring :: "LexState \<Rightarrow> string \<Rightarrow> string \<times> LexState" where
  "luaX_newstring ls s = (s, if s \<in> set (anchored ls) then ls else ls\<lparr>anchored := s # anchored ls\<rparr>)"

definition inclinenumber :: "LexState \<Rightarrow> lua_err + LexState" where
  "inclinenumber ls =
     (let old = current ls in
      bindE (next_char ls) (\<lambda>ls.
      bindE (if currIsNewline ls \<and> current ls \<noteq> old then next_char ls else Inr ls) (\<lambda>ls.
        let ls = ls\<lparr>linenumber := linenumber ls + 1\<rparr> in
        if linenumber ls \<ge> MAX_INT then luaX_syntaxerror ls ''chunk has too many lines'' else Inr ls)))"

definition resetbuffer :: "LexState \<Rightarrow> LexState" where
  "resetbuffer ls = ls\<lparr>buff := []\<rparr>"

text \<open>\<open>strchr\<close> converts its argument to a \<open>char\<close> and also finds the terminator of the set.\<close>

definition check_next :: "LexState \<Rightarrow> string \<Rightarrow> lua_err + bool \<times> LexState" where
  "check_next ls cs =
     (if chr_of (current ls) \<notin> set (cs @ [CHR 0x00]) then Inr (False, ls)
      else bindE (save_and_next ls) (\<lambda>ls. Inr (True, ls)))"

definition chars_left :: "LexState \<Rightarrow> nat" where
  "chars_left ls = length (input ls) + (if at_end ls then 0 else 1)"

fun save_while :: "(int \<Rightarrow> bool) \<Rightarrow> nat \<Rightarrow> LexState \<Rightarrow> lua_err + LexState" where
  "save_while P 0 ls = Inl (UB ''fuel'')"
| "save_while P (Suc n) ls = (if P (current ls) then bindE (save_and_next ls) (save_while P n) else Inr ls)"

definition saves :: "(int \<Rightarrow> bool) \<Rightarrow> LexState \<Rightarrow> lua_err + LexState" where
  "saves P ls = save_while P (Suc (chars_left ls)) ls"

section \<open>Numerals\<close>

definition buffreplace :: "LexState \<Rightarrow> char \<Rightarrow> char \<Rightarrow> LexState" where
  "buffreplace ls from to = ls\<lparr>buff := map (\<lambda>c. if c = from then to else c) (buff ls)\<rparr>"

definition trydecpoint :: "clib \<Rightarrow> LexState \<Rightarrow> lua_err + lua_Number \<times> LexState" where
  "trydecpoint C ls =
     (let old = decpoint ls;
          ls = ls\<lparr>decpoint := (case decimal_point C of Some c \<Rightarrow> c | None \<Rightarrow> CHR ''.'')\<rparr>;
          ls = buffreplace ls old (decpoint ls)
      in case luaO_str2d C (cstring (buff ls)) of
           Some r \<Rightarrow> Inr (r, ls)
         | None \<Rightarrow> luaX_lexerror (buffreplace ls (decpoint ls) CHR ''.'') ''malformed number'' TK_NUMBER)"

definition read_numeral :: "clib \<Rightarrow> LexState \<Rightarrow> lua_err + lua_Number \<times> LexState" where
  "read_numeral C ls =
     bindE (save_and_next ls) (\<lambda>ls.
     bindE (saves (\<lambda>c. isdigit c \<or> c = uchar CHR ''.'') ls) (\<lambda>ls.
     bindE (check_next ls ''Ee'') (\<lambda>(b, ls).
     bindE (if b then bindE (check_next ls ''+-'') (\<lambda>(_, ls). Inr ls) else Inr ls) (\<lambda>ls.
     bindE (saves (\<lambda>c. isalnum c \<or> c = uchar CHR ''_'') ls) (\<lambda>ls.
     bindE (save ls 0) (\<lambda>ls.
       let ls = buffreplace ls CHR ''.'' (decpoint ls) in
       case luaO_str2d C (cstring (buff ls)) of Some r \<Rightarrow> Inr (r, ls) | None \<Rightarrow> trydecpoint C ls))))))"

section \<open>Strings and comments\<close>

text \<open>The \<open>=\<close> signs of a long bracket, counted.\<close>

fun count_equals :: "nat \<Rightarrow> int \<Rightarrow> LexState \<Rightarrow> lua_err + int \<times> LexState" where
  "count_equals 0 count ls = Inl (UB ''fuel'')"
| "count_equals (Suc n) count ls =
     (if current ls = uchar CHR ''='' then bindE (save_and_next ls) (count_equals n (count + 1)) else Inr (count, ls))"

definition skip_sep :: "LexState \<Rightarrow> lua_err + int \<times> LexState" where
  "skip_sep ls =
     (let s = current ls in
      bindE (save_and_next ls) (\<lambda>ls.
      bindE (count_equals (Suc (chars_left ls)) 0 ls) (\<lambda>(count, ls).
        Inr (if current ls = s then count else - count - 1, ls))))"

text \<open>\<open>str\<close> says that the text is wanted (\<open>seminfo\<close> is not NULL).\<close>

fun long_string_loop :: "bool \<Rightarrow> int \<Rightarrow> nat \<Rightarrow> LexState \<Rightarrow> lua_err + LexState" where
  "long_string_loop str sep 0 ls = Inl (UB ''fuel'')"
| "long_string_loop str sep (Suc n) ls =
     (if current ls = EOZ then
        luaX_lexerror ls (if str then ''unfinished long string'' else ''unfinished long comment'') TK_EOS
      else if current ls = uchar CHR ''['' then
        bindE (skip_sep ls) (\<lambda>(k, ls).
          if k = sep then
            bindE (save_and_next ls) (\<lambda>ls.
              if sep = 0 then luaX_lexerror ls ''nesting of [[...]] is deprecated'' (uchar CHR ''['')
              else long_string_loop str sep n ls)
          else long_string_loop str sep n ls)
      else if current ls = uchar CHR '']'' then
        bindE (skip_sep ls) (\<lambda>(k, ls).
          if k = sep then save_and_next ls else long_string_loop str sep n ls)
      else if currIsNewline ls then
        bindE (save ls 10) (\<lambda>ls. bindE (inclinenumber ls) (\<lambda>ls.
          long_string_loop str sep n (if \<not> str then resetbuffer ls else ls)))
      else bindE (if str then save_and_next ls else next_char ls) (long_string_loop str sep n))"

definition read_long_string :: "bool \<Rightarrow> LexState \<Rightarrow> int \<Rightarrow> lua_err + string \<times> LexState" where
  "read_long_string str ls sep =
     bindE (save_and_next ls) (\<lambda>ls.
     bindE (if currIsNewline ls then inclinenumber ls else Inr ls) (\<lambda>ls.
     bindE (long_string_loop str sep (Suc (chars_left ls)) ls) (\<lambda>ls.
       Inr (if str then luaX_newstring ls (take (length (buff ls) - nat (2 * (2 + sep))) (drop (nat (2 + sep)) (buff ls)))
            else ([], ls)))))"

text \<open>The digits of an escape sequence: at most \<open>k\<close> more.\<close>

fun escape_digits :: "nat \<Rightarrow> int \<Rightarrow> LexState \<Rightarrow> lua_err + int \<times> LexState" where
  "escape_digits 0 c ls = Inr (c, ls)"
| "escape_digits (Suc k) c ls =
     (if isdigit (current ls)
      then let c = 10 * c + (current ls - uchar CHR ''0'') in bindE (next_char ls) (escape_digits k c)
      else Inr (c, ls))"

definition simple_escape :: "int \<Rightarrow> int option" where
  "simple_escape c =
     (if c = uchar CHR ''a'' then Some 7 else if c = uchar CHR ''b'' then Some 8 else if c = uchar CHR ''f'' then Some 12
      else if c = uchar CHR ''n'' then Some 10 else if c = uchar CHR ''r'' then Some 13
      else if c = uchar CHR ''t'' then Some 9 else if c = uchar CHR ''v'' then Some 11 else None)"

definition read_escape :: "LexState \<Rightarrow> lua_err + LexState" where
  "read_escape ls =
     bindE (next_char ls) (\<lambda>ls.
       case simple_escape (current ls) of
         Some c \<Rightarrow> bindE (save ls c) next_char
       | None \<Rightarrow>
         if currIsNewline ls then bindE (save ls 10) inclinenumber
         else if current ls = EOZ then Inr ls
         else if \<not> isdigit (current ls) then save_and_next ls
         else bindE (escape_digits 3 0 ls) (\<lambda>(c, ls).
           if c > UCHAR_MAX then luaX_lexerror ls ''escape sequence too large'' TK_STRING else save ls c))"

fun read_string_loop :: "int \<Rightarrow> nat \<Rightarrow> LexState \<Rightarrow> lua_err + LexState" where
  "read_string_loop del 0 ls = Inl (UB ''fuel'')"
| "read_string_loop del (Suc n) ls =
     (if current ls = del then Inr ls
      else if current ls = EOZ then luaX_lexerror ls ''unfinished string'' TK_EOS
      else if currIsNewline ls then luaX_lexerror ls ''unfinished string'' TK_STRING
      else if current ls = uchar CHR 0x5C then bindE (read_escape ls) (read_string_loop del n)
      else bindE (save_and_next ls) (read_string_loop del n))"

definition read_string :: "LexState \<Rightarrow> int \<Rightarrow> lua_err + string \<times> LexState" where
  "read_string ls del =
     bindE (save_and_next ls) (\<lambda>ls.
     bindE (read_string_loop del (Suc (chars_left ls)) ls) (\<lambda>ls.
     bindE (save_and_next ls) (\<lambda>ls.
       Inr (luaX_newstring ls (take (length (buff ls) - 2) (drop 1 (buff ls)))))))"

section \<open>The analyser\<close>

fun skip_line :: "nat \<Rightarrow> LexState \<Rightarrow> lua_err + LexState" where
  "skip_line 0 ls = Inl (UB ''fuel'')"
| "skip_line (Suc n) ls =
     (if \<not> currIsNewline ls \<and> current ls \<noteq> EOZ then bindE (next_char ls) (skip_line n) else Inr ls)"

text \<open>The state behind the second \<open>-\<close> of a comment, up to its end.\<close>

definition skip_comment :: "LexState \<Rightarrow> lua_err + LexState" where
  "skip_comment ls =
     (if current ls = uchar CHR ''['' then
        bindE (skip_sep ls) (\<lambda>(sep, ls).
          let ls = resetbuffer ls in
          if sep \<ge> 0 then bindE (read_long_string False ls sep) (\<lambda>(_, ls). Inr (resetbuffer ls))
          else skip_line (Suc (chars_left ls)) ls)
      else skip_line (Suc (chars_left ls)) ls)"

type_synonym lexed = "int \<times> SemInfo option \<times> LexState"

text \<open>A token that is one character or, if \<open>=\<close> follows, two.\<close>

definition two_char :: "LexState \<Rightarrow> int \<Rightarrow> lua_err + lexed" where
  "two_char ls tk =
     (let c = current ls in
      bindE (next_char ls) (\<lambda>ls.
        if current ls \<noteq> uchar CHR ''='' then Inr (c, None, ls)
        else bindE (next_char ls) (\<lambda>ls. Inr (tk, None, ls))))"

definition lex_number :: "clib \<Rightarrow> LexState \<Rightarrow> lua_err + lexed" where
  "lex_number C ls = bindE (read_numeral C ls) (\<lambda>(r, ls). Inr (TK_NUMBER, Some (Sem_r r), ls))"

definition lex_dot :: "clib \<Rightarrow> LexState \<Rightarrow> lua_err + lexed" where
  "lex_dot C ls =
     bindE (save_and_next ls) (\<lambda>ls.
     bindE (check_next ls ''.'') (\<lambda>(b, ls).
       if b then bindE (check_next ls ''.'') (\<lambda>(b, ls). Inr (if b then TK_DOTS else TK_CONCAT, None, ls))
       else if \<not> isdigit (current ls) then Inr (uchar CHR ''.'', None, ls)
       else lex_number C ls))"

definition lex_name :: "LexState \<Rightarrow> lua_err + lexed" where
  "lex_name ls =
     bindE (save_and_next ls) (\<lambda>ls.
     bindE (saves (\<lambda>c. isalnum c \<or> c = uchar CHR ''_'') ls) (\<lambda>ls.
       let (ts, ls) = luaX_newstring ls (buff ls) in
       Inr (if luaX_init ts > 0 then (int (luaX_init ts) - 1 + FIRST_RESERVED, None, ls)
            else (TK_NAME, Some (Sem_ts ts), ls))))"

fun llex_loop :: "clib \<Rightarrow> nat \<Rightarrow> LexState \<Rightarrow> lua_err + lexed" where
  "llex_loop C 0 ls = Inl (UB ''fuel'')"
| "llex_loop C (Suc n) ls =
     (let c = current ls in
      if currIsNewline ls then bindE (inclinenumber ls) (llex_loop C n)
      else if c = uchar CHR ''-'' then
        bindE (next_char ls) (\<lambda>ls.
          if current ls \<noteq> uchar CHR ''-'' then Inr (uchar CHR ''-'', None, ls)
          else bindE (next_char ls) (\<lambda>ls. bindE (skip_comment ls) (llex_loop C n)))
      else if c = uchar CHR ''['' then
        bindE (skip_sep ls) (\<lambda>(sep, ls).
          if sep \<ge> 0 then bindE (read_long_string True ls sep) (\<lambda>(ts, ls). Inr (TK_STRING, Some (Sem_ts ts), ls))
          else if sep = - 1 then Inr (uchar CHR ''['', None, ls)
          else luaX_lexerror ls ''invalid long string delimiter'' TK_STRING)
      else if c = uchar CHR ''='' then two_char ls TK_EQ
      else if c = uchar CHR ''<'' then two_char ls TK_LE
      else if c = uchar CHR ''>'' then two_char ls TK_GE
      else if c = uchar CHR ''~'' then two_char ls TK_NE
      else if c = uchar CHR 0x22 \<or> c = uchar CHR 0x27 then
        bindE (read_string ls c) (\<lambda>(ts, ls). Inr (TK_STRING, Some (Sem_ts ts), ls))
      else if c = uchar CHR ''.'' then lex_dot C ls
      else if c = EOZ then Inr (TK_EOS, None, ls)
      else if isspace c then bindE (next_char ls) (llex_loop C n)
      else if isdigit c then lex_number C ls
      else if isalpha c \<or> c = uchar CHR ''_'' then lex_name ls
      else bindE (next_char ls) (\<lambda>ls. Inr (c, None, ls)))"

definition llex :: "clib \<Rightarrow> LexState \<Rightarrow> lua_err + lexed" where
  "llex C ls = llex_loop C (Suc (chars_left ls)) (resetbuffer ls)"

definition made_token :: "Token \<Rightarrow> int \<Rightarrow> SemInfo option \<Rightarrow> Token" where
  "made_token old t s = \<lparr>token = t, seminfo = (case s of Some x \<Rightarrow> x | None \<Rightarrow> seminfo old)\<rparr>"

definition luaX_next :: "clib \<Rightarrow> LexState \<Rightarrow> lua_err + LexState" where
  "luaX_next C ls =
     (let ls = ls\<lparr>lastline := linenumber ls\<rparr> in
      if token (lookahead ls) \<noteq> TK_EOS
      then Inr (ls\<lparr>tok := lookahead ls, lookahead := (lookahead ls)\<lparr>token := TK_EOS\<rparr>\<rparr>)
      else bindE (llex C ls) (\<lambda>(t, s, ls). Inr (ls\<lparr>tok := made_token (tok ls) t s\<rparr>)))"

definition luaX_lookahead :: "clib \<Rightarrow> LexState \<Rightarrow> lua_err + LexState" where
  "luaX_lookahead C ls = bindE (llex C ls) (\<lambda>(t, s, ls). Inr (ls\<lparr>lookahead := made_token (lookahead ls) t s\<rparr>))"

definition luaX_setinput :: "LexState \<Rightarrow> string \<Rightarrow> string \<Rightarrow> lua_err + LexState" where
  "luaX_setinput ls z source =
     next_char (ls\<lparr>decpoint := CHR ''.'', lookahead := (lookahead ls)\<lparr>token := TK_EOS\<rparr>, input := z, at_end := False,
       linenumber := 1, lastline := 1, source_name := source, buffsize := LUA_MINBUFFER\<rparr>)"

end
