(* ===== verification/Lua_LexProps.thy ===== *)
theory Lua_LexProps
  imports Lua_Lex Lua_StrLib
begin

text \<open>
  The lexer ends on every source and never reads behind its end; strings written by
  \<open>string.format("%q")\<close> are read back; and a NUL that passes for a dot.
\<close>

section \<open>Reaching the end\<close>

definition lex_ok :: "LexState \<Rightarrow> bool" where
  "lex_ok ls = (at_end ls = (current ls = EOZ) \<and> (at_end ls \<longrightarrow> input ls = []) \<and> - 1 \<le> current ls \<and> current ls < 256)"

text \<open>A result that is a syntax error or satisfies \<open>P\<close>.\<close>

definition okE :: "('a \<Rightarrow> bool) \<Rightarrow> lua_err + 'a \<Rightarrow> bool" where
  "okE P m = (case m of Inl e \<Rightarrow> (\<exists>s. e = LUA_ERRSYNTAX s) | Inr x \<Rightarrow> P x)"

lemma okE_simps [simp]: "okE P (Inr x) = P x" "okE P (Inl (LUA_ERRSYNTAX s))" "\<not> okE P (Inl (UB s))"
  by (simp_all add: okE_def)

lemma okE_bind: "okE P m \<Longrightarrow> (\<And>x. P x \<Longrightarrow> okE Q (f x)) \<Longrightarrow> okE Q (bindE m f)"
  by (cases m) (auto simp: okE_def)

lemma okE_mono: "okE P m \<Longrightarrow> (\<And>x. P x \<Longrightarrow> Q x) \<Longrightarrow> okE Q m"
  by (cases m) (auto simp: okE_def)

text \<open>The state behind \<open>ls\<close>: not further than the end, and \<open>k\<close> characters further at least.\<close>

definition ahead :: "nat \<Rightarrow> LexState \<Rightarrow> LexState \<Rightarrow> bool" where
  "ahead k ls ls' = (lex_ok ls' \<and> chars_left ls' + k \<le> chars_left ls \<and> lookahead ls' = lookahead ls)"

lemma ahead_refl [simp]: "ahead 0 ls ls = lex_ok ls"
  by (simp add: ahead_def)

lemma ahead_le: "ahead j a b \<Longrightarrow> k \<le> j \<Longrightarrow> ahead k a b"
  by (simp add: ahead_def)

lemma ahead_Suc: "ahead (Suc j) a b \<Longrightarrow> ahead j a b"
  by (simp add: ahead_def)

lemma not_end: "lex_ok ls \<Longrightarrow> current ls \<noteq> EOZ \<Longrightarrow> 0 < chars_left ls"
  by (simp add: lex_ok_def chars_left_def)

text \<open>What only changes other components stays at its place of the input.\<close>

lemma ahead_upd [simp]:
  "ahead k a (ls\<lparr>buff := b\<rparr>) = ahead k a ls" "ahead k a (ls\<lparr>buffsize := n\<rparr>) = ahead k a ls"
  "ahead k a (ls\<lparr>linenumber := l\<rparr>) = ahead k a ls" "ahead k a (ls\<lparr>anchored := an\<rparr>) = ahead k a ls"
  "ahead k a (ls\<lparr>decpoint := d\<rparr>) = ahead k a ls" "ahead k a (ls\<lparr>lastline := l\<rparr>) = ahead k a ls"
  "ahead k a (ls\<lparr>tok := x\<rparr>) = ahead k a ls"
  by (simp_all add: ahead_def chars_left_def lex_ok_def)

lemma ahead_resetbuffer [simp]: "ahead k a (resetbuffer ls) = ahead k a ls"
  by (simp add: resetbuffer_def)

lemma ahead_newstring: "ahead k a ls \<Longrightarrow> ahead k a (snd (luaX_newstring ls s))"
  by (simp add: luaX_newstring_def)

lemma lexerror_ok [simp]: "okE P (luaX_lexerror ls msg t)"
  by (simp add: luaX_lexerror_def txtToken_def save_def)

lemma syntaxerror_ok [simp]: "okE P (luaX_syntaxerror ls msg)"
  by (simp add: luaX_syntaxerror_def)

text \<open>
  One rule for each operation: from \<open>j\<close> characters behind \<open>l0\<close>, what holds of the rest at every
  state the operation can leave.
\<close>

lemma next_wp:
  assumes "ahead j l0 ls" "current ls \<noteq> EOZ" "\<And>x. ahead (Suc j) l0 x \<Longrightarrow> okE Q (f x)"
  shows "okE Q (bindE (next_char ls) f)"
proof -
  have ne: "\<not> at_end ls" using assms(1,2) by (simp add: ahead_def lex_ok_def)
  show ?thesis
  proof (cases "input ls")
    case Nil
    have "ahead (Suc j) l0 (ls\<lparr>current := EOZ, at_end := True\<rparr>)"
      using assms(1) ne Nil by (simp add: ahead_def chars_left_def lex_ok_def EOZ_def)
    then show ?thesis using assms(3) ne Nil by (simp add: next_char_def)
  next
    case (Cons c s)
    have "- 1 \<le> uchar c" "uchar c \<noteq> - 1" using uchar_ge_0 [of c] by linarith+
    then have "ahead (Suc j) l0 (ls\<lparr>current := uchar c, input := s\<rparr>)"
      using assms(1) ne Cons by (simp add: ahead_def chars_left_def lex_ok_def EOZ_def)
    then show ?thesis using assms(3) ne Cons by (simp add: next_char_def)
  qed
qed

lemma save_wp:
  assumes "ahead j l0 ls" "\<And>x. ahead j l0 x \<Longrightarrow> current x = current ls \<Longrightarrow> okE Q (f x)"
  shows "okE Q (bindE (save ls c) f)"
  using assms by (simp add: save_def)

lemma save_and_next_wp:
  assumes "ahead j l0 ls" "current ls \<noteq> EOZ" "\<And>x. ahead (Suc j) l0 x \<Longrightarrow> okE Q (f x)"
  shows "okE Q (bindE (save_and_next ls) f)"
  unfolding save_and_next_def bindE_assoc
  by (rule save_wp [OF assms(1)], rule next_wp) (use assms in auto)

lemma inclinenumber_wp:
  assumes "ahead j l0 ls" "currIsNewline ls" "\<And>x. ahead (Suc j) l0 x \<Longrightarrow> okE Q (f x)"
  shows "okE Q (bindE (inclinenumber ls) f)"
proof -
  define finish where "finish = (\<lambda>ls. bindE (let ls = ls\<lparr>linenumber := linenumber ls + 1\<rparr> in
        if linenumber ls \<ge> MAX_INT then luaX_syntaxerror ls ''chunk has too many lines'' else Inr ls) f)"
  have fin: "okE Q (finish x)" if "ahead (Suc j) l0 x" for x
    using that assms(3) by (auto simp: finish_def Let_def luaX_syntaxerror_def luaX_lexerror_def txtToken_def save_def)
  have nl: "current x \<noteq> EOZ" if "currIsNewline x" for x using that by (auto simp: currIsNewline_def EOZ_def)
  have "okE Q (bindE (next_char ls) (\<lambda>x. bindE (if currIsNewline x \<and> current x \<noteq> current ls then next_char x else Inr x) finish))"
  proof (rule next_wp [OF assms(1) nl [OF assms(2)]])
    fix x assume x: "ahead (Suc j) l0 x"
    have "okE Q (bindE (next_char x) finish)" if "currIsNewline x"
      by (rule next_wp [OF x nl [OF that]]) (rule fin, erule ahead_Suc)
    then show "okE Q (bindE (if currIsNewline x \<and> current x \<noteq> current ls then next_char x else Inr x) finish)"
      using fin [OF x] by simp
  qed
  then show ?thesis by (simp add: inclinenumber_def finish_def bindE_assoc Let_def)
qed

lemma save_while_wp:
  assumes "ahead j l0 ls" "\<not> P EOZ" "chars_left ls < n" "\<And>x. ahead j l0 x \<Longrightarrow> okE Q (f x)"
  shows "okE Q (bindE (save_while P n ls) f)"
  using assms(1,3)
proof (induction n arbitrary: ls)
  case (Suc n)
  show ?case
  proof (cases "P (current ls)")
    case True
    then have c: "current ls \<noteq> EOZ" using assms(2) by auto
    have ok: "lex_ok ls" using Suc.prems(1) by (simp add: ahead_def)
    have "okE Q (bindE (save_and_next ls) (\<lambda>x. bindE (save_while P n x) f))"
    proof (rule save_and_next_wp [of 0 ls])
      fix x assume x: "ahead (Suc 0) ls x"
      show "okE Q (bindE (save_while P n x) f)"
        by (rule Suc.IH) (use x Suc.prems in \<open>auto simp: ahead_def\<close>)
    qed (use ok c in auto)
    then show ?thesis using True by (simp add: bindE_assoc)
  qed (use Suc.prems assms(4) in simp)
qed simp

lemma saves_wp:
  assumes "ahead j l0 ls" "\<not> P EOZ" "\<And>x. ahead j l0 x \<Longrightarrow> okE Q (f x)"
  shows "okE Q (bindE (saves P ls) f)"
  unfolding saves_def by (rule save_while_wp [where P = P, OF assms(1,2)]) (use assms(3) in simp_all)

lemma check_next_wp:
  assumes "ahead j l0 ls" "chr_of EOZ \<notin> set (cs @ [CHR 0x00])" "\<And>b x. ahead j l0 x \<Longrightarrow> okE Q (f (b, x))"
  shows "okE Q (bindE (check_next ls cs) f)"
proof (cases "chr_of (current ls) \<in> set (cs @ [CHR 0x00])")
  case True
  then have "current ls \<noteq> EOZ" using assms(2) by auto
  then have "okE Q (bindE (save_and_next ls) (\<lambda>x. f (True, x)))"
    by (rule save_and_next_wp [OF assms(1)]) (rule assms(3), erule ahead_Suc)
  then show ?thesis using True by (simp add: check_next_def bindE_assoc)
next
  case False
  then show ?thesis using assms(1,3) by (simp add: check_next_def)
qed

lemma if_wp: "okE Q (if b then m else n)" if "b \<Longrightarrow> okE Q m" "\<not> b \<Longrightarrow> okE Q n"
  using that by simp

lemma bind_if: "bindE (if b then m else n) f = (if b then bindE m f else bindE n f)"
  by simp

lemma EOZ_chars [simp]:
  "uchar c \<noteq> EOZ" "EOZ \<noteq> uchar c" "chr_of EOZ = CHR 0xFF"
  "\<not> isdigit EOZ" "\<not> isalnum EOZ" "\<not> isalpha EOZ" "\<not> isspace EOZ"
proof -
  have "- 1 < uchar c" using uchar_ge_0 [of c] by linarith
  then show "uchar c \<noteq> EOZ" "EOZ \<noteq> uchar c" by (auto simp: EOZ_def)
qed (simp_all add: EOZ_def chr_of_def char_of_def ctype_defs)

section \<open>Every loop ends\<close>

lemma trydecpoint_ok:
  assumes "ahead j l0 ls"
  shows "okE (\<lambda>(r, x). ahead j l0 x) (trydecpoint C ls)"
  using assms by (auto simp: trydecpoint_def Let_def buffreplace_def split: option.split)

lemma read_numeral_ok:
  assumes "ahead j l0 ls" "current ls \<noteq> EOZ"
  shows "okE (\<lambda>(r, x). ahead (Suc j) l0 x) (read_numeral C ls)"
proof -
  define finish where "finish = (\<lambda>ls. bindE (save ls 0) (\<lambda>ls.
       let ls = buffreplace ls CHR ''.'' (decpoint ls) in
       case luaO_str2d C (cstring (buff ls)) of Some r \<Rightarrow> Inr (r, ls) | None \<Rightarrow> trydecpoint C ls))"
  define tail where "tail = (\<lambda>ls. bindE (saves (\<lambda>c. isalnum c \<or> c = uchar CHR ''_'') ls) finish)"
  have fin: "okE (\<lambda>(r, x). ahead (Suc j) l0 x) (finish x)" if "ahead (Suc j) l0 x" for x
    unfolding finish_def
    by (rule save_wp [OF that]) (auto simp: Let_def buffreplace_def intro!: trydecpoint_ok split: option.split)
  have tl: "okE (\<lambda>(r, x). ahead (Suc j) l0 x) (tail x)" if "ahead (Suc j) l0 x" for x
    unfolding tail_def by (rule saves_wp [OF that]) (use fin in auto)
  have ex: "okE (\<lambda>(r, x). ahead (Suc j) l0 x)
      (bindE (if b then bindE (check_next x ''+-'') (\<lambda>(_, ls). Inr ls) else Inr x) tail)" if "ahead (Suc j) l0 x" for b x
    using tl [OF that] check_next_wp [OF that, of "''+-''" _ "\<lambda>p. case p of (_, ls) \<Rightarrow> tail ls"] tl
    by (auto simp: bindE_assoc split_def)
  have "okE (\<lambda>(r, x). ahead (Suc j) l0 x) (bindE (save_and_next ls) (\<lambda>ls.
     bindE (saves (\<lambda>c. isdigit c \<or> c = uchar CHR ''.'') ls) (\<lambda>ls.
     bindE (check_next ls ''Ee'') (\<lambda>(b, ls).
     bindE (if b then bindE (check_next ls ''+-'') (\<lambda>(_, ls). Inr ls) else Inr ls) tail))))"
    by (rule save_and_next_wp [OF assms], rule saves_wp, assumption, simp, rule check_next_wp, assumption, simp)
      (use ex in auto)
  then show ?thesis by (simp add: read_numeral_def tail_def finish_def)
qed

lemma count_equals_wp:
  assumes "ahead j l0 ls" "chars_left ls < n" "0 \<le> count" "\<And>k x. ahead j l0 x \<Longrightarrow> 0 \<le> k \<Longrightarrow> okE Q (f (k, x))"
  shows "okE Q (bindE (count_equals n count ls) f)"
  using assms(1-3)
proof (induction n arbitrary: ls count)
  case (Suc n)
  show ?case
  proof (cases "current ls = uchar CHR ''=''")
    case True
    have ok: "lex_ok ls" using Suc.prems(1) by (simp add: ahead_def)
    have "okE Q (bindE (save_and_next ls) (\<lambda>x. bindE (count_equals n (count + 1) x) f))"
    proof (rule save_and_next_wp [of 0 ls])
      fix x assume x: "ahead (Suc 0) ls x"
      show "okE Q (bindE (count_equals n (count + 1) x) f)"
        by (rule Suc.IH) (use x Suc.prems in \<open>auto simp: ahead_def\<close>)
    qed (use ok True in auto)
    then show ?thesis using True by (simp add: bindE_assoc)
  qed (use Suc.prems assms(4) in simp)
qed simp

lemma skip_sep_wp:
  assumes "ahead j l0 ls" "current ls \<noteq> EOZ"
    "\<And>k x. ahead (Suc j) l0 x \<Longrightarrow> 0 \<le> k \<longrightarrow> current x = current ls \<Longrightarrow> okE Q (f (k, x))"
  shows "okE Q (bindE (skip_sep ls) f)"
  unfolding skip_sep_def Let_def bindE_assoc
  by (rule save_and_next_wp [OF assms(1,2)], rule count_equals_wp, assumption, simp, simp, simp only: prod.case bindE_simps)
    (use assms(3) in auto)

lemma long_string_loop_wp:
  assumes "ahead j l0 ls" "chars_left ls < n" "0 \<le> sep" "\<And>x. ahead j l0 x \<Longrightarrow> okE Q (f x)"
  shows "okE Q (bindE (long_string_loop str sep n ls) f)"
  using assms(1,2)
proof (induction n arbitrary: ls)
  case (Suc n)
  have ok: "ahead 0 ls ls" using Suc.prems(1) by (simp add: ahead_def)
  have fx: "okE Q (f x)" if "ahead k ls x" for k x using assms(4) that Suc.prems(1) by (simp add: ahead_def)
  have rec: "okE Q (bindE (long_string_loop str sep n x) f)" if "ahead (Suc k) ls x" for k x
    by (rule Suc.IH) (use that Suc.prems in \<open>auto simp: ahead_def\<close>)
  consider (eoz) "current ls = EOZ" | (lbr) "current ls = uchar CHR ''[''" | (close) "current ls = uchar CHR '']''"
    | (nl) "currIsNewline ls" "current ls \<noteq> EOZ" "current ls \<noteq> uchar CHR ''[''" "current ls \<noteq> uchar CHR '']''"
    | (other) "\<not> currIsNewline ls" "current ls \<noteq> EOZ" "current ls \<noteq> uchar CHR ''[''" "current ls \<noteq> uchar CHR '']''" by blast
  then show ?case
  proof cases
    case eoz
    then show ?thesis by (simp add: luaX_lexerror_def txtToken_def save_def)
  next
    case lbr
    have "okE Q (bindE (skip_sep ls) (\<lambda>p. bindE (case p of (k, ls) \<Rightarrow> if k = sep then bindE (save_and_next ls) (\<lambda>ls.
              if sep = 0 then luaX_lexerror ls ''nesting of [[...]] is deprecated'' (uchar CHR ''['')
              else long_string_loop str sep n ls)
          else long_string_loop str sep n ls) f))"
    proof (rule skip_sep_wp [OF ok])
      fix k :: int and x assume x: "ahead (Suc 0) ls x" "0 \<le> k \<longrightarrow> current x = current ls"
      have "okE Q (bindE (save_and_next x) (\<lambda>ls. bindE (if sep = 0
          then luaX_lexerror ls ''nesting of [[...]] is deprecated'' (uchar CHR ''['') else long_string_loop str sep n ls) f))"
        if "k = sep"
        by (rule save_and_next_wp [OF x(1)])
          (use x(2) that assms(3) lbr rec in \<open>auto simp: luaX_lexerror_def txtToken_def save_def\<close>)
      then show "okE Q (bindE (case (k, x) of (k, ls) \<Rightarrow> if k = sep then bindE (save_and_next ls) (\<lambda>ls.
              if sep = 0 then luaX_lexerror ls ''nesting of [[...]] is deprecated'' (uchar CHR ''['')
              else long_string_loop str sep n ls)
          else long_string_loop str sep n ls) f)"
        using rec [OF x(1)] by (simp add: bindE_assoc)
    qed (use lbr in simp)
    then show ?thesis using lbr by (simp add: bindE_assoc)
  next
    case close
    have "okE Q (bindE (skip_sep ls) (\<lambda>p. bindE (case p of (k, ls) \<Rightarrow>
       if k = sep then save_and_next ls else long_string_loop str sep n ls) f))"
    proof (rule skip_sep_wp [OF ok])
      fix k :: int and x assume x: "ahead (Suc 0) ls x" "0 \<le> k \<longrightarrow> current x = current ls"
      have "okE Q (bindE (save_and_next x) f)" if "k = sep"
        by (rule save_and_next_wp [OF x(1)]) (use x(2) that assms(3) close fx in auto)
      then show "okE Q (bindE (case (k, x) of (k, ls) \<Rightarrow>
         if k = sep then save_and_next ls else long_string_loop str sep n ls) f)"
        using rec [OF x(1)] by simp
    qed (use close in simp)
    then show ?thesis using close by (simp add: bindE_assoc)
  next
    case nl
    have "okE Q (bindE (save ls 10) (\<lambda>ls. bindE (inclinenumber ls) (\<lambda>ls.
          bindE (long_string_loop str sep n (if \<not> str then resetbuffer ls else ls)) f)))"
      by (rule save_wp [OF ok], rule inclinenumber_wp, assumption)
        (use nl rec in \<open>auto simp: currIsNewline_def\<close>)
    then show ?thesis using nl by (simp add: bindE_assoc)
  next
    case other
    have "okE Q (bindE (if str then save_and_next ls else next_char ls) (\<lambda>x. bindE (long_string_loop str sep n x) f))"
      using save_and_next_wp [OF ok other(2), of Q] next_wp [OF ok other(2), of Q] rec by auto
    then show ?thesis using other by (simp add: bindE_assoc)
  qed
qed simp

lemma read_long_string_wp:
  assumes "ahead j l0 ls" "current ls \<noteq> EOZ" "0 \<le> sep" "\<And>s x. ahead (Suc j) l0 x \<Longrightarrow> okE Q (f (s, x))"
  shows "okE Q (bindE (read_long_string str ls sep) f)"
proof -
  define finish where "finish = (\<lambda>ls. f (if str then luaX_newstring ls (take (length (buff ls) - nat (2 * (2 + sep))) (drop (nat (2 + sep)) (buff ls)))
            else ([], ls)))"
  have fin: "okE Q (finish x)" if "ahead (Suc j) l0 x" for x
    unfolding finish_def using that assms(4) ahead_newstring [OF that] by (auto simp: luaX_newstring_def)
  have tl: "okE Q (bindE (long_string_loop str sep (Suc (chars_left x)) x) finish)" if "ahead (Suc j) l0 x" for x
    by (rule long_string_loop_wp [OF that]) (use assms(3) fin in auto)
  have "okE Q (bindE (save_and_next ls) (\<lambda>ls. bindE (if currIsNewline ls then inclinenumber ls else Inr ls) (\<lambda>ls.
     bindE (long_string_loop str sep (Suc (chars_left ls)) ls) finish)))"
  proof (rule save_and_next_wp [OF assms(1,2)])
    fix x assume x: "ahead (Suc j) l0 x"
    have "okE Q (bindE (inclinenumber x) (\<lambda>ls. bindE (long_string_loop str sep (Suc (chars_left ls)) ls) finish))"
      if "currIsNewline x"
      by (rule inclinenumber_wp [OF x that]) (rule tl, erule ahead_Suc)
    then show "okE Q (bindE (if currIsNewline x then inclinenumber x else Inr x) (\<lambda>ls.
       bindE (long_string_loop str sep (Suc (chars_left ls)) ls) finish))"
      using tl [OF x] by simp
  qed
  then show ?thesis by (simp add: read_long_string_def finish_def bindE_assoc)
qed

lemma escape_digits_wp:
  assumes "ahead j l0 ls" "\<And>c x. ahead j l0 x \<Longrightarrow> okE Q (f (c, x))"
  shows "okE Q (bindE (escape_digits k c ls) f)"
  using assms(1)
proof (induction k arbitrary: c ls)
  case (Suc k)
  show ?case
  proof (cases "isdigit (current ls)")
    case True
    then have "current ls \<noteq> EOZ" by auto
    then have "okE Q (bindE (next_char ls) (\<lambda>x. bindE (escape_digits k (10 * c + (current ls - uchar CHR ''0'')) x) f))"
      by (rule next_wp [OF Suc.prems]) (rule Suc.IH, erule ahead_Suc)
    then show ?thesis using True by (simp add: Let_def bindE_assoc)
  qed (use Suc.prems assms(2) in simp)
qed (use assms(2) in simp)

lemma read_escape_wp:
  assumes "ahead j l0 ls" "current ls \<noteq> EOZ" "\<And>x. ahead (Suc j) l0 x \<Longrightarrow> okE Q (f x)"
  shows "okE Q (bindE (read_escape ls) f)"
  unfolding read_escape_def bindE_assoc
proof (rule next_wp [OF assms(1,2)])
  fix x assume x: "ahead (Suc j) l0 x"
  have f': "okE Q (f y)" if "ahead (Suc (Suc j)) l0 y" for y using assms(3) that by (auto intro: ahead_Suc)
  show "okE Q (bindE (case simple_escape (current x) of Some c \<Rightarrow> bindE (save x c) next_char
       | None \<Rightarrow>
         if currIsNewline x then bindE (save x 10) inclinenumber
         else if current x = EOZ then Inr x
         else if \<not> isdigit (current x) then save_and_next x
         else bindE (escape_digits 3 0 x) (\<lambda>(c, ls).
           if c > UCHAR_MAX then luaX_lexerror ls ''escape sequence too large'' TK_STRING else save ls c)) f)"
  proof (cases "simple_escape (current x)")
    case (Some c)
    then have e: "current x \<noteq> EOZ" by (auto simp: simple_escape_def)
    have "okE Q (bindE (save x c) (\<lambda>y. bindE (next_char y) f))"
      by (rule save_wp [OF x], rule next_wp, assumption) (use e f' in auto)
    then show ?thesis using Some by (simp add: bindE_assoc)
  next
    case None
    have 1: "okE Q (bindE (save x 10) (\<lambda>y. bindE (inclinenumber y) f))" if "currIsNewline x"
      by (rule save_wp [OF x], rule inclinenumber_wp, assumption) (use that f' in \<open>auto simp: currIsNewline_def\<close>)
    have 2: "okE Q (bindE (save_and_next x) f)" if "current x \<noteq> EOZ"
      by (rule save_and_next_wp [OF x that]) (rule f')
    have 3: "okE Q (bindE (escape_digits 3 0 x) (\<lambda>p. bindE (case p of (c, ls) \<Rightarrow>
           if c > UCHAR_MAX then luaX_lexerror ls ''escape sequence too large'' TK_STRING else save ls c) f))"
    proof (rule escape_digits_wp [OF x])
      fix c y assume y: "ahead (Suc j) l0 y"
      show "okE Q (bindE (case (c, y) of (c, ls) \<Rightarrow>
           if c > UCHAR_MAX then luaX_lexerror ls ''escape sequence too large'' TK_STRING else save ls c) f)"
        using save_wp [OF y, of Q f c] assms(3) by (simp add: luaX_lexerror_def txtToken_def save_def)
    qed
    show ?thesis using None 1 2 3 assms(3) x by (simp add: bindE_assoc)
  qed
qed

lemma read_string_loop_wp:
  assumes "ahead j l0 ls" "chars_left ls < n" "\<And>x. ahead j l0 x \<Longrightarrow> current x = del \<Longrightarrow> okE Q (f x)"
  shows "okE Q (bindE (read_string_loop del n ls) f)"
  using assms(1,2)
proof (induction n arbitrary: ls)
  case (Suc n)
  have ok: "ahead 0 ls ls" using Suc.prems(1) by (simp add: ahead_def)
  have rec: "okE Q (bindE (read_string_loop del n x) f)" if "ahead (Suc 0) ls x" for x
    by (rule Suc.IH) (use that Suc.prems in \<open>auto simp: ahead_def\<close>)
  show ?case
  proof (cases "current ls = del \<or> current ls = EOZ \<or> currIsNewline ls")
    case True
    then show ?thesis using Suc.prems assms(3) by (auto simp: luaX_lexerror_def txtToken_def save_def)
  next
    case False
    then have c: "current ls \<noteq> EOZ" by simp
    have "okE Q (bindE (read_escape ls) (\<lambda>x. bindE (read_string_loop del n x) f))"
      by (rule read_escape_wp [OF ok c]) (rule rec)
    moreover have "okE Q (bindE (save_and_next ls) (\<lambda>x. bindE (read_string_loop del n x) f))"
      by (rule save_and_next_wp [OF ok c]) (rule rec)
    ultimately show ?thesis using False by (simp add: bindE_assoc)
  qed
qed simp

lemma read_string_wp:
  assumes "ahead j l0 ls" "del \<noteq> EOZ" "current ls = del" "\<And>s x. ahead (Suc j) l0 x \<Longrightarrow> okE Q (f (s, x))"
  shows "okE Q (bindE (read_string ls del) f)"
proof -
  have fin: "okE Q (f (luaX_newstring x s))" if "ahead (Suc j) l0 x" for x s
    using that assms(4) by (simp add: luaX_newstring_def)
  have "okE Q (bindE (save_and_next ls) (\<lambda>ls.
     bindE (read_string_loop del (Suc (chars_left ls)) ls) (\<lambda>ls.
     bindE (save_and_next ls) (\<lambda>ls. f (luaX_newstring ls (take (length (buff ls) - 2) (drop 1 (buff ls))))))))"
  proof (rule save_and_next_wp [OF assms(1)])
    fix x assume x: "ahead (Suc j) l0 x"
    show "okE Q (bindE (read_string_loop del (Suc (chars_left x)) x) (\<lambda>ls.
     bindE (save_and_next ls) (\<lambda>ls. f (luaX_newstring ls (take (length (buff ls) - 2) (drop 1 (buff ls)))))))"
    proof (rule read_string_loop_wp [OF x])
      fix y assume y: "ahead (Suc j) l0 y" "current y = del"
      then show "okE Q (bindE (save_and_next y) (\<lambda>ls. f (luaX_newstring ls (take (length (buff ls) - 2) (drop 1 (buff ls))))))"
        using assms(2) by (intro save_and_next_wp [OF y(1)] fin) (auto dest: ahead_Suc)
    qed simp
  qed (use assms in auto)
  then show ?thesis by (simp add: read_string_def bindE_assoc)
qed

lemma skip_line_wp:
  assumes "ahead j l0 ls" "chars_left ls < n" "\<And>x. ahead j l0 x \<Longrightarrow> okE Q (f x)"
  shows "okE Q (bindE (skip_line n ls) f)"
  using assms(1,2)
proof (induction n arbitrary: ls)
  case (Suc n)
  have ok: "ahead 0 ls ls" using Suc.prems(1) by (simp add: ahead_def)
  show ?case
  proof (cases "\<not> currIsNewline ls \<and> current ls \<noteq> EOZ")
    case True
    have "okE Q (bindE (next_char ls) (\<lambda>x. bindE (skip_line n x) f))"
      by (rule next_wp [OF ok conjunct2 [OF True]], rule Suc.IH) (use Suc.prems in \<open>auto simp: ahead_def\<close>)
    then show ?thesis using True by (simp add: bindE_assoc)
  qed (use Suc.prems assms(3) in auto)
qed simp

lemma skip_comment_wp:
  assumes "ahead j l0 ls" "\<And>x. ahead j l0 x \<Longrightarrow> okE Q (f x)"
  shows "okE Q (bindE (skip_comment ls) f)"
proof -
  have line: "okE Q (bindE (skip_line (Suc (chars_left x)) x) f)" if "ahead j l0 x" for x
    by (rule skip_line_wp [OF that]) (use assms(2) in auto)
  have "okE Q (bindE (skip_sep ls) (\<lambda>p. bindE (case p of (sep, ls) \<Rightarrow>
          let ls = resetbuffer ls in
          if sep \<ge> 0 then bindE (read_long_string False ls sep) (\<lambda>(_, ls). Inr (resetbuffer ls))
          else skip_line (Suc (chars_left ls)) ls) f))" if c: "current ls = uchar CHR ''[''"
  proof (rule skip_sep_wp [OF assms(1)])
    fix k :: int and x assume x: "ahead (Suc j) l0 x" "0 \<le> k \<longrightarrow> current x = current ls"
    have r: "ahead j l0 (resetbuffer x)" "current (resetbuffer x) = current x" using ahead_Suc [OF x(1)] by (simp_all add: resetbuffer_def)
    have "okE Q (bindE (read_long_string False (resetbuffer x) k) (\<lambda>p. f (case p of (_, ls) \<Rightarrow> resetbuffer ls)))" if "0 \<le> k"
      by (rule read_long_string_wp [OF r(1)]) (use x(2) r(2) that c in \<open>auto intro!: assms(2) dest: ahead_Suc\<close>)
    then show "okE Q (bindE (case (k, x) of (sep, ls) \<Rightarrow>
          let ls = resetbuffer ls in
          if sep \<ge> 0 then bindE (read_long_string False ls sep) (\<lambda>(_, ls). Inr (resetbuffer ls))
          else skip_line (Suc (chars_left ls)) ls) f)"
      using line [OF r(1)] by (simp add: Let_def bindE_assoc split_def)
  qed (use c in simp)
  then show ?thesis using line [OF assms(1)] by (simp add: skip_comment_def bindE_assoc)
qed

text \<open>A token was found \<open>k\<close> characters further.\<close>

definition lexed_ok :: "nat \<Rightarrow> LexState \<Rightarrow> lua_err + lexed \<Rightarrow> bool" where
  "lexed_ok k ls m = okE (\<lambda>(t, s, x). ahead k ls x) m"

lemma two_char_ok: "ahead j l0 ls \<Longrightarrow> current ls \<noteq> EOZ \<Longrightarrow> lexed_ok (Suc j) l0 (two_char ls t)"
  unfolding two_char_def Let_def lexed_ok_def
  by (rule next_wp, assumption+) (auto intro!: next_wp intro: ahead_Suc)

lemma lex_number_ok:
  assumes "ahead j l0 ls" "current ls \<noteq> EOZ"
  shows "lexed_ok (Suc j) l0 (lex_number C ls)"
  unfolding lex_number_def lexed_ok_def
  by (rule okE_bind [OF read_numeral_ok [OF assms, of C]]) auto

lemma lex_dot_ok:
  assumes "ahead j l0 ls" "current ls \<noteq> EOZ"
  shows "lexed_ok (Suc j) l0 (lex_dot C ls)"
  unfolding lex_dot_def lexed_ok_def
proof (rule save_and_next_wp [OF assms], rule check_next_wp, assumption, simp)
  fix b x assume x: "ahead (Suc j) l0 x"
  have "okE (\<lambda>(t, s, x). ahead (Suc j) l0 x)
      (bindE (check_next x ''.'') (\<lambda>(b, ls). Inr (if b then TK_DOTS else TK_CONCAT, None :: SemInfo option, ls)))"
    by (rule check_next_wp [OF x]) auto
  moreover have "okE (\<lambda>(t, s, x). ahead (Suc j) l0 x) (lex_number C x)" if "isdigit (current x)"
  proof -
    have "current x \<noteq> EOZ" using that by auto
    from lex_number_ok [OF x this, of C] show ?thesis
      unfolding lexed_ok_def by (rule okE_mono) (auto dest: ahead_Suc)
  qed
  ultimately show "okE (\<lambda>(t, s, x). ahead (Suc j) l0 x) (case (b, x) of (b, ls) \<Rightarrow>
       if b then bindE (check_next ls ''.'') (\<lambda>(b, ls). Inr (if b then TK_DOTS else TK_CONCAT, None, ls))
       else if \<not> isdigit (current ls) then Inr (uchar CHR ''.'', None, ls)
       else lex_number C ls)" using x by simp
qed

lemma lex_name_ok:
  assumes "ahead j l0 ls" "current ls \<noteq> EOZ"
  shows "lexed_ok (Suc j) l0 (lex_name ls)"
  unfolding lex_name_def lexed_ok_def
  by (rule save_and_next_wp [OF assms], rule saves_wp, assumption, simp)
    (auto simp: luaX_newstring_def Let_def)

lemma llex_loop_ok:
  assumes "ahead j l0 ls" "chars_left ls < n"
  shows "okE (\<lambda>(t, s, x). ahead j l0 x \<and> (t = TK_EOS \<or> ahead (Suc j) l0 x)) (llex_loop C n ls)"
  using assms
proof (induction n arbitrary: ls)
  case (Suc n)
  let ?Q = "\<lambda>(t, s, x). ahead j l0 x \<and> (t = TK_EOS \<or> ahead (Suc j) l0 x)"
  define c where "c = current ls"
  have ok: "ahead 0 ls ls" using Suc.prems(1) by (simp add: ahead_def)
  have tr: "ahead (j + k) l0 x" if "ahead k ls x" for k x using that Suc.prems(1) by (simp add: ahead_def)
  have rec: "okE ?Q (llex_loop C n x)" if "ahead (Suc k) ls x" for k x
    by (rule Suc.IH) (use that Suc.prems in \<open>auto simp: ahead_def\<close>)
  have fin: "?Q (t, s, x)" if "ahead (Suc k) ls x" for k t s x using tr [OF that] by (auto simp: ahead_def)
  have lx: "okE ?Q m" if "lexed_ok (Suc 0) ls m" for m
    using that unfolding lexed_ok_def by (rule okE_mono) (use fin in auto)
  show ?case
  proof (cases "c = EOZ")
    case True
    then show ?thesis using Suc.prems(1) by (simp add: c_def [symmetric] currIsNewline_def) (simp add: EOZ_def)
  next
    case False
    note ne = False [unfolded c_def]
    have 1: "okE ?Q (bindE (inclinenumber ls) (llex_loop C n))" if "currIsNewline ls"
      by (rule inclinenumber_wp [OF ok that]) (rule rec)
    have 2: "okE ?Q (bindE (next_char ls) (\<lambda>ls. if current ls \<noteq> uchar CHR ''-'' then Inr (uchar CHR ''-'', None, ls)
          else bindE (next_char ls) (\<lambda>ls. bindE (skip_comment ls) (llex_loop C n))))"
    proof (rule next_wp [OF ok ne])
      fix x assume x: "ahead (Suc 0) ls x"
      have "okE ?Q (bindE (next_char x) (\<lambda>ls. bindE (skip_comment ls) (llex_loop C n)))" if "current x = uchar CHR ''-''"
        by (rule next_wp [OF x], simp add: that, rule skip_comment_wp, assumption, rule rec)
      then show "okE ?Q (if current x \<noteq> uchar CHR ''-'' then Inr (uchar CHR ''-'', None, x)
          else bindE (next_char x) (\<lambda>ls. bindE (skip_comment ls) (llex_loop C n)))"
        using fin [OF x] by simp
    qed
    have 3: "okE ?Q (bindE (skip_sep ls) (\<lambda>(sep, ls).
          if sep \<ge> 0 then bindE (read_long_string True ls sep) (\<lambda>(ts, ls). Inr (TK_STRING, Some (Sem_ts ts), ls))
          else if sep = - 1 then Inr (uchar CHR ''['', None, ls)
          else luaX_lexerror ls ''invalid long string delimiter'' TK_STRING))"
    proof (rule skip_sep_wp [OF ok ne])
      fix k :: int and x assume x: "ahead (Suc 0) ls x" "0 \<le> k \<longrightarrow> current x = current ls"
      have "okE ?Q (bindE (read_long_string True x k) (\<lambda>(ts, ls). Inr (TK_STRING, Some (Sem_ts ts), ls)))" if "0 \<le> k"
        by (rule read_long_string_wp [OF x(1)]) (use x(2) that ne fin in auto)
      then show "okE ?Q (case (k, x) of (sep, ls) \<Rightarrow>
          if sep \<ge> 0 then bindE (read_long_string True ls sep) (\<lambda>(ts, ls). Inr (TK_STRING, Some (Sem_ts ts), ls))
          else if sep = - 1 then Inr (uchar CHR ''['', None, ls)
          else luaX_lexerror ls ''invalid long string delimiter'' TK_STRING)"
        using fin [OF x(1)] by simp
    qed
    have 4: "okE ?Q (bindE (read_string ls c) (\<lambda>(ts, ls). Inr (TK_STRING, Some (Sem_ts ts), ls)))"
      by (rule read_string_wp [OF ok False]) (use fin in \<open>auto simp: c_def\<close>)
    have 5: "okE ?Q (bindE (next_char ls) (llex_loop C n))" by (rule next_wp [OF ok ne]) (rule rec)
    have 6: "okE ?Q (bindE (next_char ls) (\<lambda>ls. Inr (c, None, ls)))" by (rule next_wp [OF ok ne]) (use fin in auto)
    have 7: "okE ?Q (two_char ls t)" for t by (rule lx [OF two_char_ok [OF ok ne]])
    have 8: "okE ?Q (lex_dot C ls)" "okE ?Q (lex_number C ls)" "okE ?Q (lex_name ls)"
      by (rule lx, rule lex_dot_ok lex_number_ok lex_name_ok, rule ok, rule ne)+
    show ?thesis
      unfolding llex_loop.simps Let_def c_def [symmetric]
      by (intro if_wp 1 2 3 4 5 6 7 8) (use False in simp_all)
  qed
qed simp

lemma llex_ok:
  assumes "lex_ok ls"
  shows "okE (\<lambda>(t, s, x). ahead 0 ls x \<and> (t = TK_EOS \<or> ahead 1 ls x)) (llex C ls)"
proof -
  have "ahead 0 ls (resetbuffer ls)" "chars_left (resetbuffer ls) = chars_left ls"
    using assms by (simp_all add: resetbuffer_def chars_left_def)
  then show ?thesis using llex_loop_ok [of 0 ls "resetbuffer ls" "Suc (chars_left ls)" C] by (simp add: llex_def)
qed

text \<open>The parser's view: the tokens of a source, up to \<open>TK_EOS\<close>, in at most \<open>n\<close> calls.\<close>

fun tokens :: "clib \<Rightarrow> nat \<Rightarrow> LexState \<Rightarrow> lua_err + Token list" where
  "tokens C 0 ls = Inl (UB ''tokens'')"
| "tokens C (Suc n) ls = bindE (luaX_next C ls) (\<lambda>ls.
     if token (tok ls) = TK_EOS then Inr [tok ls] else bindE (tokens C n ls) (\<lambda>ts. Inr (tok ls # ts)))"

lemma luaX_next_ok:
  assumes "lex_ok ls" "token (lookahead ls) = TK_EOS"
  shows "okE (\<lambda>x. ahead 0 ls x \<and> (token (tok x) = TK_EOS \<or> ahead 1 ls x)) (luaX_next C ls)"
proof -
  have l: "lex_ok (ls\<lparr>lastline := linenumber ls\<rparr>)" using assms(1) by (simp add: lex_ok_def)
  have a: "ahead k (ls\<lparr>lastline := linenumber ls\<rparr>) x = ahead k ls x" for k x by (simp add: ahead_def chars_left_def)
  show ?thesis
    unfolding luaX_next_def Let_def using assms(2)
    by (auto simp: made_token_def a intro!: okE_bind [OF llex_ok [OF l]])
qed

lemma tokens_ok:
  assumes "lex_ok ls" "token (lookahead ls) = TK_EOS" "chars_left ls < n"
  shows "okE (\<lambda>ts. ts \<noteq> [] \<and> token (last ts) = TK_EOS) (tokens C n ls)"
  using assms
proof (induction n arbitrary: ls)
  case (Suc n)
  show ?case
    unfolding tokens.simps
  proof (rule okE_bind [OF luaX_next_ok [OF Suc.prems(1,2)]])
    fix x assume x: "ahead 0 ls x \<and> (token (tok x) = TK_EOS \<or> ahead 1 ls x)"
    have "okE (\<lambda>ts. ts \<noteq> [] \<and> token (last ts) = TK_EOS) (bindE (tokens C n x) (\<lambda>ts. Inr (tok x # ts)))" if "ahead 1 ls x"
      by (rule okE_bind [OF Suc.IH]) (use that Suc.prems in \<open>auto simp: ahead_def\<close>)
    then show "okE (\<lambda>ts. ts \<noteq> [] \<and> token (last ts) = TK_EOS)
       (if token (tok x) = TK_EOS then Inr [tok x] else bindE (tokens C n x) (\<lambda>ts. Inr (tok x # ts)))"
      using x by auto
  qed
qed simp

text \<open>
  C26. Lexical analysis ends. Whatever the source, the locale and the C library's number conversion,
  a parser that calls \<open>luaX_next\<close> until \<open>TK_EOS\<close> gets there after at most two calls more than the
  source has characters, or a syntax error is raised; no call reads the stream again once it has
  answered \<open>EOZ\<close> and no loop of the lexer runs beyond the source.
\<close>

theorem lexer_ends:
  "(\<exists>msg. bindE (luaX_setinput ls z source) (tokens C (length z + 2)) = Inl (LUA_ERRSYNTAX msg)) \<or>
   (\<exists>ts. bindE (luaX_setinput ls z source) (tokens C (length z + 2)) = Inr ts \<and> token (last ts) = TK_EOS)"
proof -
  define l1 where "l1 = ls\<lparr>decpoint := CHR ''.'', lookahead := (lookahead ls)\<lparr>token := TK_EOS\<rparr>, input := z, at_end := False,
       linenumber := 1, lastline := 1, source_name := source, buffsize := LUA_MINBUFFER\<rparr>"
  obtain l2 where l2: "luaX_setinput ls z source = Inr l2" "lex_ok l2" "chars_left l2 \<le> length z" "token (lookahead l2) = TK_EOS"
  proof (cases z)
    case Nil
    then show thesis using that [of "l1\<lparr>current := EOZ, at_end := True\<rparr>"]
      by (simp add: luaX_setinput_def next_char_def l1_def lex_ok_def chars_left_def EOZ_def)
  next
    case (Cons c s)
    have "- 1 \<le> uchar c" "uchar c \<noteq> - 1" using uchar_ge_0 [of c] by linarith+
    then show thesis using that [of "l1\<lparr>current := uchar c, input := s\<rparr>"] Cons
      by (simp add: luaX_setinput_def next_char_def l1_def lex_ok_def chars_left_def EOZ_def)
  qed
  have "okE (\<lambda>ts. ts \<noteq> [] \<and> token (last ts) = TK_EOS) (tokens C (length z + 2) l2)"
    by (rule tokens_ok [OF l2(2,4)]) (use l2(3) in simp)
  then show ?thesis using l2(1) by (cases "tokens C (length z + 2) l2") (auto simp: okE_def)
qed

section \<open>Quoted strings are read back\<close>

text \<open>What the lexer has still to see, the current character included.\<close>

fun feed :: "LexState \<Rightarrow> string \<Rightarrow> bool" where
  "feed ls [] = (current ls = EOZ \<and> at_end ls \<and> input ls = [])"
| "feed ls (c # w) = (current ls = uchar c \<and> \<not> at_end ls \<and> input ls = w)"

definition buf_ok :: "LexState \<Rightarrow> bool" where
  "buf_ok ls = (1 \<le> unat (buffsize ls) \<and> length (buff ls) \<le> unat (buffsize ls) \<and> unat (buffsize ls) \<le> 2 ^ 62)"

definition st :: "string \<Rightarrow> string \<Rightarrow> int \<Rightarrow> Token \<Rightarrow> LexState \<Rightarrow> bool" where
  "st w b m t ls = (feed ls w \<and> buff ls = b \<and> buf_ok ls \<and> linenumber ls \<le> m \<and> tok ls = t)"

lemma feed_upd [simp]:
  "feed (ls\<lparr>buff := b\<rparr>) w = feed ls w" "feed (ls\<lparr>buffsize := n\<rparr>) w = feed ls w"
  "feed (ls\<lparr>linenumber := l\<rparr>) w = feed ls w" "feed (ls\<lparr>anchored := an\<rparr>) w = feed ls w"
  "feed (ls\<lparr>lastline := l\<rparr>) w = feed ls w" "feed (ls\<lparr>tok := x\<rparr>) w = feed ls w"
  by (cases w; simp)+

lemma st_next:
  assumes "st (c # w) b m t ls"
  shows "\<exists>ls'. next_char ls = Inr ls' \<and> st w b m t ls'"
  using assms by (cases w) (auto simp: st_def next_char_def buf_ok_def)

lemma st_save:
  assumes "st w b m t ls" "length b < 2 ^ 61"
  shows "\<exists>ls'. save ls c = Inr ls' \<and> st w (b @ [chr_of c]) m t ls'"
proof -
  define N where "N = unat (buffsize ls)"
  have b: "buff ls = b" "1 \<le> N" "length b \<le> N" "N \<le> 2 ^ 62" using assms(1) by (auto simp: st_def buf_ok_def N_def)
  have l: "unat (of_nat (length b) + 1 :: u64) = length b + 1"
  proof -
    have "unat (of_nat (length b + 1) :: u64) = length b + 1"
      using assms(2) by (simp add: unat_of_nat del: of_nat_Suc of_nat_add)
    then show ?thesis by (simp add: add.commute)
  qed
  have full: "(of_nat (length b) + 1 > buffsize ls) = (length b = N)"
    using b(3) by (auto simp: word_less_nat_alt l N_def)
  show ?thesis
  proof (cases "length b = N")
    case False
    then show ?thesis using assms(1) b full by (auto simp: save_def st_def buf_ok_def N_def)
  next
    case True
    have "unat (buffsize ls * 2) = N * 2"
      using True assms(2) by (simp add: unat_mult_lem [THEN iffD1] N_def [symmetric] unat_word_ariths)
    moreover have "\<not> buffsize ls \<ge> MAX_SIZET div 2"
    proof -
      have "unat (MAX_SIZET div 2) = 9223372036854775806" by (simp add: MAX_SIZET_def)
      then show ?thesis using True assms(2) by (simp add: word_le_nat_alt N_def [symmetric])
    qed
    ultimately show ?thesis using assms b full True by (auto simp: save_def st_def buf_ok_def N_def)
  qed
qed

lemma st_save_and_next:
  assumes "st (c # w) b m t ls" "length b < 2 ^ 61"
  shows "\<exists>ls'. save_and_next ls = Inr ls' \<and> st w (b @ [c]) m t ls'"
proof -
  have "chr_of (current ls) = c" using assms(1) by (simp add: st_def)
  with st_save [OF assms, of "current ls"] obtain x where "save ls (current ls) = Inr x" "st (c # w) (b @ [c]) m t x" by auto
  with st_next [OF this(2)] show ?thesis by (auto simp: save_and_next_def)
qed

definition newline :: "char \<Rightarrow> bool" where
  "newline c = (c = CHR 0x0A \<or> c = CHR 0x0D)"

lemma newline_current: "feed ls (c # w) \<Longrightarrow> currIsNewline ls = newline c"
  using uchar_eq_iff [of 10 c] uchar_eq_iff [of 13 c]
  by (simp add: currIsNewline_def newline_def chr_of_def char_of_def)

lemma st_inclinenumber:
  assumes "st (d # c # w) b m t ls" "\<not> newline c" "m + 1 < MAX_INT"
  shows "\<exists>ls'. inclinenumber ls = Inr ls' \<and> st (c # w) b (m + 1) t ls'"
proof -
  obtain x where x: "next_char ls = Inr x" "st (c # w) b m t x" using st_next [OF assms(1)] by blast
  have "\<not> currIsNewline x" using x(2) assms(2) newline_current [of x c w] by (simp add: st_def)
  then show ?thesis using x assms(3) by (auto simp: inclinenumber_def Let_def st_def buf_ok_def)
qed

definition esc1 :: "char \<Rightarrow> string" where
  "esc1 c = (if c = CHR 0x22 \<or> c = CHR 0x5C \<or> c = CHR 0x0A then [CHR 0x5C, c]
      else if c = CHR 0x0D then [CHR 0x5C, CHR ''r'']
      else if c = CHR 0x00 then [CHR 0x5C, CHR ''0'', CHR ''0'', CHR ''0'']
      else [c])"

lemma addquoted_loop_esc: "addquoted_loop s b = b @ concat (map esc1 s)"
  by (induction s arbitrary: b) (auto simp: esc1_def)

lemma esc1_head: "\<exists>c' w'. concat (map esc1 s) @ CHR 0x22 # w = c' # w' \<and> \<not> newline c'"
proof (cases s)
  case (Cons c r)
  then show ?thesis by (auto simp: esc1_def newline_def)
qed (auto simp: newline_def)

lemma uchar_chars: "uchar CHR 0x22 = 34" "uchar CHR 0x5C = 92"
  by (simp_all add: uchar_def)

text \<open>One character of the string, as it was quoted, goes through the loop.\<close>

lemma read_escape_esc:
  assumes "st (CHR 0x5C # d # w) b m t ls" "length b < 2 ^ 61" "m + 1 < MAX_INT"
    and "d = CHR 0x22 \<and> e = d \<and> r = w \<or> d = CHR 0x5C \<and> e = d \<and> r = w \<or> d = CHR ''r'' \<and> e = CHR 0x0D \<and> r = w \<or>
      d = CHR 0x0A \<and> e = d \<and> r = w \<and> (\<exists>c w'. w = c # w' \<and> \<not> newline c) \<or>
      d = CHR ''0'' \<and> w = CHR ''0'' # CHR ''0'' # r \<and> e = CHR 0x00"
  shows "\<exists>ls'. read_escape ls = Inr ls' \<and> st r (b @ [e]) (m + 1) t ls'"
proof -
  obtain x where x: "next_char ls = Inr x" "st (d # w) b m t x" using st_next [OF assms(1)] by blast
  have c: "current x = uchar d" using x(2) by (simp add: st_def)
  have up: "st v v' m t y \<Longrightarrow> st v v' (m + 1) t y" for v v' y by (simp add: st_def)
  consider (same) "d = CHR 0x22 \<or> d = CHR 0x5C" "e = d" "r = w" | (cr) "d = CHR ''r''" "e = CHR 0x0D" "r = w"
    | (lf) c' w' where "d = CHR 0x0A" "e = d" "r = w" "w = c' # w'" "\<not> newline c'"
    | (nul) "d = CHR ''0''" "w = CHR ''0'' # CHR ''0'' # r" "e = CHR 0x00" using assms(4) by blast
  then show ?thesis
  proof cases
    case same
    then have "simple_escape (current x) = None" "\<not> currIsNewline x" "current x \<noteq> EOZ" "\<not> isdigit (current x)"
      using c by (auto simp: simple_escape_def currIsNewline_def EOZ_def isdigit_def uchar_def)
    then show ?thesis using st_save_and_next [OF x(2) assms(2)] x(1) same up by (auto simp: read_escape_def)
  next
    case cr
    have s: "simple_escape (current x) = Some 13" using c cr by (simp add: simple_escape_def uchar_def)
    obtain y where y: "save x 13 = Inr y" "st (d # w) (b @ [chr_of 13]) m t y" using st_save [OF x(2) assms(2)] by blast
    obtain z where "next_char y = Inr z" "st w (b @ [chr_of 13]) m t z" using st_next [OF y(2)] by blast
    then show ?thesis using x(1) s y(1) cr up by (auto simp: read_escape_def chr_of_def char_of_def)
  next
    case lf
    then have s: "simple_escape (current x) = None" "currIsNewline x"
      using c by (auto simp: simple_escape_def currIsNewline_def uchar_def)
    obtain y where y: "save x 10 = Inr y" "st (d # w) (b @ [chr_of 10]) m t y" using st_save [OF x(2) assms(2)] by blast
    obtain z where "inclinenumber y = Inr z" "st w (b @ [chr_of 10]) (m + 1) t z"
      using st_inclinenumber [of d c' w' _ m] y(2) lf assms(3) by blast
    then show ?thesis using x(1) s y(1) lf by (auto simp: read_escape_def chr_of_def char_of_def)
  next
    case nul
    have s: "simple_escape (current x) = None" "\<not> currIsNewline x" "current x \<noteq> EOZ" "isdigit (current x)"
      using c nul by (auto simp: simple_escape_def currIsNewline_def EOZ_def isdigit_def uchar_def)
    have z: "uchar CHR ''0'' = 48" by (simp add: uchar_def)
    obtain y1 where y1: "next_char x = Inr y1" "st w b m t y1" using st_next [OF x(2)] by blast
    obtain y2 where y2: "next_char y1 = Inr y2" "st (CHR ''0'' # r) b m t y2" using st_next y1(2) nul(2) by blast
    obtain y3 where y3: "next_char y2 = Inr y3" "st r b m t y3" using st_next [OF y2(2)] by blast
    have "current x = 48" "current y1 = 48" "current y2 = 48" using x(2) y1(2) y2(2) nul z by (auto simp: st_def)
    then have "escape_digits 3 0 x = Inr (0, y3)"
      using y1(1) y2(1) y3(1) by (simp add: numeral_3_eq_3 isdigit_def z Let_def)
    moreover obtain z where "save y3 0 = Inr z" "st r (b @ [chr_of 0]) m t z" using st_save [OF y3(2) assms(2)] by blast
    ultimately show ?thesis using x(1) s nul up by (auto simp: read_escape_def UCHAR_MAX_def chr_of_def char_of_def)
  qed
qed

lemma read_string_esc:
  assumes "st (concat (map esc1 s) @ CHR 0x22 # w) b m t ls" "length b + length s < 2 ^ 61" "m + int (length s) < MAX_INT"
    "length s < n"
  shows "\<exists>ls'. read_string_loop 34 n ls = Inr ls' \<and> st (CHR 0x22 # w) (b @ s) (m + int (length s)) t ls'"
  using assms
proof (induction s arbitrary: b m ls n)
  case Nil
  then obtain k where "n = Suc k" by (cases n) auto
  then show ?case using Nil by (simp add: st_def uchar_chars)
next
  case (Cons c s)
  obtain k where n: "n = Suc k" "length s < k" using Cons.prems(4) by (cases n) auto
  let ?r = "concat (map esc1 s) @ CHR 0x22 # w"
  have b: "length b < 2 ^ 61" and m: "m + 1 < MAX_INT" using Cons.prems(2,3) by auto
  have rec: "\<exists>ls'. read_string_loop 34 k x = Inr ls' \<and> st (CHR 0x22 # w) (b @ c # s) (m + int (length (c # s))) t ls'"
    if "st ?r (b @ [c]) (m + 1) t x" for x
    using Cons.IH [OF that] Cons.prems n(2) by (simp add: add_ac)
  show ?case
  proof (cases "esc1 c = [c]")
    case False
    then obtain d v where e: "esc1 c = CHR 0x5C # d # v" "d = CHR 0x22 \<and> c = d \<and> v = [] \<or> d = CHR 0x5C \<and> c = d \<and> v = [] \<or>
        d = CHR ''r'' \<and> c = CHR 0x0D \<and> v = [] \<or> d = CHR 0x0A \<and> c = d \<and> v = [] \<or> d = CHR ''0'' \<and> v = ''00'' \<and> c = CHR 0x00"
      by (auto simp: esc1_def split: if_splits)
    have cur: "current ls = 92" using Cons.prems(1) e(1) by (simp add: st_def uchar_chars)
    have "\<exists>x. read_escape ls = Inr x \<and> st ?r (b @ [c]) (m + 1) t x"
      by (rule read_escape_esc [where d = d and w = "v @ ?r", OF _ b m])
        (use Cons.prems(1) e esc1_head [of s w] in auto)
    then obtain x where x: "read_escape ls = Inr x" "st ?r (b @ [c]) (m + 1) t x" by blast
    have "read_string_loop 34 n ls = read_string_loop 34 k x"
      using cur x(1) n(1) by (simp add: EOZ_def currIsNewline_def uchar_chars)
    then show ?thesis using rec [OF x(2)] by simp
  next
    case True
    have f: "st (c # ?r) b m t ls" using Cons.prems(1) True by simp
    obtain x where x: "save_and_next ls = Inr x" "st ?r (b @ [c]) m t x" using st_save_and_next [OF f b] by blast
    have c: "c \<noteq> CHR 0x22" "c \<noteq> CHR 0x5C" "\<not> newline c" using True by (auto simp: esc1_def newline_def split: if_splits)
    have cur: "current ls = uchar c" "\<not> currIsNewline ls" using f newline_current [of ls c] c(3) by (auto simp: st_def)
    have "uchar c \<noteq> 34" "uchar c \<noteq> 92" using c(1,2) uchar_chars by (metis uchar_inj)+
    then have "read_string_loop 34 n ls = read_string_loop 34 k x"
      using cur x(1) n(1) by (simp add: uchar_chars)
    moreover have "st ?r (b @ [c]) (m + 1) t x" using x(2) by (simp add: st_def)
    ultimately show ?thesis using rec by simp
  qed
qed

lemma chars_left_feed: "feed ls w \<Longrightarrow> chars_left ls = length w"
  by (cases w) (simp_all add: chars_left_def)

lemma read_string_quoted:
  assumes "st (CHR 0x22 # concat (map esc1 s) @ CHR 0x22 # w) [] m t ls" "length s + 2 < 2 ^ 61" "m + int (length s) < MAX_INT"
  shows "\<exists>ls'. read_string ls 34 = Inr (s, ls') \<and> feed ls' w \<and> tok ls' = t"
proof -
  let ?r = "concat (map esc1 s) @ CHR 0x22 # w"
  obtain x where x: "save_and_next ls = Inr x" "st ?r [CHR 0x22] m t x" using st_save_and_next [OF assms(1)] by auto
  have "length s \<le> length (concat (map esc1 s))"
    by (induction s) (auto simp: esc1_def)
  then have "length s < Suc (chars_left x)" using chars_left_feed [of x ?r] x(2) by (simp add: st_def)
  from read_string_esc [OF x(2) _ assms(3) this] assms(2) obtain y where
    y: "read_string_loop 34 (Suc (chars_left x)) x = Inr y" "st (CHR 0x22 # w) (CHR 0x22 # s) (m + int (length s)) t y" by auto
  obtain z where z: "save_and_next y = Inr z" "st w ((CHR 0x22 # s) @ [CHR 0x22]) (m + int (length s)) t z"
    using st_save_and_next [OF y(2)] assms(2) by auto
  then show ?thesis using x(1) y(1) by (auto simp: read_string_def st_def luaX_newstring_def)
qed

text \<open>
  C27. What \<open>string.format("%q", s)\<close> writes, the lexer reads back: on a source that starts with the
  quoted form of any string \<open>s\<close> (newlines, carriage returns, quotes, backslashes and NULs
  included) the first token is the string \<open>s\<close>, and what follows the closing quote is still to be
  read. Only the number of lines must stay below \<open>MAX_INT\<close>.
\<close>

theorem quoted_reads_back:
  assumes "int (length s) + 1 < MAX_INT"
  shows "\<exists>ls1 ls2. luaX_setinput ls (addquoted s [] @ w) source = Inr ls1 \<and> luaX_next C ls1 = Inr ls2 \<and>
    tok ls2 = \<lparr>token = TK_STRING, seminfo = Sem_ts s\<rparr> \<and> feed ls2 w"
proof -
  let ?r = "concat (map esc1 s) @ CHR 0x22 # w"
  have q: "addquoted s [] @ w = CHR 0x22 # ?r" by (simp add: addquoted_def addquoted_loop_esc)
  define ls1 where "ls1 = ls\<lparr>decpoint := CHR ''.'', lookahead := (lookahead ls)\<lparr>token := TK_EOS\<rparr>, input := ?r, at_end := False,
       linenumber := 1, lastline := 1, source_name := source, buffsize := LUA_MINBUFFER, current := 34\<rparr>"
  have 1: "luaX_setinput ls (addquoted s [] @ w) source = Inr ls1"
    unfolding q by (simp add: luaX_setinput_def next_char_def ls1_def uchar_chars)
  let ?l = "resetbuffer (ls1\<lparr>lastline := linenumber ls1\<rparr>)"
  have s: "st (CHR 0x22 # ?r) [] 1 (tok ls) ?l"
    by (simp add: st_def ls1_def resetbuffer_def buf_ok_def LUA_MINBUFFER_def uchar_chars)
  have "length s + 2 < 2 ^ 61" "1 + int (length s) < MAX_INT" using assms by (simp_all add: MAX_INT_def INT_MAX_def)
  from read_string_quoted [OF s this] obtain x where x: "read_string ?l 34 = Inr (s, x)" "feed x w" "tok x = tok ls" by blast
  have c: "current ?l = 34" by (simp add: ls1_def resetbuffer_def)
  have "llex_loop C (Suc n) ?l = Inr (TK_STRING, Some (Sem_ts s), x)" for n
    using c x(1) by (simp add: Let_def currIsNewline_def uchar_def EOZ_def)
  then have "llex C (ls1\<lparr>lastline := linenumber ls1\<rparr>) = Inr (TK_STRING, Some (Sem_ts s), x)" unfolding llex_def .
  then have "luaX_next C ls1 = Inr (x\<lparr>tok := made_token (tok x) TK_STRING (Some (Sem_ts s))\<rparr>)"
    by (simp add: luaX_next_def Let_def ls1_def)
  with 1 x(2) show ?thesis by (simp add: made_token_def)
qed

definition no_state :: LexState where
  "no_state = \<lparr>current = EOZ, linenumber = 0, lastline = 0, tok = \<lparr>token = TK_EOS, seminfo = Sem_r 0\<rparr>,
     lookahead = \<lparr>token = TK_EOS, seminfo = Sem_r 0\<rparr>, input = [], at_end = True, buff = [], buffsize = 0,
     source_name = [], decpoint = CHR ''.'', anchored = []\<rparr>"

theorem quoted_reads_back_witness:
  "\<exists>C ls1 ls2. luaX_setinput no_state (addquoted [CHR ''a'', CHR 0x0A, CHR 0x00, CHR 0x22] [] @ ''x'') ''=s'' = Inr ls1 \<and>
    luaX_next C ls1 = Inr ls2 \<and> tok ls2 = \<lparr>token = TK_STRING, seminfo = Sem_ts [CHR ''a'', CHR 0x0A, CHR 0x00, CHR 0x22]\<rparr> \<and>
    feed ls2 ''x''"
  by (rule exI, rule quoted_reads_back) (simp add: MAX_INT_def INT_MAX_def)

section \<open>A NUL that passes for a dot\<close>

text \<open>
  \<open>check_next\<close> looks the current character up with \<open>strchr\<close>, which also finds the terminator of
  the set: a NUL in the source is taken for the character looked for. A dot followed by a NUL is
  the concatenation operator, and followed by two it is \<open>...\<close>.
\<close>

theorem nul_is_dot:
  "\<exists>ls1 ls2. luaX_setinput no_state [CHR ''.'', CHR 0x00] ''=s'' = Inr ls1 \<and> luaX_next C ls1 = Inr ls2 \<and>
    token (tok ls2) = TK_CONCAT \<and> luaX_tokens ! nat (TK_CONCAT - FIRST_RESERVED) = ''..''"
proof -
  have c: "chr_of 0 = CHR 0x00" "chr_of (- 1) = CHR 0xFF" "chr_of 46 = CHR ''.''" by (simp_all add: chr_of_def char_of_def)
  show ?thesis
    by (simp add: luaX_setinput_def next_char_def no_state_def luaX_next_def llex_def chars_left_def resetbuffer_def Let_def
      currIsNewline_def uchar_def EOZ_def lex_dot_def save_and_next_def save_def check_next_def c made_token_def
      LUA_MINBUFFER_def token_defs luaX_tokens_def)
qed

end
