(* ===== verification/Lua_TabLib.thy ===== *)
theory Lua_TabLib
  imports Lua_TableProps "HOL-Library.Multiset"
begin

text \<open>
  The table library (\<^verbatim>\<open>ltablib.c\<close>) over the raw integer accesses of the API, \<open>lua_rawgeti\<close> and
  \<open>lua_rawseti\<close>.

  The functions are written over the two accesses to the table as arguments \<open>G\<close> and \<open>S\<close>; the API's
  are \<open>rawgeti\<close> and \<open>rawseti\<close>.  A frame holds the table (stack index 1), the temporaries pushed
  above the arguments (the top first) and whatever else a called Lua function may change, \<open>world\<close>.
  A comparison or callback is a parameter that gets and returns the table and the world; it cannot
  reach the temporaries.  \<open>luaL_setn\<close> expands to nothing.  References are counted elsewhere.
\<close>

section \<open>The interface to tables\<close>

definition rawgeti :: "Table \<Rightarrow> int \<Rightarrow> lua_err + TValue" where
  "rawgeti t n = bindE (luaH_getnum t n) (\<lambda>p. Inr (slot_value t p))"

definition rawseti :: "(addr \<Rightarrow> u32) \<Rightarrow> Table \<Rightarrow> int \<Rightarrow> TValue \<Rightarrow> lua_err + Table" where
  "rawseti hs t n v = bindE (luaH_setnum hs t n) (\<lambda>(p, t', r). Inr (store t' p v))"

record ('t, 'w) frame =
  tab :: 't
  stk :: "TValue list"
  world :: 'w

definition lua_rawgeti :: "('t \<Rightarrow> int \<Rightarrow> lua_err + TValue) \<Rightarrow> int \<Rightarrow> ('t, 'w) frame \<Rightarrow> lua_err + ('t, 'w) frame" where
  "lua_rawgeti G n L = bindE (G (tab L) n) (\<lambda>v. Inr (L\<lparr>stk := v # stk L\<rparr>))"

definition lua_rawseti :: "('t \<Rightarrow> int \<Rightarrow> TValue \<Rightarrow> lua_err + 't) \<Rightarrow> int \<Rightarrow> ('t, 'w) frame \<Rightarrow> lua_err + ('t, 'w) frame" where
  "lua_rawseti S n L = (case stk L of [] \<Rightarrow> Inl (UB ''stack'')
     | v # s \<Rightarrow> bindE (S (tab L) n v) (\<lambda>t. Inr (L\<lparr>tab := t, stk := s\<rparr>)))"

text \<open>\<open>lua_pushvalue\<close> of the \<open>k\<close>-th value from the top, \<open>lua_pushnil\<close>, \<open>lua_pop\<close>.\<close>

definition from_top :: "nat \<Rightarrow> ('t, 'w) frame \<Rightarrow> lua_err + TValue" where
  "from_top k L = (if 0 < k \<and> k \<le> length (stk L) then Inr (stk L ! (k - 1)) else Inl (UB ''stack''))"

definition lua_pushvalue :: "nat \<Rightarrow> ('t, 'w) frame \<Rightarrow> lua_err + ('t, 'w) frame" where
  "lua_pushvalue k L = bindE (from_top k L) (\<lambda>v. Inr (L\<lparr>stk := v # stk L\<rparr>))"

definition lua_push :: "TValue \<Rightarrow> ('t, 'w) frame \<Rightarrow> ('t, 'w) frame" where
  "lua_push v L = L\<lparr>stk := v # stk L\<rparr>"

definition lua_pop :: "nat \<Rightarrow> ('t, 'w) frame \<Rightarrow> lua_err + ('t, 'w) frame" where
  "lua_pop n L = (if n \<le> length (stk L) then Inr (L\<lparr>stk := drop n (stk L)\<rparr>) else Inl (UB ''stack''))"

section \<open>Insertion and removal\<close>

text \<open>\<open>tinsert\<close>: \<open>N\<close> is \<open>aux_getn\<close>, \<open>pos\<close> the position when there are three arguments; the value to
  insert is on the top of the stack.\<close>

function move_up :: "('t \<Rightarrow> int \<Rightarrow> lua_err + TValue) \<Rightarrow> ('t \<Rightarrow> int \<Rightarrow> TValue \<Rightarrow> lua_err + 't) \<Rightarrow> int \<Rightarrow> int \<Rightarrow>
    ('t, 'w) frame \<Rightarrow> lua_err + ('t, 'w) frame" where
  "move_up G S pos i L =
     (if i > pos then
        bindE (lua_rawgeti G (i - 1) L) (\<lambda>L.
        bindE (lua_rawseti S i L) (\<lambda>L. move_up G S pos (i - 1) L))
      else Inr L)"
  by pat_completeness auto
termination by (relation "measure (\<lambda>(G, S, pos, i, L). nat (i - pos))") auto

declare move_up.simps [simp del]

definition tinsert :: "('t \<Rightarrow> lua_err + nat) \<Rightarrow> ('t \<Rightarrow> int \<Rightarrow> lua_err + TValue) \<Rightarrow> ('t \<Rightarrow> int \<Rightarrow> TValue \<Rightarrow> lua_err + 't) \<Rightarrow> nat \<Rightarrow> int \<Rightarrow>
    ('t, 'w) frame \<Rightarrow> lua_err + ('t, 'w) frame" where
  "tinsert N G S gettop pos L = bindE (N (tab L)) (\<lambda>n.
      let e = int n + 1 in
      if gettop = 2 then lua_rawseti S e L
      else if gettop = 3 then
        let e = (if pos > e then pos else e)
        in bindE (move_up G S pos e L) (\<lambda>L. lua_rawseti S pos L)
      else Inl (LUA_ERRRUN (''wrong number of arguments to 'insert'' @ [CHR 0x27])))"

function move_down :: "('t \<Rightarrow> int \<Rightarrow> lua_err + TValue) \<Rightarrow> ('t \<Rightarrow> int \<Rightarrow> TValue \<Rightarrow> lua_err + 't) \<Rightarrow> int \<Rightarrow> int \<Rightarrow>
    ('t, 'w) frame \<Rightarrow> lua_err + ('t, 'w) frame" where
  "move_down G S e pos L =
     (if pos < e then
        bindE (lua_rawgeti G (pos + 1) L) (\<lambda>L.
        bindE (lua_rawseti S pos L) (\<lambda>L. move_down G S e (pos + 1) L))
      else Inr L)"
  by pat_completeness auto
termination by (relation "measure (\<lambda>(G, S, e, pos, L). nat (e - pos))") auto

declare move_down.simps [simp del]

text \<open>\<open>tremove\<close> gives the number of results; the result is the top of the stack.\<close>

definition tremove :: "('t \<Rightarrow> lua_err + nat) \<Rightarrow> ('t \<Rightarrow> int \<Rightarrow> lua_err + TValue) \<Rightarrow> ('t \<Rightarrow> int \<Rightarrow> TValue \<Rightarrow> lua_err + 't) \<Rightarrow> int option \<Rightarrow>
    ('t, 'w) frame \<Rightarrow> lua_err + nat \<times> ('t, 'w) frame" where
  "tremove N G S opt_pos L = bindE (N (tab L)) (\<lambda>n.
      let e = int n; pos = (case opt_pos of None \<Rightarrow> e | Some p \<Rightarrow> p) in
      if \<not> (1 \<le> pos \<and> pos \<le> e) then Inr (0, L)
      else
        bindE (lua_rawgeti G pos L) (\<lambda>L.
        bindE (move_down G S e pos L) (\<lambda>L.
        bindE (lua_rawseti S e (lua_push VNil L)) (\<lambda>L. Inr (1, L)))))"

section \<open>Quicksort\<close>

text \<open>
  \<open>sort_comp\<close> on two stack indices (counted from the top): \<open>cmp\<close> is the call of the order
  function and \<open>lua_toboolean\<close> of its result, or \<open>lua_lessthan\<close> when none is given.
\<close>

type_synonym ('t, 'w) order = "TValue \<Rightarrow> TValue \<Rightarrow> 't \<times> 'w \<Rightarrow> lua_err + bool \<times> 't \<times> 'w"

definition sort_comp :: "('t, 'w) order \<Rightarrow> nat \<Rightarrow> nat \<Rightarrow> ('t, 'w) frame \<Rightarrow> lua_err + bool \<times> ('t, 'w) frame" where
  "sort_comp cmp a b L =
     bindE (from_top a L) (\<lambda>va.
     bindE (from_top b L) (\<lambda>vb.
     bindE (cmp va vb (tab L, world L)) (\<lambda>(r, t, w). Inr (r, L\<lparr>tab := t, world := w\<rparr>))))"

definition set2 :: "('t \<Rightarrow> int \<Rightarrow> TValue \<Rightarrow> lua_err + 't) \<Rightarrow> int \<Rightarrow> int \<Rightarrow> ('t, 'w) frame \<Rightarrow> lua_err + ('t, 'w) frame" where
  "set2 S i j L = bindE (lua_rawseti S i L) (\<lambda>L. lua_rawseti S j L)"

text \<open>The two inner loops.  They end for every order function: past the bounds they raise.\<close>

definition invalid_order :: lua_err where
  "invalid_order = LUA_ERRRUN ''invalid order function for sorting''"

function scan_up :: "('t \<Rightarrow> int \<Rightarrow> lua_err + TValue) \<Rightarrow> ('t, 'w) order \<Rightarrow> int \<Rightarrow> int \<Rightarrow> ('t, 'w) frame \<Rightarrow>
    lua_err + int \<times> ('t, 'w) frame" where
  "scan_up G cmp u i L =
     bindE (lua_rawgeti G (i + 1) L) (\<lambda>L.
     bindE (sort_comp cmp 1 2 L) (\<lambda>(r, L).
       if r then
         if i + 1 > u then Inl invalid_order
         else bindE (lua_pop 1 L) (\<lambda>L. scan_up G cmp u (i + 1) L)
       else Inr (i + 1, L)))"
  by pat_completeness auto
termination by (relation "measure (\<lambda>(G, cmp, u, i, L). nat (u - i))") auto

declare scan_up.simps [simp del]

function scan_down :: "('t \<Rightarrow> int \<Rightarrow> lua_err + TValue) \<Rightarrow> ('t, 'w) order \<Rightarrow> int \<Rightarrow> int \<Rightarrow> ('t, 'w) frame \<Rightarrow>
    lua_err + int \<times> ('t, 'w) frame" where
  "scan_down G cmp l j L =
     bindE (lua_rawgeti G (j - 1) L) (\<lambda>L.
     bindE (sort_comp cmp 3 1 L) (\<lambda>(r, L).
       if r then
         if j - 1 < l then Inl invalid_order
         else bindE (lua_pop 1 L) (\<lambda>L. scan_down G cmp l (j - 1) L)
       else Inr (j - 1, L)))"
  by pat_completeness auto
termination by (relation "measure (\<lambda>(G, cmp, l, j, L). nat (j - l))") auto

declare scan_down.simps [simp del]

lemma scan_up_advances: "scan_up G cmp u i L = Inr (i', L') \<Longrightarrow> i < i' \<and> (i' \<le> u + 1 \<or> i' = i + 1)"
proof (induction G cmp u i L rule: scan_up.induct)
  case (1 G cmp u i L)
  show ?case
    using 1(2) by (subst (asm) scan_up.simps) (auto simp: res_simps split: if_splits dest!: 1(1))
qed

lemma scan_down_advances: "scan_down G cmp l j L = Inr (j', L') \<Longrightarrow> j' < j"
proof (induction G cmp l j L rule: scan_down.induct)
  case (1 G cmp l j L)
  show ?case
    using 1(2) by (subst (asm) scan_down.simps) (auto simp: res_simps split: if_splits dest!: 1(1))
qed

text \<open>The loop \<open>for (;;)\<close>: it gives the last \<open>i\<close>.\<close>

function partition_loop :: "('t \<Rightarrow> int \<Rightarrow> lua_err + TValue) \<Rightarrow> ('t \<Rightarrow> int \<Rightarrow> TValue \<Rightarrow> lua_err + 't) \<Rightarrow> ('t, 'w) order \<Rightarrow>
    int \<Rightarrow> int \<Rightarrow> int \<Rightarrow> int \<Rightarrow> ('t, 'w) frame \<Rightarrow> lua_err + int \<times> ('t, 'w) frame" where
  "partition_loop G S cmp l u i j L =
     bindE (scan_up G cmp u i L) (\<lambda>(i', L).
     bindE (scan_down G cmp l j L) (\<lambda>(j', L).
       if j' < i' then bindE (lua_pop 3 L) (\<lambda>L. Inr (i', L))
       else bindE (set2 S i' j' L) (\<lambda>L. partition_loop G S cmp l u i' j' L)))"
  by pat_completeness auto

termination
  by (relation "measure (\<lambda>(G, S, cmp, l, u, i, j, L). nat (j - i))")
    (auto dest!: scan_up_advances scan_down_advances)

declare partition_loop.simps [simp del]

text \<open>The steps of \<open>auxsort\<close>: the ends in order, the middle element in order with them, the pivot moved to
  \<open>a[u-1]\<close>, the partition and the pivot moved to its place.\<close>

definition order_ends :: "('t \<Rightarrow> int \<Rightarrow> lua_err + TValue) \<Rightarrow> ('t \<Rightarrow> int \<Rightarrow> TValue \<Rightarrow> lua_err + 't) \<Rightarrow> ('t, 'w) order \<Rightarrow>
    int \<Rightarrow> int \<Rightarrow> ('t, 'w) frame \<Rightarrow> lua_err + ('t, 'w) frame" where
  "order_ends G S cmp l u L =
     bindE (lua_rawgeti G l L) (\<lambda>L.
     bindE (lua_rawgeti G u L) (\<lambda>L.
     bindE (sort_comp cmp 1 2 L) (\<lambda>(r, L).
       if r then set2 S l u L else lua_pop 2 L)))"

definition order_middle :: "('t \<Rightarrow> int \<Rightarrow> lua_err + TValue) \<Rightarrow> ('t \<Rightarrow> int \<Rightarrow> TValue \<Rightarrow> lua_err + 't) \<Rightarrow> ('t, 'w) order \<Rightarrow>
    int \<Rightarrow> int \<Rightarrow> int \<Rightarrow> ('t, 'w) frame \<Rightarrow> lua_err + ('t, 'w) frame" where
  "order_middle G S cmp l u i L =
     bindE (lua_rawgeti G i L) (\<lambda>L.
     bindE (lua_rawgeti G l L) (\<lambda>L.
     bindE (sort_comp cmp 2 1 L) (\<lambda>(r, L).
       if r then set2 S i l L
       else
         bindE (lua_pop 1 L) (\<lambda>L.
         bindE (lua_rawgeti G u L) (\<lambda>L.
         bindE (sort_comp cmp 1 2 L) (\<lambda>(r, L).
           if r then set2 S i u L else lua_pop 2 L))))))"

definition partition_at :: "('t \<Rightarrow> int \<Rightarrow> lua_err + TValue) \<Rightarrow> ('t \<Rightarrow> int \<Rightarrow> TValue \<Rightarrow> lua_err + 't) \<Rightarrow> ('t, 'w) order \<Rightarrow>
    int \<Rightarrow> int \<Rightarrow> int \<Rightarrow> ('t, 'w) frame \<Rightarrow> lua_err + int \<times> ('t, 'w) frame" where
  "partition_at G S cmp l u i L =
     bindE (lua_rawgeti G i L) (\<lambda>L.
     bindE (lua_pushvalue 1 L) (\<lambda>L.
     bindE (lua_rawgeti G (u - 1) L) (\<lambda>L.
     bindE (set2 S i (u - 1) L) (\<lambda>L.
     bindE (partition_loop G S cmp l u l (u - 1) L) (\<lambda>(i, L).
     bindE (lua_rawgeti G (u - 1) L) (\<lambda>L.
     bindE (lua_rawgeti G i L) (\<lambda>L.
     bindE (set2 S (u - 1) i L) (\<lambda>L. Inr (i, L)))))))))"

text \<open>
  \<open>auxsort\<close>: the first argument bounds the iterations of the outer loop and the nested calls, which
  an order function that contradicts itself can make endless.
\<close>

fun auxsort :: "nat \<Rightarrow> ('t \<Rightarrow> int \<Rightarrow> lua_err + TValue) \<Rightarrow> ('t \<Rightarrow> int \<Rightarrow> TValue \<Rightarrow> lua_err + 't) \<Rightarrow> ('t, 'w) order \<Rightarrow>
    int \<Rightarrow> int \<Rightarrow> ('t, 'w) frame \<Rightarrow> lua_err + ('t, 'w) frame" where
  "auxsort 0 G S cmp l u L = (if l < u then Inl (UB ''fuel'') else Inr L)"
| "auxsort (Suc k) G S cmp l u L =
     (if l < u then
        bindE (order_ends G S cmp l u L) (\<lambda>L.
        if u - l = 1 then Inr L
        else
          let i = (l + u) div 2 in
          bindE (order_middle G S cmp l u i L) (\<lambda>L.
          if u - l = 2 then Inr L
          else
            bindE (partition_at G S cmp l u i L) (\<lambda>(i, L).
              let (j, i, l, u) = (if i - l < u - i then (l, i - 1, i + 1, u) else (i + 1, u, l, i - 1))
              in bindE (auxsort k G S cmp j i L) (\<lambda>L. auxsort k G S cmp l u L))))
      else Inr L)"

definition sort :: "nat \<Rightarrow> ('t \<Rightarrow> lua_err + nat) \<Rightarrow> ('t \<Rightarrow> int \<Rightarrow> lua_err + TValue) \<Rightarrow> ('t \<Rightarrow> int \<Rightarrow> TValue \<Rightarrow> lua_err + 't) \<Rightarrow> ('t, 'w) order \<Rightarrow>
    ('t, 'w) frame \<Rightarrow> lua_err + ('t, 'w) frame" where
  "sort fuel N G S cmp L = bindE (N (tab L)) (\<lambda>n. auxsort fuel G S cmp 1 (int n) L)"

section \<open>The interface: what the accesses promise\<close>

definition in_int :: "int \<Rightarrow> bool" where
  "in_int i = (INT_MIN \<le> i \<and> i \<le> INT_MAX)"

text \<open>
  \<open>at t\<close> is the table as a map of the integers; \<open>room t\<close> says that a new key can be added. An
  access sees the map, an assignment to a key that is present, or to any key when there is room,
  updates it there and nowhere else.
\<close>

locale int_array =
  fixes G :: "'t \<Rightarrow> int \<Rightarrow> lua_err + TValue"
    and S :: "'t \<Rightarrow> int \<Rightarrow> TValue \<Rightarrow> lua_err + 't"
    and ok :: "'t \<Rightarrow> bool" and at :: "'t \<Rightarrow> int \<Rightarrow> TValue" and room :: "'t \<Rightarrow> bool"
  assumes get: "ok t \<Longrightarrow> in_int i \<Longrightarrow> G t i = Inr (at t i)"
    and set_present: "ok t \<Longrightarrow> in_int i \<Longrightarrow> at t i \<noteq> VNil \<or> room t \<Longrightarrow> \<exists>t'. S t i v = Inr t' \<and> ok t' \<and> at t' = (at t)(i := v)"

text \<open>An order function without effect on the table that answers \<open>lt\<close> on the values of \<open>V\<close>.\<close>

definition answers :: "('t, 'w) order \<Rightarrow> (TValue \<Rightarrow> TValue \<Rightarrow> bool) \<Rightarrow> TValue set \<Rightarrow> bool" where
  "answers cmp lt V = (\<forall>a\<in>V. \<forall>b\<in>V. \<forall>t w. \<exists>w'. cmp a b (t, w) = Inr (lt a b, t, w'))"

text \<open>A consistent order: asymmetric, and what is not less is transitive (a strict weak order).\<close>

definition consistent :: "(TValue \<Rightarrow> TValue \<Rightarrow> bool) \<Rightarrow> TValue set \<Rightarrow> bool" where
  "consistent lt V = ((\<forall>a\<in>V. \<forall>b\<in>V. lt a b \<longrightarrow> \<not> lt b a) \<and>
     (\<forall>a\<in>V. \<forall>b\<in>V. \<forall>c\<in>V. \<not> lt a b \<longrightarrow> \<not> lt b c \<longrightarrow> \<not> lt a c))"

lemma consistentD:
  assumes "consistent lt V"
  shows "a \<in> V \<Longrightarrow> b \<in> V \<Longrightarrow> lt a b \<Longrightarrow> \<not> lt b a"
    "a \<in> V \<Longrightarrow> b \<in> V \<Longrightarrow> c \<in> V \<Longrightarrow> \<not> lt a b \<Longrightarrow> \<not> lt b c \<Longrightarrow> \<not> lt a c"
    "a \<in> V \<Longrightarrow> \<not> lt a a"
  using assms unfolding consistent_def by blast+

text \<open>\<open>g\<close> has the values of \<open>f\<close> in another order on \<open>S\<close> and is the same elsewhere.\<close>

definition shuffled :: "int set \<Rightarrow> (int \<Rightarrow> TValue) \<Rightarrow> (int \<Rightarrow> TValue) \<Rightarrow> bool" where
  "shuffled S f g = (image_mset f (mset_set S) = image_mset g (mset_set S) \<and> (\<forall>k. k \<notin> S \<longrightarrow> g k = f k))"

lemma shuffled_refl [simp]: "shuffled S f f"
  by (simp add: shuffled_def)

lemma shuffled_trans: "shuffled S f g \<Longrightarrow> shuffled S g h \<Longrightarrow> shuffled S f h"
  by (simp add: shuffled_def)

lemma shuffled_swap:
  assumes "finite S" "i \<in> S" "j \<in> S"
  shows "shuffled S f (f(i := f j, j := f i))"
proof (cases "i = j")
  case False
  define R where "R = S - {i, j}"
  have S: "S = insert i (insert j R)" "finite R" "i \<notin> insert j R" "j \<notin> R" using assms False by (auto simp: R_def)
  have m: "mset_set S = {#i, j#} + mset_set R" using S by simp
  have "image_mset (f(i := f j, j := f i)) (mset_set R) = image_mset f (mset_set R)"
    by (rule image_mset_cong) (use S in auto)
  then show ?thesis using False assms(2,3) unfolding shuffled_def m by auto
qed (simp add: shuffled_def)

lemma shuffled_mono:
  assumes "shuffled S f g" "S \<subseteq> T" "finite T"
  shows "shuffled T f g"
proof -
  have f: "finite S" "finite (T - S)" "S \<inter> (T - S) = {}" using assms(2,3) finite_subset by auto
  have T: "T = S \<union> (T - S)" using assms(2) by blast
  have "mset_set T = mset_set S + mset_set (T - S)" by (subst T, rule mset_set_Union [OF f])
  moreover have "image_mset g (mset_set (T - S)) = image_mset f (mset_set (T - S))"
    by (rule image_mset_cong) (use assms(1) f in \<open>auto simp: shuffled_def\<close>)
  ultimately show ?thesis using assms(1,2) by (auto simp: shuffled_def)
qed

lemma shuffled_other: "shuffled S f g \<Longrightarrow> S \<inter> T = {} \<Longrightarrow> k \<in> T \<Longrightarrow> g k = f k"
  by (auto simp: shuffled_def)

lemma shuffled_image: "shuffled S f g \<Longrightarrow> finite S \<Longrightarrow> g ` S = f ` S"
  unfolding shuffled_def by (metis finite_set_mset_mset_set set_image_mset)

lemma shuffled_value: "shuffled S f g \<Longrightarrow> finite S \<Longrightarrow> (\<And>k. k \<in> S \<Longrightarrow> P (f k)) \<Longrightarrow> k \<in> S \<Longrightarrow> P (g k)"
  using shuffled_image [of S f g] by (metis imageE imageI)

text \<open>The frame: the table's map and the temporaries.\<close>

definition frame_is :: "('t \<Rightarrow> bool) \<Rightarrow> ('t \<Rightarrow> int \<Rightarrow> TValue) \<Rightarrow> (int \<Rightarrow> TValue) \<Rightarrow> TValue list \<Rightarrow> ('t, 'w) frame \<Rightarrow> bool" where
  "frame_is ok at f s L = (ok (tab L) \<and> at (tab L) = f \<and> stk L = s)"

context int_array
begin

lemma rawgeti_wp:
  assumes "frame_is ok at f s L" "in_int i" "\<And>x. frame_is ok at f (f i # s) x \<Longrightarrow> returns Q (k x)"
  shows "returns Q (bindE (lua_rawgeti G i L) k)"
  using assms get [of "tab L" i] by (auto simp: lua_rawgeti_def frame_is_def)

lemma rawseti_ok:
  assumes "frame_is ok at f (v # s) L" "in_int i" "f i \<noteq> VNil \<or> room (tab L)"
  shows "returns (frame_is ok at (f(i := v)) s) (lua_rawseti S i L)"
  using assms set_present [of "tab L" i v] by (auto simp: lua_rawseti_def frame_is_def returns_def)

lemma set2_ok:
  assumes "frame_is ok at f (v # w # s) L" "in_int i" "in_int j" "f i \<noteq> VNil" "f j \<noteq> VNil" "v \<noteq> VNil"
  shows "returns (frame_is ok at (f(i := v, j := w)) s) (set2 S i j L)"
  unfolding set2_def
  by (rule returns_bind [OF rawseti_ok [OF assms(1)]], use assms in simp_all, rule rawseti_ok, use assms in auto)

lemma pop_ok: "frame_is ok at f (ys @ s) L \<Longrightarrow> length ys = n \<Longrightarrow> returns (frame_is ok at f s) (lua_pop n L)"
  by (auto simp: lua_pop_def frame_is_def)

lemma pop_wp:
  assumes "frame_is ok at f (v # s) L" "\<And>x. frame_is ok at f s x \<Longrightarrow> returns Q (k x)"
  shows "returns Q (bindE (lua_pop 1 L) k)"
  using assms by (auto simp: lua_pop_def frame_is_def)

lemma pushvalue_wp:
  assumes "frame_is ok at f (v # s) L" "\<And>x. frame_is ok at f (v # v # s) x \<Longrightarrow> returns Q (k x)"
  shows "returns Q (bindE (lua_pushvalue 1 L) k)"
  using assms by (auto simp: lua_pushvalue_def from_top_def frame_is_def)

lemma comp_wp:
  assumes "frame_is ok at f s L" "answers cmp lt V" "0 < a" "a \<le> length s" "0 < b" "b \<le> length s"
    "s ! (a - 1) \<in> V" "s ! (b - 1) \<in> V"
    "\<And>x. frame_is ok at f s x \<Longrightarrow> returns Q (k (lt (s ! (a - 1)) (s ! (b - 1)), x))"
  shows "returns Q (bindE (sort_comp cmp a b L) k)"
proof -
  obtain w' where "cmp (s ! (a - 1)) (s ! (b - 1)) (tab L, world L) = Inr (lt (s ! (a - 1)) (s ! (b - 1)), tab L, w')"
    using assms(2,7,8) unfolding answers_def by blast
  then have "sort_comp cmp a b L = Inr (lt (s ! (a - 1)) (s ! (b - 1)), L\<lparr>tab := tab L, world := w'\<rparr>)"
    using assms(1,3-6) by (simp add: sort_comp_def from_top_def frame_is_def)
  then show ?thesis using assms(1,9) by (simp add: frame_is_def)
qed

lemma scan_up_ok:
  assumes "frame_is ok at f (P # s) L" "answers cmp lt V" "P \<in> V" "i < m" "m \<le> u" "\<not> lt (f m) P"
    "\<And>k. i < k \<Longrightarrow> k \<le> m \<Longrightarrow> f k \<in> V \<and> in_int k"
  shows "returns (\<lambda>(i', x). i < i' \<and> i' \<le> m \<and> \<not> lt (f i') P \<and> (\<forall>k. i < k \<and> k < i' \<longrightarrow> lt (f k) P) \<and>
    frame_is ok at f (f i' # P # s) x) (scan_up G cmp u i L)"
  using assms(1,4,7)
proof (induction "nat (m - i)" arbitrary: i L rule: less_induct)
  case (less i L)
  note c = assms(2,3) less.prems(3) [of "i + 1"] less.prems(2)
  show ?case
  proof (subst scan_up.simps, rule rawgeti_wp [OF less.prems(1)], goal_cases)
    case (2 x)
    show ?case
    proof (rule comp_wp [OF 2 assms(2)], goal_cases)
      case (7 y)
      show ?case
      proof (cases "lt (f (i + 1)) P")
        case True
        then have m: "i + 1 < m" using assms(6) c(4) by (cases "i + 1 = m") auto
        have "returns (\<lambda>(i', x). i < i' \<and> i' \<le> m \<and> \<not> lt (f i') P \<and> (\<forall>k. i < k \<and> k < i' \<longrightarrow> lt (f k) P) \<and>
            frame_is ok at f (f i' # P # s) x) (scan_up G cmp u (i + 1) z)" if z: "frame_is ok at f (P # s) z" for z
          by (rule returns_mono [OF less.hyps [OF _ z m less.prems(3)]])
            (use c(4) True in \<open>auto, metis add1_zle_eq order_le_less\<close>)
        then show ?thesis using True m assms(5) by (simp del: One_nat_def) (rule pop_wp [OF 7])
      qed (use 7 c in auto)
    qed (use c in auto)
  qed (use c in auto)
qed

lemma scan_down_ok:
  assumes "frame_is ok at f (q # P # s) L" "answers cmp lt V" "P \<in> V" "m < j" "l \<le> m" "\<not> lt P (f m)"
    "\<And>k. m \<le> k \<Longrightarrow> k < j \<Longrightarrow> f k \<in> V \<and> in_int k"
  shows "returns (\<lambda>(j', x). m \<le> j' \<and> j' < j \<and> \<not> lt P (f j') \<and> (\<forall>k. j' < k \<and> k < j \<longrightarrow> lt P (f k)) \<and>
    frame_is ok at f (f j' # q # P # s) x) (scan_down G cmp l j L)"
  using assms(1,4,7)
proof (induction "nat (j - m)" arbitrary: j L rule: less_induct)
  case (less j L)
  note c = assms(2,3) less.prems(3) [of "j - 1"] less.prems(2)
  show ?case
  proof (subst scan_down.simps, rule rawgeti_wp [OF less.prems(1)], goal_cases)
    case (2 x)
    show ?case
    proof (rule comp_wp [OF 2 assms(2)], goal_cases)
      case (7 y)
      show ?case
      proof (cases "lt P (f (j - 1))")
        case True
        then have m: "m < j - 1" using assms(6) c(4) by (cases "j - 1 = m") auto
        have "returns (\<lambda>(j', x). m \<le> j' \<and> j' < j \<and> \<not> lt P (f j') \<and> (\<forall>k. j' < k \<and> k < j \<longrightarrow> lt P (f k)) \<and>
            frame_is ok at f (f j' # q # P # s) x) (scan_down G cmp l (j - 1) z)" if z: "frame_is ok at f (q # P # s) z" for z
          by (rule returns_mono [OF less.hyps [OF _ z m less.prems(3)]])
            (use c(4) True in \<open>auto, metis linorder_cases zle_diff1_eq not_less\<close>)
        then show ?thesis using True m assms(5) by (simp del: One_nat_def) (rule pop_wp [OF 7])
      qed (use 7 c in auto)
    qed (use c in auto)
  qed (use c in auto)
qed

end

section \<open>Partition\<close>

text \<open>The invariant of the partition loop: \<open>a[l..i] <= P == a[u-1] <= a[j..u]\<close>.\<close>

definition part_inv :: "(TValue \<Rightarrow> TValue \<Rightarrow> bool) \<Rightarrow> int \<Rightarrow> int \<Rightarrow> TValue \<Rightarrow> int \<Rightarrow> int \<Rightarrow> (int \<Rightarrow> TValue) \<Rightarrow> bool" where
  "part_inv lt l u P i j f = (l \<le> i \<and> i < u - 1 \<and> l < j \<and> j \<le> u - 1 \<and> f (u - 1) = P \<and>
     (\<forall>k. l \<le> k \<and> k \<le> i \<longrightarrow> \<not> lt P (f k)) \<and> (\<forall>k. j \<le> k \<and> k \<le> u \<longrightarrow> \<not> lt (f k) P))"

text \<open>What it leaves: everything before \<open>i\<close> is at most \<open>P\<close>, everything from \<open>i\<close> on at least.\<close>

definition parted :: "(TValue \<Rightarrow> TValue \<Rightarrow> bool) \<Rightarrow> int \<Rightarrow> int \<Rightarrow> TValue \<Rightarrow> int \<Rightarrow> (int \<Rightarrow> TValue) \<Rightarrow> bool" where
  "parted lt l u P i f = (l < i \<and> i \<le> u - 1 \<and> f (u - 1) = P \<and>
     (\<forall>k. l \<le> k \<and> k < i \<longrightarrow> \<not> lt P (f k)) \<and> (\<forall>k. i \<le> k \<and> k \<le> u \<longrightarrow> \<not> lt (f k) P))"

lemma part_inv_end:
  assumes "part_inv lt l u P i j f" "i < i'" "i' \<le> u - 1" "\<And>k. i < k \<Longrightarrow> k < i' \<Longrightarrow> \<not> lt P (f k)"
    "j' < i'" "\<And>k. j' < k \<Longrightarrow> k < j \<Longrightarrow> \<not> lt (f k) P"
  shows "parted lt l u P i' f"
  using assms unfolding part_inv_def parted_def by (smt (verit, best))

lemma part_inv_swap:
  assumes "part_inv lt l u P i j f" "i < i'" "\<And>k. i < k \<Longrightarrow> k < i' \<Longrightarrow> \<not> lt P (f k)" "\<not> lt (f i') P"
    "i' \<le> j'" "j' < j" "\<And>k. j' < k \<Longrightarrow> k < j \<Longrightarrow> \<not> lt (f k) P" "\<not> lt P (f j')"
  shows "part_inv lt l u P i' j' (f(i' := f j', j' := f i'))"
  using assms unfolding part_inv_def by (smt (verit, best) fun_upd_apply)

context int_array
begin

lemma partition_loop_ok:
  fixes L :: "('t, 'w) frame"
  assumes "frame_is ok at f (P # s) L" "answers cmp lt V" "consistent lt V" "P \<in> V" "VNil \<notin> V"
    "part_inv lt l u P i j f" "\<And>k. k \<in> {l..u} \<Longrightarrow> f k \<in> V" "\<And>k. k \<in> {l..u} \<Longrightarrow> in_int k"
  shows "returns (\<lambda>(i', x). \<exists>g. shuffled {l..u} f g \<and> parted lt l u P i' g \<and> frame_is ok at g s x)
    (partition_loop G S cmp l u i j L)"
  using assms(1,6,7)
proof (induction "nat (j - i)" arbitrary: i j f L rule: less_induct)
  case (less i j f L)
  note V = less.prems(3) and inv = less.prems(2) [unfolded part_inv_def]
  have irr: "\<not> lt P P" using consistentD(3) [OF assms(3,4)] .
  show ?case
  proof (subst partition_loop.simps, rule returns_bind [OF scan_up_ok [OF less.prems(1) assms(2,4), of i "u - 1"]], goal_cases)
    case (5 a)
    obtain i' x where a: "a = (i', x)" by (cases a)
    with 5 have 5: "i < i'" "i' \<le> u - 1" "\<not> lt (f i') P" "\<forall>k. i < k \<and> k < i' \<longrightarrow> lt (f k) P" "frame_is ok at f (f i' # P # s) x" by auto
    show ?case
      unfolding a
    proof (simp, rule returns_bind [OF scan_down_ok [OF 5(5) assms(2,4), of l j]], goal_cases)
      case (5 b)
      obtain j' y where b: "b = (j', y)" by (cases b)
      with 5 have 6: "l \<le> j'" "j' < j" "\<not> lt P (f j')" "\<forall>k. j' < k \<and> k < j \<longrightarrow> lt P (f k)" "frame_is ok at f (f j' # f i' # P # s) y" by auto
      have up: "\<not> lt P (f k)" if "i < k" "k < i'" for k
        using consistentD(1) [OF assms(3) V assms(4), of k] \<open>\<forall>k. i < k \<and> k < i' \<longrightarrow> lt (f k) P\<close> that inv \<open>i' \<le> u - 1\<close> by auto
      have down: "\<not> lt (f k) P" if "j' < k" "k < j" for k
        using consistentD(1) [OF assms(3,4) V, of k] 6(1,4) that inv by auto
      show ?case
      proof (cases "j' < i'")
        case True
        have "parted lt l u P i' f" by (rule part_inv_end [OF less.prems(2) \<open>i < i'\<close> \<open>i' \<le> u - 1\<close> up True down])
        moreover have "returns (frame_is ok at f s) (lua_pop 3 y)" by (rule pop_ok [where ys = "[f j', f i', P]"]) (use 6 in simp_all)
        ultimately show ?thesis using True unfolding b by (auto simp: returns_def intro!: exI [of _ f])
      next
        case False
        let ?g = "f(i' := f j', j' := f i')"
        have r: "i' \<in> {l..u}" "j' \<in> {l..u}" "i' \<le> j'" using False \<open>i < i'\<close> 6(1,2) \<open>i' \<le> u - 1\<close> inv by auto
        have nn: "f i' \<noteq> VNil" "f j' \<noteq> VNil" using V [OF r(1)] V [OF r(2)] assms(5) by auto
        have g: "part_inv lt l u P i' j' ?g"
          by (rule part_inv_swap [OF less.prems(2) \<open>i < i'\<close> up \<open>\<not> lt (f i') P\<close> r(3) 6(2) down 6(3)])
        have sh: "shuffled {l..u} f ?g" by (rule shuffled_swap) (use r in auto)
        have "returns (frame_is ok at ?g (P # s)) (set2 S i' j' y)"
          by (rule set2_ok [OF 6(5)]) (use r nn assms(8) in auto)
        then have "returns (\<lambda>(k, x). \<exists>h. shuffled {l..u} f h \<and> parted lt l u P k h \<and> frame_is ok at h s x)
          (bindE (set2 S i' j' y) (partition_loop G S cmp l u i' j'))"
        proof (rule returns_bind)
          fix z :: "('t, 'w) frame" assume z: "frame_is ok at ?g (P # s) z"
          have "nat (j' - i') < nat (j - i)" using r(3) \<open>i < i'\<close> 6(2) by simp
          have "?g k \<in> V" if "k \<in> {l..u}" for k
            using shuffled_value [OF sh, of "\<lambda>v. v \<in> V"] V that by blast
          note IH = less.hyps [OF \<open>nat (j' - i') < nat (j - i)\<close> z g this]
          show "returns (\<lambda>(k, x). \<exists>h. shuffled {l..u} f h \<and> parted lt l u P k h \<and> frame_is ok at h s x)
            (partition_loop G S cmp l u i' j' z)"
            by (rule returns_mono [OF IH]) (simp only: case_prod_beta, blast intro: shuffled_trans [OF sh])
        qed
        then show ?thesis using False unfolding b by simp
      qed
    qed (use inv V assms(8) in auto)
  qed (use inv irr V assms(8) in auto)
qed

lemma order_ends_ok:
  assumes "frame_is ok at f s L" "answers cmp lt V" "consistent lt V" "VNil \<notin> V"
    "f l \<in> V" "f u \<in> V" "in_int l" "in_int u" "l < u"
  shows "returns (\<lambda>x. \<exists>g. shuffled {l, u} f g \<and> \<not> lt (g u) (g l) \<and> frame_is ok at g s x) (order_ends G S cmp l u L)"
  unfolding order_ends_def
proof (rule rawgeti_wp [OF assms(1,7)], rule rawgeti_wp [OF _ assms(8)], assumption, rule comp_wp [OF _ assms(2)], assumption, goal_cases)
  case (7 x y z)
  note c = consistentD [OF assms(3)] and d = assms(4-9)
  show ?case
  proof (cases "lt (f u) (f l)")
    case True
    have "returns (frame_is ok at (f(l := f u, u := f l)) s) (set2 S l u z)"
      by (rule set2_ok) (use 7 d in auto)
    moreover have "shuffled {l, u} f (f(l := f u, u := f l))" by (rule shuffled_swap) auto
    ultimately show ?thesis using True c(1) d by (auto elim!: returns_mono intro!: exI)
  next
    case False
    have "returns (frame_is ok at f s) (lua_pop 2 z)" by (rule pop_ok [where ys = "[f u, f l]"]) (use 7 in auto)
    then show ?thesis using False by (auto elim!: returns_mono intro!: exI)
  qed
qed (use assms in auto)

lemma order_middle_ok:
  assumes "frame_is ok at f s L" "answers cmp lt V" "consistent lt V" "VNil \<notin> V" "f l \<in> V" "f i \<in> V" "f u \<in> V"
    "in_int l" "in_int i" "in_int u" "l < i" "i < u" "\<not> lt (f u) (f l)"
  shows "returns (\<lambda>x. \<exists>g. shuffled {l, i, u} f g \<and> \<not> lt (g i) (g l) \<and> \<not> lt (g u) (g i) \<and> frame_is ok at g s x)
    (order_middle G S cmp l u i L)"
  unfolding order_middle_def
proof (rule rawgeti_wp [OF assms(1,9)], rule rawgeti_wp [OF _ assms(8)], assumption, rule comp_wp [OF _ assms(2)], assumption, goal_cases)
  case (7 x y z)
  note c = consistentD [OF assms(3)] and d = assms(4-13)
  show ?case
  proof (cases "lt (f i) (f l)")
    case True
    have "returns (frame_is ok at (f(i := f l, l := f i)) s) (set2 S i l z)"
      by (rule set2_ok) (use 7 d in auto)
    moreover have "shuffled {l, i, u} f (f(i := f l, l := f i))" by (rule shuffled_swap) auto
    ultimately show ?thesis using True c(1) d by (auto elim!: returns_mono intro!: exI)
  next
    case False
    have "returns (\<lambda>x. \<exists>g. shuffled {l, i, u} f g \<and> \<not> lt (g i) (g l) \<and> \<not> lt (g u) (g i) \<and> frame_is ok at g s x)
      (bindE (lua_pop 1 z) (\<lambda>L. bindE (lua_rawgeti G u L) (\<lambda>L. bindE (sort_comp cmp 1 2 L) (\<lambda>(r, L).
        if r then set2 S i u L else lua_pop 2 L))))"
    proof (rule pop_wp [OF 7(3)], rule rawgeti_wp [OF _ assms(10)], assumption, rule comp_wp [OF _ assms(2)], assumption, goal_cases)
      case (7 x y z)
      show ?case
      proof (cases "lt (f u) (f i)")
        case True
        have "returns (frame_is ok at (f(i := f u, u := f i)) s) (set2 S i u z)"
          by (rule set2_ok) (use 7 d in auto)
        moreover have "shuffled {l, i, u} f (f(i := f u, u := f i))" by (rule shuffled_swap) auto
        ultimately show ?thesis using True False c(1) d by (auto elim!: returns_mono intro!: exI)
      next
        case not: False
        have "returns (frame_is ok at f s) (lua_pop 2 z)" by (rule pop_ok [where ys = "[f u, f i]"]) (use 7 in auto)
        then show ?thesis using not False by (auto elim!: returns_mono intro!: exI)
      qed
    qed (use d in auto)
    then show ?thesis using False by simp
  qed
qed (use assms in auto)

end

section \<open>Sorting\<close>

definition sorted_on :: "(TValue \<Rightarrow> TValue \<Rightarrow> bool) \<Rightarrow> int \<Rightarrow> int \<Rightarrow> (int \<Rightarrow> TValue) \<Rightarrow> bool" where
  "sorted_on lt l u f = (\<forall>p q. l \<le> p \<and> p < q \<and> q \<le> u \<longrightarrow> \<not> lt (f q) (f p))"

text \<open>\<open>i\<close> splits the slice: what is before it is at most its value, what is behind it at least.\<close>

definition pivot_at :: "(TValue \<Rightarrow> TValue \<Rightarrow> bool) \<Rightarrow> int \<Rightarrow> int \<Rightarrow> int \<Rightarrow> (int \<Rightarrow> TValue) \<Rightarrow> bool" where
  "pivot_at lt l u i f = (l < i \<and> i < u \<and> (\<forall>k\<in>{l..i-1}. \<not> lt (f i) (f k)) \<and> (\<forall>k\<in>{i+1..u}. \<not> lt (f k) (f i)))"

lemma parted_pivot:
  assumes "parted lt l u P i g" "\<not> lt P P"
  shows "pivot_at lt l u i (g(u - 1 := g i, i := P))"
  using assms unfolding parted_def pivot_at_def by auto

lemma halves_sorted:
  assumes "consistent lt V" "pivot_at lt l u i f" "\<And>k. k \<in> {l..u} \<Longrightarrow> f k \<in> V"
    "g ` {l..i-1} \<subseteq> f ` {l..i-1}" "g ` {i+1..u} \<subseteq> f ` {i+1..u}" "g i = f i"
    "sorted_on lt l (i - 1) g" "sorted_on lt (i + 1) u g"
  shows "sorted_on lt l u g"
proof -
  note p = assms(2) [unfolded pivot_at_def]
  have low: "\<not> lt (f i) (g k) \<and> g k \<in> V" if "k \<in> {l..i-1}" for k
  proof -
    obtain k' where "k' \<in> {l..i-1}" "g k = f k'" using assms(4) \<open>k \<in> {l..i-1}\<close> by blast
    then show ?thesis using p assms(3) [of k'] by auto
  qed
  have high: "\<not> lt (g k) (f i) \<and> g k \<in> V" if "k \<in> {i+1..u}" for k
  proof -
    obtain k' where "k' \<in> {i+1..u}" "g k = f k'" using assms(5) \<open>k \<in> {i+1..u}\<close> by blast
    then show ?thesis using p assms(3) [of k'] by auto
  qed
  have i: "f i \<in> V" using assms(3) p by simp
  show ?thesis
    unfolding sorted_on_def
  proof (intro allI impI)
    fix a b assume ab: "l \<le> a \<and> a < b \<and> b \<le> u"
    consider "b \<le> i - 1" | "b = i" | "a = i" | "i + 1 \<le> a" | "a \<le> i - 1" "i + 1 \<le> b" by linarith
    then show "\<not> lt (g b) (g a)"
    proof cases
      case 5
      then show ?thesis using low [of a] high [of b] ab i consistentD(2) [OF assms(1), of "g b" "f i" "g a"] by simp
    qed (use ab assms(6-8) low [of a] high [of b] in \<open>auto simp: sorted_on_def\<close>)
  qed
qed

lemma sorted_2:
  assumes "u - l = 1" "\<not> lt (g u) (g l)"
  shows "sorted_on lt l u g"
proof -
  have "p = l \<and> q = u" if "l \<le> p \<and> p < q \<and> q \<le> u" for p q using that assms(1) by linarith
  then show ?thesis using assms(2) unfolding sorted_on_def by metis
qed

lemma sorted_3:
  assumes "consistent lt V" "\<And>k. k \<in> {l..u} \<Longrightarrow> g k \<in> V" "u - l = 2" "\<not> lt (g i) (g l)" "\<not> lt (g u) (g i)" "i = (l + u) div 2"
  shows "sorted_on lt l u g"
proof -
  have i: "i = l + 1" "u = l + 2" using assms(3,6) by simp_all
  then have "\<not> lt (g u) (g l)" using consistentD(2) [OF assms(1), of "g u" "g i" "g l"] assms(2,4,5) by simp
  moreover have "p = l \<and> q = i \<or> p = l \<and> q = u \<or> p = i \<and> q = u" if "l \<le> p \<and> p < q \<and> q \<le> u" for p q
    using that i by linarith
  ultimately show ?thesis using assms(4,5) unfolding sorted_on_def by metis
qed

context int_array
begin

lemma partition_at_ok:
  fixes L :: "('t, 'w) frame"
  assumes "frame_is ok at f s L" "answers cmp lt V" "consistent lt V" "VNil \<notin> V"
    "\<And>k. k \<in> {l..u} \<Longrightarrow> f k \<in> V" "\<And>k. k \<in> {l..u} \<Longrightarrow> in_int k" "l < i" "i < u - 1"
    "\<not> lt (f i) (f l)" "\<not> lt (f u) (f i)"
  shows "returns (\<lambda>(i', x). \<exists>g. shuffled {l..u} f g \<and> pivot_at lt l u i' g \<and> frame_is ok at g s x) (partition_at G S cmp l u i L)"
proof -
  let ?f = "f(i := f (u - 1), u - 1 := f i)"
  have nn: "f k \<noteq> VNil" if "k \<in> {l..u}" for k using assms(4,5) that by metis
  have r: "i \<in> {l..u}" "u - 1 \<in> {l..u}" using assms(7,8) by auto
  have irr: "\<not> lt (f i) (f i)" using consistentD(3) [OF assms(3)] assms(5) r by blast
  have sh: "shuffled {l..u} f ?f" by (rule shuffled_swap) (use r in auto)
  have V: "?f k \<in> V" if "k \<in> {l..u}" for k using shuffled_value [OF sh, of "\<lambda>v. v \<in> V"] assms(5) that by blast
  have inv: "part_inv lt l u (f i) l (u - 1) ?f"
    using assms(7-10) irr unfolding part_inv_def by (auto simp: order_le_less)
  have fin: "returns (\<lambda>(i', x). \<exists>g. shuffled {l..u} f g \<and> pivot_at lt l u i' g \<and> frame_is ok at g s x)
     (bindE (lua_rawgeti G (u - 1) x) (\<lambda>L. bindE (lua_rawgeti G i' L) (\<lambda>L. bindE (set2 S (u - 1) i' L) (\<lambda>L. Inr (i', L)))))"
    if h: "shuffled {l..u} ?f h" "parted lt l u (f i) i' h" "frame_is ok at h s x" for h i' and x :: "('t, 'w) frame"
  proof (rule rawgeti_wp [OF h(3)], use r assms(6) in blast, rule rawgeti_wp, assumption, goal_cases)
    case (2 y z)
    have i': "i' \<in> {l..u}" "h (u - 1) = f i" using h(2) by (auto simp: parted_def)
    have "h k \<noteq> VNil" if "k \<in> {l..u}" for k
      using shuffled_value [OF shuffled_trans [OF sh h(1)], of "\<lambda>v. v \<noteq> VNil"] nn that by blast
    then have set: "returns (frame_is ok at (h(u - 1 := h i', i' := f i)) s) (set2 S (u - 1) i' z)"
      using 2(2) i' r assms(6) by (intro set2_ok) auto
    have "shuffled {l..u} h (h(u - 1 := h i', i' := h (u - 1)))" by (rule shuffled_swap) (use i' r in auto)
    from shuffled_trans [OF shuffled_trans [OF sh h(1)] this] parted_pivot [OF h(2) irr] i'(2)
    have "shuffled {l..u} f (h(u - 1 := h i', i' := f i)) \<and> pivot_at lt l u i' (h(u - 1 := h i', i' := f i))" by metis
    then show ?case by (intro returns_bind [OF set]) (simp only: returns_simps prod.case, blast)
  qed (use h(2) assms(6) in \<open>auto simp: parted_def\<close>)
  show ?thesis
    unfolding partition_at_def
  proof (rule rawgeti_wp [OF assms(1)], use r assms(6) in blast, rule pushvalue_wp, assumption,
      rule rawgeti_wp, assumption, use r assms(6) in blast, goal_cases)
    case (1 x y z)
    have "returns (frame_is ok at ?f (f i # s)) (set2 S i (u - 1) z)"
      by (rule set2_ok [OF 1(3)]) (use r assms(6) nn in auto)
    then show ?case
    proof (rule returns_bind)
      fix z :: "('t, 'w) frame" assume z: "frame_is ok at ?f (f i # s) z"
      have "f i \<in> V" using assms(5) r by blast
      show "returns (\<lambda>(i', x). \<exists>g. shuffled {l..u} f g \<and> pivot_at lt l u i' g \<and> frame_is ok at g s x)
        (bindE (partition_loop G S cmp l u l (u - 1) z) (\<lambda>(i', x).
           bindE (lua_rawgeti G (u - 1) x) (\<lambda>L. bindE (lua_rawgeti G i' L) (\<lambda>L. bindE (set2 S (u - 1) i' L) (\<lambda>L. Inr (i', L))))))"
      proof (rule returns_bind [OF partition_loop_ok [OF z assms(2,3) \<open>f i \<in> V\<close> assms(4) inv V assms(6)]], goal_cases)
        case (3 r)
        obtain i' x where r: "r = (i', x)" by (cases r)
        from 3 obtain h where "shuffled {l..u} ?f h" "parted lt l u (f i) i' h" "frame_is ok at h s x"
          unfolding r prod.case by blast
        then show ?case unfolding r prod.case by (rule fin)
      qed
    qed
  qed
qed

text \<open>The two nested calls, given that \<open>auxsort n\<close> sorts slices of at most \<open>n\<close> steps.\<close>

lemma auxsort_halves:
  fixes x :: "('t, 'w) frame"
  assumes IH: "\<And>f l u (L :: ('t, 'w) frame). frame_is ok at f s L \<Longrightarrow> (\<And>k. k \<in> {l..u} \<Longrightarrow> f k \<in> V) \<Longrightarrow> (\<And>k. k \<in> {l..u} \<Longrightarrow> in_int k) \<Longrightarrow>
      nat (u - l) \<le> n \<Longrightarrow> returns (\<lambda>x. \<exists>g. shuffled {l..u} f g \<and> sorted_on lt l u g \<and> frame_is ok at g s x) (auxsort n G S cmp l u L)"
    and c: "consistent lt V" and I: "\<And>k. k \<in> {l..u} \<Longrightarrow> in_int k" and hV: "\<And>k. k \<in> {l..u} \<Longrightarrow> h k \<in> V"
    and h: "pivot_at lt l u i h" "frame_is ok at h s x" and n: "nat (u - l) \<le> Suc n"
    and abcd: "(a, b, c, d) = (l, i - 1, i + 1, u) \<or> (a, b, c, d) = (i + 1, u, l, i - 1)"
  shows "returns (\<lambda>x. \<exists>g. shuffled {l..u} h g \<and> sorted_on lt l u g \<and> frame_is ok at g s x)
    (bindE (auxsort n G S cmp a b x) (\<lambda>L. auxsort n G S cmp c d L))"
proof -
  have sub: "{a..b} \<subseteq> {l..u}" "{c..d} \<subseteq> {l..u}" "nat (b - a) \<le> n" "nat (d - c) \<le> n" "i \<notin> {a..b}" "i \<notin> {c..d}" "{a..b} \<inter> {c..d} = {}"
    using abcd h(1) n by (auto simp: pivot_at_def)
  show ?thesis
  proof (rule returns_bind [OF IH [OF h(2), of a b, OF hV _ sub(3)]], goal_cases)
    case (3 y)
    then obtain g where g: "shuffled {a..b} h g" "sorted_on lt a b g" "frame_is ok at g s y" by blast
    have hg: "shuffled {l..u} h g" using shuffled_mono [OF g(1) sub(1)] by simp
    have gV: "g k \<in> V" if "k \<in> {l..u}" for k using shuffled_value [OF hg, of "\<lambda>v. v \<in> V"] hV that by blast
    show ?case
    proof (rule returns_mono [OF IH [OF g(3), of c d, OF gV _ sub(4)]], goal_cases)
      case (3 z)
      then obtain g' where g': "shuffled {c..d} g g'" "sorted_on lt c d g'" "frame_is ok at g' s z" by blast
      have o: "g' k = g k" if "k \<in> {a..b}" for k using shuffled_other [OF g'(1)] sub(7) that by blast
      then have e: "g' ` {a..b} = g ` {a..b}" "sorted_on lt a b g'"
        using g(2) by (auto simp: sorted_on_def intro: image_cong)
      have e': "g ` {c..d} = h ` {c..d}"
        using shuffled_other [OF g(1) sub(7)] by (intro image_cong) auto
      have "g' ` {a..b} = h ` {a..b}" "g' ` {c..d} = h ` {c..d}" "g' i = h i"
        using e e' shuffled_image [OF g(1)] shuffled_image [OF g'(1)] sub(5,6) g(1) g'(1) by (auto simp: shuffled_def)
      then have "sorted_on lt l u g'"
        using abcd e(2) g'(2) by (intro halves_sorted [OF c h(1) hV]) auto
      moreover have "shuffled {l..u} h g'"
        using shuffled_trans [OF hg shuffled_mono [OF g'(1) sub(2)]] by simp
      ultimately show ?case using g'(3) by blast
    qed (use sub I in auto)
  qed (use sub I in auto)
qed

lemma auxsort_ok:
  fixes L :: "('t, 'w) frame"
  assumes "frame_is ok at f s L" "answers cmp lt V" "consistent lt V" "VNil \<notin> V"
    "\<And>k. k \<in> {l..u} \<Longrightarrow> f k \<in> V" "\<And>k. k \<in> {l..u} \<Longrightarrow> in_int k" "nat (u - l) \<le> n"
  shows "returns (\<lambda>x. \<exists>g. shuffled {l..u} f g \<and> sorted_on lt l u g \<and> frame_is ok at g s x) (auxsort n G S cmp l u L)"
  using assms(1,5-7)
proof (induction n arbitrary: f l u L)
  case 0
  then have "\<not> l < u" by simp
  then show ?case using 0(1) by (auto simp: sorted_on_def intro!: exI [of _ f])
next
  case (Suc n f l u L)
  note V = Suc.prems(2) and I = Suc.prems(3)
  let ?Q = "\<lambda>x. \<exists>g. shuffled {l..u} f g \<and> sorted_on lt l u g \<and> frame_is ok at g s x"
  let ?two = "\<lambda>(i, x). let (j, i, l, u) = (if i - l < u - i then (l, i - 1, i + 1, u) else (i + 1, u, l, i - 1))
         in bindE (auxsort n G S cmp j i x) (\<lambda>L. auxsort n G S cmp l u L)"
  let ?i = "(l + u) div 2"
  have gV: "g k \<in> V" if "shuffled {l..u} f g" "k \<in> {l..u}" for g k
    using shuffled_value [OF that(1), of "\<lambda>v. v \<in> V"] V that by blast
  have two: "returns ?Q (?two (i, x))"
    if h: "shuffled {l..u} f h" "pivot_at lt l u i h" "frame_is ok at h s x" for h i and x :: "('t, 'w) frame"
  proof -
    note H = returns_mono [OF auxsort_halves [OF Suc.IH assms(3) I gV [OF h(1)] h(2,3) Suc.prems(4)], of _ _ _ _ ?Q]
    show ?thesis
      using H [of l "i - 1" "i + 1" u] H [of "i + 1" u l "i - 1"] shuffled_trans [OF h(1)] by auto
  qed
  show ?case
  proof (cases "l < u")
    case False
    then show ?thesis using Suc.prems(1) by (auto simp: sorted_on_def intro!: exI [of _ f])
  next
    case lu: True
    have ends: "returns (\<lambda>x. \<exists>g. shuffled {l, u} f g \<and> \<not> lt (g u) (g l) \<and> frame_is ok at g s x) (order_ends G S cmp l u L)"
      by (rule order_ends_ok [OF Suc.prems(1) assms(2-4)]) (use V I lu in auto)
    have rest: "returns ?Q (if u - l = 1 then Inr x else
          bindE (order_middle G S cmp l u ?i x) (\<lambda>L. if u - l = 2 then Inr L else
            bindE (partition_at G S cmp l u ?i L) ?two))"
      if g': "shuffled {l, u} f g" "\<not> lt (g u) (g l)" "frame_is ok at g s x" for g and x :: "('t, 'w) frame"
    proof (rule returns_if)
      have g: "shuffled {l..u} f g" by (rule shuffled_mono [OF g'(1)]) (use lu in auto)
      show "returns ?Q (Inr x)" if "u - l = 1"
        using g g'(3) sorted_2 [of u l lt g] that g'(2) by auto
      assume u1: "u - l \<noteq> 1"
      then have mid: "?i \<in> {l..u}" "l < ?i" "?i < u" using lu by auto
      have "returns (\<lambda>x. \<exists>h. shuffled {l, ?i, u} g h \<and> \<not> lt (h ?i) (h l) \<and> \<not> lt (h u) (h ?i) \<and> frame_is ok at h s x)
        (order_middle G S cmp l u ?i x)"
        by (rule order_middle_ok [OF g'(3) assms(2-4)]) (use gV [OF g] I lu mid g'(2) in auto)
      then show "returns ?Q (bindE (order_middle G S cmp l u ?i x) (\<lambda>L. if u - l = 2 then Inr L else
            bindE (partition_at G S cmp l u ?i L) ?two))"
      proof (rule returns_bind, goal_cases)
        case (1 y)
        then obtain h where h': "shuffled {l, ?i, u} g h" "\<not> lt (h ?i) (h l)" "\<not> lt (h u) (h ?i)" "frame_is ok at h s y" by blast
        have "shuffled {l..u} g h" by (rule shuffled_mono [OF h'(1)]) (use lu in auto)
        then have h: "shuffled {l..u} f h" by (rule shuffled_trans [OF g])
        show ?case
        proof (rule returns_if)
          show "returns ?Q (Inr y)" if "u - l = 2"
            using h h'(4) sorted_3 [OF assms(3) gV [OF h] that h'(2,3) refl] by auto
          assume u2: "u - l \<noteq> 2"
          show "returns ?Q (bindE (partition_at G S cmp l u ?i y) ?two)"
          proof (rule returns_bind [OF partition_at_ok [OF h'(4) assms(2-4) gV [OF h] I _ _ h'(2,3)]], goal_cases)
            case (5 r)
            obtain i z where r: "r = (i, z)" by (cases r)
            from 5 obtain k where "shuffled {l..u} h k" "pivot_at lt l u i k" "frame_is ok at k s z" unfolding r prod.case by blast
            then show ?case unfolding r by (intro two [OF shuffled_trans [OF h]])
          qed (use mid u1 u2 lu in auto)
        qed
      qed
    qed
    show ?thesis
      unfolding auxsort.simps if_P [OF lu]
    proof (rule returns_bind [OF ends], elim exE conjE, goal_cases)
      case (1 x g)
      then show ?case unfolding Let_def by (rule rest [unfolded Let_def])
    qed
  qed
qed

end

section \<open>The interface on the table model\<close>

definition items :: "Table \<Rightarrow> int \<Rightarrow> TValue" where
  "items t i = (if in_int i then content t (VNumber (cast_num i)) else VNil)"

definition roomy :: "Table \<Rightarrow> bool" where
  "roomy t = (elements t < 2 ^ MAXBITS)"

lemma setnum_made:
  assumes "table_ok hs t" "in_int i" "items t i \<noteq> VNil \<or> roomy t"
  shows "key_set hs t (VNumber (cast_num i)) (luaH_setnum hs t i)"
proof -
  have k: "INT_MIN \<le> i" "i \<le> INT_MAX" using assms(2) by (simp_all add: in_int_def)
  show ?thesis
  proof (cases "items t i = VNil")
    case True
    then show ?thesis using luaH_setnum_ok [OF assms(1) k] assms(3) by (simp add: roomy_def)
  next
    case False
    then have c: "content t (VNumber (cast_num i)) \<noteq> VNil" using assms(2) by (simp add: items_def)
    show ?thesis
      using assms(1) cast_num_arrayindex(2) [OF k]
    proof (cases rule: luaH_get_cases)
      case none
      then show ?thesis using c rawget_content [OF assms(1) cast_num_arrayindex(2) [OF k]] by (simp add: rawget_def slot_value_def)
    next
      case (found p)
      then show ?thesis using slot_made_set [OF found_made(2) [OF assms(1) found(3)]]
        by (simp add: luaH_setnum_def setnum_with_def getnum_get [OF k, of t hs])
    qed
  qed
qed

interpretation ltab: int_array rawgeti "rawseti hs" "table_ok hs" items roomy for hs
proof
  show "rawgeti t i = Inr (items t i)" if "table_ok hs t" "in_int i" for t i
    using rawget_content [OF that(1), of "VNumber (cast_num i)"] cast_num_arrayindex(2) [of i] that(2) getnum_get [of i t hs]
    by (simp add: rawgeti_def items_def in_int_def rawget_def)
  show "\<exists>t'. rawseti hs t i v = Inr t' \<and> table_ok hs t' \<and> items t' = (items t)(i := v)"
    if a: "table_ok hs t" "in_int i" "items t i \<noteq> VNil \<or> roomy t" for t i v
  proof -
    obtain p t' r where p: "luaH_setnum hs t i = Inr (p, t', r)" "table_ok hs t'" "slot_for hs t' (VNumber (cast_num i)) p"
      "\<And>k. realkey k \<Longrightarrow> content t' k = content t k"
      using setnum_made [OF a] unfolding key_set_def by blast
    have "items (store t' p v) j = ((items t)(i := v)) j" for j
    proof (cases "in_int j")
      case True
      then have j: "realkey (VNumber (cast_num j))" using cast_num_arrayindex(2) [of j] by (simp add: in_int_def)
      have "luai_numeq (cast_num i) (cast_num j) = (i = j)"
        using luai_numeq_cast_num [of i j] a(2) True by (simp add: in_int_def)
      then show ?thesis
        using content_store [OF p(2,3) j, of v] p(4) [OF j] True by (auto simp: items_def raweq)
    qed (use a(2) in \<open>auto simp: items_def\<close>)
    then show ?thesis using p(1) store_ok [OF p(2,3)] by (auto simp: rawseti_def)
  qed
qed

section \<open>Sequences\<close>

text \<open>The sequence a table holds at \<open>1, ..., n\<close>.\<close>

definition elems :: "Table \<Rightarrow> nat \<Rightarrow> TValue list" where
  "elems t n = map (items t) [1..int n]"

lemma length_elems [simp]: "length (elems t n) = n"
  by (simp add: elems_def)

lemma nth_elems: "j < n \<Longrightarrow> elems t n ! j = items t (int j + 1)"
  by (simp add: elems_def add.commute)

lemma set_elems: "set (elems t n) = items t ` {1..int n}"
  by (simp add: elems_def)

lemma mset_elems: "mset (elems t n) = image_mset (items t) (mset_set {1..int n})"
proof -
  have "mset [1..int n] = mset_set {1..int n}" using mset_set_set [of "[1..int n]"] by simp
  then show ?thesis by (simp add: elems_def)
qed

lemma sorted_elems: "sorted_on lt 1 (int n) (items t) = sorted_wrt (\<lambda>a b. \<not> lt b a) (elems t n)"
proof -
  have "sorted_wrt (\<lambda>a b. \<not> lt b a) (elems t n) = (\<forall>i j. i < j \<longrightarrow> j < n \<longrightarrow> \<not> lt (items t (int j + 1)) (items t (int i + 1)))"
    by (auto simp: sorted_wrt_iff_nth_less nth_elems)
  moreover have "\<dots> = sorted_on lt 1 (int n) (items t)"
  proof
    assume a: "\<forall>i j. i < j \<longrightarrow> j < n \<longrightarrow> \<not> lt (items t (int j + 1)) (items t (int i + 1))"
    show "sorted_on lt 1 (int n) (items t)"
      unfolding sorted_on_def
    proof (intro allI impI)
      fix p q assume pq: "1 \<le> p \<and> p < q \<and> q \<le> int n"
      then have "nat (q - 1) < n" "nat (p - 1) < nat (q - 1)" by linarith+
      then show "\<not> lt (items t q) (items t p)" using a [rule_format, of "nat (p - 1)" "nat (q - 1)"] pq by auto
    qed
  next
    assume "sorted_on lt 1 (int n) (items t)"
    then show "\<forall>i j. i < j \<longrightarrow> j < n \<longrightarrow> \<not> lt (items t (int j + 1)) (items t (int i + 1))"
      by (auto simp: sorted_on_def)
  qed
  ultimately show ?thesis by simp
qed

text \<open>
  C28. \<open>table.sort\<close>. On a table whose elements \<open>1, ..., #t\<close> are not nil, with an order function that
  leaves the table alone and is consistent (a strict weak order on the elements), the quicksort
  returns, in at most \<open>n\<close> nested steps, with the elements permuted and in order and nothing else in
  the table changed; it never reads or writes outside \<open>1, ..., n\<close> and leaves the stack as it was.
\<close>

theorem sort_sorts:
  fixes L :: "(Table, 'w) frame"
  assumes "table_ok hs (tab L)" "luaH_getn (tab L) = Inr n" "set (elems (tab L) n) \<subseteq> V" "VNil \<notin> V"
    "answers cmp lt V" "consistent lt V" "n \<le> fuel"
  shows "\<exists>L'. sort fuel luaH_getn rawgeti (rawseti hs) cmp L = Inr L' \<and> table_ok hs (tab L') \<and> stk L' = stk L \<and>
    mset (elems (tab L') n) = mset (elems (tab L) n) \<and> sorted_wrt (\<lambda>a b. \<not> lt b a) (elems (tab L') n) \<and>
    (\<forall>k. k \<notin> {1..int n} \<longrightarrow> items (tab L') k = items (tab L) k)"
proof -
  have n: "n + 1 < 2 ^ 31" using luaH_getn_border [OF assms(1)] assms(2) by auto
  have "frame_is (table_ok hs) items (items (tab L)) (stk L) L" using assms(1) by (simp add: frame_is_def)
  then have "returns (\<lambda>x. \<exists>g. shuffled {1..int n} (items (tab L)) g \<and> sorted_on lt 1 (int n) g \<and>
      frame_is (table_ok hs) items g (stk L) x) (auxsort fuel rawgeti (rawseti hs) cmp 1 (int n) L)"
    by (rule ltab.auxsort_ok) (use assms(3-7) n in \<open>auto simp: set_elems in_int_def INT_MAX_def INT_MIN_def\<close>)
  then show ?thesis
    unfolding returns_def sort_def assms(2) bindE_simps mset_elems sorted_elems [symmetric] by (auto simp: frame_is_def shuffled_def)
qed

text \<open>A table with only an array part.\<close>

definition array_table :: "TValue list \<Rightarrow> Table" where
  "array_table vs = \<lparr>arr = vs, sizearray = length vs, node = [dummynode], is_dummy = True, lsizenode = 0,
     lastfree = 0, flags = 255, resizecount = 0\<rparr>"

lemma array_table_ok:
  assumes "length vs \<le> 2 ^ MAXBITS"
  shows "table_ok hs (array_table vs)" "\<And>i. i \<in> {1..int (length vs)} \<Longrightarrow> items (array_table vs) i = vs ! nat (i - 1)"
    "vs \<noteq> [] \<Longrightarrow> List.last vs \<noteq> VNil \<Longrightarrow> luaH_getn (array_table vs) = Inr (length vs)"
    "elems (array_table vs) (length vs) = vs"
    "\<And>i. i \<notin> {1..int (length vs)} \<Longrightarrow> items (array_table vs) i = VNil"
proof -
  let ?t = "array_table vs"
  have g: "gnode ?t i = \<lparr>gval = VNil, gkey = VNil, gnext = None\<rparr>" if "i < sizenode ?t" for i
    using that by (simp add: array_table_def gnode_def sizenode_def dummynode_def)
  show ok: "table_ok hs ?t" for hs
    by (rule fresh_nodes_ok(1) [OF g]) (use assms in \<open>simp_all add: array_table_def sizenode_def MAXASIZE_def\<close>)
  show i: "items ?t i = vs ! nat (i - 1)" if "i \<in> {1..int (length vs)}" for i
  proof -
    have r: "INT_MIN \<le> i" "i \<le> INT_MAX" using that assms by (simp_all add: INT_MIN_def INT_MAX_def MAXBITS_def)
    then have "in_array ?t (VNumber (cast_num i))" using that cast_num_arrayindex(1) [OF r] by (simp add: in_array_def array_table_def)
    then show ?thesis using r content_array [of ?t] cast_num_arrayindex(1) [OF r] by (simp add: items_def in_int_def array_table_def)
  qed
  show "items ?t i = VNil" if "i \<notin> {1..int (length vs)}" for i
  proof (cases "in_int i")
    case True
    then have r: "INT_MIN \<le> i" "i \<le> INT_MAX" by (simp_all add: in_int_def)
    have "content ?t (VNumber (cast_num i)) = VNil"
      by (rule content_no_live)
        (use that cast_num_arrayindex(1) [OF r] dummy_no_has [OF ok] live_has [OF ok] in \<open>auto simp: in_array_def array_table_def\<close>)
    then show ?thesis by (simp add: items_def)
  qed (simp add: items_def)
  show "luaH_getn ?t = Inr (length vs)" if "vs \<noteq> []" "List.last vs \<noteq> VNil"
    using that by (simp add: luaH_getn_def array_table_def last_conv_nth)
  show "elems ?t (length vs) = vs" by (rule nth_equalityI) (simp_all add: nth_elems i)
qed

definition bool_less :: "TValue \<Rightarrow> TValue \<Rightarrow> bool" where
  "bool_less a b = (case (a, b) of (VBoolean x, VBoolean y) \<Rightarrow> x < y | _ \<Rightarrow> False)"

theorem sort_sorts_witness:
  "\<exists>L'. sort 4 luaH_getn rawgeti (rawseti (\<lambda>_. 7)) (\<lambda>a b (t, w). Inr (bool_less a b, t, w))
      \<lparr>tab = array_table [VBoolean 3, VBoolean 1, VBoolean 4, VBoolean 1], stk = [], world = ()\<rparr> = Inr L' \<and>
    mset (elems (tab L') 4) = {#VBoolean 1, VBoolean 1, VBoolean 3, VBoolean 4#} \<and>
    sorted_wrt (\<lambda>a b. \<not> bool_less b a) (elems (tab L') 4)"
proof -
  let ?vs = "[VBoolean 3, VBoolean 1, VBoolean 4, VBoolean 1]"
  let ?L = "\<lparr>tab = array_table ?vs, stk = [], world = ()\<rparr>"
  let ?cmp = "\<lambda>a b (t, w). Inr (bool_less a b, t, w)"
  have le: "length ?vs \<le> 2 ^ MAXBITS" by (simp add: MAXBITS_def)
  have e: "elems (array_table ?vs) 4 = ?vs" using array_table_ok(4) [OF le] by (simp add: numeral_eq_Suc)
  have n: "luaH_getn (tab ?L) = Inr 4" using array_table_ok(3) [OF le] by simp
  have c: "answers ?cmp bool_less (range VBoolean)" "consistent bool_less (range VBoolean)"
    by (auto simp: answers_def consistent_def bool_less_def)
  have "\<exists>L'. sort 4 luaH_getn rawgeti (rawseti (\<lambda>_. 7)) ?cmp ?L = Inr L' \<and> table_ok (\<lambda>_. 7) (tab L') \<and> stk L' = stk ?L \<and>
      mset (elems (tab L') 4) = mset (elems (tab ?L) 4) \<and> sorted_wrt (\<lambda>a b. \<not> bool_less b a) (elems (tab L') 4) \<and>
      (\<forall>k. k \<notin> {1..int 4} \<longrightarrow> items (tab L') k = items (tab ?L) k)"
    by (rule sort_sorts [OF _ n _ _ c]) (use array_table_ok(1) [OF le] e in \<open>auto\<close>)
  then show ?thesis by (auto simp: e)
qed

section \<open>Insertion and removal\<close>

text \<open>The map after the elements from \<open>pos\<close> to \<open>e - 1\<close> moved up, and after those behind \<open>pos\<close> moved down.\<close>

definition shift_up :: "int \<Rightarrow> int \<Rightarrow> (int \<Rightarrow> TValue) \<Rightarrow> int \<Rightarrow> TValue" where
  "shift_up pos e f k = (if pos < k \<and> k \<le> e then f (k - 1) else f k)"

definition shift_down :: "int \<Rightarrow> int \<Rightarrow> (int \<Rightarrow> TValue) \<Rightarrow> int \<Rightarrow> TValue" where
  "shift_down pos e f k = (if pos \<le> k \<and> k < e then f (k + 1) else f k)"

context int_array
begin

lemma move_up_ok:
  fixes L :: "('t, 'w) frame"
  assumes "frame_is ok at f s L" "\<And>k. pos \<le> k \<Longrightarrow> k \<le> i \<Longrightarrow> in_int k" "\<And>k. pos \<le> k \<Longrightarrow> k < i \<Longrightarrow> f k \<noteq> VNil"
    "f i \<noteq> VNil \<or> room (tab L)"
  shows "returns (\<lambda>x. frame_is ok at (shift_up pos i f) s x \<and> (i \<le> pos \<longrightarrow> x = L)) (move_up G S pos i L)"
  using assms
proof (induction "nat (i - pos)" arbitrary: i f L rule: less_induct)
  case (less i f L)
  show ?case
  proof (cases "i > pos")
    case False
    then have "shift_up pos i f = f" by (auto simp: shift_up_def fun_eq_iff)
    then show ?thesis using less.prems(1) False by (simp add: move_up.simps)
  next
    case True
    let ?g = "f(i := f (i - 1))"
    have "returns (frame_is ok at ?g s) (lua_rawseti S i x)" if x: "frame_is ok at f (f (i - 1) # s) x" "tab x = tab L" for x :: "('t, 'w) frame"
      by (rule rawseti_ok [OF x(1)]) (use less.prems True x(2) in auto)
    then have "returns (frame_is ok at ?g s) (bindE (lua_rawgeti G (i - 1) L) (lua_rawseti S i))"
      using less.prems(1) get [of "tab L" "i - 1"] less.prems(2) [of "i - 1"] True
      by (auto simp: lua_rawgeti_def frame_is_def)
    then have "returns (\<lambda>x. frame_is ok at (shift_up pos (i - 1) ?g) s x \<and> (i - 1 \<le> pos \<longrightarrow> True))
      (bindE (bindE (lua_rawgeti G (i - 1) L) (lua_rawseti S i)) (move_up G S pos (i - 1)))"
    proof (rule returns_bind)
      fix x :: "('t, 'w) frame" assume x: "frame_is ok at ?g s x"
      show "returns (\<lambda>x. frame_is ok at (shift_up pos (i - 1) ?g) s x \<and> (i - 1 \<le> pos \<longrightarrow> True)) (move_up G S pos (i - 1) x)"
        by (rule returns_mono [OF less.hyps [OF _ x]]) (use less.prems(2,3) True in auto)
    qed
    moreover have "shift_up pos (i - 1) ?g = shift_up pos i f" using True by (auto simp: shift_up_def fun_eq_iff)
    ultimately show ?thesis using True by (simp add: move_up.simps bindE_assoc)
  qed
qed

lemma move_down_ok:
  fixes L :: "('t, 'w) frame"
  assumes "frame_is ok at f s L" "\<And>k. pos \<le> k \<Longrightarrow> k \<le> e \<Longrightarrow> in_int k" "\<And>k. pos \<le> k \<Longrightarrow> k \<le> e \<Longrightarrow> f k \<noteq> VNil"
  shows "returns (frame_is ok at (shift_down pos e f) s) (move_down G S e pos L)"
  using assms
proof (induction "nat (e - pos)" arbitrary: pos f L rule: less_induct)
  case (less pos f L)
  show ?case
  proof (cases "pos < e")
    case False
    then have "shift_down pos e f = f" by (auto simp: shift_down_def fun_eq_iff)
    then show ?thesis using less.prems(1) False by (simp add: move_down.simps)
  next
    case True
    let ?g = "f(pos := f (pos + 1))"
    have "returns (frame_is ok at (shift_down (pos + 1) e ?g) s) (move_down G S e pos L)"
      unfolding move_down.simps [of G S e pos L] if_P [OF True]
    proof (rule rawgeti_wp [OF less.prems(1)], goal_cases)
      case (2 x)
      show ?case
        by (rule returns_bind [OF rawseti_ok [OF 2]], goal_cases)
          (use less.prems(2,3) True in \<open>auto intro!: less.hyps\<close>)
    qed (use less.prems(2) True in auto)
    moreover have "shift_down (pos + 1) e ?g = shift_down pos e f" using True by (auto simp: shift_down_def fun_eq_iff)
    ultimately show ?thesis by simp
  qed
qed

end

lemma getn_unique:
  assumes "table_ok hs t" "n + 1 < 2 ^ 31" "\<And>k. k \<in> {1..int n} \<Longrightarrow> items t k \<noteq> VNil" "\<And>k. k > int n \<Longrightarrow> items t k = VNil"
  shows "luaH_getn t = Inr n"
proof -
  obtain m where m: "luaH_getn t = Inr m" "border (item t) m" "m + 1 < 2 ^ 31" using luaH_getn_border [OF assms(1)] by blast
  have i: "items t (int k) = item t k" if "k \<le> Suc m \<or> k \<le> Suc n" for k
    using that m(3) assms(2) by (auto simp: items_def item_def in_int_def INT_MIN_def INT_MAX_def)
  have "m \<le> n" using m(2) i [of m] assms(4) [of "int m"] by (cases "n < m") (auto simp: border_def present_def)
  moreover have "n \<le> m" using m(2) i [of "m + 1"] assms(3) [of "int (m + 1)"] by (cases "m < n") (auto simp: border_def)
  ultimately show ?thesis using m(1) by simp
qed

lemma elems_not_nil: "VNil \<notin> set (elems t n) \<Longrightarrow> 1 \<le> k \<Longrightarrow> k \<le> int n \<Longrightarrow> items t k \<noteq> VNil"
  unfolding set_elems by (metis atLeastAtMost_iff image_eqI)

lemma tinsert_ok:
  fixes L :: "(Table, 'w) frame"
  assumes "table_ok hs (tab L)" "luaH_getn (tab L) = Inr n" "roomy (tab L)" "VNil \<notin> set (elems (tab L) n)"
    "1 \<le> pos" "pos \<le> int n + 1" "stk L = v # s"
  shows "returns (frame_is (table_ok hs) items ((shift_up pos (int n + 1) (items (tab L)))(pos := v)) s)
    (tinsert luaH_getn rawgeti (rawseti hs) 3 pos L)"
proof -
  have n: "n + 1 < 2 ^ 31" using luaH_getn_border [OF assms(1)] assms(2) by auto
  have I: "in_int k" if "pos \<le> k" "k \<le> int n + 1" for k
    using that n assms(5) by (simp add: in_int_def INT_MIN_def INT_MAX_def)
  have V: "items (tab L) k \<noteq> VNil" if "pos \<le> k" "k < int n + 1" for k
    using elems_not_nil [OF assms(4)] that assms(5) by simp
  let ?f = "shift_up pos (int n + 1) (items (tab L))"
  have "frame_is (table_ok hs) items (items (tab L)) (v # s) L" using assms(1,7) by (simp add: frame_is_def)
  from ltab.move_up_ok [OF this I V] assms(3)
  have m: "returns (\<lambda>x. frame_is (table_ok hs) items ?f (v # s) x \<and> (int n + 1 \<le> pos \<longrightarrow> x = L))
    (move_up rawgeti (rawseti hs) pos (int n + 1) L)" by blast
  have "returns (frame_is (table_ok hs) items (?f(pos := v)) s) (lua_rawseti (rawseti hs) pos x)"
    if x: "frame_is (table_ok hs) items ?f (v # s) x" "int n + 1 \<le> pos \<longrightarrow> x = L" for x
    by (rule ltab.rawseti_ok [OF x(1) I])
      (use V [of pos] x(2) assms(3,6) in \<open>auto simp: shift_up_def\<close>)
  then show ?thesis
    using assms(2,6) by (auto simp: tinsert_def Let_def intro!: returns_bind [OF m])
qed

lemma tremove_ok:
  fixes L :: "(Table, 'w) frame"
  assumes "table_ok hs (tab L)" "luaH_getn (tab L) = Inr n" "VNil \<notin> set (elems (tab L) n)" "1 \<le> pos" "pos \<le> int n"
  shows "returns (\<lambda>(r, x). r = 1 \<and> frame_is (table_ok hs) items
      ((shift_down pos (int n) (items (tab L)))(int n := VNil)) (items (tab L) pos # stk L) x)
    (tremove luaH_getn rawgeti (rawseti hs) (Some pos) L)"
proof -
  have n: "n + 1 < 2 ^ 31" using luaH_getn_border [OF assms(1)] assms(2) by auto
  have I: "in_int k" if "pos \<le> k" "k \<le> int n" for k
    using that n assms(4) by (simp add: in_int_def INT_MIN_def INT_MAX_def)
  have V: "items (tab L) k \<noteq> VNil" if "pos \<le> k" "k \<le> int n" for k
    using elems_not_nil [OF assms(3)] that assms(4) by simp
  let ?f = "shift_down pos (int n) (items (tab L))"
  have f: "frame_is (table_ok hs) items (items (tab L)) (stk L) L" using assms(1) by (simp add: frame_is_def)
  have fin: "returns (\<lambda>(r, x). r = 1 \<and> frame_is (table_ok hs) items (?f(int n := VNil)) (items (tab L) pos # stk L) x)
     (bindE (lua_rawseti (rawseti hs) (int n) (lua_push VNil y)) (\<lambda>L. Inr (1, L)))"
    if y: "frame_is (table_ok hs) items ?f (items (tab L) pos # stk L) y" for y
  proof -
    have "frame_is (table_ok hs) items ?f (VNil # items (tab L) pos # stk L) (lua_push VNil y)"
      using y by (simp add: frame_is_def lua_push_def)
    then show ?thesis
      by (rule returns_bind [OF ltab.rawseti_ok]) (use I V assms(5) in \<open>auto simp: shift_down_def\<close>)
  qed
  have "returns (\<lambda>(r, x). r = 1 \<and> frame_is (table_ok hs) items (?f(int n := VNil)) (items (tab L) pos # stk L) x)
    (bindE (lua_rawgeti rawgeti pos L) (\<lambda>L. bindE (move_down rawgeti (rawseti hs) (int n) pos L) (\<lambda>L.
       bindE (lua_rawseti (rawseti hs) (int n) (lua_push VNil L)) (\<lambda>L. Inr (1, L)))))"
    by (rule ltab.rawgeti_wp [OF f]) (use I V assms(5) in \<open>auto intro!: returns_bind [OF ltab.move_down_ok] fin\<close>)
  then show ?thesis using assms(2,4,5) by (simp add: tremove_def Let_def del: One_nat_def)
qed

lemma elems_shift_up:
  assumes "p \<le> n" "items t' = (shift_up (int p + 1) (int n + 1) (items t))(int p + 1 := v)"
  shows "elems t' (n + 1) = take p (elems t n) @ v # drop p (elems t n)"
proof (rule nth_equalityI)
  fix j assume "j < length (elems t' (n + 1))"
  then have j: "j < n + 1" by simp
  consider "j < p" | "j = p" | k where "j = Suc (p + k)" using less_imp_Suc_add nat_neq_iff by metis
  then show "elems t' (n + 1) ! j = (take p (elems t n) @ v # drop p (elems t n)) ! j"
    by cases (use j assms in \<open>auto simp: nth_elems nth_append shift_up_def min_def ac_simps\<close>)
qed (use assms in simp)

lemma elems_shift_down:
  assumes "p < n" "items t' = (shift_down (int p + 1) (int n) (items t))(int n := VNil)"
  shows "elems t' (n - 1) = take p (elems t n) @ drop (Suc p) (elems t n)"
proof (rule nth_equalityI)
  fix j assume "j < length (elems t' (n - 1))"
  then have j: "j < n - 1" by simp
  consider "j < p" | k where "j = p + k" using le_Suc_ex not_le by metis
  then show "elems t' (n - 1) ! j = (take p (elems t n) @ drop (Suc p) (elems t n)) ! j"
    by cases (use j assms in \<open>auto simp: nth_elems nth_append shift_down_def min_def\<close>)
qed (use assms in simp)

text \<open>
  C29. \<open>table.insert\<close> and \<open>table.remove\<close>. On a table that holds exactly a sequence of \<open>n\<close> values,
  none of them nil, inserting a value at a position up to \<open>n + 1\<close> inserts it in the sequence, and
  removing that position gives the value back and leaves the sequence there was.
\<close>

theorem insert_remove:
  fixes L :: "(Table, 'w) frame"
  assumes "table_ok hs (tab L)" "roomy (tab L)" "VNil \<notin> set (elems (tab L) n)" "\<forall>k. k > int n \<longrightarrow> items (tab L) k = VNil"
    "p \<le> n" "n + 2 < 2 ^ 31" "stk L = v # s" "v \<noteq> VNil"
  shows "\<exists>L1 L2. tinsert luaH_getn rawgeti (rawseti hs) 3 (int p + 1) L = Inr L1 \<and> stk L1 = s \<and>
    elems (tab L1) (n + 1) = take p (elems (tab L) n) @ v # drop p (elems (tab L) n) \<and>
    tremove luaH_getn rawgeti (rawseti hs) (Some (int p + 1)) L1 = Inr (1, L2) \<and> stk L2 = v # s \<and>
    items (tab L2) = items (tab L)"
proof -
  let ?f = "(shift_up (int p + 1) (int n + 1) (items (tab L)))(int p + 1 := v)"
  have nn: "items (tab L) k \<noteq> VNil" if "k \<in> {1..int n}" for k using elems_not_nil [OF assms(3)] that by simp
  have n: "luaH_getn (tab L) = Inr n" by (rule getn_unique [OF assms(1) _ nn]) (use assms(4,6) in auto)
  obtain L1 where 1: "tinsert luaH_getn rawgeti (rawseti hs) 3 (int p + 1) L = Inr L1" "frame_is (table_ok hs) items ?f s L1"
    using tinsert_ok [OF assms(1) n assms(2,3) _ _ assms(7), of "int p + 1"] assms(5) by (auto simp: returns_def)
  then have L1: "table_ok hs (tab L1)" "items (tab L1) = ?f" "stk L1 = s" by (auto simp: frame_is_def)
  have e: "elems (tab L1) (n + 1) = take p (elems (tab L) n) @ v # drop p (elems (tab L) n)"
    by (rule elems_shift_up [OF assms(5) L1(2)])
  then have nn1: "VNil \<notin> set (elems (tab L1) (n + 1))"
    using assms(3,8) set_take_subset [of p "elems (tab L) n"] set_drop_subset [of p "elems (tab L) n"] by auto
  have n1: "luaH_getn (tab L1) = Inr (n + 1)"
    by (rule getn_unique [OF L1(1)]) (use assms(4,5,6) L1(2) elems_not_nil [OF nn1] in \<open>auto simp: shift_up_def\<close>)
  obtain L2 where 2: "tremove luaH_getn rawgeti (rawseti hs) (Some (int p + 1)) L1 = Inr (1, L2)"
    "frame_is (table_ok hs) items ((shift_down (int p + 1) (int (n + 1)) ?f)(int (n + 1) := VNil)) (v # s) L2"
    using tremove_ok [OF L1(1) n1 nn1, of "int p + 1"] assms(5) L1(2,3) by (auto simp: returns_def)
  have "(shift_down (int p + 1) (int (n + 1)) ?f)(int (n + 1) := VNil) = items (tab L)"
    using assms(4,5) by (auto simp: fun_eq_iff shift_down_def shift_up_def)
  then show ?thesis using 1 2 L1(3) e by (auto simp: frame_is_def)
qed

theorem insert_remove_witness:
  "\<exists>L1 L2. tinsert luaH_getn rawgeti (rawseti (\<lambda>_. 7)) 3 2 \<lparr>tab = array_table [VBoolean 3, VBoolean 1], stk = [VBoolean 5], world = ()\<rparr> = Inr L1 \<and>
    elems (tab L1) 3 = [VBoolean 3, VBoolean 5, VBoolean 1] \<and>
    tremove luaH_getn rawgeti (rawseti (\<lambda>_. 7)) (Some 2) L1 = Inr (1, L2) \<and> stk L2 = [VBoolean 5] \<and>
    items (tab L2) = items (array_table [VBoolean 3, VBoolean 1])"
proof -
  let ?vs = "[VBoolean 3, VBoolean 1]"
  let ?L = "\<lparr>tab = array_table ?vs, stk = [VBoolean 5], world = ()\<rparr>"
  have le: "length ?vs \<le> 2 ^ MAXBITS" by (simp add: MAXBITS_def)
  have e: "elems (tab ?L) 2 = ?vs" using array_table_ok(4) [OF le] by (simp add: numeral_eq_Suc)
  have "elements (array_table ?vs) \<le> card {..<2::nat} + 0"
    unfolding elements_def
  proof (rule add_mono)
    show "slice_need (array_table ?vs) 0 \<le> card {..<2::nat}"
      unfolding slice_need_def by (rule card_mono) (auto simp: array_table_def)
    show "card {j. j < sizenode (array_table ?vs) \<and> live (array_table ?vs) j} \<le> 0"
      by (auto simp: live_def array_table_def sizenode_def gnode_def dummynode_def nth_Cons')
  qed
  then have r: "roomy (tab ?L)" by (simp add: roomy_def MAXBITS_def)
  have "\<forall>k. k > int 2 \<longrightarrow> items (tab ?L) k = VNil" using array_table_ok(5) [OF le] by auto
  from insert_remove [OF _ r _ this, of "\<lambda>_. 7" 1 "VBoolean 5" "[]"] show ?thesis
    using array_table_ok(1) [OF le] e by auto
qed

section \<open>An order function that contradicts itself\<close>

text \<open>An order function with which every element is less than every other, itself included.\<close>

definition both_less :: "(Table, unit) order" where
  "both_less a b s = Inr (a \<noteq> VNil \<and> b \<noteq> VNil, s)"

text \<open>
  The test \<open>i>u\<close> of \<open>auxsort\<close> comes after the comparison with \<open>a[i]\<close> and lets \<open>i\<close> reach \<open>u + 1\<close>: with
  \<open>both_less\<close> (a Lua function such as \<open>a ~= nil and b ~= nil\<close>) no error is raised, the partition of a
  sequence of four ends at 5, an element moves to \<open>t[5]\<close>, outside the sequence, and \<open>t[3]\<close> becomes nil.
\<close>

theorem sort_writes_outside:
  "case partition_at rawgeti (rawseti (\<lambda>_. 7)) both_less 1 4 2
      \<lparr>tab = array_table [VBoolean 1, VBoolean 1, VBoolean 1, VBoolean 1, VNil, VNil], stk = [], world = ()\<rparr> of
     Inl e \<Rightarrow> False
   | Inr (i, L) \<Rightarrow> i = 5 \<and> rawgeti (tab L) 3 = Inr VNil \<and> rawgeti (tab L) 5 = Inr (VBoolean 1)"
proof -
  have weak: "m = m' \<Longrightarrow> bindE m f = bindE m' f" for m m' :: "lua_err + 'a" and f :: "'a \<Rightarrow> lua_err + 'b" by simp
  note [cong] = weak
  have m: "unat (- 1 :: u32) = 4294967295" by (simp add: unsigned_minus_1_eq_mask mask_eq_exp_minus_1)
  have z: "luai_numeq 0 0" by (simp add: luai_numeq_def d_isnan_def d_exp_def)
  show ?thesis
    by (simp add: partition_at_def partition_loop.simps scan_up.simps scan_down.simps lua_rawgeti_def lua_rawseti_def set2_def
      sort_comp_def both_less_def from_top_def lua_pop_def lua_pushvalue_def rawgeti_def rawseti_def luaH_getnum_def luaH_setnum_def
      setnum_with_def array_table_def slot_value_def store_def m z walk_slot_def sizenode_def
      gnode_def hashnum_def dummynode_def)
qed

section \<open>Iteration and concatenation\<close>

text \<open>
  \<open>foreachi\<close>: \<open>call\<close> is \<open>lua_call\<close> of the function given with one result.  \<open>foreach\<close> and \<open>maxn\<close> traverse with
  \<open>lua_next\<close> from the nil key; the first argument bounds the steps (a table is traversed in as many
  as it has elements, one more to see the end; a callback may change it on the way).
\<close>

type_synonym ('t, 'w) callback = "TValue list \<Rightarrow> 't \<times> 'w \<Rightarrow> lua_err + TValue \<times> 't \<times> 'w"

function foreachi_loop :: "('t \<Rightarrow> int \<Rightarrow> lua_err + TValue) \<Rightarrow> ('t, 'w) callback \<Rightarrow> int \<Rightarrow> int \<Rightarrow> ('t, 'w) frame \<Rightarrow>
    lua_err + TValue list \<times> ('t, 'w) frame" where
  "foreachi_loop G call n i L =
     (if i \<le> n then
        bindE (G (tab L) i) (\<lambda>v.
        bindE (call [VNumber (cast_num i), v] (tab L, world L)) (\<lambda>(r, t, w).
          if \<not> ttisnil r then Inr ([r], L\<lparr>tab := t, world := w\<rparr>)
          else foreachi_loop G call n (i + 1) (L\<lparr>tab := t, world := w\<rparr>)))
      else Inr ([], L))"
  by pat_completeness auto
termination by (relation "measure (\<lambda>(G, call, n, i, L). nat (n + 1 - i))") auto

declare foreachi_loop.simps [simp del]

definition foreachi :: "('t \<Rightarrow> lua_err + nat) \<Rightarrow> ('t \<Rightarrow> int \<Rightarrow> lua_err + TValue) \<Rightarrow> ('t, 'w) callback \<Rightarrow> ('t, 'w) frame \<Rightarrow>
    lua_err + TValue list \<times> ('t, 'w) frame" where
  "foreachi N G call L = bindE (N (tab L)) (\<lambda>n. foreachi_loop G call (int n) 1 L)"

fun foreach :: "nat \<Rightarrow> (addr \<Rightarrow> u32) \<Rightarrow> (Table, 'w) callback \<Rightarrow> TValue \<Rightarrow> (Table, 'w) frame \<Rightarrow>
    lua_err + TValue list \<times> (Table, 'w) frame" where
  "foreach 0 hs call key L = Inl (UB ''fuel'')"
| "foreach (Suc k) hs call key L =
     bindE (luaH_next hs (tab L) key VNil) (\<lambda>more. case more of
         None \<Rightarrow> Inr ([], L)
       | Some (key, v, _) \<Rightarrow>
           bindE (call [key, v] (tab L, world L)) (\<lambda>(r, t, w).
             if \<not> ttisnil r then Inr ([r], L\<lparr>tab := t, world := w\<rparr>)
             else foreach k hs call key (L\<lparr>tab := t, world := w\<rparr>)))"

fun maxn :: "nat \<Rightarrow> (addr \<Rightarrow> u32) \<Rightarrow> Table \<Rightarrow> TValue \<Rightarrow> lua_Number \<Rightarrow> lua_err + lua_Number" where
  "maxn 0 hs t key mx = Inl (UB ''fuel'')"
| "maxn (Suc k) hs t key mx =
     bindE (luaH_next hs t key VNil) (\<lambda>more. case more of
         None \<Rightarrow> Inr mx
       | Some (key, _, _) \<Rightarrow>
           maxn k hs t key (case key of VNumber v \<Rightarrow> (if luai_numlt mx v then v else mx) | _ \<Rightarrow> mx))"

text \<open>\<open>concat\<close>: \<open>str\<close> is \<open>lua_tolstring\<close> where \<open>lua_isstring\<close> holds, \<open>bad\<close> formats the error message.\<close>

definition addfield :: "('t \<Rightarrow> int \<Rightarrow> lua_err + TValue) \<Rightarrow> (TValue \<Rightarrow> string option) \<Rightarrow> (TValue \<Rightarrow> int \<Rightarrow> string) \<Rightarrow> 't \<Rightarrow> int \<Rightarrow> string \<Rightarrow>
    lua_err + string" where
  "addfield G str bad t i b =
     bindE (G t i) (\<lambda>v. case str v of None \<Rightarrow> Inl (LUA_ERRRUN (bad v i)) | Some s \<Rightarrow> Inr (b @ s))"

function tconcat_loop :: "('t \<Rightarrow> int \<Rightarrow> lua_err + TValue) \<Rightarrow> (TValue \<Rightarrow> string option) \<Rightarrow> (TValue \<Rightarrow> int \<Rightarrow> string) \<Rightarrow> 't \<Rightarrow> string \<Rightarrow>
    int \<Rightarrow> int \<Rightarrow> string \<Rightarrow> lua_err + string" where
  "tconcat_loop G str bad t sep i e b =
     (if i < e then bindE (addfield G str bad t i b) (\<lambda>b. tconcat_loop G str bad t sep (i + 1) e (b @ sep))
      else if i = e then addfield G str bad t i b
      else Inr b)"
  by pat_completeness auto
termination by (relation "measure (\<lambda>(G, str, bad, t, sep, i, e, b). nat (e - i))") auto

declare tconcat_loop.simps [simp del]

definition tconcat :: "('t \<Rightarrow> lua_err + nat) \<Rightarrow> ('t \<Rightarrow> int \<Rightarrow> lua_err + TValue) \<Rightarrow> (TValue \<Rightarrow> string option) \<Rightarrow> (TValue \<Rightarrow> int \<Rightarrow> string) \<Rightarrow> 't \<Rightarrow>
    string option \<Rightarrow> int option \<Rightarrow> int option \<Rightarrow> lua_err + string" where
  "tconcat N G str bad t sep i j =
     bindE (case j of None \<Rightarrow> bindE (N t) (\<lambda>n. Inr (int n)) | Some j \<Rightarrow> Inr j) (\<lambda>e.
       tconcat_loop G str bad t (case sep of None \<Rightarrow> '''' | Some s \<Rightarrow> s) (case i of None \<Rightarrow> 1 | Some i \<Rightarrow> i) e '''')"

text \<open>The fields joined by the separator.\<close>

fun joined :: "string \<Rightarrow> string list \<Rightarrow> string" where
  "joined sep [] = ''''"
| "joined sep [x] = x"
| "joined sep (x # y # zs) = x @ sep @ joined sep (y # zs)"

context int_array
begin

lemma tconcat_loop_ok:
  assumes "ok t" "\<And>k. k \<in> {i..e} \<Longrightarrow> in_int k \<and> str (at t k) = Some (f k)"
  shows "tconcat_loop G str bad t sep i e b = Inr (b @ joined sep (map f [i..e]))"
  using assms
proof (induction "nat (e - i)" arbitrary: i b rule: less_induct)
  case (less i b)
  have add: "addfield G str bad t i b = Inr (b @ f i)" if "i \<le> e" for b
    using get [OF less.prems(1), of i] less.prems(2) [of i] that by (simp add: addfield_def)
  consider "i < e" | "i = e" | "i > e" by linarith
  then show ?case
  proof cases
    case 1
    have "[i..e] = i # (i + 1) # [i + 2..e]" using 1 by (simp add: upto_rec1 ac_simps)
    moreover have "[i + 1..e] = (i + 1) # [i + 2..e]" using 1 by (simp add: upto_rec1 ac_simps)
    ultimately show ?thesis
      using 1 add less.hyps [of "i + 1" "(b @ f i) @ sep"] less.prems
      by (simp add: tconcat_loop.simps [of G str bad t sep i e b])
  qed (subst tconcat_loop.simps, use add in simp)+
qed

end

end
