(* ===== verification/Lua_Refs.thy ===== *)
theory Lua_Refs
  imports Lua_String Lua_Table
begin

text \<open>
  Reference counting: the heap of collectable objects, the release of an object whose count has
  come down to nothing (\<open>luarc_free...\<close> of \<^verbatim>\<open>lgc.c\<close>, \<open>luarc_releaseobj\<close> of \<^verbatim>\<open>lobject.c\<close>, the macros of
  \<^verbatim>\<open>lobject.h\<close>), closures and upvalues (\<^verbatim>\<open>lfunc.c\<close>).

  Strings live in the string table of \<^verbatim>\<open>Lua_String\<close>, the other objects in \<open>objs\<close>; an address that is in
  neither has been freed, and using it is \<open>UB\<close>.  \<open>next\<close>/\<open>prev\<close> link the \<open>rootgc\<close> list and \<open>gcnext\<close>/\<open>gcprev\<close>
  the gray lists.  An open upvalue points at a stack slot; a thread has the list of its open
  upvalues, and \<open>uvhead\<close> is the global one.  Releasing an object releases its members, recursively: the
  nesting is bounded by fuel, which the number of live objects makes enough.  The members of an object
  are read when its release begins.  The finalizers (\<open>fasttm\<close> and the call in \<open>GCTM\<close>) and the allocator
  are parameters.
\<close>

section \<open>Data\<close>

datatype upvalue = Open addr nat | Closed TValue

text \<open>
  The members of an object that the collector sees: metatable and environment of a userdata; source,
  constants, upvalue names, nested prototypes and local names of a prototype; environment and
  upvalues of a closure; \<open>gt\<close>, stack, \<open>top\<close>, the \<open>top\<close>s of the call frames and the open upvalues of a thread.
\<close>

datatype obody =
    OUdata "addr option" addr
  | OProto "addr option" "TValue list" "addr option list" "addr option list" "addr option list"
  | OCClosure "addr option" "TValue list"
  | OLClosure "addr option" "addr option" "addr option list"
  | OUpval upvalue
  | OTable Table "addr option"
  | OThread TValue "TValue list" nat "nat list" "addr list"

record GCObject =
  o_next :: "addr option"
  o_prev :: "addr option"
  o_ref :: int
  o_marked :: u8
  o_gcnext :: "addr option"
  o_gcprev :: "addr option"
  o_body :: obody

text \<open>A \<open>GCObject **\<close> into the root list.\<close>

datatype link = At_root | At_next addr

record gstate =
  objs :: "addr \<Rightarrow> GCObject option"
  strt :: strtab
  rootgc :: "addr option"
  gray :: "addr option"
  grayagain :: "addr option"
  weak :: "addr option"
  tmudata :: "addr option"
  gcstate :: nat
  sweepgc :: link
  mainthread :: addr
  uvhead :: "addr list"

definition GCSpause :: nat where "GCSpause = 0"
definition GCSpropagate :: nat where "GCSpropagate = 1"
definition GCSsweepstring :: nat where "GCSsweepstring = 2"
definition GCSsweep :: nat where "GCSsweep = 3"
definition GCSfinalize :: nat where "GCSfinalize = 4"

lemmas gcstate_defs = GCSpause_def GCSpropagate_def GCSsweepstring_def GCSsweep_def GCSfinalize_def

section \<open>Colours\<close>

definition testbit :: "u8 \<Rightarrow> nat \<Rightarrow> bool" where "testbit m b = bit m b"
definition BLACKBIT :: nat where "BLACKBIT = 2"
definition FINALIZEDBIT :: nat where "FINALIZEDBIT = 3"
definition FIXEDBIT :: nat where "FIXEDBIT = 5"
definition SFIXEDBIT :: nat where "SFIXEDBIT = 6"

definition iswhite :: "u8 \<Rightarrow> bool" where "iswhite m = (m AND WHITEBITS \<noteq> 0)"
definition isblack :: "u8 \<Rightarrow> bool" where "isblack m = testbit m BLACKBIT"
definition isgray :: "u8 \<Rightarrow> bool" where "isgray m = (\<not> isblack m \<and> \<not> iswhite m)"

definition otherwhite :: "gstate \<Rightarrow> u8" where
  "otherwhite g = (st_currentwhite (strt g) XOR WHITEBITS)"

definition isdead_mark :: "gstate \<Rightarrow> u8 \<Rightarrow> bool" where
  "isdead_mark g m = (m AND otherwhite g AND WHITEBITS \<noteq> 0)"

definition makewhite :: "gstate \<Rightarrow> u8 \<Rightarrow> u8" where
  "makewhite g m = (m AND NOT 7) OR luaC_white (strt g)"

definition white2gray :: "u8 \<Rightarrow> u8" where "white2gray m = m AND NOT WHITEBITS"
definition gray2black :: "u8 \<Rightarrow> u8" where "gray2black m = m OR 4"
definition black2gray :: "u8 \<Rightarrow> u8" where "black2gray m = m AND NOT 4"

section \<open>Access\<close>

definition get_obj :: "addr \<Rightarrow> gstate \<Rightarrow> lua_err + GCObject" where
  "get_obj a g = (case objs g a of None \<Rightarrow> Inl (UB ''freed object'') | Some ob \<Rightarrow> Inr ob)"

definition put_obj :: "addr \<Rightarrow> GCObject \<Rightarrow> gstate \<Rightarrow> gstate" where
  "put_obj a ob g = g\<lparr>objs := (objs g)(a \<mapsto> ob)\<rparr>"

definition upd_obj :: "addr \<Rightarrow> (GCObject \<Rightarrow> GCObject) \<Rightarrow> gstate \<Rightarrow> lua_err + gstate" where
  "upd_obj a f g = bindE (get_obj a g) (\<lambda>ob. Inr (put_obj a (f ob) g))"

definition upd_opt :: "addr option \<Rightarrow> (GCObject \<Rightarrow> GCObject) \<Rightarrow> gstate \<Rightarrow> lua_err + gstate" where
  "upd_opt p f g = (case p of None \<Rightarrow> Inr g | Some a \<Rightarrow> upd_obj a f g)"

definition put_str :: "addr \<Rightarrow> TString \<Rightarrow> gstate \<Rightarrow> gstate" where
  "put_str a s g = g\<lparr>strt := (strt g)\<lparr>st_heap := (st_heap (strt g))(a \<mapsto> s)\<rparr>\<rparr>"

text \<open>The header field \<open>marked\<close> of any object.\<close>

definition get_marked :: "addr \<Rightarrow> gstate \<Rightarrow> lua_err + u8" where
  "get_marked a g = (case st_heap (strt g) a of Some s \<Rightarrow> Inr (s_marked s)
     | None \<Rightarrow> bindE (get_obj a g) (\<lambda>ob. Inr (o_marked ob)))"

text \<open>The value of an upvalue: \<open>*uv->v\<close>.\<close>

definition upval_value :: "upvalue \<Rightarrow> gstate \<Rightarrow> lua_err + TValue" where
  "upval_value uv g = (case uv of Closed v \<Rightarrow> Inr v
     | Open th i \<Rightarrow> bindE (get_obj th g) (\<lambda>ob. case o_body ob of
         OThread gt stack tp cis us \<Rightarrow> if i < length stack then Inr (stack ! i) else Inl (UB ''stack'')
       | _ \<Rightarrow> Inl (UB ''thread'')))"

section \<open>Counting\<close>

text \<open>\<open>luarc_addobjref\<close> and \<open>luarc_subobjref\<close>; \<open>rel\<close> is \<open>luarc_releaseobj\<close>.\<close>

definition add_ref :: "int \<Rightarrow> addr \<Rightarrow> gstate \<Rightarrow> lua_err + int \<times> gstate" where
  "add_ref d a g = (case st_heap (strt g) a of
     Some s \<Rightarrow> Inr (s_ref s + d, put_str a (s\<lparr>s_ref := s_ref s + d\<rparr>) g)
   | None \<Rightarrow> bindE (get_obj a g) (\<lambda>ob. Inr (o_ref ob + d, put_obj a (ob\<lparr>o_ref := o_ref ob + d\<rparr>) g)))"

definition luarc_addobjref :: "addr \<Rightarrow> gstate \<Rightarrow> lua_err + gstate" where
  "luarc_addobjref a g = bindE (add_ref 1 a g) (\<lambda>(r, g). Inr g)"

definition luarc_subobjref :: "(addr \<Rightarrow> gstate \<Rightarrow> lua_err + gstate) \<Rightarrow> addr \<Rightarrow> gstate \<Rightarrow> lua_err + gstate" where
  "luarc_subobjref rel a g = bindE (add_ref (- 1) a g) (\<lambda>(r, g). if r \<le> 0 then rel a g else Inr g)"

text \<open>The members of an object, each by a \<open>luarc_sub...ref\<close>; \<open>None\<close> is a NULL that is not tested for.\<close>

fun sub_members :: "(addr \<Rightarrow> gstate \<Rightarrow> lua_err + gstate) \<Rightarrow> addr option list \<Rightarrow> gstate \<Rightarrow> lua_err + gstate" where
  "sub_members rel [] g = Inr g"
| "sub_members rel (None # ms) g = Inl (UB ''NULL'')"
| "sub_members rel (Some a # ms) g = bindE (luarc_subobjref rel a g) (sub_members rel ms)"

text \<open>Pointers tested before use, and tagged values (\<open>luarc_subref\<close>).\<close>

definition tested :: "addr option list \<Rightarrow> addr option list" where
  "tested ps = filter (\<lambda>p. p \<noteq> None) ps"

definition values_of :: "TValue list \<Rightarrow> addr option list" where
  "values_of vs = tested (map gcvalue vs)"

text \<open>The hash part of a dying table, from the last node down: \<open>removeentry\<close> where the value is nil.\<close>

definition node_members :: "Node \<Rightarrow> addr option list" where
  "node_members n =
     (if ttisnil (gval n) then (case gkey n of VDeadKey a \<Rightarrow> [] | k \<Rightarrow> values_of [k])
      else values_of [gkey n, gval n])"

text \<open>The last stack slot that is released, the largest of \<open>top\<close> and the frames' tops.\<close>

definition stack_lim :: "nat \<Rightarrow> nat list \<Rightarrow> nat" where
  "stack_lim tp cis = foldl (\<lambda>lim t. if lim < t then t else lim) tp cis"

fun members :: "obody \<Rightarrow> addr option list" where
  "members (OUdata mt env) = tested [mt] @ [Some env]"
| "members (OProto src k ups p locs) = tested [src] @ values_of k @ tested ups @ tested p @ tested locs"
| "members (OCClosure env ups) = env # values_of ups"
| "members (OLClosure env p ups) = env # p # ups"
| "members (OUpval (Closed v)) = values_of [v]"
| "members (OUpval (Open th i)) = []"
| "members (OTable t mt) = tested [mt] @ values_of (rev (arr t)) @ concat (map node_members (rev (node t)))"
| "members (OThread gt stack tp cis us) = values_of (gt # take (Suc (stack_lim tp cis)) stack)"

section \<open>Lists\<close>

text \<open>The \<open>rootgc\<close> list.\<close>

definition unlink_root :: "addr \<Rightarrow> gstate \<Rightarrow> lua_err + gstate" where
  "unlink_root a g = bindE (get_obj a g) (\<lambda>ob.
     bindE (upd_opt (o_next ob) (\<lambda>n. n\<lparr>o_prev := o_prev ob\<rparr>) g) (\<lambda>g.
       case o_prev ob of
         Some p \<Rightarrow> upd_obj p (\<lambda>p. p\<lparr>o_next := o_next ob\<rparr>) g
       | None \<Rightarrow> Inr (g\<lparr>rootgc := o_next ob\<rparr>)))"

text \<open>
  The gray lists, in the mark phase; \<open>pop\<close> replaces the head of the list the object is first of:
  prototypes and closures are in \<open>gray\<close>, threads in \<open>gray\<close> or \<open>grayagain\<close>, tables in any of the three.
\<close>

definition unlink_gray :: "(addr \<Rightarrow> addr option \<Rightarrow> gstate \<Rightarrow> gstate) \<Rightarrow> addr \<Rightarrow> gstate \<Rightarrow> lua_err + gstate" where
  "unlink_gray pop a g = bindE (get_obj a g) (\<lambda>ob.
     if gcstate g = GCSpropagate \<and> isgray (o_marked ob) then
       bindE (upd_opt (o_gcnext ob) (\<lambda>n. n\<lparr>o_gcprev := o_gcprev ob\<rparr>) g) (\<lambda>g.
         case o_gcprev ob of
           Some p \<Rightarrow> upd_obj p (\<lambda>p. p\<lparr>o_gcnext := o_gcnext ob\<rparr>) g
         | None \<Rightarrow> Inr (pop a (o_gcnext ob) g))
     else Inr g)"

definition pop_gray :: "addr \<Rightarrow> addr option \<Rightarrow> gstate \<Rightarrow> gstate" where
  "pop_gray a n g = g\<lparr>gray := n\<rparr>"

definition pop_thread :: "addr \<Rightarrow> addr option \<Rightarrow> gstate \<Rightarrow> gstate" where
  "pop_thread a n g =
     (if gray g = Some a then g\<lparr>gray := n\<rparr> else if grayagain g = Some a then g\<lparr>grayagain := n\<rparr> else g)"

definition pop_table :: "addr \<Rightarrow> addr option \<Rightarrow> gstate \<Rightarrow> gstate" where
  "pop_table a n g =
     (if gray g = Some a then g\<lparr>gray := n\<rparr> else if grayagain g = Some a then g\<lparr>grayagain := n\<rparr>
      else if weak g = Some a then g\<lparr>weak := n\<rparr> else g)"

text \<open>The sweeper's position.\<close>

definition adjust_sweep :: "addr \<Rightarrow> gstate \<Rightarrow> lua_err + gstate" where
  "adjust_sweep a g = bindE (get_obj a g) (\<lambda>ob.
     if gcstate g = GCSsweep \<and> sweepgc g = At_next a then
       Inr (g\<lparr>sweepgc := (case o_prev ob of Some p \<Rightarrow> At_next p | None \<Rightarrow> At_root)\<rparr>)
     else Inr g)"

definition free_obj :: "addr \<Rightarrow> gstate \<Rightarrow> gstate" where
  "free_obj a g = g\<lparr>objs := (objs g)(a := None)\<rparr>"

text \<open>\<open>luaC_link\<close> of a new object at \<open>a\<close>, with the count the callers set.\<close>

definition push_root :: "addr \<Rightarrow> GCObject \<Rightarrow> gstate \<Rightarrow> lua_err + gstate" where
  "push_root a ob g =
     bindE (upd_opt (rootgc g) (\<lambda>n. n\<lparr>o_prev := Some a\<rparr>) g) (\<lambda>g'.
       Inr (put_obj a (ob\<lparr>o_next := rootgc g, o_prev := None\<rparr>) (g'\<lparr>rootgc := Some a\<rparr>)))"

definition luaC_link :: "addr \<Rightarrow> obody \<Rightarrow> gstate \<Rightarrow> lua_err + gstate" where
  "luaC_link a b g = push_root a \<lparr>o_next = None, o_prev = None, o_ref = 0, o_marked = luaC_white (strt g),
     o_gcnext = None, o_gcprev = None, o_body = b\<rparr> g"

section \<open>Marking one object\<close>

text \<open>\<open>reallymarkobject\<close>: strings become gray, userdata black after what they refer to, an upvalue marks its
  value; the others go on the gray list.  The first argument bounds the nesting (upvalue, userdata,
  table).\<close>

definition push_gray :: "addr \<Rightarrow> gstate \<Rightarrow> lua_err + gstate" where
  "push_gray a g =
     bindE (upd_obj a (\<lambda>ob. ob\<lparr>o_gcnext := gray g, o_gcprev := None\<rparr>) g) (\<lambda>g.
     bindE (upd_opt (gray g) (\<lambda>n. n\<lparr>o_gcprev := Some a\<rparr>) g) (\<lambda>g. Inr (g\<lparr>gray := Some a\<rparr>)))"

definition mark_with :: "(addr \<Rightarrow> gstate \<Rightarrow> lua_err + gstate) \<Rightarrow> addr \<Rightarrow> gstate \<Rightarrow> lua_err + gstate" where
  "mark_with really a g = bindE (get_marked a g) (\<lambda>m. if iswhite m then really a g else Inr g)"

definition markvalue_with :: "(addr \<Rightarrow> gstate \<Rightarrow> lua_err + gstate) \<Rightarrow> TValue \<Rightarrow> gstate \<Rightarrow> lua_err + gstate" where
  "markvalue_with really v g = (case gcvalue v of None \<Rightarrow> Inr g | Some a \<Rightarrow> mark_with really a g)"

definition set_mark :: "addr \<Rightarrow> (u8 \<Rightarrow> u8) \<Rightarrow> gstate \<Rightarrow> lua_err + gstate" where
  "set_mark a f g = (case st_heap (strt g) a of
     Some s \<Rightarrow> Inr (put_str a (s\<lparr>s_marked := f (s_marked s)\<rparr>) g)
   | None \<Rightarrow> upd_obj a (\<lambda>ob. ob\<lparr>o_marked := f (o_marked ob)\<rparr>) g)"

fun reallymarkobject :: "nat \<Rightarrow> addr \<Rightarrow> gstate \<Rightarrow> lua_err + gstate" where
  "reallymarkobject 0 a g = Inl (UB ''fuel'')"
| "reallymarkobject (Suc n) a g =
     bindE (set_mark a white2gray g) (\<lambda>g.
     case st_heap (strt g) a of
       Some s \<Rightarrow> Inr g
     | None \<Rightarrow> bindE (get_obj a g) (\<lambda>ob.
         case o_body ob of
           OUdata mt env \<Rightarrow>
             bindE (set_mark a gray2black g) (\<lambda>g.
             bindE (case mt of None \<Rightarrow> Inr g | Some t \<Rightarrow> mark_with (reallymarkobject n) t g) (\<lambda>g.
             mark_with (reallymarkobject n) env g))
         | OUpval uv \<Rightarrow>
             bindE (upval_value uv g) (\<lambda>v.
             bindE (markvalue_with (reallymarkobject n) v g) (\<lambda>g.
             case uv of Closed _ \<Rightarrow> set_mark a gray2black g | Open _ _ \<Rightarrow> Inr g))
         | _ \<Rightarrow> push_gray a g))"

definition MARK_DEPTH :: nat where "MARK_DEPTH = 3"

definition markobject :: "addr \<Rightarrow> gstate \<Rightarrow> lua_err + gstate" where
  "markobject a g = mark_with (reallymarkobject MARK_DEPTH) a g"

definition markvalue :: "TValue \<Rightarrow> gstate \<Rightarrow> lua_err + gstate" where
  "markvalue v g = markvalue_with (reallymarkobject MARK_DEPTH) v g"

text \<open>The write barriers.\<close>

definition luaC_barrierf :: "addr \<Rightarrow> addr \<Rightarrow> gstate \<Rightarrow> lua_err + gstate" where
  "luaC_barrierf a v g =
     (if gcstate g = GCSpropagate then reallymarkobject MARK_DEPTH v g else set_mark a (makewhite g) g)"

definition luaC_barrier :: "addr \<Rightarrow> TValue \<Rightarrow> gstate \<Rightarrow> lua_err + gstate" where
  "luaC_barrier a v g = (case gcvalue v of None \<Rightarrow> Inr g
     | Some b \<Rightarrow> bindE (get_marked b g) (\<lambda>mv. bindE (get_marked a g) (\<lambda>ma.
         if iswhite mv \<and> isblack ma then luaC_barrierf a b g else Inr g)))"

definition luaC_barrierback :: "addr \<Rightarrow> gstate \<Rightarrow> lua_err + gstate" where
  "luaC_barrierback t g =
     bindE (set_mark t black2gray g) (\<lambda>g.
     bindE (upd_obj t (\<lambda>ob. ob\<lparr>o_gcnext := grayagain g, o_gcprev := None\<rparr>) g) (\<lambda>g.
     bindE (upd_opt (grayagain g) (\<lambda>n. n\<lparr>o_gcprev := Some t\<rparr>) g) (\<lambda>g.
     Inr (g\<lparr>grayagain := Some t\<rparr>))))"

definition luaC_barriert :: "addr \<Rightarrow> TValue \<Rightarrow> gstate \<Rightarrow> lua_err + gstate" where
  "luaC_barriert t v g = (case gcvalue v of None \<Rightarrow> Inr g
     | Some b \<Rightarrow> bindE (get_marked b g) (\<lambda>mv. bindE (get_marked t g) (\<lambda>mt.
         if iswhite mv \<and> isblack mt then luaC_barrierback t g else Inr g)))"

text \<open>\<open>luaC_linkupval\<close>: a closed upvalue goes into the root list.\<close>

definition luaC_linkupval :: "addr \<Rightarrow> gstate \<Rightarrow> lua_err + gstate" where
  "luaC_linkupval u g =
     bindE (get_obj u g) (\<lambda>ob.
     bindE (push_root u ob g) (\<lambda>g.
       if isgray (o_marked ob) then
         if gcstate g = GCSpropagate then
           bindE (set_mark u gray2black g) (\<lambda>g.
             case o_body ob of OUpval uv \<Rightarrow> bindE (upval_value uv g) (\<lambda>v. luaC_barrier u v g) | _ \<Rightarrow> Inl (UB ''upvalue''))
         else set_mark u (makewhite g) g
       else Inr g))"

section \<open>Closures and upvalues\<close>

text \<open>\<open>fresh\<close> gives the address of a new object.  The upvalues of a C closure are filled by the caller.\<close>

definition luaF_newCclosure :: "(gstate \<Rightarrow> addr) \<Rightarrow> nat \<Rightarrow> addr option \<Rightarrow> gstate \<Rightarrow> lua_err + addr \<times> gstate" where
  "luaF_newCclosure fresh nelems e g =
     (let c = fresh g in
      bindE (luaC_link c (OCClosure e (replicate nelems VNil)) g) (\<lambda>g.
      bindE (case e of None \<Rightarrow> Inr g | Some t \<Rightarrow> luarc_addobjref t g) (\<lambda>g. Inr (c, g))))"

definition luaF_newLclosure :: "(gstate \<Rightarrow> addr) \<Rightarrow> nat \<Rightarrow> addr option \<Rightarrow> gstate \<Rightarrow> lua_err + addr \<times> gstate" where
  "luaF_newLclosure fresh nelems e g =
     (let c = fresh g in
      bindE (luaC_link c (OLClosure e None (replicate nelems None)) g) (\<lambda>g.
      bindE (case e of None \<Rightarrow> Inr g | Some t \<Rightarrow> luarc_addobjref t g) (\<lambda>g. Inr (c, g))))"

definition luaF_newupval :: "(gstate \<Rightarrow> addr) \<Rightarrow> gstate \<Rightarrow> lua_err + addr \<times> gstate" where
  "luaF_newupval fresh g =
     (let u = fresh g in bindE (luaC_link u (OUpval (Closed VNil)) g) (\<lambda>g. Inr (u, g)))"

text \<open>The slot an open upvalue points at, \<open>uv->v\<close>.\<close>

definition open_level :: "addr \<Rightarrow> gstate \<Rightarrow> lua_err + nat" where
  "open_level u g = bindE (get_obj u g) (\<lambda>ob. case o_body ob of
     OUpval (Open th i) \<Rightarrow> Inr i | _ \<Rightarrow> Inl (UB ''closed upvalue''))"

text \<open>\<open>findupval\<close> over the open upvalues of the thread, from the innermost: the ones passed, and either
  the upvalue of that level or the place for it.\<close>

fun find_open :: "nat \<Rightarrow> addr list \<Rightarrow> addr list \<Rightarrow> gstate \<Rightarrow> lua_err + (addr option \<times> addr list \<times> addr list)" where
  "find_open level seen [] g = Inr (None, seen, [])"
| "find_open level seen (u # us) g =
     bindE (open_level u g) (\<lambda>i.
       if i \<ge> level then
         if i = level then Inr (Some u, seen, us) else find_open level (seen @ [u]) us g
       else Inr (None, seen, u # us))"

definition thread_open :: "addr \<Rightarrow> gstate \<Rightarrow> lua_err + addr list" where
  "thread_open th g = bindE (get_obj th g) (\<lambda>ob. case o_body ob of
     OThread gt stack tp cis us \<Rightarrow> Inr us | _ \<Rightarrow> Inl (UB ''thread''))"

definition set_open :: "addr \<Rightarrow> addr list \<Rightarrow> gstate \<Rightarrow> lua_err + gstate" where
  "set_open th us g = upd_obj th (\<lambda>ob. ob\<lparr>o_body := (case o_body ob of
     OThread gt stack tp cis _ \<Rightarrow> OThread gt stack tp cis us | b \<Rightarrow> b)\<rparr>) g"

definition luaF_findupval :: "(gstate \<Rightarrow> addr) \<Rightarrow> addr \<Rightarrow> nat \<Rightarrow> gstate \<Rightarrow> lua_err + addr \<times> gstate" where
  "luaF_findupval fresh th level g =
     bindE (thread_open th g) (\<lambda>us.
     bindE (find_open level [] us g) (\<lambda>(found, before, behind).
       case found of
         Some u \<Rightarrow>
           bindE (get_marked u g) (\<lambda>m.
           bindE (if isdead_mark g m then set_mark u (\<lambda>m. m XOR WHITEBITS) g else Inr g) (\<lambda>g. Inr (u, g)))
       | None \<Rightarrow>
           let u = fresh g;
               g = put_obj u \<lparr>o_next = None, o_prev = None, o_ref = 0, o_marked = luaC_white (strt g),
                     o_gcnext = None, o_gcprev = None, o_body = OUpval (Open th level)\<rparr> g
           in bindE (set_open th (before @ u # behind) g) (\<lambda>g. Inr (u, g\<lparr>uvhead := u # uvhead g\<rparr>))))"

definition unlinkupval :: "addr \<Rightarrow> gstate \<Rightarrow> gstate" where
  "unlinkupval u g = g\<lparr>uvhead := removeAll u (uvhead g)\<rparr>"

definition luaF_freeupval :: "addr \<Rightarrow> gstate \<Rightarrow> lua_err + gstate" where
  "luaF_freeupval u g =
     bindE (get_obj u g) (\<lambda>ob.
       Inr (free_obj u (case o_body ob of OUpval (Open _ _) \<Rightarrow> unlinkupval u g | _ \<Rightarrow> g)))"

text \<open>Closing one upvalue: the value moves in (\<open>setobj2n\<close> counts it), and the upvalue into the root list.\<close>

definition close_upval :: "addr \<Rightarrow> gstate \<Rightarrow> lua_err + gstate" where
  "close_upval u g =
     bindE (get_obj u g) (\<lambda>ob.
     case o_body ob of
       OUpval uv \<Rightarrow>
         bindE (upval_value uv g) (\<lambda>v.
         bindE (case gcvalue v of None \<Rightarrow> Inr (unlinkupval u g) | Some a \<Rightarrow> luarc_addobjref a (unlinkupval u g)) (\<lambda>g.
         bindE (upd_obj u (\<lambda>ob. ob\<lparr>o_body := OUpval (Closed v)\<rparr>) g) (luaC_linkupval u)))
     | _ \<Rightarrow> Inl (UB ''upvalue''))"

fun close_loop :: "addr list \<Rightarrow> addr \<Rightarrow> nat \<Rightarrow> gstate \<Rightarrow> lua_err + gstate" where
  "close_loop [] th level g = Inr g"
| "close_loop (u # us) th level g =
     bindE (open_level u g) (\<lambda>i.
       if i \<ge> level then
         bindE (set_open th us g) (\<lambda>g.
         bindE (get_marked u g) (\<lambda>m.
         bindE (if isdead_mark g m then luaF_freeupval u g else close_upval u g) (close_loop us th level)))
       else Inr g)"

definition luaF_close :: "addr \<Rightarrow> nat \<Rightarrow> gstate \<Rightarrow> lua_err + gstate" where
  "luaF_close th level g = bindE (thread_open th g) (\<lambda>us. close_loop us th level g)"

definition luaE_freethread :: "addr \<Rightarrow> gstate \<Rightarrow> lua_err + gstate" where
  "luaE_freethread th g = bindE (luaF_close th 0 g) (\<lambda>g. Inr (free_obj th g))"

section \<open>Finalizers\<close>

text \<open>
  \<open>has_gc\<close> is \<open>fasttm(metatable, TM_GC) != NULL\<close>, \<open>call_gc\<close> the call of the finalizer, \<open>mem\<close> the allocator.
\<close>

record renv =
  has_gc :: "gstate \<Rightarrow> addr option \<Rightarrow> bool"
  call_gc :: "addr \<Rightarrow> gstate \<Rightarrow> lua_err + gstate"
  mem :: allocator

definition udata_metatable :: "addr \<Rightarrow> gstate \<Rightarrow> lua_err + addr option" where
  "udata_metatable a g = bindE (get_obj a g) (\<lambda>ob. case o_body ob of OUdata mt env \<Rightarrow> Inr mt | _ \<Rightarrow> Inl (UB ''udata''))"

text \<open>\<open>GCTM\<close> on the circular list \<open>tmudata\<close>, of which the last element is kept.\<close>

definition GCTM :: "renv \<Rightarrow> gstate \<Rightarrow> lua_err + gstate" where
  "GCTM E g = (case tmudata g of None \<Rightarrow> Inl (UB ''NULL'')
   | Some l \<Rightarrow>
     bindE (get_obj l g) (\<lambda>lob.
     case o_next lob of None \<Rightarrow> Inl (UB ''NULL'')
     | Some u \<Rightarrow>
       bindE (get_obj u g) (\<lambda>ob.
       bindE (if u = l then Inr (g\<lparr>tmudata := None\<rparr>) else upd_obj l (\<lambda>x. x\<lparr>o_next := o_next ob\<rparr>) g) (\<lambda>g.
       bindE (get_obj (mainthread g) g) (\<lambda>m.
       bindE (upd_obj u (\<lambda>x. x\<lparr>o_next := o_next m, o_prev := Some (mainthread g)\<rparr>) g) (\<lambda>g.
       bindE (upd_opt (o_next m) (\<lambda>n. n\<lparr>o_prev := Some u\<rparr>) g) (\<lambda>g.
       bindE (upd_obj (mainthread g) (\<lambda>x. x\<lparr>o_next := Some u\<rparr>) g) (\<lambda>g.
       bindE (set_mark u (makewhite g) g) (\<lambda>g.
       bindE (udata_metatable u g) (\<lambda>mt.
         if has_gc E g mt then call_gc E u g else Inr g))))))))))"

section \<open>Release\<close>

text \<open>Unlinking a userdata: it is never the first of the root list.\<close>

definition unlink_udata :: "addr \<Rightarrow> gstate \<Rightarrow> lua_err + gstate" where
  "unlink_udata a g = bindE (get_obj a g) (\<lambda>ob.
     bindE (upd_opt (o_next ob) (\<lambda>n. n\<lparr>o_prev := o_prev ob\<rparr>) g) (\<lambda>g.
       case o_prev ob of
         Some p \<Rightarrow> upd_obj p (\<lambda>p. p\<lparr>o_next := o_next ob\<rparr>) g
       | None \<Rightarrow> Inl (UB ''NULL'')))"

definition put_tmudata :: "addr \<Rightarrow> gstate \<Rightarrow> lua_err + gstate" where
  "put_tmudata a g = (case tmudata g of
     None \<Rightarrow> bindE (upd_obj a (\<lambda>x. x\<lparr>o_next := Some a\<rparr>) g) (\<lambda>g. Inr (g\<lparr>tmudata := Some a\<rparr>))
   | Some l \<Rightarrow> bindE (get_obj l g) (\<lambda>lob.
       bindE (upd_obj a (\<lambda>x. x\<lparr>o_next := o_next lob\<rparr>) g) (upd_obj l (\<lambda>x. x\<lparr>o_next := Some a\<rparr>))))"

definition luarc_freeudata :: "renv \<Rightarrow> (addr \<Rightarrow> gstate \<Rightarrow> lua_err + gstate) \<Rightarrow> addr \<Rightarrow> gstate \<Rightarrow> lua_err + gstate" where
  "luarc_freeudata E rel a g =
     bindE (get_obj a g) (\<lambda>ob.
     if testbit (o_marked ob) FINALIZEDBIT then Inr g
     else
       bindE (set_mark a (\<lambda>m. m OR 8) g) (\<lambda>g.
       bindE (unlink_udata a g) (\<lambda>g.
       bindE (udata_metatable a g) (\<lambda>mt.
       bindE (if has_gc E g mt then
                bindE (put_tmudata a g) (\<lambda>g. bindE (GCTM E g) (unlink_udata a))
              else Inr g) (\<lambda>g.
       bindE (adjust_sweep a g) (\<lambda>g.
       bindE (get_obj a g) (\<lambda>ob.
       bindE (sub_members rel (members (o_body ob)) g) (\<lambda>g. Inr (free_obj a g)))))))))"

text \<open>Prototypes, closures, closed upvalues, tables and threads.\<close>

definition luarc_freeproto :: "(addr \<Rightarrow> gstate \<Rightarrow> lua_err + gstate) \<Rightarrow> addr \<Rightarrow> gstate \<Rightarrow> lua_err + gstate" where
  "luarc_freeproto rel a g =
     bindE (get_obj a g) (\<lambda>ob.
     bindE (unlink_root a g) (\<lambda>g.
     bindE (unlink_gray pop_gray a g) (\<lambda>g.
     bindE (adjust_sweep a g) (\<lambda>g.
     bindE (sub_members rel (members (o_body ob)) g) (\<lambda>g. Inr (free_obj a g))))))"

definition luarc_freeclosure :: "(addr \<Rightarrow> gstate \<Rightarrow> lua_err + gstate) \<Rightarrow> addr \<Rightarrow> gstate \<Rightarrow> lua_err + gstate" where
  "luarc_freeclosure rel a g =
     bindE (get_obj a g) (\<lambda>ob.
     bindE (unlink_root a g) (\<lambda>g.
     bindE (unlink_gray pop_gray a g) (\<lambda>g.
     bindE (adjust_sweep a g) (\<lambda>g.
     bindE (sub_members rel (members (o_body ob)) g) (\<lambda>g. Inr (free_obj a g))))))"

definition luarc_freeupval :: "(addr \<Rightarrow> gstate \<Rightarrow> lua_err + gstate) \<Rightarrow> addr \<Rightarrow> gstate \<Rightarrow> lua_err + gstate" where
  "luarc_freeupval rel a g =
     bindE (get_obj a g) (\<lambda>ob.
     case o_body ob of
       OUpval (Open _ _) \<Rightarrow> Inr g
     | b \<Rightarrow>
         bindE (unlink_root a g) (\<lambda>g.
         bindE (adjust_sweep a g) (\<lambda>g.
         bindE (sub_members rel (members b) g) (luaF_freeupval a))))"

definition luarc_freetable :: "(addr \<Rightarrow> gstate \<Rightarrow> lua_err + gstate) \<Rightarrow> addr \<Rightarrow> gstate \<Rightarrow> lua_err + gstate" where
  "luarc_freetable rel a g =
     bindE (get_obj a g) (\<lambda>ob.
     bindE (unlink_root a g) (\<lambda>g.
     bindE (unlink_gray pop_table a g) (\<lambda>g.
     bindE (adjust_sweep a g) (\<lambda>g.
     bindE (sub_members rel (members (o_body ob)) g) (\<lambda>g. Inr (free_obj a g))))))"

definition stack_covers :: "obody \<Rightarrow> bool" where
  "stack_covers b = (case b of OThread gt stack tp cis us \<Rightarrow> stack_lim tp cis < length stack | _ \<Rightarrow> False)"

definition luarc_freethread :: "(addr \<Rightarrow> gstate \<Rightarrow> lua_err + gstate) \<Rightarrow> addr \<Rightarrow> gstate \<Rightarrow> lua_err + gstate" where
  "luarc_freethread rel a g =
     bindE (get_obj a g) (\<lambda>ob.
     bindE (unlink_root a g) (\<lambda>g.
     bindE (unlink_gray pop_thread a g) (\<lambda>g.
     bindE (adjust_sweep a g) (\<lambda>g.
     bindE (guardE (stack_covers (o_body ob)) (UB ''stack'')) (\<lambda>_.
     bindE (sub_members rel (members (o_body ob)) g) (luaE_freethread a))))))"

definition luaC_freeobj :: "renv \<Rightarrow> (addr \<Rightarrow> gstate \<Rightarrow> lua_err + gstate) \<Rightarrow> addr \<Rightarrow> gstate \<Rightarrow> lua_err + gstate" where
  "luaC_freeobj E rel a g =
     (case st_heap (strt g) a of
        Some s \<Rightarrow> bindE (luarc_freestring (mem E) a (strt g)) (\<lambda>S. Inr (g\<lparr>strt := S\<rparr>))
      | None \<Rightarrow> bindE (get_obj a g) (\<lambda>ob.
          case o_body ob of
            OUdata _ _ \<Rightarrow> luarc_freeudata E rel a g
          | OProto _ _ _ _ _ \<Rightarrow> luarc_freeproto rel a g
          | OCClosure _ _ \<Rightarrow> luarc_freeclosure rel a g
          | OLClosure _ _ _ \<Rightarrow> luarc_freeclosure rel a g
          | OUpval _ \<Rightarrow> luarc_freeupval rel a g
          | OTable _ _ \<Rightarrow> luarc_freetable rel a g
          | OThread _ _ _ _ _ \<Rightarrow> luarc_freethread rel a g))"

fun luarc_releaseobj :: "nat \<Rightarrow> renv \<Rightarrow> addr \<Rightarrow> gstate \<Rightarrow> lua_err + gstate" where
  "luarc_releaseobj 0 E a g = Inl (UB ''depth'')"
| "luarc_releaseobj (Suc n) E a g =
     bindE (get_marked a g) (\<lambda>m.
       if \<not> (testbit m FIXEDBIT \<or> testbit m SFIXEDBIT) then luaC_freeobj E (luarc_releaseobj n E) a g
       else Inr g)"

text \<open>Dropping a reference, and the increments and decrements of an operation in their order.\<close>

definition drop_ref :: "nat \<Rightarrow> renv \<Rightarrow> addr \<Rightarrow> gstate \<Rightarrow> lua_err + gstate" where
  "drop_ref n E a g = luarc_subobjref (luarc_releaseobj n E) a g"

fun run_rc :: "nat \<Rightarrow> renv \<Rightarrow> rc list \<Rightarrow> gstate \<Rightarrow> lua_err + gstate" where
  "run_rc n E [] g = Inr g"
| "run_rc n E (Inc a # rs) g = bindE (luarc_addobjref a g) (run_rc n E rs)"
| "run_rc n E (Dec a # rs) g = bindE (drop_ref n E a g) (run_rc n E rs)"

text \<open>
  The macros that set a tagged value: what happens to the counts, in order.  A value that is not
  collectable (\<open>setnilvalue\<close>, \<open>setnvalue\<close>, ...), an object \<open>x\<close> (\<open>setsvalue\<close>, \<open>sethvalue\<close>, ...) over an \<open>old\<close> value,
  the same into a new object (\<open>...2n\<close>), and the ones that do not count (\<open>...nrc\<close>); \<open>setobj\<close> is \<open>rc_setobj\<close>.
\<close>

definition rc_setplain :: "TValue \<Rightarrow> rc list" where
  "rc_setplain old = luarc_subref old"

definition rc_setobject :: "addr \<Rightarrow> TValue \<Rightarrow> rc list" where
  "rc_setobject x old = Inc x # luarc_subref old"

definition rc_setplain2n :: "rc list" where
  "rc_setplain2n = []"

definition rc_setobject2n :: "addr \<Rightarrow> rc list" where
  "rc_setobject2n x = [Inc x]"

definition rc_setobj2n :: "TValue \<Rightarrow> rc list" where
  "rc_setobj2n v = luarc_addref v"

definition rc_setnrc :: "rc list" where
  "rc_setnrc = []"

end
