(* ===== verification/Lua_Api.thy ===== *)
theory Lua_Api
  imports Lua_Refs
begin

text \<open>
  The C interface (\<^verbatim>\<open>lapi.c\<close>) on the heap of \<^verbatim>\<open>Lua_Refs\<close>: stack manipulation, pushes, raw table accesses,
  metatables, environments and upvalues, with every change of a reference count in its order.

  The state is the heap, the running thread \<open>L\<close> with the positions of \<open>L->base\<close> and \<open>L->ci->func\<close> in its stack,
  and the values outside the heap: \<open>L->env\<close>, the registry and the metatables \<open>G(L)->mt\<close> of the basic types.
  A \<open>TValue *\<close> is an \<open>aslot\<close>.  What \<open>api_check\<close> demands of the caller is demanded here: a violation is \<open>UB\<close>.
  \<open>K\<close> gives the bound on the nesting of releases and the finalizers, \<open>fresh\<close> the address of a new object.
  Locks, collector steps (\<open>luaC_checkGC\<close>) and allocation failure are not modelled.
\<close>

section \<open>The state of a call\<close>

record lua_api =
  gs :: gstate
  thr :: addr
  base :: nat
  cfunc :: nat
  lenv :: TValue
  lreg :: TValue
  mts :: "addr option list"

datatype aslot = Stack addr nat | Gt addr | Cupvalue addr nat | Upvalue addr | Registry | Environ | Nil_object

type_synonym rcenv = "nat \<times> renv"

definition LUA_REGISTRYINDEX :: int where "LUA_REGISTRYINDEX = - 10000"
definition LUA_ENVIRONINDEX :: int where "LUA_ENVIRONINDEX = - 10001"
definition LUA_GLOBALSINDEX :: int where "LUA_GLOBALSINDEX = - 10002"
definition EXTRA_STACK :: nat where "EXTRA_STACK = 5"
definition LUA_MINSTACK :: nat where "LUA_MINSTACK = 20"
definition BASIC_STACK_SIZE :: nat where "BASIC_STACK_SIZE = 2 * LUA_MINSTACK"
definition LUAI_MAXCSTACK :: int where "LUAI_MAXCSTACK = 8000"

lemmas pseudo_defs = LUA_REGISTRYINDEX_def LUA_ENVIRONINDEX_def LUA_GLOBALSINDEX_def

abbreviation bad_call :: lua_err where "bad_call \<equiv> UB ''api_check''"

definition lift_gs :: "(gstate \<Rightarrow> lua_err + gstate) \<Rightarrow> lua_api \<Rightarrow> lua_err + lua_api" where
  "lift_gs f A = bindE (f (gs A)) (\<lambda>g. Inr (A\<lparr>gs := g\<rparr>))"

definition body :: "addr \<Rightarrow> lua_api \<Rightarrow> lua_err + obody" where
  "body a A = bindE (get_obj a (gs A)) (\<lambda>ob. Inr (o_body ob))"

definition set_body :: "addr \<Rightarrow> obody \<Rightarrow> lua_api \<Rightarrow> lua_err + lua_api" where
  "set_body a b = lift_gs (upd_obj a (\<lambda>ob. ob\<lparr>o_body := b\<rparr>))"

text \<open>The parts of a thread: \<open>gt\<close>, stack, \<open>top\<close>, the \<open>top\<close>s of the frames, the open upvalues.\<close>

definition thread_of :: "addr \<Rightarrow> lua_api \<Rightarrow> lua_err + TValue \<times> TValue list \<times> nat \<times> nat list \<times> addr list" where
  "thread_of th A = bindE (body th A) (\<lambda>b. case b of
     OThread g stk tp cis us \<Rightarrow> Inr (g, stk, tp, cis, us) | _ \<Rightarrow> Inl (UB ''thread''))"

definition get_top :: "addr \<Rightarrow> lua_api \<Rightarrow> lua_err + nat" where
  "get_top th A = bindE (thread_of th A) (\<lambda>(g, stk, tp, cis, us). Inr tp)"

definition set_top :: "addr \<Rightarrow> nat \<Rightarrow> lua_api \<Rightarrow> lua_err + lua_api" where
  "set_top th i A = bindE (thread_of th A) (\<lambda>(g, stk, tp, cis, us). set_body th (OThread g stk i cis us) A)"

text \<open>\<open>L->ci->top\<close>, \<open>L->stack_last\<close>.\<close>

definition ci_top :: "addr \<Rightarrow> lua_api \<Rightarrow> lua_err + nat" where
  "ci_top th A = bindE (thread_of th A) (\<lambda>(g, stk, tp, cis, us). if cis = [] then Inl (UB ''ci'') else Inr (List.last cis))"

definition stack_last :: "addr \<Rightarrow> lua_api \<Rightarrow> lua_err + nat" where
  "stack_last th A = bindE (thread_of th A) (\<lambda>(g, stk, tp, cis, us). Inr (length stk - EXTRA_STACK - 1))"

section \<open>Slots\<close>

definition read_slot :: "aslot \<Rightarrow> lua_api \<Rightarrow> lua_err + TValue" where
  "read_slot s A = (case s of
     Stack th i \<Rightarrow> bindE (thread_of th A) (\<lambda>(g, stk, tp, cis, us). if i < length stk then Inr (stk ! i) else Inl (UB ''stack''))
   | Gt th \<Rightarrow> bindE (thread_of th A) (\<lambda>(g, stk, tp, cis, us). Inr g)
   | Cupvalue c i \<Rightarrow> bindE (body c A) (\<lambda>b. case b of
       OCClosure e ups \<Rightarrow> if i < length ups then Inr (ups ! i) else Inl (UB ''upvalue'') | _ \<Rightarrow> Inl (UB ''closure''))
   | Upvalue u \<Rightarrow> bindE (body u A) (\<lambda>b. case b of OUpval (Closed v) \<Rightarrow> Inr v | _ \<Rightarrow> Inl (UB ''upvalue''))
   | Registry \<Rightarrow> Inr (lreg A)
   | Environ \<Rightarrow> Inr (lenv A)
   | Nil_object \<Rightarrow> Inr VNil)"

definition store_slot :: "aslot \<Rightarrow> TValue \<Rightarrow> lua_api \<Rightarrow> lua_err + lua_api" where
  "store_slot s v A = (case s of
     Stack th i \<Rightarrow> bindE (thread_of th A) (\<lambda>(g, stk, tp, cis, us).
       if i < length stk then set_body th (OThread g (stk[i := v]) tp cis us) A else Inl (UB ''stack''))
   | Gt th \<Rightarrow> bindE (thread_of th A) (\<lambda>(g, stk, tp, cis, us). set_body th (OThread v stk tp cis us) A)
   | Cupvalue c i \<Rightarrow> bindE (body c A) (\<lambda>b. case b of
       OCClosure e ups \<Rightarrow> if i < length ups then set_body c (OCClosure e (ups[i := v])) A else Inl (UB ''upvalue'')
     | _ \<Rightarrow> Inl (UB ''closure''))
   | Upvalue u \<Rightarrow> bindE (body u A) (\<lambda>b. case b of
       OUpval (Closed old) \<Rightarrow> set_body u (OUpval (Closed v)) A | _ \<Rightarrow> Inl (UB ''upvalue''))
   | Registry \<Rightarrow> Inr (A\<lparr>lreg := v\<rparr>)
   | Environ \<Rightarrow> Inr (A\<lparr>lenv := v\<rparr>)
   | Nil_object \<Rightarrow> Inl (UB ''luaO_nilobject''))"

text \<open>
  \<open>setobj\<close> (and \<open>setnilvalue\<close>, \<open>sethvalue\<close>, ...): the old value is remembered, the new one stored and counted, the
  old reference dropped.  \<open>setobj2n\<close> is the same on a slot without an old value.
\<close>

definition do_rc :: "rcenv \<Rightarrow> rc list \<Rightarrow> lua_api \<Rightarrow> lua_err + lua_api" where
  "do_rc K rs = lift_gs (run_rc (fst K) (snd K) rs)"

definition setobj :: "rcenv \<Rightarrow> aslot \<Rightarrow> TValue \<Rightarrow> lua_api \<Rightarrow> lua_err + lua_api" where
  "setobj K s v A =
     bindE (read_slot s A) (\<lambda>old. bindE (store_slot s v A) (do_rc K (rc_setobj old v)))"

definition setnilvalue :: "rcenv \<Rightarrow> aslot \<Rightarrow> lua_api \<Rightarrow> lua_err + lua_api" where
  "setnilvalue K s A =
     bindE (read_slot s A) (\<lambda>old. bindE (store_slot s VNil A) (do_rc K (rc_setplain old)))"

definition setobj2n :: "rcenv \<Rightarrow> aslot \<Rightarrow> TValue \<Rightarrow> lua_api \<Rightarrow> lua_err + lua_api" where
  "setobj2n K s v A = bindE (store_slot s v A) (do_rc K (rc_setobj2n v))"

text \<open>\<open>luarc_sub...ref\<close> of a field that may be NULL.\<close>

definition sub_opt :: "rcenv \<Rightarrow> addr option \<Rightarrow> lua_api \<Rightarrow> lua_err + lua_api" where
  "sub_opt K p = (case p of None \<Rightarrow> Inr | Some a \<Rightarrow> do_rc K [Dec a])"

definition sub_field :: "rcenv \<Rightarrow> addr option \<Rightarrow> lua_api \<Rightarrow> lua_err + lua_api" where
  "sub_field K p A = (case p of None \<Rightarrow> Inl (UB ''NULL'') | Some a \<Rightarrow> do_rc K [Dec a] A)"

section \<open>Indices\<close>

text \<open>The running function.\<close>

definition curr_func :: "lua_api \<Rightarrow> lua_err + addr" where
  "curr_func A = bindE (read_slot (Stack (thr A) (cfunc A)) A) (\<lambda>v. case v of VFunction c \<Rightarrow> Inr c | _ \<Rightarrow> Inl (UB ''curr_func''))"

definition closure_env :: "addr \<Rightarrow> lua_api \<Rightarrow> lua_err + addr option" where
  "closure_env c A = bindE (body c A) (\<lambda>b. case b of
     OCClosure e ups \<Rightarrow> Inr e | OLClosure e p ups \<Rightarrow> Inr e | _ \<Rightarrow> Inl (UB ''closure''))"

definition set_closure_env :: "addr \<Rightarrow> addr option \<Rightarrow> lua_api \<Rightarrow> lua_err + lua_api" where
  "set_closure_env c e A = bindE (body c A) (\<lambda>b. case b of
     OCClosure _ ups \<Rightarrow> set_body c (OCClosure e ups) A
   | OLClosure _ p ups \<Rightarrow> set_body c (OLClosure e p ups) A | _ \<Rightarrow> Inl (UB ''closure''))"

definition table_value :: "addr option \<Rightarrow> lua_err + TValue" where
  "table_value p = (case p of None \<Rightarrow> Inl (UB ''NULL'') | Some t \<Rightarrow> Inr (VTable t))"

definition index2adr :: "rcenv \<Rightarrow> int \<Rightarrow> lua_api \<Rightarrow> lua_err + aslot \<times> lua_api" where
  "index2adr K idx A = bindE (get_top (thr A) A) (\<lambda>tp.
     if idx > 0 then
       bindE (ci_top (thr A) A) (\<lambda>ct.
         if idx > int ct - int (base A) then Inl bad_call
         else if int (base A) + idx - 1 \<ge> int tp then Inr (Nil_object, A)
         else Inr (Stack (thr A) (base A + nat idx - 1), A))
     else if idx > LUA_REGISTRYINDEX then
       (if idx \<noteq> 0 \<and> - idx \<le> int tp - int (base A) then Inr (Stack (thr A) (tp - nat (- idx)), A) else Inl bad_call)
     else if idx = LUA_REGISTRYINDEX then Inr (Registry, A)
     else if idx = LUA_ENVIRONINDEX then
       bindE (curr_func A) (\<lambda>c. bindE (closure_env c A) (\<lambda>e. bindE (table_value e) (\<lambda>v.
         bindE (setobj K Environ v A) (\<lambda>A. Inr (Environ, A)))))
     else if idx = LUA_GLOBALSINDEX then Inr (Gt (thr A), A)
     else bindE (curr_func A) (\<lambda>c. bindE (body c A) (\<lambda>b. case b of
       OCClosure e ups \<Rightarrow>
         Inr (if LUA_GLOBALSINDEX - idx \<le> int (length ups) then Cupvalue c (nat (LUA_GLOBALSINDEX - idx) - 1) else Nil_object, A)
     | _ \<Rightarrow> Inl (UB ''closure''))))"

definition getcurrenv :: "lua_api \<Rightarrow> lua_err + addr option" where
  "getcurrenv A = bindE (thread_of (thr A) A) (\<lambda>(g, stk, tp, cis, us).
     if length cis = 1 then (case g of VTable t \<Rightarrow> Inr (Some t) | _ \<Rightarrow> Inl (UB ''gt''))
     else bindE (curr_func A) (\<lambda>c. closure_env c A))"

text \<open>The value at an index; \<open>api_incr_top\<close>; a push.\<close>

definition value_at :: "rcenv \<Rightarrow> int \<Rightarrow> lua_api \<Rightarrow> lua_err + aslot \<times> TValue \<times> lua_api" where
  "value_at K idx A = bindE (index2adr K idx A) (\<lambda>(s, A). bindE (read_slot s A) (\<lambda>v. Inr (s, v, A)))"

definition valid_at :: "rcenv \<Rightarrow> int \<Rightarrow> lua_api \<Rightarrow> lua_err + aslot \<times> TValue \<times> lua_api" where
  "valid_at K idx A = bindE (value_at K idx A) (\<lambda>(s, v, A). if s = Nil_object then Inl bad_call else Inr (s, v, A))"

definition api_incr_top :: "addr \<Rightarrow> lua_api \<Rightarrow> lua_err + lua_api" where
  "api_incr_top th A = bindE (get_top th A) (\<lambda>tp. bindE (ci_top th A) (\<lambda>ct.
     if tp < ct then set_top th (tp + 1) A else Inl bad_call))"

definition luaA_pushobject :: "rcenv \<Rightarrow> TValue \<Rightarrow> lua_api \<Rightarrow> lua_err + lua_api" where
  "luaA_pushobject K v A = bindE (get_top (thr A) A) (\<lambda>tp.
     bindE (setobj K (Stack (thr A) tp) v A) (api_incr_top (thr A)))"

definition drop_top :: "rcenv \<Rightarrow> lua_api \<Rightarrow> lua_err + lua_api" where
  "drop_top K A = bindE (get_top (thr A) A) (\<lambda>tp.
     bindE (set_top (thr A) (tp - 1) A) (setnilvalue K (Stack (thr A) (tp - 1))))"

text \<open>\<open>api_checknelems\<close>, with the value on the top.\<close>

definition checknelems :: "nat \<Rightarrow> lua_api \<Rightarrow> lua_err + nat" where
  "checknelems n A = bindE (get_top (thr A) A) (\<lambda>tp. if base A + n \<le> tp then Inr tp else Inl bad_call)"

definition top_value :: "lua_api \<Rightarrow> lua_err + TValue" where
  "top_value A = bindE (checknelems 1 A) (\<lambda>tp. read_slot (Stack (thr A) (tp - 1)) A)"

section \<open>Stack manipulation\<close>

definition lua_gettop :: "lua_api \<Rightarrow> lua_err + int" where
  "lua_gettop A = bindE (get_top (thr A) A) (\<lambda>tp. Inr (int tp - int (base A)))"

text \<open>\<open>setnilvalue(L, --L->top)\<close> \<open>n\<close> times.\<close>

fun pop_loop :: "rcenv \<Rightarrow> nat \<Rightarrow> lua_api \<Rightarrow> lua_err + lua_api" where
  "pop_loop K 0 A = Inr A"
| "pop_loop K (Suc n) A = bindE (drop_top K A) (pop_loop K n)"

definition lua_settop :: "rcenv \<Rightarrow> int \<Rightarrow> lua_api \<Rightarrow> lua_err + lua_api" where
  "lua_settop K idx A = bindE (get_top (thr A) A) (\<lambda>tp. bindE (stack_last (thr A) A) (\<lambda>sl.
     if idx \<ge> 0 then
       if idx \<le> int sl - int (base A) then
         bindE (pop_loop K (tp - (base A + nat idx)) A) (set_top (thr A) (base A + nat idx))
       else Inl bad_call
     else if - (idx + 1) \<le> int tp - int (base A) then pop_loop K (nat (- (idx + 1))) A
     else Inl bad_call))"

text \<open>The slot of a stack element of the running function.\<close>

definition stack_index :: "rcenv \<Rightarrow> int \<Rightarrow> lua_api \<Rightarrow> lua_err + nat \<times> lua_api" where
  "stack_index K idx A = bindE (index2adr K idx A) (\<lambda>(s, A). case s of
     Stack th i \<Rightarrow> Inr (i, A) | _ \<Rightarrow> Inl bad_call)"

text \<open>\<open>setobjs2s(L, to, from)\<close>.\<close>

definition copy_slot :: "rcenv \<Rightarrow> nat \<Rightarrow> nat \<Rightarrow> lua_api \<Rightarrow> lua_err + lua_api" where
  "copy_slot K to from A = bindE (read_slot (Stack (thr A) from) A) (\<lambda>v. setobj K (Stack (thr A) to) v A)"

text \<open>The loops of \<open>lua_remove\<close> and \<open>lua_insert\<close>, with the number of slots to move.\<close>

fun shift_down :: "rcenv \<Rightarrow> nat \<Rightarrow> nat \<Rightarrow> lua_api \<Rightarrow> lua_err + lua_api" where
  "shift_down K 0 p A = Inr A"
| "shift_down K (Suc n) p A = bindE (copy_slot K p (p + 1) A) (shift_down K n (p + 1))"

fun shift_up :: "rcenv \<Rightarrow> nat \<Rightarrow> nat \<Rightarrow> lua_api \<Rightarrow> lua_err + lua_api" where
  "shift_up K 0 p A = Inr A"
| "shift_up K (Suc n) p A = bindE (copy_slot K (p + Suc n) (p + n) A) (shift_up K n p)"

definition lua_remove :: "rcenv \<Rightarrow> int \<Rightarrow> lua_api \<Rightarrow> lua_err + lua_api" where
  "lua_remove K idx A =
     bindE (stack_index K idx A) (\<lambda>(p, A).
     bindE (get_top (thr A) A) (\<lambda>tp.
     bindE (shift_down K (tp - p - 1) p A) (drop_top K)))"

definition lua_insert :: "rcenv \<Rightarrow> int \<Rightarrow> lua_api \<Rightarrow> lua_err + lua_api" where
  "lua_insert K idx A =
     bindE (stack_index K idx A) (\<lambda>(p, A).
     bindE (get_top (thr A) A) (\<lambda>tp.
     bindE (shift_up K (tp - p) p A) (\<lambda>A.
     bindE (copy_slot K p tp A) (setnilvalue K (Stack (thr A) tp)))))"

definition lua_replace :: "rcenv \<Rightarrow> int \<Rightarrow> lua_api \<Rightarrow> lua_err + lua_api" where
  "lua_replace K idx A =
     bindE (thread_of (thr A) A) (\<lambda>(g, stk, tp, cis, us).
     if idx = LUA_ENVIRONINDEX \<and> length cis = 1 then Inl (LUA_ERRRUN ''no calling environment'')
     else bindE (checknelems 1 A) (\<lambda>_.
       bindE (valid_at K idx A) (\<lambda>(s, _, A).
       bindE (top_value A) (\<lambda>v.
       bindE
         (if idx = LUA_ENVIRONINDEX then
            bindE (curr_func A) (\<lambda>c.
              case v of
                VTable t \<Rightarrow>
                  bindE (do_rc K [Inc t] A) (\<lambda>A.
                  bindE (closure_env c A) (\<lambda>e.
                  bindE (sub_opt K e A) (\<lambda>A.
                  bindE (set_closure_env c (Some t) A) (lift_gs (luaC_barrier c v)))))
              | _ \<Rightarrow> Inl bad_call)
          else
            bindE (setobj K s v A) (\<lambda>A.
              if idx < LUA_GLOBALSINDEX then bindE (curr_func A) (\<lambda>c. lift_gs (luaC_barrier c v) A) else Inr A))
         (drop_top K)))))"

definition lua_pushvalue :: "rcenv \<Rightarrow> int \<Rightarrow> lua_api \<Rightarrow> lua_err + lua_api" where
  "lua_pushvalue K idx A = bindE (value_at K idx A) (\<lambda>(s, v, A). luaA_pushobject K v A)"

text \<open>\<open>lua_xmove\<close> to the thread \<open>to\<close>: the loop over the slots from \<open>b\<close> on.\<close>

fun move_slots :: "rcenv \<Rightarrow> addr \<Rightarrow> nat \<Rightarrow> nat \<Rightarrow> lua_api \<Rightarrow> lua_err + lua_api" where
  "move_slots K to 0 b A = Inr A"
| "move_slots K to (Suc n) b A =
     bindE (read_slot (Stack (thr A) b) A) (\<lambda>v.
     bindE (get_top to A) (\<lambda>tt.
     bindE (set_top to (tt + 1) A) (\<lambda>A.
     bindE (setobj K (Stack to tt) v A) (\<lambda>A.
     bindE (setnilvalue K (Stack (thr A) b) A) (move_slots K to n (b + 1))))))"

definition lua_xmove :: "rcenv \<Rightarrow> addr \<Rightarrow> nat \<Rightarrow> lua_api \<Rightarrow> lua_err + lua_api" where
  "lua_xmove K to n A =
     (if thr A = to then Inr A
      else bindE (checknelems n A) (\<lambda>tp.
        bindE (get_top to A) (\<lambda>tt.
        bindE (ci_top to A) (\<lambda>ct.
          if tt + n \<le> ct then bindE (move_slots K to n (tp - n) A) (set_top (thr A) (tp - n)) else Inl bad_call))))"

text \<open>Growing the stack (\<^verbatim>\<open>ldo.c\<close>): \<open>luaD_checkstack\<close>.\<close>

fun nil_slots :: "rcenv \<Rightarrow> addr \<Rightarrow> nat \<Rightarrow> nat \<Rightarrow> lua_api \<Rightarrow> lua_err + lua_api" where
  "nil_slots K th 0 p A = Inr A"
| "nil_slots K th (Suc n) p A = bindE (setnilvalue K (Stack th p) A) (nil_slots K th n (p + 1))"

definition luaD_reallocstack :: "rcenv \<Rightarrow> addr \<Rightarrow> nat \<Rightarrow> lua_api \<Rightarrow> lua_err + lua_api" where
  "luaD_reallocstack K th newsize A =
     (let realsize = newsize + 1 + EXTRA_STACK in
      bindE (get_top th A) (\<lambda>tp.
      bindE (nil_slots K th (tp - realsize) realsize A) (\<lambda>A.
      bindE (thread_of th A) (\<lambda>(g, stk, tp, cis, us).
        set_body th (OThread g (take realsize stk @ replicate (realsize - length stk) VNil) tp cis us) A))))"

definition luaD_growstack :: "rcenv \<Rightarrow> addr \<Rightarrow> nat \<Rightarrow> lua_api \<Rightarrow> lua_err + lua_api" where
  "luaD_growstack K th n A = bindE (thread_of th A) (\<lambda>(g, stk, tp, cis, us).
     if n \<le> length stk then luaD_reallocstack K th (2 * length stk) A
     else luaD_reallocstack K th (length stk + n) A)"

definition luaD_checkstack :: "rcenv \<Rightarrow> addr \<Rightarrow> nat \<Rightarrow> lua_api \<Rightarrow> lua_err + lua_api" where
  "luaD_checkstack K th n A = bindE (get_top th A) (\<lambda>tp. bindE (stack_last th A) (\<lambda>sl.
     if int sl - int tp \<le> int n then luaD_growstack K th n A else Inr A))"

definition set_ci_top :: "addr \<Rightarrow> nat \<Rightarrow> lua_api \<Rightarrow> lua_err + lua_api" where
  "set_ci_top th i A = bindE (thread_of th A) (\<lambda>(g, stk, tp, cis, us).
     set_body th (OThread g stk tp (butlast cis @ [i]) us) A)"

definition lua_checkstack :: "rcenv \<Rightarrow> int \<Rightarrow> lua_api \<Rightarrow> lua_err + bool \<times> lua_api" where
  "lua_checkstack K sz A = bindE (get_top (thr A) A) (\<lambda>tp.
     if sz > LUAI_MAXCSTACK \<or> int tp - int (base A) + sz > LUAI_MAXCSTACK then Inr (False, A)
     else if sz > 0 then
       bindE (luaD_checkstack K (thr A) (nat sz) A) (\<lambda>A.
       bindE (ci_top (thr A) A) (\<lambda>ct.
       bindE (if ct < tp + nat sz then set_ci_top (thr A) (tp + nat sz) A else Inr A) (\<lambda>A. Inr (True, A))))
     else Inr (True, A))"

section \<open>Reading values\<close>

definition lua_type :: "rcenv \<Rightarrow> int \<Rightarrow> lua_api \<Rightarrow> lua_err + int \<times> lua_api" where
  "lua_type K idx A = bindE (value_at K idx A) (\<lambda>(s, v, A). Inr (if s = Nil_object then - 1 else int (ttype v), A))"

definition iscfunction :: "TValue \<Rightarrow> lua_api \<Rightarrow> lua_err + bool" where
  "iscfunction v A = (case v of VFunction c \<Rightarrow> bindE (body c A) (\<lambda>b. Inr (case b of OCClosure _ _ \<Rightarrow> True | _ \<Rightarrow> False))
     | _ \<Rightarrow> Inr False)"

definition lua_iscfunction :: "rcenv \<Rightarrow> int \<Rightarrow> lua_api \<Rightarrow> lua_err + bool \<times> lua_api" where
  "lua_iscfunction K idx A = bindE (value_at K idx A) (\<lambda>(s, v, A). bindE (iscfunction v A) (\<lambda>r. Inr (r, A)))"

definition lua_isstring :: "rcenv \<Rightarrow> int \<Rightarrow> lua_api \<Rightarrow> lua_err + bool \<times> lua_api" where
  "lua_isstring K idx A = bindE (lua_type K idx A) (\<lambda>(t, A). Inr (t = 4 \<or> t = 3, A))"

definition lua_isuserdata :: "rcenv \<Rightarrow> int \<Rightarrow> lua_api \<Rightarrow> lua_err + bool \<times> lua_api" where
  "lua_isuserdata K idx A = bindE (value_at K idx A) (\<lambda>(s, v, A).
     Inr (case v of VUserdata _ \<Rightarrow> True | VLightUserdata _ \<Rightarrow> True | _ \<Rightarrow> False, A))"

definition lua_rawequal :: "rcenv \<Rightarrow> int \<Rightarrow> int \<Rightarrow> lua_api \<Rightarrow> lua_err + bool \<times> lua_api" where
  "lua_rawequal K index1 index2 A =
     bindE (index2adr K index1 A) (\<lambda>(s1, A).
     bindE (index2adr K index2 A) (\<lambda>(s2, A).
     bindE (read_slot s1 A) (\<lambda>v1. bindE (read_slot s2 A) (\<lambda>v2.
       Inr (if s1 = Nil_object \<or> s2 = Nil_object then False else luaO_rawequalObj v1 v2, A)))))"

definition lua_toboolean :: "rcenv \<Rightarrow> int \<Rightarrow> lua_api \<Rightarrow> lua_err + bool \<times> lua_api" where
  "lua_toboolean K idx A = bindE (value_at K idx A) (\<lambda>(s, v, A).
     Inr (case v of VNil \<Rightarrow> False | VBoolean b \<Rightarrow> b \<noteq> 0 | _ \<Rightarrow> True, A))"

definition lua_tothread :: "rcenv \<Rightarrow> int \<Rightarrow> lua_api \<Rightarrow> lua_err + addr option \<times> lua_api" where
  "lua_tothread K idx A = bindE (value_at K idx A) (\<lambda>(s, v, A). Inr (case v of VThread a \<Rightarrow> Some a | _ \<Rightarrow> None, A))"

section \<open>Pushing values\<close>

definition lua_pushnil :: "rcenv \<Rightarrow> lua_api \<Rightarrow> lua_err + lua_api" where
  "lua_pushnil K A = bindE (get_top (thr A) A) (\<lambda>tp.
     bindE (setnilvalue K (Stack (thr A) tp) A) (api_incr_top (thr A)))"

definition lua_pushnumber :: "rcenv \<Rightarrow> lua_Number \<Rightarrow> lua_api \<Rightarrow> lua_err + lua_api" where
  "lua_pushnumber K n = luaA_pushobject K (VNumber n)"

definition lua_pushinteger :: "rcenv \<Rightarrow> int \<Rightarrow> lua_api \<Rightarrow> lua_err + lua_api" where
  "lua_pushinteger K n = luaA_pushobject K (VNumber (cast_num n))"

definition lua_pushboolean :: "rcenv \<Rightarrow> int \<Rightarrow> lua_api \<Rightarrow> lua_err + lua_api" where
  "lua_pushboolean K b = luaA_pushobject K (VBoolean (if b \<noteq> 0 then 1 else 0))"

definition lua_pushlightuserdata :: "rcenv \<Rightarrow> u64 \<Rightarrow> lua_api \<Rightarrow> lua_err + lua_api" where
  "lua_pushlightuserdata K p = luaA_pushobject K (VLightUserdata p)"

definition lua_pushthread :: "rcenv \<Rightarrow> lua_api \<Rightarrow> lua_err + bool \<times> lua_api" where
  "lua_pushthread K A = bindE (luaA_pushobject K (VThread (thr A)) A) (\<lambda>A. Inr (mainthread (gs A) = thr A, A))"

definition lua_pushlstring :: "rcenv \<Rightarrow> (sheap \<Rightarrow> addr) \<Rightarrow> string \<Rightarrow> lua_api \<Rightarrow> lua_err + lua_api" where
  "lua_pushlstring K fresh s A =
     bindE (luaS_newlstr (mem (snd K)) fresh s (strt (gs A))) (\<lambda>(a, S).
       luaA_pushobject K (VString a) (A\<lparr>gs := (gs A)\<lparr>strt := S\<rparr>\<rparr>))"

definition lua_pushstring :: "rcenv \<Rightarrow> (sheap \<Rightarrow> addr) \<Rightarrow> string option \<Rightarrow> lua_api \<Rightarrow> lua_err + lua_api" where
  "lua_pushstring K fresh s = (case s of None \<Rightarrow> lua_pushnil K | Some s \<Rightarrow> lua_pushlstring K fresh s)"

text \<open>The loop of \<open>lua_pushcclosure\<close> moves the values above \<open>top\<close> into the closure, the last first.\<close>

fun fill_upvalues :: "rcenv \<Rightarrow> addr \<Rightarrow> nat \<Rightarrow> nat \<Rightarrow> lua_api \<Rightarrow> lua_err + lua_api" where
  "fill_upvalues K c tp 0 A = Inr A"
| "fill_upvalues K c tp (Suc n) A =
     bindE (read_slot (Stack (thr A) (tp + n)) A) (\<lambda>v.
     bindE (setobj2n K (Cupvalue c n) v A) (\<lambda>A.
     bindE (setnilvalue K (Stack (thr A) (tp + n)) A) (fill_upvalues K c tp n)))"

definition lua_pushcclosure :: "rcenv \<Rightarrow> (gstate \<Rightarrow> addr) \<Rightarrow> nat \<Rightarrow> lua_api \<Rightarrow> lua_err + lua_api" where
  "lua_pushcclosure K fresh n A =
     bindE (checknelems n A) (\<lambda>tp.
     bindE (getcurrenv A) (\<lambda>e.
     bindE (luaF_newCclosure fresh n e (gs A)) (\<lambda>(c, g).
     bindE (set_top (thr A) (tp - n) (A\<lparr>gs := g\<rparr>)) (\<lambda>A.
     bindE (fill_upvalues K c (tp - n) n A) (luaA_pushobject K (VFunction c))))))"

text \<open>New threads (\<^verbatim>\<open>lstate.c\<close>), tables and userdata (\<^verbatim>\<open>lstring.c\<close>).\<close>

definition new_thread_body :: "TValue \<Rightarrow> obody" where
  "new_thread_body g = OThread g (replicate (BASIC_STACK_SIZE + EXTRA_STACK) VNil) 1 [1 + LUA_MINSTACK] []"

definition luaE_newthread :: "(gstate \<Rightarrow> addr) \<Rightarrow> lua_api \<Rightarrow> lua_err + addr \<times> lua_api" where
  "luaE_newthread fresh A =
     (let th = fresh (gs A) in
      bindE (lift_gs (luaC_link th (new_thread_body VNil)) A) (\<lambda>A.
      bindE (read_slot (Gt (thr A)) A) (\<lambda>v.
      bindE (store_slot (Gt th) v A) (\<lambda>A.
      bindE (case gcvalue v of None \<Rightarrow> Inr A | Some t \<Rightarrow> lift_gs (luarc_addobjref t) A) (\<lambda>A. Inr (th, A))))))"

definition lua_newthread :: "rcenv \<Rightarrow> (gstate \<Rightarrow> addr) \<Rightarrow> lua_api \<Rightarrow> lua_err + lua_api" where
  "lua_newthread K fresh A = bindE (luaE_newthread fresh A) (\<lambda>(th, A). luaA_pushobject K (VThread th) A)"

definition lua_createtable :: "rcenv \<Rightarrow> (gstate \<Rightarrow> addr) \<Rightarrow> nat \<Rightarrow> int \<Rightarrow> lua_api \<Rightarrow> lua_err + lua_api" where
  "lua_createtable K fresh narray nrec A =
     (let t = fresh (gs A) in
      bindE (luaH_new 0 0) (\<lambda>e.
      bindE (lift_gs (luaC_link t (OTable e None)) A) (\<lambda>A.
      bindE (luaH_new narray nrec) (\<lambda>h.
      bindE (set_body t (OTable h None) A) (luaA_pushobject K (VTable t))))))"

definition luaS_newudata :: "(gstate \<Rightarrow> addr) \<Rightarrow> addr option \<Rightarrow> gstate \<Rightarrow> lua_err + addr \<times> gstate" where
  "luaS_newudata fresh e g =
     (let u = fresh g in
      case e of None \<Rightarrow> Inl (UB ''NULL'') | Some t \<Rightarrow>
      bindE (luarc_addobjref t g) (\<lambda>g.
      bindE (get_obj (mainthread g) g) (\<lambda>m.
      bindE (upd_opt (o_next m) (\<lambda>x. x\<lparr>o_prev := Some u\<rparr>) g) (\<lambda>g.
      bindE (upd_obj (mainthread g) (\<lambda>x. x\<lparr>o_next := Some u\<rparr>) g) (\<lambda>g.
        Inr (u, put_obj u \<lparr>o_next = o_next m, o_prev = Some (mainthread g), o_ref = 0, o_marked = luaC_white (strt g),
          o_gcnext = None, o_gcprev = None, o_body = OUdata None t\<rparr> g))))))"

definition lua_newuserdata :: "rcenv \<Rightarrow> (gstate \<Rightarrow> addr) \<Rightarrow> lua_api \<Rightarrow> lua_err + lua_api" where
  "lua_newuserdata K fresh A =
     bindE (getcurrenv A) (\<lambda>e.
     bindE (luaS_newudata fresh e (gs A)) (\<lambda>(u, g). luaA_pushobject K (VUserdata u) (A\<lparr>gs := g\<rparr>)))"

section \<open>Raw table access\<close>

definition hash_of :: "gstate \<Rightarrow> addr \<Rightarrow> u32" where
  "hash_of g a = (case st_heap (strt g) a of Some s \<Rightarrow> s_hash s | None \<Rightarrow> 0)"

definition table_of :: "TValue \<Rightarrow> lua_api \<Rightarrow> lua_err + addr \<times> Table \<times> addr option" where
  "table_of v A = (case v of VTable a \<Rightarrow> bindE (body a A) (\<lambda>b. case b of
       OTable t mt \<Rightarrow> Inr (a, t, mt) | _ \<Rightarrow> Inl (UB ''table''))
     | _ \<Rightarrow> Inl bad_call)"

definition lua_rawget :: "rcenv \<Rightarrow> int \<Rightarrow> lua_api \<Rightarrow> lua_err + lua_api" where
  "lua_rawget K idx A =
     bindE (value_at K idx A) (\<lambda>(s, v, A).
     bindE (table_of v A) (\<lambda>(a, t, mt).
     bindE (get_top (thr A) A) (\<lambda>tp.
     bindE (read_slot (Stack (thr A) (tp - 1)) A) (\<lambda>key.
     bindE (luaH_get (hash_of (gs A)) t key) (\<lambda>p. setobj K (Stack (thr A) (tp - 1)) (slot_value t p) A)))))"

definition lua_rawgeti :: "rcenv \<Rightarrow> int \<Rightarrow> int \<Rightarrow> lua_api \<Rightarrow> lua_err + lua_api" where
  "lua_rawgeti K idx n A =
     bindE (value_at K idx A) (\<lambda>(s, v, A).
     bindE (table_of v A) (\<lambda>(a, t, mt).
     bindE (luaH_getnum t n) (\<lambda>p. luaA_pushobject K (slot_value t p) A)))"

text \<open>\<open>setobj2t\<close> into the slot that \<open>luaH_set\<close> or \<open>luaH_setnum\<close> gave.\<close>

definition store_table :: "rcenv \<Rightarrow> addr \<Rightarrow> addr option \<Rightarrow> (lua_err + Lua_Table.slot \<times> Table \<times> rc list) \<Rightarrow> TValue \<Rightarrow> lua_api \<Rightarrow>
    lua_err + lua_api" where
  "store_table K a mt m v A =
     bindE m (\<lambda>(p, t, rs).
     bindE (set_body a (OTable t mt) A) (\<lambda>A.
     bindE (do_rc K rs A) (\<lambda>A.
     bindE (set_body a (OTable (store t p v) mt) A) (\<lambda>A.
     bindE (do_rc K (rc_setobj (slot_value t p) v) A) (lift_gs (luaC_barriert a v))))))"

definition lua_rawset :: "rcenv \<Rightarrow> int \<Rightarrow> lua_api \<Rightarrow> lua_err + lua_api" where
  "lua_rawset K idx A =
     bindE (checknelems 2 A) (\<lambda>tp.
     bindE (value_at K idx A) (\<lambda>(s, v, A).
     bindE (table_of v A) (\<lambda>(a, t, mt).
     bindE (read_slot (Stack (thr A) (tp - 2)) A) (\<lambda>key.
     bindE (read_slot (Stack (thr A) (tp - 1)) A) (\<lambda>x.
     bindE (store_table K a mt (luaH_set (hash_of (gs A)) t key) x A) (\<lambda>A.
     bindE (setnilvalue K (Stack (thr A) (tp - 2)) A) (\<lambda>A.
     bindE (setnilvalue K (Stack (thr A) (tp - 1)) A) (set_top (thr A) (tp - 2)))))))))"

definition lua_rawseti :: "rcenv \<Rightarrow> int \<Rightarrow> int \<Rightarrow> lua_api \<Rightarrow> lua_err + lua_api" where
  "lua_rawseti K idx n A =
     bindE (checknelems 1 A) (\<lambda>tp.
     bindE (value_at K idx A) (\<lambda>(s, v, A).
     bindE (table_of v A) (\<lambda>(a, t, mt).
     bindE (read_slot (Stack (thr A) (tp - 1)) A) (\<lambda>x.
     bindE (store_table K a mt (luaH_setnum (hash_of (gs A)) t n) x A) (\<lambda>A.
     bindE (setnilvalue K (Stack (thr A) (tp - 1)) A) (set_top (thr A) (tp - 1)))))))"

definition lua_next :: "rcenv \<Rightarrow> int \<Rightarrow> lua_api \<Rightarrow> lua_err + bool \<times> lua_api" where
  "lua_next K idx A =
     bindE (value_at K idx A) (\<lambda>(s, v, A).
     bindE (table_of v A) (\<lambda>(a, t, mt).
     bindE (get_top (thr A) A) (\<lambda>tp.
     bindE (read_slot (Stack (thr A) (tp - 1)) A) (\<lambda>key.
     bindE (read_slot (Stack (thr A) tp) A) (\<lambda>old.
     bindE (luaH_next (hash_of (gs A)) t key old) (\<lambda>r. case r of
       Some (k, x, rs) \<Rightarrow>
         bindE (setobj K (Stack (thr A) (tp - 1)) k A) (\<lambda>A.
         bindE (setobj K (Stack (thr A) tp) x A) (\<lambda>A.
         bindE (api_incr_top (thr A) A) (\<lambda>A. Inr (True, A))))
     | None \<Rightarrow>
         bindE (setnilvalue K (Stack (thr A) (tp - 1)) A) (\<lambda>A.
         bindE (set_top (thr A) (tp - 1) A) (\<lambda>A. Inr (False, A)))))))))"

section \<open>Metatables and environments\<close>

definition basic_mt :: "TValue \<Rightarrow> lua_api \<Rightarrow> lua_err + addr option" where
  "basic_mt v A = (if ttype v < length (mts A) then Inr (mts A ! ttype v) else Inl (UB ''mt''))"

definition metatable_of :: "TValue \<Rightarrow> lua_api \<Rightarrow> lua_err + addr option" where
  "metatable_of v A = (case v of
     VTable a \<Rightarrow> bindE (table_of v A) (\<lambda>(a, t, mt). Inr mt)
   | VUserdata a \<Rightarrow> bindE (body a A) (\<lambda>b. case b of OUdata mt e \<Rightarrow> Inr mt | _ \<Rightarrow> Inl (UB ''udata''))
   | _ \<Rightarrow> basic_mt v A)"

definition lua_getmetatable :: "rcenv \<Rightarrow> int \<Rightarrow> lua_api \<Rightarrow> lua_err + bool \<times> lua_api" where
  "lua_getmetatable K idx A =
     bindE (value_at K idx A) (\<lambda>(s, v, A).
     bindE (metatable_of v A) (\<lambda>mt. case mt of
       None \<Rightarrow> Inr (False, A)
     | Some t \<Rightarrow> bindE (luaA_pushobject K (VTable t) A) (\<lambda>A. Inr (True, A))))"

text \<open>\<open>lua_setmetatable\<close> moves the reference of the stack slot into the object.\<close>

definition replace_mt :: "addr option \<Rightarrow> TValue \<Rightarrow> lua_api \<Rightarrow> lua_err + lua_api" where
  "replace_mt mt v A = (case v of
     VTable a \<Rightarrow> bindE (table_of v A) (\<lambda>(a, t, _).
       bindE (set_body a (OTable t mt) A) (\<lambda>A.
         case mt of None \<Rightarrow> Inr A | Some m \<Rightarrow> lift_gs (luaC_barriert a (VTable m)) A))
   | VUserdata a \<Rightarrow> bindE (body a A) (\<lambda>b. case b of
       OUdata _ e \<Rightarrow> bindE (set_body a (OUdata mt e) A) (\<lambda>A.
         case mt of None \<Rightarrow> Inr A | Some m \<Rightarrow> lift_gs (luaC_barrier a (VTable m)) A)
     | _ \<Rightarrow> Inl (UB ''udata''))
   | _ \<Rightarrow> if ttype v < length (mts A) then Inr (A\<lparr>mts := (mts A)[ttype v := mt]\<rparr>) else Inl (UB ''mt''))"

text \<open>\<open>setnilvalue2n(L->top-1); L->top--\<close>: the slot is emptied without dropping its reference.\<close>

definition forget_top :: "lua_api \<Rightarrow> lua_err + lua_api" where
  "forget_top A = bindE (get_top (thr A) A) (\<lambda>tp.
     bindE (store_slot (Stack (thr A) (tp - 1)) VNil A) (set_top (thr A) (tp - 1)))"

definition lua_setmetatable :: "rcenv \<Rightarrow> int \<Rightarrow> lua_api \<Rightarrow> lua_err + lua_api" where
  "lua_setmetatable K idx A =
     bindE (checknelems 1 A) (\<lambda>tp.
     bindE (valid_at K idx A) (\<lambda>(s, v, A).
     bindE (top_value A) (\<lambda>m.
     bindE (case m of VNil \<Rightarrow> Inr None | VTable t \<Rightarrow> Inr (Some t) | _ \<Rightarrow> Inl bad_call) (\<lambda>mt.
     bindE (metatable_of v A) (\<lambda>old.
     bindE (sub_opt K old A) (\<lambda>A.
     bindE (replace_mt mt v A) forget_top))))))"

definition lua_getfenv :: "rcenv \<Rightarrow> int \<Rightarrow> lua_api \<Rightarrow> lua_err + lua_api" where
  "lua_getfenv K idx A =
     bindE (valid_at K idx A) (\<lambda>(s, v, A).
     bindE (case v of
         VFunction c \<Rightarrow> bindE (closure_env c A) table_value
       | VUserdata u \<Rightarrow> bindE (body u A) (\<lambda>b. case b of OUdata mt e \<Rightarrow> Inr (VTable e) | _ \<Rightarrow> Inl (UB ''udata''))
       | VThread th \<Rightarrow> read_slot (Gt th) A
       | _ \<Rightarrow> Inr VNil) (\<lambda>x. luaA_pushobject K x A))"

definition lua_setfenv :: "rcenv \<Rightarrow> int \<Rightarrow> lua_api \<Rightarrow> lua_err + bool \<times> lua_api" where
  "lua_setfenv K idx A =
     bindE (checknelems 1 A) (\<lambda>tp.
     bindE (valid_at K idx A) (\<lambda>(s, v, A).
     bindE (top_value A) (\<lambda>e.
     case e of
       VTable t \<Rightarrow>
         bindE (case v of
             VFunction c \<Rightarrow>
               bindE (closure_env c A) (\<lambda>old.
               bindE (sub_field K old A) (\<lambda>A. bindE (set_closure_env c (Some t) A) (\<lambda>A. Inr (True, A))))
           | VUserdata u \<Rightarrow>
               bindE (body u A) (\<lambda>b. case b of
                 OUdata mt old \<Rightarrow> bindE (sub_field K (Some old) A) (\<lambda>A. bindE (set_body u (OUdata mt t) A) (\<lambda>A. Inr (True, A)))
               | _ \<Rightarrow> Inl (UB ''udata''))
           | VThread th \<Rightarrow>
               bindE (setobj K (Gt th) e A) (\<lambda>A. bindE (do_rc K [Dec t] A) (\<lambda>A. Inr (True, A)))
           | _ \<Rightarrow> Inr (False, A)) (\<lambda>(res, A).
         bindE (case gcvalue v of
             Some x \<Rightarrow> if res then lift_gs (luaC_barrier x e) A else Inr A
           | None \<Rightarrow> Inr A) (\<lambda>A.
         bindE (forget_top A) (\<lambda>A. Inr (res, A))))
     | _ \<Rightarrow> Inl bad_call)))"

section \<open>Upvalues\<close>

text \<open>\<open>aux_upvalue\<close>: the name and the slot.\<close>

definition aux_upvalue :: "TValue \<Rightarrow> nat \<Rightarrow> lua_api \<Rightarrow> lua_err + (string \<times> aslot) option" where
  "aux_upvalue fi n A = (case fi of
     VFunction c \<Rightarrow> bindE (body c A) (\<lambda>b. case b of
       OCClosure e ups \<Rightarrow> Inr (if 1 \<le> n \<and> n \<le> length ups then Some ([], Cupvalue c (n - 1)) else None)
     | OLClosure e (Some p) ups \<Rightarrow> bindE (body p A) (\<lambda>pb. case pb of
         OProto src k names ps locs \<Rightarrow>
           if 1 \<le> n \<and> n \<le> length names then
             (if n \<le> length ups then
               (case (ups ! (n - 1), names ! (n - 1)) of
                 (Some u, Some nm) \<Rightarrow> (case st_heap (strt (gs A)) nm of
                   Some s \<Rightarrow> bindE (body u A) (\<lambda>ub. case ub of
                     OUpval (Open th i) \<Rightarrow> Inr (Some (s_val s, Stack th i))
                   | OUpval (Closed _) \<Rightarrow> Inr (Some (s_val s, Upvalue u))
                   | _ \<Rightarrow> Inl (UB ''upvalue''))
                 | None \<Rightarrow> Inl (UB ''freed string''))
               | _ \<Rightarrow> Inl (UB ''NULL''))
              else Inl (UB ''upvals''))
           else Inr None
       | _ \<Rightarrow> Inl (UB ''proto''))
     | _ \<Rightarrow> Inl (UB ''closure''))
   | _ \<Rightarrow> Inr None)"

definition lua_getupvalue :: "rcenv \<Rightarrow> int \<Rightarrow> nat \<Rightarrow> lua_api \<Rightarrow> lua_err + string option \<times> lua_api" where
  "lua_getupvalue K funcindex n A =
     bindE (value_at K funcindex A) (\<lambda>(s, fi, A).
     bindE (aux_upvalue fi n A) (\<lambda>r. case r of
       None \<Rightarrow> Inr (None, A)
     | Some (nm, u) \<Rightarrow> bindE (read_slot u A) (\<lambda>v. bindE (luaA_pushobject K v A) (\<lambda>A. Inr (Some nm, A)))))"

definition lua_setupvalue :: "rcenv \<Rightarrow> int \<Rightarrow> nat \<Rightarrow> lua_api \<Rightarrow> lua_err + string option \<times> lua_api" where
  "lua_setupvalue K funcindex n A =
     bindE (value_at K funcindex A) (\<lambda>(s, fi, A).
     bindE (checknelems 1 A) (\<lambda>tp.
     bindE (aux_upvalue fi n A) (\<lambda>r. case r of
       None \<Rightarrow> Inr (None, A)
     | Some (nm, u) \<Rightarrow>
         bindE (top_value A) (\<lambda>v.
         bindE (setobj K u v A) (\<lambda>A.
         bindE (case fi of VFunction c \<Rightarrow> lift_gs (luaC_barrier c v) A | _ \<Rightarrow> Inl (UB ''closure'')) (\<lambda>A.
         bindE (set_top (thr A) (tp - 1) A) (\<lambda>A. Inr (Some nm, A))))))))"

end
