(* ===== verification/Lua_RefProps.thy ===== *)
theory Lua_RefProps
  imports Lua_Refs
begin

text \<open>
  What the reference counter guarantees: with accurate counts, dropping a reference releases exactly the
  objects nothing refers to any more, never touches freed memory and leaves accurate counts, consistent
  lists and a valid position of the sweeper; and where it goes wrong.
\<close>

section \<open>The graph of references\<close>

definition live :: "gstate \<Rightarrow> addr set" where
  "live g = dom (objs g) \<union> dom (st_heap (strt g))"

definition refcount :: "gstate \<Rightarrow> addr \<Rightarrow> int" where
  "refcount g a = (case st_heap (strt g) a of Some s \<Rightarrow> s_ref s
     | None \<Rightarrow> (case objs g a of Some ob \<Rightarrow> o_ref ob | None \<Rightarrow> 0))"

definition mark_of :: "gstate \<Rightarrow> addr \<Rightarrow> u8" where
  "mark_of g a = (case st_heap (strt g) a of Some s \<Rightarrow> s_marked s
     | None \<Rightarrow> (case objs g a of Some ob \<Rightarrow> o_marked ob | None \<Rightarrow> 0))"

definition body_of :: "gstate \<Rightarrow> addr \<Rightarrow> obody option" where
  "body_of g a = map_option o_body (objs g a)"

text \<open>The counted references an object holds, and the number of those to \<open>a\<close> from objects outside \<open>F\<close>.\<close>

definition out :: "gstate \<Rightarrow> addr \<Rightarrow> addr list" where
  "out g b = (case body_of g b of None \<Rightarrow> [] | Some c \<Rightarrow> map the (members c))"

definition indeg :: "gstate \<Rightarrow> addr set \<Rightarrow> addr \<Rightarrow> nat" where
  "indeg g F a = (\<Sum>b \<in> dom (objs g) - F. count_list (out g b) a)"

definition is_open :: "gstate \<Rightarrow> addr \<Rightarrow> bool" where
  "is_open g a = (\<exists>th i. body_of g a = Some (OUpval (Open th i)))"

definition is_udata :: "gstate \<Rightarrow> addr \<Rightarrow> bool" where
  "is_udata g a = (\<exists>mt env. body_of g a = Some (OUdata mt env))"

definition is_fixed :: "gstate \<Rightarrow> addr \<Rightarrow> bool" where
  "is_fixed g a = (testbit (mark_of g a) FIXEDBIT \<or> testbit (mark_of g a) SFIXEDBIT)"

text \<open>
  \<open>F\<close> are the objects being released, \<open>ext\<close> the references held from outside the heap (the C stack,
  the registers of the running function, the members of a dying object still to be released).
\<close>

definition counts_ok :: "gstate \<Rightarrow> addr set \<Rightarrow> (addr \<Rightarrow> nat) \<Rightarrow> bool" where
  "counts_ok g F ext =
     ((\<forall>a \<in> live g - F. refcount g a = int (ext a + indeg g F a)) \<and>
      (\<forall>b \<in> dom (objs g) - F. set (out g b) \<subseteq> live g - F) \<and>
      (\<forall>a. 0 < ext a \<longrightarrow> a \<in> live g - F))"

text \<open>
  No member is a NULL that is not tested for, a thread has no open upvalues and a stack that covers its
  frames, no userdata has been finalized.
\<close>

definition plain :: "gstate \<Rightarrow> addr \<Rightarrow> bool" where
  "plain g b = (case body_of g b of None \<Rightarrow> True
     | Some c \<Rightarrow> None \<notin> set (members c) \<and>
         (case c of OThread gt stack tp cis us \<Rightarrow> us = [] \<and> stack_covers c
          | OUdata mt env \<Rightarrow> \<not> testbit (mark_of g b) FINALIZEDBIT | _ \<Rightarrow> True))"

lemma plain_cong: "body_of h b = body_of g b \<Longrightarrow> mark_of h b = mark_of g b \<Longrightarrow> plain h b = plain g b"
  by (simp only: plain_def)

definition base_ok :: "gstate \<Rightarrow> addr set \<Rightarrow> bool" where
  "base_ok g F = (finite (dom (objs g)) \<and> strt_ok (strt g) \<and> dom (objs g) \<inter> dom (st_heap (strt g)) = {} \<and>
     F \<subseteq> dom (objs g) \<and> (\<forall>b. b \<notin> F \<longrightarrow> plain g b) \<and> gcstate g \<noteq> GCSpropagate)"

text \<open>The root list holds every object but the open upvalues, the userdata behind the main thread; the sweeper
  points at a link of it.\<close>

definition links :: "gstate \<Rightarrow> sheap" where
  "links g a = map_option (\<lambda>ob. \<lparr>s_next = o_next ob, s_prev = o_prev ob, s_ref = 0, s_marked = 0, s_hash = 0, s_val = []\<rparr>)
     (objs g a)"

definition root_list :: "gstate \<Rightarrow> addr list \<Rightarrow> bool" where
  "root_list g xs = (dll (links g) None (rootgc g) xs \<and> distinct xs)"

definition lists_ok :: "gstate \<Rightarrow> addr set \<Rightarrow> bool" where
  "lists_ok g F = ((\<exists>ys us. root_list g (ys @ mainthread g # us) \<and> (\<forall>y \<in> set ys. \<not> is_udata g y) \<and>
       set (ys @ mainthread g # us) = {b \<in> dom (objs g) - F. \<not> is_open g b}) \<and>
     is_fixed g (mainthread g) \<and> \<not> is_udata g (mainthread g) \<and>
     (gcstate g = GCSsweep \<longrightarrow> (case sweepgc g of At_root \<Rightarrow> True | At_next b \<Rightarrow> b \<in> dom (objs g) - F \<and> \<not> is_open g b)))"

text \<open>Nothing is kept that nothing refers to.\<close>

definition tight :: "gstate \<Rightarrow> addr set \<Rightarrow> bool" where
  "tight g F = (\<forall>a \<in> live g - F. 0 < refcount g a \<or> is_fixed g a \<or> is_open g a)"

definition heap_ok :: "gstate \<Rightarrow> addr set \<Rightarrow> (addr \<Rightarrow> nat) \<Rightarrow> bool" where
  "heap_ok g F ext = (base_ok g F \<and> counts_ok g F ext \<and> lists_ok g F)"

text \<open>What a release leaves of the heap.\<close>

definition shrinks_but :: "addr set \<Rightarrow> gstate \<Rightarrow> gstate \<Rightarrow> bool" where
  "shrinks_but X g g' = (live g' \<subseteq> live g \<and> mainthread g' = mainthread g \<and> gcstate g' = gcstate g \<and>
     (\<forall>b \<in> live g'. body_of g' b = body_of g b \<and> (b \<notin> X \<longrightarrow> mark_of g' b = mark_of g b) \<and>
        map_option s_val (st_heap (strt g') b) = map_option s_val (st_heap (strt g) b)))"

abbreviation shrinks :: "gstate \<Rightarrow> gstate \<Rightarrow> bool" where
  "shrinks \<equiv> shrinks_but {}"

lemma shrinks_refl [simp]: "shrinks_but X g g"
  by (simp add: shrinks_but_def)

lemma shrinks_trans: "shrinks_but X g h \<Longrightarrow> shrinks h k \<Longrightarrow> shrinks_but X g k"
  unfolding shrinks_but_def by (simp add: subset_iff)

lemma shrinks_gone: "shrinks_but {a} g g' \<Longrightarrow> a \<notin> live g' \<Longrightarrow> shrinks g g'"
  unfolding shrinks_but_def by auto

lemma shrinks_live: "shrinks_but X g g' \<Longrightarrow> live g' \<subseteq> live g"
  by (simp add: shrinks_but_def)

lemma indeg_0:
  assumes "finite (dom (objs g))" "indeg g F a = 0" "b \<in> dom (objs g) - F"
  shows "a \<notin> set (out g b)"
proof -
  have "count_list (out g b) a = 0" using assms by (simp add: indeg_def)
  then show ?thesis by (simp add: count_list_0_iff)
qed

lemma indeg_insert:
  assumes "finite (dom (objs g))" "b \<in> dom (objs g) - F"
  shows "indeg g F a = count_list (out g b) a + indeg g (insert b F) a"
proof -
  have "dom (objs g) - F = insert b (dom (objs g) - insert b F)" using assms(2) by blast
  then show ?thesis using assms(1) by (simp add: indeg_def)
qed

text \<open>States that differ only in links and the list heads.\<close>

definition ocore :: "GCObject \<Rightarrow> int \<times> u8 \<times> obody" where
  "ocore ob = (o_ref ob, o_marked ob, o_body ob)"

definition relink :: "gstate \<Rightarrow> gstate \<Rightarrow> bool" where
  "relink g g' = ((\<forall>b. map_option ocore (objs g' b) = map_option ocore (objs g b)) \<and> strt g' = strt g \<and>
     gcstate g' = gcstate g \<and> mainthread g' = mainthread g)"

lemma relink_refl [simp]: "relink g g"
  by (simp add: relink_def)

lemma relink_trans: "relink g h \<Longrightarrow> relink h k \<Longrightarrow> relink g k"
  by (simp add: relink_def)

lemma relink_eqs:
  assumes "relink g g'"
  shows "dom (objs g') = dom (objs g)" "live g' = live g" "refcount g' a = refcount g a" "mark_of g' a = mark_of g a"
    "body_of g' a = body_of g a" "out g' a = out g a" "is_open g' a = is_open g a" "is_udata g' a = is_udata g a"
    "is_fixed g' a = is_fixed g a" "plain g' a = plain g a" "indeg g' F a = indeg g F a"
proof -
  have c: "map_option ocore (objs g' b) = map_option ocore (objs g b)" for b using assms by (simp add: relink_def)
  show d: "dom (objs g') = dom (objs g)" using c by (auto simp: dom_def) (metis map_option_is_None option.exhaust)+
  have s: "strt g' = strt g" using assms by (simp add: relink_def)
  show "live g' = live g" by (simp add: live_def d s)
  show b: "body_of g' a = body_of g a" for a using c [of a] by (cases "objs g a"; cases "objs g' a") (auto simp: body_of_def ocore_def)
  show m: "mark_of g' a = mark_of g a" for a using c [of a] by (cases "objs g a"; cases "objs g' a") (auto simp: mark_of_def ocore_def s split: option.split)
  show "refcount g' a = refcount g a" using c [of a] by (cases "objs g a"; cases "objs g' a") (auto simp: refcount_def ocore_def s split: option.split)
  show o: "out g' a = out g a" for a by (simp add: out_def b)
  show "is_open g' a = is_open g a" "is_udata g' a = is_udata g a" "is_fixed g' a = is_fixed g a" "indeg g' F a = indeg g F a"
    by (simp_all add: is_open_def is_udata_def is_fixed_def indeg_def b m o d)
  show "plain g' a = plain g a" unfolding plain_def b m ..
qed

lemma relink_shrinks: "relink g g' \<Longrightarrow> shrinks g g'"
  by (simp add: shrinks_but_def relink_eqs) (simp add: relink_def)

lemma relink_counts: "relink g g' \<Longrightarrow> counts_ok g' F ext = counts_ok g F ext"
  by (simp add: counts_ok_def relink_eqs)

lemma relink_tight: "relink g g' \<Longrightarrow> tight g' F = tight g F"
  by (simp add: tight_def relink_eqs)

lemma relink_base: "relink g g' \<Longrightarrow> base_ok g' F = base_ok g F"
  by (simp add: base_ok_def relink_eqs) (simp add: relink_def)

section \<open>Unlinking\<close>

lemma upd_obj_ok: "objs g a = Some ob \<Longrightarrow> upd_obj a f g = Inr (put_obj a (f ob) g)"
  by (simp add: upd_obj_def get_obj_def)

lemma links_put: "links (put_obj a ob g) = (links g)(a \<mapsto> \<lparr>s_next = o_next ob, s_prev = o_prev ob, s_ref = 0, s_marked = 0, s_hash = 0, s_val = []\<rparr>)"
  by (simp add: fun_eq_iff links_def put_obj_def)

lemma relink_put: "objs g a = Some ob \<Longrightarrow> ocore ob' = ocore ob \<Longrightarrow> relink g (put_obj a ob' g)"
  by (simp add: relink_def put_obj_def)

text \<open>The two writes of an unlinking, on the links.\<close>

lemma unlink_root_ok:
  assumes d: "dll (links g) None (rootgc g) (as @ a # bs)" "distinct (as @ a # bs)" and a: "objs g a = Some ob"
  obtains g' where "unlink_root a g = Inr g'" "relink g g'" "root_list g' (as @ bs)" "objs g' a = Some ob" "sweepgc g' = sweepgc g"
    "o_prev ob = (if as = [] then None else Some (List.last as))"
proof -
  define s where "s = the (links g a)"
  have s: "links g a = Some s" "s_next s = o_next ob" "s_prev s = o_prev ob" using a by (simp_all add: s_def links_def)
  have pv: "o_prev ob = (if as = [] then None else Some (List.last as))" using dll_prev [OF d(1) s(1)] s(3) by simp
  have nx: "o_next ob = (if bs = [] then None else Some (hd bs))" using dll_next [OF d(1) s(1)] s(2) by simp
  have in_dom: "\<exists>x. objs g b = Some x" if "b \<in> set (as @ bs)" for b
    using dll_dom [OF d(1)] that by (auto simp: links_def dom_def)
  have na: "o_next ob \<noteq> Some a" "o_prev ob \<noteq> Some a"
  proof -
    show "o_next ob \<noteq> Some a" using d(2) nx by (cases bs) auto
    show "o_prev ob \<noteq> Some a" using d(2) pv by (cases as rule: rev_cases) auto
  qed
  obtain g1 where g1: "upd_opt (o_next ob) (\<lambda>n. n\<lparr>o_prev := o_prev ob\<rparr>) g = Inr g1" "relink g g1"
    "links g1 = set_prev (links g) (o_next ob) (o_prev ob)" "objs g1 a = Some ob" "rootgc g1 = rootgc g" "sweepgc g1 = sweepgc g"
  proof (cases "o_next ob")
    case None
    then show thesis using that [of g] a by (simp add: upd_opt_def set_prev_def)
  next
    case (Some n)
    then have "n \<in> set (as @ bs)" using nx by (auto split: if_splits)
    then obtain nob where n: "objs g n = Some nob" using in_dom by blast
    have "n \<noteq> a" using na Some by auto
    show thesis
      by (rule that [of "put_obj n (nob\<lparr>o_prev := o_prev ob\<rparr>) g"])
        (use Some n a \<open>n \<noteq> a\<close> in \<open>simp_all add: upd_opt_def upd_obj_ok links_put set_prev_def relink_put ocore_def, simp_all add: links_def put_obj_def\<close>)
  qed
  obtain g2 where g2: "unlink_root a g = Inr g2" "relink g1 g2" "objs g2 a = Some ob" "sweepgc g2 = sweepgc g"
    "rootgc g2 = (if as = [] then o_next ob else rootgc g)"
    "links g2 = (case o_prev ob of Some q \<Rightarrow> set_next (links g1) q (o_next ob) | None \<Rightarrow> links g1)"
  proof (cases "o_prev ob")
    case None
    then have "as = []" using pv by (auto split: if_splits)
    then show thesis
      using that [of "g1\<lparr>rootgc := o_next ob\<rparr>"] None a g1
      by (simp add: unlink_root_def get_obj_def relink_def links_def fun_eq_iff)
  next
    case (Some p)
    then have p: "p \<in> set (as @ bs)" "as \<noteq> []" using pv by (auto split: if_splits)
    then obtain pob where "objs g p = Some pob" using in_dom by blast
    then obtain pob' where n: "objs g1 p = Some pob'" using relink_eqs(1) [OF g1(2)] by blast
    have lp: "links g1 p = Some \<lparr>s_next = o_next pob', s_prev = o_prev pob', s_ref = 0, s_marked = 0, s_hash = 0, s_val = []\<rparr>"
      using n by (simp add: links_def)
    have "p \<noteq> a" using na Some by auto
    show thesis
      by (rule that [of "put_obj p (pob'\<lparr>o_next := o_next ob\<rparr>) g1"])
        (use Some n a p \<open>p \<noteq> a\<close> g1(1,2,4-6) in \<open>simp_all add: unlink_root_def get_obj_def upd_obj_ok relink_put links_put ocore_def set_next_def lp,
          simp_all add: put_obj_def\<close>)
  qed
  have ul: "links g2 x = unlink (links g) s a x" if "x \<noteq> a" for x
    using that na s by (cases "links g x") (auto simp: g2(6) g1(3) unlink_def Let_def set_prev_def set_next_def split: option.split)
  have "dll (links g2) None (rootgc g2) (as @ bs) = dll (unlink (links g) s a) None (rootgc g2) (as @ bs)"
    by (rule dll_cong, rule ul) (use d(2) in auto)
  moreover have "rootgc g2 = (if as = [] then s_next s else rootgc g)" using g2(5) s(2) by simp
  ultimately have "root_list g2 (as @ bs)"
    using unlink_ok [OF d s(1)] d(2) by (simp add: root_list_def)
  then show thesis using that g2 relink_trans [OF g1(2) g2(2)] pv by blast
qed

lemma unlink_udata_root: "objs g a = Some ob \<Longrightarrow> o_prev ob \<noteq> None \<Longrightarrow> unlink_udata a g = unlink_root a g"
  by (auto simp: unlink_udata_def unlink_root_def get_obj_def)

text \<open>The steps that take an object out of the lists and leave it to its members.\<close>

definition refs_to :: "addr list \<Rightarrow> addr \<Rightarrow> nat" where
  "refs_to as x = count_list as x"

lemma detach_counts:
  assumes "counts_ok g F ext" "finite (dom (objs g))" "a \<in> dom (objs g) - F" "refcount g a = 0"
  shows "counts_ok g (insert a F) (\<lambda>x. ext x + refs_to (out g a) x)" "ext a = 0" "indeg g F a = 0"
proof -
  note c = assms(1) [unfolded counts_ok_def]
  have "a \<in> live g - F" using assms(3) by (auto simp: live_def)
  then have z: "ext a = 0 \<and> indeg g F a = 0" using c assms(4) by auto
  then show "ext a = 0" "indeg g F a = 0" by auto
  have na: "a \<notin> set (out g b)" if "b \<in> dom (objs g) - F" for b using indeg_0 [OF assms(2) _ that] z by blast
  have t: "set (out g b) \<subseteq> live g - insert a F" if "b \<in> dom (objs g) - F" for b using c na [OF that] that by auto
  show "counts_ok g (insert a F) (\<lambda>x. ext x + refs_to (out g a) x)"
    unfolding counts_ok_def
  proof (intro conjI ballI allI impI)
    fix x assume "x \<in> live g - insert a F"
    then show "refcount g x = int (ext x + refs_to (out g a) x + indeg g (insert a F) x)"
      using c indeg_insert [OF assms(2,3), of x] by (auto simp: refs_to_def)
  next
    fix b assume "b \<in> dom (objs g) - insert a F"
    then show "set (out g b) \<subseteq> live g - insert a F" using t by blast
  next
    fix x assume "0 < ext x + refs_to (out g a) x"
    then have "0 < ext x \<or> x \<in> set (out g a)" using count_list_0_iff [of "out g a" x] by (auto simp: refs_to_def)
    then show "x \<in> live g - insert a F" using c t [OF assms(3)] z by auto
  qed
qed

lemma free_obj_eqs:
  "dom (objs (free_obj a g)) = dom (objs g) - {a}" "strt (free_obj a g) = strt g" "gcstate (free_obj a g) = gcstate g"
  "mainthread (free_obj a g) = mainthread g" "sweepgc (free_obj a g) = sweepgc g" "rootgc (free_obj a g) = rootgc g"
  "b \<noteq> a \<Longrightarrow> objs (free_obj a g) b = objs g b"
  by (auto simp: free_obj_def)

lemma free_obj_other:
  assumes "b \<noteq> a"
  shows "refcount (free_obj a g) b = refcount g b" "mark_of (free_obj a g) b = mark_of g b"
    "body_of (free_obj a g) b = body_of g b" "out (free_obj a g) b = out g b" "is_open (free_obj a g) b = is_open g b"
    "is_udata (free_obj a g) b = is_udata g b" "is_fixed (free_obj a g) b = is_fixed g b" "plain (free_obj a g) b = plain g b"
    "links (free_obj a g) b = links g b"
proof -
  show 1: "refcount (free_obj a g) b = refcount g b" "mark_of (free_obj a g) b = mark_of g b"
    "body_of (free_obj a g) b = body_of g b" "links (free_obj a g) b = links g b"
    using assms by (simp_all add: refcount_def mark_of_def body_of_def links_def free_obj_def split: option.split)
  then show "out (free_obj a g) b = out g b" "is_open (free_obj a g) b = is_open g b"
    "is_udata (free_obj a g) b = is_udata g b" "is_fixed (free_obj a g) b = is_fixed g b"
    by (simp_all add: out_def is_open_def is_udata_def is_fixed_def)
  show "plain (free_obj a g) b = plain g b" unfolding plain_def 1 ..
qed

text \<open>When the members are done the object goes.\<close>

lemma free_done:
  assumes ok: "heap_ok g (insert a F) ext" and t: "tight g (insert a F)" and a: "a \<notin> F"
  shows "heap_ok (free_obj a g) F ext" "tight (free_obj a g) F" "shrinks g (free_obj a g)"
proof -
  let ?g = "free_obj a g"
  have b: "base_ok g (insert a F)" and c: "counts_ok g (insert a F) ext" and l: "lists_ok g (insert a F)"
    using ok by (auto simp: heap_ok_def)
  have da: "a \<in> dom (objs g)" "a \<notin> dom (st_heap (strt g))" using b by (auto simp: base_ok_def)
  have lv: "live ?g = live g - {a}" using da by (auto simp: live_def free_obj_eqs)
  have d: "dom (objs ?g) - F = dom (objs g) - insert a F" "live ?g - F = live g - insert a F" by (auto simp: free_obj_eqs lv)
  have i: "indeg ?g F x = indeg g (insert a F) x" for x
    unfolding indeg_def d by (rule sum.cong) (auto simp: free_obj_other)
  have "counts_ok ?g F ext"
    using c unfolding counts_ok_def d i by (auto simp: free_obj_other)
  moreover have "plain ?g x" if "x \<notin> F" for x
    using b that free_obj_other(8) [of x a g] by (cases "x = a") (auto simp: base_ok_def plain_def body_of_def free_obj_def)
  then have "base_ok ?g F"
    using b a unfolding base_ok_def by (auto simp: free_obj_eqs)
  moreover
  have "lists_ok ?g F"
  proof -
    obtain ys us where x: "root_list g (ys @ mainthread g # us)" "\<forall>y \<in> set ys. \<not> is_udata g y"
       "set (ys @ mainthread g # us) = {b \<in> dom (objs g) - insert a F. \<not> is_open g b}" using l by (auto simp: lists_ok_def)
    have na: "a \<notin> set (ys @ mainthread g # us)" using x(3) by blast
    have "dll (links ?g) None (rootgc ?g) (ys @ mainthread g # us) = dll (links g) None (rootgc g) (ys @ mainthread g # us)"
      unfolding free_obj_eqs by (rule dll_cong) (use na free_obj_other(9) in metis)
    then have r: "root_list ?g (ys @ mainthread g # us)" using x(1) by (simp add: root_list_def)
    have e: "{b \<in> dom (objs ?g) - F. \<not> is_open ?g b} = {b \<in> dom (objs g) - insert a F. \<not> is_open g b}"
      unfolding d by (auto simp: free_obj_other)
    have u: "\<not> is_udata ?g y" if "y \<in> set ys" for y
    proof -
      have "y \<noteq> a" using na that by auto
      then show ?thesis using x(2) that free_obj_other(6) [of y a g] by simp
    qed
    have m: "mainthread g \<noteq> a" using na by auto
    have sw: "case sweepgc ?g of At_root \<Rightarrow> True | At_next b \<Rightarrow> b \<in> dom (objs ?g) - F \<and> \<not> is_open ?g b" if "gcstate g = GCSsweep"
      using l that unfolding lists_ok_def d free_obj_eqs by (auto simp: free_obj_other split: link.splits)
    show ?thesis
      unfolding lists_ok_def e
    proof (intro conjI impI)
      show "\<exists>ys us. root_list ?g (ys @ mainthread ?g # us) \<and> (\<forall>y\<in>set ys. \<not> is_udata ?g y) \<and>
        set (ys @ mainthread ?g # us) = {b \<in> dom (objs g) - insert a F. \<not> is_open g b}"
        unfolding free_obj_eqs(4) using r x(3) u by blast
      show "is_fixed ?g (mainthread ?g)" "\<not> is_udata ?g (mainthread ?g)"
        using l m by (simp_all add: lists_ok_def free_obj_eqs free_obj_other)
      assume "gcstate ?g = GCSsweep"
      then show "case sweepgc ?g of At_root \<Rightarrow> True | At_next b \<Rightarrow> b \<in> dom (objs ?g) - F \<and> \<not> is_open ?g b"
        using sw by (simp add: free_obj_eqs(3))
    qed
  qed
  ultimately show "heap_ok ?g F ext" by (simp add: heap_ok_def)
  show "tight ?g F" using t unfolding tight_def d by (auto simp: free_obj_other)
  show "shrinks g ?g" unfolding shrinks_but_def lv by (auto simp: free_obj_eqs free_obj_other)
qed

lemma lists_okE:
  assumes "lists_ok g F"
  obtains ys us where "root_list g (ys @ mainthread g # us)" "\<And>y. y \<in> set ys \<Longrightarrow> \<not> is_udata g y"
    "set (ys @ mainthread g # us) = {b \<in> dom (objs g) - F. \<not> is_open g b}"
proof -
  from assms obtain ys us where "root_list g (ys @ mainthread g # us)" "\<forall>y \<in> set ys. \<not> is_udata g y"
    "set (ys @ mainthread g # us) = {b \<in> dom (objs g) - F. \<not> is_open g b}" unfolding lists_ok_def by (elim conjE exE)
  then show thesis by (intro that) auto
qed

text \<open>Taking an element other than \<open>m\<close> out of a list that has it.\<close>

lemma remove_around:
  assumes "xs @ a # zs = ys @ m # us" "a \<noteq> m" "distinct (ys @ m # us)"
  obtains ys' us' where "xs @ zs = ys' @ m # us'" "set ys' \<subseteq> set ys" "a \<in> set us \<Longrightarrow> xs \<noteq> []"
proof -
  consider us1 where "xs = ys @ m # us1" "us = us1 @ a # zs" | ys2 where "ys = xs @ a # ys2" "zs = ys2 @ m # us"
    using assms by (auto simp: append_eq_append_conv2 Cons_eq_append_conv append_eq_Cons_conv)
  then show thesis
  proof cases
    case (1 us1)
    then show thesis using that [of ys "us1 @ zs"] by simp
  next
    case (2 ys2)
    then have s: "xs @ zs = (xs @ ys2) @ m # us" "set (xs @ ys2) \<subseteq> set ys" by auto
    have "a \<notin> set us" using 2 assms(3) by auto
    then show thesis using that [OF s] by blast
  qed
qed

lemma unlink_gray_none: "gcstate g \<noteq> GCSpropagate \<Longrightarrow> objs g a = Some ob \<Longrightarrow> unlink_gray pop a g = Inr g"
  by (simp add: unlink_gray_def get_obj_def)

lemma links_sweep: "links (g\<lparr>sweepgc := s\<rparr>) = links g"
  by (simp add: links_def fun_eq_iff)

lemma detach_lists:
  assumes l: "lists_ok g F" and a: "objs g a = Some ob" "a \<notin> F" "\<not> is_open g a" "\<not> is_fixed g a"
  obtains g1 g2 where "unlink_root a g = Inr g1" "adjust_sweep a g1 = Inr g2" "relink g g1" "relink g g2"
    "objs g1 a = Some ob" "objs g2 a = Some ob" "lists_ok g2 (insert a F)" "is_udata g a \<longrightarrow> o_prev ob \<noteq> None"
proof -
  obtain ys us where x: "root_list g (ys @ mainthread g # us)" "\<And>y. y \<in> set ys \<Longrightarrow> \<not> is_udata g y"
    "set (ys @ mainthread g # us) = {b \<in> dom (objs g) - F. \<not> is_open g b}" using lists_okE [OF l] by blast
  have am: "a \<noteq> mainthread g" using l a(4) by (auto simp: lists_ok_def)
  have "a \<in> set (ys @ mainthread g # us)" unfolding x(3) using a by auto
  then obtain xs zs where s: "ys @ mainthread g # us = xs @ a # zs" by (metis split_list)
  have di: "distinct (xs @ a # zs)" using x(1) unfolding s by (simp add: root_list_def)
  have dl: "dll (links g) None (rootgc g) (xs @ a # zs)" using x(1) unfolding s by (simp add: root_list_def)
  obtain g1 where 1: "unlink_root a g = Inr g1" "relink g g1" "root_list g1 (xs @ zs)" "objs g1 a = Some ob" "sweepgc g1 = sweepgc g"
    "o_prev ob = (if xs = [] then None else Some (List.last xs))" using unlink_root_ok [OF dl di a(1)] by blast
  define g2 where "g2 = (if gcstate g1 = GCSsweep \<and> sweepgc g1 = At_next a
    then g1\<lparr>sweepgc := (case o_prev ob of Some p \<Rightarrow> At_next p | None \<Rightarrow> At_root)\<rparr> else g1)"
  have 2: "adjust_sweep a g1 = Inr g2" "relink g1 g2" "root_list g2 (xs @ zs)" "objs g2 a = Some ob"
    using 1 by (simp_all add: adjust_sweep_def g2_def get_obj_def relink_def root_list_def links_sweep)
  note r = relink_trans [OF 1(2) 2(2)]
  obtain ys' us' where y: "xs @ zs = ys' @ mainthread g # us'" "set ys' \<subseteq> set ys" "a \<in> set us \<Longrightarrow> xs \<noteq> []"
    using remove_around [OF s [symmetric] am] di s by metis
  have e: "set (xs @ zs) = {b \<in> dom (objs g) - insert a F. \<not> is_open g b}"
    using x(3) di unfolding s by auto
  have m: "mainthread g2 = mainthread g" "gcstate g2 = gcstate g" using r by (simp_all add: relink_def)
  have sw: "case sweepgc g2 of At_root \<Rightarrow> True | At_next b \<Rightarrow> b \<in> set (xs @ zs)" if gs: "gcstate g = GCSsweep"
  proof (cases "sweepgc g = At_next a")
    case True
    have "gcstate g1 = GCSsweep" using 1(2) gs by (simp add: relink_def)
    then show ?thesis using True 1(5,6) by (auto simp: g2_def)
  next
    case False
    then show ?thesis
      using l gs 1(5) a(2) unfolding lists_ok_def e by (auto simp: g2_def split: link.splits)
  qed
  have "lists_ok g2 (insert a F)"
    unfolding lists_ok_def relink_eqs [OF r] m
  proof (intro conjI impI)
    show "\<exists>ys us. root_list g2 (ys @ mainthread g # us) \<and> (\<forall>y\<in>set ys. \<not> is_udata g y) \<and>
      set (ys @ mainthread g # us) = {b \<in> dom (objs g) - insert a F. \<not> is_open g b}"
      using 2(3) e y(2) x(2) unfolding y(1) by blast
    show "case sweepgc g2 of At_root \<Rightarrow> True | At_next b \<Rightarrow> b \<in> dom (objs g) - insert a F \<and> \<not> is_open g b" if "gcstate g = GCSsweep"
      using sw [OF that] unfolding e by (auto split: link.splits)
  qed (use l in \<open>simp_all add: lists_ok_def\<close>)
  moreover have "o_prev ob \<noteq> None" if u: "is_udata g a"
  proof -
    have "a \<notin> set ys" using x(2) u by blast
    then have "a \<in> set us" using s am by (metis Un_iff in_set_conv_decomp set_ConsD set_append)
    then show ?thesis using 1(6) y(3) by simp
  qed
  ultimately show thesis using that 1 2 r by blast
qed

section \<open>Counting up and down\<close>

text \<open>\<open>g'\<close> is \<open>g\<close> with \<open>d\<close> more references counted at \<open>a\<close>.\<close>

definition recounted :: "int \<Rightarrow> addr \<Rightarrow> gstate \<Rightarrow> gstate \<Rightarrow> bool" where
  "recounted d a g g' = (dom (objs g') = dom (objs g) \<and> dom (st_heap (strt g')) = dom (st_heap (strt g)) \<and>
     (\<forall>b. body_of g' b = body_of g b \<and> mark_of g' b = mark_of g b \<and> links g' b = links g b \<and>
        map_option s_val (st_heap (strt g') b) = map_option s_val (st_heap (strt g) b) \<and>
        refcount g' b = refcount g b + (if b = a then d else 0)) \<and>
     (strt_ok (strt g) \<longrightarrow> strt_ok (strt g')) \<and> rootgc g' = rootgc g \<and> gcstate g' = gcstate g \<and> sweepgc g' = sweepgc g \<and>
     mainthread g' = mainthread g)"

lemma add_ref_ok:
  assumes "a \<in> live g"
  obtains g' where "add_ref d a g = Inr (refcount g a + d, g')" "recounted d a g g'"
proof (cases "st_heap (strt g) a")
  case (Some s)
  have "strt_ok (strt g) \<longrightarrow> strt_ok (strt (put_str a (s\<lparr>s_ref := s_ref s + d\<rparr>) g))"
    using strt_ok_upd(1) [of "strt g" a s "s\<lparr>s_ref := s_ref s + d\<rparr>"] Some by (simp add: put_str_def same_string_def)
  then show thesis
    using Some by (intro that [of "put_str a (s\<lparr>s_ref := s_ref s + d\<rparr>) g"])
      (auto simp: add_ref_def refcount_def recounted_def put_str_def body_of_def mark_of_def links_def split: option.split)
next
  case None
  then obtain ob where ob: "objs g a = Some ob" using assms by (auto simp: live_def)
  then show thesis
    using None by (intro that [of "put_obj a (ob\<lparr>o_ref := o_ref ob + d\<rparr>) g"])
      (auto simp: add_ref_def get_obj_def refcount_def recounted_def put_obj_def body_of_def mark_of_def links_def split: option.split)
qed

lemma recounted_eqs:
  assumes "recounted d a g g'"
  shows "dom (objs g') = dom (objs g)" "live g' = live g" "mark_of g' b = mark_of g b" "body_of g' b = body_of g b"
    "out g' b = out g b" "is_open g' b = is_open g b" "is_udata g' b = is_udata g b" "is_fixed g' b = is_fixed g b"
    "plain g' b = plain g b" "indeg g' F b = indeg g F b" "refcount g' b = refcount g b + (if b = a then d else 0)"
    "links g' = links g" "rootgc g' = rootgc g" "gcstate g' = gcstate g" "sweepgc g' = sweepgc g" "mainthread g' = mainthread g"
    "root_list g' xs = root_list g xs"
proof -
  note r = assms [unfolded recounted_def]
  show d: "dom (objs g') = dom (objs g)" using r by blast
  show "live g' = live g" using r by (simp add: live_def)
  show m: "mark_of g' b = mark_of g b" and b: "body_of g' b = body_of g b" for b using r by simp_all
  show o: "out g' b = out g b" for b by (simp add: out_def b)
  show "is_open g' b = is_open g b" "is_udata g' b = is_udata g b" "is_fixed g' b = is_fixed g b" "indeg g' F b = indeg g F b"
    by (simp_all add: is_open_def is_udata_def is_fixed_def indeg_def b m o d)
  show "plain g' b = plain g b" unfolding plain_def b m ..
  show l: "links g' = links g" using r by (simp add: fun_eq_iff)
  show "refcount g' b = refcount g b + (if b = a then d else 0)" using r by simp
  show "rootgc g' = rootgc g" "gcstate g' = gcstate g" "sweepgc g' = sweepgc g" "mainthread g' = mainthread g"
    using r by simp_all
  then show "root_list g' xs = root_list g xs" by (simp add: root_list_def l)
qed

lemma recounted_shrinks: "recounted d a g g' \<Longrightarrow> shrinks g g'"
  by (simp add: shrinks_but_def recounted_eqs) (simp add: recounted_def)

lemma recounted_lists:
  assumes "recounted d a g g'"
  shows "lists_ok g' F = lists_ok g F"
  unfolding lists_ok_def recounted_eqs [OF assms] ..

lemma recounted_base: "recounted d a g g' \<Longrightarrow> base_ok g F \<Longrightarrow> base_ok g' F"
  by (simp add: base_ok_def recounted_eqs) (simp add: recounted_def)

definition bump :: "addr \<Rightarrow> (addr \<Rightarrow> nat) \<Rightarrow> addr \<Rightarrow> nat" where
  "bump a ext = ext(a := ext a + 1)"

lemma count_down:
  assumes "recounted (- 1) a g g'" "heap_ok g F (bump a ext)"
  shows "heap_ok g' F ext"
  using assms(2) unfolding heap_ok_def recounted_lists [OF assms(1)]
  by (auto simp: recounted_base [OF assms(1)] counts_ok_def recounted_eqs [OF assms(1)] bump_def split: if_splits)

lemma count_up:
  assumes "recounted 1 a g g'" "heap_ok g F ext" "a \<in> live g - F"
  shows "heap_ok g' F (bump a ext)"
  using assms(2,3) unfolding heap_ok_def recounted_lists [OF assms(1)]
  by (auto simp: recounted_base [OF assms(1)] counts_ok_def recounted_eqs [OF assms(1)] bump_def split: if_splits)

section \<open>Release\<close>

text \<open>What a release function has to do for an object whose count is down to nothing.\<close>

definition releases :: "nat \<Rightarrow> (addr \<Rightarrow> gstate \<Rightarrow> lua_err + gstate) \<Rightarrow> bool" where
  "releases n rel = (\<forall>g F ext a. heap_ok g F ext \<longrightarrow> tight g (insert a F) \<longrightarrow> a \<in> live g - F \<longrightarrow> refcount g a = 0 \<longrightarrow>
     card (live g - F) \<le> n \<longrightarrow> returns (\<lambda>g'. heap_ok g' F ext \<and> tight g' F \<and> shrinks g g') (rel a g))"

lemma drop_ok:
  assumes "releases n rel" "heap_ok g F (bump a ext)" "tight g F" "card (live g - F) \<le> n"
  shows "returns (\<lambda>g'. heap_ok g' F ext \<and> tight g' F \<and> shrinks g g') (luarc_subobjref rel a g)"
proof -
  have c: "\<forall>a. 0 < bump a' ext a \<longrightarrow> a \<in> live g - F" if "a' = a" for a'
    using assms(2) that by (auto simp: heap_ok_def counts_ok_def)
  then have a: "a \<in> live g - F" by (auto simp: bump_def)
  obtain g' where g': "add_ref (- 1) a g = Inr (refcount g a + - 1, g')" "recounted (- 1) a g g'"
    using add_ref_ok [of a g "- 1"] a by auto
  have ok: "heap_ok g' F ext" by (rule count_down [OF g'(2) assms(2)])
  have sh: "shrinks g g'" by (rule recounted_shrinks [OF g'(2)])
  have r: "refcount g' a = refcount g a - 1" using recounted_eqs(11) [OF g'(2), of a] by simp
  have lv: "live g' = live g" by (rule recounted_eqs(2) [OF g'(2)])
  have "0 \<le> refcount g' a" using ok a unfolding heap_ok_def counts_ok_def lv by auto
  show ?thesis
  proof (cases "refcount g' a = 0")
    case True
    have "tight g' (insert a F)" using assms(3) unfolding tight_def by (auto simp: recounted_eqs [OF g'(2)])
    then have "returns (\<lambda>k. heap_ok k F ext \<and> tight k F \<and> shrinks g' k) (rel a g')"
      using assms(1) [unfolded releases_def, rule_format, OF ok _ _ True] a assms(4) by (simp add: lv)
    then show ?thesis using True r by (auto simp: luarc_subobjref_def g'(1) elim!: returns_mono intro: shrinks_trans [OF sh])
  next
    case False
    have "tight g' F" using assms(3) False \<open>0 \<le> refcount g' a\<close> unfolding tight_def by (auto simp: recounted_eqs [OF g'(2)] split: if_splits)
    then show ?thesis using False \<open>0 \<le> refcount g' a\<close> r ok sh by (simp add: luarc_subobjref_def g'(1))
  qed
qed

lemma heap_ok_finite: "heap_ok g F ext \<Longrightarrow> finite (live g)"
  by (auto simp: heap_ok_def base_ok_def live_def strt_ok_def)

lemma sub_members_ok:
  assumes "releases n rel" "heap_ok g F (\<lambda>x. ext x + refs_to as x)" "tight g F" "card (live g - F) \<le> n"
  shows "returns (\<lambda>g'. heap_ok g' F ext \<and> tight g' F \<and> shrinks g g') (sub_members rel (map Some as) g)"
  using assms(2-)
proof (induction as arbitrary: g)
  case Nil
  then show ?case by (simp add: refs_to_def)
next
  case (Cons a as)
  have "(\<lambda>x. ext x + refs_to (a # as) x) = bump a (\<lambda>x. ext x + refs_to as x)"
    by (auto simp: bump_def refs_to_def fun_eq_iff)
  from drop_ok [OF assms(1) Cons.prems(1) [unfolded this] Cons.prems(2,3)]
  show ?case
    unfolding list.map sub_members.simps
  proof (rule returns_bind)
    fix h assume h: "heap_ok h F (\<lambda>x. ext x + refs_to as x) \<and> tight h F \<and> shrinks g h"
    have "card (live h - F) \<le> card (live g - F)"
      by (rule card_mono) (use heap_ok_finite [OF Cons.prems(1)] shrinks_live h in \<open>blast+\<close>)
    then show "returns (\<lambda>g'. heap_ok g' F ext \<and> tight g' F \<and> shrinks g g') (sub_members rel (map Some as) h)"
      using h Cons.prems(3) by (auto intro!: returns_mono [OF Cons.IH] intro: shrinks_trans)
  qed
qed

lemma members_out:
  assumes "plain g a" "objs g a = Some ob"
  shows "members (o_body ob) = map Some (out g a)"
proof -
  have "None \<notin> set (members (o_body ob))" using assms by (simp add: plain_def body_of_def)
  then have "map (Some \<circ> the) (members (o_body ob)) = members (o_body ob)"
    by (intro map_idI) (metis comp_apply option.collapse)
  then show ?thesis using assms(2) by (simp add: out_def body_of_def)
qed

text \<open>An object that is in the lists no more: its members are released and it is freed.\<close>

lemma finish_ok:
  assumes rel: "releases n rel" and g: "base_ok g (insert a F)" "counts_ok g (insert a F) (\<lambda>x. ext x + refs_to (out g a) x)"
    "lists_ok g (insert a F)" "tight g (insert a F)" and n: "card (live g - F) \<le> Suc n" and a: "a \<in> live g" "a \<notin> F"
    and fin: "\<And>h. heap_ok h (insert a F) ext \<Longrightarrow> body_of h a = body_of g a \<Longrightarrow> fr h = Inr (free_obj a h)"
  shows "returns (\<lambda>g'. heap_ok g' F ext \<and> tight g' F \<and> shrinks g g' \<and> a \<notin> live g') (bindE (sub_members rel (map Some (out g a)) g) fr)"
proof (rule returns_bind)
  have ok: "heap_ok g (insert a F) (\<lambda>x. ext x + refs_to (out g a) x)" using g by (simp add: heap_ok_def)
  have "live g - insert a F \<subset> live g - F" using a by blast
  then have "card (live g - insert a F) < card (live g - F)"
    using heap_ok_finite [OF ok] by (meson finite_Diff psubset_card_mono)
  then show "returns (\<lambda>h. heap_ok h (insert a F) ext \<and> tight h (insert a F) \<and> shrinks g h)
    (sub_members rel (map Some (out g a)) g)"
    using n by (intro sub_members_ok [OF rel ok g(4)]) simp
  fix h assume h: "heap_ok h (insert a F) ext \<and> tight h (insert a F) \<and> shrinks g h"
  then have d: "a \<in> live h" "a \<notin> dom (st_heap (strt h))" by (auto simp: heap_ok_def base_ok_def live_def)
  then have "fr h = Inr (free_obj a h)" using fin h by (simp add: shrinks_but_def)
  moreover have "a \<notin> live (free_obj a h)" using d(2) by (simp add: live_def free_obj_eqs)
  ultimately show "returns (\<lambda>g'. heap_ok g' F ext \<and> tight g' F \<and> shrinks g g' \<and> a \<notin> live g') (fr h)"
    using h free_done [of h a F ext] a(2) shrinks_trans [of "{}" g h] by simp
qed

text \<open>A string.\<close>

lemma free_string_ok:
  assumes ok: "heap_ok g F ext" and t: "tight g (insert a F)" and a: "st_heap (strt g) a = Some s" "a \<notin> F" "refcount g a = 0"
  shows "returns (\<lambda>g'. heap_ok g' F ext \<and> tight g' F \<and> shrinks g g')
    (bindE (luarc_freestring m a (strt g)) (\<lambda>S. Inr (g\<lparr>strt := S\<rparr>)))"
proof -
  have b: "base_ok g F" and c: "counts_ok g F ext" and l: "lists_ok g F" using ok by (auto simp: heap_ok_def)
  obtain S' where S': "luarc_freestring m a (strt g) = Inr S'" "strt_ok S'"
    "\<And>x. map_option core (st_heap S' x) = (if x = a then None else map_option core (st_heap (strt g) x))"
    using freestring_ok [OF _ a(1), of m] b unfolding base_ok_def by metis
  define h where "h = g\<lparr>strt := S'\<rparr>"
  have dom: "dom (st_heap S') = dom (st_heap (strt g)) - {a}"
    using S'(3) by (auto simp: dom_def) (metis map_option_is_None option.exhaust option.simps(3))+
  have na: "a \<notin> dom (objs g)" using b a(1) by (auto simp: base_ok_def)
  have lv: "live h = live g - {a}" using na by (auto simp: live_def h_def dom)
  have e: "dom (objs h) = dom (objs g)" "body_of h x = body_of g x" "out h x = out g x" "is_open h x = is_open g x"
    "is_udata h x = is_udata g x" "indeg h F x = indeg g F x" "links h = links g" "rootgc h = rootgc g" "gcstate h = gcstate g"
    "sweepgc h = sweepgc g" "mainthread h = mainthread g" for x F
    by (simp_all add: h_def body_of_def out_def is_open_def is_udata_def indeg_def links_def fun_eq_iff)
  have n: "refcount h x = refcount g x \<and> mark_of h x = mark_of g x \<and>
      map_option s_val (st_heap S' x) = map_option s_val (st_heap (strt g) x)" if "x \<noteq> a" for x
    using S'(3) [of x] that by (cases "st_heap S' x"; cases "st_heap (strt g) x") (auto simp: refcount_def mark_of_def h_def core_def)
  have pl: "plain h x = plain g x" for x
  proof (cases "x = a")
    case True
    then have "objs g x = None" using na by auto
    then have "body_of g x = None" by (simp add: body_of_def)
    then show ?thesis unfolding plain_def e(2) by simp
  next
    case False
    show ?thesis by (rule plain_cong) (use n [OF False] e(2) in simp_all)
  qed
  have "base_ok h F" using b S'(2) unfolding base_ok_def e pl by (auto simp: h_def dom)
  moreover have "counts_ok h F ext"
  proof -
    have d: "a \<in> live g - F" using a by (auto simp: live_def)
    then have z: "ext a = 0" "indeg g F a = 0" using c a(3) by (auto simp: counts_ok_def)
    have "a \<notin> set (out g y)" if "y \<in> dom (objs g) - F" for y
      using indeg_0 [OF _ z(2) that] b by (auto simp: base_ok_def)
    then show ?thesis using c n z(1) unfolding counts_ok_def e lv by (auto simp: subset_iff)
  qed
  moreover have "lists_ok h F"
  proof -
    have "mainthread g \<noteq> a" using l na lists_okE [OF l] by (metis (no_types, lifting) DiffD1 in_set_conv_decomp mem_Collect_eq)
    then have "is_fixed h (mainthread g) = is_fixed g (mainthread g)" using n by (simp add: is_fixed_def)
    then show ?thesis using l unfolding lists_ok_def e root_list_def by simp
  qed
  moreover have "tight h F" using t n unfolding tight_def lv e by (auto simp: is_fixed_def)
  moreover have "shrinks g h" using n unfolding shrinks_but_def lv e by (auto simp: h_def)
  ultimately show ?thesis using S'(1) by (simp add: heap_ok_def h_def)
qed

text \<open>The steps of the release of an object of the root list.\<close>

lemma detached_ok:
  assumes rel: "releases n rel" and ok: "base_ok g (insert a F)" "counts_ok g F ext" "lists_ok g F" and t: "tight g (insert a F)"
    and a: "objs g a = Some ob" "a \<notin> F" "refcount g a = 0" "\<not> is_open g a" "\<not> is_fixed g a" and n: "card (live g - F) \<le> Suc n"
    and m: "None \<notin> set (members (o_body ob))"
  obtains g1 g2 where "unlink_root a g = Inr g1" "\<forall>pop. unlink_gray pop a g1 = Inr g1" "adjust_sweep a g1 = Inr g2" "relink g g1" "relink g g2"
    "objs g1 a = Some ob" "objs g2 a = Some ob" "is_udata g a \<longrightarrow> o_prev ob \<noteq> None"
    "\<forall>fr. (\<forall>h. heap_ok h (insert a F) ext \<longrightarrow> body_of h a = Some (o_body ob) \<longrightarrow> fr h = Inr (free_obj a h)) \<longrightarrow>
       returns (\<lambda>g'. heap_ok g' F ext \<and> tight g' F \<and> shrinks g g' \<and> a \<notin> live g') (bindE (sub_members rel (members (o_body ob)) g2) fr)"
proof -
  obtain g1 g2 where g: "unlink_root a g = Inr g1" "adjust_sweep a g1 = Inr g2" "relink g g1" "relink g g2"
    "objs g1 a = Some ob" "objs g2 a = Some ob" "lists_ok g2 (insert a F)" "is_udata g a \<longrightarrow> o_prev ob \<noteq> None"
    using detach_lists [OF ok(3) a(1,2,4,5)] by blast
  have gray: "unlink_gray pop a g1 = Inr g1" for pop
    by (rule unlink_gray_none [OF _ g(5)]) (use g(3) ok(1) in \<open>simp add: relink_def base_ok_def\<close>)
  have "map (Some \<circ> the) (members (o_body ob)) = members (o_body ob)"
    using m by (intro map_idI) (metis comp_apply option.collapse)
  then have mo: "members (o_body ob) = map Some (out g2 a)" using g(6) by (simp add: out_def body_of_def)
  have fin: "finite (dom (objs g))" using ok(1) by (simp add: base_ok_def)
  have da: "a \<in> dom (objs g) - F" "a \<in> live g" using a(1,2) by (auto simp: live_def)
  note e = relink_eqs [OF g(4)]
  have "returns (\<lambda>g'. heap_ok g' F ext \<and> tight g' F \<and> shrinks g g' \<and> a \<notin> live g') (bindE (sub_members rel (members (o_body ob)) g2) fr)"
    if fr: "\<And>h. heap_ok h (insert a F) ext \<Longrightarrow> body_of h a = Some (o_body ob) \<Longrightarrow> fr h = Inr (free_obj a h)" for fr
    unfolding mo
  proof (rule returns_mono [OF finish_ok [OF rel]])
    show "base_ok g2 (insert a F)" using ok(1) relink_base [OF g(4)] by simp
    show "counts_ok g2 (insert a F) (\<lambda>x. ext x + refs_to (out g2 a) x)"
      using detach_counts(1) [OF ok(2) fin da(1) a(3)] relink_counts [OF g(4)] by (simp add: e)
    show "tight g2 (insert a F)" using t relink_tight [OF g(4)] by simp
    show "fr h = Inr (free_obj a h)" if "heap_ok h (insert a F) ext" "body_of h a = body_of g2 a" for h
      using fr [OF that(1)] that(2) g(6) by (simp add: body_of_def)
  qed (use g(7) n da a(2) shrinks_trans [OF relink_shrinks [OF g(4)]] in \<open>auto simp: e\<close>)
  then show thesis using that g gray by blast
qed

lemma marked_eqs:
  fixes m :: u8
  assumes "objs g a = Some ob"
  defines "h \<equiv> put_obj a (ob\<lparr>o_marked := m\<rparr>) g"
  shows "strt h = strt g" "dom (objs h) = dom (objs g)" "live h = live g" "body_of h b = body_of g b" "refcount h b = refcount g b"
    "b \<noteq> a \<Longrightarrow> mark_of h b = mark_of g b" "objs h a = Some (ob\<lparr>o_marked := m\<rparr>)"
    "out h b = out g b" "is_open h b = is_open g b" "is_udata h b = is_udata g b" "indeg h F b = indeg g F b"
    "links h = links g" "rootgc h = rootgc g" "gcstate h = gcstate g" "sweepgc h = sweepgc g" "mainthread h = mainthread g"
proof -
  show s: "strt h = strt g" and d: "dom (objs h) = dom (objs g)" using assms by (auto simp: put_obj_def)
  show "live h = live g" by (simp add: live_def s d)
  show b: "body_of h b = body_of g b" for b using assms by (simp add: put_obj_def body_of_def)
  show "refcount h b = refcount g b" using assms by (simp add: put_obj_def refcount_def split: option.split)
  show "mark_of h b = mark_of g b" if "b \<noteq> a" using assms that by (simp add: put_obj_def mark_of_def split: option.split)
  show "objs h a = Some (ob\<lparr>o_marked := m\<rparr>)" by (simp add: h_def put_obj_def)
  show o: "out h b = out g b" for b by (simp add: out_def b)
  show "is_open h b = is_open g b" "is_udata h b = is_udata g b" "indeg h F b = indeg g F b"
    by (simp_all add: is_open_def is_udata_def indeg_def b o d)
  show "links h = links g" using assms by (auto simp: put_obj_def links_def fun_eq_iff)
  show "rootgc h = rootgc g" "gcstate h = gcstate g" "sweepgc h = sweepgc g" "mainthread h = mainthread g"
    by (simp_all add: h_def put_obj_def)
qed

lemma free_object_ok:
  assumes E: "\<And>g mt. \<not> has_gc E g mt" and rel: "releases n rel"
    and ok: "heap_ok g F ext" and t: "tight g (insert a F)" and a: "objs g a = Some ob" "a \<notin> F" "refcount g a = 0" "\<not> is_fixed g a"
    and n: "card (live g - F) \<le> Suc n"
  shows "returns (\<lambda>g'. heap_ok g' F ext \<and> tight g' F \<and> shrinks g g') (luaC_freeobj E rel a g)"
proof -
  let ?P = "\<lambda>g'. heap_ok g' F ext \<and> tight g' F \<and> shrinks g g'"
  have b: "base_ok g F" and c: "counts_ok g F ext" and l: "lists_ok g F" using ok by (auto simp: heap_ok_def)
  have b': "base_ok g (insert a F)" using b a(1) by (auto simp: base_ok_def)
  have s: "st_heap (strt g) a = None" using b a(1) by (auto simp: base_ok_def)
  have pl: "plain g a" using b a(2) by (auto simp: base_ok_def)
  then have m: "None \<notin> set (members (o_body ob))" using a(1) by (simp add: plain_def body_of_def)
  have body: "body_of g a = Some (o_body ob)" using a(1) by (simp add: body_of_def)
  show ?thesis
  proof (cases "is_open g a")
    case True
    then obtain th i where o: "o_body ob = OUpval (Open th i)" using body by (auto simp: is_open_def)
    have "tight g F" using t True by (auto simp: tight_def)
    then show ?thesis using ok s a(1) o by (simp add: luaC_freeobj_def get_obj_def luarc_freeupval_def)
  next
    case op: False
    show ?thesis
    proof (cases "is_udata g a")
      case False
      obtain g1 g2 where g: "unlink_root a g = Inr g1" "\<forall>pop. unlink_gray pop a g1 = Inr g1" "adjust_sweep a g1 = Inr g2"
        "relink g g1" "relink g g2" "objs g1 a = Some ob" "objs g2 a = Some ob" "is_udata g a \<longrightarrow> o_prev ob \<noteq> None"
        "\<forall>fr. (\<forall>h. heap_ok h (insert a F) ext \<longrightarrow> body_of h a = Some (o_body ob) \<longrightarrow> fr h = Inr (free_obj a h)) \<longrightarrow>
          returns (\<lambda>g'. heap_ok g' F ext \<and> tight g' F \<and> shrinks g g' \<and> a \<notin> live g') (bindE (sub_members rel (members (o_body ob)) g2) fr)"
        by (rule detached_ok [OF rel b' c l t a(1-3) op a(4) n m])
      have fr: "returns ?P (bindE (sub_members rel (members (o_body ob)) g2) fr)"
        if "\<And>h. body_of h a = Some (o_body ob) \<Longrightarrow> fr h = Inr (free_obj a h)" for fr
        by (rule returns_mono [OF g(9) [rule_format]]) (use that in auto)
      show ?thesis
      proof (cases "o_body ob")
        case (OUdata mt env)
        then show ?thesis using False body by (simp add: is_udata_def)
      next
        case (OUpval uv)
        then obtain v where uv: "uv = Closed v" using op body by (cases uv) (auto simp: is_open_def)
        have "luaF_freeupval a h = Inr (free_obj a h)" if "body_of h a = Some (o_body ob)" for h
          using that OUpval uv by (auto simp: luaF_freeupval_def get_obj_def body_of_def)
        then show ?thesis using s a(1) g(1-3,6,7) fr [of "luaF_freeupval a"] OUpval uv
          by (simp add: luaC_freeobj_def get_obj_def luarc_freeupval_def)
      next
        case (OThread gt stack tp cis us)
        have us: "us = []" "stack_covers (o_body ob)" using pl body OThread by (auto simp: plain_def)
        have "luaE_freethread a h = Inr (free_obj a h)" if "body_of h a = Some (o_body ob)" for h
          using that OThread us by (auto simp: luaE_freethread_def luaF_close_def thread_open_def get_obj_def body_of_def)
        then show ?thesis using s a(1) g(1-3,6,7) fr [of "luaE_freethread a"] OThread us
          by (simp add: luaC_freeobj_def get_obj_def luarc_freethread_def)
      qed (use s a(1) g(1-3,6,7) fr [of "\<lambda>g. Inr (free_obj a g)"] in
        \<open>simp_all add: luaC_freeobj_def get_obj_def luarc_freeproto_def luarc_freeclosure_def luarc_freetable_def\<close>)
    next
      case True
      then obtain mt env where u: "o_body ob = OUdata mt env" using body by (auto simp: is_udata_def)
      define ob' where "ob' = ob\<lparr>o_marked := o_marked ob OR 8\<rparr>"
      define g' where "g' = put_obj a ob' g"
      note q = marked_eqs [OF a(1), where m = "o_marked ob OR 8", folded ob'_def g'_def]
      have nf: "\<not> testbit (o_marked ob) FINALIZEDBIT" using pl a(1) u s by (simp add: plain_def body_of_def mark_of_def)
      have fx: "\<not> is_fixed g' a"
        using a(4) a(1) s q(1,7) by (simp add: is_fixed_def mark_of_def testbit_def FIXEDBIT_def SFIXEDBIT_def ob'_def bit_or_iff)
      have pb: "base_ok g' (insert a F)" using b' q plain_cong [of g' _ g] unfolding base_ok_def by auto
      have ma: "mainthread g \<noteq> a" using l a(4) by (auto simp: lists_ok_def)
      have pc: "counts_ok g' F ext" using c unfolding counts_ok_def q .
      have plst: "lists_ok g' F" using l q(6) [OF ma] unfolding lists_ok_def root_list_def is_fixed_def q by simp
      have pt: "tight g' (insert a F)" using t q(6) unfolding tight_def is_fixed_def q by auto
      have sh: "shrinks_but {a} g g'" using q(6) unfolding shrinks_but_def q by auto
      obtain g1 g2 where g: "unlink_root a g' = Inr g1" "\<forall>pop. unlink_gray pop a g1 = Inr g1" "adjust_sweep a g1 = Inr g2"
        "relink g' g1" "relink g' g2" "objs g1 a = Some ob'" "objs g2 a = Some ob'" "is_udata g' a \<longrightarrow> o_prev ob' \<noteq> None"
        "\<forall>fr. (\<forall>h. heap_ok h (insert a F) ext \<longrightarrow> body_of h a = Some (o_body ob') \<longrightarrow> fr h = Inr (free_obj a h)) \<longrightarrow>
          returns (\<lambda>k. heap_ok k F ext \<and> tight k F \<and> shrinks g' k \<and> a \<notin> live k) (bindE (sub_members rel (members (o_body ob')) g2) fr)"
      proof (rule detached_ok [OF rel pb pc plst pt _ a(2) _ _ fx, where ob = ob'])
        show "objs g' a = Some ob'" using q(7) by (simp add: ob'_def)
        show "refcount g' a = 0" "\<not> is_open g' a" "card (live g' - F) \<le> Suc n" "None \<notin> set (members (o_body ob'))"
          using a(3) op n m by (simp_all add: q ob'_def)
      qed
      have pv: "o_prev ob' \<noteq> None" using g(8) True by (simp add: q)
      have "returns (\<lambda>k. heap_ok k F ext \<and> tight k F \<and> shrinks g' k \<and> a \<notin> live k)
        (bindE (sub_members rel (members (o_body ob')) g2) (\<lambda>g. Inr (free_obj a g)))"
        by (rule g(9) [rule_format]) simp
      then have "returns ?P (bindE (sub_members rel (members (o_body ob')) g2) (\<lambda>g. Inr (free_obj a g)))"
        by (rule returns_mono) (blast intro: shrinks_gone shrinks_trans [OF sh])
      moreover have "luaC_freeobj E rel a g = bindE (sub_members rel (members (o_body ob')) g2) (\<lambda>g. Inr (free_obj a g))"
      proof -
        have "set_mark a (\<lambda>m. m OR 8) g = Inr g'" using s a(1) by (simp add: set_mark_def upd_obj_ok g'_def ob'_def)
        moreover have "unlink_udata a g' = Inr g1" using unlink_udata_root [OF q(7)] pv g(1) by (simp add: ob'_def)
        ultimately show ?thesis
          using s a(1) u nf g(1-3,6,7) E by (simp add: luaC_freeobj_def get_obj_def luarc_freeudata_def udata_metatable_def ob'_def)
      qed
      ultimately show ?thesis by simp
    qed
  qed
qed

lemma releaseobj_ok:
  assumes E: "\<And>g mt. \<not> has_gc E g mt"
  shows "releases n (luarc_releaseobj n E)"
proof (induction n)
  case 0
  have "live g - F = {}" if "heap_ok g F ext" "card (live g - F) \<le> 0" for g F ext
    using heap_ok_finite [OF that(1)] that(2) by simp
  then show ?case unfolding releases_def by blast
next
  case (Suc n)
  show ?case
    unfolding releases_def
  proof (intro allI impI)
    fix g F ext a
    assume ok: "heap_ok g F ext" and t: "tight g (insert a F)" and a: "a \<in> live g - F" "refcount g a = 0" and n: "card (live g - F) \<le> Suc n"
    have m: "get_marked a g = Inr (mark_of g a)"
      using a(1) by (auto simp: live_def get_marked_def mark_of_def get_obj_def split: option.split)
    have s: "objs g a = None" if "st_heap (strt g) a = Some s" for s
      using ok that by (auto simp: heap_ok_def base_ok_def)
    show "returns (\<lambda>g'. heap_ok g' F ext \<and> tight g' F \<and> shrinks g g') (luarc_releaseobj (Suc n) E a g)"
    proof (cases "is_fixed g a")
      case True
      then have "tight g F" using t by (auto simp: tight_def)
      then show ?thesis using True ok m by (auto simp: is_fixed_def)
    next
      case False
      have "returns (\<lambda>g'. heap_ok g' F ext \<and> tight g' F \<and> shrinks g g') (luaC_freeobj E (luarc_releaseobj n E) a g)"
      proof (cases "st_heap (strt g) a")
        case None
        then obtain ob where "objs g a = Some ob" using a(1) by (auto simp: live_def)
        then show ?thesis using free_object_ok [OF E Suc.IH ok t _ _ a(2) False n] a(1) by blast
      next
        case (Some s)
        then show ?thesis using free_string_ok [OF ok t Some _ a(2)] a(1) by (simp add: luaC_freeobj_def)
      qed
      then show ?thesis using False m by (simp add: is_fixed_def)
    qed
  qed
qed

text \<open>A heap outside any release: accurate counts, and nothing kept that nothing refers to.\<close>

definition heap_inv :: "gstate \<Rightarrow> (addr \<Rightarrow> nat) \<Rightarrow> bool" where
  "heap_inv g ext = (heap_ok g {} ext \<and> tight g {})"

lemma drop_ref_inv:
  assumes "\<And>g mt. \<not> has_gc E g mt" "heap_inv g (bump a ext)" "card (live g) \<le> n"
  shows "returns (\<lambda>g'. heap_inv g' ext \<and> shrinks g g') (drop_ref n E a g)"
  using drop_ok [OF releaseobj_ok [OF assms(1)], of g "{}" a ext n] assms(2,3) by (simp add: heap_inv_def drop_ref_def)

lemma add_ref_inv:
  assumes "heap_inv g ext" "a \<in> live g"
  shows "returns (\<lambda>g'. heap_inv g' (bump a ext) \<and> shrinks g g' \<and> live g' = live g) (luarc_addobjref a g)"
proof -
  obtain g' where g': "add_ref 1 a g = Inr (refcount g a + 1, g')" "recounted 1 a g g'" using add_ref_ok [OF assms(2)] by blast
  note e = recounted_eqs [OF g'(2)]
  have ok: "heap_ok g {} ext" using assms(1) by (simp add: heap_inv_def)
  have "0 \<le> refcount g b" if "b \<in> live g" for b
    using ok that by (auto simp: heap_ok_def counts_ok_def)
  then have "tight g' {}" using assms(1) by (auto simp: heap_inv_def tight_def e)
  moreover have "heap_ok g' {} (bump a ext)" by (rule count_up [OF g'(2) ok]) (use assms(2) in simp)
  ultimately show ?thesis using recounted_shrinks [OF g'(2)] g'(1) e(2) by (simp add: luarc_addobjref_def heap_inv_def)
qed

text \<open>
  C30. Release by reference counting. In a heap whose counts are accurate (every object is counted once for
  each reference from another object and each from outside), in which nothing is kept that nothing
  refers to, and which is plain (no thread has an open upvalue, no userdata has been finalized and no metatable
  has a finalizer, no object has a NULL where a release follows a pointer, the collector is not in its mark phase), dropping a reference held from outside returns:
  no freed object is touched, no NULL followed, and the nesting of releases is at most the number of live
  objects. Afterwards all this holds without that reference: the counts are accurate, nothing is kept that nothing
  refers to, the root list, the string table and the position of the sweeper are consistent; and every
  object that is left has the members it had. The gray lists are not touched outside the mark phase.
  Without the condition on open upvalues the claim is false, as the coroutine of the last section shows.
\<close>

theorem release_exact:
  assumes "\<forall>g mt. \<not> has_gc E g mt" "heap_inv g (ext(a := ext a + 1))" "card (live g) \<le> n"
  shows "\<exists>g'. drop_ref n E a g = Inr g' \<and> heap_inv g' ext \<and> live g' \<subseteq> live g \<and>
    (\<forall>b \<in> live g'. body_of g' b = body_of g b \<and> map_option s_val (st_heap (strt g') b) = map_option s_val (st_heap (strt g) b))"
  using drop_ref_inv [of E g a ext n] assms by (auto simp: bump_def returns_def shrinks_but_def)

definition slot_ref :: "TValue \<Rightarrow> addr \<Rightarrow> nat" where
  "slot_ref v a = (if gcvalue v = Some a then 1 else 0)"

lemma run_rc_append: "run_rc n E (xs @ ys) k = bindE (run_rc n E xs k) (run_rc n E ys)"
proof (induction xs arbitrary: k)
  case (Cons r xs)
  then have e: "run_rc n E (xs @ ys) = (\<lambda>k. bindE (run_rc n E xs k) (run_rc n E ys))" by blast
  show ?case by (cases r) (simp_all add: bindE_assoc e)
qed simp


section \<open>A small heap\<close>

definition no_gc :: renv where
  "no_gc = \<lparr>has_gc = (\<lambda>g mt. False), call_gc = (\<lambda>a g. Inr g), mem = (\<lambda>_. True)\<rparr>"

definition bare_table :: Table where
  "bare_table = \<lparr>arr = [], sizearray = 0, node = [dummynode], is_dummy = True, lsizenode = 0, lastfree = 0, flags = 255, resizecount = 0\<rparr>"

definition an_object :: "addr option \<Rightarrow> addr option \<Rightarrow> int \<Rightarrow> u8 \<Rightarrow> obody \<Rightarrow> GCObject" where
  "an_object n p r m b = \<lparr>o_next = n, o_prev = p, o_ref = r, o_marked = m, o_gcnext = None, o_gcprev = None, o_body = b\<rparr>"

text \<open>The main thread 1 with the globals 3, and a C function 2 with an upvalue, the table 4.\<close>

definition small_heap :: gstate where
  "small_heap = \<lparr>objs = [
       2 \<mapsto> an_object (Some 4) None 1 1 (OCClosure (Some 3) [VTable 4]),
       4 \<mapsto> an_object (Some 3) (Some 2) 1 1 (OTable bare_table None),
       3 \<mapsto> an_object (Some 1) (Some 4) 2 1 (OTable bare_table None),
       1 \<mapsto> an_object None (Some 3) 0 33 (OThread (VTable 3) [VNil] 0 [] [])],
     strt = empty_strtab, rootgc = Some 2, gray = None, grayagain = None, weak = None, tmudata = None,
     gcstate = GCSpause, sweepgc = At_root, mainthread = 1, uvhead = []\<rparr>"

lemma small_heap_objs: "dom (objs small_heap) = {1, 2, 3, 4}" "st_heap (strt small_heap) = (\<lambda>_. None)"
  by (auto simp: small_heap_def empty_strtab_def)

lemma small_heap_out: "out small_heap 1 = [3]" "out small_heap 2 = [3, 4]" "out small_heap 3 = []" "out small_heap 4 = []"
  by (simp_all add: out_def body_of_def small_heap_def an_object_def values_of_def tested_def stack_lim_def bare_table_def
    node_members_def dummynode_def)

lemma small_heap_inv: "heap_inv small_heap (\<lambda>a. if a = 2 then 1 else 0)"
proof -
  note o = small_heap_objs small_heap_out
  have lv: "live small_heap = {1, 2, 3, 4}" by (simp add: live_def o)
  have i: "indeg small_heap {} a = (if a = 3 then 2 else if a = 4 then 1 else 0)" for a
    by (simp add: indeg_def o)
  have r: "refcount small_heap 1 = 0" "refcount small_heap 2 = 1" "refcount small_heap 3 = 2" "refcount small_heap 4 = 1"
    by (simp_all add: refcount_def small_heap_def an_object_def empty_strtab_def)
  have f: "is_fixed small_heap 1"
    by (simp add: is_fixed_def mark_of_def small_heap_def an_object_def empty_strtab_def testbit_def FIXEDBIT_def)
  have b: "body_of small_heap a = (if a = 1 then Some (OThread (VTable 3) [VNil] 0 [] []) else if a = 2 then Some (OCClosure (Some 3) [VTable 4])
      else if a = 3 \<or> a = 4 then Some (OTable bare_table None) else None)" for a
    by (auto simp: body_of_def small_heap_def an_object_def)
  have p: "plain small_heap a" for a
    by (auto simp: plain_def b values_of_def tested_def stack_lim_def bare_table_def node_members_def dummynode_def stack_covers_def)
  have "base_ok small_heap {}"
    using p empty_strtab_ok by (simp add: base_ok_def o) (simp add: small_heap_def gcstate_defs)
  moreover have "counts_ok small_heap {} (\<lambda>a. if a = 2 then 1 else 0)"
    by (simp add: counts_ok_def o lv i r)
  moreover have "lists_ok small_heap {}"
  proof -
    have m: "mainthread small_heap = 1" "gcstate small_heap = GCSpause" by (simp_all add: small_heap_def)
    have "root_list small_heap ([2, 4, 3] @ 1 # [])"
      by (simp add: root_list_def links_def small_heap_def an_object_def)
    moreover have "{x \<in> {1, 2, 3, 4} - {}. \<not> is_open small_heap x} = {1, 2, 3, 4}" by (auto simp: is_open_def b)
    ultimately show ?thesis
      unfolding lists_ok_def o(1) m using f
      by (intro conjI exI [of _ "[2, 4, 3]"] exI [of _ "[]"]) (auto simp: is_udata_def b gcstate_defs)
  qed
  moreover have "tight small_heap {}" using f by (simp add: tight_def lv r)
  ultimately show ?thesis by (simp add: heap_inv_def heap_ok_def)
qed

theorem release_exact_witness:
  "\<exists>g'. drop_ref 4 no_gc 2 small_heap = Inr g' \<and> heap_inv g' (\<lambda>a. 0) \<and> live g' \<subseteq> {1, 2, 3, 4}"
proof -
  have lv: "live small_heap = {1, 2, 3, 4}" by (simp add: live_def small_heap_objs)
  have "(\<lambda>a. 0)(2 := 0 + 1) = (\<lambda>a :: addr. if a = 2 then 1 else 0 :: nat)" by (simp add: fun_eq_iff)
  then have "heap_inv small_heap ((\<lambda>a. 0)(2 := 0 + 1))" using small_heap_inv by simp
  then show ?thesis
    using release_exact [of no_gc small_heap "\<lambda>a. 0" 2 4] by (auto simp: no_gc_def lv)
qed


section \<open>A coroutine that dies before its closure\<close>

text \<open>
  A coroutine 5 is suspended with a local table 4, captured by a function 7 that outlives it: the
  function's upvalue 6 is open and points at the coroutine's stack.  No count is wrong.
\<close>

definition captured :: gstate where
  "captured = \<lparr>objs = [
       7 \<mapsto> an_object (Some 5) None 1 1 (OLClosure (Some 3) (Some 8) [Some 6]),
       5 \<mapsto> an_object (Some 4) (Some 7) 1 1 (OThread (VTable 3) [VTable 4, VNil] 1 [1] [6]),
       4 \<mapsto> an_object (Some 8) (Some 5) 1 1 (OTable bare_table None),
       8 \<mapsto> an_object (Some 3) (Some 4) 1 1 (OProto None [] [] [] []),
       3 \<mapsto> an_object (Some 1) (Some 8) 3 1 (OTable bare_table None),
       1 \<mapsto> an_object None (Some 3) 0 33 (OThread (VTable 3) [VNil] 0 [] []),
       6 \<mapsto> an_object None None 1 1 (OUpval (Open 5 0))],
     strt = empty_strtab, rootgc = Some 7, gray = None, grayagain = None, weak = None, tmudata = None,
     gcstate = GCSpause, sweepgc = At_root, mainthread = 1, uvhead = [6]\<rparr>"

text \<open>
  C32. \<open>luarc_freethread\<close> drops the references of the stack before \<open>luaE_freethread\<close> closes the open upvalues: dropping
  the last reference to the coroutine frees the table 4, and closing the upvalue then copies the freed
  table into it and counts it, although the function that owns the upvalue is alive.
\<close>

theorem thread_release_uses_freed:
  "counts_ok captured {} (\<lambda>a. if a = 5 \<or> a = 7 then 1 else 0) \<and>
   drop_ref (Suc (Suc n)) no_gc 5 captured = Inl (UB ''freed object'')"
proof
  have weak: "m = m' \<Longrightarrow> bindE m f = bindE m' f" for m m' :: "lua_err + 'a" and f :: "'a \<Rightarrow> lua_err + 'b" by simp
  have st: "st_heap (strt captured) = (\<lambda>_. None)" by (simp add: captured_def empty_strtab_def)
  have dm: "dom (objs captured) = {1, 3, 4, 5, 6, 7, 8}" by (auto simp: captured_def)
  have ot: "out captured 1 = [3]" "out captured 3 = []" "out captured 4 = []" "out captured 5 = [3, 4]" "out captured 6 = []"
    "out captured 7 = [3, 8, 6]" "out captured 8 = []"
    by (simp_all add: out_def body_of_def captured_def an_object_def values_of_def tested_def stack_lim_def bare_table_def
      node_members_def dummynode_def)
  have i: "indeg captured {} a = (if a = 3 then 3 else if a \<in> {4, 6, 8} then 1 else 0)" for a
    by (simp add: indeg_def dm ot)
  have r: "refcount captured a = (if a \<in> {4, 5, 6, 7, 8} then 1 else if a = 3 then 3 else 0)" for a
    by (auto simp: refcount_def captured_def an_object_def empty_strtab_def)
  show "counts_ok captured {} (\<lambda>a. if a = 5 \<or> a = 7 then 1 else 0)"
    by (simp add: counts_ok_def live_def dm st ot i r)
  show "drop_ref (Suc (Suc n)) no_gc 5 captured = Inl (UB ''freed object'')"
    by (simp add: drop_ref_def luarc_subobjref_def add_ref_def captured_def empty_strtab_def get_obj_def put_obj_def an_object_def
      get_marked_def testbit_def FIXEDBIT_def SFIXEDBIT_def luaC_freeobj_def luarc_freethread_def unlink_root_def upd_opt_def upd_obj_def
      unlink_gray_def gcstate_defs adjust_sweep_def stack_covers_def stack_lim_def values_of_def tested_def luarc_freetable_def
      bare_table_def node_members_def dummynode_def free_obj_def luaE_freethread_def luaF_close_def thread_open_def open_level_def
      set_open_def isdead_mark_def otherwhite_def WHITEBITS_def close_upval_def upval_value_def unlinkupval_def luarc_addobjref_def
      cong: weak)
qed

end
