(* ===== verification/Lua_ApiProps.thy ===== *)
theory Lua_ApiProps
  imports Lua_Api Lua_RefProps
begin

text \<open>
  The functions of the C interface keep every reference count exact, keep the slots above the top of the
  stack nil, and do to the stack of the running function what they promise; and where they do not.
\<close>

section \<open>Changing the body of an object\<close>

lemma put_body_eqs:
  fixes c :: obody
  assumes "objs g a = Some ob"
  defines "h \<equiv> put_obj a (ob\<lparr>o_body := c\<rparr>) g"
  shows "strt h = strt g" "dom (objs h) = dom (objs g)" "live h = live g" "body_of h b = (if b = a then Some c else body_of g b)"
    "refcount h b = refcount g b" "mark_of h b = mark_of g b" "is_fixed h b = is_fixed g b"
    "out h b = (if b = a then map the (members c) else out g b)"
    "links h = links g" "rootgc h = rootgc g" "gcstate h = gcstate g" "sweepgc h = sweepgc g" "mainthread h = mainthread g"
proof -
  show s: "strt h = strt g" and d: "dom (objs h) = dom (objs g)" using assms by (auto simp: put_obj_def)
  show "live h = live g" by (simp add: live_def s d)
  show b: "body_of h b = (if b = a then Some c else body_of g b)" for b by (simp add: h_def put_obj_def body_of_def)
  show "refcount h b = refcount g b" using assms by (simp add: put_obj_def refcount_def split: option.split)
  show m: "mark_of h b = mark_of g b" for b using assms by (simp add: put_obj_def mark_of_def split: option.split)
  show "out h b = (if b = a then map the (members c) else out g b)" by (simp add: out_def b)
  show "is_fixed h b = is_fixed g b" by (simp add: is_fixed_def m)
  show "links h = links g" using assms by (auto simp: put_obj_def links_def fun_eq_iff)
  show "rootgc h = rootgc g" "gcstate h = gcstate g" "sweepgc h = sweepgc g" "mainthread h = mainthread g"
    by (simp_all add: h_def put_obj_def)
qed

text \<open>References may move between the members of an object and the outside.\<close>

lemma put_body_inv:
  assumes inv: "heap_inv g ext" and a: "objs g a = Some ob" and h: "h = put_obj a (ob\<lparr>o_body := c\<rparr>) g"
    and kind: "plain h a" "is_open h a = is_open g a" "is_udata h a = is_udata g a"
    and cnt: "\<And>x. ext' x + count_list (map the (members c)) x = ext x + count_list (out g a) x"
  shows "heap_inv h ext'"
proof -
  note e = put_body_eqs [OF a, of c, folded h]
  have ok: "base_ok g {}" "counts_ok g {} ext" "lists_ok g {}" "tight g {}" using inv by (simp_all add: heap_inv_def heap_ok_def)
  have fin: "finite (dom (objs g))" using ok(1) by (simp add: base_ok_def)
  have da: "a \<in> dom (objs g) - {}" using a by auto
  have ind: "indeg h {} x + count_list (out g a) x = indeg g {} x + count_list (map the (members c)) x" for x
  proof -
    have "indeg h {a} x = indeg g {a} x" unfolding indeg_def e(2) by (rule sum.cong) (auto simp: e(8))
    then show ?thesis
      using indeg_insert [OF fin da, of x] indeg_insert [of h a "{}" x] fin da by (simp add: e(2,8))
  qed
  have kinds: "is_open h b = is_open g b" "is_udata h b = is_udata g b" for b
  proof -
    have "is_open h b = is_open g b \<and> is_udata h b = is_udata g b" if "b \<noteq> a" using that by (simp add: is_open_def is_udata_def e(4))
    then show "is_open h b = is_open g b" "is_udata h b = is_udata g b" using kind(2,3) by blast+
  qed
  have pl: "plain h b" for b
  proof (cases "b = a")
    case False
    then have "body_of h b = body_of g b" "mark_of h b = mark_of g b" by (simp_all add: e(4,6))
    then have "plain h b = plain g b" by (rule plain_cong)
    then show ?thesis using ok(1) by (simp add: base_ok_def)
  qed (use kind(1) in simp)
  have lv: "x \<in> live g" if "0 < ext x + count_list (out g a) x" for x
  proof (cases "0 < ext x")
    case False
    then have "x \<in> set (out g a)" using that by (metis add_0 count_list_0_iff gr0I less_irrefl)
    then show ?thesis using ok(2) da by (auto simp: counts_ok_def)
  qed (use ok(2) in \<open>auto simp: counts_ok_def\<close>)
  have "base_ok h {}" using ok(1) pl by (simp add: base_ok_def e)
  moreover have "counts_ok h {} ext'"
  proof -
    have "refcount h b = int (ext' b + indeg h {} b)" if "b \<in> live g" for b
    proof -
      have "refcount g b = int (ext b + indeg g {} b)" using ok(2) that by (simp add: counts_ok_def)
      then show ?thesis using ind [of b] cnt [of b] by (simp add: e(5))
    qed
    moreover have "set (out h b) \<subseteq> live g" if "b \<in> dom (objs g)" for b
    proof (cases "b = a")
      case True
      have "x \<in> live g" if "x \<in> set (map the (members c))" for x
      proof -
        have "0 < count_list (map the (members c)) x" using that count_list_0_iff by (metis gr0I)
        then have "0 < ext x + count_list (out g a) x" using cnt [of x] by linarith
        then show ?thesis by (rule lv)
      qed
      then show ?thesis using True by (auto simp: e(8))
    qed (use ok(2) that in \<open>simp add: counts_ok_def e(8)\<close>)
    moreover have "x \<in> live g" if "0 < ext' x" for x
    proof (rule lv)
      show "0 < ext x + count_list (out g a) x" using cnt [of x] that by linarith
    qed
    ultimately show ?thesis by (simp add: counts_ok_def e(2,3))
  qed
  moreover have "lists_ok h {}" using ok(3) unfolding lists_ok_def root_list_def e kinds .
  moreover have "tight h {}" using ok(4) by (simp add: tight_def e kinds)
  ultimately show ?thesis by (simp add: heap_inv_def heap_ok_def)
qed

text \<open>Counting a reference commutes with changing a body.\<close>

lemma addref_put_body:
  assumes a: "objs g a = Some ob" and h: "luarc_addobjref b g = Inr h"
  obtains ob' where "objs h a = Some ob'" "o_body ob' = o_body ob"
    "luarc_addobjref b (put_obj a (ob\<lparr>o_body := c\<rparr>) g) = Inr (put_obj a (ob'\<lparr>o_body := c\<rparr>) h)"
proof (cases "st_heap (strt g) b")
  case (Some s)
  then show thesis
    using that [of ob] a h by (auto simp: luarc_addobjref_def add_ref_def put_str_def put_obj_def)
next
  case None
  then obtain obb where b: "objs g b = Some obb" "h = put_obj b (obb\<lparr>o_ref := o_ref obb + 1\<rparr>) g"
    using h by (auto simp: luarc_addobjref_def add_ref_def get_obj_def split: option.splits)
  show thesis
  proof (cases "b = a")
    case True
    then show thesis
      using that [of "ob\<lparr>o_ref := o_ref ob + 1\<rparr>"] a b None
      by (cases ob) (auto simp: luarc_addobjref_def add_ref_def get_obj_def put_obj_def)
  next
    case False
    then show thesis
      using that [of ob] a b None
      by (auto simp: luarc_addobjref_def add_ref_def get_obj_def put_obj_def fun_upd_twist)
  qed
qed

section \<open>Slots\<close>

lemma values_of_Cons: "map the (values_of (v # vs)) = (case gcvalue v of None \<Rightarrow> [] | Some a \<Rightarrow> [a]) @ map the (values_of vs)"
  by (simp add: values_of_def tested_def split: option.split)

lemma count_values_Cons: "count_list (map the (values_of (v # vs))) x = slot_ref v x + count_list (map the (values_of vs)) x"
  by (simp add: values_of_Cons slot_ref_def split: option.split)

lemma count_values_update:
  "i < length vs \<Longrightarrow> count_list (map the (values_of (vs[i := v]))) x + slot_ref (vs ! i) x =
     count_list (map the (values_of vs)) x + slot_ref v x"
proof (induction vs arbitrary: i)
  case (Cons u us)
  then show ?case by (cases i) (auto simp: count_values_Cons)
qed simp

lemma count_values_take:
  assumes "i < length vs" "i \<le> n"
  shows "count_list (map the (values_of (take (Suc n) (vs[i := v])))) x + slot_ref (vs ! i) x =
    count_list (map the (values_of (take (Suc n) vs))) x + slot_ref v x"
  using count_values_update [of i "take (Suc n) vs" v x] assms by (simp add: take_update_swap)

lemma values_of_no_None [simp]: "None \<notin> set (values_of vs)"
  by (simp add: values_of_def tested_def)


fun slot_owner :: "aslot \<Rightarrow> addr option" where
  "slot_owner (Stack th i) = Some th"
| "slot_owner (Gt th) = Some th"
| "slot_owner (Cupvalue c i) = Some c"
| "slot_owner (Upvalue u) = Some u"
| "slot_owner Registry = None"
| "slot_owner Environ = None"
| "slot_owner Nil_object = None"

fun slot_put :: "aslot \<Rightarrow> TValue \<Rightarrow> obody \<Rightarrow> obody" where
  "slot_put (Stack th i) v (OThread g stk tp cis us) = OThread g (stk[i := v]) tp cis us"
| "slot_put (Gt th) v (OThread g stk tp cis us) = OThread v stk tp cis us"
| "slot_put (Cupvalue c i) v (OCClosure e ups) = OCClosure e (ups[i := v])"
| "slot_put (Upvalue u) v (OUpval (Closed w)) = OUpval (Closed v)"
| "slot_put s v b = b"

text \<open>The stack is counted up to the largest of the tops.\<close>

fun counted :: "aslot \<Rightarrow> obody \<Rightarrow> bool" where
  "counted (Stack th i) (OThread g stk tp cis us) = (i \<le> stack_lim tp cis)"
| "counted s b = True"

lemma slot_heap:
  assumes "read_slot s A = Inr old" "slot_owner s = Some a"
  obtains ob where "objs (gs A) a = Some ob"
    "\<And>g' ob' v. objs g' a = Some ob' \<Longrightarrow> o_body ob' = o_body ob \<Longrightarrow> read_slot s (A\<lparr>gs := g'\<rparr>) = Inr old \<and>
       store_slot s v (A\<lparr>gs := g'\<rparr>) = Inr (A\<lparr>gs := put_obj a (ob'\<lparr>o_body := slot_put s v (o_body ob)\<rparr>) g'\<rparr>)"
    "\<And>v x. counted s (o_body ob) \<Longrightarrow> count_list (map the (members (slot_put s v (o_body ob)))) x + slot_ref old x =
       count_list (map the (members (o_body ob))) x + slot_ref v x"
    "\<And>v. None \<notin> set (members (o_body ob)) \<Longrightarrow> None \<notin> set (members (slot_put s v (o_body ob)))"
    "\<And>v. (\<exists>th i. slot_put s v (o_body ob) = OUpval (Open th i)) = (\<exists>th i. o_body ob = OUpval (Open th i))"
    "\<And>v. (\<exists>mt e. slot_put s v (o_body ob) = OUdata mt e) = (\<exists>mt e. o_body ob = OUdata mt e)"
proof -
  obtain ob where ob: "objs (gs A) a = Some ob"
    using assms by (cases s) (auto simp: read_slot_def thread_of_def body_def get_obj_def split: option.splits)
  note defs = read_slot_def store_slot_def thread_of_def body_def get_obj_def set_body_def lift_gs_def upd_obj_ok
  show thesis
  proof (cases s)
    case (Stack th i)
    then show ?thesis
      using assms ob that [OF ob]
      by (cases "o_body ob")
        (auto simp: defs count_values_Cons count_values_take split: if_splits)
  next
    case (Gt th)
    then show ?thesis using assms ob that [OF ob] by (cases "o_body ob") (auto simp: defs count_values_Cons)
  next
    case (Cupvalue c i)
    then show ?thesis using assms ob that [OF ob]
      by (cases "o_body ob") (auto simp: defs count_values_update split: if_splits option.splits)
  next
    case (Upvalue u)
    then show ?thesis using assms ob that [OF ob]
      by (cases "o_body ob") (auto simp: defs count_values_Cons split: upvalue.splits)
  qed (use assms in auto)
qed


section \<open>The invariant\<close>

text \<open>The references held outside the heap by \<open>L->env\<close>, the registry and the metatables of basic types.\<close>

definition roots :: "lua_api \<Rightarrow> addr \<Rightarrow> nat" where
  "roots A a = slot_ref (lenv A) a + slot_ref (lreg A) a + count_list (mts A) (Some a)"

definition alive :: "TValue \<Rightarrow> lua_api \<Rightarrow> bool" where
  "alive v A = (\<forall>b. gcvalue v = Some b \<longrightarrow> b \<in> live (gs A))"

definition good :: "rcenv \<Rightarrow> (addr \<Rightarrow> nat) \<Rightarrow> lua_api \<Rightarrow> bool" where
  "good K ext A = (heap_inv (gs A) (\<lambda>a. ext a + roots A a) \<and> card (live (gs A)) \<le> fst K \<and>
     (\<forall>g mt. \<not> has_gc (snd K) g mt) \<and> (thr A = mainthread (gs A) \<or> 0 < ext (thr A)))"

lemma addref_run:
  assumes "heap_inv g e" "\<forall>b. gcvalue v = Some b \<longrightarrow> b \<in> live g"
  obtains h where "\<And>n E. run_rc n E (luarc_addref v) g = Inr h" "heap_inv h (\<lambda>a. e a + slot_ref v a)" "shrinks g h" "live h = live g"
    "\<And>n E a ob. objs g a = Some ob \<Longrightarrow> \<exists>ob'. objs h a = Some ob' \<and> o_body ob' = o_body ob \<and>
      (\<forall>c. run_rc n E (luarc_addref v) (put_obj a (ob\<lparr>o_body := c\<rparr>) g) = Inr (put_obj a (ob'\<lparr>o_body := c\<rparr>) h))"
proof (cases "gcvalue v")
  case None
  then show thesis using that [of g] assms by (simp add: luarc_addref_def slot_ref_def)
next
  case (Some b)
  have "bump b e = (\<lambda>a. e a + slot_ref v a)" using Some by (auto simp: bump_def slot_ref_def fun_eq_iff)
  then obtain h where h: "luarc_addobjref b g = Inr h" "heap_inv h (\<lambda>a. e a + slot_ref v a)" "shrinks g h" "live h = live g"
    using add_ref_inv [OF assms(1), of b] assms(2) Some by (auto simp: returns_def)
  show thesis
  proof (rule that [of h])
    fix n E a ob assume a: "objs g a = Some ob"
    obtain ob' where "objs h a = Some ob'" "o_body ob' = o_body ob" using addref_put_body [OF a h(1)] by blast
    moreover have "luarc_addobjref b (put_obj a (ob\<lparr>o_body := c\<rparr>) g) = Inr (put_obj a (ob'\<lparr>o_body := c\<rparr>) h)" for c
      using addref_put_body [OF a h(1), of c] calculation by force
    ultimately show "\<exists>ob'. objs h a = Some ob' \<and> o_body ob' = o_body ob \<and>
      (\<forall>c. run_rc n E (luarc_addref v) (put_obj a (ob\<lparr>o_body := c\<rparr>) g) = Inr (put_obj a (ob'\<lparr>o_body := c\<rparr>) h))"
      using Some by (simp add: luarc_addref_def)
  qed (use h Some in \<open>simp_all add: luarc_addref_def\<close>)
qed

lemma subref_run:
  assumes "heap_inv g (\<lambda>a. e a + slot_ref v a)" "card (live g) \<le> n" "\<forall>g mt. \<not> has_gc E g mt"
  shows "returns (\<lambda>h. heap_inv h e \<and> shrinks g h) (run_rc n E (luarc_subref v) g)"
proof (cases "gcvalue v")
  case None
  then show ?thesis using assms by (simp add: luarc_subref_def slot_ref_def)
next
  case (Some b)
  have "(\<lambda>a. e a + slot_ref v a) = bump b e" using Some by (auto simp: bump_def slot_ref_def fun_eq_iff)
  then have "returns (\<lambda>h. heap_inv h e \<and> shrinks g h) (drop_ref n E b g)" using drop_ref_inv assms by metis
  then show ?thesis using Some by (auto simp: luarc_subref_def returns_def)
qed

lemma card_live: "heap_inv g e \<Longrightarrow> live h \<subseteq> live g \<Longrightarrow> card (live g) \<le> n \<Longrightarrow> card (live h) \<le> n"
  using heap_ok_finite card_mono le_trans unfolding heap_inv_def by metis

text \<open>What an operation leaves of the state: the heap may have lost objects.\<close>

definition leaves :: "lua_api \<Rightarrow> lua_api \<Rightarrow> bool" where
  "leaves B A' = (shrinks (gs B) (gs A') \<and> A' = B\<lparr>gs := gs A'\<rparr>)"

lemma leaves_refl [simp]: "leaves A A"
  by (simp add: leaves_def)

lemma leaves_trans: "leaves A B \<Longrightarrow> leaves B C \<Longrightarrow> leaves A C"
  unfolding leaves_def using shrinks_trans by (metis lua_api.surjective lua_api.update_convs(1))


definition in_range :: "aslot \<Rightarrow> lua_api \<Rightarrow> bool" where
  "in_range s A = (s \<noteq> Nil_object \<and>
     (\<forall>a ob. slot_owner s = Some a \<longrightarrow> objs (gs A) a = Some ob \<longrightarrow> counted s (o_body ob)))"

text \<open>
  A store moves references: the one of the new value into the slot, the one of the old value out of it.
  \<open>h\<close> is the heap in which the new value has been counted.
\<close>

lemma store_moves:
  assumes r: "read_slot s A = Inr old" and c: "in_range s A"
    and h: "heap_inv h (\<lambda>a. ext a + roots A a + slot_ref v a)" "shrinks (gs A) h" "live h = live (gs A)"
      "\<And>a ob. objs (gs A) a = Some ob \<Longrightarrow> \<exists>ob'. objs h a = Some ob' \<and> o_body ob' = o_body ob \<and>
         (\<forall>c. run_rc n E rs (put_obj a (ob\<lparr>o_body := c\<rparr>) (gs A)) = Inr (put_obj a (ob'\<lparr>o_body := c\<rparr>) h))"
      "run_rc n E rs (gs A) = Inr h"
  obtains B k where "store_slot s v A = Inr B" "run_rc n E rs (gs B) = Inr k" "B = A\<lparr>gs := gs B, lenv := lenv B, lreg := lreg B\<rparr>"
    "heap_inv k (\<lambda>a. ext a + roots B a + slot_ref old a)" "shrinks (gs B) k" "live k = live (gs A)" "mainthread k = mainthread (gs A)"
proof (cases "slot_owner s")
  case None
  have m: "mainthread h = mainthread (gs A)" using h(2) by (simp add: shrinks_but_def)
  from None consider "s = Registry" | "s = Environ" using c by (cases s) (auto simp: in_range_def)
  then show thesis
  proof cases
    case 1
    then have "(\<lambda>a. ext a + roots A a + slot_ref v a) = (\<lambda>a. ext a + roots (A\<lparr>lreg := v\<rparr>) a + slot_ref old a)"
      using r by (simp add: roots_def read_slot_def fun_eq_iff)
    then show thesis using that [of "A\<lparr>lreg := v\<rparr>" h] 1 h m by (simp add: store_slot_def)
  next
    case 2
    then have "(\<lambda>a. ext a + roots A a + slot_ref v a) = (\<lambda>a. ext a + roots (A\<lparr>lenv := v\<rparr>) a + slot_ref old a)"
      using r by (simp add: roots_def read_slot_def fun_eq_iff)
    then show thesis using that [of "A\<lparr>lenv := v\<rparr>" h] 2 h m by (simp add: store_slot_def)
  qed
next
  case (Some a)
  obtain ob where ob: "objs (gs A) a = Some ob"
    and st: "\<And>g' ob' v. objs g' a = Some ob' \<Longrightarrow> o_body ob' = o_body ob \<Longrightarrow> read_slot s (A\<lparr>gs := g'\<rparr>) = Inr old \<and>
       store_slot s v (A\<lparr>gs := g'\<rparr>) = Inr (A\<lparr>gs := put_obj a (ob'\<lparr>o_body := slot_put s v (o_body ob)\<rparr>) g'\<rparr>)"
    and cnt: "\<And>v x. counted s (o_body ob) \<Longrightarrow> count_list (map the (members (slot_put s v (o_body ob)))) x + slot_ref old x =
       count_list (map the (members (o_body ob))) x + slot_ref v x"
    and nn: "\<And>v. None \<notin> set (members (o_body ob)) \<Longrightarrow> None \<notin> set (members (slot_put s v (o_body ob)))"
    and op: "\<And>v. (\<exists>th i. slot_put s v (o_body ob) = OUpval (Open th i)) = (\<exists>th i. o_body ob = OUpval (Open th i))"
    and ud: "\<And>v. (\<exists>mt e. slot_put s v (o_body ob) = OUdata mt e) = (\<exists>mt e. o_body ob = OUdata mt e)"
    using slot_heap [OF r Some] by blast
  obtain ob' where ob': "objs h a = Some ob'" "o_body ob' = o_body ob"
    "\<And>c. run_rc n E rs (put_obj a (ob\<lparr>o_body := c\<rparr>) (gs A)) = Inr (put_obj a (ob'\<lparr>o_body := c\<rparr>) h)"
    using h(4) [OF ob] by blast
  let ?c = "slot_put s v (o_body ob)"
  define k where "k = put_obj a (ob'\<lparr>o_body := ?c\<rparr>) h"
  have bh: "body_of h a = Some (o_body ob)" using ob' by (simp add: body_of_def)
  have bk: "body_of k a = Some ?c" by (simp add: k_def put_obj_def body_of_def)
  have mk: "mark_of k a = mark_of h a" using put_body_eqs(6) [OF ob'(1)] by (simp add: k_def)
  have plh: "plain h a" using h(1) by (auto simp: heap_inv_def heap_ok_def base_ok_def)
  have "plain k a"
    using plh nn [of v] Some by (cases "(s, v, o_body ob)" rule: slot_put.cases) (auto simp: plain_def bh bk mk stack_covers_def)
  moreover have "is_open k a = is_open h a" "is_udata k a = is_udata h a" using op [of v] ud [of v] by (simp_all add: is_open_def is_udata_def bh bk)
  moreover have "ext x + roots A x + slot_ref old x + count_list (map the (members ?c)) x =
    ext x + roots A x + slot_ref v x + count_list (out h a) x" for x
  proof -
    have "counted s (o_body ob)" using c Some ob by (simp add: in_range_def)
    moreover have "out h a = map the (members (o_body ob))" by (simp add: out_def bh)
    ultimately show ?thesis using cnt [of v x] by simp
  qed
  ultimately have k: "heap_inv k (\<lambda>a. ext a + roots A a + slot_ref old a)" by (intro put_body_inv [OF h(1) ob'(1)]) (simp_all add: k_def)
  let ?B = "A\<lparr>gs := put_obj a (ob\<lparr>o_body := ?c\<rparr>) (gs A)\<rparr>"
  have e: "shrinks (gs ?B) k"
  proof -
    have "live k = live (gs A)" "live (gs ?B) = live (gs A)" using put_body_eqs(3) [OF ob'(1)] put_body_eqs(3) [OF ob] h(3) by (simp_all add: k_def)
    then show ?thesis
      using h(2) by (simp add: shrinks_but_def k_def put_body_eqs [OF ob'(1)] put_body_eqs [OF ob] h(3))
  qed
  show thesis
  proof (rule that [of ?B k])
    show "store_slot s v A = Inr ?B" using st [OF ob refl] by simp
    show "live k = live (gs A)" using put_body_eqs(3) [OF ob'(1)] h(3) by (simp add: k_def)
    show "mainthread k = mainthread (gs A)" using put_body_eqs(13) [OF ob'(1)] h(2) by (simp add: k_def shrinks_but_def)
    have "roots ?B = roots A" by (simp add: roots_def fun_eq_iff)
    then show "heap_inv k (\<lambda>a. ext a + roots ?B a + slot_ref old a)" using k by simp
  qed (use e in \<open>simp_all add: ob'(3) k_def\<close>)
qed


lemma setobj_good:
  assumes A: "good K ext A" and r: "read_slot s A = Inr old" "in_range s A" and v: "alive v A"
  shows "returns (\<lambda>A'. good K ext A' \<and> (\<exists>B. store_slot s v A = Inr B \<and> leaves B A')) (setobj K s v A)"
proof -
  have A': "heap_inv (gs A) (\<lambda>a. ext a + roots A a)" "card (live (gs A)) \<le> fst K" "\<forall>g mt. \<not> has_gc (snd K) g mt"
    using A by (simp_all add: good_def)
  obtain h where h: "\<And>n E. run_rc n E (luarc_addref v) (gs A) = Inr h" "heap_inv h (\<lambda>a. ext a + roots A a + slot_ref v a)"
    "shrinks (gs A) h" "live h = live (gs A)"
    "\<And>n E a ob. objs (gs A) a = Some ob \<Longrightarrow> \<exists>ob'. objs h a = Some ob' \<and> o_body ob' = o_body ob \<and>
      (\<forall>c. run_rc n E (luarc_addref v) (put_obj a (ob\<lparr>o_body := c\<rparr>) (gs A)) = Inr (put_obj a (ob'\<lparr>o_body := c\<rparr>) h))"
    using addref_run [OF A'(1)] v unfolding alive_def by blast
  obtain B k where k: "store_slot s v A = Inr B" "run_rc (fst K) (snd K) (luarc_addref v) (gs B) = Inr k"
    "B = A\<lparr>gs := gs B, lenv := lenv B, lreg := lreg B\<rparr>" "heap_inv k (\<lambda>a. ext a + roots B a + slot_ref old a)"
    "shrinks (gs B) k" "live k = live (gs A)" "mainthread k = mainthread (gs A)"
    using store_moves [OF r h(2,3,4,5,1)] by blast
  have cd: "card (live k) \<le> fst K" using k(6) A'(2) by simp
  then have "returns (\<lambda>g'. heap_inv g' (\<lambda>a. ext a + roots B a) \<and> shrinks k g') (run_rc (fst K) (snd K) (luarc_subref old) k)"
    by (rule subref_run [OF k(4) _ A'(3)])
  then obtain g' where g': "run_rc (fst K) (snd K) (luarc_subref old) k = Inr g'" "heap_inv g' (\<lambda>a. ext a + roots B a)" "shrinks k g'"
    by (auto simp: returns_def)
  have s: "setobj K s v A = Inr (B\<lparr>gs := g'\<rparr>)"
    using r(1) k(1,2) g'(1) by (simp add: setobj_def do_rc_def lift_gs_def rc_setobj_def run_rc_append)
  have rt: "roots (B\<lparr>gs := g'\<rparr>) = roots B" by (simp add: roots_def fun_eq_iff)
  have "thr B = thr A" by (subst k(3)) simp
  then have "good K ext (B\<lparr>gs := g'\<rparr>)"
    using g' A'(3) card_live [OF k(4) shrinks_live [OF g'(3)] cd] A k(7) by (simp add: good_def rt) (simp add: shrinks_but_def)
  moreover have "leaves B (B\<lparr>gs := g'\<rparr>)" using shrinks_trans [OF k(5) g'(3)] by (simp add: leaves_def)
  ultimately show ?thesis using s k(1) by auto
qed

lemma setnilvalue_setobj: "setnilvalue K s = setobj K s VNil"
  by (simp add: setnilvalue_def setobj_def rc_setplain_def rc_setobj_def luarc_addref_def fun_eq_iff)

lemma alive_nil [simp]: "alive VNil A"
  by (simp add: alive_def)


section \<open>The stack of the running function\<close>

definition runs :: "lua_api \<Rightarrow> TValue \<Rightarrow> TValue list \<Rightarrow> nat \<Rightarrow> nat list \<Rightarrow> bool" where
  "runs A g stk tp cis = (body_of (gs A) (thr A) = Some (OThread g stk tp cis []))"

lemma stack_lim_max: "stack_lim tp cis = Max (insert tp (set cis))"
proof -
  have "foldl (\<lambda>lim t. if lim < t then t else lim) tp cis = Max (insert tp (set cis))"
  proof (induction cis arbitrary: tp)
    case (Cons c cis)
    have "Max (insert (max tp c) (set cis)) = Max (insert tp (set (c # cis)))"
      by (cases "cis = []") (simp_all add: max.assoc insert_commute)
    moreover have "(if tp < c then c else tp) = max tp c" by (simp add: max_def)
    ultimately show ?case by (simp only: foldl.simps Cons)
  qed simp
  then show ?thesis by (simp add: stack_lim_def)
qed

lemma stack_lim_ge: "tp \<le> stack_lim tp cis" "c \<in> set cis \<Longrightarrow> c \<le> stack_lim tp cis"
  by (simp_all add: stack_lim_max)

lemma stack_lim_top:
  assumes "cis \<noteq> []" "tp \<le> List.last cis" "tp' \<le> List.last cis"
  shows "stack_lim tp' cis = stack_lim tp cis"
proof -
  have "List.last cis \<in> set cis" using assms(1) by simp
  then have "tp \<le> Max (set cis)" "tp' \<le> Max (set cis)" using assms(2,3) Max_ge [of "set cis"] le_trans by blast+
  then show ?thesis using assms(1) by (simp add: stack_lim_max)
qed

lemma runs_thread: "runs A g stk tp cis \<Longrightarrow> thread_of (thr A) A = Inr (g, stk, tp, cis, [])"
  by (auto simp: runs_def body_of_def thread_of_def body_def get_obj_def)

lemma good_parts:
  assumes "good K ext A"
  shows "base_ok (gs A) {}" "counts_ok (gs A) {} (\<lambda>a. ext a + roots A a)" "lists_ok (gs A) {}" "card (live (gs A)) \<le> fst K"
    "heap_inv (gs A) (\<lambda>a. ext a + roots A a)" "\<forall>g mt. \<not> has_gc (snd K) g mt"
  using assms by (simp_all add: good_def heap_inv_def heap_ok_def)

lemma good_thread_live: "good K ext A \<Longrightarrow> thr A \<in> live (gs A)"
proof -
  assume A: "good K ext A"
  have "mainthread (gs A) \<in> live (gs A)" using good_parts(3) [OF A] by (auto simp: lists_ok_def live_def)
  moreover have "a \<in> live (gs A)" if "0 < ext a" for a using good_parts(2) [OF A] that by (simp add: counts_ok_def)
  ultimately show ?thesis using A by (auto simp: good_def)
qed

lemma good_out_alive:
  assumes "good K ext A" "body_of (gs A) a = Some b" "Some x \<in> set (members b)"
  shows "x \<in> live (gs A)"
proof -
  have "a \<in> dom (objs (gs A))" using assms(2) by (auto simp: body_of_def)
  moreover have "x \<in> set (out (gs A) a)" using assms(2,3) by (force simp: out_def)
  ultimately show ?thesis using good_parts(2) [OF assms(1)] by (auto simp: counts_ok_def)
qed

lemma mem_values: "v \<in> set vs \<Longrightarrow> gcvalue v = Some x \<Longrightarrow> Some x \<in> set (values_of vs)"
  by (force simp: values_of_def tested_def)

lemma stack_alive:
  assumes "good K ext A" "runs A g stk tp cis" "i \<le> stack_lim tp cis" "i < length stk"
  shows "alive (stk ! i) A" "alive g A"
proof -
  have "stk ! i \<in> set (take (Suc (stack_lim tp cis)) stk)" using assms(3,4) by (auto simp: in_set_conv_nth intro!: exI [of _ i])
  then have "\<And>x. gcvalue (stk ! i) = Some x \<Longrightarrow> Some x \<in> set (members (OThread g stk tp cis []))"
    "\<And>x. gcvalue g = Some x \<Longrightarrow> Some x \<in> set (members (OThread g stk tp cis []))"
    by (auto intro: mem_values)
  then show "alive (stk ! i) A" "alive g A"
    using good_out_alive [OF assms(1) assms(2) [unfolded runs_def]] by (auto simp: alive_def)
qed

lemma runs_covers:
  assumes "good K ext A" "runs A g stk tp cis"
  shows "stack_lim tp cis < length stk"
proof -
  have "plain (gs A) (thr A)" using good_parts(1) [OF assms(1)] by (simp add: base_ok_def)
  then show ?thesis using assms(2) by (simp add: plain_def runs_def stack_covers_def)
qed

text \<open>An operation that changes only the stack and the heap.\<close>

definition keeps :: "lua_api \<Rightarrow> lua_api \<Rightarrow> bool" where
  "keeps A A' = (A' = A\<lparr>gs := gs A'\<rparr> \<and> live (gs A') \<subseteq> live (gs A) \<and> mainthread (gs A') = mainthread (gs A))"

lemma keeps_refl [simp]: "keeps A A"
  by (simp add: keeps_def)

lemma keeps_trans: "keeps A B \<Longrightarrow> keeps B C \<Longrightarrow> keeps A C"
  unfolding keeps_def by (metis lua_api.surjective lua_api.update_convs(1) subset_trans)

lemma keeps_eqs:
  assumes "keeps A A'"
  shows "thr A' = thr A" "base A' = base A" "cfunc A' = cfunc A" "lenv A' = lenv A" "lreg A' = lreg A" "mts A' = mts A"
  using assms unfolding keeps_def by (metis lua_api.select_convs(2-7) lua_api.surjective lua_api.update_convs(1))+

lemma stack_write:
  assumes A: "good K ext A" "runs A g stk tp cis" and i: "i \<le> stack_lim tp cis" and v: "alive v A"
  shows "returns (\<lambda>A'. good K ext A' \<and> runs A' g (stk[i := v]) tp cis \<and> keeps A A') (setobj K (Stack (thr A) i) v A)"
proof -
  obtain ob where ob: "objs (gs A) (thr A) = Some ob" "o_body ob = OThread g stk tp cis []"
    using A(2) by (auto simp: runs_def body_of_def)
  have len: "i < length stk" using i runs_covers [OF A] by simp
  let ?B = "A\<lparr>gs := put_obj (thr A) (ob\<lparr>o_body := OThread g (stk[i := v]) tp cis []\<rparr>) (gs A)\<rparr>"
  have B: "store_slot (Stack (thr A) i) v A = Inr ?B"
    using ob len by (simp add: store_slot_def runs_thread [OF A(2)] set_body_def lift_gs_def upd_obj_ok)
  note e = put_body_eqs [OF ob(1), of "OThread g (stk[i := v]) tp cis []"]
  have "returns (\<lambda>A'. good K ext A' \<and> (\<exists>B. store_slot (Stack (thr A) i) v A = Inr B \<and> leaves B A')) (setobj K (Stack (thr A) i) v A)"
  proof (rule setobj_good [OF A(1) _ _ v])
    show "read_slot (Stack (thr A) i) A = Inr (stk ! i)" using len by (simp add: read_slot_def runs_thread [OF A(2)])
    show "in_range (Stack (thr A) i) A" using ob i by (simp add: in_range_def)
  qed
  then show ?thesis
  proof (rule returns_mono)
    fix A' assume "good K ext A' \<and> (\<exists>B. store_slot (Stack (thr A) i) v A = Inr B \<and> leaves B A')"
    then have A': "good K ext A'" "leaves ?B A'" using B by auto
    then have sh: "shrinks (gs ?B) (gs A')" and eq: "A' = ?B\<lparr>gs := gs A'\<rparr>" by (simp_all add: leaves_def)
    have t: "thr A' = thr A" by (subst eq) simp
    have "body_of (gs A') (thr A) = body_of (gs ?B) (thr A)" using sh good_thread_live [OF A'(1)] by (simp add: shrinks_but_def t)
    then have "runs A' g (stk[i := v]) tp cis" by (simp add: runs_def t e(4))
    moreover have "keeps A A'" using sh eq by (simp add: keeps_def shrinks_but_def e)
    ultimately show "good K ext A' \<and> runs A' g (stk[i := v]) tp cis \<and> keeps A A'" using A'(1) by simp
  qed
qed


lemma set_top_good:
  assumes A: "good K ext A" "runs A g stk tp cis" and t: "cis \<noteq> []" "tp \<le> List.last cis" "tp' \<le> List.last cis"
  shows "returns (\<lambda>A'. good K ext A' \<and> runs A' g stk tp' cis \<and> keeps A A') (set_top (thr A) tp' A)"
proof -
  obtain ob where ob: "objs (gs A) (thr A) = Some ob" "o_body ob = OThread g stk tp cis []"
    using A(2) by (auto simp: runs_def body_of_def)
  let ?h = "put_obj (thr A) (ob\<lparr>o_body := OThread g stk tp' cis []\<rparr>) (gs A)"
  let ?B = "A\<lparr>gs := ?h\<rparr>"
  note e = put_body_eqs [OF ob(1), of "OThread g stk tp' cis []"]
  have m: "members (OThread g stk tp' cis []) = members (OThread g stk tp cis [])" using stack_lim_top [OF t] by simp
  have r: "roots ?B = roots A" by (simp add: roots_def fun_eq_iff)
  have "heap_inv ?h (\<lambda>a. ext a + roots A a)"
  proof (rule put_body_inv [OF good_parts(5) [OF A(1)] ob(1) refl])
    have "plain (gs A) (thr A)" using good_parts(1) [OF A(1)] by (simp add: base_ok_def)
    then show "plain ?h (thr A)"
      using A(2) stack_lim_top [OF t] by (simp add: plain_def runs_def e(4) stack_covers_def)
    show "is_open ?h (thr A) = is_open (gs A) (thr A)" "is_udata ?h (thr A) = is_udata (gs A) (thr A)"
      using A(2) by (simp_all add: is_open_def is_udata_def runs_def e(4))
    show "ext x + roots A x + count_list (map the (members (OThread g stk tp' cis []))) x =
      ext x + roots A x + count_list (out (gs A) (thr A)) x" for x
      using A(2) m by (simp add: out_def runs_def)
  qed
  then have "good K ext ?B" using A(1) by (simp add: good_def e r)
  moreover have "runs ?B g stk tp' cis" by (simp add: runs_def e)
  moreover have "keeps A ?B" by (simp add: keeps_def e)
  moreover have "set_top (thr A) tp' A = Inr ?B"
    using ob by (simp add: set_top_def runs_thread [OF A(2)] set_body_def lift_gs_def upd_obj_ok)
  ultimately show ?thesis by simp
qed

lemma copy_slot_good:
  assumes "good K ext A" "runs A g stk tp cis" "from \<le> stack_lim tp cis" "to \<le> stack_lim tp cis"
  shows "returns (\<lambda>A'. good K ext A' \<and> runs A' g (stk[to := stk ! from]) tp cis \<and> keeps A A') (copy_slot K to from A)"
proof -
  have "from < length stk" using assms(3) runs_covers [OF assms(1,2)] by simp
  then show ?thesis
    using stack_write [OF assms(1,2,4) stack_alive(1) [OF assms(1,2,3)]]
    by (simp add: copy_slot_def read_slot_def runs_thread [OF assms(2)])
qed

lemma drop_top_good:
  assumes A: "good K ext A" "runs A g stk tp cis" and t: "cis \<noteq> []" "tp \<le> List.last cis"
  shows "returns (\<lambda>A'. good K ext A' \<and> runs A' g (stk[tp - 1 := VNil]) (tp - 1) cis \<and> keeps A A') (drop_top K A)"
proof -
  have "returns (\<lambda>A'. good K ext A' \<and> runs A' g stk (tp - 1) cis \<and> keeps A A') (set_top (thr A) (tp - 1) A)"
    using set_top_good [OF A t] t(2) by simp
  then have "returns (\<lambda>A'. good K ext A' \<and> runs A' g (stk[tp - 1 := VNil]) (tp - 1) cis \<and> keeps A A')
    (bindE (set_top (thr A) (tp - 1) A) (setobj K (Stack (thr A) (tp - 1)) VNil))"
  proof (rule returns_bind)
    fix B assume B: "good K ext B \<and> runs B g stk (tp - 1) cis \<and> keeps A B"
    then have "returns (\<lambda>A'. good K ext A' \<and> runs A' g (stk[tp - 1 := VNil]) (tp - 1) cis \<and> keeps B A')
      (setobj K (Stack (thr B) (tp - 1)) VNil B)"
      using stack_write [of K ext B g stk "tp - 1" cis "tp - 1" VNil] stack_lim_ge(1) by simp
    then show "returns (\<lambda>A'. good K ext A' \<and> runs A' g (stk[tp - 1 := VNil]) (tp - 1) cis \<and> keeps A A')
      (setobj K (Stack (thr A) (tp - 1)) VNil B)"
      using B by (auto elim!: returns_mono simp: keeps_eqs(1) intro: keeps_trans)
  qed
  then show ?thesis by (simp add: drop_top_def get_top_def runs_thread [OF A(2)] setnilvalue_setobj)
qed

lemma pop_loop_good:
  assumes "good K ext A" "runs A g (xs @ ys @ zs) (length xs + length ys) cis" "cis \<noteq> []" "length xs + length ys \<le> List.last cis"
  shows "returns (\<lambda>A'. good K ext A' \<and> runs A' g (xs @ replicate (length ys) VNil @ zs) (length xs) cis \<and> keeps A A')
    (pop_loop K (length ys) A)"
  using assms
proof (induction ys arbitrary: A zs rule: rev_induct)
  case (snoc y ys)
  have "returns (\<lambda>A'. good K ext A' \<and> runs A' g ((xs @ ys @ y # zs)[length xs + length ys := VNil]) (length xs + length ys) cis \<and> keeps A A')
    (drop_top K A)"
    using drop_top_good [OF snoc.prems(1) _ snoc.prems(3), of g "xs @ ys @ y # zs" "Suc (length xs + length ys)"] snoc.prems by simp
  then show ?case unfolding length_append_singleton pop_loop.simps
  proof (rule returns_bind)
    fix B assume B: "good K ext B \<and> runs B g ((xs @ ys @ y # zs)[length xs + length ys := VNil]) (length xs + length ys) cis \<and> keeps A B"
    then have "runs B g (xs @ ys @ VNil # zs) (length xs + length ys) cis" by (simp add: list_update_append)
    then have "returns (\<lambda>A'. good K ext A' \<and> runs A' g (xs @ replicate (length ys) VNil @ VNil # zs) (length xs) cis \<and> keeps B A')
      (pop_loop K (length ys) B)"
      using snoc.IH [of B "VNil # zs"] B snoc.prems by simp
    then show "returns (\<lambda>A'. good K ext A' \<and> runs A' g (xs @ replicate (Suc (length ys)) VNil @ zs) (length xs) cis \<and> keeps A A')
      (pop_loop K (length ys) B)"
      using B by (auto elim!: returns_mono simp: replicate_append_same [symmetric] intro: keeps_trans)
  qed
qed simp

lemma shift_down_good:
  assumes "good K ext A" "runs A g (xs @ y # ys @ zs) tp cis" "length xs + length ys \<le> stack_lim tp cis"
  shows "returns (\<lambda>A'. good K ext A' \<and> runs A' g (xs @ ys @ List.last (y # ys) # zs) tp cis \<and> keeps A A')
    (shift_down K (length ys) (length xs) A)"
  using assms
proof (induction ys arbitrary: A xs y)
  case (Cons z ys)
  have "returns (\<lambda>A'. good K ext A' \<and> runs A' g ((xs @ y # z # ys @ zs)[length xs := (xs @ y # z # ys @ zs) ! (length xs + 1)]) tp cis \<and> keeps A A')
    (copy_slot K (length xs) (length xs + 1) A)"
    using Cons.prems by (intro copy_slot_good) auto
  then show ?case unfolding length_Cons shift_down.simps
  proof (rule returns_bind)
    fix B assume B: "good K ext B \<and> runs B g ((xs @ y # z # ys @ zs)[length xs := (xs @ y # z # ys @ zs) ! (length xs + 1)]) tp cis \<and> keeps A B"
    then have "runs B g ((xs @ [z]) @ z # ys @ zs) tp cis" by (simp add: nth_append list_update_append)
    then have "returns (\<lambda>A'. good K ext A' \<and> runs A' g ((xs @ [z]) @ ys @ List.last (z # ys) # zs) tp cis \<and> keeps B A')
      (shift_down K (length ys) (length (xs @ [z])) B)"
      using Cons.IH [of B "xs @ [z]" z] B Cons.prems(3) by simp
    then show "returns (\<lambda>A'. good K ext A' \<and> runs A' g (xs @ (z # ys) @ List.last (y # z # ys) # zs) tp cis \<and> keeps A A')
      (shift_down K (length ys) (length xs + 1) B)"
      using B by (auto elim!: returns_mono intro: keeps_trans)
  qed
qed simp

lemma shift_up_good:
  assumes "good K ext A" "runs A g (xs @ ys @ z # zs) tp cis" "length xs + length ys \<le> stack_lim tp cis"
  shows "returns (\<lambda>A'. good K ext A' \<and> runs A' g (xs @ hd (ys @ [z]) # ys @ zs) tp cis \<and> keeps A A')
    (shift_up K (length ys) (length xs) A)"
  using assms
proof (induction ys arbitrary: A z zs rule: rev_induct)
  case (snoc y ys)
  let ?s = "xs @ ys @ y # z # zs"
  have "returns (\<lambda>A'. good K ext A' \<and> runs A' g (?s[length xs + Suc (length ys) := ?s ! (length xs + length ys)]) tp cis \<and> keeps A A')
    (copy_slot K (length xs + Suc (length ys)) (length xs + length ys) A)"
    using snoc.prems by (intro copy_slot_good) auto
  then show ?case unfolding length_append_singleton shift_up.simps
  proof (rule returns_bind)
    fix B assume B: "good K ext B \<and> runs B g (?s[length xs + Suc (length ys) := ?s ! (length xs + length ys)]) tp cis \<and> keeps A B"
    then have "runs B g (xs @ ys @ y # y # zs) tp cis" by (simp add: nth_append list_update_append)
    then have "returns (\<lambda>A'. good K ext A' \<and> runs A' g (xs @ hd (ys @ [y]) # ys @ y # zs) tp cis \<and> keeps B A')
      (shift_up K (length ys) (length xs) B)"
      using snoc.IH [of B y "y # zs"] B snoc.prems(3) by simp
    moreover have "hd (ys @ [y]) = hd ((ys @ [y]) @ [z])" by (cases ys) simp_all
    ultimately show "returns (\<lambda>A'. good K ext A' \<and> runs A' g (xs @ hd ((ys @ [y]) @ [z]) # (ys @ [y]) @ zs) tp cis \<and> keeps A A')
      (shift_up K (length ys) (length xs) B)"
      using B by (auto elim!: returns_mono intro: keeps_trans)
  qed
qed simp


section \<open>Stack operations on the frame\<close>

text \<open>
  The stack holds what lies below the frame of the running function, the frame, and nils above the top; the
  frame does not reach beyond \<open>L->ci->top\<close>, which the stack has room for.  The heap is \<open>good\<close>: its counts are
  exact, no thread has an open upvalue, there are no finalizers and the collector is not in its mark phase.
\<close>

definition frame :: "rcenv \<Rightarrow> (addr \<Rightarrow> nat) \<Rightarrow> lua_api \<Rightarrow> TValue \<Rightarrow> TValue list \<Rightarrow> TValue list \<Rightarrow> nat list \<Rightarrow> bool" where
  "frame K ext A g low vs cis = (good K ext A \<and> base A = length low \<and> cis \<noteq> [] \<and> length low + length vs \<le> List.last cis \<and>
     (\<exists>n. runs A g (low @ vs @ replicate n VNil) (length low + length vs) cis \<and>
        List.last cis + EXTRA_STACK + 1 \<le> length low + length vs + n))"

datatype stack_op = Push TValue | Pushvalue int | Settop int | Remove int | Insert int | Replace int

text \<open>The position in a frame of \<open>n\<close> values that an index means, and what the operations do to the list of values;
  \<open>room\<close> is the number of values the frame may hold.\<close>

definition position :: "int \<Rightarrow> nat \<Rightarrow> nat option" where
  "position idx n = (if 0 < idx \<and> idx \<le> int n then Some (nat idx - 1)
     else if LUA_REGISTRYINDEX < idx \<and> idx < 0 \<and> - idx \<le> int n then Some (n - nat (- idx)) else None)"

fun stack_spec :: "nat \<Rightarrow> stack_op \<Rightarrow> TValue list \<Rightarrow> TValue list option" where
  "stack_spec room (Push v) vs = (if length vs < room \<and> gcvalue v = None then Some (vs @ [v]) else None)"
| "stack_spec room (Pushvalue idx) vs = (case position idx (length vs) of None \<Rightarrow> None
     | Some p \<Rightarrow> if length vs < room then Some (vs @ [vs ! p]) else None)"
| "stack_spec room (Settop idx) vs =
     (if 0 \<le> idx then if nat idx \<le> room then Some (take (nat idx) vs @ replicate (nat idx - length vs) VNil) else None
      else if - (idx + 1) \<le> int (length vs) then Some (take (length vs - nat (- (idx + 1))) vs) else None)"
| "stack_spec room (Remove idx) vs = map_option (\<lambda>p. take p vs @ drop (p + 1) vs) (position idx (length vs))"
| "stack_spec room (Insert idx) vs = map_option (\<lambda>p. take p vs @ List.last vs # drop p (butlast vs)) (position idx (length vs))"
| "stack_spec room (Replace idx) vs = map_option (\<lambda>p. butlast (vs[p := List.last vs])) (position idx (length vs))"

fun run_op :: "rcenv \<Rightarrow> stack_op \<Rightarrow> lua_api \<Rightarrow> lua_err + lua_api" where
  "run_op K (Push v) A = luaA_pushobject K v A"
| "run_op K (Pushvalue idx) A = lua_pushvalue K idx A"
| "run_op K (Settop idx) A = lua_settop K idx A"
| "run_op K (Remove idx) A = lua_remove K idx A"
| "run_op K (Insert idx) A = lua_insert K idx A"
| "run_op K (Replace idx) A = lua_replace K idx A"

lemma runs_top:
  assumes "runs A g stk tp cis"
  shows "get_top (thr A) A = Inr tp" "cis \<noteq> [] \<Longrightarrow> ci_top (thr A) A = Inr (List.last cis)"
    "stack_last (thr A) A = Inr (length stk - EXTRA_STACK - 1)"
  by (simp_all add: get_top_def ci_top_def stack_last_def runs_thread [OF assms])

lemma frameE:
  assumes "frame K ext A g low vs cis"
  obtains n where "good K ext A" "base A = length low" "cis \<noteq> []" "length low + length vs \<le> List.last cis"
    "runs A g (low @ vs @ replicate n VNil) (length low + length vs) cis" "List.last cis + EXTRA_STACK + 1 \<le> length low + length vs + n"
    "get_top (thr A) A = Inr (length low + length vs)" "ci_top (thr A) A = Inr (List.last cis)"
  using assms by (fastforce simp: frame_def get_top_def ci_top_def dest: runs_thread)

lemma position_less: "position idx n = Some p \<Longrightarrow> p < n"
  by (auto simp: position_def split: if_splits)

lemma index2adr_position:
  assumes "frame K ext A g low vs cis" "position idx (length vs) = Some p"
  shows "index2adr K idx A = Inr (Stack (thr A) (length low + p), A)"
proof -
  obtain n where f: "base A = length low" "length low + length vs \<le> List.last cis"
    "get_top (thr A) A = Inr (length low + length vs)" "ci_top (thr A) A = Inr (List.last cis)"
    using frameE [OF assms(1)] by metis
  show ?thesis using assms(2) f by (auto simp: index2adr_def position_def pseudo_defs split: if_splits)
qed

lemma value_at_position:
  assumes "frame K ext A g low vs cis" "position idx (length vs) = Some p"
  shows "value_at K idx A = Inr (Stack (thr A) (length low + p), vs ! p, A)"
proof -
  obtain n where r: "runs A g (low @ vs @ replicate n VNil) (length low + length vs) cis" using frameE [OF assms(1)] by metis
  show ?thesis
    using position_less [OF assms(2)]
    by (simp add: value_at_def index2adr_position [OF assms] read_slot_def runs_thread [OF r] nth_append)
qed

lemma push_frame:
  assumes f: "frame K ext A g low vs cis" and v: "alive v A" and room: "length low + length vs < List.last cis"
  shows "returns (\<lambda>A'. frame K ext A' g low (vs @ [v]) cis \<and> keeps A A') (luaA_pushobject K v A)"
proof -
  obtain n where f': "good K ext A" "base A = length low" "cis \<noteq> []"
    "runs A g (low @ vs @ replicate n VNil) (length low + length vs) cis" "List.last cis + EXTRA_STACK + 1 \<le> length low + length vs + n"
    "get_top (thr A) A = Inr (length low + length vs)"
    using frameE [OF f] by metis
  obtain k where n: "n = Suc k" using f'(5) room by (cases n) auto
  let ?i = "length low + length vs"
  have w: "(low @ vs @ replicate n VNil)[?i := v] = low @ (vs @ [v]) @ replicate k VNil" by (simp add: n list_update_append)
  have "returns (\<lambda>B. good K ext B \<and> runs B g (low @ (vs @ [v]) @ replicate k VNil) ?i cis \<and> keeps A B) (setobj K (Stack (thr A) ?i) v A)"
    using stack_write [OF f'(1,4) _ v, of ?i] stack_lim_ge(1) unfolding w by simp
  then show ?thesis unfolding luaA_pushobject_def f'(6) bindE_simps
  proof (rule returns_bind)
    fix B assume B: "good K ext B \<and> runs B g (low @ (vs @ [v]) @ replicate k VNil) ?i cis \<and> keeps A B"
    then have kp: "thr B = thr A" "base B = length low" using keeps_eqs(1,2) f'(2) by auto
    have b: "get_top (thr B) B = Inr ?i" "ci_top (thr B) B = Inr (List.last cis)"
      using B f'(3) runs_top(1,2) by blast+
    have "returns (\<lambda>A'. good K ext A' \<and> runs A' g (low @ (vs @ [v]) @ replicate k VNil) (?i + 1) cis \<and> keeps B A') (set_top (thr B) (?i + 1) B)"
      using set_top_good [of K ext B g _ ?i cis "?i + 1"] B f'(3) room by simp
    then show "returns (\<lambda>A'. frame K ext A' g low (vs @ [v]) cis \<and> keeps A A') (api_incr_top (thr A) B)"
      using B b kp room f'(3,5) n
      by (auto elim!: returns_mono simp: api_incr_top_def frame_def keeps_eqs intro: keeps_trans)
  qed
qed


lemma pop_frame:
  assumes f: "frame K ext A g low vs cis" and m: "m \<le> length vs"
  shows "returns (\<lambda>A'. frame K ext A' g low (take (length vs - m) vs) cis \<and> keeps A A') (pop_loop K m A)"
proof -
  obtain n where f': "good K ext A" "base A = length low" "cis \<noteq> []" "length low + length vs \<le> List.last cis"
    "runs A g (low @ vs @ replicate n VNil) (length low + length vs) cis" "List.last cis + EXTRA_STACK + 1 \<le> length low + length vs + n"
    using frameE [OF f] by metis
  let ?x = "low @ take (length vs - m) vs" and ?y = "drop (length vs - m) vs"
  have l: "length ?y = m" "length ?x + length ?y = length low + length vs" using m by simp_all
  have "?x @ ?y @ replicate n VNil = low @ vs @ replicate n VNil" by (metis append.assoc append_take_drop_id)
  then have "runs A g (?x @ ?y @ replicate n VNil) (length ?x + length ?y) cis" using f'(5) l(2) by metis
  then have "returns (\<lambda>A'. good K ext A' \<and> runs A' g (?x @ replicate (length ?y) VNil @ replicate n VNil) (length ?x) cis \<and> keeps A A')
    (pop_loop K (length ?y) A)"
    by (rule pop_loop_good [OF f'(1) _ f'(3)]) (use l f'(4) in simp)
  then show ?thesis unfolding l(1)
  proof (rule returns_mono)
    fix B assume B: "good K ext B \<and> runs B g (?x @ replicate m VNil @ replicate n VNil) (length ?x) cis \<and> keeps A B"
    have "runs B g (low @ take (length vs - m) vs @ replicate (m + n) VNil) (length ?x) cis"
      using B by (simp add: replicate_add)
    then show "frame K ext B g low (take (length vs - m) vs) cis \<and> keeps A B"
      using B f' m by (auto simp: frame_def keeps_eqs(2) intro!: exI [of _ "m + n"])
  qed
qed

lemma settop_frame:
  assumes f: "frame K ext A g low vs cis" and s: "stack_spec (List.last cis - length low) (Settop idx) vs = Some ws"
  shows "returns (\<lambda>A'. frame K ext A' g low ws cis \<and> keeps A A') (lua_settop K idx A)"
proof -
  obtain n where f': "good K ext A" "base A = length low" "cis \<noteq> []" "length low + length vs \<le> List.last cis"
    "runs A g (low @ vs @ replicate n VNil) (length low + length vs) cis" "List.last cis + EXTRA_STACK + 1 \<le> length low + length vs + n"
    using frameE [OF f] by metis
  note t = runs_top(1,3) [OF f'(5)]
  show ?thesis
  proof (cases "0 \<le> idx")
    case False
    then have "ws = take (length vs - nat (- (idx + 1))) vs" "- (idx + 1) \<le> int (length vs)" using s by (auto split: if_splits)
    then show ?thesis using pop_frame [OF f, of "nat (- (idx + 1))"] False by (simp add: lua_settop_def t f'(2))
  next
    case True
    define k where "k = nat idx"
    have w: "ws = take k vs @ replicate (k - length vs) VNil" "length low + k \<le> List.last cis"
      using s True f'(4) by (auto simp: k_def split: if_splits)
    define m where "m = length low + length vs - (length low + k)"
    define us where "us = take (length vs - m) vs"
    have us: "us = take k vs" by (cases "k \<le> length vs") (simp_all add: us_def m_def)
    have "returns (\<lambda>A'. frame K ext A' g low ws cis \<and> keeps A A') (bindE (pop_loop K m A) (set_top (thr A) (length low + k)))"
    proof (rule returns_bind [OF pop_frame [OF f]])
      fix B assume B: "frame K ext B g low (take (length vs - m) vs) cis \<and> keeps A B"
      then have "frame K ext B g low us cis" by (simp add: us_def)
      then obtain j where b: "good K ext B" "runs B g (low @ us @ replicate j VNil) (length low + length us) cis"
        "List.last cis + EXTRA_STACK + 1 \<le> length low + length us + j" "length low + length us \<le> List.last cis"
        by (rule frameE)
      have "returns (\<lambda>A'. good K ext A' \<and> runs A' g (low @ us @ replicate j VNil) (length low + k) cis \<and> keeps B A')
        (set_top (thr B) (length low + k) B)"
        by (rule set_top_good [OF b(1,2) f'(3) b(4) w(2)])
      moreover have "\<exists>i. low @ us @ replicate j VNil = low @ ws @ replicate i VNil \<and>
        List.last cis + EXTRA_STACK + 1 \<le> length low + length ws + i"
      proof (cases "k \<le> length vs")
        case True
        then show ?thesis using b(3) by (intro exI [of _ j]) (simp add: w(1) us)
      next
        case False
        then have "replicate j VNil = replicate (k - length vs) VNil @ replicate (j - (k - length vs)) VNil"
          using b(3) w(2) us by (simp flip: replicate_add)
        then show ?thesis using False b(3) w(2) by (intro exI [of _ "j - (k - length vs)"]) (simp add: w(1) us)
      qed
      moreover have "length ws = k" using w by simp
      ultimately show "returns (\<lambda>A'. frame K ext A' g low ws cis \<and> keeps A A') (set_top (thr A) (length low + k) B)"
        using B f'(2,3) w(2) by (auto elim!: returns_mono simp: frame_def keeps_eqs intro: keeps_trans)
    qed (simp add: m_def)
    moreover have "idx \<le> int (length low + length vs + n - EXTRA_STACK - 1) - int (length low)" using w(2) f'(6) True by (simp add: k_def)
    ultimately show ?thesis using True by (simp add: lua_settop_def t f'(2) k_def m_def)
  qed
qed

lemma drop_frame:
  assumes "frame K ext A g low vs cis" "vs \<noteq> []"
  shows "returns (\<lambda>A'. frame K ext A' g low (butlast vs) cis \<and> keeps A A') (drop_top K A)"
proof -
  have "1 \<le> length vs" using assms(2) by (cases vs) auto
  then have "returns (\<lambda>A'. frame K ext A' g low (take (length vs - 1) vs) cis \<and> keeps A A') (pop_loop K 1 A)"
    by (rule pop_frame [OF assms(1)])
  moreover have "pop_loop K 1 A = drop_top K A" by (cases "drop_top K A") simp_all
  ultimately show ?thesis by (simp only: butlast_conv_take)
qed


lemma frameI:
  assumes "good K ext B" "runs B g stk (length low + length ws) cis" "keeps A B" "stk = low @ ws @ replicate n VNil"
    "base A = length low" "cis \<noteq> []" "length low + length ws \<le> List.last cis" "List.last cis + EXTRA_STACK + 1 \<le> length low + length ws + n"
  shows "frame K ext B g low ws cis \<and> keeps A B"
  using assms by (auto simp: frame_def keeps_eqs)

lemma split_at: "p < length vs \<Longrightarrow> vs = take p vs @ vs ! p # drop (p + 1) vs"
  by (simp add: Cons_nth_drop_Suc)

lemma remove_frame:
  assumes f: "frame K ext A g low vs cis" and s: "stack_spec room (Remove idx) vs = Some ws"
  shows "returns (\<lambda>A'. frame K ext A' g low ws cis \<and> keeps A A') (lua_remove K idx A)"
proof -
  obtain p where p: "position idx (length vs) = Some p" "ws = take p vs @ drop (p + 1) vs" using s by auto
  note less = position_less [OF p(1)]
  from f obtain n where f': "good K ext A" "base A = length low" "cis \<noteq> []" "length low + length vs \<le> List.last cis"
    "runs A g (low @ vs @ replicate n VNil) (length low + length vs) cis" "List.last cis + EXTRA_STACK + 1 \<le> length low + length vs + n"
    by (rule frameE)
  let ?x = "low @ take p vs" and ?y = "drop (p + 1) vs"
  define us where "us = take p vs @ ?y @ [List.last (vs ! p # ?y)]"
  have l: "length ?y = length low + length vs - (length low + p) - 1" "length us = length vs" using less by (simp_all add: us_def)
  have "?x @ vs ! p # ?y @ replicate n VNil = low @ (take p vs @ vs ! p # ?y) @ replicate n VNil" by simp
  then have "runs A g (?x @ vs ! p # ?y @ replicate n VNil) (length low + length vs) cis"
    using f'(5) unfolding split_at [OF less, symmetric] by metis
  moreover have "length ?x + length ?y \<le> stack_lim (length low + length vs) cis"
    using less stack_lim_ge(1) [of "length low + length vs" cis] by simp
  ultimately have "returns (\<lambda>B. good K ext B \<and> runs B g (?x @ ?y @ List.last (vs ! p # ?y) # replicate n VNil) (length low + length vs) cis \<and> keeps A B)
    (shift_down K (length ?y) (length ?x) A)"
    by (rule shift_down_good [OF f'(1)])
  moreover have lx: "length ?x = length low + p" using less by simp
  moreover have "?x @ ?y @ List.last (vs ! p # ?y) # replicate n VNil = low @ us @ replicate n VNil" by (simp add: us_def)
  ultimately have sd: "returns (\<lambda>B. good K ext B \<and> runs B g (low @ us @ replicate n VNil) (length low + length us) cis \<and> keeps A B)
    (shift_down K (length low + length vs - (length low + p) - 1) (length low + p) A)"
    by (simp only: l)
  have "returns (\<lambda>B. frame K ext B g low us cis \<and> keeps A B) (shift_down K (length low + length vs - (length low + p) - 1) (length low + p) A)"
    using sd
  proof (rule returns_mono)
    fix B assume B: "good K ext B \<and> runs B g (low @ us @ replicate n VNil) (length low + length us) cis \<and> keeps A B"
    show "frame K ext B g low us cis \<and> keeps A B"
      by (rule frameI [where n = n, OF _ _ _ refl]) (use B f' l(2) in auto)
  qed
  then have "returns (\<lambda>A'. frame K ext A' g low (butlast us) cis \<and> keeps A A')
    (bindE (shift_down K (length low + length vs - (length low + p) - 1) (length low + p) A) (drop_top K))"
  proof (rule returns_bind)
    fix B assume B: "frame K ext B g low us cis \<and> keeps A B"
    moreover have "us \<noteq> []" by (simp add: us_def)
    ultimately show "returns (\<lambda>A'. frame K ext A' g low (butlast us) cis \<and> keeps A A') (drop_top K B)"
      using drop_frame by (blast intro: returns_mono keeps_trans)
  qed
  moreover have "butlast us = ws" by (simp add: us_def p(2) butlast_append)
  ultimately show ?thesis by (simp add: lua_remove_def stack_index_def index2adr_position [OF f p(1)] runs_top(1) [OF f'(5)])
qed

lemma insert_frame:
  assumes f: "frame K ext A g low vs cis" and s: "stack_spec room (Insert idx) vs = Some ws"
  shows "returns (\<lambda>A'. frame K ext A' g low ws cis \<and> keeps A A') (lua_insert K idx A)"
proof -
  obtain p where p: "position idx (length vs) = Some p" "ws = take p vs @ List.last vs # drop p (butlast vs)" using s by auto
  note less = position_less [OF p(1)]
  from f obtain n where f': "good K ext A" "base A = length low" "cis \<noteq> []" "length low + length vs \<le> List.last cis"
    "runs A g (low @ vs @ replicate n VNil) (length low + length vs) cis" "List.last cis + EXTRA_STACK + 1 \<le> length low + length vs + n"
    by (rule frameE)
  obtain k where n: "n = Suc k" using f'(4,6) by (cases n) auto
  let ?t = "length low + length vs" and ?x = "low @ take p vs" and ?y = "drop p vs" and ?r = "replicate k VNil"
  obtain zs z where y: "?y = zs @ [z]" using less by (metis append_butlast_last_id drop_eq_Nil not_le)
  have z: "z = List.last vs" "zs = drop p (butlast vs)" "length vs = p + length zs + 1"
  proof -
    have vs: "vs = take p vs @ zs @ [z]" by (metis y append_take_drop_id)
    show "z = List.last vs" by (subst vs) simp
    have "drop p (butlast vs) = drop p (take p vs @ zs)" by (metis vs append.assoc butlast_snoc)
    then show "zs = drop p (butlast vs)" using less by simp
    show "length vs = p + length zs + 1" using less by (subst vs) simp
  qed
  have lim: "?t \<le> stack_lim ?t cis" "length low + p \<le> stack_lim ?t cis" using stack_lim_ge(1) [of ?t cis] less by simp_all
  have len: "length ?y = ?t - (length low + p)" "length ?x = length low + p" using less by simp_all
  have "low @ vs @ replicate n VNil = ?x @ ?y @ VNil # ?r" by (simp add: n)
  then have "runs A g (?x @ ?y @ VNil # ?r) ?t cis" using f'(5) by simp
  then have "returns (\<lambda>B. good K ext B \<and> runs B g (?x @ hd (?y @ [VNil]) # ?y @ ?r) ?t cis \<and> keeps A B) (shift_up K (length ?y) (length ?x) A)"
    by (rule shift_up_good [OF f'(1)]) (use less lim in simp)
  then have "returns (\<lambda>A'. frame K ext A' g low ws cis \<and> keeps A A') (bindE (shift_up K (length ?y) (length ?x) A) (\<lambda>A.
      bindE (copy_slot K (length low + p) ?t A) (setnilvalue K (Stack (thr A) ?t))))"
  proof (rule returns_bind)
    fix B assume B: "good K ext B \<and> runs B g (?x @ hd (?y @ [VNil]) # ?y @ ?r) ?t cis \<and> keeps A B"
    let ?s = "?x @ hd (?y @ [VNil]) # ?y @ ?r"
    have s: "?s ! ?t = z" "?s[length low + p := z] = ?x @ z # zs @ z # ?r" using less z(3) by (simp_all add: y nth_append list_update_append)
    have "returns (\<lambda>C. good K ext C \<and> runs C g (?x @ z # zs @ z # ?r) ?t cis \<and> keeps B C) (copy_slot K (length low + p) ?t B)"
      using copy_slot_good [of K ext B g ?s ?t cis ?t "length low + p"] B lim unfolding s by simp
    then have "returns (\<lambda>A'. frame K ext A' g low ws cis \<and> keeps A A') (bindE (copy_slot K (length low + p) ?t B) (setobj K (Stack (thr B) ?t) VNil))"
    proof (rule returns_bind)
      fix C assume C: "good K ext C \<and> runs C g (?x @ z # zs @ z # ?r) ?t cis \<and> keeps B C"
      have u: "(?x @ z # zs @ z # ?r)[?t := VNil] = low @ ws @ replicate n VNil"
        using less z(3) by (simp add: p(2) z(1,2) [symmetric] n list_update_append)
      have "thr C = thr B" using C keeps_eqs(1) by blast
      then have "returns (\<lambda>D. good K ext D \<and> runs D g (low @ ws @ replicate n VNil) ?t cis \<and> keeps C D) (setobj K (Stack (thr B) ?t) VNil C)"
        using stack_write [of K ext C g _ ?t cis ?t VNil] C lim(1) unfolding u [symmetric] by simp
      moreover have "length ws = length vs" using less z(3) by (simp add: p(2) z(2) [symmetric])
      ultimately show "returns (\<lambda>A'. frame K ext A' g low ws cis \<and> keeps A A') (setobj K (Stack (thr B) ?t) VNil C)"
        using B C f' by (elim returns_mono, intro frameI [of _ _ _ _ _ _ _ _ _ n]) (auto intro: keeps_trans)
    qed
    then show "returns (\<lambda>A'. frame K ext A' g low ws cis \<and> keeps A A')
      (bindE (copy_slot K (length low + p) ?t B) (setnilvalue K (Stack (thr B) ?t)))" by (simp add: setnilvalue_setobj)
  qed
  then show ?thesis unfolding len
    by (simp add: lua_insert_def stack_index_def index2adr_position [OF f p(1)] runs_top(1) [OF f'(5)])
qed

lemma replace_frame:
  assumes f: "frame K ext A g low vs cis" and s: "stack_spec room (Replace idx) vs = Some ws"
  shows "returns (\<lambda>A'. frame K ext A' g low ws cis \<and> keeps A A') (lua_replace K idx A)"
proof -
  obtain p where p: "position idx (length vs) = Some p" "ws = butlast (vs[p := List.last vs])" using s by auto
  note less = position_less [OF p(1)]
  from f obtain n where f': "good K ext A" "base A = length low" "cis \<noteq> []" "length low + length vs \<le> List.last cis"
    "runs A g (low @ vs @ replicate n VNil) (length low + length vs) cis" "List.last cis + EXTRA_STACK + 1 \<le> length low + length vs + n"
    by (rule frameE)
  let ?t = "length low + length vs" and ?v = "List.last vs"
  have idx: "LUA_REGISTRYINDEX < idx" using p(1) by (auto simp: position_def pseudo_defs split: if_splits)
  have ne: "vs \<noteq> []" using less by auto
  have "?t - 1 = length low + (length vs - 1)" using ne by (cases vs) auto
  then have r: "(low @ vs @ replicate n VNil) ! (?t - 1) = ?v" using ne by (simp only: nth_append_length_plus) (simp add: nth_append last_conv_nth)
  have cn: "checknelems 1 A = Inr ?t" using f'(2) less by (simp add: checknelems_def runs_top(1) [OF f'(5)])
  have lt: "?t - 1 < length (low @ vs @ replicate n VNil)" using less unfolding length_append by linarith
  then have tv: "top_value A = Inr ?v"
    unfolding top_value_def cn read_slot_def bindE_simps aslot.case runs_thread [OF f'(5)] prod.case r by (simp only: if_True)
  have lim: "?t - 1 \<le> stack_lim ?t cis" "length low + p \<le> stack_lim ?t cis" using stack_lim_ge(1) [of ?t cis] less by simp_all
  have "alive ((low @ vs @ replicate n VNil) ! (?t - 1)) A" by (rule stack_alive(1) [OF f'(1,5) lim(1) lt])
  then have "returns (\<lambda>B. good K ext B \<and> runs B g ((low @ vs @ replicate n VNil)[length low + p := ?v]) ?t cis \<and> keeps A B)
    (setobj K (Stack (thr A) (length low + p)) ?v A)"
    using stack_write [OF f'(1,5) lim(2)] unfolding r by blast
  then have "returns (\<lambda>B. frame K ext B g low (vs[p := ?v]) cis \<and> keeps A B) (setobj K (Stack (thr A) (length low + p)) ?v A)"
    using f' less by (elim returns_mono, intro frameI [of _ _ _ _ _ _ _ _ _ n]) (auto simp: list_update_append)
  then have "returns (\<lambda>A'. frame K ext A' g low ws cis \<and> keeps A A')
    (bindE (setobj K (Stack (thr A) (length low + p)) ?v A) (drop_top K))"
  proof (rule returns_bind)
    fix B assume B: "frame K ext B g low (vs[p := ?v]) cis \<and> keeps A B"
    moreover have "vs[p := ?v] \<noteq> []" using ne by simp
    ultimately show "returns (\<lambda>A'. frame K ext A' g low ws cis \<and> keeps A A') (drop_top K B)"
      unfolding p(2) using drop_frame by (blast intro: returns_mono keeps_trans)
  qed
  then show ?thesis
    using idx cn by (simp add: lua_replace_def valid_at_def value_at_position [OF f p(1)] tv runs_thread [OF f'(5)] pseudo_defs bindE_assoc)
qed


lemma run_op_frame:
  assumes f: "frame K ext A g low vs cis" and s: "stack_spec (List.last cis - length low) op vs = Some ws"
  shows "returns (\<lambda>A'. frame K ext A' g low ws cis \<and> keeps A A') (run_op K op A)"
proof (cases op)
  case (Push v)
  then have "ws = vs @ [v]" "length low + length vs < List.last cis" "alive v A" using s by (auto simp: alive_def split: if_splits)
  then show ?thesis using push_frame [OF f] Push by simp
next
  case (Pushvalue idx)
  then obtain p where p: "position idx (length vs) = Some p" "ws = vs @ [vs ! p]" "length low + length vs < List.last cis"
    using s by (auto split: option.splits if_splits)
  from f obtain n where f': "good K ext A" "runs A g (low @ vs @ replicate n VNil) (length low + length vs) cis" by (rule frameE)
  have "length low + p \<le> stack_lim (length low + length vs) cis"
    using position_less [OF p(1)] stack_lim_ge(1) [of "length low + length vs" cis] by simp
  moreover have "(low @ vs @ replicate n VNil) ! (length low + p) = vs ! p" using position_less [OF p(1)] by (simp add: nth_append)
  ultimately have "alive (vs ! p) A" using stack_alive(1) [OF f', of "length low + p"] position_less [OF p(1)] by simp
  then show ?thesis using push_frame [OF f _ p(3)] Pushvalue by (simp add: p(2) lua_pushvalue_def value_at_position [OF f p(1)])
qed (use assms settop_frame remove_frame insert_frame replace_frame in simp_all)

fun run_ops :: "rcenv \<Rightarrow> stack_op list \<Rightarrow> lua_api \<Rightarrow> lua_err + lua_api" where
  "run_ops K [] A = Inr A"
| "run_ops K (op # ops) A = bindE (run_op K op A) (run_ops K ops)"

fun stack_specs :: "nat \<Rightarrow> stack_op list \<Rightarrow> TValue list \<Rightarrow> TValue list option" where
  "stack_specs room [] vs = Some vs"
| "stack_specs room (op # ops) vs = (case stack_spec room op vs of None \<Rightarrow> None | Some ws \<Rightarrow> stack_specs room ops ws)"

lemma run_ops_frame:
  "frame K ext A g low vs cis \<Longrightarrow> stack_specs (List.last cis - length low) ops vs = Some ws \<Longrightarrow>
   returns (\<lambda>A'. frame K ext A' g low ws cis \<and> keeps A A') (run_ops K ops A)"
proof (induction ops arbitrary: A vs)
  case (Cons op ops)
  from Cons.prems(2) obtain us where us: "stack_spec (List.last cis - length low) op vs = Some us" "stack_specs (List.last cis - length low) ops us = Some ws"
    by (auto split: option.splits)
  have "returns (\<lambda>A'. frame K ext A' g low us cis \<and> keeps A A') (run_op K op A)" by (rule run_op_frame [OF Cons.prems(1) us(1)])
  then show ?case unfolding run_ops.simps
    by (rule returns_bind) (use Cons.IH us(2) in \<open>blast intro: returns_mono keeps_trans\<close>)
qed simp



section \<open>A small state\<close>

text \<open>The main thread 1, with the globals 3, runs a C function called from the host with the values 0 and the table 4.\<close>

definition call_heap :: gstate where
  "call_heap = \<lparr>objs = [
       4 \<mapsto> an_object (Some 3) None 1 1 (OTable bare_table None),
       3 \<mapsto> an_object (Some 1) (Some 4) 1 1 (OTable bare_table None),
       1 \<mapsto> an_object None (Some 3) 0 33 (OThread (VTable 3) ([VNil] @ [VNumber 0, VTable 4] @ replicate 30 VNil) 3 [21] [])],
     strt = empty_strtab, rootgc = Some 4, gray = None, grayagain = None, weak = None, tmudata = None,
     gcstate = GCSpause, sweepgc = At_root, mainthread = 1, uvhead = []\<rparr>"

definition call_state :: lua_api where
  "call_state = \<lparr>gs = call_heap, thr = 1, base = 1, cfunc = 0, lenv = VNil, lreg = VNil, mts = replicate 9 None\<rparr>"

lemma values_of_nils: "values_of (replicate n VNil) = []" "values_of (VNil # vs) = values_of vs"
  by (simp_all add: values_of_def tested_def)

lemma call_heap_body: "body_of call_heap a = (if a = 1 then Some (OThread (VTable 3) ([VNil] @ [VNumber 0, VTable 4] @ replicate 30 VNil) 3 [21] [])
    else if a = 3 \<or> a = 4 then Some (OTable bare_table None) else None)"
  by (auto simp: body_of_def call_heap_def an_object_def)

lemma call_heap_members:
  "members (OThread (VTable 3) ([VNil] @ [VNumber 0, VTable 4] @ replicate 30 VNil) 3 [21] []) = [Some 3, Some 4]"
  "members (OTable bare_table None) = []"
proof -
  have "take 22 ([VNil] @ [VNumber 0, VTable 4] @ replicate 30 VNil) = VNil # VNumber 0 # VTable 4 # replicate 19 VNil"
    by (simp add: take_Cons')
  then show "members (OThread (VTable 3) ([VNil] @ [VNumber 0, VTable 4] @ replicate 30 VNil) 3 [21] []) = [Some 3, Some 4]"
    by (simp add: stack_lim_def) (simp add: values_of_def tested_def)
qed (simp add: bare_table_def node_members_def dummynode_def values_of_def tested_def)

lemma call_frame: "frame (9, no_gc) (\<lambda>a. 0) call_state (VTable 3) [VNil] [VNumber 0, VTable 4] [21]"
proof -
  have d: "dom (objs call_heap) = {1, 3, 4}" "st_heap (strt call_heap) = (\<lambda>_. None)" by (auto simp: call_heap_def empty_strtab_def)
  have lv: "live call_heap = {1, 3, 4}" by (simp add: live_def d)
  have o: "out call_heap 1 = [3, 4]" "out call_heap 3 = []" "out call_heap 4 = []"
    unfolding out_def call_heap_body by (simp_all add: call_heap_members del: members.simps append.simps)
  have i: "indeg call_heap {} a = (if a = 3 \<or> a = 4 then 1 else 0)" for a by (auto simp: indeg_def d o)
  have r: "refcount call_heap 1 = 0" "refcount call_heap 3 = 1" "refcount call_heap 4 = 1"
    by (simp_all add: refcount_def call_heap_def an_object_def empty_strtab_def)
  have f: "is_fixed call_heap 1"
    by (simp add: is_fixed_def mark_of_def call_heap_def an_object_def empty_strtab_def testbit_def FIXEDBIT_def)
  have p: "plain call_heap a" for a
    unfolding plain_def call_heap_body by (auto simp: call_heap_members stack_covers_def stack_lim_def simp del: members.simps append.simps)
  have b: "base_ok call_heap {}"
    using p empty_strtab_ok by (simp add: base_ok_def d) (simp add: call_heap_def gcstate_defs)
  have m: "mainthread call_heap = 1" "gcstate call_heap = GCSpause" by (simp_all add: call_heap_def)
  have "root_list call_heap ([4, 3] @ 1 # [])" by (simp add: root_list_def links_def call_heap_def an_object_def)
  moreover have "{x \<in> {1, 3, 4} - {}. \<not> is_open call_heap x} = {1, 3, 4}" by (auto simp: is_open_def call_heap_body)
  ultimately have l: "lists_ok call_heap {}"
    unfolding lists_ok_def d m using f
    by (intro conjI exI [of _ "[4, 3]"] exI [of _ "[]"]) (auto simp: is_udata_def call_heap_body gcstate_defs)
  have "tight call_heap {}" using f by (simp add: tight_def lv r)
  moreover have "counts_ok call_heap {} (\<lambda>a. 0)" by (simp add: counts_ok_def d o lv i r)
  moreover have rt: "roots call_state = (\<lambda>a. 0)" by (simp add: roots_def call_state_def slot_ref_def fun_eq_iff count_list_0_iff)
  moreover have g: "gs call_state = call_heap" "thr call_state = 1" "base call_state = 1" by (simp_all add: call_state_def)
  ultimately have "good (9, no_gc) (\<lambda>a. 0) call_state" using b l by (simp add: good_def heap_inv_def heap_ok_def no_gc_def lv m)
  moreover have "runs call_state (VTable 3) ([VNil] @ [VNumber 0, VTable 4] @ replicate 30 VNil) 3 [21]"
    by (simp add: runs_def g call_heap_body)
  ultimately show ?thesis unfolding frame_def by (intro conjI exI [of _ 30]) (simp_all add: g EXTRA_STACK_def numeral_3_eq_3)
qed



section \<open>A reference that nobody holds\<close>

lemma forget_frame:
  assumes f: "frame K ext A g low (vs @ [v]) cis"
  shows "returns (\<lambda>A'. frame K (\<lambda>a. ext a + slot_ref v a) A' g low vs cis \<and> keeps A A') (forget_top A)"
proof -
  from f obtain n where f': "good K ext A" "base A = length low" "cis \<noteq> []" "length low + length (vs @ [v]) \<le> List.last cis"
    "runs A g (low @ (vs @ [v]) @ replicate n VNil) (length low + length (vs @ [v])) cis"
    "List.last cis + EXTRA_STACK + 1 \<le> length low + length (vs @ [v]) + n"
    by (rule frameE)
  let ?s = "low @ (vs @ [v]) @ replicate n VNil" and ?s' = "low @ vs @ replicate (Suc n) VNil" and ?t = "length low + length vs"
  have t: "length low + length (vs @ [v]) = ?t + 1" by simp
  have u: "?s[?t := VNil] = ?s'" "?s ! ?t = v" "?t < length ?s" by (simp_all add: list_update_append nth_append)
  have lim: "?t \<le> stack_lim (?t + 1) cis" using stack_lim_ge(1) [of "?t + 1" cis] by simp
  note r = f'(5) [unfolded t]
  obtain ob where ob: "objs (gs A) (thr A) = Some ob" "o_body ob = OThread g ?s (?t + 1) cis []"
    using r by (auto simp: runs_def body_of_def)
  define c where "c = OThread g ?s' (?t + 1) cis []"
  let ?e = "\<lambda>a. ext a + slot_ref v a"
  let ?B = "A\<lparr>gs := put_obj (thr A) (ob\<lparr>o_body := c\<rparr>) (gs A)\<rparr>"
  note e = put_body_eqs [OF ob(1), of c]
  have "heap_inv (gs ?B) (\<lambda>a. ?e a + roots A a)"
  proof (rule put_body_inv [OF good_parts(5) [OF f'(1)] ob(1)])
    have "plain (gs A) (thr A)" using good_parts(1) [OF f'(1)] by (simp add: base_ok_def)
    then show "plain (gs ?B) (thr A)"
      using r by (simp add: plain_def runs_def e) (simp add: c_def stack_covers_def)
    show "is_open (gs ?B) (thr A) = is_open (gs A) (thr A)" "is_udata (gs ?B) (thr A) = is_udata (gs A) (thr A)"
      using r by (simp_all add: is_open_def is_udata_def runs_def e) (simp_all add: c_def)
    have "count_list (map the (values_of (take (Suc (stack_lim (?t + 1) cis)) ?s'))) x + slot_ref v x =
      count_list (map the (values_of (take (Suc (stack_lim (?t + 1) cis)) ?s))) x" for x
      using count_values_take [OF u(3) lim, of VNil x] unfolding u(1,2) by (simp add: slot_ref_def)
    then have m: "count_list (map the (members c)) x + slot_ref v x = count_list (map the (members (OThread g ?s (?t + 1) cis []))) x" for x
      unfolding c_def members.simps count_values_Cons add.assoc by (rule arg_cong)
    have o: "out (gs A) (thr A) = map the (members (OThread g ?s (?t + 1) cis []))"
      using r unfolding out_def runs_def by simp
    show "?e x + roots A x + count_list (map the (members c)) x = ext x + roots A x + count_list (out (gs A) (thr A)) x" for x
      unfolding o m [symmetric] by simp
  qed simp
  moreover have "roots ?B = roots A" by (simp add: roots_def fun_eq_iff)
  ultimately have "good K ?e ?B" using f'(1) by (auto simp: good_def e)
  moreover have "body_of (gs ?B) (thr A) = Some c" by (simp add: e)
  then have "runs ?B g ?s' (?t + 1) cis" by (simp add: runs_def c_def)
  moreover have "keeps A ?B" by (simp add: keeps_def e)
  ultimately have B: "good K ?e ?B" "runs ?B g ?s' (?t + 1) cis" "keeps A ?B" by blast+
  have "returns (\<lambda>A'. good K ?e A' \<and> runs A' g ?s' ?t cis \<and> keeps ?B A') (set_top (thr A) ?t ?B)"
    using set_top_good [OF B(1,2) f'(3), of ?t] f'(4) by simp
  then have "returns (\<lambda>A'. frame K ?e A' g low vs cis \<and> keeps A A') (set_top (thr A) ?t ?B)"
  proof (rule returns_mono)
    fix A' assume A': "good K ?e A' \<and> runs A' g ?s' ?t cis \<and> keeps ?B A'"
    show "frame K ?e A' g low vs cis \<and> keeps A A'"
      by (rule frameI [where n = "Suc n", OF _ _ _ refl]) (use A' B(3) f' keeps_trans in auto)
  qed
  moreover have "store_slot (Stack (thr A) ?t) VNil A = Inr ?B"
    using ob u(3) unfolding store_slot_def aslot.case runs_thread [OF r] bindE_simps prod.case u(1)
    by (simp only: if_True set_body_def lift_gs_def upd_obj_ok c_def bindE_simps)
  moreover have "get_top (thr A) A = Inr (?t + 1)" by (rule runs_top(1) [OF r])
  ultimately show ?thesis by (simp add: forget_top_def)
qed

text \<open>
  C34. \<open>lua_setfenv\<close> on a value that has no environment fails (it returns 0) but still takes the table off the stack
  without dropping the stack's reference, as it does when the table has become an environment: the counts
  that are left are exact only with one reference to the table that nobody holds, so the table is never
  released.
\<close>

theorem setfenv_leaks:
  assumes "frame K ext A g low (vs @ [v, VTable t]) cis" "\<forall>a. v \<noteq> VFunction a \<and> v \<noteq> VUserdata a \<and> v \<noteq> VThread a"
    "int (length vs) < 9998"
  shows "\<exists>A'. lua_setfenv K (- 2) A = Inr (False, A') \<and> frame K (ext(t := ext t + 1)) A' g low (vs @ [v]) cis"
proof -
  have f: "frame K ext A g low ((vs @ [v]) @ [VTable t]) cis" using assms(1) by simp
  from assms(1) obtain n where f': "base A = length low"
    "runs A g (low @ (vs @ [v, VTable t]) @ replicate n VNil) (length low + length (vs @ [v, VTable t])) cis" by (rule frameE)
  have p: "position (- 2) (length (vs @ [v, VTable t])) = Some (length vs)" by (simp add: position_def pseudo_defs)
  have v: "value_at K (- 2) A = Inr (Stack (thr A) (length low + length vs), v, A)" using value_at_position [OF assms(1) p] by (simp add: nth_append)
  have c: "checknelems 1 A = Inr (length low + length vs + 2)"
    using f'(1) by (simp add: checknelems_def runs_top(1) [OF f'(2)])
  then have m: "top_value A = Inr (VTable t)" unfolding top_value_def c read_slot_def by (simp add: runs_thread [OF f'(2)] nth_append)
  have "(\<lambda>a. ext a + slot_ref (VTable t) a) = ext(t := ext t + 1)" by (auto simp: slot_ref_def fun_eq_iff)
  then obtain A' where A': "forget_top A = Inr A'" "frame K (ext(t := ext t + 1)) A' g low (vs @ [v]) cis"
    using forget_frame [OF f] by (auto simp: returns_def)
  have "lua_setfenv K (- 2) A = Inr (False, A')"
    unfolding lua_setfenv_def c valid_at_def v bindE_simps prod.case
    using A'(1) m assms(2) by (cases v) simp_all
  then show ?thesis using A'(2) by blast
qed

theorem setfenv_leaks_witness:
  "\<exists>A'. lua_setfenv (9, no_gc) (- 2) call_state = Inr (False, A') \<and> frame (9, no_gc) ((\<lambda>a. 0)(4 := 1)) A' (VTable 3) [VNil] [VNumber 0] [21]"
  using setfenv_leaks [of "(9, no_gc)" "\<lambda>a. 0" call_state "VTable 3" "[VNil]" "[]" "VNumber 0" 4 "[21]"] call_frame by simp


section \<open>A slot that is not emptied\<close>

text \<open>The main thread runs a C function with a C closure 2, which has one upvalue, and \<open>true\<close> on its stack.\<close>

definition upvalue_state :: lua_api where
  "upvalue_state = \<lparr>gs = \<lparr>objs = [
       2 \<mapsto> an_object (Some 3) None 1 1 (OCClosure (Some 3) [VNil]),
       3 \<mapsto> an_object (Some 1) (Some 2) 2 1 (OTable bare_table None),
       1 \<mapsto> an_object None (Some 3) 0 33 (OThread (VTable 3)
         [VNil, VFunction 2, VBoolean 1, VNil, VNil, VNil, VNil, VNil, VNil, VNil, VNil, VNil] 3 [5] [])],
     strt = empty_strtab, rootgc = Some 2, gray = None, grayagain = None, weak = None, tmudata = None,
     gcstate = GCSpause, sweepgc = At_root, mainthread = 1, uvhead = []\<rparr>,
     thr = 1, base = 1, cfunc = 0, lenv = VNil, lreg = VNil, mts = replicate 9 None\<rparr>"

text \<open>
  C35. \<open>lua_setupvalue\<close> pops the value but leaves it in its slot, the only function of the interface that does: the
  slot above the top is not nil any more, and \<open>lua_settop\<close> to a higher index, which relies on that, gives the
  caller the old value where the interface promises nil.
\<close>

theorem setupvalue_leaves_value:
  "\<exists>A1 A2. lua_setupvalue K (- 2) 1 upvalue_state = Inr (Some [], A1) \<and> lua_gettop A1 = Inr 1 \<and>
     lua_settop K 2 A1 = Inr A2 \<and> lua_gettop A2 = Inr 2 \<and> top_value A2 = Inr (VBoolean 1)"
proof -
  note defs = value_at_def index2adr_def get_top_def ci_top_def thread_of_def body_def get_obj_def upvalue_state_def an_object_def
    pseudo_defs read_slot_def checknelems_def aux_upvalue_def top_value_def setobj_def store_slot_def set_body_def lift_gs_def
    upd_obj_def put_obj_def do_rc_def rc_setobj_def luarc_addref_def luarc_subref_def luaC_barrier_def set_top_def
    lua_gettop_def stack_last_def EXTRA_STACK_def
  define A1 where "A1 = (case lua_setupvalue K (- 2) 1 upvalue_state of Inr (nm, A) \<Rightarrow> A | Inl e \<Rightarrow> undefined)"
  have 1: "lua_setupvalue K (- 2) 1 upvalue_state = Inr (Some [], A1)" unfolding A1_def by (simp add: lua_setupvalue_def defs)
  define A2 where "A2 = (case lua_settop K 2 A1 of Inr A \<Rightarrow> A | Inl e \<Rightarrow> undefined)"
  have 2: "lua_settop K 2 A1 = Inr A2" unfolding A2_def A1_def by (simp add: lua_setupvalue_def lua_settop_def defs)
  have "lua_gettop A1 = Inr 1" "lua_gettop A2 = Inr 2" "top_value A2 = Inr (VBoolean 1)"
    unfolding A2_def A1_def by (simp_all add: lua_setupvalue_def lua_settop_def defs)
  then show ?thesis using 1 2 by blast
qed

end
