(* ===== verification/Lua_Code.thy ===== *)
theory Lua_Code
  imports Lua_CodeCheck Lua_Lex Lua_Table
begin

text \<open>
  The code generator, \<^verbatim>\<open>lcode.c\<close>, with the types of \<^verbatim>\<open>lparser.h\<close> it works on.

  \<open>FuncState\<close> is the C structure together with the prototype being built (\<open>fs->f\<close>), the lexical state
  (\<open>fs->ls\<close>) and the blocks of \<^verbatim>\<open>lparser.c\<close>.  \<open>f_code\<close>, \<open>f_lineinfo\<close> and \<open>f_k\<close> are the used parts of the arrays: \<open>pc\<close> and
  \<open>nk\<close> are their lengths, and the \<open>size\<close> fields the lengths of the allocated vectors.  An access outside the
  used part is \<open>UB\<close>, as is \<open>luaP_opmodes\<close> read behind its end.  The increments and decrements of reference
  counts are logged in \<open>fs_rcs\<close>, in their order; the colours of the collector are left out (\<open>luaC_barrier\<close>).

  A list of jumps is threaded through the offsets of the jump instructions.  A loop over such a list gets
  one step more than there are instructions; a list that is not exhausted by then has a cycle, and the C
  loop does not end: \<open>UB ''jump list''\<close>.

  The arithmetic of \<open>double\<close>, the allocator and the hash of a string are parameters (\<open>cenv\<close>); negation,
  comparison and the NaN test are those of \<^verbatim>\<open>Lua_Object\<close>.
\<close>

section \<open>Data\<close>

definition NO_JUMP :: int where "NO_JUMP = - 1"
definition LFIELDS_PER_FLUSH :: int where "LFIELDS_PER_FLUSH = 50"

datatype BinOpr =
    OPR_ADD | OPR_SUB | OPR_MUL | OPR_DIV | OPR_MOD | OPR_POW
  | OPR_CONCAT
  | OPR_NE | OPR_EQ
  | OPR_LT | OPR_LE | OPR_GT | OPR_GE
  | OPR_AND | OPR_OR
  | OPR_NOBINOPR

datatype UnOpr = OPR_MINUS | OPR_NOT | OPR_LEN | OPR_NOUNOPR

datatype expkind =
    VVOID | VNIL | VTRUE | VFALSE | VK | VKNUM | VLOCAL | VUPVAL | VGLOBAL | VINDEXED
  | VJMP | VRELOCABLE | VNONRELOC | VCALL | VVARARG

text \<open>The members of the union \<open>u\<close> are kept apart: the kind says which one is in use.\<close>

record expdesc =
  ek :: expkind
  einfo :: int
  eaux :: int
  enval :: lua_Number
  et :: int
  ef :: int

record upvaldesc =
  uvk :: expkind
  uvinfo :: int

record BlockCnt =
  breaklist :: int
  bl_nactvar :: int
  bl_upval :: bool
  isbreakable :: bool

record FuncState =
  f_code :: "Instruction list"
  f_sizecode :: int
  f_lineinfo :: "int list"
  f_sizelineinfo :: int
  f_k :: "TValue list"
  f_sizek :: int
  f_p :: "Proto list"
  f_sizep :: int
  f_locvars :: "LocVar list"
  f_sizelocvars :: int
  f_upvalues :: "string option list"
  f_sizeupvalues :: int
  f_linedefined :: int
  f_lastlinedefined :: int
  f_numparams :: int
  f_is_vararg :: u8
  f_maxstacksize :: int
  fs_h :: Table
  fs_haddr :: addr
  fs_ls :: LexState
  fs_bl :: "BlockCnt list"
  lasttarget :: int
  fs_jpc :: int
  fs_freereg :: int
  nactvar :: int
  fs_upvalues :: "upvaldesc list"
  actvar :: "nat list"
  fs_mem :: mem_state
  fs_rcs :: "rc list"

record cenv =
  ce_mem :: allocator
  ce_hash :: "addr \<Rightarrow> u32"
  luai_numadd :: "lua_Number \<Rightarrow> lua_Number \<Rightarrow> lua_Number"
  luai_numsub :: "lua_Number \<Rightarrow> lua_Number \<Rightarrow> lua_Number"
  luai_nummul :: "lua_Number \<Rightarrow> lua_Number \<Rightarrow> lua_Number"
  luai_numdiv :: "lua_Number \<Rightarrow> lua_Number \<Rightarrow> lua_Number"
  luai_numpow :: "lua_Number \<Rightarrow> lua_Number \<Rightarrow> lua_Number"
  num_floor :: "lua_Number \<Rightarrow> lua_Number"

definition luai_nummod :: "'e cenv_scheme \<Rightarrow> lua_Number \<Rightarrow> lua_Number \<Rightarrow> lua_Number" where
  "luai_nummod E a b = luai_numsub E a (luai_nummul E (num_floor E (luai_numdiv E a b)) b)"

definition luai_numunm :: "lua_Number \<Rightarrow> lua_Number" where
  "luai_numunm a = a XOR push_bit 63 1"

definition hasjumps :: "expdesc \<Rightarrow> bool" where
  "hasjumps e = (et e \<noteq> ef e)"

definition isnumeral :: "expdesc \<Rightarrow> bool" where
  "isnumeral e = (ek e = VKNUM \<and> et e = NO_JUMP \<and> ef e = NO_JUMP)"

section \<open>Instructions\<close>

definition pc :: "'a FuncState_scheme \<Rightarrow> int" where
  "pc fs = int (length (f_code fs))"

definition nk :: "'a FuncState_scheme \<Rightarrow> int" where
  "nk fs = int (length (f_k fs))"

definition code_get :: "int \<Rightarrow> 'a FuncState_scheme \<Rightarrow> lua_err + Instruction" where
  "code_get i fs = (if 0 \<le> i \<and> i < pc fs then Inr (f_code fs ! nat i) else Inl (UB ''code''))"

definition code_put :: "int \<Rightarrow> Instruction \<Rightarrow> 'a FuncState_scheme \<Rightarrow> lua_err + 'a FuncState_scheme" where
  "code_put i x fs =
     (if 0 \<le> i \<and> i < pc fs then Inr (fs\<lparr>f_code := (f_code fs)[nat i := x]\<rparr>) else Inl (UB ''code''))"

definition code_upd :: "int \<Rightarrow> (Instruction \<Rightarrow> Instruction) \<Rightarrow> 'a FuncState_scheme \<Rightarrow> lua_err + 'a FuncState_scheme" where
  "code_upd i f fs = bindE (code_get i fs) (\<lambda>x. code_put i (f x) fs)"

definition getcode :: "expdesc \<Rightarrow> 'a FuncState_scheme \<Rightarrow> lua_err + Instruction" where
  "getcode e fs = code_get (einfo e) fs"

definition is_test :: "Instruction \<Rightarrow> lua_err + bool" where
  "is_test i = (if GET_OPCODE i < NUM_OPCODES then Inr (testTMode (GET_OPCODE i)) else Inl (UB ''luaP_opmodes''))"

section \<open>Jump lists\<close>

definition fixjump :: "int \<Rightarrow> int \<Rightarrow> 'a FuncState_scheme \<Rightarrow> lua_err + 'a FuncState_scheme" where
  "fixjump at dest fs =
     bindE (code_get at fs) (\<lambda>jmp.
       let offset = dest - (at + 1) in
       if \<bar>offset\<bar> > MAXARG_sBx then luaX_syntaxerror (fs_ls fs) ''control structure too long''
       else code_put at (SETARG_sBx jmp offset) fs)"

definition luaK_getlabel :: "'a FuncState_scheme \<Rightarrow> int \<times> 'a FuncState_scheme" where
  "luaK_getlabel fs = (pc fs, fs\<lparr>lasttarget := pc fs\<rparr>)"

definition getjump :: "int \<Rightarrow> 'a FuncState_scheme \<Rightarrow> lua_err + int" where
  "getjump at fs =
     bindE (code_get at fs) (\<lambda>i.
       let offset = GETARG_sBx i in Inr (if offset = NO_JUMP then NO_JUMP else at + 1 + offset))"

text \<open>The position of the instruction that controls a jump.\<close>

definition getjumpcontrol :: "int \<Rightarrow> 'a FuncState_scheme \<Rightarrow> lua_err + int" where
  "getjumpcontrol at fs =
     (if at \<ge> 1 then
        bindE (code_get (at - 1) fs) (\<lambda>i. bindE (is_test i) (\<lambda>b. Inr (if b then at - 1 else at)))
      else Inr at)"

fun need_value_loop :: "nat \<Rightarrow> int \<Rightarrow> 'a FuncState_scheme \<Rightarrow> lua_err + bool" where
  "need_value_loop 0 l fs = Inl (UB ''jump list'')"
| "need_value_loop (Suc n) l fs =
     (if l = NO_JUMP then Inr False
      else
        bindE (getjumpcontrol l fs) (\<lambda>c.
        bindE (code_get c fs) (\<lambda>i.
          if GET_OPCODE i \<noteq> opc OP_TESTSET then Inr True
          else bindE (getjump l fs) (\<lambda>l. need_value_loop n l fs))))"

definition list_steps :: "'a FuncState_scheme \<Rightarrow> nat" where
  "list_steps fs = Suc (length (f_code fs))"

definition need_value :: "int \<Rightarrow> 'a FuncState_scheme \<Rightarrow> lua_err + bool" where
  "need_value l fs = need_value_loop (list_steps fs) l fs"

definition patchtestreg :: "int \<Rightarrow> int \<Rightarrow> 'a FuncState_scheme \<Rightarrow> lua_err + bool \<times> 'a FuncState_scheme" where
  "patchtestreg at reg fs =
     bindE (getjumpcontrol at fs) (\<lambda>c.
     bindE (code_get c fs) (\<lambda>i.
       if GET_OPCODE i \<noteq> opc OP_TESTSET then Inr (False, fs)
       else
         bindE (code_put c (if reg \<noteq> NO_REG \<and> reg \<noteq> GETARG_B i then SETARG_A i reg
                            else CREATE_ABC (opc OP_TEST) (GETARG_B i) 0 (GETARG_C i)) fs)
           (\<lambda>fs. Inr (True, fs))))"

fun removevalues_loop :: "nat \<Rightarrow> int \<Rightarrow> 'a FuncState_scheme \<Rightarrow> lua_err + 'a FuncState_scheme" where
  "removevalues_loop 0 l fs = Inl (UB ''jump list'')"
| "removevalues_loop (Suc n) l fs =
     (if l = NO_JUMP then Inr fs
      else
        bindE (patchtestreg l NO_REG fs) (\<lambda>(_, fs).
        bindE (getjump l fs) (\<lambda>l. removevalues_loop n l fs)))"

definition removevalues :: "int \<Rightarrow> 'a FuncState_scheme \<Rightarrow> lua_err + 'a FuncState_scheme" where
  "removevalues l fs = removevalues_loop (list_steps fs) l fs"

fun patchlist_loop :: "nat \<Rightarrow> int \<Rightarrow> int \<Rightarrow> int \<Rightarrow> int \<Rightarrow> 'a FuncState_scheme \<Rightarrow> lua_err + 'a FuncState_scheme" where
  "patchlist_loop 0 l vtarget reg dtarget fs = Inl (UB ''jump list'')"
| "patchlist_loop (Suc n) l vtarget reg dtarget fs =
     (if l = NO_JUMP then Inr fs
      else
        bindE (getjump l fs) (\<lambda>nxt.
        bindE (patchtestreg l reg fs) (\<lambda>(b, fs).
        bindE (fixjump l (if b then vtarget else dtarget) fs) (patchlist_loop n nxt vtarget reg dtarget))))"

definition patchlistaux :: "int \<Rightarrow> int \<Rightarrow> int \<Rightarrow> int \<Rightarrow> 'a FuncState_scheme \<Rightarrow> lua_err + 'a FuncState_scheme" where
  "patchlistaux l vtarget reg dtarget fs = patchlist_loop (list_steps fs) l vtarget reg dtarget fs"

definition dischargejpc :: "'a FuncState_scheme \<Rightarrow> lua_err + 'a FuncState_scheme" where
  "dischargejpc fs =
     bindE (patchlistaux (fs_jpc fs) (pc fs) NO_REG (pc fs) fs) (\<lambda>fs. Inr (fs\<lparr>fs_jpc := NO_JUMP\<rparr>))"

text \<open>The last jump of a list that is not empty.\<close>

fun last_jump :: "nat \<Rightarrow> int \<Rightarrow> 'a FuncState_scheme \<Rightarrow> lua_err + int" where
  "last_jump 0 l fs = Inl (UB ''jump list'')"
| "last_jump (Suc n) l fs = bindE (getjump l fs) (\<lambda>nxt. if nxt \<noteq> NO_JUMP then last_jump n nxt fs else Inr l)"

text \<open>\<open>luaK_concat\<close>: the new value of \<open>*l1\<close>, and the state.\<close>

definition luaK_concat :: "int \<Rightarrow> int \<Rightarrow> 'a FuncState_scheme \<Rightarrow> lua_err + int \<times> 'a FuncState_scheme" where
  "luaK_concat l1 l2 fs =
     (if l2 = NO_JUMP then Inr (l1, fs)
      else if l1 = NO_JUMP then Inr (l2, fs)
      else bindE (last_jump (list_steps fs) l1 fs) (\<lambda>l. bindE (fixjump l l2 fs) (\<lambda>fs. Inr (l1, fs))))"

definition luaK_patchtohere :: "int \<Rightarrow> 'a FuncState_scheme \<Rightarrow> lua_err + 'a FuncState_scheme" where
  "luaK_patchtohere l fs =
     (let fs = snd (luaK_getlabel fs) in
      bindE (luaK_concat (fs_jpc fs) l fs) (\<lambda>(j, fs). Inr (fs\<lparr>fs_jpc := j\<rparr>)))"

definition luaK_patchlist :: "int \<Rightarrow> int \<Rightarrow> 'a FuncState_scheme \<Rightarrow> lua_err + 'a FuncState_scheme" where
  "luaK_patchlist l target fs =
     (if target = pc fs then luaK_patchtohere l fs else patchlistaux l target NO_REG target fs)"

section \<open>Emitting instructions\<close>

definition luaK_fixline :: "int \<Rightarrow> 'a FuncState_scheme \<Rightarrow> lua_err + 'a FuncState_scheme" where
  "luaK_fixline line fs =
     (if 0 < pc fs then Inr (fs\<lparr>f_lineinfo := (f_lineinfo fs)[nat (pc fs - 1) := line]\<rparr>) else Inl (UB ''lineinfo''))"

definition luaK_code :: "'e cenv_scheme \<Rightarrow> Instruction \<Rightarrow> int \<Rightarrow> 'a FuncState_scheme \<Rightarrow> lua_err + int \<times> 'a FuncState_scheme" where
  "luaK_code E i line fs =
     bindE (dischargejpc fs) (\<lambda>fs.
     bindE (luaM_growvector (ce_mem E) (pc fs) (f_sizecode fs) 4 MAX_INT ''code size overflow'' (fs_mem fs)) (\<lambda>(sz, m).
     let fs = fs\<lparr>f_sizecode := sz, fs_mem := m\<rparr> in
     bindE (luaM_growvector (ce_mem E) (pc fs) (f_sizelineinfo fs) 4 MAX_INT ''code size overflow'' (fs_mem fs)) (\<lambda>(sz, m).
     let fs = fs\<lparr>f_sizelineinfo := sz, fs_mem := m\<rparr> in
       Inr (pc fs, fs\<lparr>f_code := f_code fs @ [i], f_lineinfo := f_lineinfo fs @ [line]\<rparr>))))"

definition luaK_codeABC :: "'e cenv_scheme \<Rightarrow> OpCode \<Rightarrow> int \<Rightarrow> int \<Rightarrow> int \<Rightarrow> 'a FuncState_scheme \<Rightarrow> lua_err + int \<times> 'a FuncState_scheme" where
  "luaK_codeABC E op a b c fs = luaK_code E (CREATE_ABC (opc op) a b c) (lastline (fs_ls fs)) fs"

definition luaK_codeABx :: "'e cenv_scheme \<Rightarrow> OpCode \<Rightarrow> int \<Rightarrow> int \<Rightarrow> 'a FuncState_scheme \<Rightarrow> lua_err + int \<times> 'a FuncState_scheme" where
  "luaK_codeABx E op a bc fs = luaK_code E (CREATE_ABx (opc op) a bc) (lastline (fs_ls fs)) fs"

definition luaK_codeAsBx :: "'e cenv_scheme \<Rightarrow> OpCode \<Rightarrow> int \<Rightarrow> int \<Rightarrow> 'a FuncState_scheme \<Rightarrow> lua_err + int \<times> 'a FuncState_scheme" where
  "luaK_codeAsBx E op a sbx fs = luaK_codeABx E op a (sbx + MAXARG_sBx) fs"

definition luaK_nil :: "'e cenv_scheme \<Rightarrow> int \<Rightarrow> int \<Rightarrow> 'a FuncState_scheme \<Rightarrow> lua_err + 'a FuncState_scheme" where
  "luaK_nil E from n fs =
     (let dflt = bindE (luaK_codeABC E OP_LOADNIL from (from + n - 1) 0 fs) (\<lambda>(_, fs). Inr fs) in
      if pc fs > lasttarget fs then
        if pc fs = 0 then (if from \<ge> nactvar fs then Inr fs else dflt)
        else
          bindE (code_get (pc fs - 1) fs) (\<lambda>previous.
            if GET_OPCODE previous = opc OP_LOADNIL then
              let pfrom = GETARG_A previous; pto = GETARG_B previous in
              if pfrom \<le> from \<and> from \<le> pto + 1 then
                if from + n - 1 > pto then code_put (pc fs - 1) (SETARG_B previous (from + n - 1)) fs else Inr fs
              else dflt
            else dflt)
      else dflt)"

definition luaK_jump :: "'e cenv_scheme \<Rightarrow> 'a FuncState_scheme \<Rightarrow> lua_err + int \<times> 'a FuncState_scheme" where
  "luaK_jump E fs =
     (let jpc = fs_jpc fs in
      bindE (luaK_codeAsBx E OP_JMP 0 NO_JUMP (fs\<lparr>fs_jpc := NO_JUMP\<rparr>)) (\<lambda>(j, fs). luaK_concat j jpc fs))"

definition luaK_ret :: "'e cenv_scheme \<Rightarrow> int \<Rightarrow> int \<Rightarrow> 'a FuncState_scheme \<Rightarrow> lua_err + 'a FuncState_scheme" where
  "luaK_ret E first nret fs = bindE (luaK_codeABC E OP_RETURN first (nret + 1) 0 fs) (\<lambda>(_, fs). Inr fs)"

definition condjump :: "'e cenv_scheme \<Rightarrow> OpCode \<Rightarrow> int \<Rightarrow> int \<Rightarrow> int \<Rightarrow> 'a FuncState_scheme \<Rightarrow> lua_err + int \<times> 'a FuncState_scheme" where
  "condjump E op a b c fs = bindE (luaK_codeABC E op a b c fs) (\<lambda>(_, fs). luaK_jump E fs)"

text \<open>Division in C truncates.\<close>

definition c_quot :: "int \<Rightarrow> int \<Rightarrow> int" where
  "c_quot a b = (if a < 0 then - ((- a) div b) else a div b)"

definition luaK_setlist :: "'e cenv_scheme \<Rightarrow> int \<Rightarrow> int \<Rightarrow> int \<Rightarrow> 'a FuncState_scheme \<Rightarrow> lua_err + 'a FuncState_scheme" where
  "luaK_setlist E bs nelems tostore fs =
     (let c = c_quot (nelems - 1) LFIELDS_PER_FLUSH + 1;
          b = (if tostore = LUA_MULTRET then 0 else tostore) in
      bindE (if c \<le> MAXARG_C then luaK_codeABC E OP_SETLIST bs b c fs
             else bindE (luaK_codeABC E OP_SETLIST bs b 0 fs)
               (\<lambda>(_, fs). luaK_code E (word_of_int c) (lastline (fs_ls fs)) fs))
        (\<lambda>(_, fs). Inr (fs\<lparr>fs_freereg := bs + 1\<rparr>)))"

section \<open>Registers\<close>

definition luaK_checkstack :: "int \<Rightarrow> 'a FuncState_scheme \<Rightarrow> lua_err + 'a FuncState_scheme" where
  "luaK_checkstack n fs =
     (let newstack = fs_freereg fs + n in
      if newstack > f_maxstacksize fs then
        if newstack \<ge> MAXSTACK then luaX_syntaxerror (fs_ls fs) ''function or expression too complex''
        else Inr (fs\<lparr>f_maxstacksize := newstack mod 256\<rparr>)
      else Inr fs)"

definition luaK_reserveregs :: "int \<Rightarrow> 'a FuncState_scheme \<Rightarrow> lua_err + 'a FuncState_scheme" where
  "luaK_reserveregs n fs = bindE (luaK_checkstack n fs) (\<lambda>fs. Inr (fs\<lparr>fs_freereg := fs_freereg fs + n\<rparr>))"

definition freereg :: "int \<Rightarrow> 'a FuncState_scheme \<Rightarrow> 'a FuncState_scheme" where
  "freereg reg fs = (if \<not> ISK reg \<and> reg \<ge> nactvar fs then fs\<lparr>fs_freereg := fs_freereg fs - 1\<rparr> else fs)"

definition freeexp :: "expdesc \<Rightarrow> 'a FuncState_scheme \<Rightarrow> 'a FuncState_scheme" where
  "freeexp e fs = (if ek e = VNONRELOC then freereg (einfo e) fs else fs)"

section \<open>Constants\<close>

text \<open>
  \<open>addk\<close>: \<open>fs->h\<close> maps a constant to its index.  The count of \<open>v\<close> is taken by \<open>setobj\<close> and, under
  \<open>LUA_REFCOUNT\<close>, once more by \<open>luarc_addref\<close>.
\<close>

definition log_rcs :: "rc list \<Rightarrow> 'a FuncState_scheme \<Rightarrow> 'a FuncState_scheme" where
  "log_rcs rs fs = fs\<lparr>fs_rcs := fs_rcs fs @ rs\<rparr>"

definition addk :: "'e cenv_scheme \<Rightarrow> TValue \<Rightarrow> TValue \<Rightarrow> 'a FuncState_scheme \<Rightarrow> lua_err + int \<times> 'a FuncState_scheme" where
  "addk E k v fs =
     bindE (luaH_set (ce_hash E) (fs_h fs) k) (\<lambda>(idx, h, rs).
     let fs = log_rcs rs (fs\<lparr>fs_h := h\<rparr>) in
     case slot_value h idx of
       VNumber n \<Rightarrow> Inr (lua_number2int n, fs)
     | old \<Rightarrow>
         let fs = log_rcs (luarc_subref old) (fs\<lparr>fs_h := store h idx (VNumber (cast_num (nk fs)))\<rparr>) in
         bindE (luaM_growvector (ce_mem E) (nk fs) (f_sizek fs) 16 MAXARG_Bx ''constant table overflow'' (fs_mem fs)) (\<lambda>(sz, m).
         let fs = log_rcs (rc_setobj VNil v @ luarc_addref v) (fs\<lparr>f_sizek := sz, fs_mem := m\<rparr>) in
           Inr (nk fs, fs\<lparr>f_k := f_k fs @ [v]\<rparr>)))"

definition luaK_stringK :: "'e cenv_scheme \<Rightarrow> addr \<Rightarrow> 'a FuncState_scheme \<Rightarrow> lua_err + int \<times> 'a FuncState_scheme" where
  "luaK_stringK E s fs =
     bindE (addk E (VString s) (VString s) (log_rcs [Inc s] fs)) (\<lambda>(n, fs). Inr (n, log_rcs [Dec s] fs))"

definition luaK_numberK :: "'e cenv_scheme \<Rightarrow> lua_Number \<Rightarrow> 'a FuncState_scheme \<Rightarrow> lua_err + int \<times> 'a FuncState_scheme" where
  "luaK_numberK E r fs = addk E (VNumber r) (VNumber r) fs"

definition boolK :: "'e cenv_scheme \<Rightarrow> bool \<Rightarrow> 'a FuncState_scheme \<Rightarrow> lua_err + int \<times> 'a FuncState_scheme" where
  "boolK E b fs = addk E (VBoolean (of_bool b)) (VBoolean (of_bool b)) fs"

text \<open>\<open>nil\<close> cannot be a key: the table stands for it in itself.\<close>

definition nilK :: "'e cenv_scheme \<Rightarrow> 'a FuncState_scheme \<Rightarrow> lua_err + int \<times> 'a FuncState_scheme" where
  "nilK E fs =
     bindE (addk E (VTable (fs_haddr fs)) VNil (log_rcs [Inc (fs_haddr fs)] fs))
       (\<lambda>(n, fs). Inr (n, log_rcs [Dec (fs_haddr fs)] fs))"

section \<open>Expressions\<close>

definition luaK_setreturns :: "expdesc \<Rightarrow> int \<Rightarrow> 'a FuncState_scheme \<Rightarrow> lua_err + 'a FuncState_scheme" where
  "luaK_setreturns e nresults fs =
     (if ek e = VCALL then code_upd (einfo e) (\<lambda>i. SETARG_C i (nresults + 1)) fs
      else if ek e = VVARARG then
        bindE (code_upd (einfo e) (\<lambda>i. SETARG_B i (nresults + 1)) fs) (\<lambda>fs.
        bindE (code_upd (einfo e) (\<lambda>i. SETARG_A i (fs_freereg fs)) fs) (luaK_reserveregs 1))
      else Inr fs)"

definition luaK_setoneret :: "expdesc \<Rightarrow> 'a FuncState_scheme \<Rightarrow> lua_err + expdesc \<times> 'a FuncState_scheme" where
  "luaK_setoneret e fs =
     (if ek e = VCALL then bindE (getcode e fs) (\<lambda>i. Inr (e\<lparr>ek := VNONRELOC, einfo := GETARG_A i\<rparr>, fs))
      else if ek e = VVARARG then
        bindE (code_upd (einfo e) (\<lambda>i. SETARG_B i 2) fs) (\<lambda>fs. Inr (e\<lparr>ek := VRELOCABLE\<rparr>, fs))
      else Inr (e, fs))"

text \<open>The result of an instruction that was just emitted can go to any register.\<close>

definition relocatable :: "expdesc \<Rightarrow> int \<times> 'a FuncState_scheme \<Rightarrow> lua_err + expdesc \<times> 'a FuncState_scheme" where
  "relocatable e r = (case r of (i, fs) \<Rightarrow> Inr (e\<lparr>einfo := i, ek := VRELOCABLE\<rparr>, fs))"

definition luaK_dischargevars :: "'e cenv_scheme \<Rightarrow> expdesc \<Rightarrow> 'a FuncState_scheme \<Rightarrow> lua_err + expdesc \<times> 'a FuncState_scheme" where
  "luaK_dischargevars E e fs =
     (case ek e of
        VLOCAL \<Rightarrow> Inr (e\<lparr>ek := VNONRELOC\<rparr>, fs)
      | VUPVAL \<Rightarrow> bindE (luaK_codeABC E OP_GETUPVAL 0 (einfo e) 0 fs) (relocatable e)
      | VGLOBAL \<Rightarrow> bindE (luaK_codeABx E OP_GETGLOBAL 0 (einfo e) fs) (relocatable e)
      | VINDEXED \<Rightarrow>
          bindE (luaK_codeABC E OP_GETTABLE 0 (einfo e) (eaux e) (freereg (einfo e) (freereg (eaux e) fs))) (relocatable e)
      | VVARARG \<Rightarrow> luaK_setoneret e fs
      | VCALL \<Rightarrow> luaK_setoneret e fs
      | _ \<Rightarrow> Inr (e, fs))"

definition code_label :: "'e cenv_scheme \<Rightarrow> int \<Rightarrow> int \<Rightarrow> int \<Rightarrow> 'a FuncState_scheme \<Rightarrow> lua_err + int \<times> 'a FuncState_scheme" where
  "code_label E a b jmp fs = luaK_codeABC E OP_LOADBOOL a b jmp (snd (luaK_getlabel fs))"

text \<open>The value of \<open>e\<close> (without its jumps) into register \<open>reg\<close>.\<close>

definition discharge2reg :: "'e cenv_scheme \<Rightarrow> expdesc \<Rightarrow> int \<Rightarrow> 'a FuncState_scheme \<Rightarrow> lua_err + expdesc \<times> 'a FuncState_scheme" where
  "discharge2reg E e reg fs =
     bindE (luaK_dischargevars E e fs) (\<lambda>(e, fs).
     let fixed = (\<lambda>fs. Inr (e\<lparr>einfo := reg, ek := VNONRELOC\<rparr>, fs)) in
     case ek e of
       VNIL \<Rightarrow> bindE (luaK_nil E reg 1 fs) fixed
     | VFALSE \<Rightarrow> bindE (luaK_codeABC E OP_LOADBOOL reg 0 0 fs) (\<lambda>(_, fs). fixed fs)
     | VTRUE \<Rightarrow> bindE (luaK_codeABC E OP_LOADBOOL reg 1 0 fs) (\<lambda>(_, fs). fixed fs)
     | VK \<Rightarrow> bindE (luaK_codeABx E OP_LOADK reg (einfo e) fs) (\<lambda>(_, fs). fixed fs)
     | VKNUM \<Rightarrow> bindE (luaK_numberK E (enval e) fs) (\<lambda>(n, fs).
                bindE (luaK_codeABx E OP_LOADK reg n fs) (\<lambda>(_, fs). fixed fs))
     | VRELOCABLE \<Rightarrow> bindE (code_upd (einfo e) (\<lambda>i. SETARG_A i reg) fs) fixed
     | VNONRELOC \<Rightarrow> if reg \<noteq> einfo e then bindE (luaK_codeABC E OP_MOVE reg (einfo e) 0 fs) (\<lambda>(_, fs). fixed fs)
                    else fixed fs
     | _ \<Rightarrow> Inr (e, fs))"

definition discharge2anyreg :: "'e cenv_scheme \<Rightarrow> expdesc \<Rightarrow> 'a FuncState_scheme \<Rightarrow> lua_err + expdesc \<times> 'a FuncState_scheme" where
  "discharge2anyreg E e fs =
     (if ek e \<noteq> VNONRELOC then bindE (luaK_reserveregs 1 fs) (\<lambda>fs. discharge2reg E e (fs_freereg fs - 1) fs)
      else Inr (e, fs))"

text \<open>The two loads of \<open>exp2reg\<close>, when some jump of the lists does not produce the value itself.\<close>

definition load_labels :: "'e cenv_scheme \<Rightarrow> expdesc \<Rightarrow> int \<Rightarrow> 'a FuncState_scheme \<Rightarrow> lua_err + int \<times> int \<times> 'a FuncState_scheme" where
  "load_labels E e reg fs =
     bindE (need_value (et e) fs) (\<lambda>b.
     bindE (if b then Inr True else need_value (ef e) fs) (\<lambda>b.
       if b then
         bindE (if ek e = VJMP then Inr (NO_JUMP, fs) else luaK_jump E fs) (\<lambda>(fj, fs).
         bindE (code_label E reg 0 1 fs) (\<lambda>(p_f, fs).
         bindE (code_label E reg 1 0 fs) (\<lambda>(p_t, fs).
         bindE (luaK_patchtohere fj fs) (\<lambda>fs. Inr (p_f, p_t, fs)))))
       else Inr (NO_JUMP, NO_JUMP, fs)))"

definition exp2reg :: "'e cenv_scheme \<Rightarrow> expdesc \<Rightarrow> int \<Rightarrow> 'a FuncState_scheme \<Rightarrow> lua_err + expdesc \<times> 'a FuncState_scheme" where
  "exp2reg E e reg fs =
     bindE (discharge2reg E e reg fs) (\<lambda>(e, fs).
     bindE (if ek e = VJMP then bindE (luaK_concat (et e) (einfo e) fs) (\<lambda>(t, fs). Inr (e\<lparr>et := t\<rparr>, fs))
            else Inr (e, fs)) (\<lambda>(e, fs).
     bindE (if hasjumps e then
              bindE (load_labels E e reg fs) (\<lambda>(p_f, p_t, fs).
              let (final, fs) = luaK_getlabel fs in
              bindE (patchlistaux (ef e) final reg p_f fs) (patchlistaux (et e) final reg p_t))
            else Inr fs) (\<lambda>fs.
       Inr (e\<lparr>ef := NO_JUMP, et := NO_JUMP, einfo := reg, ek := VNONRELOC\<rparr>, fs))))"

definition luaK_exp2nextreg :: "'e cenv_scheme \<Rightarrow> expdesc \<Rightarrow> 'a FuncState_scheme \<Rightarrow> lua_err + expdesc \<times> 'a FuncState_scheme" where
  "luaK_exp2nextreg E e fs =
     bindE (luaK_dischargevars E e fs) (\<lambda>(e, fs).
     bindE (luaK_reserveregs 1 (freeexp e fs)) (\<lambda>fs. exp2reg E e (fs_freereg fs - 1) fs))"

text \<open>\<open>luaK_exp2anyreg\<close> and \<open>luaK_exp2RK\<close> return an operand beside the expression.\<close>

definition luaK_exp2anyreg :: "'e cenv_scheme \<Rightarrow> expdesc \<Rightarrow> 'a FuncState_scheme \<Rightarrow> lua_err + int \<times> expdesc \<times> 'a FuncState_scheme" where
  "luaK_exp2anyreg E e fs =
     bindE (luaK_dischargevars E e fs) (\<lambda>(e, fs).
     let dflt = bindE (luaK_exp2nextreg E e fs) (\<lambda>(e, fs). Inr (einfo e, e, fs)) in
     if ek e = VNONRELOC then
       if \<not> hasjumps e then Inr (einfo e, e, fs)
       else if einfo e \<ge> nactvar fs then bindE (exp2reg E e (einfo e) fs) (\<lambda>(e, fs). Inr (einfo e, e, fs))
       else dflt
     else dflt)"

definition luaK_exp2val :: "'e cenv_scheme \<Rightarrow> expdesc \<Rightarrow> 'a FuncState_scheme \<Rightarrow> lua_err + expdesc \<times> 'a FuncState_scheme" where
  "luaK_exp2val E e fs =
     (if hasjumps e then bindE (luaK_exp2anyreg E e fs) (\<lambda>(_, e, fs). Inr (e, fs)) else luaK_dischargevars E e fs)"

definition luaK_exp2RK :: "'e cenv_scheme \<Rightarrow> expdesc \<Rightarrow> 'a FuncState_scheme \<Rightarrow> lua_err + int \<times> expdesc \<times> 'a FuncState_scheme" where
  "luaK_exp2RK E e fs =
     bindE (luaK_exp2val E e fs) (\<lambda>(e, fs).
     let constant = (\<lambda>(n, fs). Inr (RKASK n, e\<lparr>einfo := n, ek := VK\<rparr>, fs)) in
     case ek e of
       VKNUM \<Rightarrow> if nk fs \<le> MAXINDEXRK then bindE (luaK_numberK E (enval e) fs) constant else luaK_exp2anyreg E e fs
     | VTRUE \<Rightarrow> if nk fs \<le> MAXINDEXRK then bindE (boolK E True fs) constant else luaK_exp2anyreg E e fs
     | VFALSE \<Rightarrow> if nk fs \<le> MAXINDEXRK then bindE (boolK E False fs) constant else luaK_exp2anyreg E e fs
     | VNIL \<Rightarrow> if nk fs \<le> MAXINDEXRK then bindE (nilK E fs) constant else luaK_exp2anyreg E e fs
     | VK \<Rightarrow> if einfo e \<le> MAXINDEXRK then Inr (RKASK (einfo e), e, fs) else luaK_exp2anyreg E e fs
     | _ \<Rightarrow> luaK_exp2anyreg E e fs)"

definition luaK_storevar :: "'e cenv_scheme \<Rightarrow> expdesc \<Rightarrow> expdesc \<Rightarrow> 'a FuncState_scheme \<Rightarrow> lua_err + expdesc \<times> 'a FuncState_scheme" where
  "luaK_storevar E var ex fs =
     (case ek var of
        VLOCAL \<Rightarrow> exp2reg E ex (einfo var) (freeexp ex fs)
      | VUPVAL \<Rightarrow>
          bindE (luaK_exp2anyreg E ex fs) (\<lambda>(e, ex, fs).
          bindE (luaK_codeABC E OP_SETUPVAL e (einfo var) 0 fs) (\<lambda>(_, fs). Inr (ex, freeexp ex fs)))
      | VGLOBAL \<Rightarrow>
          bindE (luaK_exp2anyreg E ex fs) (\<lambda>(e, ex, fs).
          bindE (luaK_codeABx E OP_SETGLOBAL e (einfo var) fs) (\<lambda>(_, fs). Inr (ex, freeexp ex fs)))
      | VINDEXED \<Rightarrow>
          bindE (luaK_exp2RK E ex fs) (\<lambda>(e, ex, fs).
          bindE (luaK_codeABC E OP_SETTABLE (einfo var) (eaux var) e fs) (\<lambda>(_, fs). Inr (ex, freeexp ex fs)))
      | _ \<Rightarrow> Inr (ex, freeexp ex fs))"

definition luaK_self :: "'e cenv_scheme \<Rightarrow> expdesc \<Rightarrow> expdesc \<Rightarrow> 'a FuncState_scheme \<Rightarrow> lua_err + expdesc \<times> 'a FuncState_scheme" where
  "luaK_self E e key fs =
     bindE (luaK_exp2anyreg E e fs) (\<lambda>(_, e, fs).
     let fs = freeexp e fs; func = fs_freereg fs in
     bindE (luaK_reserveregs 2 fs) (\<lambda>fs.
     bindE (luaK_exp2RK E key fs) (\<lambda>(rk, key, fs).
     bindE (luaK_codeABC E OP_SELF func (einfo e) rk fs) (\<lambda>(_, fs).
       Inr (e\<lparr>einfo := func, ek := VNONRELOC\<rparr>, freeexp key fs)))))"

definition luaK_indexed :: "'e cenv_scheme \<Rightarrow> expdesc \<Rightarrow> expdesc \<Rightarrow> 'a FuncState_scheme \<Rightarrow> lua_err + expdesc \<times> 'a FuncState_scheme" where
  "luaK_indexed E t k fs =
     bindE (luaK_exp2RK E k fs) (\<lambda>(rk, k, fs). Inr (t\<lparr>eaux := rk, ek := VINDEXED\<rparr>, fs))"

section \<open>Conditions\<close>

definition invertjump :: "expdesc \<Rightarrow> 'a FuncState_scheme \<Rightarrow> lua_err + 'a FuncState_scheme" where
  "invertjump e fs =
     bindE (getjumpcontrol (einfo e) fs) (\<lambda>c. code_upd c (\<lambda>i. SETARG_A i (of_bool (GETARG_A i = 0))) fs)"

text \<open>The last instruction is taken back.\<close>

definition drop_code :: "'a FuncState_scheme \<Rightarrow> 'a FuncState_scheme" where
  "drop_code fs = fs\<lparr>f_code := butlast (f_code fs), f_lineinfo := butlast (f_lineinfo fs)\<rparr>"

definition jumponcond :: "'e cenv_scheme \<Rightarrow> expdesc \<Rightarrow> bool \<Rightarrow> 'a FuncState_scheme \<Rightarrow> lua_err + int \<times> expdesc \<times> 'a FuncState_scheme" where
  "jumponcond E e cond fs =
     (let through = bindE (discharge2anyreg E e fs) (\<lambda>(e, fs).
        bindE (condjump E OP_TESTSET NO_REG (einfo e) (of_bool cond) (freeexp e fs)) (\<lambda>(j, fs). Inr (j, e, fs))) in
      if ek e = VRELOCABLE then
        bindE (getcode e fs) (\<lambda>ie.
          if GET_OPCODE ie = opc OP_NOT then
            bindE (condjump E OP_TEST (GETARG_B ie) 0 (of_bool (\<not> cond)) (drop_code fs)) (\<lambda>(j, fs). Inr (j, e, fs))
          else through)
      else through)"

definition luaK_goiftrue :: "'e cenv_scheme \<Rightarrow> expdesc \<Rightarrow> 'a FuncState_scheme \<Rightarrow> lua_err + expdesc \<times> 'a FuncState_scheme" where
  "luaK_goiftrue E e fs =
     bindE (luaK_dischargevars E e fs) (\<lambda>(e, fs).
     bindE (case ek e of
              VK \<Rightarrow> Inr (NO_JUMP, e, fs)
            | VKNUM \<Rightarrow> Inr (NO_JUMP, e, fs)
            | VTRUE \<Rightarrow> Inr (NO_JUMP, e, fs)
            | VFALSE \<Rightarrow> bindE (luaK_jump E fs) (\<lambda>(j, fs). Inr (j, e, fs))
            | VJMP \<Rightarrow> bindE (invertjump e fs) (\<lambda>fs. Inr (einfo e, e, fs))
            | _ \<Rightarrow> jumponcond E e False fs) (\<lambda>(j, e, fs).
     bindE (luaK_concat (ef e) j fs) (\<lambda>(f, fs).
     bindE (luaK_patchtohere (et e) fs) (\<lambda>fs. Inr (e\<lparr>ef := f, et := NO_JUMP\<rparr>, fs)))))"

definition luaK_goiffalse :: "'e cenv_scheme \<Rightarrow> expdesc \<Rightarrow> 'a FuncState_scheme \<Rightarrow> lua_err + expdesc \<times> 'a FuncState_scheme" where
  "luaK_goiffalse E e fs =
     bindE (luaK_dischargevars E e fs) (\<lambda>(e, fs).
     bindE (case ek e of
              VNIL \<Rightarrow> Inr (NO_JUMP, e, fs)
            | VFALSE \<Rightarrow> Inr (NO_JUMP, e, fs)
            | VTRUE \<Rightarrow> bindE (luaK_jump E fs) (\<lambda>(j, fs). Inr (j, e, fs))
            | VJMP \<Rightarrow> Inr (einfo e, e, fs)
            | _ \<Rightarrow> jumponcond E e True fs) (\<lambda>(j, e, fs).
     bindE (luaK_concat (et e) j fs) (\<lambda>(t, fs).
     bindE (luaK_patchtohere (ef e) fs) (\<lambda>fs. Inr (e\<lparr>et := t, ef := NO_JUMP\<rparr>, fs)))))"

definition codenot :: "'e cenv_scheme \<Rightarrow> expdesc \<Rightarrow> 'a FuncState_scheme \<Rightarrow> lua_err + expdesc \<times> 'a FuncState_scheme" where
  "codenot E e fs =
     (let in_reg = (\<lambda>e fs. bindE (discharge2anyreg E e fs) (\<lambda>(e, fs).
        bindE (luaK_codeABC E OP_NOT 0 (einfo e) 0 (freeexp e fs)) (relocatable e))) in
      bindE (luaK_dischargevars E e fs) (\<lambda>(e, fs).
      bindE (case ek e of
               VNIL \<Rightarrow> Inr (e\<lparr>ek := VTRUE\<rparr>, fs)
             | VFALSE \<Rightarrow> Inr (e\<lparr>ek := VTRUE\<rparr>, fs)
             | VK \<Rightarrow> Inr (e\<lparr>ek := VFALSE\<rparr>, fs)
             | VKNUM \<Rightarrow> Inr (e\<lparr>ek := VFALSE\<rparr>, fs)
             | VTRUE \<Rightarrow> Inr (e\<lparr>ek := VFALSE\<rparr>, fs)
             | VJMP \<Rightarrow> bindE (invertjump e fs) (\<lambda>fs. Inr (e, fs))
             | VRELOCABLE \<Rightarrow> in_reg e fs
             | VNONRELOC \<Rightarrow> in_reg e fs
             | _ \<Rightarrow> Inr (e, fs)) (\<lambda>(e, fs).
      let e = e\<lparr>ef := et e, et := ef e\<rparr> in
      bindE (removevalues (ef e) fs) (\<lambda>fs.
      bindE (removevalues (et e) fs) (\<lambda>fs. Inr (e, fs))))))"

section \<open>Operators\<close>

text \<open>\<open>constfolding\<close>: the folded expression, if there is one.\<close>

definition fold_value :: "'e cenv_scheme \<Rightarrow> OpCode \<Rightarrow> lua_Number \<Rightarrow> lua_Number \<Rightarrow> lua_Number option" where
  "fold_value E op v1 v2 =
     (case op of
        OP_ADD \<Rightarrow> Some (luai_numadd E v1 v2)
      | OP_SUB \<Rightarrow> Some (luai_numsub E v1 v2)
      | OP_MUL \<Rightarrow> Some (luai_nummul E v1 v2)
      | OP_DIV \<Rightarrow> if luai_numeq v2 0 then None else Some (luai_numdiv E v1 v2)
      | OP_MOD \<Rightarrow> if luai_numeq v2 0 then None else Some (luai_nummod E v1 v2)
      | OP_POW \<Rightarrow> Some (luai_numpow E v1 v2)
      | OP_UNM \<Rightarrow> Some (luai_numunm v1)
      | OP_LEN \<Rightarrow> None
      | _ \<Rightarrow> Some 0)"

definition constfolding :: "'e cenv_scheme \<Rightarrow> OpCode \<Rightarrow> expdesc \<Rightarrow> expdesc \<Rightarrow> expdesc option" where
  "constfolding E op e1 e2 =
     (if \<not> isnumeral e1 \<or> \<not> isnumeral e2 then None
      else case fold_value E op (enval e1) (enval e2) of
          None \<Rightarrow> None
        | Some r \<Rightarrow> if luai_numisnan r then None else Some (e1\<lparr>enval := r\<rparr>))"

definition codearith :: "'e cenv_scheme \<Rightarrow> OpCode \<Rightarrow> expdesc \<Rightarrow> expdesc \<Rightarrow> 'a FuncState_scheme \<Rightarrow> lua_err + expdesc \<times> 'a FuncState_scheme" where
  "codearith E op e1 e2 fs =
     (case constfolding E op e1 e2 of
        Some e1 \<Rightarrow> Inr (e1, fs)
      | None \<Rightarrow>
          bindE (if op \<noteq> OP_UNM \<and> op \<noteq> OP_LEN then luaK_exp2RK E e2 fs else Inr (0, e2, fs)) (\<lambda>(o2, e2, fs).
          bindE (luaK_exp2RK E e1 fs) (\<lambda>(o1, e1, fs).
          let fs = (if o1 > o2 then freeexp e2 (freeexp e1 fs) else freeexp e1 (freeexp e2 fs)) in
          bindE (luaK_codeABC E op 0 o1 o2 fs) (relocatable e1))))"

definition codecomp :: "'e cenv_scheme \<Rightarrow> OpCode \<Rightarrow> bool \<Rightarrow> expdesc \<Rightarrow> expdesc \<Rightarrow> 'a FuncState_scheme \<Rightarrow> lua_err + expdesc \<times> 'a FuncState_scheme" where
  "codecomp E op cond e1 e2 fs =
     bindE (luaK_exp2RK E e1 fs) (\<lambda>(o1, e1, fs).
     bindE (luaK_exp2RK E e2 fs) (\<lambda>(o2, e2, fs).
     let fs = freeexp e1 (freeexp e2 fs);
         (cond, o1, o2) = (if \<not> cond \<and> op \<noteq> OP_EQ then (True, o2, o1) else (cond, o1, o2)) in
     bindE (condjump E op (of_bool cond) o1 o2 fs) (\<lambda>(j, fs). Inr (e1\<lparr>einfo := j, ek := VJMP\<rparr>, fs))))"

definition luaK_prefix :: "'e cenv_scheme \<Rightarrow> UnOpr \<Rightarrow> expdesc \<Rightarrow> 'a FuncState_scheme \<Rightarrow> lua_err + expdesc \<times> 'a FuncState_scheme" where
  "luaK_prefix E op e fs =
     (let e2 = \<lparr>ek = VKNUM, einfo = 0, eaux = 0, enval = 0, et = NO_JUMP, ef = NO_JUMP\<rparr> in
      case op of
        OPR_MINUS \<Rightarrow>
          bindE (if isnumeral e then Inr (e, fs) else bindE (luaK_exp2anyreg E e fs) (\<lambda>(_, e, fs). Inr (e, fs))) (\<lambda>(e, fs).
            codearith E OP_UNM e e2 fs)
      | OPR_NOT \<Rightarrow> codenot E e fs
      | OPR_LEN \<Rightarrow> bindE (luaK_exp2anyreg E e fs) (\<lambda>(_, e, fs). codearith E OP_LEN e e2 fs)
      | OPR_NOUNOPR \<Rightarrow> Inr (e, fs))"

definition luaK_infix :: "'e cenv_scheme \<Rightarrow> BinOpr \<Rightarrow> expdesc \<Rightarrow> 'a FuncState_scheme \<Rightarrow> lua_err + expdesc \<times> 'a FuncState_scheme" where
  "luaK_infix E op v fs =
     (let operand = bindE (luaK_exp2RK E v fs) (\<lambda>(_, v, fs). Inr (v, fs)) in
      case op of
        OPR_AND \<Rightarrow> luaK_goiftrue E v fs
      | OPR_OR \<Rightarrow> luaK_goiffalse E v fs
      | OPR_CONCAT \<Rightarrow> luaK_exp2nextreg E v fs
      | _ \<Rightarrow> if op \<in> {OPR_ADD, OPR_SUB, OPR_MUL, OPR_DIV, OPR_MOD, OPR_POW} \<and> isnumeral v then Inr (v, fs) else operand)"

definition luaK_posfix :: "'e cenv_scheme \<Rightarrow> BinOpr \<Rightarrow> expdesc \<Rightarrow> expdesc \<Rightarrow> 'a FuncState_scheme \<Rightarrow> lua_err + expdesc \<times> 'a FuncState_scheme" where
  "luaK_posfix E op e1 e2 fs =
     (case op of
        OPR_AND \<Rightarrow>
          bindE (luaK_dischargevars E e2 fs) (\<lambda>(e2, fs).
          bindE (luaK_concat (ef e2) (ef e1) fs) (\<lambda>(f, fs). Inr (e2\<lparr>ef := f\<rparr>, fs)))
      | OPR_OR \<Rightarrow>
          bindE (luaK_dischargevars E e2 fs) (\<lambda>(e2, fs).
          bindE (luaK_concat (et e2) (et e1) fs) (\<lambda>(t, fs). Inr (e2\<lparr>et := t\<rparr>, fs)))
      | OPR_CONCAT \<Rightarrow>
          bindE (luaK_exp2val E e2 fs) (\<lambda>(e2, fs).
          bindE (if ek e2 = VRELOCABLE then bindE (getcode e2 fs) (\<lambda>i. Inr (GET_OPCODE i = opc OP_CONCAT)) else Inr False) (\<lambda>b.
            if b then
              bindE (code_upd (einfo e2) (\<lambda>i. SETARG_B i (einfo e1)) (freeexp e1 fs)) (\<lambda>fs.
                Inr (e1\<lparr>ek := VRELOCABLE, einfo := einfo e2\<rparr>, fs))
            else bindE (luaK_exp2nextreg E e2 fs) (\<lambda>(e2, fs). codearith E OP_CONCAT e1 e2 fs)))
      | OPR_ADD \<Rightarrow> codearith E OP_ADD e1 e2 fs
      | OPR_SUB \<Rightarrow> codearith E OP_SUB e1 e2 fs
      | OPR_MUL \<Rightarrow> codearith E OP_MUL e1 e2 fs
      | OPR_DIV \<Rightarrow> codearith E OP_DIV e1 e2 fs
      | OPR_MOD \<Rightarrow> codearith E OP_MOD e1 e2 fs
      | OPR_POW \<Rightarrow> codearith E OP_POW e1 e2 fs
      | OPR_EQ \<Rightarrow> codecomp E OP_EQ True e1 e2 fs
      | OPR_NE \<Rightarrow> codecomp E OP_EQ False e1 e2 fs
      | OPR_LT \<Rightarrow> codecomp E OP_LT True e1 e2 fs
      | OPR_LE \<Rightarrow> codecomp E OP_LE True e1 e2 fs
      | OPR_GT \<Rightarrow> codecomp E OP_LT False e1 e2 fs
      | OPR_GE \<Rightarrow> codecomp E OP_LE False e1 e2 fs
      | OPR_NOBINOPR \<Rightarrow> Inr (e1, fs))"

end
