(* ===== verification/Lua_CodeProps.thy ===== *)
theory Lua_CodeProps
  imports Lua_Code Lua_TableProps Lua_Refs
begin

text \<open>
  What the parser relies on in \<^verbatim>\<open>lcode.c\<close>: jump lists are joined and patched without touching anything
  else, constants are pooled; and three places where the generator goes wrong.
\<close>

section \<open>Jump lists\<close>

definition next_of :: "Instruction list \<Rightarrow> nat \<Rightarrow> int" where
  "next_of c n = (if GETARG_sBx (c ! n) = NO_JUMP then NO_JUMP else int n + 1 + GETARG_sBx (c ! n))"

definition goes_to :: "Instruction list \<Rightarrow> nat \<Rightarrow> int" where
  "goes_to c n = int n + 1 + GETARG_sBx (c ! n)"

text \<open>
  \<open>jumps c l ns\<close>: the list that starts at \<open>l\<close> is made of the jump instructions at \<open>ns\<close>, in this order.  The
  instruction before each of them (the one that may control it) has an opcode.
\<close>

definition is_jump :: "Instruction list \<Rightarrow> nat \<Rightarrow> bool" where
  "is_jump c n = (n < length c \<and> GET_OPCODE (c ! n) = opc OP_JMP \<and> (0 < n \<longrightarrow> GET_OPCODE (c ! (n - 1)) < NUM_OPCODES))"

fun jumps :: "Instruction list \<Rightarrow> int \<Rightarrow> nat list \<Rightarrow> bool" where
  "jumps c l [] = (l = NO_JUMP)"
| "jumps c l (n # ns) = (l = int n \<and> is_jump c n \<and> jumps c (next_of c n) ns)"

text \<open>The jump has a test before it that moves a value when it jumps.\<close>

definition moves_value :: "Instruction list \<Rightarrow> nat \<Rightarrow> bool" where
  "moves_value c n = (0 < n \<and> GET_OPCODE (c ! (n - 1)) = opc OP_TESTSET)"

definition patched_test :: "int \<Rightarrow> Instruction \<Rightarrow> Instruction" where
  "patched_test reg i =
     (if reg \<noteq> NO_REG \<and> reg \<noteq> GETARG_B i then SETARG_A i reg else CREATE_ABC (opc OP_TEST) (GETARG_B i) 0 (GETARG_C i))"

lemma code_get_at: "n < length (f_code fs) \<Longrightarrow> code_get (int n) fs = Inr (f_code fs ! n)"
  by (simp add: code_get_def pc_def)

lemma code_put_at: "n < length (f_code fs) \<Longrightarrow> code_put (int n) x fs = Inr (fs\<lparr>f_code := (f_code fs)[n := x]\<rparr>)"
  by (simp add: code_put_def pc_def)

lemma getjump_at: "n < length (f_code fs) \<Longrightarrow> getjump (int n) fs = Inr (next_of (f_code fs) n)"
  by (simp add: getjump_def code_get_at next_of_def Let_def)

lemma opc_nums: "opc OP_JMP = 22" "opc OP_TESTSET = 27" "opc OP_TEST = 26" "opc OP_SETLIST = 34"
  by (simp_all add: opc_def)

lemma testmode_jmp: "testTMode 27" "\<not> testTMode 22" "testTMode 26"
  using opmode_table by blast+

lemma fixjump_at:
  assumes "n < length (f_code fs)" "\<bar>dest - (int n + 1)\<bar> \<le> MAXARG_sBx"
  shows "fixjump (int n) dest fs = Inr (fs\<lparr>f_code := (f_code fs)[n := SETARG_sBx (f_code fs ! n) (dest - (int n + 1))]\<rparr>)"
  using assms by (simp add: fixjump_def code_get_at code_put_at Let_def)

lemma getjumpcontrol_at:
  assumes "is_jump (f_code fs) n"
  shows "getjumpcontrol (int n) fs = Inr (if 0 < n \<and> testTMode (GET_OPCODE (f_code fs ! (n - 1))) then int (n - 1) else int n)"
proof (cases n)
  case (Suc m)
  then have "code_get (int m) fs = Inr (f_code fs ! m)" using assms by (simp add: code_get_at is_jump_def)
  with Suc assms show ?thesis by (simp add: getjumpcontrol_def is_test_def is_jump_def)
qed (simp add: getjumpcontrol_def)

lemma patchtestreg_at:
  assumes "is_jump (f_code fs) n"
  shows "patchtestreg (int n) reg fs =
    (if moves_value (f_code fs) n
     then Inr (True, fs\<lparr>f_code := (f_code fs)[n - 1 := patched_test reg (f_code fs ! (n - 1))]\<rparr>) else Inr (False, fs))"
proof -
  have n: "n < length (f_code fs)" "GET_OPCODE (f_code fs ! n) = 22" using assms by (simp_all add: is_jump_def opc_nums)
  have p: "code_get (int (n - 1)) fs = Inr (f_code fs ! (n - 1))" "code_put (int (n - 1)) x fs = Inr (fs\<lparr>f_code := (f_code fs)[n - 1 := x]\<rparr>)" for x
    using n(1) by (simp_all add: code_get_at code_put_at del: of_nat_diff)
  have q: "code_get (int n) fs = Inr (f_code fs ! n)" by (rule code_get_at [OF n(1)])
  show ?thesis
  proof (cases "n = 0")
    case True
    then have "code_get 0 fs = Inr (f_code fs ! n)" using q by simp
    then show ?thesis using True n by (simp add: patchtestreg_def getjumpcontrol_def moves_value_def opc_nums)
  next
    case False
    then show ?thesis
      unfolding patchtestreg_def getjumpcontrol_at [OF assms]
      using n p q by (simp add: moves_value_def patched_test_def opc_nums testmode_jmp del: of_nat_diff)
  qed
qed

text \<open>Writing an offset, and patching a test, keep the opcodes that decide.\<close>

lemma set_sBx:
  assumes "\<bar>off\<bar> \<le> MAXARG_sBx"
  shows "GETARG_sBx (SETARG_sBx i off) = off" "GET_OPCODE (SETARG_sBx i off) = GET_OPCODE i"
proof -
  have "0 \<le> off + MAXARG_sBx" "off + MAXARG_sBx < 2 ^ SIZE_Bx" using assms by (simp_all add: maxarg_defs layout_defs)
  then show "GETARG_sBx (SETARG_sBx i off) = off" using op_Bx.r.get_put [of "off + MAXARG_sBx" i] by (simp add: GETARG_sBx_def SETARG_sBx_def)
  show "GET_OPCODE (SETARG_sBx i off) = GET_OPCODE i" by (simp add: SETARG_sBx_def op_Bx.get1_put2)
qed

lemma GET_OPCODE_low:
  "GET_OPCODE (CREATE_ABC (opc op) a b c) = opc op"
  "GET_OPCODE (CREATE_ABx (opc op) a b) = opc op"
proof -
  have r: "0 \<le> opc op" "opc op < 2 ^ 6" by (cases op; simp add: opc_def)+
  show "GET_OPCODE (CREATE_ABC (opc op) a b c) = opc op"
  proof (rule bit_eqI)
    fix k show "bit (GET_OPCODE (CREATE_ABC (opc op) a b c)) k = bit (opc op) k"
      using bit_small_ge [OF r, of k]
      by (cases "k < 6") (simp_all add: field_abs bit_get_field CREATE_ABC_def bit_or_iff bit_push_bit_iff bit_word_of_int_32 layout_defs)
  qed
  show "GET_OPCODE (CREATE_ABx (opc op) a b) = opc op"
  proof (rule bit_eqI)
    fix k show "bit (GET_OPCODE (CREATE_ABx (opc op) a b)) k = bit (opc op) k"
      using bit_small_ge [OF r, of k]
      by (cases "k < 6") (simp_all add: field_abs bit_get_field CREATE_ABx_def bit_or_iff bit_push_bit_iff bit_word_of_int_32 layout_defs)
  qed
qed

lemma patched_test_opcode:
  assumes "GET_OPCODE i = opc OP_TESTSET"
  shows "GET_OPCODE (patched_test reg i) \<in> {26, 27}"
  using assms GET_OPCODE_low(1) [of OP_TEST] by (simp add: patched_test_def op_A.get1_put2 opc_nums)

text \<open>The instruction at \<open>m\<close> after the jumps at \<open>N\<close> have been patched.\<close>

definition patched :: "Instruction list \<Rightarrow> nat set \<Rightarrow> int \<Rightarrow> int \<Rightarrow> int \<Rightarrow> nat \<Rightarrow> Instruction" where
  "patched c N vtarget reg dtarget m =
     (if m \<in> N then SETARG_sBx (c ! m) ((if moves_value c m then vtarget else dtarget) - (int m + 1))
      else if Suc m \<in> N \<and> moves_value c (Suc m) then patched_test reg (c ! m)
      else c ! m)"

definition in_reach :: "int \<Rightarrow> nat \<Rightarrow> bool" where
  "in_reach dest n = (\<bar>dest - (int n + 1)\<bar> \<le> MAXARG_sBx)"

lemma jumps_is_jump: "jumps c l ns \<Longrightarrow> n \<in> set ns \<Longrightarrow> is_jump c n"
  by (induction c l ns rule: jumps.induct) auto

lemma jumps_cong:
  assumes "jumps c l ns" "length c' = length c"
    and "\<And>n. n \<in> set ns \<Longrightarrow> c' ! n = c ! n \<and> (0 < n \<longrightarrow> GET_OPCODE (c' ! (n - 1)) < NUM_OPCODES)"
  shows "jumps c' l ns"
  using assms by (induction c l ns rule: jumps.induct) (auto simp: is_jump_def next_of_def)

lemma length_jumps: "jumps c l ns \<Longrightarrow> distinct ns \<Longrightarrow> length ns \<le> length c"
proof -
  assume a: "jumps c l ns" "distinct ns"
  have "set ns \<subseteq> {..<length c}" using jumps_is_jump [OF a(1)] by (auto simp: is_jump_def)
  then have "card (set ns) \<le> card {..<length c}" by (intro card_mono) auto
  then show ?thesis using a(2) by (simp add: distinct_card)
qed

text \<open>One round of the loop: the instruction list with the one jump patched.\<close>

definition patch1 :: "Instruction list \<Rightarrow> nat \<Rightarrow> int \<Rightarrow> int \<Rightarrow> int \<Rightarrow> Instruction list" where
  "patch1 c n vtarget reg dtarget = map (patched c {n} vtarget reg dtarget) [0..<length c]"

lemma patch1_eq:
  assumes "is_jump c n"
  shows "patch1 c n vt reg dt =
    (if moves_value c n then c[n - 1 := patched_test reg (c ! (n - 1))] else c)
      [n := SETARG_sBx (c ! n) ((if moves_value c n then vt else dt) - (int n + 1))]"
proof (rule nth_equalityI)
  fix m assume "m < length (patch1 c n vt reg dt)"
  then show "patch1 c n vt reg dt ! m = (if moves_value c n then c[n - 1 := patched_test reg (c ! (n - 1))] else c)
      [n := SETARG_sBx (c ! n) ((if moves_value c n then vt else dt) - (int n + 1))] ! m"
    using assms by (auto simp: patch1_def patched_def nth_list_update moves_value_def is_jump_def)
qed (simp add: patch1_def)

lemma patch1_facts:
  fixes reg :: int
  assumes n: "is_jump c n" "in_reach vt n" "in_reach dt n"
  defines "d \<equiv> patch1 c n vt reg dt"
  shows "length d = length c" "m < length c \<Longrightarrow> is_jump c m \<Longrightarrow> m \<noteq> n \<Longrightarrow> d ! m = c ! m"
    "m < length c \<Longrightarrow> (GET_OPCODE (d ! m) < NUM_OPCODES) = (GET_OPCODE (c ! m) < NUM_OPCODES)"
    "m < length c \<Longrightarrow> m \<noteq> n \<Longrightarrow> moves_value d m = moves_value c m" "GET_OPCODE (d ! n) = 22"
proof -
  have r: "\<bar>(if moves_value c n then vt else dt) - (int n + 1)\<bar> \<le> MAXARG_sBx" using n(2,3) by (simp add: in_reach_def)
  note e = set_sBx(2) [OF r]
  show l: "length d = length c" by (simp add: d_def patch1_def)
  have at: "d ! k = patched c {n} vt reg dt k" if "k < length c" for k using that by (simp add: d_def patch1_def)
  have nl: "n < length c" "GET_OPCODE (c ! n) = 22" using n(1) by (simp_all add: is_jump_def opc_nums)
  show o: "GET_OPCODE (d ! n) = 22" using at [OF nl(1)] nl(2) e by (simp add: patched_def)
  show "d ! m = c ! m" if "m < length c" "is_jump c m" "m \<noteq> n"
    using that at [of m] by (auto simp: patched_def moves_value_def is_jump_def opc_nums)
  have t: "GET_OPCODE (patched_test reg (c ! m)) \<in> {26, 27}" "GET_OPCODE (c ! m) = 27" if "Suc m = n" "moves_value c n" for m
    using that patched_test_opcode [of "c ! m" reg] by (auto simp: moves_value_def opc_nums)
  show "(GET_OPCODE (d ! m) < NUM_OPCODES) = (GET_OPCODE (c ! m) < NUM_OPCODES)" if "m < length c"
    using at [OF that] t [of m] o nl(2) by (cases "m = n") (auto simp: patched_def NUM_OPCODES_def)
  show "moves_value d m = moves_value c m" if "m < length c" "m \<noteq> n"
  proof (cases m)
    case (Suc k)
    then show ?thesis using that at [of k] o nl(2) t [of k]
      by (cases "k = n") (auto simp: moves_value_def patched_def opc_nums)
  qed (simp add: moves_value_def)
qed

lemma patch1_rest:
  assumes "is_jump c n" "in_reach vt n" "in_reach dt n" "n \<notin> N" "\<forall>k \<in> N. is_jump c k" "m < length c"
  shows "patched (patch1 c n vt reg dt) N vt reg dt m = patched c (insert n N) vt reg dt m"
proof -
  note f = patch1_facts [OF assms(1-3), where reg = reg]
  have at: "patch1 c n vt reg dt ! m = patched c {n} vt reg dt m" using assms(6) by (simp add: patch1_def)
  consider "m = n" | "m \<noteq> n" "m \<in> N" | "m \<noteq> n" "m \<notin> N" by blast
  then show ?thesis
  proof cases
    case 1
    then have "\<not> moves_value (patch1 c n vt reg dt) (Suc m)" using f(5) by (simp add: moves_value_def opc_nums)
    then show ?thesis using 1 assms(4) at by (simp add: patched_def)
  next
    case 2
    then show ?thesis using f(2) [of m] f(4) [of m] assms(5,6) by (simp add: patched_def)
  next
    case 3
    have s: "moves_value (patch1 c n vt reg dt) (Suc m) = moves_value c (Suc m)" if "Suc m \<in> N"
      using that assms(4,5) f(4) [of "Suc m"] by (auto simp: is_jump_def)
    have "Suc m = n \<Longrightarrow> Suc m \<notin> N" using assms(4) by simp
    then show ?thesis using 3 s at unfolding patched_def by auto
  qed
qed

lemma patchlist_loop_ok:
  assumes "jumps (f_code fs) l ns" "distinct ns" "length ns < k" "\<forall>n \<in> set ns. in_reach vt n \<and> in_reach dt n"
  shows "patchlist_loop k l vt reg dt fs = Inr (fs\<lparr>f_code := map (patched (f_code fs) (set ns) vt reg dt) [0..<length (f_code fs)]\<rparr>)"
  using assms
proof (induction ns arbitrary: fs l k)
  case Nil
  then obtain k' where "k = Suc k'" by (cases k) auto
  moreover have "map (patched (f_code fs) {} vt reg dt) [0..<length (f_code fs)] = f_code fs"
    by (rule nth_equalityI) (simp_all add: patched_def)
  ultimately show ?case using Nil.prems(1) by simp
next
  case (Cons n ns)
  define c where "c = f_code fs"
  from Cons.prems(3) obtain k' where k: "k = Suc k'" "length ns < k'" by (cases k) auto
  from Cons.prems have j: "l = int n" "is_jump c n" "jumps c (next_of c n) ns" and d: "n \<notin> set ns" "distinct ns"
    and r: "in_reach vt n" "in_reach dt n" by (simp_all add: c_def)
  have n: "n < length c" using j(2) by (simp add: is_jump_def)
  note f = patch1_facts [OF j(2) r, where reg = reg]
  define c1 where "c1 = (if moves_value c n then c[n - 1 := patched_test reg (c ! (n - 1))] else c)"
  have c1: "length c1 = length c" "c1 ! n = c ! n"
    by (auto simp: c1_def moves_value_def nth_list_update)
  have s: "patchtestreg (int n) reg fs = Inr (moves_value c n, fs\<lparr>f_code := c1\<rparr>)"
    using patchtestreg_at [of fs n reg] j(2) by (simp add: c_def c1_def)
  have x: "fixjump (int n) (if moves_value c n then vt else dt) (fs\<lparr>f_code := c1\<rparr>) = Inr (fs\<lparr>f_code := patch1 c n vt reg dt\<rparr>)"
    using fixjump_at [of n "fs\<lparr>f_code := c1\<rparr>" "if moves_value c n then vt else dt"] n c1 r
    by (simp add: in_reach_def patch1_eq [OF j(2)] c1_def [symmetric])
  have "jumps (patch1 c n vt reg dt) (next_of c n) ns"
  proof (rule jumps_cong [OF j(3) f(1)])
    fix m assume m: "m \<in> set ns"
    then have jm: "is_jump c m" "m \<noteq> n" using jumps_is_jump [OF j(3)] d(1) by auto
    then show "patch1 c n vt reg dt ! m = c ! m \<and> (0 < m \<longrightarrow> GET_OPCODE (patch1 c n vt reg dt ! (m - 1)) < NUM_OPCODES)"
      using f(2) [of m] f(3) [of "m - 1"] by (auto simp: is_jump_def)
  qed
  with Cons.IH [of "fs\<lparr>f_code := patch1 c n vt reg dt\<rparr>" "next_of c n" k'] d(2) k(2) Cons.prems(4)
  have "patchlist_loop k' (next_of c n) vt reg dt (fs\<lparr>f_code := patch1 c n vt reg dt\<rparr>) =
      Inr (fs\<lparr>f_code := map (patched (patch1 c n vt reg dt) (set ns) vt reg dt) [0..<length c]\<rparr>)"
    by (simp add: f(1))
  moreover have "map (patched (patch1 c n vt reg dt) (set ns) vt reg dt) [0..<length c] = map (patched c (set (n # ns)) vt reg dt) [0..<length c]"
    using patch1_rest [OF j(2) r d(1)] jumps_is_jump [OF j(3)] by simp
  moreover have "getjump (int n) fs = Inr (next_of c n)" using getjump_at [of n fs] n by (simp add: c_def)
  moreover have "l \<noteq> NO_JUMP" using j(1) by (simp add: NO_JUMP_def)
  ultimately show ?case unfolding k(1) using j(1) s x by (simp add: c_def [symmetric])
qed

text \<open>
  C36. Patching. For a list of jumps without repetition whose targets are in reach, \<open>patchlistaux\<close> returns and
  changes exactly this: a jump that a value-moving test controls goes to \<open>vtarget\<close> and its test moves the
  value to \<open>reg\<close> (or becomes a plain test), every other jump of the list goes to \<open>dtarget\<close>, and no other
  instruction and no other part of the state changes.
\<close>

theorem patchlist_exact:
  assumes "jumps (f_code fs) l ns" "distinct ns" "\<forall>n \<in> set ns. in_reach vt n \<and> in_reach dt n"
  shows "\<exists>c'. patchlistaux l vt reg dt fs = Inr (fs\<lparr>f_code := c'\<rparr>) \<and>
    c' = map (patched (f_code fs) (set ns) vt reg dt) [0..<length (f_code fs)] \<and>
    (\<forall>n \<in> set ns. GET_OPCODE (c' ! n) = opc OP_JMP \<and> goes_to c' n = (if moves_value (f_code fs) n then vt else dt))"
proof -
  let ?c = "map (patched (f_code fs) (set ns) vt reg dt) [0..<length (f_code fs)]"
  have "patchlistaux l vt reg dt fs = Inr (fs\<lparr>f_code := ?c\<rparr>)"
    unfolding patchlistaux_def list_steps_def
    by (rule patchlist_loop_ok [OF assms(1,2) _ assms(3)]) (use length_jumps [OF assms(1,2)] in simp)
  moreover have "GET_OPCODE (?c ! n) = opc OP_JMP \<and> goes_to ?c n = (if moves_value (f_code fs) n then vt else dt)"
    if n: "n \<in> set ns" for n
  proof -
    have j: "is_jump (f_code fs) n" using jumps_is_jump [OF assms(1) n] .
    have "\<bar>(if moves_value (f_code fs) n then vt else dt) - (int n + 1)\<bar> \<le> MAXARG_sBx"
      using assms(3) n by (simp add: in_reach_def)
    from set_sBx [OF this, of "f_code fs ! n"] show ?thesis using j n by (simp add: patched_def is_jump_def goes_to_def)
  qed
  ultimately show ?thesis by blast
qed

lemma last_jump_ok:
  "jumps (f_code fs) l ns \<Longrightarrow> ns \<noteq> [] \<Longrightarrow> length ns \<le> k \<Longrightarrow> last_jump k l fs = Inr (int (List.last ns))"
proof (induction ns arbitrary: l k)
  case (Cons n ns)
  from Cons.prems(3) obtain k' where k: "k = Suc k'" "length ns \<le> k'" by (cases k) auto
  have g: "getjump (int n) fs = Inr (next_of (f_code fs) n)" using Cons.prems(1) by (intro getjump_at) (simp add: is_jump_def)
  have l: "l = int n" using Cons.prems(1) by simp
  show ?case
  proof (cases ns)
    case Nil
    then show ?thesis using Cons.prems(1) g k l by simp
  next
    case (Cons m ms)
    then have "next_of (f_code fs) n \<noteq> NO_JUMP" using Cons.prems(1) by (simp add: NO_JUMP_def)
    then show ?thesis using Cons.IH [of _ k'] Cons.prems(1) g k l local.Cons by simp
  qed
qed simp

lemma jumps_append:
  assumes "jumps c l1 ns1" "jumps c l2 ns2" "distinct ns1" "set ns1 \<inter> set ns2 = {}" "ns1 \<noteq> []" "ns2 \<noteq> []"
    and "in_reach l2 (List.last ns1)"
    and c': "c' = c[List.last ns1 := SETARG_sBx (c ! List.last ns1) (l2 - (int (List.last ns1) + 1))]"
  shows "jumps c' l1 (ns1 @ ns2)"
  using assms(1,3-5,7,8)
proof (induction ns1 arbitrary: l1)
  case (Cons n ns)
  have sb: "\<bar>l2 - (int (List.last (n # ns)) + 1)\<bar> \<le> MAXARG_sBx" using Cons.prems(5) by (simp only: in_reach_def)
  note e = set_sBx [OF sb]
  have oper: "GET_OPCODE (c' ! m) = GET_OPCODE (c ! m)" for m
    using e(2) by (cases "m = List.last (n # ns)"; cases "m < length c") (auto simp: Cons.prems(6) not_less list_update_beyond)
  have len: "length c' = length c" by (simp only: Cons.prems(6) length_list_update)
  have jn: "is_jump c' k = is_jump c k" for k by (simp add: is_jump_def oper len)
  obtain m ms where ns2: "ns2 = m # ms" "l2 = int m" using assms(2,6) by (cases ns2) auto
  show ?case
  proof (cases ns)
    case Nil
    have nl: "n < length c" "n \<notin> set ns2" using Cons.prems(1,3) by (simp_all add: is_jump_def)
    have "next_of c' n = l2"
    proof -
      have "GETARG_sBx (c' ! n) = int m - (int n + 1)" using Nil nl(1) e(1) ns2(2) by (simp add: Cons.prems(6))
      moreover have "m \<noteq> n" using nl(2) ns2(1) by simp
      ultimately show ?thesis using ns2(2) by (simp add: next_of_def NO_JUMP_def)
    qed
    moreover have "jumps c' l2 ns2"
    proof (rule jumps_cong [OF assms(2) len])
      fix k assume k: "k \<in> set ns2"
      then have "List.last (n # ns) \<noteq> k" using nl Nil by auto
      then have "c' ! k = c ! k" unfolding Cons.prems(6) by (rule nth_list_update_neq)
      then show "c' ! k = c ! k \<and> (0 < k \<longrightarrow> GET_OPCODE (c' ! (k - 1)) < NUM_OPCODES)"
        using jumps_is_jump [OF assms(2) k] by (simp add: is_jump_def oper)
    qed
    ultimately show ?thesis using Nil Cons.prems(1) jn by simp
  next
    case c: (Cons k ks)
    then have "List.last (n # ns) = List.last ns" "n \<noteq> List.last ns" using Cons.prems(2) by auto
    then have "c' ! n = c ! n" using Cons.prems(6) by simp
    then have "next_of c' n = next_of c n" by (simp add: next_of_def)
    moreover have "jumps c' (next_of c n) (ns @ ns2)"
      by (rule Cons.IH) (use Cons.prems c in auto)
    ultimately show ?thesis using Cons.prems(1) jn by simp
  qed
qed simp

text \<open>
  C37. Joining. Two disjoint lists of jumps become one list with the jumps of the first and then those of the
  second: \<open>luaK_concat\<close> returns its head and writes one instruction, the last jump of the first list, whose
  opcode stays; so every list of jumps that shares no jump with the first is still the list it was.
\<close>

theorem concat_joins:
  assumes "jumps (f_code fs) l1 ns1" "jumps (f_code fs) l2 ns2" "distinct ns1" "set ns1 \<inter> set ns2 = {}"
    and "ns1 \<noteq> [] \<Longrightarrow> ns2 \<noteq> [] \<Longrightarrow> in_reach l2 (List.last ns1)"
    and "jumps (f_code fs) l3 ns3" "set ns1 \<inter> set ns3 = {}"
  shows "\<exists>l c'. luaK_concat l1 l2 fs = Inr (l, fs\<lparr>f_code := c'\<rparr>) \<and> jumps c' l (ns1 @ ns2) \<and> jumps c' l3 ns3 \<and>
    length c' = length (f_code fs) \<and>
    (\<forall>m < length c'. GET_OPCODE (c' ! m) = GET_OPCODE (f_code fs ! m) \<and> (m \<notin> set ns1 \<longrightarrow> c' ! m = f_code fs ! m))"
proof (cases "ns1 = [] \<or> ns2 = []")
  case True
  then have "luaK_concat l1 l2 fs = Inr (if ns2 = [] then l1 else l2, fs\<lparr>f_code := f_code fs\<rparr>)"
    using assms(1,2) by (cases ns2) (auto simp: luaK_concat_def NO_JUMP_def)
  then show ?thesis
    using True assms(1,2,6) by (intro exI [of _ "if ns2 = [] then l1 else l2"] exI [of _ "f_code fs"]) auto
next
  case False
  let ?n = "List.last ns1"
  define c' where "c' = (f_code fs)[?n := SETARG_sBx (f_code fs ! ?n) (l2 - (int ?n + 1))]"
  have r: "in_reach l2 ?n" using assms(5) False by simp
  then have sb: "\<bar>l2 - (int ?n + 1)\<bar> \<le> MAXARG_sBx" by (simp only: in_reach_def)
  have n: "?n \<in> set ns1" "?n < length (f_code fs)"
    using False jumps_is_jump [OF assms(1), of ?n] by (simp_all add: is_jump_def)
  have "l1 \<noteq> NO_JUMP" "l2 \<noteq> NO_JUMP" using False assms(1,2) by (cases ns1; cases ns2; simp add: NO_JUMP_def)+
  moreover have "last_jump (list_steps fs) l1 fs = Inr (int ?n)"
    by (rule last_jump_ok [OF assms(1)]) (use False length_jumps [OF assms(1,3)] in \<open>auto simp: list_steps_def\<close>)
  ultimately have "luaK_concat l1 l2 fs = Inr (l1, fs\<lparr>f_code := c'\<rparr>)"
    using fixjump_at [OF n(2) sb] by (simp add: luaK_concat_def c'_def)
  moreover have "jumps c' l1 (ns1 @ ns2)"
    by (rule jumps_append [OF assms(1-4) _ _ r c'_def]) (use False in auto)
  moreover have op: "GET_OPCODE (c' ! m) = GET_OPCODE (f_code fs ! m)" for m
    using set_sBx(2) [OF sb] n(2) by (cases "m = ?n") (auto simp: c'_def)
  moreover have keep: "c' ! m = f_code fs ! m" if "m \<notin> set ns1" for m
    unfolding c'_def by (rule nth_list_update_neq) (use that n(1) in blast)
  moreover have "jumps c' l3 ns3"
    by (rule jumps_cong [OF assms(6)]) (use assms(7) keep op jumps_is_jump [OF assms(6)] in \<open>auto simp: c'_def is_jump_def\<close>)
  ultimately show ?thesis by (intro exI [of _ l1] exI [of _ c']) (auto simp: c'_def)
qed

text \<open>A small function: a value-moving test and its jump, and a plain jump that may be linked to it.\<close>

definition jump_word :: "int \<Rightarrow> Instruction" where
  "jump_word off = SETARG_sBx (CREATE_ABx (opc OP_JMP) 0 0) off"

definition example_code :: "int \<Rightarrow> Instruction list" where
  "example_code off = [CREATE_ABC (opc OP_TESTSET) 255 3 1, jump_word NO_JUMP, CREATE_ABC (opc OP_MOVE) 4 3 0, jump_word off]"

definition example_lex :: LexState where
  "example_lex = \<lparr>current = EOZ, linenumber = 1, lastline = 1, tok = \<lparr>token = TK_EOS, seminfo = Sem_r 0\<rparr>,
     lookahead = \<lparr>token = TK_EOS, seminfo = Sem_r 0\<rparr>, input = [], at_end = True, buff = [], buffsize = 32,
     source_name = ''=x'', decpoint = CHR ''.'', anchored = []\<rparr>"

definition empty_table :: Table where
  "empty_table = \<lparr>arr = [], sizearray = 0, node = [dummynode], is_dummy = True, lsizenode = 0,
     lastfree = 0, flags = 255, resizecount = 0\<rparr>"

definition example_fs :: "Instruction list \<Rightarrow> FuncState" where
  "example_fs c = \<lparr>f_code = c, f_sizecode = int (length c), f_lineinfo = replicate (length c) 1, f_sizelineinfo = int (length c),
     f_k = [], f_sizek = 0, f_p = [], f_sizep = 0, f_locvars = [], f_sizelocvars = 0, f_upvalues = [], f_sizeupvalues = 0,
     f_linedefined = 0, f_lastlinedefined = 0, f_numparams = 0, f_is_vararg = 0, f_maxstacksize = 2,
     fs_h = empty_table, fs_haddr = 16, fs_ls = example_lex, fs_bl = [], lasttarget = - 1, fs_jpc = NO_JUMP,
     fs_freereg = 0, nactvar = 0, fs_upvalues = [], actvar = [],
     fs_mem = \<lparr>totalbytes = 0, allocbytes = 0, freebytes = 0\<rparr>, fs_rcs = []\<rparr>"

lemma example_code_jumps:
  "jumps (example_code (- 3)) 3 [3, 1]" "jumps (example_code NO_JUMP) 1 [1]" "jumps (example_code NO_JUMP) 3 [3]"
  "moves_value (example_code off) 1" "\<not> moves_value (example_code off) 3"
proof -
  have j: "GETARG_sBx (jump_word off) = off" "GET_OPCODE (jump_word off) = 22" if "\<bar>off\<bar> \<le> 3" for off
    using that set_sBx [of off] GET_OPCODE_low(2) [of OP_JMP] by (simp_all add: jump_word_def maxarg_defs layout_defs opc_nums)
  have c: "GET_OPCODE (CREATE_ABC (opc OP_TESTSET) 255 3 1) = 27" "GET_OPCODE (CREATE_ABC (opc OP_MOVE) 4 3 0) = 0"
    using GET_OPCODE_low(1) [of OP_TESTSET] GET_OPCODE_low(1) [of OP_MOVE] by (simp_all add: opc_def)
  note d = example_code_def is_jump_def next_of_def opc_nums NUM_OPCODES_def NO_JUMP_def moves_value_def
  show "jumps (example_code (- 3)) 3 [3, 1]" "jumps (example_code NO_JUMP) 1 [1]" "jumps (example_code NO_JUMP) 3 [3]"
    "moves_value (example_code off) 1" "\<not> moves_value (example_code off) 3"
    using j [of "- 1"] j [of "- 3"] c by (simp_all add: d)
qed

theorem patchlist_exact_witness:
  "\<exists>c'. patchlistaux 3 10 4 12 (example_fs (example_code (- 3))) = Inr (example_fs (example_code (- 3))\<lparr>f_code := c'\<rparr>) \<and>
    goes_to c' 1 = 10 \<and> goes_to c' 3 = 12"
  using patchlist_exact [of "example_fs (example_code (- 3))" 3 "[3, 1]" 10 12 4] example_code_jumps
  by (auto simp: example_fs_def in_reach_def maxarg_defs layout_defs)

theorem concat_joins_witness:
  "\<exists>l c'. luaK_concat 1 3 (example_fs (example_code NO_JUMP)) = Inr (l, example_fs (example_code NO_JUMP)\<lparr>f_code := c'\<rparr>) \<and>
    jumps c' l [1, 3]"
  using concat_joins [of "example_fs (example_code NO_JUMP)" 1 "[1]" 3 "[3]" NO_JUMP "[]"] example_code_jumps
  by (auto simp: example_fs_def in_reach_def maxarg_defs layout_defs)

section \<open>Constants\<close>

declare luaO_rawequalObj.simps [simp del]

lemma luaH_set_present:
  assumes "table_ok hs t" "realkey k" "content t k \<noteq> VNil"
  shows "key_set hs t k (luaH_set hs t k)"
  using assms(1,2)
proof (cases rule: luaH_get_cases)
  case none
  then have "rawget hs t k = Inr VNil" by (simp add: rawget_def slot_value_def)
  then show ?thesis using rawget_content [OF assms(1,2)] assms(3) by simp
next
  case (found p)
  then show ?thesis using slot_made_set [OF found_made(1) [OF assms(1) found(3)]] by (simp add: luaH_set_def set_with_def Let_def)
qed

text \<open>
  The table of constants is consistent, and where it has an index there is a constant equal to the key
  (\<open>key_of\<close> is the key of a constant: the table itself stands for nil).
\<close>

definition key_of :: "'a FuncState_scheme \<Rightarrow> TValue \<Rightarrow> TValue" where
  "key_of fs v = (if v = VNil then VTable (fs_haddr fs) else v)"

definition pool_ok :: "(addr \<Rightarrow> u32) \<Rightarrow> 'a FuncState_scheme \<Rightarrow> bool" where
  "pool_ok hs fs = (table_ok hs (fs_h fs) \<and>
     (\<forall>k n. realkey k \<longrightarrow> content (fs_h fs) k = VNumber n \<longrightarrow>
        (\<exists>i < length (f_k fs). n = cast_num (int i) \<and> luaO_rawequalObj (key_of fs (f_k fs ! i)) k)))"

definition pooled :: "TValue \<Rightarrow> 'a FuncState_scheme \<Rightarrow> bool" where
  "pooled k fs = ttisnumber (content (fs_h fs) k)"

lemma addk_set:
  assumes "key_set (ce_hash E) (fs_h fs) k (luaH_set (ce_hash E) (fs_h fs) k)" "realkey k"
  obtains idx h rs where "luaH_set (ce_hash E) (fs_h fs) k = Inr (idx, h, rs)" "table_ok (ce_hash E) h"
    "slot_value h idx = content (fs_h fs) k" "\<And>k'. realkey k' \<Longrightarrow> content h k' = content (fs_h fs) k'"
    "\<And>v. table_ok (ce_hash E) (store h idx v)"
    "\<And>v k'. realkey k' \<Longrightarrow> content (store h idx v) k' = (if luaO_rawequalObj k k' then v else content (fs_h fs) k')"
proof -
  from assms(1) obtain p t' r where r: "luaH_set (ce_hash E) (fs_h fs) k = Inr (p, t', r)" "table_ok (ce_hash E) t'"
    "slot_for (ce_hash E) t' k p" "\<And>k'. realkey k' \<Longrightarrow> content t' k' = content (fs_h fs) k'"
    unfolding key_set_def by blast
  show thesis
    by (rule that [OF r(1,2)])
      (use r assms(2) slot_value_content [OF r(2,3)] store_ok [OF r(2,3)] content_store [OF r(2,3)] in auto)
qed

lemma nk_log [simp]: "nk (log_rcs rs fs) = nk fs" "f_k (log_rcs rs fs) = f_k fs" "f_sizek (log_rcs rs fs) = f_sizek fs"
  "fs_h (log_rcs rs fs) = fs_h fs" "fs_mem (log_rcs rs fs) = fs_mem fs" "fs_rcs (log_rcs rs fs) = fs_rcs fs @ rs"
  by (simp_all add: log_rcs_def nk_def)

lemma addk_known:
  assumes ok: "pool_ok (ce_hash E) fs" and k: "realkey k" "pooled k fs" and n: "nk fs \<le> MAXARG_Bx"
  shows "\<exists>i fs'. addk E k v fs = Inr (int i, fs') \<and> i < length (f_k fs) \<and> luaO_rawequalObj (key_of fs (f_k fs ! i)) k \<and>
    f_k fs' = f_k fs \<and> f_sizek fs' = f_sizek fs \<and> fs_haddr fs' = fs_haddr fs \<and> pool_ok (ce_hash E) fs' \<and> pooled k fs'"
proof -
  have t: "table_ok (ce_hash E) (fs_h fs)" using ok by (simp add: pool_ok_def)
  obtain i where i: "i < length (f_k fs)" "content (fs_h fs) k = VNumber (cast_num (int i))" "luaO_rawequalObj (key_of fs (f_k fs ! i)) k"
    using ok k unfolding pool_ok_def pooled_def ttisnumber_iff by blast
  have "key_set (ce_hash E) (fs_h fs) k (luaH_set (ce_hash E) (fs_h fs) k)"
    by (rule luaH_set_present [OF t k(1)]) (simp add: i(2))
  then obtain idx h rs where
    h: "luaH_set (ce_hash E) (fs_h fs) k = Inr (idx, h, rs)" "table_ok (ce_hash E) h" "slot_value h idx = content (fs_h fs) k"
      "\<And>k'. realkey k' \<Longrightarrow> content h k' = content (fs_h fs) k'" by (rule addk_set [OF _ k(1)]) blast
  have "lua_number2int (cast_num (int i)) = int i"
    by (rule number2int_cast_num) (use i n in \<open>simp_all add: nk_def INT_MIN_def INT_MAX_def maxarg_defs layout_defs\<close>)
  then have "addk E k v fs = Inr (int i, log_rcs rs (fs\<lparr>fs_h := h\<rparr>))" using h(1,3) i(2) by (simp add: addk_def)
  moreover have "key_of (log_rcs rs (fs\<lparr>fs_h := h\<rparr>)) = key_of fs" by (simp add: key_of_def fun_eq_iff log_rcs_def)
  ultimately show ?thesis using h ok i k by (intro exI [of _ i]) (auto simp: pool_ok_def pooled_def log_rcs_def)
qed

lemma addk_new:
  assumes m: "ample (ce_mem E)" and n: "nk fs \<le> f_sizek fs" "f_sizek fs \<le> MAXARG_Bx" and ok: "pool_ok (ce_hash E) fs"
    and e: "elements (fs_h fs) < 2 ^ MAXBITS" and k: "realkey k" "\<not> pooled k fs" "k = key_of fs v"
  shows "if nk fs = MAXARG_Bx then addk E k v fs = Inl (LUA_ERRRUN ''constant table overflow'')
    else \<exists>fs'. addk E k v fs = Inr (nk fs, fs') \<and> f_k fs' = f_k fs @ [v] \<and> nk fs' \<le> f_sizek fs' \<and> f_sizek fs' \<le> MAXARG_Bx \<and>
      fs_haddr fs' = fs_haddr fs \<and> pool_ok (ce_hash E) fs' \<and> pooled k fs'"
proof -
  have t: "table_ok (ce_hash E) (fs_h fs)" using ok by (simp add: pool_ok_def)
  from luaH_set_ok [OF t k(1) e] obtain idx h rs where
    h: "luaH_set (ce_hash E) (fs_h fs) k = Inr (idx, h, rs)" "slot_value h idx = content (fs_h fs) k"
      "\<And>v. table_ok (ce_hash E) (store h idx v)"
      "\<And>v k'. realkey k' \<Longrightarrow> content (store h idx v) k' = (if luaO_rawequalObj k k' then v else content (fs_h fs) k')"
    by (rule addk_set [OF _ k(1)]) blast
  let ?old = "slot_value h idx" and ?v = "VNumber (cast_num (nk fs))"
  let ?fs = "log_rcs (luarc_subref ?old) (log_rcs rs (fs\<lparr>fs_h := store h idx ?v\<rparr>))"
  have nn: "\<not> ttisnumber ?old" using k(2) h(2) by (simp add: pooled_def)
  have a: "addk E k v fs =
      bindE (luaM_growvector (ce_mem E) (nk fs) (f_sizek fs) 16 MAXARG_Bx ''constant table overflow'' (fs_mem fs)) (\<lambda>(sz, m).
        Inr (nk fs, log_rcs (rc_setobj VNil v @ luarc_addref v) (?fs\<lparr>f_sizek := sz, fs_mem := m\<rparr>)\<lparr>f_k := f_k fs @ [v]\<rparr>))"
    using nn h(1) by (cases ?old) (simp_all add: addk_def ttisnumber_iff log_rcs_def nk_def)
  have r: "0 \<le> nk fs" by (simp add: nk_def)
  have l: "4 \<le> MAXARG_Bx" "MAXARG_Bx < INT_MAX" by (simp_all add: maxarg_defs layout_defs INT_MAX_def)
  note g = growvector_step [OF r n l, of 16 "ce_mem E" "''constant table overflow''" "fs_mem fs"]
  show ?thesis
  proof (cases "nk fs = MAXARG_Bx")
    case True
    then show ?thesis using g m a by simp
  next
    case False
    then obtain sz m' where gv: "luaM_growvector (ce_mem E) (nk fs) (f_sizek fs) 16 MAXARG_Bx ''constant table overflow'' (fs_mem fs) = Inr (sz, m')"
      "nk fs + 1 \<le> sz" "sz \<le> MAXARG_Bx" using g m by auto
    define fs' where "fs' = log_rcs (rc_setobj VNil v @ luarc_addref v) (?fs\<lparr>f_sizek := sz, fs_mem := m'\<rparr>)\<lparr>f_k := f_k fs @ [v]\<rparr>"
    have f: "fs_h fs' = store h idx ?v" "f_k fs' = f_k fs @ [v]" "f_sizek fs' = sz" "nk fs' = nk fs + 1" "fs_haddr fs' = fs_haddr fs"
      by (simp_all add: fs'_def log_rcs_def nk_def)
    have c: "content (fs_h fs') k' = (if luaO_rawequalObj k k' then ?v else content (fs_h fs) k')" if "realkey k'" for k'
      using h(4) [OF that] f(1) by simp
    have kk: "luaO_rawequalObj k k" using k(1) by (cases k) (auto simp: raweq luai_numeq_def)
    have ko: "key_of fs' = key_of fs" using f(5) by (simp add: key_of_def fun_eq_iff)
    have "pool_ok (ce_hash E) fs'"
      unfolding pool_ok_def
    proof (intro conjI allI impI)
      show "table_ok (ce_hash E) (fs_h fs')" using h(3) f(1) by simp
      fix k' n assume k': "realkey k'" "content (fs_h fs') k' = VNumber n"
      show "\<exists>i < length (f_k fs'). n = cast_num (int i) \<and> luaO_rawequalObj (key_of fs' (f_k fs' ! i)) k'"
      proof (cases "luaO_rawequalObj k k'")
        case True
        then show ?thesis using c [OF k'(1)] k'(2) f(2) k(3) by (intro exI [of _ "length (f_k fs)"]) (simp add: nk_def ko)
      next
        case False
        then obtain i where "i < length (f_k fs)" "n = cast_num (int i)" "luaO_rawequalObj (key_of fs (f_k fs ! i)) k'"
          using ok k' c [OF k'(1)] unfolding pool_ok_def by fastforce
        then show ?thesis using f(2) by (intro exI [of _ i]) (simp add: nth_append ko)
      qed
    qed
    moreover have "addk E k v fs = Inr (nk fs, fs')" using a gv(1) by (simp add: fs'_def)
    ultimately show ?thesis using False f gv c [OF k(1)] kk by (intro iffD2 [OF if_not_P [OF False]] exI [of _ fs']) (simp add: pooled_def ttisnumber_def)
  qed
qed


definition example_env :: cenv where
  "example_env = \<lparr>ce_mem = (\<lambda>_. True), ce_hash = (\<lambda>_. 7), luai_numadd = (\<lambda>a b. a), luai_numsub = (\<lambda>a b. a),
     luai_nummul = (\<lambda>a b. a), luai_numdiv = (\<lambda>a b. a), luai_numpow = (\<lambda>a b. a), num_floor = (\<lambda>a. a)\<rparr>"

lemma empty_table_ok: "table_ok hs empty_table" "elements empty_table = 0" "content empty_table k = VNil"
proof -
  have n: "luaH_new 0 0 = Inr empty_table"
    by (simp add: luaH_new_def setnodevector_def setarrayvector_def empty_table_def dummynode_def)
  obtain t where "luaH_new 0 0 = Inr t" "table_ok hs t" "elements t = 0" "\<And>k. content t k = VNil"
    by (rule luaH_new_ok [of 0 0 hs]) (simp_all add: MAXASIZE_def MAXBITS_def)
  then show "table_ok hs empty_table" "elements empty_table = 0" "content empty_table k = VNil" using n by auto
qed

lemma example_pool: "pool_ok hs (example_fs c)" "\<not> pooled k (example_fs c)" "nk (example_fs c) = 0" "f_sizek (example_fs c) = 0"
  "elements (fs_h (example_fs c)) = 0" "f_k (example_fs c) = []"
  by (simp_all add: pool_ok_def pooled_def example_fs_def empty_table_ok nk_def ttisnumber_def)


lemma content_rawequal:
  assumes "luaO_rawequalObj k k'"
  shows "content t k = content t k'"
proof -
  have "luaO_rawequalObj x k = luaO_rawequalObj x k'" for x
    using assms rawequal_trans rawequal_sym by blast
  then show ?thesis
    using in_array_rawequal [OF assms, of t] arrayindex_rawequal [OF assms] by (simp add: content_def)
qed

text \<open>Zero and minus zero are one constant: where zero is in the pool, its index is given for minus zero.\<close>

lemma zeros_share_constant:
  assumes "pool_ok (ce_hash E) fs" "pooled (VNumber 0) fs" "nk fs \<le> MAXARG_Bx"
  shows "\<exists>i fs'. luaK_numberK E (luai_numunm 0) fs = Inr (int i, fs') \<and> i < length (f_k fs) \<and> f_k fs' = f_k fs"
proof -
  let ?z = "luai_numunm 0"
  have z: "luai_numeq 0 ?z" "\<not> d_isnan ?z"
    by (simp_all add: luai_numunm_def d_isnan_def d_exp_def luai_numeq_def d_iszero_def d_frac_def)
  have "luaO_rawequalObj (VNumber 0) (VNumber ?z)" using z by (simp add: raweq)
  then have "pooled (VNumber ?z) fs" using assms(2) content_rawequal [of "VNumber 0" "VNumber ?z"] by (simp add: pooled_def)
  moreover have "realkey (VNumber ?z)" using z by simp
  ultimately show ?thesis
    using addk_known [OF assms(1) _ _ assms(3), of "VNumber ?z" "VNumber ?z"] unfolding luaK_numberK_def by blast
qed

section \<open>Counting\<close>

text \<open>
  C39. A new string constant is counted twice. When \<open>luaK_stringK\<close> adds the string to the constants, then
  beside what \<open>luaH_set\<close> does for the key it increments the count of the string twice (in \<open>setobj\<close> and in the
  \<open>luarc_addref\<close> behind it), but the prototype holds one more reference to it, and drops one when it is
  released.
\<close>

theorem constant_counted_twice:
  assumes "ample (ce_mem E)" "nk fs \<le> f_sizek fs" "f_sizek fs \<le> MAXARG_Bx" "nk fs < MAXARG_Bx"
    and "luaH_set (ce_hash E) (fs_h fs) (VString s) = Inr (idx, h, rs)" "slot_value h idx = VNil"
  shows "\<exists>fs'. luaK_stringK E s fs = Inr (nk fs, fs') \<and>
    fs_rcs fs' = fs_rcs fs @ [Inc s] @ rs @ [Inc s, Inc s] @ [Dec s] \<and>
    count_list (members (OProto src (f_k fs') ups ps locs)) (Some s) =
      count_list (members (OProto src (f_k fs) ups ps locs)) (Some s) + 1"
proof -
  have r: "0 \<le> nk fs" by (simp add: nk_def)
  have l: "4 \<le> MAXARG_Bx" "MAXARG_Bx < INT_MAX" by (simp_all add: maxarg_defs layout_defs INT_MAX_def)
  obtain sz m where "luaM_growvector (ce_mem E) (nk fs) (f_sizek fs) 16 MAXARG_Bx ''constant table overflow'' (fs_mem fs) = Inr (sz, m)"
    using growvector_step [OF r assms(2,3) l, of 16 "ce_mem E" "''constant table overflow''" "fs_mem fs"] assms(1,4) by auto
  moreover have "nk (fs\<lparr>f_k := xs, f_sizek := x, fs_mem := y, fs_h := z, fs_rcs := w\<rparr>) = int (length xs)" for xs x y z w by (simp add: nk_def)
  ultimately show ?thesis
    using assms(5,6)
    by (simp add: luaK_stringK_def addk_def luarc_subref_def luarc_addref_def rc_setobj_def log_rcs_def nk_def values_of_def tested_def)
qed

definition room_table :: Table where
  "room_table = \<lparr>arr = [], sizearray = 0, node = [dummynode], is_dummy = False, lsizenode = 0,
     lastfree = 1, flags = 255, resizecount = 0\<rparr>"

lemma room_table_set:
  "\<exists>h. luaH_set hs room_table (VString s) = Inr (In_node 0, h, [Inc s]) \<and> slot_value h (In_node 0) = VNil"
  by (simp add: luaH_set_def set_with_def luaH_get_def luaH_getstr_def walk_slot_def room_table_def sizenode_def gnode_def
      dummynode_def hashpow2_def put_key_def newkey_step_def set_node_def slot_value_def luarc_subref_def rc_setobj_def
      luarc_addref_def Let_def numeral_eq_Suc newkey.simps luai_numisnan_def)

theorem constant_counted_twice_witness:
  "\<exists>fs'. luaK_stringK example_env 32 (example_fs []\<lparr>fs_h := room_table\<rparr>) = Inr (0, fs') \<and>
    fs_rcs fs' = [Inc 32, Inc 32, Inc 32, Inc 32, Dec 32]"
proof -
  obtain h where "luaH_set (\<lambda>_. 7) room_table (VString 32) = Inr (In_node 0, h, [Inc 32])" "slot_value h (In_node 0) = VNil"
    using room_table_set by blast
  then show ?thesis
    using constant_counted_twice [of example_env "example_fs []\<lparr>fs_h := room_table\<rparr>" 32 "In_node 0" h "[Inc 32]"]
    by (auto simp: example_env_def example_fs_def ample_def nk_def maxarg_defs layout_defs)
qed

section \<open>The count word of SETLIST\<close>

definition room_ok :: "'a FuncState_scheme \<Rightarrow> bool" where
  "room_ok fs = (pc fs \<le> f_sizecode fs \<and> f_sizecode fs \<le> MAX_INT \<and> pc fs \<le> f_sizelineinfo fs \<and> f_sizelineinfo fs \<le> MAX_INT)"

text \<open>The state after an instruction went out, with no jump pending: sizes and accounting aside.\<close>

definition emitted :: "Instruction \<Rightarrow> 'a FuncState_scheme \<Rightarrow> 'a FuncState_scheme \<Rightarrow> bool" where
  "emitted i fs fs' = (room_ok fs' \<and> f_code fs' = f_code fs @ [i] \<and> fs_jpc fs' = NO_JUMP \<and> pc fs' = pc fs + 1 \<and>
     fs_ls fs' = fs_ls fs \<and> fs_freereg fs' = fs_freereg fs)"

lemma pc_upd [simp]: "pc (fs\<lparr>f_sizecode := a\<rparr>) = pc fs" "pc (fs\<lparr>f_sizelineinfo := a\<rparr>) = pc fs" "pc (fs\<lparr>fs_mem := m\<rparr>) = pc fs"
  "pc (fs\<lparr>fs_jpc := a\<rparr>) = pc fs" "pc (fs\<lparr>lasttarget := a\<rparr>) = pc fs" "pc (fs\<lparr>fs_freereg := a\<rparr>) = pc fs" "pc (fs\<lparr>f_lineinfo := ls\<rparr>) = pc fs"
  by (simp_all add: pc_def)

lemma discharge_none: "fs_jpc fs = NO_JUMP \<Longrightarrow> dischargejpc fs = Inr fs"
  by (simp add: dischargejpc_def patchlistaux_def list_steps_def)

lemma code_after_discharge:
  assumes "ample (ce_mem E)" "dischargejpc fs = Inr fs1" "room_ok fs1" "pc fs1 < MAX_INT" "fs_jpc fs1 = NO_JUMP"
  shows "\<exists>fs'. luaK_code E i line fs = Inr (pc fs1, fs') \<and> emitted i fs1 fs'"
proof -
  have r: "0 \<le> pc fs1" by (simp add: pc_def)
  have l: "4 \<le> MAX_INT" "MAX_INT < INT_MAX" by (simp_all add: MAX_INT_def INT_MAX_def)
  obtain sz m where 1: "luaM_growvector (ce_mem E) (pc fs1) (f_sizecode fs1) 4 MAX_INT ''code size overflow'' (fs_mem fs1) = Inr (sz, m)"
    "pc fs1 + 1 \<le> sz" "sz \<le> MAX_INT"
    using growvector_step [OF r _ _ l, of "f_sizecode fs1" 4 "ce_mem E" "''code size overflow''" "fs_mem fs1"] assms(1,3,4) by (auto simp: room_ok_def)
  obtain sz' m' where 2: "luaM_growvector (ce_mem E) (pc fs1) (f_sizelineinfo fs1) 4 MAX_INT ''code size overflow'' m = Inr (sz', m')"
    "pc fs1 + 1 \<le> sz'" "sz' \<le> MAX_INT"
    using growvector_step [OF r _ _ l, of "f_sizelineinfo fs1" 4 "ce_mem E" "''code size overflow''" m] assms(1,3,4) by (auto simp: room_ok_def)
  show ?thesis
    using assms(2,3,5) 1 2 by (simp add: luaK_code_def emitted_def room_ok_def Let_def) (simp add: pc_def)
qed

lemma code_plain:
  assumes "ample (ce_mem E)" "room_ok fs" "pc fs < MAX_INT" "fs_jpc fs = NO_JUMP"
  shows "\<exists>fs'. luaK_code E i line fs = Inr (pc fs, fs') \<and> emitted i fs fs'"
  by (rule code_after_discharge [OF assms(1) discharge_none [OF assms(4)] assms(2-4)])

lemma GETARG_Bx_ABx:
  assumes "0 \<le> bx" "bx \<le> MAXARG_Bx"
  shows "GETARG_Bx (CREATE_ABx (opc op) 0 bx) = bx"
proof -
  have r: "0 \<le> opc op" "opc op < 2 ^ SIZE_OP" "0 \<le> bx" "bx < 2 ^ SIZE_Bx"
    using assms by (cases op; simp add: maxarg_defs layout_defs opc_def)+
  have z: "(0 :: int) < 2 ^ SIZE_A" by simp
  show ?thesis
  proof (rule bit_eqI)
    fix k show "bit (GETARG_Bx (CREATE_ABx (opc op) 0 bx)) k = bit bx k"
      using bit_small_ge [OF r(3,4), of k] bit_CREATE_ABx [OF r(1,2) order_refl z r(3,4), of "14 + k"]
      by (cases "k < 18") (simp_all add: field_abs bit_get_field layout_defs)
  qed
qed

lemma count_word_539: "GET_OPCODE (539 :: Instruction) = 27" "patched_test NO_REG 539 = 26"
  by (simp_all add: GET_OPCODE_def get_field_eq layout_defs patched_test_def CREATE_ABC_def GETARG_B_def GETARG_C_def
      opc_nums)

text \<open>
  C40. A jump behind a large table constructor. The constructor with \<open>26901\<close> to \<open>26950\<close> items ends with a SETLIST
  whose count, 539, is in the word behind it. When a \<open>break\<close> follows, its jump is controlled, for
  \<open>getjumpcontrol\<close>, by that word: its low six bits are the number of TESTSET. Patching the jump turns the
  count into 26, so the last items are stored at the indices from 1251.
\<close>

theorem break_damages_count_word:
  assumes "ample (ce_mem E)" "room_ok fs" "pc fs + 4 \<le> MAX_INT" "fs_jpc fs = NO_JUMP"
    and "26901 \<le> nelems" "nelems \<le> 26950" "n \<noteq> LUA_MULTRET"
  shows "\<exists>fs1 j fs2 fs3. luaK_setlist E bs nelems n fs = Inr fs1 \<and> f_code fs1 ! (length (f_code fs) + 1) = 539 \<and>
    luaK_jump E fs1 = Inr (j, fs2) \<and>
    bindE (luaK_patchtohere j fs2) (luaK_ret E 0 0) = Inr fs3 \<and> f_code fs3 ! (length (f_code fs) + 1) = 26"
proof -
  let ?p = "length (f_code fs)"
  define w where "w = CREATE_ABC (opc OP_SETLIST) bs n 0"
  have p: "pc fs = int ?p" by (simp add: pc_def)
  have c: "c_quot (nelems - 1) LFIELDS_PER_FLUSH + 1 = 539"
  proof -
    have "(nelems - 1) div 50 = 538" by (rule int_div_pos_eq [of _ 50 538 "nelems - 26901"]) (use assms(5,6) in simp_all)
    then show ?thesis using assms(5) by (simp add: c_quot_def LFIELDS_PER_FLUSH_def)
  qed
  obtain f1 where f1: "luaK_code E w (lastline (fs_ls fs)) fs = Inr (pc fs, f1)" "emitted w fs f1"
    using code_plain [OF assms(1,2) _ assms(4)] assms(3) by fastforce
  obtain f2 where f2: "luaK_code E 539 (lastline (fs_ls f1)) f1 = Inr (pc f1, f2)" "emitted 539 f1 f2"
    using code_plain [OF assms(1), of f1] f1(2) assms(3) by (fastforce simp: emitted_def)
  define fs1 where "fs1 = f2\<lparr>fs_freereg := bs + 1\<rparr>"
  have 1: "luaK_setlist E bs nelems n fs = Inr fs1"
  proof -
    have "luaK_codeABC E OP_SETLIST bs n 0 fs = Inr (pc fs, f1)" using f1(1) by (simp only: luaK_codeABC_def w_def)
    moreover have "\<not> 539 \<le> MAXARG_C" by (simp add: maxarg_defs layout_defs)
    ultimately show ?thesis
      unfolding luaK_setlist_def Let_def c using f2(1) assms(7) by (simp only: if_False bindE_simps prod.case fs1_def word_of_int_numeral)
  qed
  have code1: "f_code fs1 = f_code fs @ [w, 539]" using f1(2) f2(2) by (simp add: fs1_def emitted_def)
  have ok1: "room_ok (fs1\<lparr>fs_jpc := NO_JUMP\<rparr>)" "pc (fs1\<lparr>fs_jpc := NO_JUMP\<rparr>) = int ?p + 2" "fs_jpc fs1 = NO_JUMP"
    using f1(2) f2(2) p by (simp_all add: fs1_def emitted_def room_ok_def)
  define i where "i = CREATE_ABx (opc OP_JMP) 0 (NO_JUMP + MAXARG_sBx)"
  obtain fs2 where f3: "luaK_code E i (lastline (fs_ls fs1)) (fs1\<lparr>fs_jpc := NO_JUMP\<rparr>) = Inr (int ?p + 2, fs2)"
    "emitted i (fs1\<lparr>fs_jpc := NO_JUMP\<rparr>) fs2"
    using code_plain [OF assms(1) ok1(1)] ok1 assms(3) p by fastforce
  have 2: "luaK_jump E fs1 = Inr (int ?p + 2, fs2)"
  proof -
    have "luaK_codeAsBx E OP_JMP 0 NO_JUMP (fs1\<lparr>fs_jpc := NO_JUMP\<rparr>) = Inr (int ?p + 2, fs2)"
      using f3(1) by (simp add: luaK_codeAsBx_def luaK_codeABx_def i_def)
    then show ?thesis unfolding luaK_jump_def Let_def using ok1(3) by (simp add: luaK_concat_def)
  qed
  define fs3 where "fs3 = fs2\<lparr>lasttarget := pc fs2, fs_jpc := int ?p + 2\<rparr>"
  have j2: "fs_jpc fs2 = NO_JUMP" using f3(2) by (simp add: emitted_def)
  have 3: "luaK_patchtohere (int ?p + 2) fs2 = Inr fs3"
    using j2 by (simp add: luaK_patchtohere_def luaK_getlabel_def luaK_concat_def fs3_def NO_JUMP_def)
  have code3: "f_code fs3 = f_code fs @ [w, 539, i]" using f3(2) code1 by (simp add: fs3_def emitted_def)
  have gi: "GET_OPCODE i = 22" "GETARG_sBx i = NO_JUMP"
    using GET_OPCODE_low(2) [of OP_JMP] GETARG_Bx_ABx [of "NO_JUMP + MAXARG_sBx" OP_JMP]
    by (simp_all add: i_def opc_nums GETARG_sBx_def NO_JUMP_def maxarg_defs layout_defs)
  have at: "f_code fs3 ! (?p + 2) = i" "f_code fs3 ! (?p + 1) = 539" "length (f_code fs3) = ?p + 3" using code3 by (simp_all add: nth_append)
  have ij: "jumps (f_code fs3) (int ?p + 2) [?p + 2]" "moves_value (f_code fs3) (?p + 2)"
    using at gi count_word_539(1) by (simp_all add: is_jump_def next_of_def moves_value_def opc_nums NUM_OPCODES_def)
  define c4 where "c4 = map (patched (f_code fs3) {?p + 2} (int ?p + 3) NO_REG (int ?p + 3)) [0..<?p + 3]"
  have p3: "pc fs3 = int ?p + 3" using at(3) by (simp add: pc_def)
  have "patchlistaux (int ?p + 2) (int ?p + 3) NO_REG (int ?p + 3) fs3 = Inr (fs3\<lparr>f_code := c4\<rparr>)"
    using patchlist_loop_ok [OF ij(1), of "list_steps fs3" "int ?p + 3" "int ?p + 3" NO_REG] at(3)
    by (simp add: patchlistaux_def list_steps_def in_reach_def maxarg_defs layout_defs c4_def)
  then have d: "dischargejpc fs3 = Inr (fs3\<lparr>f_code := c4, fs_jpc := NO_JUMP\<rparr>)"
    using p3 by (simp add: dischargejpc_def fs3_def)
  have l4: "length c4 = ?p + 3" "c4 ! (?p + 1) = 26"
    using ij(2) at(2) count_word_539(2) by (simp_all add: c4_def patched_def del: upt_Suc)
  have "room_ok fs3" using f3(2) p3 by (simp add: fs3_def emitted_def room_ok_def)
  then have ok4: "room_ok (fs3\<lparr>f_code := c4, fs_jpc := NO_JUMP\<rparr>)" "pc (fs3\<lparr>f_code := c4, fs_jpc := NO_JUMP\<rparr>) = int ?p + 3"
    using p3 l4(1) by (simp_all add: room_ok_def pc_def)
  obtain f5 where f5: "luaK_code E (CREATE_ABC (opc OP_RETURN) 0 1 0) (lastline (fs_ls fs3)) fs3 = Inr (int ?p + 3, f5)"
    "emitted (CREATE_ABC (opc OP_RETURN) 0 1 0) (fs3\<lparr>f_code := c4, fs_jpc := NO_JUMP\<rparr>) f5"
    using code_after_discharge [OF assms(1) d ok4(1)] ok4(2) assms(3) p by fastforce
  have 4: "luaK_ret E 0 0 fs3 = Inr f5" using f5(1) by (simp add: luaK_ret_def luaK_codeABC_def)
  have "f_code f5 ! (?p + 1) = 26" using f5(2) l4 by (simp add: emitted_def nth_append)
  moreover have "f_code fs1 ! (?p + 1) = 539" using code1 by (simp add: nth_append)
  ultimately show ?thesis using 1 2 3 4 by (intro exI [of _ fs1] exI [of _ "int ?p + 2"] exI [of _ fs2] exI [of _ f5]) simp
qed

theorem break_damages_count_word_witness:
  "\<exists>fs1. luaK_setlist example_env 0 26950 50 (example_fs []) = Inr fs1 \<and> f_code fs1 ! 1 = 539"
  using break_damages_count_word [of example_env "example_fs []" 26950 50 0]
  by (auto simp: example_env_def ample_def example_fs_def room_ok_def pc_def MAX_INT_def INT_MAX_def LUA_MULTRET_def)

end
