(* ===== verification/Lua_Parser.thy ===== *)
theory Lua_Parser
  imports Lua_Code
begin

text \<open>
  The parser, \<^verbatim>\<open>lparser.c\<close>: one pass over the tokens that drives the code generator.

  The state \<open>ParState\<close> is the \<open>FuncState\<close> of the function being compiled, extended by those of the functions
  around it (\<open>fs->prev\<close>, innermost first) and by \<open>L->nCcalls\<close>.  What C shares between them (the lexical state,
  the memory accounting, the log of reference counts) is in the innermost one and is handed on by \<open>share\<close>.
  \<open>fs_upvalues\<close> and \<open>f_upvalues\<close> have the \<open>nups\<close> entries in use, \<open>actvar\<close> has \<open>LUAI_MAXVARS\<close> entries.

  A name is its content, as in \<^verbatim>\<open>Lua_Lex\<close>; \<open>str_addr\<close> gives the address of the interned string (for the
  constants) and \<open>str_at\<close> the string at an address, \<open>h_addr\<close> the address of the table of constants of the
  function at a nesting depth.  The entries \<open>luaX_newstring\<close> makes in \<open>fs->h\<close> are the \<open>anchored\<close> strings of the
  lexer and are not in \<open>fs_h\<close>.  Counts of prototypes are not logged.

  The nonterminals are defined over the two that C declares ahead, \<open>subexpr\<close> (for \<open>expr\<close>) and \<open>chunk\<close>; the
  knot is tied by fuel, and loops have the same fuel.
\<close>

section \<open>State\<close>

record ParState = FuncState +
  prevs :: "FuncState list"
  nCcalls :: int

record penv = cenv +
  pe_clib :: clib
  str_addr :: "string \<Rightarrow> addr"
  str_at :: "addr \<Rightarrow> string"
  h_addr :: "nat \<Rightarrow> addr"

definition LUAI_MAXCCALLS :: int where "LUAI_MAXCCALLS = 200"
definition LUAI_MAXVARS :: int where "LUAI_MAXVARS = 200"
definition LUAI_MAXUPVALUES :: int where "LUAI_MAXUPVALUES = 60"
definition SHRT_MAX :: int where "SHRT_MAX = 32767"
definition UNARY_PRIORITY :: nat where "UNARY_PRIORITY = 8"

definition TK_AND :: int where "TK_AND = FIRST_RESERVED"
definition TK_BREAK :: int where "TK_BREAK = FIRST_RESERVED + 1"
definition TK_DO :: int where "TK_DO = FIRST_RESERVED + 2"
definition TK_ELSE :: int where "TK_ELSE = FIRST_RESERVED + 3"
definition TK_ELSEIF :: int where "TK_ELSEIF = FIRST_RESERVED + 4"
definition TK_END :: int where "TK_END = FIRST_RESERVED + 5"
definition TK_FALSE :: int where "TK_FALSE = FIRST_RESERVED + 6"
definition TK_FOR :: int where "TK_FOR = FIRST_RESERVED + 7"
definition TK_FUNCTION :: int where "TK_FUNCTION = FIRST_RESERVED + 8"
definition TK_IF :: int where "TK_IF = FIRST_RESERVED + 9"
definition TK_IN :: int where "TK_IN = FIRST_RESERVED + 10"
definition TK_LOCAL :: int where "TK_LOCAL = FIRST_RESERVED + 11"
definition TK_NIL :: int where "TK_NIL = FIRST_RESERVED + 12"
definition TK_NOT :: int where "TK_NOT = FIRST_RESERVED + 13"
definition TK_OR :: int where "TK_OR = FIRST_RESERVED + 14"
definition TK_REPEAT :: int where "TK_REPEAT = FIRST_RESERVED + 15"
definition TK_RETURN :: int where "TK_RETURN = FIRST_RESERVED + 16"
definition TK_THEN :: int where "TK_THEN = FIRST_RESERVED + 17"
definition TK_TRUE :: int where "TK_TRUE = FIRST_RESERVED + 18"
definition TK_UNTIL :: int where "TK_UNTIL = FIRST_RESERVED + 19"
definition TK_WHILE :: int where "TK_WHILE = FIRST_RESERVED + 20"

lemmas keyword_defs = TK_AND_def TK_BREAK_def TK_DO_def TK_ELSE_def TK_ELSEIF_def TK_END_def TK_FALSE_def TK_FOR_def
  TK_FUNCTION_def TK_IF_def TK_IN_def TK_LOCAL_def TK_NIL_def TK_NOT_def TK_OR_def TK_REPEAT_def TK_RETURN_def
  TK_THEN_def TK_TRUE_def TK_UNTIL_def TK_WHILE_def

type_synonym 'r par = "ParState \<Rightarrow> lua_err + 'r \<times> ParState"

definition hasmultret :: "expkind \<Rightarrow> bool" where
  "hasmultret k = (k = VCALL \<or> k = VVARARG)"

definition share :: "'a FuncState_scheme \<Rightarrow> FuncState \<Rightarrow> FuncState" where
  "share from fs = fs\<lparr>fs_ls := fs_ls from, fs_mem := fs_mem from, fs_rcs := fs_rcs from\<rparr>"

definition cur_token :: "'a FuncState_scheme \<Rightarrow> int" where
  "cur_token st = token (tok (fs_ls st))"

definition token_string :: "'a FuncState_scheme \<Rightarrow> string" where
  "token_string st = (case seminfo (tok (fs_ls st)) of Sem_ts s \<Rightarrow> s | Sem_r r \<Rightarrow> [])"

definition syntaxerror :: "'a FuncState_scheme \<Rightarrow> string \<Rightarrow> lua_err + 'b" where
  "syntaxerror st msg = luaX_syntaxerror (fs_ls st) msg"

definition next_token :: "'e penv_scheme \<Rightarrow> 'a FuncState_scheme \<Rightarrow> lua_err + 'a FuncState_scheme" where
  "next_token E st = bindE (luaX_next (pe_clib E) (fs_ls st)) (\<lambda>ls. Inr (st\<lparr>fs_ls := ls\<rparr>))"

definition newstring :: "'a FuncState_scheme \<Rightarrow> string \<Rightarrow> 'a FuncState_scheme" where
  "newstring st s = st\<lparr>fs_ls := snd (luaX_newstring (fs_ls st) s)\<rparr>"

definition quoted :: "string \<Rightarrow> string" where
  "quoted s = CHR 0x27 # s @ [CHR 0x27]"

section \<open>Tokens\<close>

definition anchor_token :: "'a FuncState_scheme \<Rightarrow> 'a FuncState_scheme" where
  "anchor_token st = (if cur_token st = TK_NAME \<or> cur_token st = TK_STRING then newstring st (token_string st) else st)"

definition error_expected :: "'a FuncState_scheme \<Rightarrow> int \<Rightarrow> lua_err + 'b" where
  "error_expected st t = syntaxerror st (quoted (luaX_token2str t) @ '' expected'')"

definition errorlimit :: "'a FuncState_scheme \<Rightarrow> int \<Rightarrow> string \<Rightarrow> lua_err + 'b" where
  "errorlimit fs limit what =
     (let msg = (if f_linedefined fs = 0 then ''main function has more than '' @ show_int limit @ '' '' @ what
                 else ''function at line '' @ show_int (f_linedefined fs) @ '' has more than '' @ show_int limit @ '' '' @ what)
      in luaX_lexerror (fs_ls fs) msg 0)"

definition luaY_checklimit :: "'a FuncState_scheme \<Rightarrow> int \<Rightarrow> int \<Rightarrow> string \<Rightarrow> lua_err + unit" where
  "luaY_checklimit fs v l m = (if v > l then errorlimit fs l m else Inr ())"

definition testnext :: "'e penv_scheme \<Rightarrow> int \<Rightarrow> 'a FuncState_scheme \<Rightarrow> lua_err + bool \<times> 'a FuncState_scheme" where
  "testnext E c st = (if cur_token st = c then bindE (next_token E st) (\<lambda>st. Inr (True, st)) else Inr (False, st))"

definition check :: "int \<Rightarrow> 'a FuncState_scheme \<Rightarrow> lua_err + unit" where
  "check c st = (if cur_token st \<noteq> c then error_expected st c else Inr ())"

definition checknext :: "'e penv_scheme \<Rightarrow> int \<Rightarrow> 'a FuncState_scheme \<Rightarrow> lua_err + 'a FuncState_scheme" where
  "checknext E c st = bindE (check c st) (\<lambda>_. next_token E st)"

definition check_match :: "'e penv_scheme \<Rightarrow> int \<Rightarrow> int \<Rightarrow> int \<Rightarrow> 'a FuncState_scheme \<Rightarrow> lua_err + 'a FuncState_scheme" where
  "check_match E what who whr st =
     bindE (testnext E what st) (\<lambda>(b, st).
       if b then Inr st
       else if whr = linenumber (fs_ls st) then error_expected st what
       else syntaxerror st (quoted (luaX_token2str what) @ '' expected (to close '' @ quoted (luaX_token2str who) @
              '' at line '' @ show_int whr @ '')''))"

definition str_checkname :: "'e penv_scheme \<Rightarrow> 'a FuncState_scheme \<Rightarrow> lua_err + string \<times> 'a FuncState_scheme" where
  "str_checkname E st =
     bindE (check TK_NAME st) (\<lambda>_. let ts = token_string st in bindE (next_token E st) (\<lambda>st. Inr (ts, st)))"

definition init_exp :: "expkind \<Rightarrow> int \<Rightarrow> expdesc" where
  "init_exp k i = \<lparr>ek = k, einfo = i, eaux = 0, enval = 0, et = NO_JUMP, ef = NO_JUMP\<rparr>"

definition codestring :: "'e penv_scheme \<Rightarrow> string \<Rightarrow> 'a FuncState_scheme \<Rightarrow> lua_err + expdesc \<times> 'a FuncState_scheme" where
  "codestring E s st = bindE (luaK_stringK E (str_addr E s) st) (\<lambda>(i, st). Inr (init_exp VK i, st))"

definition checkname :: "'e penv_scheme \<Rightarrow> 'a FuncState_scheme \<Rightarrow> lua_err + expdesc \<times> 'a FuncState_scheme" where
  "checkname E st = bindE (str_checkname E st) (\<lambda>(s, st). codestring E s st)"

section \<open>Variables\<close>

definition registerlocalvar :: "'e penv_scheme \<Rightarrow> string \<Rightarrow> 'a FuncState_scheme \<Rightarrow> lua_err + nat \<times> 'a FuncState_scheme" where
  "registerlocalvar E vname fs =
     bindE (luaM_growvector (ce_mem E) (int (length (f_locvars fs))) (f_sizelocvars fs) 16 SHRT_MAX
              ''too many local variables'' (fs_mem fs)) (\<lambda>(sz, m).
       Inr (length (f_locvars fs),
         log_rcs [Inc (str_addr E vname)] (fs\<lparr>f_sizelocvars := sz, fs_mem := m,
           f_locvars := f_locvars fs @ [\<lparr>varname = Some vname, startpc = 0, endpc = 0\<rparr>]\<rparr>)))"

definition put_actvar :: "int \<Rightarrow> nat \<Rightarrow> 'a FuncState_scheme \<Rightarrow> lua_err + 'a FuncState_scheme" where
  "put_actvar i v fs =
     (if 0 \<le> i \<and> i < int (length (actvar fs)) then Inr (fs\<lparr>actvar := (actvar fs)[nat i := v mod 65536]\<rparr>)
      else Inl (UB ''actvar''))"

definition new_localvar :: "'e penv_scheme \<Rightarrow> string \<Rightarrow> int \<Rightarrow> 'a FuncState_scheme \<Rightarrow> lua_err + 'a FuncState_scheme" where
  "new_localvar E name n fs =
     bindE (luaY_checklimit fs (nactvar fs + n + 1) LUAI_MAXVARS ''local variables'') (\<lambda>_.
     bindE (registerlocalvar E name fs) (\<lambda>(v, fs). put_actvar (nactvar fs + n) v fs))"

definition new_localvarliteral :: "'e penv_scheme \<Rightarrow> string \<Rightarrow> int \<Rightarrow> 'a FuncState_scheme \<Rightarrow> lua_err + 'a FuncState_scheme" where
  "new_localvarliteral E v n fs = new_localvar E v n (newstring fs v)"

text \<open>\<open>getlocvar(fs, i)\<close>: its index in \<open>locvars\<close>.\<close>

definition locvar_index :: "'a FuncState_scheme \<Rightarrow> int \<Rightarrow> lua_err + nat" where
  "locvar_index fs i =
     (if 0 \<le> i \<and> i < int (length (actvar fs)) \<and> actvar fs ! nat i < length (f_locvars fs) then Inr (actvar fs ! nat i)
      else Inl (UB ''locvars''))"

definition upd_locvar :: "int \<Rightarrow> (LocVar \<Rightarrow> LocVar) \<Rightarrow> 'a FuncState_scheme \<Rightarrow> lua_err + 'a FuncState_scheme" where
  "upd_locvar i f fs =
     bindE (locvar_index fs i) (\<lambda>j. Inr (fs\<lparr>f_locvars := (f_locvars fs)[j := f (f_locvars fs ! j)]\<rparr>))"

fun start_vars :: "nat \<Rightarrow> 'a FuncState_scheme \<Rightarrow> lua_err + 'a FuncState_scheme" where
  "start_vars 0 fs = Inr fs"
| "start_vars (Suc n) fs =
     bindE (upd_locvar (nactvar fs - int (Suc n)) (\<lambda>v. v\<lparr>startpc := pc fs\<rparr>) fs) (start_vars n)"

definition adjustlocalvars :: "int \<Rightarrow> 'a FuncState_scheme \<Rightarrow> lua_err + 'a FuncState_scheme" where
  "adjustlocalvars nvars fs = start_vars (nat nvars) (fs\<lparr>nactvar := (nactvar fs + nvars) mod 256\<rparr>)"

fun remove_loop :: "nat \<Rightarrow> 'a FuncState_scheme \<Rightarrow> lua_err + 'a FuncState_scheme" where
  "remove_loop 0 fs = Inr fs"
| "remove_loop (Suc n) fs =
     (let fs = fs\<lparr>nactvar := nactvar fs - 1\<rparr> in
      bindE (upd_locvar (nactvar fs) (\<lambda>v. v\<lparr>endpc := pc fs\<rparr>) fs) (remove_loop n))"

definition removevars :: "int \<Rightarrow> 'a FuncState_scheme \<Rightarrow> lua_err + 'a FuncState_scheme" where
  "removevars tolevel fs = remove_loop (nat (nactvar fs - tolevel)) fs"

fun find_upvalue :: "nat \<Rightarrow> upvaldesc list \<Rightarrow> expkind \<Rightarrow> int \<Rightarrow> nat option" where
  "find_upvalue i [] k info = None"
| "find_upvalue i (u # us) k info = (if uvk u = k \<and> uvinfo u = info then Some i else find_upvalue (i + 1) us k info)"

definition indexupvalue :: "'e penv_scheme \<Rightarrow> string \<Rightarrow> expdesc \<Rightarrow> FuncState \<Rightarrow> lua_err + int \<times> FuncState" where
  "indexupvalue E name v fs =
     (case find_upvalue 0 (fs_upvalues fs) (ek v) (einfo v) of
        Some i \<Rightarrow> Inr (int i, fs)
      | None \<Rightarrow>
          let nups = int (length (f_upvalues fs)) in
          bindE (luaY_checklimit fs (nups + 1) LUAI_MAXUPVALUES ''upvalues'') (\<lambda>_.
          bindE (luaM_growvector (ce_mem E) nups (f_sizeupvalues fs) 8 MAX_INT '''' (fs_mem fs)) (\<lambda>(sz, m).
            Inr (nups, log_rcs [Inc (str_addr E name)] (fs\<lparr>f_sizeupvalues := sz, fs_mem := m,
              f_upvalues := f_upvalues fs @ [Some name],
              fs_upvalues := fs_upvalues fs @ [\<lparr>uvk = ek v, uvinfo = einfo v mod 256\<rparr>]\<rparr>)))))"

fun searchvar_from :: "nat \<Rightarrow> string \<Rightarrow> FuncState \<Rightarrow> lua_err + int" where
  "searchvar_from 0 n fs = Inr (- 1)"
| "searchvar_from (Suc i) n fs =
     bindE (locvar_index fs (int i)) (\<lambda>j.
       if varname (f_locvars fs ! j) = Some n then Inr (int i) else searchvar_from i n fs)"

definition searchvar :: "FuncState \<Rightarrow> string \<Rightarrow> lua_err + int" where
  "searchvar fs n = searchvar_from (nat (nactvar fs)) n fs"

fun mark_block :: "BlockCnt list \<Rightarrow> int \<Rightarrow> BlockCnt list" where
  "mark_block [] level = []"
| "mark_block (b # bl) level = (if bl_nactvar b > level then b # mark_block bl level else b\<lparr>bl_upval := True\<rparr> # bl)"

definition markupval :: "int \<Rightarrow> FuncState \<Rightarrow> FuncState" where
  "markupval level fs = fs\<lparr>fs_bl := mark_block (fs_bl fs) level\<rparr>"

fun singlevaraux :: "'e penv_scheme \<Rightarrow> FuncState list \<Rightarrow> string \<Rightarrow> bool \<Rightarrow> lua_err + expdesc \<times> FuncState list" where
  "singlevaraux E [] n bs = Inr (init_exp VGLOBAL NO_REG, [])"
| "singlevaraux E (fs # fss) n bs =
     bindE (searchvar fs n) (\<lambda>v.
       if v \<ge> 0 then Inr (init_exp VLOCAL v, (if \<not> bs then markupval v fs else fs) # fss)
       else
         bindE (case fss of [] \<Rightarrow> singlevaraux E [] n False | g # gs \<Rightarrow> singlevaraux E (share fs g # gs) n False) (\<lambda>(var, fss).
           let fs = (case fss of [] \<Rightarrow> fs | g # gs \<Rightarrow> share g fs) in
           if ek var = VGLOBAL then Inr (var, fs # fss)
           else bindE (indexupvalue E n var fs) (\<lambda>(i, fs). Inr (var\<lparr>einfo := i, ek := VUPVAL\<rparr>, fs # fss))))"

definition with_fs :: "FuncState \<Rightarrow> FuncState list \<Rightarrow> ParState \<Rightarrow> ParState" where
  "with_fs fs fss st = FuncState.extend fs \<lparr>prevs = fss, nCcalls = nCcalls st\<rparr>"

definition singlevar :: "'e penv_scheme \<Rightarrow> expdesc par" where
  "singlevar E st =
     bindE (str_checkname E st) (\<lambda>(vname, st).
     bindE (singlevaraux E (FuncState.truncate st # prevs st) vname True) (\<lambda>(var, fss).
     case fss of [] \<Rightarrow> Inl (UB ''fs'') | fs # fss \<Rightarrow>
       let st = with_fs fs fss st in
       if ek var = VGLOBAL then bindE (luaK_stringK E (str_addr E vname) st) (\<lambda>(i, st). Inr (var\<lparr>einfo := i\<rparr>, st))
       else Inr (var, st)))"

definition adjust_assign :: "'e penv_scheme \<Rightarrow> int \<Rightarrow> int \<Rightarrow> expdesc \<Rightarrow> 'a FuncState_scheme \<Rightarrow> lua_err + expdesc \<times> 'a FuncState_scheme" where
  "adjust_assign E nvars nexps e fs =
     (let extra = nvars - nexps in
      if hasmultret (ek e) then
        let extra = (if extra + 1 < 0 then 0 else extra + 1) in
        bindE (luaK_setreturns e extra fs) (\<lambda>fs.
        bindE (if extra > 1 then luaK_reserveregs (extra - 1) fs else Inr fs) (\<lambda>fs. Inr (e, fs)))
      else
        bindE (if ek e \<noteq> VVOID then luaK_exp2nextreg E e fs else Inr (e, fs)) (\<lambda>(e, fs).
          if extra > 0 then
            let reg = fs_freereg fs in
            bindE (luaK_reserveregs extra fs) (\<lambda>fs. bindE (luaK_nil E reg extra fs) (\<lambda>fs. Inr (e, fs)))
          else Inr (e, fs)))"

section \<open>Levels, blocks and functions\<close>

definition enterlevel :: "ParState \<Rightarrow> lua_err + ParState" where
  "enterlevel st =
     (let st = st\<lparr>nCcalls := nCcalls st + 1\<rparr> in
      if nCcalls st > LUAI_MAXCCALLS then luaX_lexerror (fs_ls st) ''chunk has too many syntax levels'' 0 else Inr st)"

definition leavelevel :: "ParState \<Rightarrow> ParState" where
  "leavelevel st = st\<lparr>nCcalls := nCcalls st - 1\<rparr>"

definition enterblock :: "bool \<Rightarrow> 'a FuncState_scheme \<Rightarrow> 'a FuncState_scheme" where
  "enterblock brk fs =
     fs\<lparr>fs_bl := \<lparr>breaklist = NO_JUMP, bl_nactvar = nactvar fs, bl_upval = False, isbreakable = brk\<rparr> # fs_bl fs\<rparr>"

definition leaveblock :: "'e cenv_scheme \<Rightarrow> 'a FuncState_scheme \<Rightarrow> lua_err + 'a FuncState_scheme" where
  "leaveblock E fs =
     (case fs_bl fs of [] \<Rightarrow> Inl (UB ''block'') | bl # bls \<Rightarrow>
        bindE (removevars (bl_nactvar bl) (fs\<lparr>fs_bl := bls\<rparr>)) (\<lambda>fs.
        bindE (if bl_upval bl then bindE (luaK_codeABC E OP_CLOSE (bl_nactvar bl) 0 0 fs) (\<lambda>(_, fs). Inr fs) else Inr fs) (\<lambda>fs.
          luaK_patchtohere (breaklist bl) (fs\<lparr>fs_freereg := nactvar fs\<rparr>))))"

definition blank_func :: "LexState \<Rightarrow> mem_state \<Rightarrow> rc list \<Rightarrow> Table \<Rightarrow> addr \<Rightarrow> FuncState" where
  "blank_func ls m rcs h a = \<lparr>f_code = [], f_sizecode = 0, f_lineinfo = [], f_sizelineinfo = 0, f_k = [], f_sizek = 0,
     f_p = [], f_sizep = 0, f_locvars = [], f_sizelocvars = 0, f_upvalues = [], f_sizeupvalues = 0,
     f_linedefined = 0, f_lastlinedefined = 0, f_numparams = 0, f_is_vararg = 0, f_maxstacksize = 2,
     fs_h = h, fs_haddr = a, fs_ls = ls, fs_bl = [], lasttarget = - 1, fs_jpc = NO_JUMP, fs_freereg = 0, nactvar = 0,
     fs_upvalues = [], actvar = replicate (nat LUAI_MAXVARS) 0, fs_mem = m,
     fs_rcs = rcs @ [Inc a]\<rparr>"

text \<open>\<open>open_func\<close>, inside a function and for the main one; the source is counted, and the table on the stack.\<close>

definition new_func :: "'e penv_scheme \<Rightarrow> nat \<Rightarrow> LexState \<Rightarrow> mem_state \<Rightarrow> rc list \<Rightarrow> lua_err + FuncState" where
  "new_func E depth ls m rcs =
     bindE (luaH_new 0 0) (\<lambda>h. Inr (blank_func ls m (rcs @ [Inc (str_addr E (source_name ls))]) h (h_addr E depth)))"

definition open_func :: "'e penv_scheme \<Rightarrow> ParState \<Rightarrow> lua_err + ParState" where
  "open_func E st =
     bindE (new_func E (length (prevs st) + 1) (fs_ls st) (fs_mem st) (fs_rcs st)) (\<lambda>fs.
       Inr (with_fs fs (FuncState.truncate st # prevs st) st))"

definition const_of :: "'e penv_scheme \<Rightarrow> TValue \<Rightarrow> Const" where
  "const_of E v = (case v of VBoolean b \<Rightarrow> KBoolean b | VNumber n \<Rightarrow> KNumber n | VString a \<Rightarrow> KString (Some (str_at E a)) | _ \<Rightarrow> KNil)"

definition proto_of :: "'e penv_scheme \<Rightarrow> 'a FuncState_scheme \<Rightarrow> Proto" where
  "proto_of E fs = Proto (map (const_of E) (f_k fs)) (f_code fs) (f_p fs) (f_lineinfo fs) (f_locvars fs) (f_upvalues fs)
     (Some (source_name (fs_ls fs))) (f_linedefined fs) (f_lastlinedefined fs) (word_of_int (int (length (f_upvalues fs))))
     (word_of_int (f_numparams fs)) (f_is_vararg fs) (word_of_int (f_maxstacksize fs))"

text \<open>The vectors are cut to what is used.\<close>

definition shrink :: "allocator \<Rightarrow> 'a FuncState_scheme \<Rightarrow> lua_err + 'a FuncState_scheme" where
  "shrink mem fs =
     bindE (luaM_reallocv_int mem (f_sizecode fs) (pc fs) 4 (fs_mem fs)) (\<lambda>m.
     bindE (luaM_reallocv_int mem (f_sizelineinfo fs) (pc fs) 4 m) (\<lambda>m.
     bindE (luaM_reallocv_int mem (f_sizek fs) (nk fs) 16 m) (\<lambda>m.
     bindE (luaM_reallocv_int mem (f_sizep fs) (int (length (f_p fs))) 8 m) (\<lambda>m.
     bindE (luaM_reallocv_int mem (f_sizelocvars fs) (int (length (f_locvars fs))) 16 m) (\<lambda>m.
     bindE (luaM_reallocv_int mem (f_sizeupvalues fs) (int (length (f_upvalues fs))) 8 m) (\<lambda>m.
       Inr (fs\<lparr>f_sizecode := pc fs, f_sizelineinfo := pc fs, f_sizek := nk fs, f_sizep := int (length (f_p fs)),
         f_sizelocvars := int (length (f_locvars fs)), f_sizeupvalues := int (length (f_upvalues fs)), fs_mem := m\<rparr>)))))))"

text \<open>\<open>close_func\<close>: the prototype, its upvalues for \<open>pushclosure\<close>, and the enclosing function, if there is one.\<close>

definition close_func :: "'e penv_scheme \<Rightarrow> ParState \<Rightarrow> lua_err + Proto \<times> upvaldesc list \<times> ParState option" where
  "close_func E st =
     bindE (removevars 0 st) (\<lambda>st.
     bindE (luaK_ret E 0 0 st) (\<lambda>st.
     bindE (shrink (ce_mem E) st) (\<lambda>st.
     let out = log_rcs [Dec (fs_haddr st)] st in
       Inr (proto_of E st, fs_upvalues st,
         case prevs st of [] \<Rightarrow> None | g # gs \<Rightarrow> Some (anchor_token (with_fs (share out g) gs st))))))"

fun code_upvals :: "'e cenv_scheme \<Rightarrow> upvaldesc list \<Rightarrow> 'a FuncState_scheme \<Rightarrow> lua_err + 'a FuncState_scheme" where
  "code_upvals E [] fs = Inr fs"
| "code_upvals E (u # us) fs =
     bindE (luaK_codeABC E (if uvk u = VLOCAL then OP_MOVE else OP_GETUPVAL) 0 (uvinfo u) 0 fs) (\<lambda>(_, fs). code_upvals E us fs)"

definition pushclosure :: "'e cenv_scheme \<Rightarrow> Proto \<Rightarrow> upvaldesc list \<Rightarrow> 'a FuncState_scheme \<Rightarrow> lua_err + expdesc \<times> 'a FuncState_scheme" where
  "pushclosure E f upvals fs =
     bindE (luaM_growvector (ce_mem E) (int (length (f_p fs))) (f_sizep fs) 8 MAXARG_Bx ''constant table overflow'' (fs_mem fs)) (\<lambda>(sz, m).
     let fs = fs\<lparr>f_sizep := sz, fs_mem := m, f_p := f_p fs @ [f]\<rparr> in
     bindE (luaK_codeABx E OP_CLOSURE 0 (int (length (f_p fs)) - 1) fs) (\<lambda>(i, fs).
     bindE (code_upvals E upvals fs) (\<lambda>fs. Inr (init_exp VRELOCABLE i, fs))))"

section \<open>Expressions\<close>

text \<open>The two nonterminals C declares ahead are the parameters \<open>sub\<close> and \<open>chk\<close>; \<open>n\<close> bounds the loops.\<close>

type_synonym rsub = "nat \<Rightarrow> (BinOpr \<times> expdesc) par"
type_synonym rchunk = "ParState \<Rightarrow> lua_err + ParState"

definition expr :: "rsub \<Rightarrow> expdesc par" where
  "expr sub st = bindE (sub 0 st) (\<lambda>((_, v), st). Inr (v, st))"

definition parse_field :: "'e penv_scheme \<Rightarrow> expdesc \<Rightarrow> expdesc par" where
  "parse_field E v st =
     bindE (luaK_exp2anyreg E v st) (\<lambda>(_, v, st).
     bindE (next_token E st) (\<lambda>st.
     bindE (checkname E st) (\<lambda>(key, st). luaK_indexed E v key st)))"

definition yindex :: "'e penv_scheme \<Rightarrow> rsub \<Rightarrow> expdesc par" where
  "yindex E sub st =
     bindE (next_token E st) (\<lambda>st.
     bindE (expr sub st) (\<lambda>(v, st).
     bindE (luaK_exp2val E v st) (\<lambda>(v, st).
     bindE (checknext E (uchar CHR '']'') st) (\<lambda>st. Inr (v, st)))))"

record ConsControl =
  cc_v :: expdesc
  cc_t :: expdesc
  cc_nh :: int
  cc_na :: int
  cc_tostore :: int

definition recfield :: "'e penv_scheme \<Rightarrow> rsub \<Rightarrow> ConsControl \<Rightarrow> ConsControl par" where
  "recfield E sub cc st =
     (let reg = fs_freereg st in
      bindE (if cur_token st = TK_NAME
             then bindE (luaY_checklimit st (cc_nh cc) MAX_INT ''items in a constructor'') (\<lambda>_. checkname E st)
             else yindex E sub st) (\<lambda>(key, st).
      let cc = cc\<lparr>cc_nh := cc_nh cc + 1\<rparr> in
      bindE (checknext E (uchar CHR ''='') st) (\<lambda>st.
      bindE (luaK_exp2RK E key st) (\<lambda>(rkkey, key, st).
      bindE (expr sub st) (\<lambda>(val, st).
      bindE (luaK_exp2RK E val st) (\<lambda>(rkval, val, st).
      bindE (luaK_codeABC E OP_SETTABLE (einfo (cc_t cc)) rkkey rkval st) (\<lambda>(_, st).
        Inr (cc, st\<lparr>fs_freereg := reg\<rparr>))))))))"

definition closelistfield :: "'e penv_scheme \<Rightarrow> ConsControl \<Rightarrow> ConsControl par" where
  "closelistfield E cc st =
     (if ek (cc_v cc) = VVOID then Inr (cc, st)
      else
        bindE (luaK_exp2nextreg E (cc_v cc) st) (\<lambda>(v, st).
        let cc = cc\<lparr>cc_v := v\<lparr>ek := VVOID\<rparr>\<rparr> in
        if cc_tostore cc = LFIELDS_PER_FLUSH then
          bindE (luaK_setlist E (einfo (cc_t cc)) (cc_na cc) (cc_tostore cc) st) (\<lambda>st. Inr (cc\<lparr>cc_tostore := 0\<rparr>, st))
        else Inr (cc, st)))"

definition lastlistfield :: "'e penv_scheme \<Rightarrow> ConsControl \<Rightarrow> ConsControl par" where
  "lastlistfield E cc st =
     (if cc_tostore cc = 0 then Inr (cc, st)
      else if hasmultret (ek (cc_v cc)) then
        bindE (luaK_setreturns (cc_v cc) LUA_MULTRET st) (\<lambda>st.
        bindE (luaK_setlist E (einfo (cc_t cc)) (cc_na cc) LUA_MULTRET st) (\<lambda>st. Inr (cc\<lparr>cc_na := cc_na cc - 1\<rparr>, st)))
      else
        bindE (if ek (cc_v cc) \<noteq> VVOID then luaK_exp2nextreg E (cc_v cc) st else Inr (cc_v cc, st)) (\<lambda>(v, st).
        bindE (luaK_setlist E (einfo (cc_t cc)) (cc_na cc) (cc_tostore cc) st) (\<lambda>st. Inr (cc\<lparr>cc_v := v\<rparr>, st))))"

definition listfield :: "rsub \<Rightarrow> ConsControl \<Rightarrow> ConsControl par" where
  "listfield sub cc st =
     bindE (expr sub st) (\<lambda>(v, st).
     bindE (luaY_checklimit st (cc_na cc) MAX_INT ''items in a constructor'') (\<lambda>_.
       Inr (cc\<lparr>cc_v := v, cc_na := cc_na cc + 1, cc_tostore := cc_tostore cc + 1\<rparr>, st)))"

definition next_is_comma :: "'e penv_scheme \<Rightarrow> bool par" where
  "next_is_comma E st =
     bindE (testnext E (uchar CHR '','') st) (\<lambda>(b, st). if b then Inr (True, st) else testnext E (uchar CHR '';'') st)"

text \<open>One item: what follows a name decides between a list and a record field.\<close>

definition cons_item :: "'e penv_scheme \<Rightarrow> rsub \<Rightarrow> ConsControl \<Rightarrow> ConsControl par" where
  "cons_item E sub cc st =
     (if cur_token st = TK_NAME then
        bindE (luaX_lookahead (pe_clib E) (fs_ls st)) (\<lambda>ls.
          let st = st\<lparr>fs_ls := ls\<rparr> in
          if token (lookahead ls) \<noteq> uchar CHR ''='' then listfield sub cc st else recfield E sub cc st)
      else if cur_token st = uchar CHR ''['' then recfield E sub cc st
      else listfield sub cc st)"

fun cons_loop :: "nat \<Rightarrow> 'e penv_scheme \<Rightarrow> rsub \<Rightarrow> ConsControl \<Rightarrow> ConsControl par" where
  "cons_loop 0 E sub cc st = Inl (UB ''fuel'')"
| "cons_loop (Suc n) E sub cc st =
     (if cur_token st = uchar CHR ''}'' then Inr (cc, st)
      else
        bindE (closelistfield E cc st) (\<lambda>(cc, st).
        bindE (cons_item E sub cc st) (\<lambda>(cc, st).
        bindE (next_is_comma E st) (\<lambda>(b, st). if b then cons_loop n E sub cc st else Inr (cc, st)))))"

definition constructor :: "nat \<Rightarrow> 'e penv_scheme \<Rightarrow> rsub \<Rightarrow> expdesc par" where
  "constructor n E sub st =
     (let line = linenumber (fs_ls st) in
      bindE (luaK_codeABC E OP_NEWTABLE 0 0 0 st) (\<lambda>(p, st).
      bindE (luaK_exp2nextreg E (init_exp VRELOCABLE p) st) (\<lambda>(t, st).
      bindE (checknext E (uchar CHR ''{'') st) (\<lambda>st.
      bindE (cons_loop n E sub \<lparr>cc_v = init_exp VVOID 0, cc_t = t, cc_nh = 0, cc_na = 0, cc_tostore = 0\<rparr> st) (\<lambda>(cc, st).
      bindE (check_match E (uchar CHR ''}'') (uchar CHR ''{'') line st) (\<lambda>st.
      bindE (lastlistfield E cc st) (\<lambda>(cc, st).
      bindE (code_upd p (\<lambda>i. SETARG_B i (luaO_int2fb (word_of_int (cc_na cc)))) st) (\<lambda>st.
      bindE (code_upd p (\<lambda>i. SETARG_C i (luaO_int2fb (word_of_int (cc_nh cc)))) st) (\<lambda>st. Inr (cc_t cc, st))))))))))"

fun params_loop :: "nat \<Rightarrow> 'e penv_scheme \<Rightarrow> int \<Rightarrow> int par" where
  "params_loop 0 E nparams st = Inl (UB ''fuel'')"
| "params_loop (Suc n) E nparams st =
     bindE (if cur_token st = TK_NAME then
              bindE (str_checkname E st) (\<lambda>(s, st). bindE (new_localvar E s nparams st) (\<lambda>st. Inr (nparams + 1, st)))
            else if cur_token st = TK_DOTS then
              bindE (next_token E st) (\<lambda>st.
              bindE (new_localvarliteral E ''arg'' nparams st) (\<lambda>st.
                Inr (nparams + 1, st\<lparr>f_is_vararg := VARARG_HASARG OR VARARG_NEEDSARG OR VARARG_ISVARARG\<rparr>)))
            else syntaxerror st (''<name> or '' @ quoted ''...'' @ '' expected'')) (\<lambda>(nparams, st).
     if f_is_vararg st \<noteq> 0 then Inr (nparams, st)
     else bindE (testnext E (uchar CHR '','') st) (\<lambda>(b, st). if b then params_loop n E nparams st else Inr (nparams, st)))"

definition parlist :: "nat \<Rightarrow> 'e penv_scheme \<Rightarrow> rchunk" where
  "parlist n E st =
     (let st = st\<lparr>f_is_vararg := 0\<rparr> in
      bindE (if cur_token st \<noteq> uchar CHR '')'' then params_loop n E 0 st else Inr (0, st)) (\<lambda>(nparams, st).
      bindE (adjustlocalvars nparams st) (\<lambda>st.
        let st = st\<lparr>f_numparams := (nactvar st - uint (f_is_vararg st AND VARARG_HASARG)) mod 256\<rparr> in
        luaK_reserveregs (nactvar st) st)))"

definition body :: "nat \<Rightarrow> 'e penv_scheme \<Rightarrow> rchunk \<Rightarrow> bool \<Rightarrow> int \<Rightarrow> expdesc par" where
  "body n E chk needself line st =
     bindE (open_func E st) (\<lambda>st.
     bindE (checknext E (uchar CHR ''('') (st\<lparr>f_linedefined := line\<rparr>)) (\<lambda>st.
     bindE (if needself then bindE (new_localvarliteral E ''self'' 0 st) (adjustlocalvars 1) else Inr st) (\<lambda>st.
     bindE (parlist n E st) (\<lambda>st.
     bindE (checknext E (uchar CHR '')'') st) (\<lambda>st.
     bindE (chk st) (\<lambda>st.
     bindE (check_match E TK_END TK_FUNCTION line (st\<lparr>f_lastlinedefined := linenumber (fs_ls st)\<rparr>)) (\<lambda>st.
     bindE (close_func E st) (\<lambda>(f, upvals, r).
     case r of None \<Rightarrow> Inl (UB ''fs'') | Some st \<Rightarrow> pushclosure E f upvals st))))))))"

fun explist_loop :: "nat \<Rightarrow> 'e penv_scheme \<Rightarrow> rsub \<Rightarrow> int \<Rightarrow> expdesc \<Rightarrow> (int \<times> expdesc) par" where
  "explist_loop 0 E sub k v st = Inl (UB ''fuel'')"
| "explist_loop (Suc n) E sub k v st =
     bindE (testnext E (uchar CHR '','') st) (\<lambda>(b, st).
       if b then
         bindE (luaK_exp2nextreg E v st) (\<lambda>(_, st).
         bindE (expr sub st) (\<lambda>(v, st). explist_loop n E sub (k + 1) v st))
       else Inr ((k, v), st))"

definition explist1 :: "nat \<Rightarrow> 'e penv_scheme \<Rightarrow> rsub \<Rightarrow> (int \<times> expdesc) par" where
  "explist1 n E sub st = bindE (expr sub st) (\<lambda>(v, st). explist_loop n E sub 1 v st)"

text \<open>The arguments of a call, and the call.\<close>

definition call_args :: "nat \<Rightarrow> 'e penv_scheme \<Rightarrow> rsub \<Rightarrow> int \<Rightarrow> expdesc par" where
  "call_args n E sub line st =
     (if cur_token st = uchar CHR ''('' then
        if line \<noteq> lastline (fs_ls st) then syntaxerror st ''ambiguous syntax (function call x new statement)''
        else
          bindE (next_token E st) (\<lambda>st.
          bindE (if cur_token st = uchar CHR '')'' then Inr (init_exp VVOID 0, st)
                 else bindE (explist1 n E sub st) (\<lambda>((_, args), st).
                   bindE (luaK_setreturns args LUA_MULTRET st) (\<lambda>st. Inr (args, st)))) (\<lambda>(args, st).
          bindE (check_match E (uchar CHR '')'') (uchar CHR ''('') line st) (\<lambda>st. Inr (args, st))))
      else if cur_token st = uchar CHR ''{'' then constructor n E sub st
      else if cur_token st = TK_STRING then
        bindE (codestring E (token_string st) st) (\<lambda>(args, st). bindE (next_token E st) (\<lambda>st. Inr (args, st)))
      else syntaxerror st ''function arguments expected'')"

definition funcargs :: "nat \<Rightarrow> 'e penv_scheme \<Rightarrow> rsub \<Rightarrow> expdesc \<Rightarrow> expdesc par" where
  "funcargs n E sub f st =
     (let line = linenumber (fs_ls st) in
      bindE (call_args n E sub line st) (\<lambda>(args, st).
      let bs = einfo f in
      bindE (if hasmultret (ek args) then Inr (LUA_MULTRET, st)
             else bindE (if ek args \<noteq> VVOID then luaK_exp2nextreg E args st else Inr (args, st)) (\<lambda>(_, st).
               Inr (fs_freereg st - (bs + 1), st))) (\<lambda>(nparams, st).
      bindE (luaK_codeABC E OP_CALL bs (nparams + 1) 2 st) (\<lambda>(i, st).
      bindE (luaK_fixline line st) (\<lambda>st. Inr (init_exp VCALL i, st\<lparr>fs_freereg := bs + 1\<rparr>))))))"

definition prefixexp :: "'e penv_scheme \<Rightarrow> rsub \<Rightarrow> expdesc par" where
  "prefixexp E sub st =
     (if cur_token st = uchar CHR ''('' then
        let line = linenumber (fs_ls st) in
        bindE (next_token E st) (\<lambda>st.
        bindE (expr sub st) (\<lambda>(v, st).
        bindE (check_match E (uchar CHR '')'') (uchar CHR ''('') line st) (\<lambda>st. luaK_dischargevars E v st)))
      else if cur_token st = TK_NAME then singlevar E st
      else syntaxerror st ''unexpected symbol'')"

fun primary_loop :: "nat \<Rightarrow> nat \<Rightarrow> 'e penv_scheme \<Rightarrow> rsub \<Rightarrow> expdesc \<Rightarrow> expdesc par" where
  "primary_loop 0 n E sub v st = Inl (UB ''fuel'')"
| "primary_loop (Suc k) n E sub v st =
     (if cur_token st = uchar CHR ''.'' then
        bindE (parse_field E v st) (\<lambda>(v, st). primary_loop k n E sub v st)
      else if cur_token st = uchar CHR ''['' then
        bindE (luaK_exp2anyreg E v st) (\<lambda>(_, v, st).
        bindE (yindex E sub st) (\<lambda>(key, st).
        bindE (luaK_indexed E v key st) (\<lambda>(v, st). primary_loop k n E sub v st)))
      else if cur_token st = uchar CHR '':'' then
        bindE (next_token E st) (\<lambda>st.
        bindE (checkname E st) (\<lambda>(key, st).
        bindE (luaK_self E v key st) (\<lambda>(v, st).
        bindE (funcargs n E sub v st) (\<lambda>(v, st). primary_loop k n E sub v st))))
      else if cur_token st = uchar CHR ''('' \<or> cur_token st = TK_STRING \<or> cur_token st = uchar CHR ''{'' then
        bindE (luaK_exp2nextreg E v st) (\<lambda>(v, st).
        bindE (funcargs n E sub v st) (\<lambda>(v, st). primary_loop k n E sub v st))
      else Inr (v, st))"

definition primaryexp :: "nat \<Rightarrow> 'e penv_scheme \<Rightarrow> rsub \<Rightarrow> expdesc par" where
  "primaryexp n E sub st = bindE (prefixexp E sub st) (\<lambda>(v, st). primary_loop n n E sub v st)"

definition simpleexp :: "nat \<Rightarrow> 'e penv_scheme \<Rightarrow> rsub \<Rightarrow> rchunk \<Rightarrow> expdesc par" where
  "simpleexp n E sub chk st =
     (let finish = (\<lambda>(v, st). bindE (next_token E st) (\<lambda>st. Inr (v, st))) in
      if cur_token st = TK_NUMBER then
        finish ((init_exp VKNUM 0)\<lparr>enval := (case seminfo (tok (fs_ls st)) of Sem_r r \<Rightarrow> r | Sem_ts s \<Rightarrow> 0)\<rparr>, st)
      else if cur_token st = TK_STRING then bindE (codestring E (token_string st) st) finish
      else if cur_token st = TK_NIL then finish (init_exp VNIL 0, st)
      else if cur_token st = TK_TRUE then finish (init_exp VTRUE 0, st)
      else if cur_token st = TK_FALSE then finish (init_exp VFALSE 0, st)
      else if cur_token st = TK_DOTS then
        if f_is_vararg st = 0 then syntaxerror st (''cannot use '' @ quoted ''...'' @ '' outside a vararg function'')
        else
          bindE (luaK_codeABC E OP_VARARG 0 1 0 (st\<lparr>f_is_vararg := f_is_vararg st AND NOT VARARG_NEEDSARG\<rparr>)) (\<lambda>(i, st).
            finish (init_exp VVARARG i, st))
      else if cur_token st = uchar CHR ''{'' then constructor n E sub st
      else if cur_token st = TK_FUNCTION then
        bindE (next_token E st) (\<lambda>st. body n E chk False (linenumber (fs_ls st)) st)
      else primaryexp n E sub st)"

definition getunopr :: "int \<Rightarrow> UnOpr" where
  "getunopr op =
     (if op = TK_NOT then OPR_NOT else if op = uchar CHR ''-'' then OPR_MINUS
      else if op = uchar CHR ''#'' then OPR_LEN else OPR_NOUNOPR)"

definition getbinopr :: "int \<Rightarrow> BinOpr" where
  "getbinopr op =
     (if op = uchar CHR ''+'' then OPR_ADD else if op = uchar CHR ''-'' then OPR_SUB
      else if op = uchar CHR ''*'' then OPR_MUL else if op = uchar CHR ''/'' then OPR_DIV
      else if op = uchar CHR ''%'' then OPR_MOD else if op = uchar CHR ''^'' then OPR_POW
      else if op = TK_CONCAT then OPR_CONCAT else if op = TK_NE then OPR_NE else if op = TK_EQ then OPR_EQ
      else if op = uchar CHR ''<'' then OPR_LT else if op = TK_LE then OPR_LE
      else if op = uchar CHR ''>'' then OPR_GT else if op = TK_GE then OPR_GE
      else if op = TK_AND then OPR_AND else if op = TK_OR then OPR_OR else OPR_NOBINOPR)"

text \<open>The left and the right priority of a binary operator.\<close>

fun priority :: "BinOpr \<Rightarrow> nat \<times> nat" where
  "priority OPR_ADD = (6, 6)"
| "priority OPR_SUB = (6, 6)"
| "priority OPR_MUL = (7, 7)"
| "priority OPR_DIV = (7, 7)"
| "priority OPR_MOD = (7, 7)"
| "priority OPR_POW = (10, 9)"
| "priority OPR_CONCAT = (5, 4)"
| "priority OPR_NE = (3, 3)"
| "priority OPR_EQ = (3, 3)"
| "priority OPR_LT = (3, 3)"
| "priority OPR_LE = (3, 3)"
| "priority OPR_GT = (3, 3)"
| "priority OPR_GE = (3, 3)"
| "priority OPR_AND = (2, 2)"
| "priority OPR_OR = (1, 1)"
| "priority OPR_NOBINOPR = (0, 0)"

fun binop_loop :: "nat \<Rightarrow> 'e penv_scheme \<Rightarrow> rsub \<Rightarrow> nat \<Rightarrow> BinOpr \<Rightarrow> expdesc \<Rightarrow> (BinOpr \<times> expdesc) par" where
  "binop_loop 0 E sub limit op v st = Inl (UB ''fuel'')"
| "binop_loop (Suc n) E sub limit op v st =
     (if op \<noteq> OPR_NOBINOPR \<and> fst (priority op) > limit then
        bindE (next_token E st) (\<lambda>st.
        bindE (luaK_infix E op v st) (\<lambda>(v, st).
        bindE (sub (snd (priority op)) st) (\<lambda>((nextop, v2), st).
        bindE (luaK_posfix E op v v2 st) (\<lambda>(v, st). binop_loop n E sub limit nextop v st))))
      else Inr ((op, v), st))"

definition subexpr_body :: "nat \<Rightarrow> 'e penv_scheme \<Rightarrow> rsub \<Rightarrow> rchunk \<Rightarrow> rsub" where
  "subexpr_body n E sub chk limit st =
     bindE (enterlevel st) (\<lambda>st.
     let uop = getunopr (cur_token st) in
     bindE (if uop \<noteq> OPR_NOUNOPR then
              bindE (next_token E st) (\<lambda>st.
              bindE (sub UNARY_PRIORITY st) (\<lambda>((_, v), st). luaK_prefix E uop v st))
            else simpleexp n E sub chk st) (\<lambda>(v, st).
     bindE (binop_loop n E sub limit (getbinopr (cur_token st)) v st) (\<lambda>(r, st). Inr (r, leavelevel st))))"

section \<open>Statements\<close>

definition block_follow :: "int \<Rightarrow> bool" where
  "block_follow t = (t = TK_ELSE \<or> t = TK_ELSEIF \<or> t = TK_END \<or> t = TK_UNTIL \<or> t = TK_EOS)"

definition block :: "'e penv_scheme \<Rightarrow> rchunk \<Rightarrow> rchunk" where
  "block E chk st = bindE (chk (enterblock False st)) (leaveblock E)"

text \<open>
  \<open>check_conflict\<close> over the assignment targets so far (the last one first): a table or index register that is
  the local variable \<open>v\<close> is replaced by its copy.
\<close>

definition fix_target :: "int \<Rightarrow> int \<Rightarrow> expdesc \<Rightarrow> expdesc" where
  "fix_target v extra lh =
     (if ek lh = VINDEXED then
        lh\<lparr>einfo := (if einfo lh = v then extra else einfo lh), eaux := (if eaux lh = v then extra else eaux lh)\<rparr>
      else lh)"

definition check_conflict :: "'e cenv_scheme \<Rightarrow> expdesc list \<Rightarrow> expdesc \<Rightarrow> expdesc list par" where
  "check_conflict E lh v st =
     (let extra = fs_freereg st;
          conflict = (\<exists>t \<in> set lh. ek t = VINDEXED \<and> (einfo t = einfo v \<or> eaux t = einfo v));
          lh = map (fix_target (einfo v) extra) lh in
      if conflict then
        bindE (luaK_codeABC E OP_MOVE (fs_freereg st) (einfo v) 0 st) (\<lambda>(_, st).
        bindE (luaK_reserveregs 1 st) (\<lambda>st. Inr (lh, st)))
      else Inr (lh, st))"

text \<open>The right-hand sides of an assignment, whose last target is \<open>v\<close>.\<close>

definition assign_values :: "nat \<Rightarrow> 'e penv_scheme \<Rightarrow> rsub \<Rightarrow> expdesc \<Rightarrow> int \<Rightarrow> bool par" where
  "assign_values n E sub v nvars st =
     bindE (checknext E (uchar CHR ''='') st) (\<lambda>st.
     bindE (explist1 n E sub st) (\<lambda>((nexps, e), st).
       if nexps \<noteq> nvars then
         bindE (adjust_assign E nvars nexps e st) (\<lambda>(e, st).
           Inr (False, if nexps > nvars then st\<lparr>fs_freereg := fs_freereg st - (nexps - nvars)\<rparr> else st))
       else
         bindE (luaK_setoneret e st) (\<lambda>(e, st).
         bindE (luaK_storevar E v e st) (\<lambda>(_, st). Inr (True, st)))))"

text \<open>\<open>assignment\<close>: the targets from the last one back; the earlier ones as they are after the call.\<close>

fun assignment :: "nat \<Rightarrow> nat \<Rightarrow> 'e penv_scheme \<Rightarrow> rsub \<Rightarrow> expdesc list \<Rightarrow> int \<Rightarrow> expdesc list par" where
  "assignment 0 n E sub lh nvars st = Inl (UB ''fuel'')"
| "assignment (Suc k) n E sub lh nvars st =
     (if ek (hd lh) \<notin> {VLOCAL, VUPVAL, VGLOBAL, VINDEXED} then syntaxerror st ''syntax error''
      else
        let store_default = (\<lambda>lh st. bindE (luaK_storevar E (hd lh) (init_exp VNONRELOC (fs_freereg st - 1)) st) (\<lambda>(_, st). Inr (tl lh, st))) in
        bindE (testnext E (uchar CHR '','') st) (\<lambda>(b, st).
          if b then
            bindE (primaryexp n E sub st) (\<lambda>(nv, st).
            bindE (if ek nv = VLOCAL then check_conflict E lh nv st else Inr (lh, st)) (\<lambda>(lh, st).
            bindE (luaY_checklimit st nvars (LUAI_MAXCCALLS - nCcalls st) ''variables in assignment'') (\<lambda>_.
            bindE (assignment k n E sub (nv # lh) (nvars + 1) st) (\<lambda>(lh, st). store_default lh st))))
          else
            bindE (assign_values n E sub (hd lh) nvars st) (\<lambda>(done, st).
              if done then Inr (tl lh, st) else store_default lh st)))"

definition cond :: "'e penv_scheme \<Rightarrow> rsub \<Rightarrow> int par" where
  "cond E sub st =
     bindE (expr sub st) (\<lambda>(v, st).
     bindE (luaK_goiftrue E (if ek v = VNIL then v\<lparr>ek := VFALSE\<rparr> else v) st) (\<lambda>(v, st). Inr (ef v, st)))"

text \<open>The innermost loop: how many blocks lie inside it, and whether one of these has an upvalue.\<close>

fun find_loop_block :: "BlockCnt list \<Rightarrow> nat \<Rightarrow> bool \<Rightarrow> (nat \<times> bool) option" where
  "find_loop_block [] i upval = None"
| "find_loop_block (b # bl) i upval =
     (if isbreakable b then Some (i, upval) else find_loop_block bl (i + 1) (upval \<or> bl_upval b))"

definition breakstat :: "'e penv_scheme \<Rightarrow> rchunk" where
  "breakstat E st =
     (case find_loop_block (fs_bl st) 0 False of
        None \<Rightarrow> syntaxerror st ''no loop to break''
      | Some (i, upval) \<Rightarrow>
          bindE (if upval then bindE (luaK_codeABC E OP_CLOSE (bl_nactvar (fs_bl st ! i)) 0 0 st) (\<lambda>(_, st). Inr st) else Inr st) (\<lambda>st.
          bindE (luaK_jump E st) (\<lambda>(j, st).
          bindE (luaK_concat (breaklist (fs_bl st ! i)) j st) (\<lambda>(l, st).
            Inr (st\<lparr>fs_bl := (fs_bl st)[i := (fs_bl st ! i)\<lparr>breaklist := l\<rparr>]\<rparr>)))))"

definition whilestat :: "'e penv_scheme \<Rightarrow> rsub \<Rightarrow> rchunk \<Rightarrow> int \<Rightarrow> rchunk" where
  "whilestat E sub chk line st =
     bindE (next_token E st) (\<lambda>st.
     let (whileinit, st) = luaK_getlabel st in
     bindE (cond E sub st) (\<lambda>(condexit, st).
     bindE (checknext E TK_DO (enterblock True st)) (\<lambda>st.
     bindE (block E chk st) (\<lambda>st.
     bindE (luaK_jump E st) (\<lambda>(j, st).
     bindE (luaK_patchlist j whileinit st) (\<lambda>st.
     bindE (check_match E TK_END TK_WHILE line st) (\<lambda>st.
     bindE (leaveblock E st) (luaK_patchtohere condexit))))))))"

definition repeatstat :: "'e penv_scheme \<Rightarrow> rsub \<Rightarrow> rchunk \<Rightarrow> int \<Rightarrow> rchunk" where
  "repeatstat E sub chk line st =
     (let (repeat_init, st) = luaK_getlabel st in
      bindE (next_token E (enterblock False (enterblock True st))) (\<lambda>st.
      bindE (chk st) (\<lambda>st.
      bindE (check_match E TK_UNTIL TK_REPEAT line st) (\<lambda>st.
      bindE (cond E sub st) (\<lambda>(condexit, st).
      bindE (case fs_bl st of [] \<Rightarrow> Inl (UB ''block'') | bl2 # _ \<Rightarrow>
        if \<not> bl_upval bl2 then
          bindE (leaveblock E st) (luaK_patchlist condexit repeat_init)
        else
          bindE (breakstat E st) (\<lambda>st.
          bindE (luaK_patchtohere condexit st) (\<lambda>st.
          bindE (leaveblock E st) (\<lambda>st.
          bindE (luaK_jump E st) (\<lambda>(j, st). luaK_patchlist j repeat_init st))))) (leaveblock E))))))"

definition exp1 :: "'e penv_scheme \<Rightarrow> rsub \<Rightarrow> expkind par" where
  "exp1 E sub st = bindE (expr sub st) (\<lambda>(e, st). bindE (luaK_exp2nextreg E e st) (\<lambda>(_, st). Inr (ek e, st)))"

definition forbody :: "'e penv_scheme \<Rightarrow> rchunk \<Rightarrow> int \<Rightarrow> int \<Rightarrow> int \<Rightarrow> bool \<Rightarrow> rchunk" where
  "forbody E chk bs line nvars isnum st =
     bindE (adjustlocalvars 3 st) (\<lambda>st.
     bindE (checknext E TK_DO st) (\<lambda>st.
     bindE (if isnum then luaK_codeAsBx E OP_FORPREP bs NO_JUMP st else luaK_jump E st) (\<lambda>(prep, st).
     bindE (adjustlocalvars nvars (enterblock False st)) (\<lambda>st.
     bindE (luaK_reserveregs nvars st) (\<lambda>st.
     bindE (block E chk st) (\<lambda>st.
     bindE (leaveblock E st) (\<lambda>st.
     bindE (luaK_patchtohere prep st) (\<lambda>st.
     bindE (if isnum then luaK_codeAsBx E OP_FORLOOP bs NO_JUMP st else luaK_codeABC E OP_TFORLOOP bs 0 nvars st) (\<lambda>(endfor, st).
     bindE (luaK_fixline line st) (\<lambda>st.
     bindE (if isnum then Inr (endfor, st) else luaK_jump E st) (\<lambda>(j, st). luaK_patchlist j (prep + 1) st)))))))))))"

definition fornum :: "'e penv_scheme \<Rightarrow> rsub \<Rightarrow> rchunk \<Rightarrow> string \<Rightarrow> int \<Rightarrow> rchunk" where
  "fornum E sub chk vname line st =
     (let bs = fs_freereg st in
      bindE (new_localvarliteral E ''(for index)'' 0 st) (\<lambda>st.
      bindE (new_localvarliteral E ''(for limit)'' 1 st) (\<lambda>st.
      bindE (new_localvarliteral E ''(for step)'' 2 st) (\<lambda>st.
      bindE (new_localvar E vname 3 st) (\<lambda>st.
      bindE (checknext E (uchar CHR ''='') st) (\<lambda>st.
      bindE (exp1 E sub st) (\<lambda>(_, st).
      bindE (checknext E (uchar CHR '','') st) (\<lambda>st.
      bindE (exp1 E sub st) (\<lambda>(_, st).
      bindE (testnext E (uchar CHR '','') st) (\<lambda>(b, st).
      bindE (if b then bindE (exp1 E sub st) (\<lambda>(_, st). Inr st)
             else
               bindE (luaK_numberK E (cast_num 1) st) (\<lambda>(k, st).
               bindE (luaK_codeABx E OP_LOADK (fs_freereg st) k st) (\<lambda>(_, st). luaK_reserveregs 1 st))) (\<lambda>st.
        forbody E chk bs line 1 True st)))))))))))"

fun names_loop :: "nat \<Rightarrow> 'e penv_scheme \<Rightarrow> int \<Rightarrow> int par" where
  "names_loop 0 E nvars st = Inl (UB ''fuel'')"
| "names_loop (Suc n) E nvars st =
     bindE (testnext E (uchar CHR '','') st) (\<lambda>(b, st).
       if b then
         bindE (str_checkname E st) (\<lambda>(s, st).
         bindE (new_localvar E s nvars st) (\<lambda>st. names_loop n E (nvars + 1) st))
       else Inr (nvars, st))"

definition forlist :: "nat \<Rightarrow> 'e penv_scheme \<Rightarrow> rsub \<Rightarrow> rchunk \<Rightarrow> string \<Rightarrow> rchunk" where
  "forlist n E sub chk indexname st =
     (let bs = fs_freereg st in
      bindE (new_localvarliteral E ''(for generator)'' 0 st) (\<lambda>st.
      bindE (new_localvarliteral E ''(for state)'' 1 st) (\<lambda>st.
      bindE (new_localvarliteral E ''(for control)'' 2 st) (\<lambda>st.
      bindE (new_localvar E indexname 3 st) (\<lambda>st.
      bindE (names_loop n E 4 st) (\<lambda>(nvars, st).
      bindE (checknext E TK_IN st) (\<lambda>st.
      let line = linenumber (fs_ls st) in
      bindE (explist1 n E sub st) (\<lambda>((nexps, e), st).
      bindE (adjust_assign E 3 nexps e st) (\<lambda>(_, st).
      bindE (luaK_checkstack 3 st) (\<lambda>st. forbody E chk bs line (nvars - 3) False st))))))))))"

definition forstat :: "nat \<Rightarrow> 'e penv_scheme \<Rightarrow> rsub \<Rightarrow> rchunk \<Rightarrow> int \<Rightarrow> rchunk" where
  "forstat n E sub chk line st =
     bindE (next_token E (enterblock True st)) (\<lambda>st.
     bindE (str_checkname E st) (\<lambda>(vname, st).
     bindE (if cur_token st = uchar CHR ''='' then fornum E sub chk vname line st
            else if cur_token st = uchar CHR '','' \<or> cur_token st = TK_IN then forlist n E sub chk vname st
            else syntaxerror st (quoted ''='' @ '' or '' @ quoted ''in'' @ '' expected'')) (\<lambda>st.
     bindE (check_match E TK_END TK_FOR line st) (leaveblock E))))"

definition test_then_block :: "'e penv_scheme \<Rightarrow> rsub \<Rightarrow> rchunk \<Rightarrow> int par" where
  "test_then_block E sub chk st =
     bindE (next_token E st) (\<lambda>st.
     bindE (cond E sub st) (\<lambda>(condexit, st).
     bindE (checknext E TK_THEN st) (\<lambda>st.
     bindE (block E chk st) (\<lambda>st. Inr (condexit, st)))))"

fun elseif_loop :: "nat \<Rightarrow> 'e penv_scheme \<Rightarrow> rsub \<Rightarrow> rchunk \<Rightarrow> int \<Rightarrow> int \<Rightarrow> (int \<times> int) par" where
  "elseif_loop 0 E sub chk flist escapelist st = Inl (UB ''fuel'')"
| "elseif_loop (Suc n) E sub chk flist escapelist st =
     (if cur_token st = TK_ELSEIF then
        bindE (luaK_jump E st) (\<lambda>(j, st).
        bindE (luaK_concat escapelist j st) (\<lambda>(escapelist, st).
        bindE (luaK_patchtohere flist st) (\<lambda>st.
        bindE (test_then_block E sub chk st) (\<lambda>(flist, st). elseif_loop n E sub chk flist escapelist st))))
      else Inr ((flist, escapelist), st))"

definition ifstat :: "nat \<Rightarrow> 'e penv_scheme \<Rightarrow> rsub \<Rightarrow> rchunk \<Rightarrow> int \<Rightarrow> rchunk" where
  "ifstat n E sub chk line st =
     bindE (test_then_block E sub chk st) (\<lambda>(flist, st).
     bindE (elseif_loop n E sub chk flist NO_JUMP st) (\<lambda>((flist, escapelist), st).
     bindE (if cur_token st = TK_ELSE then
              bindE (luaK_jump E st) (\<lambda>(j, st).
              bindE (luaK_concat escapelist j st) (\<lambda>(escapelist, st).
              bindE (luaK_patchtohere flist st) (\<lambda>st.
              bindE (next_token E st) (\<lambda>st.
              bindE (block E chk st) (\<lambda>st. Inr (escapelist, st))))))
            else luaK_concat escapelist flist st) (\<lambda>(escapelist, st).
     bindE (luaK_patchtohere escapelist st) (check_match E TK_END TK_IF line))))"

definition localfunc :: "nat \<Rightarrow> 'e penv_scheme \<Rightarrow> rchunk \<Rightarrow> rchunk" where
  "localfunc n E chk st =
     bindE (str_checkname E st) (\<lambda>(s, st).
     bindE (new_localvar E s 0 st) (\<lambda>st.
     let v = init_exp VLOCAL (fs_freereg st) in
     bindE (luaK_reserveregs 1 st) (\<lambda>st.
     bindE (adjustlocalvars 1 st) (\<lambda>st.
     bindE (body n E chk False (linenumber (fs_ls st)) st) (\<lambda>(b, st).
     bindE (luaK_storevar E v b st) (\<lambda>(_, st).
       upd_locvar (nactvar st - 1) (\<lambda>v. v\<lparr>startpc := pc st\<rparr>) st))))))"

definition localstat :: "nat \<Rightarrow> 'e penv_scheme \<Rightarrow> rsub \<Rightarrow> rchunk" where
  "localstat n E sub st =
     bindE (str_checkname E st) (\<lambda>(s, st).
     bindE (new_localvar E s 0 st) (\<lambda>st.
     bindE (names_loop n E 1 st) (\<lambda>(nvars, st).
     bindE (testnext E (uchar CHR ''='') st) (\<lambda>(b, st).
     bindE (if b then explist1 n E sub st else Inr ((0, init_exp VVOID 0), st)) (\<lambda>((nexps, e), st).
     bindE (adjust_assign E nvars nexps e st) (\<lambda>(_, st). adjustlocalvars nvars st))))))"

fun fields_loop :: "nat \<Rightarrow> 'e penv_scheme \<Rightarrow> expdesc \<Rightarrow> expdesc par" where
  "fields_loop 0 E v st = Inl (UB ''fuel'')"
| "fields_loop (Suc n) E v st =
     (if cur_token st = uchar CHR ''.'' then bindE (parse_field E v st) (\<lambda>(v, st). fields_loop n E v st) else Inr (v, st))"

definition funcname :: "nat \<Rightarrow> 'e penv_scheme \<Rightarrow> (bool \<times> expdesc) par" where
  "funcname n E st =
     bindE (singlevar E st) (\<lambda>(v, st).
     bindE (fields_loop n E v st) (\<lambda>(v, st).
       if cur_token st = uchar CHR '':'' then bindE (parse_field E v st) (\<lambda>(v, st). Inr ((True, v), st))
       else Inr ((False, v), st)))"

definition funcstat :: "nat \<Rightarrow> 'e penv_scheme \<Rightarrow> rchunk \<Rightarrow> int \<Rightarrow> rchunk" where
  "funcstat n E chk line st =
     bindE (next_token E st) (\<lambda>st.
     bindE (funcname n E st) (\<lambda>((needself, v), st).
     bindE (body n E chk needself line st) (\<lambda>(b, st).
     bindE (luaK_storevar E v b st) (\<lambda>(_, st). luaK_fixline line st))))"

definition exprstat :: "nat \<Rightarrow> 'e penv_scheme \<Rightarrow> rsub \<Rightarrow> rchunk" where
  "exprstat n E sub st =
     bindE (primaryexp n E sub st) (\<lambda>(v, st).
       if ek v = VCALL then code_upd (einfo v) (\<lambda>i. SETARG_C i 1) st
       else bindE (assignment n n E sub [v] 1 st) (\<lambda>(_, st). Inr st))"

text \<open>The values of a return statement: the first register and their number.\<close>

definition return_values :: "nat \<Rightarrow> 'e penv_scheme \<Rightarrow> rsub \<Rightarrow> (int \<times> int) par" where
  "return_values n E sub st =
     bindE (explist1 n E sub st) (\<lambda>((nret, e), st).
       if hasmultret (ek e) then
         bindE (luaK_setreturns e LUA_MULTRET st) (\<lambda>st.
         bindE (if ek e = VCALL \<and> nret = 1 then code_upd (einfo e) (\<lambda>i. SET_OPCODE i (opc OP_TAILCALL)) st else Inr st) (\<lambda>st.
           Inr ((nactvar st, LUA_MULTRET), st)))
       else if nret = 1 then bindE (luaK_exp2anyreg E e st) (\<lambda>(r, _, st). Inr ((r, nret), st))
       else bindE (luaK_exp2nextreg E e st) (\<lambda>(_, st). Inr ((nactvar st, nret), st)))"

definition retstat :: "nat \<Rightarrow> 'e penv_scheme \<Rightarrow> rsub \<Rightarrow> rchunk" where
  "retstat n E sub st =
     bindE (next_token E st) (\<lambda>st.
     bindE (if block_follow (cur_token st) \<or> cur_token st = uchar CHR '';'' then Inr ((0, 0), st)
            else return_values n E sub st) (\<lambda>((frst, nret), st). luaK_ret E frst nret st))"

definition statement :: "nat \<Rightarrow> 'e penv_scheme \<Rightarrow> rsub \<Rightarrow> rchunk \<Rightarrow> bool par" where
  "statement n E sub chk st =
     (let line = linenumber (fs_ls st); t = cur_token st;
          more = (\<lambda>r. bindE r (\<lambda>st. Inr (False, st))) in
      if t = TK_IF then more (ifstat n E sub chk line st)
      else if t = TK_WHILE then more (whilestat E sub chk line st)
      else if t = TK_DO then
        more (bindE (next_token E st) (\<lambda>st. bindE (block E chk st) (check_match E TK_END TK_DO line)))
      else if t = TK_FOR then more (forstat n E sub chk line st)
      else if t = TK_REPEAT then more (repeatstat E sub chk line st)
      else if t = TK_FUNCTION then more (funcstat n E chk line st)
      else if t = TK_LOCAL then
        bindE (next_token E st) (\<lambda>st.
        bindE (testnext E TK_FUNCTION st) (\<lambda>(b, st). more (if b then localfunc n E chk st else localstat n E sub st)))
      else if t = TK_RETURN then bindE (retstat n E sub st) (\<lambda>st. Inr (True, st))
      else if t = TK_BREAK then bindE (next_token E st) (\<lambda>st. bindE (breakstat E st) (\<lambda>st. Inr (True, st)))
      else more (exprstat n E sub st))"

fun stat_loop :: "nat \<Rightarrow> nat \<Rightarrow> 'e penv_scheme \<Rightarrow> rsub \<Rightarrow> rchunk \<Rightarrow> rchunk" where
  "stat_loop 0 n E sub chk st = Inl (UB ''fuel'')"
| "stat_loop (Suc k) n E sub chk st =
     (if block_follow (cur_token st) then Inr st
      else
        bindE (statement n E sub chk st) (\<lambda>(islast, st).
        bindE (testnext E (uchar CHR '';'') st) (\<lambda>(_, st).
        let st = st\<lparr>fs_freereg := nactvar st\<rparr> in
          if islast then Inr st else stat_loop k n E sub chk st)))"

definition chunk_body :: "nat \<Rightarrow> 'e penv_scheme \<Rightarrow> rsub \<Rightarrow> rchunk \<Rightarrow> rchunk" where
  "chunk_body n E sub chk st =
     bindE (enterlevel st) (\<lambda>st. bindE (stat_loop n n E sub chk st) (\<lambda>st. Inr (leavelevel st)))"

fun subexpr :: "nat \<Rightarrow> 'e penv_scheme \<Rightarrow> rsub"
  and chunk :: "nat \<Rightarrow> 'e penv_scheme \<Rightarrow> rchunk" where
  "subexpr 0 E limit st = Inl (UB ''fuel'')"
| "subexpr (Suc n) E limit st = subexpr_body n E (subexpr n E) (chunk n E) limit st"
| "chunk 0 E st = Inl (UB ''fuel'')"
| "chunk (Suc n) E st = chunk_body n E (subexpr n E) (chunk n E) st"

section \<open>The parser\<close>

definition luaY_parser :: "nat \<Rightarrow> 'e penv_scheme \<Rightarrow> LexState \<Rightarrow> mem_state \<Rightarrow> int \<Rightarrow> string \<Rightarrow> string \<Rightarrow> lua_err + Proto" where
  "luaY_parser n E ls m calls z name =
     bindE (luaX_setinput ls z name) (\<lambda>ls.
     bindE (new_func E 0 ls m []) (\<lambda>fs.
     let st = FuncState.extend (fs\<lparr>f_is_vararg := VARARG_ISVARARG\<rparr>) \<lparr>prevs = [], nCcalls = calls\<rparr> in
     bindE (next_token E st) (\<lambda>st.
     bindE (chunk n E st) (\<lambda>st.
     bindE (check TK_EOS st) (\<lambda>_.
     bindE (close_func E st) (\<lambda>(f, _, _). Inr f))))))"

end
