(* ===== verification/Lua_ParserProps.thy ===== *)
theory Lua_ParserProps
  imports Lua_Parser Lua_LexProps Lua_TableLaws Lua_CodeCheck
begin

text \<open>
  The parser ends.  \<open>settles P m\<close> says that \<open>m\<close> gives a result with \<open>P\<close>, or an error other than those by which
  the model would stop where C goes on: its fuel, a missing block or a missing function.
\<close>

section \<open>Results\<close>

definition model_error :: "lua_err \<Rightarrow> bool" where
  "model_error e = (e \<in> {UB ''fuel'', UB ''block'', UB ''fs''})"

definition settles :: "('a \<Rightarrow> bool) \<Rightarrow> lua_err + 'a \<Rightarrow> bool" where
  "settles P m = (case m of Inl e \<Rightarrow> \<not> model_error e | Inr x \<Rightarrow> P x)"

named_theorems wps "the facts about one operation, as rules"

lemma settles_simps [simp]:
  "settles P (Inr x) = P x" "settles P (Inl e) = (\<not> model_error e)" "settles P (bindE m f) = settles (\<lambda>x. settles P (f x)) m"
  by (cases m; simp add: settles_def)+

lemma model_error_simps [simp]:
  "\<not> model_error (LUA_ERRSYNTAX s)" "\<not> model_error (LUA_ERRRUN s)" "\<not> model_error LUA_ERRMEM"
  "model_error (UB s) = (s \<in> {''fuel'', ''block'', ''fs''})"
  by (auto simp: model_error_def)

lemma settles_use: "settles Q m \<Longrightarrow> (\<And>x. Q x \<Longrightarrow> P x) \<Longrightarrow> settles P m"
  by (auto simp: settles_def split: sum.splits)

lemma if_settles: "(b \<Longrightarrow> settles P m) \<Longrightarrow> (\<not> b \<Longrightarrow> settles P m') \<Longrightarrow> settles P (if b then m else m')"
  by simp

lemma okE_settles: "okE P m \<Longrightarrow> settles P m"
  by (auto simp: okE_def settles_def split: sum.splits)

lemma lexerror_settles [simp]: "settles P (luaX_lexerror ls msg t)" "settles P (luaX_syntaxerror ls msg)"
  by (simp_all add: okE_settles)

section \<open>Operations of other components\<close>

text \<open>They only have to end in an error of their own.\<close>

abbreviation tame :: "lua_err + 'a \<Rightarrow> bool" where "tame \<equiv> settles (\<lambda>_. True)"

lemma growvector_tame [THEN settles_use, wps]: "tame (luaM_growvector mem n sz e l msg g)"
  by (simp add: luaM_growvector_def luaM_growaux_def luaM_reallocv_int_def luaM_realloc_def luaM_toobig_def)

lemma reallocv_tame [THEN settles_use, wps]: "tame (luaM_reallocv_int mem a b e g)"
  by (simp add: luaM_reallocv_int_def luaM_realloc_def luaM_toobig_def)

lemma walk_tame [THEN settles_use, wps]: "tame (walk t P i k)"
  by (induction k arbitrary: i) (auto split: option.split)

lemma find_prev_tame [THEN settles_use, wps]: "tame (find_prev t mp i k)"
  by (induction k arbitrary: i) (auto split: option.split)

lemma get_tame [THEN settles_use, wps]:
  "tame (luaH_getnum t i)" "tame (luaH_getstr hs t a)" "tame (getgeneric hs t k)"
  by (auto simp: luaH_getnum_def luaH_getstr_def getgeneric_def walk_slot_def Let_def intro!: wps)

lemma luaH_get_tame [THEN settles_use, wps]: "tame (luaH_get hs t k)"
  by (auto simp: luaH_get_def Let_def intro!: wps split: TValue.split)

lemma newkey_step_tame [THEN settles_use, wps]: "(\<And>t k. tame (grow t k)) \<Longrightarrow> tame (newkey_step hs grow t k)"
  by (auto simp: newkey_step_def put_key_def Let_def intro!: wps split: option.split prod.split)

lemma set_with_tame [THEN settles_use, wps]: "(\<And>t k. tame (new t k)) \<Longrightarrow> tame (set_with hs new t k)"
  by (auto simp: set_with_def Let_def intro!: wps split: TValue.split)

lemma setnum_with_tame [THEN settles_use, wps]: "(\<And>t k. tame (new t k)) \<Longrightarrow> tame (setnum_with new t i)"
  by (auto simp: setnum_with_def intro!: wps)

lemma reinsert_array_tame [THEN settles_use, wps]: "(\<And>t k. tame (new t k)) \<Longrightarrow> tame (reinsert_array new old i t rcs)"
proof (induction "old - i" arbitrary: i t rcs)
  case 0
  then show ?case by (subst reinsert_array.simps) simp
next
  case (Suc d)
  then have "tame (reinsert_array new old (i + 1) x r)" for x r by simp
  then show ?case using Suc.prems by (subst reinsert_array.simps) (auto simp: Let_def intro!: wps)
qed

lemma reinsert_hash_tame [THEN settles_use, wps]: "(\<And>t k. tame (new t k)) \<Longrightarrow> tame (reinsert_hash hs new nold i t rcs)"
  by (induction i arbitrary: t rcs) (auto simp: Let_def intro!: wps)

lemma setnodevector_tame [THEN settles_use, wps]: "tame (setnodevector t n)"
  by (simp add: setnodevector_def Let_def)

lemma rehash_tame [THEN settles_use, wps]: "(\<And>t k. tame (new t k)) \<Longrightarrow> tame (rehash hs new t k)"
  by (auto simp: rehash_def resize_def Let_def split_def intro!: wps)

lemma newkey_tame [THEN settles_use, wps]: "tame (newkey d hs t k)"
  by (induction d arbitrary: t k) (auto simp: newkey.simps intro!: wps)

lemma luaH_set_tame [THEN settles_use, wps]: "tame (luaH_set hs t k)"
  by (auto simp: luaH_set_def intro!: wps)

section \<open>Code generation\<close>

text \<open>
  A prototype that passes \<open>precheck\<close>, and so do all the prototypes inside it; and what the function being compiled
  has to be like for that.
\<close>

fun prechecks :: "Proto \<Rightarrow> bool" where
  "prechecks (Proto k c ps li lv uv src ld lld nu np va ms) =
     (precheck (Proto k c ps li lv uv src ld lld nu np va ms) = Inr True \<and> (\<forall>p \<in> set ps. prechecks p))"

definition shape :: "'a FuncState_scheme \<Rightarrow> bool" where
  "shape s = (length (f_lineinfo s) = length (f_code s) \<and> 2 \<le> f_maxstacksize s \<and> f_maxstacksize s < MAXSTACK \<and>
     int (length (f_upvalues s)) \<le> LUAI_MAXUPVALUES \<and>
     (f_is_vararg s AND VARARG_NEEDSARG = 0 \<or> f_is_vararg s AND VARARG_HASARG \<noteq> 0) \<and>
     0 \<le> f_numparams s \<and> f_numparams s + uint (f_is_vararg s AND VARARG_HASARG) \<le> f_maxstacksize s \<and>
     (\<forall>p \<in> set (f_p s). prechecks p))"

text \<open>What code generation keeps: the lexical state, the nesting of blocks, the functions around, and the shape.\<close>

definition key :: "'a FuncState_scheme \<Rightarrow> LexState \<times> nat \<times> 'a \<times> bool" where
  "key s = (fs_ls s, length (fs_bl s), FuncState.more s, shape s)"

definition sh :: "'a \<times> 'b \<times> 'c \<times> bool \<Rightarrow> bool" where "sh k = snd (snd (snd k))"

abbreviation ok :: "'a FuncState_scheme \<Rightarrow> bool" where "ok s \<equiv> sh (key s)"

lemma key_upd [simp]:
  "length c = length (f_code s) \<Longrightarrow> key (s\<lparr>f_code := c\<rparr>) = key s" "key (s\<lparr>f_sizecode := x2\<rparr>) = key s"
  "length l = length (f_lineinfo s) \<Longrightarrow> key (s\<lparr>f_lineinfo := l\<rparr>) = key s"
  "key (s\<lparr>f_sizelineinfo := x4\<rparr>) = key s" "key (s\<lparr>f_k := x5\<rparr>) = key s" "key (s\<lparr>f_sizek := x6\<rparr>) = key s"
  "key (s\<lparr>f_sizep := x8\<rparr>) = key s" "key (s\<lparr>f_locvars := x9\<rparr>) = key s"
  "key (s\<lparr>f_sizelocvars := x2\<rparr>) = key s" "key (s\<lparr>f_sizeupvalues := x2\<rparr>) = key s" "key (s\<lparr>f_linedefined := x2\<rparr>) = key s"
  "key (s\<lparr>f_lastlinedefined := x2\<rparr>) = key s" "key (s\<lparr>fs_h := x12\<rparr>) = key s"
  "key (s\<lparr>lasttarget := x2\<rparr>) = key s" "key (s\<lparr>fs_jpc := x2\<rparr>) = key s" "key (s\<lparr>fs_freereg := x2\<rparr>) = key s"
  "key (s\<lparr>nactvar := x2\<rparr>) = key s" "key (s\<lparr>fs_upvalues := x13\<rparr>) = key s" "key (s\<lparr>actvar := x14\<rparr>) = key s"
  "key (s\<lparr>fs_mem := x15\<rparr>) = key s" "key (s\<lparr>fs_rcs := x16\<rparr>) = key s" "key (log_rcs rs s) = key s"
  "key (freereg r s) = key s" "key (freeexp e s) = key s"
  "key (s\<lparr>f_sizecode := x2, f_sizelineinfo := x4, fs_mem := x15, f_code := f_code s @ [i], f_lineinfo := f_lineinfo s @ [j]\<rparr>) = key s"
  by (simp_all add: key_def shape_def log_rcs_def freereg_def freeexp_def)

lemma key_drop_code [simp]: "ok s \<Longrightarrow> key (drop_code s) = key s"
  by (simp add: key_def shape_def sh_def drop_code_def)

abbreviation kept :: "'a FuncState_scheme \<Rightarrow> 'a FuncState_scheme \<Rightarrow> bool" where
  "kept s \<equiv> \<lambda>s'. key s' = key s"

abbreviation kept2 :: "'a FuncState_scheme \<Rightarrow> 'b \<times> 'a FuncState_scheme \<Rightarrow> bool" where
  "kept2 s \<equiv> \<lambda>(v, s'). key s' = key s"

abbreviation kept3 :: "'a FuncState_scheme \<Rightarrow> 'b \<times> 'c \<times> 'a FuncState_scheme \<Rightarrow> bool" where
  "kept3 s \<equiv> \<lambda>(v, w, s'). key s' = key s"

lemma code_access_kept [THEN settles_use, wps]:
  "tame (code_get i s)" "ok s \<Longrightarrow> settles (kept s) (code_put i x s)" "tame (is_test y)"
  by (simp_all add: code_get_def code_put_def is_test_def)

lemma code_upd_kept [THEN settles_use, wps]: "ok s \<Longrightarrow> settles (kept s) (code_upd i f s)"
  by (auto simp: code_upd_def intro!: wps)

lemma jumps_kept [THEN settles_use, wps]:
  "ok s \<Longrightarrow> settles (kept s) (fixjump a d s)" "tame (getjump a s)" "tame (getjumpcontrol a s)"
  by (auto simp: fixjump_def getjump_def getjumpcontrol_def Let_def intro!: wps)

lemma getcode_tame [THEN settles_use, wps]: "tame (getcode e s)"
  by (auto simp: getcode_def intro!: wps)

lemma need_value_tame [THEN settles_use, wps]: "tame (need_value l s)"
proof -
  have "tame (need_value_loop n l s)" for n by (induction n arbitrary: l) (auto intro!: wps)
  then show ?thesis by (simp add: need_value_def)
qed

lemma patchtestreg_kept [THEN settles_use, wps]: "ok s \<Longrightarrow> settles (kept2 s) (patchtestreg a r s)"
  by (auto simp: patchtestreg_def intro!: wps)

lemma removevalues_kept [THEN settles_use, wps]:
  assumes "ok s"
  shows "settles (kept s) (removevalues l s)"
proof -
  have "settles (kept s) (removevalues_loop n l x)" if "key x = key s" "ok s" for n x
    using that by (induction n arbitrary: l x) (auto intro!: wps)
  then show ?thesis using assms by (simp add: removevalues_def)
qed

lemma patchlistaux_kept [THEN settles_use, wps]:
  assumes "ok s"
  shows "settles (kept s) (patchlistaux l v r d s)"
proof -
  have "settles (kept s) (patchlist_loop n l v r d x)" if "key x = key s" "ok s" for n x
    using that by (induction n arbitrary: l x) (auto intro!: wps)
  then show ?thesis using assms by (simp add: patchlistaux_def)
qed

lemma dischargejpc_kept [THEN settles_use, wps]: "ok s \<Longrightarrow> settles (kept s) (dischargejpc s)"
  by (auto simp: dischargejpc_def intro!: wps)

lemma last_jump_tame [THEN settles_use, wps]: "tame (last_jump n l s)"
  by (induction n arbitrary: l) (auto intro!: wps)

lemma concat_kept [THEN settles_use, wps]: "ok s \<Longrightarrow> settles (kept2 s) (luaK_concat a b s)"
  by (auto simp: luaK_concat_def intro!: wps)

lemma patchtohere_kept [THEN settles_use, wps]: "ok s \<Longrightarrow> settles (kept s) (luaK_patchtohere l s)"
  by (auto simp: luaK_patchtohere_def luaK_getlabel_def Let_def intro!: wps)

lemma patchlist_kept [THEN settles_use, wps]: "ok s \<Longrightarrow> settles (kept s) (luaK_patchlist l t s)"
  by (auto simp: luaK_patchlist_def intro!: wps)


lemma fixline_kept [THEN settles_use, wps]: "ok s \<Longrightarrow> settles (kept s) (luaK_fixline l s)"
  by (simp add: luaK_fixline_def)

lemma luaK_code_last:
  "ok s \<Longrightarrow> settles (\<lambda>(j, s'). key s' = key s \<and> f_code s' \<noteq> [] \<and> last (f_code s') = i) (luaK_code E i l s)"
  by (auto simp: luaK_code_def Let_def intro!: wps)

lemma luaK_code_kept [THEN settles_use, wps]: "ok s \<Longrightarrow> settles (kept2 s) (luaK_code E i l s)"
  by (rule settles_use [OF luaK_code_last]) auto

lemma emit_kept [THEN settles_use, wps]:
  "ok s \<Longrightarrow> settles (kept2 s) (luaK_codeABC E op a b c s)" "ok s \<Longrightarrow> settles (kept2 s) (luaK_codeABx E op a bx s)"
  "ok s \<Longrightarrow> settles (kept2 s) (luaK_codeAsBx E op a sbx s)"
  by (auto simp: luaK_codeABC_def luaK_codeABx_def luaK_codeAsBx_def intro!: wps)

lemma luaK_nil_kept [THEN settles_use, wps]: "ok s \<Longrightarrow> settles (kept s) (luaK_nil E f n s)"
  by (auto simp: luaK_nil_def Let_def intro!: wps)

lemma luaK_jump_kept [THEN settles_use, wps]: "ok s \<Longrightarrow> settles (kept2 s) (luaK_jump E s)"
  by (auto simp: luaK_jump_def Let_def intro!: wps)

lemma luaK_ret_kept [THEN settles_use, wps]: "ok s \<Longrightarrow> settles (kept s) (luaK_ret E f n s)"
  by (auto simp: luaK_ret_def intro!: wps)

lemma condjump_kept [THEN settles_use, wps]: "ok s \<Longrightarrow> settles (kept2 s) (condjump E op a b c s)"
  by (auto simp: condjump_def intro!: wps)

lemma setlist_kept [THEN settles_use, wps]: "ok s \<Longrightarrow> settles (kept s) (luaK_setlist E bs n t s)"
  by (auto simp: luaK_setlist_def Let_def intro!: wps)

lemma checkstack_kept [THEN settles_use, wps]: "ok s \<Longrightarrow> settles (kept s) (luaK_checkstack n s)"
proof -
  assume a: "ok s"
  have "key (s\<lparr>f_maxstacksize := m mod 256\<rparr>) = key s" if "f_maxstacksize s < m" "m < MAXSTACK" for m
    using a that by (auto simp: key_def shape_def sh_def MAXSTACK_def)
  then show ?thesis by (simp add: luaK_checkstack_def Let_def)
qed

lemma reserveregs_kept [THEN settles_use, wps]: "ok s \<Longrightarrow> settles (kept s) (luaK_reserveregs n s)"
  by (auto simp: luaK_reserveregs_def intro!: wps)

lemma addk_kept [THEN settles_use, wps]: "ok s \<Longrightarrow> settles (kept2 s) (addk E k v s)"
  by (auto simp: addk_def Let_def intro!: wps split: TValue.split)

lemma constants_kept [THEN settles_use, wps]:
  "ok s \<Longrightarrow> settles (kept2 s) (luaK_stringK E a s)" "ok s \<Longrightarrow> settles (kept2 s) (luaK_numberK E r s)" "ok s \<Longrightarrow> settles (kept2 s) (boolK E b s)"
  "ok s \<Longrightarrow> settles (kept2 s) (nilK E s)"
  by (auto simp: luaK_stringK_def luaK_numberK_def boolK_def nilK_def intro!: wps)

lemma setreturns_kept [THEN settles_use, wps]: "ok s \<Longrightarrow> settles (kept s) (luaK_setreturns e n s)" "ok s \<Longrightarrow> settles (kept2 s) (luaK_setoneret e s)"
  by (auto simp: luaK_setreturns_def luaK_setoneret_def Let_def intro!: wps)

lemma dischargevars_kept [THEN settles_use, wps]: "ok s \<Longrightarrow> settles (kept2 s) (luaK_dischargevars E e s)"
  by (auto simp: luaK_dischargevars_def relocatable_def Let_def intro!: wps split: expkind.split)

lemma discharge2reg_kept [THEN settles_use, wps]: "ok s \<Longrightarrow> settles (kept2 s) (discharge2reg E e r s)"
  by (auto simp: discharge2reg_def relocatable_def Let_def intro!: wps split: expkind.split)

lemma discharge2anyreg_kept [THEN settles_use, wps]: "ok s \<Longrightarrow> settles (kept2 s) (discharge2anyreg E e s)"
  by (auto simp: discharge2anyreg_def Let_def intro!: wps)

lemma code_label_kept [THEN settles_use, wps]: "ok s \<Longrightarrow> settles (kept2 s) (code_label E a b j s)"
  by (auto simp: code_label_def luaK_getlabel_def Let_def intro!: wps)

lemma load_labels_kept [THEN settles_use, wps]: "ok s \<Longrightarrow> settles (kept3 s) (load_labels E e r s)"
  by (auto simp: load_labels_def Let_def intro!: wps)

lemma exp2reg_kept [THEN settles_use, wps]: "ok s \<Longrightarrow> settles (kept2 s) (exp2reg E e r s)"
  by (auto simp: exp2reg_def luaK_getlabel_def Let_def intro!: wps)

lemma exp2nextreg_kept [THEN settles_use, wps]: "ok s \<Longrightarrow> settles (kept2 s) (luaK_exp2nextreg E e s)"
  by (auto simp: luaK_exp2nextreg_def Let_def intro!: wps)

lemma exp2anyreg_kept [THEN settles_use, wps]: "ok s \<Longrightarrow> settles (kept3 s) (luaK_exp2anyreg E e s)"
  by (auto simp: luaK_exp2anyreg_def Let_def intro!: wps)

lemma exp2val_kept [THEN settles_use, wps]: "ok s \<Longrightarrow> settles (kept2 s) (luaK_exp2val E e s)"
  by (auto simp: luaK_exp2val_def Let_def intro!: wps)

lemma exp2RK_kept [THEN settles_use, wps]: "ok s \<Longrightarrow> settles (kept3 s) (luaK_exp2RK E e s)"
  by (auto simp: luaK_exp2RK_def Let_def intro!: wps split: expkind.split)

lemma storevar_kept [THEN settles_use, wps]: "ok s \<Longrightarrow> settles (kept2 s) (luaK_storevar E v e s)"
  by (auto simp: luaK_storevar_def Let_def intro!: wps split: expkind.split)

lemma luaK_self_kept [THEN settles_use, wps]: "ok s \<Longrightarrow> settles (kept2 s) (luaK_self E e k s)"
  by (auto simp: luaK_self_def Let_def intro!: wps)

lemma indexed_kept [THEN settles_use, wps]: "ok s \<Longrightarrow> settles (kept2 s) (luaK_indexed E t k s)"
  by (auto simp: luaK_indexed_def Let_def intro!: wps)

lemma invertjump_kept [THEN settles_use, wps]: "ok s \<Longrightarrow> settles (kept s) (invertjump e s)"
  by (auto simp: invertjump_def Let_def intro!: wps)

lemma jumponcond_kept [THEN settles_use, wps]: "ok s \<Longrightarrow> settles (kept3 s) (jumponcond E e c s)"
  by (auto simp: jumponcond_def Let_def intro!: wps)

lemma goif_kept [THEN settles_use, wps]: "ok s \<Longrightarrow> settles (kept2 s) (luaK_goiftrue E e s)" "ok s \<Longrightarrow> settles (kept2 s) (luaK_goiffalse E e s)"
  by (auto simp: luaK_goiftrue_def luaK_goiffalse_def Let_def intro!: wps split: expkind.split)

lemma codenot_kept [THEN settles_use, wps]: "ok s \<Longrightarrow> settles (kept2 s) (codenot E e s)"
  by (auto simp: codenot_def relocatable_def Let_def intro!: wps split: expkind.split)

lemma codearith_kept [THEN settles_use, wps]: "ok s \<Longrightarrow> settles (kept2 s) (codearith E op e1 e2 s)"
  by (auto simp: codearith_def relocatable_def Let_def intro!: wps split: option.split)

lemma codecomp_kept [THEN settles_use, wps]: "ok s \<Longrightarrow> settles (kept2 s) (codecomp E op c e1 e2 s)"
  by (auto simp: codecomp_def Let_def intro!: wps)

lemma prefix_kept [THEN settles_use, wps]: "ok s \<Longrightarrow> settles (kept2 s) (luaK_prefix E op e s)"
  by (auto simp: luaK_prefix_def Let_def intro!: wps split: UnOpr.split)

lemma infix_kept [THEN settles_use, wps]: "ok s \<Longrightarrow> settles (kept2 s) (luaK_infix E op v s)"
  by (auto simp: luaK_infix_def Let_def intro!: wps split: BinOpr.split)

lemma posfix_kept [THEN settles_use, wps]: "ok s \<Longrightarrow> settles (kept2 s) (luaK_posfix E op e1 e2 s)"
  by (auto simp: luaK_posfix_def Let_def intro!: wps split: BinOpr.split)



section \<open>Tokens\<close>

declare cur_token_def [simp]

text \<open>What is left of the source: the characters, and the tokens already read.\<close>

definition lft :: "LexState \<Rightarrow> nat" where
  "lft ls = chars_left ls + of_bool (token (lookahead ls) \<noteq> TK_EOS) + of_bool (token (tok ls) \<noteq> TK_EOS)"

text \<open>How deep the blocks are nested, in every function from the innermost one out.\<close>

definition nest :: "ParState \<Rightarrow> nat list" where
  "nest s = map length (fs_bl s # map fs_bl (prevs s))"

text \<open>All the functions under way have the right shape.\<close>

definition shapes :: "ParState \<Rightarrow> bool" where
  "shapes s = (ok s \<and> (\<forall>g \<in> set (prevs s). ok g))"

text \<open>The registers, the active variables and the parameters.\<close>

definition regs :: "'a FuncState_scheme \<Rightarrow> int \<times> int \<times> int" where
  "regs s = (fs_freereg s, nactvar s, f_numparams s)"

lemma regs_upd [simp]:
  "regs (s\<lparr>fs_ls := x1\<rparr>) = regs s" "regs (s\<lparr>f_linedefined := x2\<rparr>) = regs s" "regs (s\<lparr>f_is_vararg := x3\<rparr>) = regs s"
  "regs (s\<lparr>f_locvars := x4\<rparr>) = regs s" "regs (s\<lparr>f_sizelocvars := x2\<rparr>) = regs s" "regs (s\<lparr>fs_mem := x5\<rparr>) = regs s"
  "regs (s\<lparr>actvar := x6\<rparr>) = regs s" "regs (log_rcs r s) = regs s" "regs (newstring s z) = regs s"
  by (simp_all add: regs_def log_rcs_def newstring_def)

text \<open>At least \<open>k\<close> characters on, at the same level.\<close>

definition adv :: "nat \<Rightarrow> ParState \<Rightarrow> ParState \<Rightarrow> bool" where
  "adv k s s' = (lex_ok (fs_ls s') \<and> shapes s' \<and> lft (fs_ls s') + k \<le> lft (fs_ls s) \<and> nCcalls s' = nCcalls s \<and> nest s' = nest s)"

abbreviation adv2 :: "nat \<Rightarrow> ParState \<Rightarrow> 'b \<times> ParState \<Rightarrow> bool" where
  "adv2 k s \<equiv> \<lambda>(v, s'). adv k s s'"

lemma key_keeps [dest!]:
  "key s' = key s \<Longrightarrow> fs_ls s' = fs_ls s \<and> nCcalls s' = nCcalls s \<and> nest s' = nest s \<and> shapes s' = shapes s"
  by (cases s; cases s') (auto simp: key_def nest_def shapes_def sh_def)

lemma shapes_ok [simp]: "shapes s \<Longrightarrow> ok s"
  by (simp add: shapes_def)

lemma nest_upd [simp]:
  "nest (s\<lparr>fs_ls := x1\<rparr>) = nest s" "nest (s\<lparr>fs_freereg := x2\<rparr>) = nest s" "nest (s\<lparr>f_is_vararg := x3\<rparr>) = nest s"
  "nest (s\<lparr>f_linedefined := x2\<rparr>) = nest s" "nest (s\<lparr>f_lastlinedefined := x2\<rparr>) = nest s"
  "nest (s\<lparr>f_numparams := x2\<rparr>) = nest s" "nest (s\<lparr>nactvar := x2\<rparr>) = nest s" "nest (s\<lparr>nCcalls := x2\<rparr>) = nest s"
  "nest (s\<lparr>lasttarget := x2\<rparr>) = nest s" "length bl = length (fs_bl s) \<Longrightarrow> nest (s\<lparr>fs_bl := bl\<rparr>) = nest s"
  "nest (newstring s z) = nest s" "nest (leavelevel s) = nest s"
  by (simp_all add: nest_def newstring_def leavelevel_def)

lemma shape_upd [simp]: "shape (s\<lparr>fs_ls := x1\<rparr>) = shape s" "shape (s\<lparr>fs_bl := x2\<rparr>) = shape s" "shape (s\<lparr>nCcalls := x3\<rparr>) = shape s"
  by (simp_all add: shape_def)

lemma shapes_upd [simp]:
  "shapes (s\<lparr>fs_ls := x1\<rparr>) = shapes s" "shapes (s\<lparr>fs_freereg := x2\<rparr>) = shapes s" "shapes (s\<lparr>f_linedefined := x2\<rparr>) = shapes s"
  "shapes (s\<lparr>f_lastlinedefined := x2\<rparr>) = shapes s" "shapes (s\<lparr>nactvar := x2\<rparr>) = shapes s"
  "shapes (s\<lparr>nCcalls := x2\<rparr>) = shapes s" "shapes (s\<lparr>lasttarget := x2\<rparr>) = shapes s" "shapes (s\<lparr>fs_bl := x3\<rparr>) = shapes s"
  "shapes (newstring s z) = shapes s" "shapes (leavelevel s) = shapes s" "shapes (enterblock b s) = shapes s"
  by (simp_all add: shapes_def key_def sh_def shape_def newstring_def leavelevel_def enterblock_def)

lemma tokens_not_EOS [simp]:
  "uchar c \<noteq> TK_EOS" "TK_AND \<noteq> TK_EOS" "TK_BREAK \<noteq> TK_EOS" "TK_DO \<noteq> TK_EOS" "TK_ELSE \<noteq> TK_EOS" "TK_ELSEIF \<noteq> TK_EOS"
  "TK_END \<noteq> TK_EOS" "TK_FALSE \<noteq> TK_EOS" "TK_FOR \<noteq> TK_EOS" "TK_FUNCTION \<noteq> TK_EOS" "TK_IF \<noteq> TK_EOS" "TK_IN \<noteq> TK_EOS"
  "TK_LOCAL \<noteq> TK_EOS" "TK_NIL \<noteq> TK_EOS" "TK_NOT \<noteq> TK_EOS" "TK_OR \<noteq> TK_EOS" "TK_REPEAT \<noteq> TK_EOS" "TK_RETURN \<noteq> TK_EOS"
  "TK_THEN \<noteq> TK_EOS" "TK_TRUE \<noteq> TK_EOS" "TK_UNTIL \<noteq> TK_EOS" "TK_WHILE \<noteq> TK_EOS" "TK_NAME \<noteq> TK_EOS"
  "TK_STRING \<noteq> TK_EOS" "TK_NUMBER \<noteq> TK_EOS" "TK_DOTS \<noteq> TK_EOS"
proof -
  show "uchar c \<noteq> TK_EOS" using uchar_less_256 [of c] unfolding TK_EOS_def by linarith
qed (simp_all add: keyword_defs token_defs)

lemmas EOS_not_tokens [simp] = tokens_not_EOS [symmetric]

lemma opr_token:
  "getunopr t \<noteq> OPR_NOUNOPR \<Longrightarrow> t \<noteq> TK_EOS"
  by (auto simp: getunopr_def)

lemma lex_next_settles:
  assumes "lex_ok ls"
  shows "settles (\<lambda>x. lex_ok x \<and> lft x + of_bool (token (tok ls) \<noteq> TK_EOS) \<le> lft ls) (luaX_next C ls)"
proof (cases "token (lookahead ls) = TK_EOS")
  case True
  show ?thesis
    using okE_settles [OF luaX_next_ok [OF assms True, of C]]
    by (rule settles_use) (auto simp: lft_def ahead_def True)
next
  case False
  have "lex_ok (ls\<lparr>lastline := a, tok := b, lookahead := c\<rparr>) = lex_ok ls" for a b c by (simp add: lex_ok_def)
  then show ?thesis using assms False by (auto simp: luaX_next_def lft_def chars_left_def)
qed

lemma lookahead_settles [THEN settles_use, wps]:
  assumes "lex_ok ls" "token (tok ls) \<noteq> TK_EOS"
  shows "settles (\<lambda>x. lex_ok x \<and> lft x \<le> lft ls) (luaX_lookahead C ls)"
proof -
  have u: "lex_ok (x\<lparr>lookahead := t\<rparr>) = lex_ok x" "chars_left (x\<lparr>lookahead := t\<rparr>) = chars_left x" for x t
    by (simp_all add: lex_ok_def chars_left_def)
  have "settles (\<lambda>(t, s, x). ahead 0 ls x \<and> (t = TK_EOS \<or> ahead 1 ls x)) (llex C ls)"
    by (rule okE_settles [OF llex_ok [OF assms(1)]])
  then show ?thesis
    unfolding luaX_lookahead_def settles_simps
    by (rule settles_use) (use assms(2) in \<open>auto simp: lft_def ahead_def made_token_def u\<close>)
qed

lemma next_token_adv [THEN settles_use, wps]:
  "lex_ok (fs_ls s) \<Longrightarrow> shapes s \<Longrightarrow>
    settles (\<lambda>s'. adv (of_bool (token (tok (fs_ls s)) \<noteq> TK_EOS)) s s' \<and> regs s' = regs s) (next_token E s)"
  unfolding next_token_def by (auto simp: adv_def intro: settles_use [OF lex_next_settles])

lemma syntaxerror_settles [simp]: "settles P (syntaxerror s m)" "settles P (error_expected s t)"
  by (simp_all add: syntaxerror_def error_expected_def)

lemma testnext_adv [THEN settles_use, wps]:
  "lex_ok (fs_ls s) \<Longrightarrow> shapes s \<Longrightarrow> c \<noteq> TK_EOS \<Longrightarrow> settles (\<lambda>(b, s'). adv (of_bool b) s s' \<and> regs s' = regs s) (testnext E c s)"
  by (auto simp: testnext_def cur_token_def adv_def intro!: wps)

lemma check_settles [THEN settles_use, wps]: "settles (\<lambda>_. cur_token s = c) (check c s)"
  by (simp add: check_def)

lemma checknext_adv [THEN settles_use, wps]:
  "lex_ok (fs_ls s) \<Longrightarrow> shapes s \<Longrightarrow> c \<noteq> TK_EOS \<Longrightarrow> settles (\<lambda>s'. adv 1 s s' \<and> regs s' = regs s) (checknext E c s)"
  by (auto simp: checknext_def cur_token_def adv_def intro!: wps)

lemma check_match_adv [THEN settles_use, wps]:
  "lex_ok (fs_ls s) \<Longrightarrow> shapes s \<Longrightarrow> what \<noteq> TK_EOS \<Longrightarrow> settles (adv 1 s) (check_match E what who line s)"
  by (auto simp: check_match_def adv_def intro!: wps)

lemma str_checkname_adv [THEN settles_use, wps]: "lex_ok (fs_ls s) \<Longrightarrow> shapes s \<Longrightarrow> settles (\<lambda>(v, s'). adv 1 s s' \<and> regs s' = regs s) (str_checkname E s)"
  by (auto simp: str_checkname_def cur_token_def adv_def Let_def intro!: wps)

lemma codestring_kept [THEN settles_use, wps]: "ok s \<Longrightarrow> settles (kept2 s) (codestring E z s)"
  by (auto simp: codestring_def intro!: wps)

lemma checkname_adv [THEN settles_use, wps]: "lex_ok (fs_ls s) \<Longrightarrow> shapes s \<Longrightarrow> settles (adv2 1 s) (checkname E s)"
  by (auto simp: checkname_def adv_def intro!: wps)


section \<open>Variables, levels, blocks and functions\<close>

lemma checklimit_settles [THEN settles_use, wps]: "settles (\<lambda>_. v \<le> l) (luaY_checklimit s v l m)"
  by (simp add: luaY_checklimit_def errorlimit_def)

lemma registerlocalvar_kept [THEN settles_use, wps]:
  "ok s \<Longrightarrow> settles (\<lambda>(j, s'). key s' = key s \<and> regs s' = regs s) (registerlocalvar E v s)"
  by (auto simp: registerlocalvar_def intro!: wps)

lemma put_actvar_kept [THEN settles_use, wps]:
  "ok s \<Longrightarrow> settles (\<lambda>s'. key s' = key s \<and> regs s' = regs s) (put_actvar i v s)"
  by (simp add: put_actvar_def)

lemma new_localvar_kept [THEN settles_use, wps]:
  "ok s \<Longrightarrow> settles (\<lambda>s'. key s' = key s \<and> regs s' = regs s \<and> nactvar s + n + 1 \<le> LUAI_MAXVARS) (new_localvar E v n s)"
  by (auto simp: new_localvar_def intro!: wps)

lemma newstring_keeps [simp]:
  "lex_ok (fs_ls (newstring s v)) = lex_ok (fs_ls s)" "lft (fs_ls (newstring s v)) = lft (fs_ls s)"
  "nCcalls (newstring s v) = nCcalls s" "nactvar (newstring s v) = nactvar s"
  by (simp_all add: newstring_def luaX_newstring_def lex_ok_def lft_def chars_left_def)

lemma new_localvarliteral_adv [THEN settles_use, wps]:
  "lex_ok (fs_ls s) \<Longrightarrow> shapes s \<Longrightarrow>
    settles (\<lambda>s'. adv 0 s s' \<and> regs s' = regs s \<and> nactvar s + n + 1 \<le> LUAI_MAXVARS) (new_localvarliteral E v n s)"
  by (auto simp: new_localvarliteral_def adv_def intro!: wps)

lemma locvar_index_tame [THEN settles_use, wps]: "tame (locvar_index s i)"
  by (simp add: locvar_index_def)

lemma upd_locvar_kept [THEN settles_use, wps]:
  "ok s \<Longrightarrow> settles (\<lambda>s'. key s' = key s \<and> regs s' = regs s \<and> f_is_vararg s' = f_is_vararg s) (upd_locvar i f s)"
  by (auto simp: upd_locvar_def intro!: wps)

lemma adjustlocalvars_kept [THEN settles_use, wps]:
  assumes "ok s"
  shows "settles (\<lambda>s'. key s' = key s \<and> regs s' = (fs_freereg s, (nactvar s + n) mod 256, f_numparams s) \<and>
     f_is_vararg s' = f_is_vararg s) (adjustlocalvars n s)"
proof -
  have "settles (\<lambda>s'. key s' = key x \<and> regs s' = regs x \<and> f_is_vararg s' = f_is_vararg x) (start_vars k x)" if "ok x" for k x
    using that
  proof (induction k arbitrary: x)
    case (Suc k)
    show ?case using Suc.prems by (auto intro!: wps Suc.IH [THEN settles_use])
  qed simp
  from this [of "s\<lparr>nactvar := (nactvar s + n) mod 256\<rparr>" "nat n"] show ?thesis
    unfolding adjustlocalvars_def using assms by (auto simp: regs_def elim!: settles_use)
qed

lemma removevars_kept [THEN settles_use, wps]:
  assumes "ok s"
  shows "settles (kept s) (removevars n s)"
proof -
  have "settles (kept s) (remove_loop k x)" if "key x = key s" "ok s" for k x
    using that by (induction k arbitrary: x) (auto simp: Let_def intro!: wps)
  then show ?thesis using assms by (simp add: removevars_def)
qed

lemma adjust_assign_kept [THEN settles_use, wps]: "ok s \<Longrightarrow> settles (kept2 s) (adjust_assign E n k e s)"
  by (auto simp: adjust_assign_def Let_def intro!: wps)

lemma key_upvalue [simp]:
  "ok s \<Longrightarrow> int (length (f_upvalues s)) + 1 \<le> LUAI_MAXUPVALUES \<Longrightarrow>
    key (s\<lparr>f_sizeupvalues := a, fs_mem := m, f_upvalues := f_upvalues s @ [u]\<rparr>) = key s"
  by (simp add: key_def shape_def sh_def)

lemma indexupvalue_kept [THEN settles_use, wps]: "ok s \<Longrightarrow> settles (kept2 s) (indexupvalue E v e s)"
  by (auto simp: indexupvalue_def Let_def intro!: wps split: option.split)

lemma searchvar_tame [THEN settles_use, wps]: "tame (searchvar s n)"
proof -
  have "tame (searchvar_from k n s)" for k by (induction k) (auto intro!: wps)
  then show ?thesis by (simp add: searchvar_def)
qed

lemma length_mark_block [simp]: "length (mark_block bl l) = length bl"
  by (induction bl) auto

text \<open>\<open>singlevaraux\<close> keeps the functions and their blocks, and the innermost one's lexical state.\<close>

definition same_funcs :: "FuncState list \<Rightarrow> FuncState list \<Rightarrow> bool" where
  "same_funcs fss fss' = (map (length \<circ> fs_bl) fss' = map (length \<circ> fs_bl) fss \<and>
     (fss \<noteq> [] \<longrightarrow> fs_ls (hd fss') = fs_ls (hd fss)) \<and> list_all ok fss')"

lemma shape_simps [simp]:
  "shape (share x g) = shape g" "shape (markupval l fs) = shape fs" "shape (FuncState.truncate s) = shape s"
  "shape (with_fs fs fss z) = shape fs" "shape (FuncState.extend fs m) = shape fs" "shape (x\<lparr>fs_bl := bl\<rparr>) = shape x"
  by (simp_all add: shape_def share_def markupval_def with_fs_def FuncState.defs)

lemma key_parts: "key x = key y \<Longrightarrow> fs_ls x = fs_ls y \<and> length (fs_bl x) = length (fs_bl y) \<and> shape x = shape y"
  by (simp add: key_def)

lemma ok_shape: "ok s = shape s"
  by (simp add: key_def sh_def)

lemma share_simps [simp]: "fs_ls (share x g) = fs_ls x" "fs_bl (share x g) = fs_bl g"
  by (simp_all add: share_def)

lemma singlevaraux_same [THEN settles_use, wps]:
  "list_all ok fss \<Longrightarrow> settles (\<lambda>(v, fss'). same_funcs fss fss') (singlevaraux E fss n bs)"
proof (induction "length fss" arbitrary: fss bs)
  case 0
  then show ?case by (simp add: same_funcs_def)
next
  case (Suc m)
  then obtain fs gs where fss: "fss = fs # gs" "length gs = m" "shape fs" "list_all shape gs"
    by (cases fss) (auto simp: ok_shape)
  define outer where "outer = (case gs of [] \<Rightarrow> singlevaraux E [] n False | g # gs \<Rightarrow> singlevaraux E (share fs g # gs) n False)"
  have o: "settles (\<lambda>(v, gs'). map (length \<circ> fs_bl) gs' = map (length \<circ> fs_bl) gs \<and>
      (gs \<noteq> [] \<longrightarrow> fs_ls (hd gs') = fs_ls fs) \<and> list_all shape gs') outer"
  proof (cases gs)
    case (Cons g gs')
    have "settles (\<lambda>(v, fss'). same_funcs (share fs g # gs') fss') outer"
      using Suc.hyps(1) [of "share fs g # gs'" False] fss(2,4) Cons by (simp add: outer_def ok_shape)
    then show ?thesis by (rule settles_use) (use Cons in \<open>auto simp: same_funcs_def ok_shape\<close>)
  qed (simp add: outer_def)
  have "map length (map fs_bl gs) = map (length \<circ> fs_bl) gs" by simp
  then show ?case
    unfolding fss(1) singlevaraux.simps(2) [of E fs gs n bs] outer_def [symmetric] using fss(3,4)
    by (auto simp: same_funcs_def ok_shape markupval_def Let_def dest!: key_parts intro!: wps settles_use [OF o]
        split: list.splits if_splits)
qed

lemma with_fs_simps [simp]:
  "fs_ls (with_fs fs fss s) = fs_ls fs" "nCcalls (with_fs fs fss s) = nCcalls s" "prevs (with_fs fs fss s) = fss"
  "fs_bl (with_fs fs fss s) = fs_bl fs" "fs_freereg (with_fs fs fss s) = fs_freereg fs" "nactvar (with_fs fs fss s) = nactvar fs"
  "f_numparams (with_fs fs fss s) = f_numparams fs"
  by (simp_all add: with_fs_def FuncState.defs)

lemma truncate_simps [simp]:
  "fs_ls (FuncState.truncate s) = fs_ls s" "fs_bl (FuncState.truncate s) = fs_bl s"
  by (simp_all add: FuncState.defs)

lemma shapes_parts [simp]: "shapes s \<Longrightarrow> ok (FuncState.truncate s)" "shapes s \<Longrightarrow> list_all ok (prevs s)"
  by (simp_all add: shapes_def ok_shape list_all_iff)

lemma singlevar_adv [THEN settles_use, wps]:
  assumes "lex_ok (fs_ls s)" "shapes s"
  shows "settles (adv2 1 s) (singlevar E s)"
proof -
  have found: "settles (adv2 0 x) (case fss of [] \<Rightarrow> Inl (UB ''fs'') | fs # fss \<Rightarrow>
       let st = with_fs fs fss x in
       if ek v = VGLOBAL then bindE (luaK_stringK E (str_addr E n) st) (\<lambda>(i, st). Inr (v\<lparr>einfo := i\<rparr>, st))
       else Inr (v, st))"
    if same: "same_funcs (FuncState.truncate x # prevs x) fss" and ok: "lex_ok (fs_ls x)" for x v fss n
  proof (cases fss)
    case (Cons fs gs)
    then have "nest (with_fs fs gs x) = nest x" "fs_ls fs = fs_ls x"
      using same by (auto simp: same_funcs_def nest_def)
    moreover have "shapes (with_fs fs gs x)"
      using same Cons by (auto simp: same_funcs_def shapes_def ok_shape list_all_iff)
    ultimately show ?thesis using ok Cons by (auto simp: Let_def adv_def intro!: wps)
  qed (use same in \<open>simp add: same_funcs_def\<close>)
  show ?thesis
    unfolding singlevar_def using assms
    by (auto simp: adv_def simp del: singlevaraux.simps intro!: wps settles_use [OF found])
qed

lemma enterlevel_settles [THEN settles_use, wps]:
  "settles (\<lambda>s'. fs_ls s' = fs_ls s \<and> nCcalls s' = nCcalls s + 1 \<and> nest s' = nest s \<and> shapes s' = shapes s) (enterlevel s)"
  by (simp add: enterlevel_def Let_def)

lemma leavelevel_simps [simp]: "fs_ls (leavelevel s) = fs_ls s" "nCcalls (leavelevel s) = nCcalls s - 1"
  by (simp_all add: leavelevel_def)

lemma nest_not_Nil [simp]: "nest s \<noteq> []"
  by (simp add: nest_def)

lemma enterblock_simps [simp]:
  "fs_ls (enterblock b s) = fs_ls s" "nCcalls (enterblock b s) = nCcalls s"
  "nest (enterblock b s) = Suc (hd (nest s)) # tl (nest s)"
  by (simp_all add: enterblock_def nest_def)

lemma no_block: "fs_bl s = [] \<Longrightarrow> hd (nest s) = 0"
  by (simp add: nest_def)

lemma leaveblock_settles [THEN settles_use, wps]:
  "hd (nest s) \<noteq> 0 \<Longrightarrow> shapes s \<Longrightarrow>
    settles (\<lambda>s'. fs_ls s' = fs_ls s \<and> nCcalls s' = nCcalls s \<and> nest s' = (hd (nest s) - 1) # tl (nest s) \<and> shapes s') (leaveblock E s)"
  by (auto simp: leaveblock_def nest_def [of "fs_bl_update b s" for b] nest_def [of s] intro!: wps split: list.split)

lemma new_func_settles [THEN settles_use, wps]:
  "settles (\<lambda>fs. fs_ls fs = ls \<and> fs_bl fs = [] \<and> shape fs \<and> fs_freereg fs = 0 \<and> nactvar fs = 0 \<and> f_numparams fs = 0) (new_func E d ls m rcs)"
  by (auto simp: new_func_def luaH_new_def blank_func_def shape_def MAXSTACK_def LUAI_MAXUPVALUES_def intro!: wps)

lemma shapes_with_fs [simp]: "shapes (with_fs fs fss z) = (shape fs \<and> list_all shape fss)"
  by (simp add: shapes_def ok_shape list_all_iff)

lemma shapes_shape [simp]: "shapes s \<Longrightarrow> shape s" "shapes s \<Longrightarrow> list_all shape (prevs s)"
  by (simp_all add: shapes_def ok_shape list_all_iff)

lemma open_func_settles [THEN settles_use, wps]:
  "shapes s \<Longrightarrow> settles (\<lambda>s'. fs_ls s' = fs_ls s \<and> nCcalls s' = nCcalls s \<and> nest s' = 0 # nest s \<and> shapes s' \<and>
     fs_freereg s' = 0 \<and> nactvar s' = 0 \<and> f_numparams s' = 0) (open_func E s)"
  by (auto simp: open_func_def nest_def intro!: wps)

lemma shrink_settles [THEN settles_use, wps]:
  "ok s \<Longrightarrow> settles (\<lambda>s'. key s' = key s \<and> f_code s' = f_code s) (shrink mem s)"
  by (auto simp: shrink_def intro!: wps)

text \<open>The code of a function ends with the return that \<open>close_func\<close> emits.\<close>

lemma final_return:
  "ok s \<Longrightarrow> settles (\<lambda>s'. key s' = key s \<and> f_code s' \<noteq> [] \<and> GET_OPCODE (last (f_code s')) = opc OP_RETURN) (luaK_ret E 0 0 s)"
proof -
  have "GET_OPCODE (CREATE_ABC (opc OP_RETURN) 0 1 0) = opc OP_RETURN" by code_simp
  then show "ok s \<Longrightarrow> ?thesis" by (auto simp: luaK_ret_def luaK_codeABC_def intro!: settles_use [OF luaK_code_last])
qed

lemma proto_of_prechecks:
  assumes "shape s" "f_code s \<noteq> []" "GET_OPCODE (last (f_code s)) = opc OP_RETURN"
  shows "prechecks (proto_of E s)"
proof -
  have u: "uint (word_of_int i :: u8) = i" if "0 \<le> i" "i < 256" for i using that by (simp add: uint_word_of_int)
  have "f_numparams s < 256" "f_maxstacksize s < 256"
    using assms(1) uint_ge_0 [of "f_is_vararg s AND VARARG_HASARG"] unfolding shape_def MAXSTACK_def by linarith+
  moreover have "f_code s ! nat (int (length (f_code s)) - 1) = last (f_code s)"
    using assms(2) by (simp add: last_conv_nth nat_diff_distrib')
  ultimately show ?thesis
    using assms u [of "int (length (f_upvalues s))"] u [of "f_maxstacksize s"] u [of "f_numparams s"]
    by (auto simp: proto_of_def precheck_def shape_def sizecode_def code_at_def MAXSTACK_def LUAI_MAXUPVALUES_def nat_diff_distrib)
qed

lemma anchor_token_keeps [simp]:
  "lex_ok (fs_ls (anchor_token s)) = lex_ok (fs_ls s)" "lft (fs_ls (anchor_token s)) = lft (fs_ls s)"
  "nCcalls (anchor_token s) = nCcalls s" "nest (anchor_token s) = nest s" "shapes (anchor_token s) = shapes s"
  by (simp_all add: anchor_token_def)

lemma log_rcs_simps [simp]: "fs_ls (log_rcs r s) = fs_ls s" "fs_bl (log_rcs r s) = fs_bl s"
  by (simp_all add: log_rcs_def)

lemma close_func_proto: "shapes s \<Longrightarrow> settles (\<lambda>(f, u, r). prechecks f) (close_func E s)"
  by (auto simp: close_func_def Let_def intro!: wps settles_use [OF final_return] proto_of_prechecks)

lemma close_func_settles [THEN settles_use, wps]:
  assumes "tl (nest s) \<noteq> []" "shapes s"
  shows "settles (\<lambda>(f, u, r). prechecks f \<and> (\<exists>s'. r = Some s' \<and> lex_ok (fs_ls s') = lex_ok (fs_ls s) \<and> lft (fs_ls s') = lft (fs_ls s) \<and>
     nCcalls s' = nCcalls s \<and> nest s' = tl (nest s) \<and> shapes s')) (close_func E s)"
proof -
  have p: "settles (\<lambda>(f, u, r). prechecks f) (close_func E s)" by (rule close_func_proto [OF assms(2)])
  have t: "prevs x = [] \<Longrightarrow> tl (nest x) = []"
    "prevs x = g # gs \<Longrightarrow> tl (nest x) = length (fs_bl g) # map length (map fs_bl gs)" for x g gs
    by (auto simp: nest_def)
  have w: "nest (with_fs fs fss y) = length (fs_bl fs) # map length (map fs_bl fss)" for fs fss y
    by (simp add: nest_def)
  have "settles (\<lambda>(f, u, r). \<exists>s'. r = Some s' \<and> lex_ok (fs_ls s') = lex_ok (fs_ls s) \<and> lft (fs_ls s') = lft (fs_ls s) \<and>
     nCcalls s' = nCcalls s \<and> nest s' = tl (nest s) \<and> shapes s') (close_func E s)"
    unfolding close_func_def using assms
    by (auto simp: Let_def w dest: t shapes_shape(2) intro!: wps split: list.split)
  with p show ?thesis by (auto simp: settles_def split: sum.splits)
qed

lemma code_upvals_kept [THEN settles_use, wps]:
  assumes "ok s"
  shows "settles (kept s) (code_upvals E us s)"
proof -
  have "settles (kept s) (code_upvals E us x)" if "key x = key s" "ok s" for x
    using that by (induction us arbitrary: x) (auto intro!: wps)
  then show ?thesis using assms by simp
qed

lemma key_nested [simp]: "ok s \<Longrightarrow> prechecks f \<Longrightarrow> key (s\<lparr>f_sizep := a, fs_mem := m, f_p := f_p s @ [f]\<rparr>) = key s"
  by (simp add: key_def shape_def sh_def)

lemma pushclosure_kept [THEN settles_use, wps]: "ok s \<Longrightarrow> prechecks f \<Longrightarrow> settles (kept2 s) (pushclosure E f us s)"
  by (auto simp: pushclosure_def Let_def intro!: wps)

text \<open>\<open>parlist\<close> reserves a register for every parameter, \<open>arg\<close> included.\<close>

lemma vararg_bits: "VARARG_HASARG OR VARARG_NEEDSARG OR VARARG_ISVARARG = 7" "VARARG_HASARG = 1" "VARARG_NEEDSARG = 4"
  by (simp_all add: vararg_defs)

lemma shapes_vararg:
  "shapes s \<Longrightarrow> f_numparams s = 0 \<Longrightarrow> shapes (s\<lparr>f_is_vararg := VARARG_HASARG OR VARARG_NEEDSARG OR VARARG_ISVARARG\<rparr>)"
  "shapes s \<Longrightarrow> f_numparams s = 0 \<Longrightarrow> shapes (s\<lparr>f_is_vararg := 0\<rparr>)"
  "shapes s \<Longrightarrow> shapes (s\<lparr>f_is_vararg := f_is_vararg s AND NOT VARARG_NEEDSARG\<rparr>)"
  by (simp_all add: shapes_def ok_shape shape_def vararg_bits and.assoc)

lemma params_registers:
  assumes "adv 0 s z" "fs_freereg z = 0" "f_is_vararg z = 0 \<or> 1 \<le> nactvar z" "0 \<le> nactvar z" "nactvar z \<le> 200"
  shows "settles (adv 0 s) (luaK_reserveregs (nactvar z)
    (z\<lparr>f_numparams := (nactvar z - uint (f_is_vararg z AND VARARG_HASARG)) mod 256\<rparr>))"
proof -
  define h where "h = uint (f_is_vararg z AND VARARG_HASARG)"
  have "h = 0 \<or> h = 1" by (simp add: h_def vararg_bits(2) and_one_eq uint_mod) linarith
  then have h: "0 \<le> h" "h \<le> nactvar z" "(nactvar z - h) mod 256 = nactvar z - h" using assms(3,4,5) by (auto simp: h_def)
  have "shape z" "list_all shape (prevs z)" using assms(1) by (simp_all add: adv_def)
  then show ?thesis
    unfolding h_def [symmetric] luaK_reserveregs_def luaK_checkstack_def Let_def using assms h
    by (auto simp: adv_def shapes_def ok_shape shape_def h_def [symmetric] MAXSTACK_def list_all_iff nest_def)
qed

section \<open>The grammar\<close>

text \<open>
  What the nonterminals C declares ahead promise the others, with fuel \<open>n\<close>: an expression takes at least one
  character, a chunk keeps the levels, and neither stops for want of fuel when less than \<open>n\<close> is left.
\<close>

locale nonterminals =
  fixes n :: nat and E :: "'e penv_scheme" and sub :: rsub and chk :: rchunk
  assumes sub_adv: "lex_ok (fs_ls s) \<Longrightarrow> shapes s \<Longrightarrow> lft (fs_ls s) < n \<Longrightarrow> settles (adv2 1 s) (sub l s)"
    and chk_adv: "lex_ok (fs_ls s) \<Longrightarrow> shapes s \<Longrightarrow> Suc (lft (fs_ls s)) < n \<Longrightarrow> settles (adv 0 s) (chk s)"
begin

lemmas sub_rule [wps] = sub_adv [THEN settles_use]
lemmas chk_rule [wps] = chk_adv [THEN settles_use]

lemma expr_adv [THEN settles_use, wps]:
  "lex_ok (fs_ls s) \<Longrightarrow> shapes s \<Longrightarrow> lft (fs_ls s) < n \<Longrightarrow> settles (adv2 1 s) (expr sub s)"
  by (auto simp: expr_def intro!: wps)

lemma parse_field_adv [THEN settles_use, wps]:
  "lex_ok (fs_ls s) \<Longrightarrow> shapes s \<Longrightarrow> settles (adv2 1 s) (parse_field E v s)"
  by (auto simp: parse_field_def adv_def intro!: wps)

lemma yindex_adv [THEN settles_use, wps]:
  "lex_ok (fs_ls s) \<Longrightarrow> shapes s \<Longrightarrow> lft (fs_ls s) < n \<Longrightarrow> settles (adv2 1 s) (yindex E sub s)"
  by (auto simp: yindex_def adv_def intro!: wps)

lemma recfield_adv [THEN settles_use, wps]:
  "lex_ok (fs_ls s) \<Longrightarrow> shapes s \<Longrightarrow> lft (fs_ls s) < n \<Longrightarrow> settles (adv2 1 s) (recfield E sub cc s)"
  by (auto simp: recfield_def Let_def adv_def intro!: wps)

lemma closelistfield_adv [THEN settles_use, wps]: "lex_ok (fs_ls s) \<Longrightarrow> shapes s \<Longrightarrow> settles (adv2 0 s) (closelistfield E cc s)"
  by (auto simp: closelistfield_def Let_def adv_def intro!: wps)

lemma lastlistfield_adv [THEN settles_use, wps]: "lex_ok (fs_ls s) \<Longrightarrow> shapes s \<Longrightarrow> settles (adv2 0 s) (lastlistfield E cc s)"
  by (auto simp: lastlistfield_def Let_def adv_def intro!: wps)

lemma listfield_adv [THEN settles_use, wps]:
  "lex_ok (fs_ls s) \<Longrightarrow> shapes s \<Longrightarrow> lft (fs_ls s) < n \<Longrightarrow> settles (adv2 1 s) (listfield sub cc s)"
  by (auto simp: listfield_def adv_def intro!: wps)

lemma next_is_comma_adv [THEN settles_use, wps]:
  "lex_ok (fs_ls s) \<Longrightarrow> shapes s \<Longrightarrow> settles (\<lambda>(b, s'). adv (of_bool b) s s') (next_is_comma E s)"
  by (auto simp: next_is_comma_def adv_def intro!: wps)

lemma cons_item_adv [THEN settles_use, wps]:
  "lex_ok (fs_ls s) \<Longrightarrow> shapes s \<Longrightarrow> lft (fs_ls s) < n \<Longrightarrow> settles (adv2 1 s) (cons_item E sub cc s)"
  by (auto simp: cons_item_def Let_def adv_def intro!: wps)

lemma cons_loop_adv [THEN settles_use, wps]:
  "lex_ok (fs_ls s) \<Longrightarrow> shapes s \<Longrightarrow> lft (fs_ls s) < n \<Longrightarrow> lft (fs_ls s) < k \<Longrightarrow> settles (adv2 0 s) (cons_loop k E sub cc s)"
proof (induction k arbitrary: cc s)
  case (Suc k)
  show ?case using Suc.prems by (auto simp: adv_def intro!: wps Suc.IH [THEN settles_use])
qed simp

lemma constructor_adv [THEN settles_use, wps]:
  "lex_ok (fs_ls s) \<Longrightarrow> shapes s \<Longrightarrow> lft (fs_ls s) \<le> n \<Longrightarrow> settles (adv2 1 s) (constructor n E sub s)"
  by (auto simp: constructor_def Let_def adv_def intro!: wps)

lemma params_loop_adv [THEN settles_use, wps]:
  "lex_ok (fs_ls s) \<Longrightarrow> shapes s \<Longrightarrow> lft (fs_ls s) < k \<Longrightarrow> 0 \<le> np \<Longrightarrow> f_numparams s = 0 \<Longrightarrow>
    settles (\<lambda>(np', s'). adv 0 s s' \<and> regs s' = regs s \<and> 1 \<le> np' \<and> nactvar s + np' \<le> LUAI_MAXVARS) (params_loop k E np s)"
proof (induction k arbitrary: np s)
  case (Suc k)
  let ?item = "if cur_token s = TK_NAME then
              bindE (str_checkname E s) (\<lambda>(v, s). bindE (new_localvar E v np s) (\<lambda>s. Inr (np + 1, s)))
            else if cur_token s = TK_DOTS then
              bindE (next_token E s) (\<lambda>s.
              bindE (new_localvarliteral E ''arg'' np s) (\<lambda>s.
                Inr (np + 1, s\<lparr>f_is_vararg := VARARG_HASARG OR VARARG_NEEDSARG OR VARARG_ISVARARG\<rparr>)))
            else syntaxerror s (''<name> or '' @ quoted ''...'' @ '' expected'')"
  have item: "settles (\<lambda>(np', x). adv 1 s x \<and> regs x = regs s \<and> np' = np + 1 \<and> nactvar s + np' \<le> LUAI_MAXVARS) ?item"
    using Suc.prems by (auto simp: adv_def shapes_vararg regs_def intro!: wps)
  show ?case
    unfolding params_loop.simps settles_simps
    by (rule settles_use [OF item]) (use Suc.prems in \<open>auto simp: adv_def regs_def intro!: wps Suc.IH [THEN settles_use]\<close>)
qed simp

lemma parlist_adv [THEN settles_use, wps]:
  assumes "lex_ok (fs_ls s)" "shapes s" "lft (fs_ls s) < n" "fs_freereg s = 0" "f_numparams s = 0" "0 \<le> nactvar s" "nactvar s \<le> 1"
  shows "settles (adv 0 s) (parlist n E s)"
proof -
  define s0 where "s0 = s\<lparr>f_is_vararg := 0\<rparr>"
  define a where "a = nactvar s"
  note a = assms(4,5) a_def [symmetric] assms(6,7) [folded a_def]
  have s0: "lex_ok (fs_ls s0)" "shapes s0" "lft (fs_ls s0) < n" "f_numparams s0 = 0" "regs s0 = (0, a, 0)" "f_is_vararg s0 = 0"
      "nactvar s0 = a"
    using assms(1-3) a by (simp_all add: s0_def shapes_vararg regs_def)
  have "settles (\<lambda>(np, x). adv 0 s0 x \<and> regs x = (0, a, 0) \<and> 0 \<le> np \<and> a + np \<le> LUAI_MAXVARS \<and> (f_is_vararg x = 0 \<or> 1 \<le> np))
      (if cur_token s0 \<noteq> uchar CHR '')'' then params_loop n E 0 s0 else Inr (0, s0))"
    using s0 a by (auto simp: adv_def LUAI_MAXVARS_def intro!: params_loop_adv)
  then show ?thesis
    unfolding parlist_def Let_def s0_def [symmetric] settles_simps
  proof (rule settles_use)
    fix y assume y: "case y of (np, x) \<Rightarrow> adv 0 s0 x \<and> regs x = (0, a, 0) \<and> 0 \<le> np \<and> a + np \<le> LUAI_MAXVARS \<and> (f_is_vararg x = 0 \<or> 1 \<le> np)"
    obtain np x where np: "y = (np, x)" by fastforce
    have x: "adv 0 s0 x" "fs_freereg x = 0" "nactvar x = a" "f_numparams x = 0" "(a + np) mod 256 = a + np"
        "f_is_vararg x = 0 \<or> 1 \<le> np" "0 \<le> np" "a + np \<le> 200"
      using y a unfolding np by (auto simp: regs_def LUAI_MAXVARS_def)
    have ok: "ok x" using x(1) by (simp add: adv_def)
    have "settles (adv 0 s) (luaK_reserveregs (nactvar (z\<lparr>f_numparams := (nactvar z - uint (f_is_vararg z AND VARARG_HASARG)) mod 256\<rparr>))
        (z\<lparr>f_numparams := (nactvar z - uint (f_is_vararg z AND VARARG_HASARG)) mod 256\<rparr>))"
      if z: "key z = key x \<and> regs z = (fs_freereg x, (nactvar x + np) mod 256, f_numparams x) \<and> f_is_vararg z = f_is_vararg x" for z
    proof -
      have "adv 0 s z" using z x(1) by (auto simp: adv_def s0_def)
      then show ?thesis using params_registers [of s z] z x a by (auto simp: regs_def)
    qed
    then show "settles (adv 0 s) (case y of (k, x) \<Rightarrow> bindE (adjustlocalvars k x) (\<lambda>x.
        luaK_reserveregs (nactvar (x\<lparr>f_numparams := (nactvar x - uint (f_is_vararg x AND VARARG_HASARG)) mod 256\<rparr>))
          (x\<lparr>f_numparams := (nactvar x - uint (f_is_vararg x AND VARARG_HASARG)) mod 256\<rparr>)))"
      unfolding np prod.case settles_simps by (rule adjustlocalvars_kept [OF ok])
  qed
qed

lemma body_adv [THEN settles_use, wps]:
  "lex_ok (fs_ls s) \<Longrightarrow> shapes s \<Longrightarrow> lft (fs_ls s) < n \<Longrightarrow> settles (adv2 1 s) (body n E chk self line s)"
  by (auto simp: body_def Let_def adv_def regs_def intro!: wps)

lemma explist_loop_adv [THEN settles_use, wps]:
  "lex_ok (fs_ls s) \<Longrightarrow> shapes s \<Longrightarrow> lft (fs_ls s) < n \<Longrightarrow> lft (fs_ls s) < k \<Longrightarrow> settles (adv2 0 s) (explist_loop k E sub j v s)"
proof (induction k arbitrary: j v s)
  case (Suc k)
  show ?case using Suc.prems by (auto simp: adv_def intro!: wps Suc.IH [THEN settles_use])
qed simp

lemma explist1_adv [THEN settles_use, wps]:
  "lex_ok (fs_ls s) \<Longrightarrow> shapes s \<Longrightarrow> lft (fs_ls s) < n \<Longrightarrow> settles (adv2 1 s) (explist1 n E sub s)"
  by (auto simp: explist1_def adv_def intro!: wps)

lemma call_args_adv [THEN settles_use, wps]:
  "lex_ok (fs_ls s) \<Longrightarrow> shapes s \<Longrightarrow> lft (fs_ls s) < n \<Longrightarrow> settles (adv2 1 s) (call_args n E sub line s)"
  by (auto simp: call_args_def adv_def intro!: wps)

lemma funcargs_adv [THEN settles_use, wps]:
  "lex_ok (fs_ls s) \<Longrightarrow> shapes s \<Longrightarrow> lft (fs_ls s) < n \<Longrightarrow> settles (adv2 1 s) (funcargs n E sub f s)"
  by (auto simp: funcargs_def Let_def adv_def intro!: wps)

lemma prefixexp_adv [THEN settles_use, wps]:
  "lex_ok (fs_ls s) \<Longrightarrow> shapes s \<Longrightarrow> lft (fs_ls s) \<le> n \<Longrightarrow> settles (adv2 1 s) (prefixexp E sub s)"
  by (auto simp: prefixexp_def Let_def adv_def intro!: wps)

lemma primary_loop_adv [THEN settles_use, wps]:
  "lex_ok (fs_ls s) \<Longrightarrow> shapes s \<Longrightarrow> lft (fs_ls s) < n \<Longrightarrow> lft (fs_ls s) < k \<Longrightarrow> settles (adv2 0 s) (primary_loop k n E sub v s)"
proof (induction k arbitrary: v s)
  case (Suc k)
  show ?case using Suc.prems by (auto simp: adv_def intro!: wps Suc.IH [THEN settles_use])
qed simp

lemma primaryexp_adv [THEN settles_use, wps]:
  "lex_ok (fs_ls s) \<Longrightarrow> shapes s \<Longrightarrow> lft (fs_ls s) \<le> n \<Longrightarrow> settles (adv2 1 s) (primaryexp n E sub s)"
  by (auto simp: primaryexp_def adv_def intro!: wps)

lemma simpleexp_adv [THEN settles_use, wps]:
  "lex_ok (fs_ls s) \<Longrightarrow> shapes s \<Longrightarrow> lft (fs_ls s) \<le> n \<Longrightarrow> settles (adv2 1 s) (simpleexp n E sub chk s)"
  unfolding simpleexp_def Let_def by (intro if_settles) (auto simp: adv_def shapes_vararg(3) intro!: wps)

lemma binop_loop_adv [THEN settles_use, wps]:
  "lex_ok (fs_ls s) \<Longrightarrow> shapes s \<Longrightarrow> lft (fs_ls s) < n \<Longrightarrow> lft (fs_ls s) < k \<Longrightarrow> settles (adv2 0 s) (binop_loop k E sub l op v s)"
proof (induction k arbitrary: op v s)
  case (Suc k)
  show ?case using Suc.prems by (auto simp: adv_def intro!: wps Suc.IH [THEN settles_use])
qed simp

lemma subexpr_body_adv:
  "lex_ok (fs_ls s) \<Longrightarrow> shapes s \<Longrightarrow> lft (fs_ls s) \<le> n \<Longrightarrow> settles (adv2 1 s) (subexpr_body n E sub chk l s)"
  by (auto simp: subexpr_body_def Let_def adv_def intro!: wps dest: opr_token)

lemma block_adv [THEN settles_use, wps]:
  "lex_ok (fs_ls s) \<Longrightarrow> shapes s \<Longrightarrow> Suc (lft (fs_ls s)) < n \<Longrightarrow> settles (adv 0 s) (block E chk s)"
  by (auto simp: block_def adv_def intro!: wps)

lemma check_conflict_adv [THEN settles_use, wps]: "lex_ok (fs_ls s) \<Longrightarrow> shapes s \<Longrightarrow> settles (adv2 0 s) (check_conflict E lh v s)"
  by (auto simp: check_conflict_def Let_def adv_def intro!: wps)

lemma assign_values_adv [THEN settles_use, wps]:
  "lex_ok (fs_ls s) \<Longrightarrow> shapes s \<Longrightarrow> lft (fs_ls s) \<le> n \<Longrightarrow> settles (adv2 1 s) (assign_values n E sub v nv s)"
  by (auto simp: assign_values_def adv_def intro!: wps)

lemma assignment_adv [THEN settles_use, wps]:
  "lex_ok (fs_ls s) \<Longrightarrow> shapes s \<Longrightarrow> lft (fs_ls s) \<le> n \<Longrightarrow> lft (fs_ls s) < k \<Longrightarrow> settles (adv2 0 s) (assignment k n E sub lh nv s)"
proof (induction k arbitrary: lh nv s)
  case (Suc k)
  show ?case using Suc.prems by (auto simp: Let_def adv_def intro!: wps Suc.IH [THEN settles_use])
qed simp

lemma cond_adv [THEN settles_use, wps]:
  "lex_ok (fs_ls s) \<Longrightarrow> shapes s \<Longrightarrow> lft (fs_ls s) < n \<Longrightarrow> settles (adv2 1 s) (cond E sub s)"
  by (auto simp: cond_def adv_def intro!: wps)

lemma breakstat_adv [THEN settles_use, wps]: "lex_ok (fs_ls s) \<Longrightarrow> shapes s \<Longrightarrow> settles (adv 0 s) (breakstat E s)"
  by (auto simp: breakstat_def Let_def adv_def intro!: wps split: option.split)

lemma whilestat_adv [THEN settles_use, wps]:
  "lex_ok (fs_ls s) \<Longrightarrow> shapes s \<Longrightarrow> lft (fs_ls s) < n \<Longrightarrow> token (tok (fs_ls s)) \<noteq> TK_EOS \<Longrightarrow> settles (adv 1 s) (whilestat E sub chk line s)"
  by (auto simp: whilestat_def Let_def luaK_getlabel_def adv_def intro!: wps)

lemma repeatstat_adv [THEN settles_use, wps]:
  "lex_ok (fs_ls s) \<Longrightarrow> shapes s \<Longrightarrow> lft (fs_ls s) < n \<Longrightarrow> token (tok (fs_ls s)) \<noteq> TK_EOS \<Longrightarrow> settles (adv 1 s) (repeatstat E sub chk line s)"
  by (auto simp: repeatstat_def Let_def luaK_getlabel_def adv_def dest!: no_block intro!: wps split: list.split)

lemma exp1_adv [THEN settles_use, wps]:
  "lex_ok (fs_ls s) \<Longrightarrow> shapes s \<Longrightarrow> lft (fs_ls s) < n \<Longrightarrow> settles (adv2 1 s) (exp1 E sub s)"
  by (auto simp: exp1_def adv_def intro!: wps)

lemma for_jumps_kept [THEN settles_use]:
  "ok s \<Longrightarrow> settles (kept2 s) (if isnum then luaK_codeAsBx E OP_FORPREP bs NO_JUMP s else luaK_jump E s)"
  "ok s \<Longrightarrow> settles (kept2 s) (if isnum then luaK_codeAsBx E OP_FORLOOP bs NO_JUMP s else luaK_codeABC E OP_TFORLOOP bs 0 nv s)"
  "ok s \<Longrightarrow> settles (kept2 s) (if isnum then Inr (j, s) else luaK_jump E s)"
  by (auto intro!: wps)

lemma forbody_adv [THEN settles_use, wps]:
  "lex_ok (fs_ls s) \<Longrightarrow> shapes s \<Longrightarrow> lft (fs_ls s) < n \<Longrightarrow> settles (adv 1 s) (forbody E chk bs line nv isnum s)"
  by (auto simp: forbody_def adv_def intro!: wps for_jumps_kept split del: if_split)

lemma fornum_adv [THEN settles_use, wps]:
  "lex_ok (fs_ls s) \<Longrightarrow> shapes s \<Longrightarrow> lft (fs_ls s) < n \<Longrightarrow> settles (adv 1 s) (fornum E sub chk v line s)"
  by (auto simp: fornum_def Let_def adv_def intro!: wps)

lemma names_loop_adv [THEN settles_use, wps]:
  "lex_ok (fs_ls s) \<Longrightarrow> shapes s \<Longrightarrow> lft (fs_ls s) < k \<Longrightarrow> settles (adv2 0 s) (names_loop k E nv s)"
proof (induction k arbitrary: nv s)
  case (Suc k)
  show ?case using Suc.prems by (auto simp: adv_def intro!: wps Suc.IH [THEN settles_use])
qed simp

lemma forlist_adv [THEN settles_use, wps]:
  "lex_ok (fs_ls s) \<Longrightarrow> shapes s \<Longrightarrow> lft (fs_ls s) < n \<Longrightarrow> settles (adv 1 s) (forlist n E sub chk v s)"
  by (auto simp: forlist_def Let_def adv_def intro!: wps)

lemma forstat_adv [THEN settles_use, wps]:
  "lex_ok (fs_ls s) \<Longrightarrow> shapes s \<Longrightarrow> lft (fs_ls s) < n \<Longrightarrow> token (tok (fs_ls s)) \<noteq> TK_EOS \<Longrightarrow> settles (adv 1 s) (forstat n E sub chk line s)"
  by (auto simp: forstat_def adv_def intro!: wps)

lemma test_then_block_adv [THEN settles_use, wps]:
  "lex_ok (fs_ls s) \<Longrightarrow> shapes s \<Longrightarrow> lft (fs_ls s) < n \<Longrightarrow> token (tok (fs_ls s)) \<noteq> TK_EOS \<Longrightarrow> settles (adv2 1 s) (test_then_block E sub chk s)"
  by (auto simp: test_then_block_def adv_def intro!: wps)

lemma elseif_loop_adv [THEN settles_use, wps]:
  "lex_ok (fs_ls s) \<Longrightarrow> shapes s \<Longrightarrow> lft (fs_ls s) < n \<Longrightarrow> lft (fs_ls s) < k \<Longrightarrow> settles (adv2 0 s) (elseif_loop k E sub chk fl el s)"
proof (induction k arbitrary: fl el s)
  case (Suc k)
  show ?case using Suc.prems by (auto simp: adv_def intro!: wps Suc.IH [THEN settles_use])
qed simp

lemma ifstat_adv [THEN settles_use, wps]:
  "lex_ok (fs_ls s) \<Longrightarrow> shapes s \<Longrightarrow> lft (fs_ls s) < n \<Longrightarrow> token (tok (fs_ls s)) \<noteq> TK_EOS \<Longrightarrow> settles (adv 1 s) (ifstat n E sub chk line s)"
  by (auto simp: ifstat_def adv_def intro!: wps)

lemma localfunc_adv [THEN settles_use, wps]:
  "lex_ok (fs_ls s) \<Longrightarrow> shapes s \<Longrightarrow> lft (fs_ls s) < n \<Longrightarrow> settles (adv 1 s) (localfunc n E chk s)"
  by (auto simp: localfunc_def Let_def adv_def intro!: wps)

lemma localstat_adv [THEN settles_use, wps]:
  "lex_ok (fs_ls s) \<Longrightarrow> shapes s \<Longrightarrow> lft (fs_ls s) < n \<Longrightarrow> settles (adv 1 s) (localstat n E sub s)"
  by (auto simp: localstat_def adv_def intro!: wps)

lemma fields_loop_adv [THEN settles_use, wps]:
  "lex_ok (fs_ls s) \<Longrightarrow> shapes s \<Longrightarrow> lft (fs_ls s) < k \<Longrightarrow> settles (adv2 0 s) (fields_loop k E v s)"
proof (induction k arbitrary: v s)
  case (Suc k)
  show ?case using Suc.prems by (auto simp: adv_def intro!: wps Suc.IH [THEN settles_use])
qed simp

lemma funcname_adv [THEN settles_use, wps]:
  "lex_ok (fs_ls s) \<Longrightarrow> shapes s \<Longrightarrow> lft (fs_ls s) \<le> n \<Longrightarrow> settles (adv2 1 s) (funcname n E s)"
  by (auto simp: funcname_def adv_def intro!: wps)

lemma funcstat_adv [THEN settles_use, wps]:
  "lex_ok (fs_ls s) \<Longrightarrow> shapes s \<Longrightarrow> lft (fs_ls s) < n \<Longrightarrow> token (tok (fs_ls s)) \<noteq> TK_EOS \<Longrightarrow> settles (adv 1 s) (funcstat n E chk line s)"
  by (auto simp: funcstat_def adv_def intro!: wps)

lemma exprstat_adv [THEN settles_use, wps]:
  "lex_ok (fs_ls s) \<Longrightarrow> shapes s \<Longrightarrow> lft (fs_ls s) \<le> n \<Longrightarrow> settles (adv 1 s) (exprstat n E sub s)"
  by (auto simp: exprstat_def adv_def intro!: wps)

lemma return_values_adv [THEN settles_use, wps]:
  "lex_ok (fs_ls s) \<Longrightarrow> shapes s \<Longrightarrow> lft (fs_ls s) < n \<Longrightarrow> settles (adv2 1 s) (return_values n E sub s)"
  by (auto simp: return_values_def adv_def intro!: wps)

lemma retstat_adv [THEN settles_use, wps]:
  "lex_ok (fs_ls s) \<Longrightarrow> shapes s \<Longrightarrow> lft (fs_ls s) < n \<Longrightarrow> token (tok (fs_ls s)) \<noteq> TK_EOS \<Longrightarrow> settles (adv 1 s) (retstat n E sub s)"
  by (auto simp: retstat_def adv_def intro!: wps)

lemma statement_adv [THEN settles_use, wps]:
  "lex_ok (fs_ls s) \<Longrightarrow> shapes s \<Longrightarrow> lft (fs_ls s) < n \<Longrightarrow> settles (adv2 1 s) (statement n E sub chk s)"
  unfolding statement_def Let_def by (intro if_settles) (auto simp: adv_def intro!: wps)

lemma stat_loop_adv [THEN settles_use, wps]:
  "lex_ok (fs_ls s) \<Longrightarrow> shapes s \<Longrightarrow> lft (fs_ls s) < n \<Longrightarrow> lft (fs_ls s) < k \<Longrightarrow> settles (adv 0 s) (stat_loop k n E sub chk s)"
proof (induction k arbitrary: s)
  case (Suc k)
  show ?case using Suc.prems by (auto simp: Let_def adv_def intro!: wps Suc.IH [THEN settles_use])
qed simp

lemma chunk_body_adv:
  "lex_ok (fs_ls s) \<Longrightarrow> shapes s \<Longrightarrow> lft (fs_ls s) < n \<Longrightarrow> settles (adv 0 s) (chunk_body n E sub chk s)"
  by (auto simp: chunk_body_def adv_def intro!: wps)

end


lemma nonterminals_at: "nonterminals n (subexpr n E) (chunk n E)"
proof (induction n)
  case 0
  show ?case by unfold_locales simp_all
next
  case (Suc n)
  show ?case
  proof
    fix s :: ParState and l
    assume "lex_ok (fs_ls s)" "shapes s" "lft (fs_ls s) < Suc n"
    then show "settles (adv2 1 s) (subexpr (Suc n) E l s)"
      unfolding subexpr.simps less_Suc_eq_le by (rule nonterminals.subexpr_body_adv [OF Suc.IH])
  next
    fix s :: ParState
    assume "lex_ok (fs_ls s)" "shapes s" "Suc (lft (fs_ls s)) < Suc n"
    then show "settles (adv 0 s) (chunk (Suc n) E s)"
      unfolding chunk.simps Suc_less_eq by (rule nonterminals.chunk_body_adv [OF Suc.IH])
  qed
qed

interpretation parser: nonterminals n E "subexpr n E" "chunk n E" for n E
  by (rule nonterminals_at)

section \<open>The parser\<close>

lemma extend_simps [simp]:
  "fs_ls (FuncState.extend fs m) = fs_ls fs" "fs_bl (FuncState.extend fs m) = fs_bl fs"
  by (simp_all add: FuncState.defs)

lemma setinput_settles: "settles (\<lambda>x. lex_ok x \<and> lft x \<le> length z + 1) (luaX_setinput ls z source)"
proof (cases z)
  case Nil
  then show ?thesis by (simp add: luaX_setinput_def next_char_def lex_ok_def lft_def chars_left_def EOZ_def)
next
  case (Cons c w)
  have "- 1 \<le> uchar c" using uchar_ge_0 [of c] by linarith
  then show ?thesis using Cons by (simp add: luaX_setinput_def next_char_def lex_ok_def lft_def chars_left_def)
qed

lemma luaY_parser_settles:
  assumes "length z + 2 < n"
  shows "settles prechecks (luaY_parser n E ls m calls z name)"
proof -
  have v: "shape (fs\<lparr>f_is_vararg := VARARG_ISVARARG\<rparr>)" if "shape fs" "f_numparams fs = 0" for fs :: FuncState
    using that by (simp add: shape_def vararg_defs)
  have x: "shapes (FuncState.extend fs \<lparr>prevs = [], nCcalls = c\<rparr>) = shape fs" for fs c
  proof -
    have "prevs (FuncState.extend fs \<lparr>prevs = [], nCcalls = c\<rparr>) = []" by (simp add: FuncState.defs)
    then show ?thesis by (simp add: shapes_def ok_shape)
  qed
  show ?thesis
    unfolding luaY_parser_def using assms
    by (auto simp: Let_def adv_def v x intro!: settles_use [OF setinput_settles] wps parser.chk_rule settles_use [OF close_func_proto])
qed


text \<open>The source \<open>return\<close>, with an allocator that always serves.\<close>

definition source_env :: penv where
  "source_env = \<lparr>ce_mem = (\<lambda>_. True), ce_hash = (\<lambda>_. 7), luai_numadd = (\<lambda>a b. a), luai_numsub = (\<lambda>a b. a),
     luai_nummul = (\<lambda>a b. a), luai_numdiv = (\<lambda>a b. a), luai_numpow = (\<lambda>a b. a), num_floor = (\<lambda>a. a),
     pe_clib = \<lparr>strtod = (\<lambda>s. (0x3FF0000000000000, 1)), strtoul16 = (\<lambda>s. (0, 0)), ulong_to_double = (\<lambda>u. 0), decimal_point = None\<rparr>,
     str_addr = (\<lambda>s. 0), str_at = (\<lambda>a. []), h_addr = (\<lambda>n. of_nat n)\<rparr>"

definition source_lex :: LexState where
  "source_lex = \<lparr>current = 0, linenumber = 0, lastline = 0, tok = \<lparr>token = 0, seminfo = Sem_r 0\<rparr>, lookahead = \<lparr>token = 0, seminfo = Sem_r 0\<rparr>,
     input = [], at_end = False, buff = [], buffsize = 0, source_name = [], decpoint = CHR ''.'', anchored = []\<rparr>"

definition source_mem :: mem_state where
  "source_mem = \<lparr>totalbytes = 0, allocbytes = 0, freebytes = 0\<rparr>"

lemma source_compiles:
  "\<not> isl (luaY_parser 9 source_env source_lex source_mem 0 ''return'' ''x'')"
  by code_simp


end
