(* ===== verification/Spec2Isabelle.thy ===== *)
theory Spec2Isabelle
  imports Lua_CodeCheck Lua_Undump Lua_String Lua_StrLib Lua_TableProps Lua_LexProps Lua_TabLib Lua_ApiProps Lua_CodeProps
    Lua_ParserProps
begin

text \<open>
  Verification of the core of Lua 5.1.4 with reference counting (the sources are under \<^verbatim>\<open>src/src\<close>).

  \<^bold>\<open>The program.\<close> Source text is scanned (\<^verbatim>\<open>llex.c\<close>) and compiled to prototypes, or a precompiled chunk is
  loaded (\<^verbatim>\<open>lundump.c\<close>), read through a buffered stream (\<^verbatim>\<open>lzio.c\<close>) and checked (\<^verbatim>\<open>ldebug.c\<close>); \<^verbatim>\<open>ldump.c\<close> writes
  chunks. Values are tagged (\<^verbatim>\<open>lobject.h\<close>); strings are interned in one table (\<^verbatim>\<open>lstring.c\<close>), tables have an array
  and a hash part (\<^verbatim>\<open>ltable.c\<close>). This variant counts references: every object has a count, the macros that set a
  value keep it, and an object whose count comes down to nothing is released at once, with everything that
  dies with it (\<^verbatim>\<open>lgc.c\<close>), beside the tracing collector. C code sees Lua through a stack (\<^verbatim>\<open>lapi.c\<close>), on which
  the libraries are built (\<^verbatim>\<open>lstrlib.c\<close>, \<^verbatim>\<open>ltablib.c\<close>).

  \<^bold>\<open>Conventions.\<close> A computation that can fail has type \<open>lua_err + 'a\<close>; \<open>LUA_ERRRUN\<close> is an error the program raises,
  \<open>UB\<close> a read or write outside its object, a use of a freed object or a NULL followed, so a theorem that a
  computation returns (\<open>Inr\<close>) also says that it stays within its objects. Pointers into arrays are indices,
  machine integers are words, a \<open>double\<close> is its bit pattern. A loop or recursion that is not structural has its
  termination proof; one whose bound lies in the data has fuel, and the theorems give fuel that is enough: the
  size of a hash part for a chain (\<open>sizenode\<close>), the number of live objects for the nesting of releases, the
  length of the source for the parser.

  \<^bold>\<open>Theories.\<close>
  \<^item> \<^verbatim>\<open>Lua_Prelude\<close>: the error type and its \<open>bindE\<close>, \<open>returns\<close> (a computation returns and its result satisfies a
    predicate), characters and \<open>ctype.h\<close>.
  \<^item> \<^verbatim>\<open>Lua_Object\<close>: tagged values, numbers, raw equality, \<open>luaO_int2fb\<close>, \<open>luaO_log2\<close>, chunk identifiers
    (\<^verbatim>\<open>lobject.c\<close>); \<^verbatim>\<open>Lua_Opcodes\<close>: instruction words, over the locale \<open>instr_field\<close> of one field, and the table of
    opcode modes (\<^verbatim>\<open>lopcodes.c\<close>); \<^verbatim>\<open>Lua_Proto\<close>: prototypes (\<^verbatim>\<open>lfunc.c\<close>).
  \<^item> \<^verbatim>\<open>Lua_CodeCheck\<close>: the bytecode checker with its symbolic execution (\<^verbatim>\<open>ldebug.c\<close>). Accepted code keeps control
    inside the code array and operands inside the frame, the constants, the upvalues and the prototypes; the
    checker itself stays within bounds. One skip is not checked.
  \<^item> \<^verbatim>\<open>Lua_Mem\<close> (\<^verbatim>\<open>lmem.c\<close>), \<^verbatim>\<open>Lua_Zio\<close> (\<^verbatim>\<open>lzio.c\<close>, locale \<open>byte_reader\<close>), \<^verbatim>\<open>Lua_Dump\<close> (\<^verbatim>\<open>ldump.c\<close>, locale \<open>byte_writer\<close>)
    and \<^verbatim>\<open>Lua_Undump\<close> (\<^verbatim>\<open>lundump.c\<close>): dumping and loading are inverse, truncated chunks are refused, every loaded
    prototype has been checked.
  \<^item> \<^verbatim>\<open>Lua_String\<close>: the string table with its doubly linked chains (\<^verbatim>\<open>lstring.c\<close>, \<open>luarc_freestring\<close>): equal strings
    have equal addresses.
  \<^item> \<^verbatim>\<open>Lua_Table\<close>, \<^verbatim>\<open>Lua_TableLaws\<close>, \<^verbatim>\<open>Lua_Rehash\<close>, \<^verbatim>\<open>Lua_TableProps\<close>: the operations of \<^verbatim>\<open>ltable.c\<close>, the invariant of
    chains and collisions, insertion with rehash, and what a table is to its user: a finite map, a traversal
    that lists it, a border.
  \<^item> \<^verbatim>\<open>Lua_StrMatch\<close>, \<^verbatim>\<open>Lua_StrLib\<close>: pattern matching against a declarative relation, and the string functions
    (\<^verbatim>\<open>lstrlib.c\<close>); \<^verbatim>\<open>Lua_Lex\<close>, \<^verbatim>\<open>Lua_LexProps\<close>: the scanner (\<^verbatim>\<open>llex.c\<close>), which ends on every input and reads back
    what \<open>%q\<close> writes; \<^verbatim>\<open>Lua_TabLib\<close>: sorting and sequences (\<^verbatim>\<open>ltablib.c\<close>) over the locale \<open>int_array\<close>,
    interpreted on the raw accesses to a table.
  \<^item> \<^verbatim>\<open>Lua_Refs\<close>, \<^verbatim>\<open>Lua_RefProps\<close>: the heap of objects, their lists, marking, barriers, closures and upvalues, and
    the release of objects (\<^verbatim>\<open>lgc.c\<close>, \<^verbatim>\<open>lfunc.c\<close>, \<^verbatim>\<open>lobject.h\<close>). With exact counts a dropped reference frees exactly
    what nothing refers to any more.
  \<^item> \<^verbatim>\<open>Lua_Api\<close>, \<^verbatim>\<open>Lua_ApiProps\<close>: the C interface on that heap (\<^verbatim>\<open>lapi.c\<close>): its stack operations refine operations on
    lists and keep the counts exact, as long as no thread has an open upvalue and nothing has a finalizer.
  \<^item> \<^verbatim>\<open>Lua_Code\<close>, \<^verbatim>\<open>Lua_CodeProps\<close>: the code generator (\<^verbatim>\<open>lcode.c\<close>): jump lists are patched and joined exactly, constants
    are pooled; a break behind a large constructor damages its count word.
  \<^item> \<^verbatim>\<open>Lua_Parser\<close>, \<^verbatim>\<open>Lua_ParserProps\<close>: the parser (\<^verbatim>\<open>lparser.c\<close>), one operation per nonterminal, over the scanner and the
    code generator. Its proof is in the locale \<open>nonterminals\<close>, in which the two recursive nonterminals \<open>subexpr\<close> and
    \<open>chunk\<close> only keep their contract (they end, read on, and leave the functions and blocks as deep as they were);
    it is interpreted on the two for every fuel. Each nested level has read a character, so fuel of the length of
    the source plus three is enough; what is compiled passes the first part of the bytecode checker.

  \<^bold>\<open>Parameters.\<close> Code that is not in the repository is an argument: the allocator, readers and writers, \<open>strtod\<close>,
  \<open>sprintf\<close> (one conversion writes no more than its width and its value need), \<open>strcoll\<close>, finalizers, comparison functions and callbacks written in Lua.

  \<^bold>\<open>Not modelled.\<close> The interpreter loop and the calls it makes, coroutines, the tracing cycle of the collector, and the
  input/output, operating system, mathematics, debug and profile libraries; allocation failure outside
  \<^verbatim>\<open>lmem.c\<close>; the depth of the C stack (a release of a long chain of objects nests as deep as the chain);
  the profile counters. Chunks of other versions of Lua are only refused.
\<close>

end
